(* ===== verification/Prelude.thy ===== *)
theory Prelude
  imports Main "HOL-Library.Word" "HOL-Library.Monad_Syntax"
begin

text \<open>
  The vocabulary the component theories share.

  \<^item> C scalar types as words of their width, pointers as optional addresses (\<open>None\<close> is
    \<open>NULL\<close>).
  \<^item> A heap of cells of one type with a bump allocator that never reuses an address and an
    oracle that says which allocation fails. A cell that is not mapped is not allocated: it was
    never handed out, or it has been freed. Every dereference goes through the heap, so the
    result \<open>None\<close> of an operation means undefined behaviour of the C code (a \<open>NULL\<close>
    dereference, a use after free, a double free, a read out of bounds) or a loop that does not
    end. The ordinary failures of the code (return codes, \<open>NULL\<close> results) are values.
  \<^item> Doubly linked segments: the relation between a chain of cells and the list of addresses
    and values it represents, with the lemmas that update, extend and shorten it.
\<close>

section \<open>Types\<close>

type_synonym addr = nat
type_synonym ptr = "addr option"
type_synonym byte = "8 word"
type_synonym size_t = "64 word"
type_synonym uint = "32 word"
type_synonym c_int = int

named_theorems heap_simps \<open>definitions of the heap primitives\<close>

section \<open>Bytes\<close>

lemma bit_byte_high [simp]: "8 \<le> n \<Longrightarrow> \<not> bit (x :: byte) n"
  by (auto dest: bit_imp_le_length)

lemma byte_eqI:
  fixes x y :: byte
  assumes "bit x 0 = bit y 0" "bit x 1 = bit y 1" "bit x 2 = bit y 2" "bit x 3 = bit y 3"
    "bit x 4 = bit y 4" "bit x 5 = bit y 5" "bit x 6 = bit y 6" "bit x 7 = bit y 7"
  shows "x = y"
proof (rule bit_word_eqI)
  fix n assume "n < LENGTH(8)"
  then have "n \<in> {0, 1, 2, 3, 4, 5, 6, 7}" by auto
  with assms show "bit x n = bit y n" by auto
qed

section \<open>The heap\<close>

record 'c heap =
  hp_mem :: "addr \<Rightarrow> 'c option"
  hp_brk :: nat
  hp_oom :: "nat \<Rightarrow> bool"

definition heap_ok :: "'c heap \<Rightarrow> bool" where
  "heap_ok h \<longleftrightarrow> (\<forall>a. hp_brk h \<le> a \<longrightarrow> hp_mem h a = None)"

definition h_modify :: "'c heap \<Rightarrow> addr \<Rightarrow> ('c \<Rightarrow> 'c) \<Rightarrow> 'c heap option" where
  [heap_simps]: "h_modify h a f =
     (case hp_mem h a of None \<Rightarrow> None | Some c \<Rightarrow> Some (h\<lparr>hp_mem := (hp_mem h)(a \<mapsto> f c)\<rparr>))"

definition h_free :: "'c heap \<Rightarrow> addr \<Rightarrow> 'c heap option" where
  [heap_simps]: "h_free h a =
     (case hp_mem h a of None \<Rightarrow> None | Some c \<Rightarrow> Some (h\<lparr>hp_mem := (hp_mem h)(a := None)\<rparr>))"

text \<open>Allocation of a cell: the next address, unless the oracle makes this allocation fail.\<close>

definition h_alloc :: "'c heap \<Rightarrow> 'c \<Rightarrow> ptr \<times> 'c heap" where
  [heap_simps]: "h_alloc h c =
     (if hp_oom h (hp_brk h) then (None, h\<lparr>hp_brk := Suc (hp_brk h)\<rparr>)
      else (Some (hp_brk h), h\<lparr>hp_mem := (hp_mem h)(hp_brk h \<mapsto> c), hp_brk := Suc (hp_brk h)\<rparr>))"

text \<open>
  Allocation of a buffer that one cell owns (a copied string, a copied payload): it is stored in
  the cell by value, so the heap only records whether the allocation succeeded.
\<close>

definition h_malloc :: "'c heap \<Rightarrow> bool \<times> 'c heap" where
  [heap_simps]: "h_malloc h = (\<not> hp_oom h (hp_brk h), h\<lparr>hp_brk := Suc (hp_brk h)\<rparr>)"

text \<open>The heap before anything has been allocated, on a machine that never runs out of memory.\<close>

definition empty_heap :: "'c heap" where
  "empty_heap = \<lparr>hp_mem = \<lambda>_. None, hp_brk = 0, hp_oom = \<lambda>_. False\<rparr>"

lemma empty_heap_simps [simp]:
  "hp_mem empty_heap = (\<lambda>_. None)" "hp_brk empty_heap = 0" "hp_oom empty_heap = (\<lambda>_. False)"
  "heap_ok empty_heap"
  by (simp_all add: empty_heap_def heap_ok_def)

lemma heap_ok_modify: "heap_ok h \<Longrightarrow> h_modify h a f = Some h' \<Longrightarrow> heap_ok h'"
  by (fastforce simp: heap_ok_def h_modify_def split: option.splits)

lemma heap_ok_free: "heap_ok h \<Longrightarrow> h_free h a = Some h' \<Longrightarrow> heap_ok h'"
  by (auto simp: heap_ok_def h_free_def split: option.splits)

lemma heap_ok_alloc: "heap_ok h \<Longrightarrow> h_alloc h c = (p, h') \<Longrightarrow> heap_ok h'"
  by (auto simp: heap_ok_def h_alloc_def split: if_splits)

lemma heap_ok_malloc: "heap_ok h \<Longrightarrow> h_malloc h = (b, h') \<Longrightarrow> heap_ok h'"
  by (auto simp: heap_ok_def h_malloc_def)

lemma alloc_cases:
  assumes "heap_ok h"
  obtains (no_memory) h1 where "h_alloc h c = (None, h1)" "hp_mem h1 = hp_mem h" "heap_ok h1" "hp_oom h1 = hp_oom h" "hp_oom h (hp_brk h)"
    | (fresh) i h1 where "h_alloc h c = (Some i, h1)" "hp_mem h i = None" "hp_mem h1 = (hp_mem h)(i \<mapsto> c)" "heap_ok h1" "hp_oom h1 = hp_oom h"
proof (cases "hp_oom h (hp_brk h)")
  case True
  show thesis by (rule no_memory [of "h\<lparr>hp_brk := Suc (hp_brk h)\<rparr>"]) (use True assms in \<open>auto simp: h_alloc_def heap_ok_def\<close>)
next
  case False
  show thesis by (rule fresh [of "hp_brk h" "h\<lparr>hp_mem := (hp_mem h)(hp_brk h \<mapsto> c), hp_brk := Suc (hp_brk h)\<rparr>"])
    (use False assms in \<open>auto simp: h_alloc_def heap_ok_def\<close>)
qed

lemma heap_ok_brk: "heap_ok h \<Longrightarrow> hp_mem h (hp_brk h) = None"
  by (simp add: heap_ok_def)

lemma heap_ok_upd [intro]: "heap_ok h \<Longrightarrow> hp_mem h a \<noteq> None \<Longrightarrow> heap_ok (h\<lparr>hp_mem := (hp_mem h)(a := x)\<rparr>)"
  by (auto simp: heap_ok_def)

lemmas heap_ok_intros = heap_ok_modify heap_ok_free heap_ok_alloc heap_ok_malloc

section \<open>Doubly linked segments\<close>

record 'v node =
  n_prev :: ptr
  n_next :: ptr
  n_val :: 'v

type_synonym 'v nmem = "addr \<Rightarrow> 'v node option"

text \<open>
  \<open>dllseg m p f xs l q\<close>: starting at \<open>f\<close>, the cells of \<open>m\<close> hold the nodes
  \<open>xs\<close> (address and value) in order; the first points back to \<open>p\<close>, the last is
  \<open>l\<close> (or \<open>p\<close>, for an empty segment) and points forward to \<open>q\<close>.
\<close>

primrec dllseg :: "'v nmem \<Rightarrow> ptr \<Rightarrow> ptr \<Rightarrow> (addr \<times> 'v) list \<Rightarrow> ptr \<Rightarrow> ptr \<Rightarrow> bool" where
  "dllseg m p f [] l q \<longleftrightarrow> f = q \<and> l = p"
| "dllseg m p f (x # xs) l q \<longleftrightarrow>
     f = Some (fst x) \<and>
     (\<exists>n. m (fst x) = Some n \<and> n_prev n = p \<and> n_val n = snd x \<and>
          dllseg m (Some (fst x)) (n_next n) xs l q)"

abbreviation addrs :: "(addr \<times> 'v) list \<Rightarrow> addr list" where
  "addrs xs \<equiv> map fst xs"

lemma dllseg_append:
  "dllseg m p f (xs @ ys) l q \<longleftrightarrow> (\<exists>l' f'. dllseg m p f xs l' f' \<and> dllseg m l' f' ys l q)"
  by (induction xs arbitrary: p f) force+

lemma dllseg_upd_other [simp]:
  "a \<notin> set (addrs xs) \<Longrightarrow> dllseg (m(a := c)) p f xs l q = dllseg m p f xs l q"
  by (induction xs arbitrary: p f) auto

lemma dllseg_cong:
  "(\<And>a. a \<in> set (addrs xs) \<Longrightarrow> m' a = m a) \<Longrightarrow> dllseg m' p f xs l q = dllseg m p f xs l q"
  by (induction xs arbitrary: p f) auto

lemma dllseg_mapped: "dllseg m p f xs l q \<Longrightarrow> (a, v) \<in> set xs \<Longrightarrow> \<exists>n. m a = Some n \<and> n_val n = v"
  by (induction xs arbitrary: p f) auto

lemma dllseg_dom: "dllseg m p f xs l q \<Longrightarrow> a \<in> set (addrs xs) \<Longrightarrow> \<exists>n. m a = Some n"
  using dllseg_mapped by fastforce

lemma dllseg_first: "dllseg m p f xs l q \<Longrightarrow> f = (if xs = [] then q else Some (fst (hd xs)))"
  by (cases xs) auto

lemma dllseg_last: "dllseg m p f xs l q \<Longrightarrow> l = (if xs = [] then p else Some (fst (last xs)))"
  by (induction xs arbitrary: p f) auto

text \<open>Taking a segment apart around one node, and putting it together again.\<close>

lemma dllseg_split:
  "dllseg m p f (xs @ (a, v) # ys) l q \<longleftrightarrow>
     (\<exists>n. m a = Some n \<and> n_val n = v \<and> dllseg m p f xs (n_prev n) (Some a) \<and>
          dllseg m (Some a) (n_next n) ys l q)"
  by (auto simp: dllseg_append)

lemma dllseg_snoc:
  "dllseg m p f (xs @ [(a, v)]) l q \<longleftrightarrow>
     (\<exists>n. m a = Some n \<and> n_val n = v \<and> n_next n = q \<and> l = Some a \<and> dllseg m p f xs (n_prev n) (Some a))"
  by (auto simp: dllseg_append)

text \<open>Redirecting what the two ends of a segment point to.\<close>

lemma dllseg_set_next:
  assumes "dllseg m p f xs l q" and "xs \<noteq> []" and "distinct (addrs xs)"
    and "l = Some a" and "m a = Some n"
  shows "dllseg (m(a \<mapsto> n\<lparr>n_next := q'\<rparr>)) p f xs l q'"
proof -
  obtain ys x where xs: "xs = ys @ [x]" using assms(2) by (metis rev_exhaust)
  obtain b v where x: "x = (b, v)" by (cases x)
  have "b = a" using assms(1,4) by (auto simp: xs x dllseg_snoc)
  with assms show ?thesis by (auto simp: xs x dllseg_snoc)
qed

lemma dllseg_set_prev:
  assumes "dllseg m p f xs l q" and "xs \<noteq> []" and "distinct (addrs xs)"
    and "f = Some a" and "m a = Some n"
  shows "dllseg (m(a \<mapsto> n\<lparr>n_prev := p'\<rparr>)) p' f xs l q"
  using assms by (cases xs) auto

text \<open>Changing the value of one node.\<close>

lemma dllseg_set_val:
  assumes "dllseg m p f (xs @ (a, v) # ys) l q" and "distinct (addrs (xs @ (a, v) # ys))"
    and "m a = Some n"
  shows "dllseg (m(a \<mapsto> n\<lparr>n_val := w\<rparr>)) p f (xs @ (a, w) # ys) l q"
  using assms by (auto simp: dllseg_split)

lemma dllseg_find:
  "a \<in> set (addrs xs) \<Longrightarrow> \<exists>ys v zs. xs = ys @ (a, v) # zs"
  by (metis (mono_tags, opaque_lifting) image_set list.set_map imageE prod.collapse split_list)

section \<open>Unlinking a node\<close>

text \<open>
  The two conditional assignments by which both \<open>list_remove\<close> (list.c) and
  \<open>lru_cache_remove_entry\<close> (lru_cache.c) take a node out of a chain: the neighbours, or the
  head and tail fields where there is no neighbour, are redirected around it.
\<close>

definition dl_unlink :: "'v node heap \<Rightarrow> ptr \<Rightarrow> ptr \<Rightarrow> addr \<Rightarrow> ('v node heap \<times> ptr \<times> ptr) option" where
  "dl_unlink h hd0 tl0 a = do {
     n \<leftarrow> hp_mem h a;
     (h1, hd1) \<leftarrow> (case n_prev n of
         Some b \<Rightarrow> do { h' \<leftarrow> h_modify h b (n_next_update (\<lambda>_. n_next n)); Some (h', hd0) }
       | None \<Rightarrow> Some (h, n_next n));
     (h2, tl1) \<leftarrow> (case n_next n of
         Some b \<Rightarrow> do { h' \<leftarrow> h_modify h1 b (n_prev_update (\<lambda>_. n_prev n)); Some (h', tl0) }
       | None \<Rightarrow> Some (h1, n_prev n));
     Some (h2, hd1, tl1)
   }"

text \<open>What an operation on one chain leaves alone: every cell outside the given addresses, and the allocator.\<close>

definition same_outside :: "addr set \<Rightarrow> 'c heap \<Rightarrow> 'c heap \<Rightarrow> bool" where
  "same_outside A h h' \<longleftrightarrow> (\<forall>b. b \<notin> A \<longrightarrow> hp_mem h' b = hp_mem h b) \<and>
     hp_brk h' = hp_brk h \<and> hp_oom h' = hp_oom h"

lemma same_outside_refl [simp, intro]: "same_outside A h h"
  by (simp add: same_outside_def)

lemma same_outside_trans: "same_outside A h h' \<Longrightarrow> same_outside A h' h'' \<Longrightarrow> same_outside A h h''"
  by (simp add: same_outside_def)

lemma same_outside_mono: "same_outside A h h' \<Longrightarrow> A \<subseteq> B \<Longrightarrow> same_outside B h h'"
  by (auto simp: same_outside_def)

lemma same_outside_upd [simp, intro]: "a \<in> A \<Longrightarrow> same_outside A h (h\<lparr>hp_mem := (hp_mem h)(a := x)\<rparr>)"
  by (simp add: same_outside_def)

lemma same_outsideD: "same_outside A h h' \<Longrightarrow> b \<notin> A \<Longrightarrow> hp_mem h' b = hp_mem h b"
  by (simp add: same_outside_def)

lemma same_outside_alloc: "same_outside A h h' \<Longrightarrow> hp_brk h' = hp_brk h \<and> hp_oom h' = hp_oom h"
  by (simp add: same_outside_def)

lemma heap_ok_same_outside:
  "heap_ok h \<Longrightarrow> same_outside A h h' \<Longrightarrow> (\<And>b. b \<in> A \<Longrightarrow> hp_mem h b \<noteq> None) \<Longrightarrow> heap_ok h'"
  unfolding heap_ok_def same_outside_def by metis

lemma same_outside_dllseg:
  "same_outside A h h' \<Longrightarrow> A \<inter> set (addrs xs) = {} \<Longrightarrow>
     dllseg (hp_mem h') p f xs l q = dllseg (hp_mem h) p f xs l q"
  by (rule dllseg_cong) (auto simp: same_outside_def)

text \<open>Redirecting the forward pointer that leads to the second half of a chain, or the head field.\<close>

lemma relink_forward:
  assumes "dllseg (hp_mem h) None hd0 xs p q" and "distinct (addrs xs)"
  shows "\<exists>h' hd1. (case p of
         Some b \<Rightarrow> do { h' \<leftarrow> h_modify h b (n_next_update (\<lambda>_. q')); Some (h', hd0) }
       | None \<Rightarrow> Some (h, q')) = Some (h', hd1) \<and>
     dllseg (hp_mem h') None hd1 xs p q' \<and> same_outside (set (addrs xs)) h h'"
proof (cases "xs = []")
  case True
  with assms show ?thesis by auto
next
  case False
  with assms(1) have p: "p = Some (fst (last xs))" by (auto dest: dllseg_last)
  have mem: "fst (last xs) \<in> set (addrs xs)" using False by auto
  then obtain n where n: "hp_mem h (fst (last xs)) = Some n"
    using assms(1) dllseg_dom by blast
  from dllseg_set_next [OF assms(1) False assms(2) p n] show ?thesis
    using mem by (simp add: p n h_modify_def)
qed

lemma relink_backward:
  assumes "dllseg (hp_mem h) p f ys tl0 None" and "distinct (addrs ys)"
  shows "\<exists>h' tl1. (case f of
         Some b \<Rightarrow> do { h' \<leftarrow> h_modify h b (n_prev_update (\<lambda>_. p')); Some (h', tl0) }
       | None \<Rightarrow> Some (h, p')) = Some (h', tl1) \<and>
     dllseg (hp_mem h') p' f ys tl1 None \<and> same_outside (set (addrs ys)) h h'"
proof (cases "ys = []")
  case True
  with assms show ?thesis by auto
next
  case False
  with assms(1) have f: "f = Some (fst (hd ys))" by (auto dest: dllseg_first)
  have mem: "fst (hd ys) \<in> set (addrs ys)" using False by auto
  then obtain n where n: "hp_mem h (fst (hd ys)) = Some n"
    using assms(1) dllseg_dom by blast
  from dllseg_set_prev [OF assms(1) False assms(2) f n] show ?thesis
    using mem by (simp add: f n h_modify_def)
qed

lemma dl_unlink_spec:
  assumes seg: "dllseg (hp_mem h) None hd0 (xs @ (a, v) # ys) tl0 None"
    and dist: "distinct (addrs (xs @ (a, v) # ys))"
  shows "\<exists>h' hd1 tl1. dl_unlink h hd0 tl0 a = Some (h', hd1, tl1) \<and>
     dllseg (hp_mem h') None hd1 (xs @ ys) tl1 None \<and>
     same_outside (set (addrs (xs @ ys))) h h'"
proof -
  from seg obtain n where n: "hp_mem h a = Some n"
    and xs: "dllseg (hp_mem h) None hd0 xs (n_prev n) (Some a)"
    and ys: "dllseg (hp_mem h) (Some a) (n_next n) ys tl0 None"
    by (auto simp: dllseg_split)
  have dx: "distinct (addrs xs)" and dy: "distinct (addrs ys)"
    and disj: "set (addrs xs) \<inter> set (addrs ys) = {}" using dist by auto
  obtain h1 hd1 where step1: "(case n_prev n of
         Some b \<Rightarrow> do { h' \<leftarrow> h_modify h b (n_next_update (\<lambda>_. n_next n)); Some (h', hd0) }
       | None \<Rightarrow> Some (h, n_next n)) = Some (h1, hd1)"
    and xs1: "dllseg (hp_mem h1) None hd1 xs (n_prev n) (n_next n)"
    and s1: "same_outside (set (addrs xs)) h h1"
    using relink_forward [OF xs dx] by blast
  have ys1: "dllseg (hp_mem h1) (Some a) (n_next n) ys tl0 None"
    using ys s1 disj by (simp add: same_outside_dllseg)
  obtain h2 tl1 where step2: "(case n_next n of
         Some b \<Rightarrow> do { h' \<leftarrow> h_modify h1 b (n_prev_update (\<lambda>_. n_prev n)); Some (h', tl0) }
       | None \<Rightarrow> Some (h1, n_prev n)) = Some (h2, tl1)"
    and ys2: "dllseg (hp_mem h2) (n_prev n) (n_next n) ys tl1 None"
    and s2: "same_outside (set (addrs ys)) h1 h2"
    using relink_backward [OF ys1 dy] by blast
  have "dllseg (hp_mem h2) None hd1 xs (n_prev n) (n_next n)"
    using xs1 s2 disj by (simp add: same_outside_dllseg Int_commute)
  then have "dllseg (hp_mem h2) None hd1 (xs @ ys) tl1 None"
    using ys2 by (auto simp: dllseg_append)
  moreover have "same_outside (set (addrs (xs @ ys))) h h2"
    using s1 s2 by (auto intro: same_outside_trans same_outside_mono)
  ultimately show ?thesis
    by (simp add: dl_unlink_def n step1 step2)
qed

end
