(* ===== verification/DList.thy ===== *)
theory DList
  imports Prelude
begin

text \<open>
  The doubly linked list of \<^verbatim>\<open>src/vendor/list\<close> (list.c, list_node.c, list_iterator.c), on the
  heap of \<open>Prelude\<close>: every \<open>->\<close> of the source is an access to the heap, so a
  dereference of \<open>NULL\<close> or of a freed node makes the operation \<open>None\<close>. The header
  \<open>list_t\<close> is passed by value and returned updated. Its \<open>free\<close> callback is recorded by
  the values it is called on, in order.

  The lemmas show that, on a well-formed list (\<open>list_repr\<close>), every operation is defined and
  does to the represented sequence what its documentation says.
\<close>

section \<open>Data\<close>

datatype list_direction_t = LIST_HEAD | LIST_TAIL

record 'v list_t =
  l_head :: ptr
  l_tail :: ptr
  l_len :: uint
  l_free :: bool
  l_match :: "('v \<Rightarrow> 'v \<Rightarrow> bool) option"

record list_iterator_t =
  it_next :: ptr
  it_direction :: list_direction_t

section \<open>Operations\<close>

definition list_new :: "'v node heap \<Rightarrow> 'v list_t option \<times> 'v node heap" where
  "list_new h = (let (ok, h1) = h_malloc h in
     if \<not> ok then (None, h1)
     else (Some \<lparr>l_head = None, l_tail = None, l_len = 0, l_free = False, l_match = None\<rparr>, h1))"

definition list_node_new :: "'v node heap \<Rightarrow> 'v \<Rightarrow> ptr \<times> 'v node heap" where
  "list_node_new h v = h_alloc h \<lparr>n_prev = None, n_next = None, n_val = v\<rparr>"

definition list_rpush :: "'v node heap \<Rightarrow> 'v list_t \<Rightarrow> ptr \<Rightarrow> ('v node heap \<times> 'v list_t \<times> ptr) option" where
  "list_rpush h self node = (case node of
     None \<Rightarrow> Some (h, self, None)
   | Some a \<Rightarrow>
       if l_len self \<noteq> 0 then do {
         h1 \<leftarrow> h_modify h a (\<lambda>n. n\<lparr>n_prev := l_tail self, n_next := None\<rparr>);
         t \<leftarrow> l_tail self;
         h2 \<leftarrow> h_modify h1 t (\<lambda>n. n\<lparr>n_next := Some a\<rparr>);
         Some (h2, self\<lparr>l_tail := Some a, l_len := l_len self + 1\<rparr>, Some a)
       } else do {
         h1 \<leftarrow> h_modify h a (\<lambda>n. n\<lparr>n_prev := None, n_next := None\<rparr>);
         Some (h1, self\<lparr>l_head := Some a, l_tail := Some a, l_len := l_len self + 1\<rparr>, Some a)
       })"

definition list_rpop :: "'v node heap \<Rightarrow> 'v list_t \<Rightarrow> ('v node heap \<times> 'v list_t \<times> ptr) option" where
  "list_rpop h self =
     (if l_len self = 0 then Some (h, self, None)
      else do {
        a \<leftarrow> l_tail self;
        (h1, self1) \<leftarrow>
          (if l_len self - 1 \<noteq> 0 then do {
             n \<leftarrow> hp_mem h a;
             t \<leftarrow> n_prev n;
             h1 \<leftarrow> h_modify h t (\<lambda>n. n\<lparr>n_next := None\<rparr>);
             Some (h1, self\<lparr>l_len := l_len self - 1, l_tail := n_prev n\<rparr>)
           } else Some (h, self\<lparr>l_len := l_len self - 1, l_tail := None, l_head := None\<rparr>));
        h2 \<leftarrow> h_modify h1 a (\<lambda>n. n\<lparr>n_next := None, n_prev := None\<rparr>);
        Some (h2, self1, Some a)
      })"

definition list_lpop :: "'v node heap \<Rightarrow> 'v list_t \<Rightarrow> ('v node heap \<times> 'v list_t \<times> ptr) option" where
  "list_lpop h self =
     (if l_len self = 0 then Some (h, self, None)
      else do {
        a \<leftarrow> l_head self;
        (h1, self1) \<leftarrow>
          (if l_len self - 1 \<noteq> 0 then do {
             n \<leftarrow> hp_mem h a;
             t \<leftarrow> n_next n;
             h1 \<leftarrow> h_modify h t (\<lambda>n. n\<lparr>n_prev := None\<rparr>);
             Some (h1, self\<lparr>l_len := l_len self - 1, l_head := n_next n\<rparr>)
           } else Some (h, self\<lparr>l_len := l_len self - 1, l_head := None, l_tail := None\<rparr>));
        h2 \<leftarrow> h_modify h1 a (\<lambda>n. n\<lparr>n_next := None, n_prev := None\<rparr>);
        Some (h2, self1, Some a)
      })"

definition list_lpush :: "'v node heap \<Rightarrow> 'v list_t \<Rightarrow> ptr \<Rightarrow> ('v node heap \<times> 'v list_t \<times> ptr) option" where
  "list_lpush h self node = (case node of
     None \<Rightarrow> Some (h, self, None)
   | Some a \<Rightarrow>
       if l_len self \<noteq> 0 then do {
         h1 \<leftarrow> h_modify h a (\<lambda>n. n\<lparr>n_next := l_head self, n_prev := None\<rparr>);
         t \<leftarrow> l_head self;
         h2 \<leftarrow> h_modify h1 t (\<lambda>n. n\<lparr>n_prev := Some a\<rparr>);
         Some (h2, self\<lparr>l_head := Some a, l_len := l_len self + 1\<rparr>, Some a)
       } else do {
         h1 \<leftarrow> h_modify h a (\<lambda>n. n\<lparr>n_prev := None, n_next := None\<rparr>);
         Some (h1, self\<lparr>l_head := Some a, l_tail := Some a, l_len := l_len self + 1\<rparr>, Some a)
       })"

definition list_iterator_new_from_node ::
  "'v node heap \<Rightarrow> ptr \<Rightarrow> list_direction_t \<Rightarrow> list_iterator_t option \<times> 'v node heap" where
  "list_iterator_new_from_node h node dir = (let (ok, h1) = h_malloc h in
     if \<not> ok then (None, h1) else (Some \<lparr>it_next = node, it_direction = dir\<rparr>, h1))"

definition list_iterator_new ::
  "'v node heap \<Rightarrow> 'v list_t \<Rightarrow> list_direction_t \<Rightarrow> list_iterator_t option \<times> 'v node heap" where
  "list_iterator_new h self dir =
     list_iterator_new_from_node h (if dir = LIST_HEAD then l_head self else l_tail self) dir"

definition list_iterator_next ::
  "'v node heap \<Rightarrow> list_iterator_t \<Rightarrow> (ptr \<times> list_iterator_t) option" where
  "list_iterator_next h it = (case it_next it of
     None \<Rightarrow> Some (None, it)
   | Some a \<Rightarrow> do {
       n \<leftarrow> hp_mem h a;
       Some (Some a, it\<lparr>it_next := (if it_direction it = LIST_HEAD then n_next n else n_prev n)\<rparr>)
     })"

partial_function (option) list_find_loop ::
  "'v node heap \<Rightarrow> 'v list_t \<Rightarrow> 'v \<Rightarrow> list_iterator_t \<Rightarrow> ptr option" where
  "list_find_loop h self v it = do {
     r \<leftarrow> list_iterator_next h it;
     (case fst r of
       None \<Rightarrow> Some None
     | Some a \<Rightarrow> do {
         n \<leftarrow> hp_mem h a;
         (if (case l_match self of Some mt \<Rightarrow> mt v (n_val n) | None \<Rightarrow> v = n_val n) then Some (Some a)
          else list_find_loop h self v (snd r))
       })
   }"

declare list_find_loop.simps [code]

text \<open>The iterator is used without a check that its allocation succeeded.\<close>

definition list_find :: "'v node heap \<Rightarrow> 'v list_t \<Rightarrow> 'v \<Rightarrow> ('v node heap \<times> ptr) option" where
  "list_find h self v = (let (it, h1) = list_iterator_new h self LIST_HEAD in do {
     it0 \<leftarrow> it;
     r \<leftarrow> list_find_loop h1 self v it0;
     Some (h1, r)
   })"

fun list_at_loop :: "'v node heap \<Rightarrow> nat \<Rightarrow> ptr \<Rightarrow> list_iterator_t \<Rightarrow> ptr option" where
  "list_at_loop h 0 node it = Some node"
| "list_at_loop h (Suc k) node it = do {
     (node', it') \<leftarrow> list_iterator_next h it;
     list_at_loop h k node' it'
   }"

definition list_at :: "'v node heap \<Rightarrow> 'v list_t \<Rightarrow> c_int \<Rightarrow> ('v node heap \<times> ptr) option" where
  "list_at h self index =
     (let (dir, i) = (if index < 0 then (LIST_TAIL, - index - 1) else (LIST_HEAD, index)) in
      if i < uint (l_len self)
      then (let (it, h1) = list_iterator_new h self dir in do {
        it0 \<leftarrow> it;
        (node, it1) \<leftarrow> list_iterator_next h1 it0;
        r \<leftarrow> list_at_loop h1 (nat i) node it1;
        Some (h1, r)
      })
      else Some (h, None))"

definition list_remove :: "'v node heap \<Rightarrow> 'v list_t \<Rightarrow> addr \<Rightarrow> ('v node heap \<times> 'v list_t \<times> 'v list) option" where
  "list_remove h self a = do {
     (h1, hd1, tl1) \<leftarrow> dl_unlink h (l_head self) (l_tail self) a;
     n \<leftarrow> hp_mem h1 a;
     h2 \<leftarrow> h_free h1 a;
     Some (h2, self\<lparr>l_head := hd1, l_tail := tl1, l_len := l_len self - 1\<rparr>,
           if l_free self then [n_val n] else [])
   }"

fun list_destroy_loop :: "'v node heap \<Rightarrow> bool \<Rightarrow> nat \<Rightarrow> ptr \<Rightarrow> ('v node heap \<times> 'v list) option" where
  "list_destroy_loop h fr 0 cur = Some (h, [])"
| "list_destroy_loop h fr (Suc k) cur = do {
     a \<leftarrow> cur;
     n \<leftarrow> hp_mem h a;
     h1 \<leftarrow> h_free h a;
     (h2, vs) \<leftarrow> list_destroy_loop h1 fr k (n_next n);
     Some (h2, if fr then n_val n # vs else vs)
   }"

definition list_destroy :: "'v node heap \<Rightarrow> 'v list_t \<Rightarrow> ('v node heap \<times> 'v list) option" where
  "list_destroy h self = list_destroy_loop h (l_free self) (unat (l_len self)) (l_head self)"


section \<open>What a list represents\<close>

definition list_repr :: "'v node heap \<Rightarrow> 'v list_t \<Rightarrow> (addr \<times> 'v) list \<Rightarrow> bool" where
  "list_repr h self xs \<longleftrightarrow>
     dllseg (hp_mem h) None (l_head self) xs (l_tail self) None \<and>
     distinct (addrs xs) \<and> unat (l_len self) = length xs"

lemma list_repr_len0: "list_repr h self xs \<Longrightarrow> l_len self = 0 \<longleftrightarrow> xs = []"
  by (metis length_0_conv list_repr_def unat_eq_zero)

lemma unat_plus_one: "Suc (unat w) < 2 ^ 32 \<Longrightarrow> unat (w + 1 :: uint) = Suc (unat w)"
  by (simp add: unat_word_ariths)

lemma unat_minus_one_word: "w \<noteq> 0 \<Longrightarrow> unat (w - 1 :: uint) = unat w - 1"
  by (simp add: unat_minus_one)

lemma list_repr_new:
  "list_new h = (Some l, h') \<Longrightarrow> list_repr h' l [] \<and> hp_mem h' = hp_mem h"
  by (auto simp: list_new_def h_malloc_def list_repr_def split: if_splits)

text \<open>A new node is a cell of its own, outside every list of a well-formed heap.\<close>

lemma list_node_new_fresh:
  assumes "heap_ok h" and "list_node_new h v = (Some a, h')"
  shows "hp_mem h a = None \<and> hp_mem h' a = Some \<lparr>n_prev = None, n_next = None, n_val = v\<rparr> \<and>
    heap_ok h' \<and> (\<forall>b. b \<noteq> a \<longrightarrow> hp_mem h' b = hp_mem h b)"
  using assms by (auto simp: list_node_new_def h_alloc_def heap_ok_def split: if_splits)

lemma list_rpush_repr:
  assumes repr: "list_repr h self xs" and a: "hp_mem h a = Some n" "a \<notin> set (addrs xs)"
    and len: "Suc (length xs) < 2 ^ 32"
  shows "\<exists>h' self'. list_rpush h self (Some a) = Some (h', self', Some a) \<and>
     list_repr h' self' (xs @ [(a, n_val n)]) \<and> same_outside (insert a (set (addrs xs))) h h'"
proof (cases "xs = []")
  case True
  with repr a len show ?thesis
    by (simp add: list_repr_def list_rpush_def h_modify_def unat_plus_one unat_eq_zero)
next
  case False
  let ?h1 = "h\<lparr>hp_mem := (hp_mem h)(a \<mapsto> n\<lparr>n_prev := l_tail self, n_next := None\<rparr>)\<rparr>"
  from repr have seg: "dllseg (hp_mem ?h1) None (l_head self) xs (l_tail self) None"
    and dist: "distinct (addrs xs)" using a(2) by (auto simp: list_repr_def)
  from seg False have t: "l_tail self = Some (fst (last xs))" by (auto dest: dllseg_last)
  have mem: "fst (last xs) \<in> set (addrs xs)" using False by auto
  then obtain m where m: "hp_mem ?h1 (fst (last xs)) = Some m"
    using dllseg_dom [OF seg] by blast
  have "dllseg ((hp_mem ?h1)(fst (last xs) \<mapsto> m\<lparr>n_next := Some a\<rparr>)) None (l_head self) xs (l_tail self) (Some a)"
    using dllseg_set_next [OF seg False dist t m] .
  moreover have "fst (last xs) \<noteq> a" using mem a(2) by auto
  ultimately show ?thesis
    using repr False a m t len dist mem
    by (auto simp: list_repr_def list_rpush_def h_modify_def unat_plus_one dllseg_snoc
        list_repr_len0 [OF repr] same_outside_def)
qed

lemma list_lpush_repr:
  assumes repr: "list_repr h self xs" and a: "hp_mem h a = Some n" "a \<notin> set (addrs xs)"
    and len: "Suc (length xs) < 2 ^ 32"
  shows "\<exists>h' self'. list_lpush h self (Some a) = Some (h', self', Some a) \<and>
     list_repr h' self' ((a, n_val n) # xs) \<and> same_outside (insert a (set (addrs xs))) h h'"
proof (cases "xs = []")
  case True
  with repr a len show ?thesis
    by (simp add: list_repr_def list_lpush_def h_modify_def unat_plus_one unat_eq_zero)
next
  case False
  let ?h1 = "h\<lparr>hp_mem := (hp_mem h)(a \<mapsto> n\<lparr>n_next := l_head self, n_prev := None\<rparr>)\<rparr>"
  from repr have seg: "dllseg (hp_mem ?h1) None (l_head self) xs (l_tail self) None"
    and dist: "distinct (addrs xs)" using a(2) by (auto simp: list_repr_def)
  from seg False have t: "l_head self = Some (fst (hd xs))" by (auto dest: dllseg_first)
  have mem: "fst (hd xs) \<in> set (addrs xs)" using False by auto
  then obtain m where m: "hp_mem ?h1 (fst (hd xs)) = Some m"
    using dllseg_dom [OF seg] by blast
  have "dllseg ((hp_mem ?h1)(fst (hd xs) \<mapsto> m\<lparr>n_prev := Some a\<rparr>)) (Some a) (l_head self) xs (l_tail self) None"
    using dllseg_set_prev [OF seg False dist t m] .
  moreover have "fst (hd xs) \<noteq> a" using mem a(2) by auto
  ultimately show ?thesis
    using repr False a m t len dist mem
    by (auto simp: list_repr_def list_lpush_def h_modify_def unat_plus_one
        list_repr_len0 [OF repr] same_outside_def)
qed

lemma list_remove_repr:
  assumes repr: "list_repr h self (xs @ (a, v) # ys)"
  shows "\<exists>h' self'. list_remove h self a = Some (h', self', if l_free self then [v] else []) \<and>
     list_repr h' self' (xs @ ys) \<and> hp_mem h' a = None \<and> l_free self' = l_free self \<and>
     same_outside (set (addrs (xs @ (a, v) # ys))) h h'"
proof -
  from repr have seg: "dllseg (hp_mem h) None (l_head self) (xs @ (a, v) # ys) (l_tail self) None"
    and dist: "distinct (addrs (xs @ (a, v) # ys))"
    and len: "unat (l_len self) = Suc (length xs + length ys)"
    by (auto simp: list_repr_def)
  obtain h1 hd1 tl1 where unl: "dl_unlink h (l_head self) (l_tail self) a = Some (h1, hd1, tl1)"
    and seg1: "dllseg (hp_mem h1) None hd1 (xs @ ys) tl1 None"
    and out: "same_outside (set (addrs (xs @ ys))) h h1"
    using dl_unlink_spec [OF seg dist] by blast
  have notin: "a \<notin> set (addrs (xs @ ys))" using dist by auto
  from seg obtain n where n: "hp_mem h a = Some n" "n_val n = v"
    by (auto simp: dllseg_split)
  have n1: "hp_mem h1 a = Some n" using same_outsideD [OF out notin] n by simp
  have "l_len self \<noteq> 0" using len by auto
  then have "unat (l_len self - 1) = length xs + length ys"
    using len by (simp add: unat_minus_one_word)
  with seg1 dist notin out show ?thesis
    by (auto simp: list_remove_def unl n1 n(2) h_free_def list_repr_def same_outside_def)
qed


lemma list_rpop_repr:
  assumes repr: "list_repr h self (xs @ [(a, v)])"
  shows "\<exists>h' self'. list_rpop h self = Some (h', self', Some a) \<and> list_repr h' self' xs \<and>
     hp_mem h' a = Some \<lparr>n_prev = None, n_next = None, n_val = v\<rparr> \<and>
     same_outside (insert a (set (addrs xs))) h h'"
proof -
  from repr obtain n where n: "hp_mem h a = Some n" "n_val n = v" "n_next n = None"
    and tl: "l_tail self = Some a"
    and seg: "dllseg (hp_mem h) None (l_head self) xs (n_prev n) (Some a)"
    and dist: "distinct (addrs xs)" "a \<notin> set (addrs xs)"
    and len: "unat (l_len self) = Suc (length xs)"
    by (auto simp: list_repr_def dllseg_snoc)
  have nz: "l_len self \<noteq> 0" using len by auto
  then have len1: "unat (l_len self - 1) = length xs" using len by (simp add: unat_minus_one_word)
  show ?thesis
  proof (cases "xs = []")
    case True
    then have "l_len self - 1 = 0" using len1 by (simp add: unat_eq_zero)
    with True n tl nz show ?thesis
      by (auto simp: list_rpop_def h_modify_def list_repr_def)
  next
    case False
    then have nz1: "l_len self - 1 \<noteq> 0" using len1 by (auto simp: unat_eq_zero)
    from seg False have t: "n_prev n = Some (fst (last xs))" by (auto dest: dllseg_last)
    have mem: "fst (last xs) \<in> set (addrs xs)" using False by auto
    then obtain m where m: "hp_mem h (fst (last xs)) = Some m" using dllseg_dom [OF seg] by blast
    have "dllseg ((hp_mem h)(fst (last xs) \<mapsto> m\<lparr>n_next := None\<rparr>)) None (l_head self) xs (n_prev n) None"
      using dllseg_set_next [OF seg False dist(1) t m] .
    moreover have "fst (last xs) \<noteq> a" using mem dist(2) by auto
    ultimately show ?thesis
      using n tl nz nz1 t m mem dist len1
      by (auto simp: list_rpop_def h_modify_def list_repr_def same_outside_def)
  qed
qed

lemma list_lpop_repr:
  assumes repr: "list_repr h self ((a, v) # xs)"
  shows "\<exists>h' self'. list_lpop h self = Some (h', self', Some a) \<and> list_repr h' self' xs \<and>
     hp_mem h' a = Some \<lparr>n_prev = None, n_next = None, n_val = v\<rparr> \<and>
     same_outside (insert a (set (addrs xs))) h h'"
proof -
  from repr obtain n where n: "hp_mem h a = Some n" "n_val n = v" "n_prev n = None"
    and tl: "l_head self = Some a"
    and seg: "dllseg (hp_mem h) (Some a) (n_next n) xs (l_tail self) None"
    and dist: "distinct (addrs xs)" "a \<notin> set (addrs xs)"
    and len: "unat (l_len self) = Suc (length xs)"
    by (auto simp: list_repr_def)
  have nz: "l_len self \<noteq> 0" using len by auto
  then have len1: "unat (l_len self - 1) = length xs" using len by (simp add: unat_minus_one_word)
  show ?thesis
  proof (cases "xs = []")
    case True
    then have "l_len self - 1 = 0" using len1 by (simp add: unat_eq_zero)
    with True n tl nz show ?thesis
      by (auto simp: list_lpop_def h_modify_def list_repr_def)
  next
    case False
    then have nz1: "l_len self - 1 \<noteq> 0" using len1 by (auto simp: unat_eq_zero)
    from seg False have t: "n_next n = Some (fst (hd xs))" by (auto dest: dllseg_first)
    have mem: "fst (hd xs) \<in> set (addrs xs)" using False by auto
    then obtain m where m: "hp_mem h (fst (hd xs)) = Some m" using dllseg_dom [OF seg] by blast
    have "dllseg ((hp_mem h)(fst (hd xs) \<mapsto> m\<lparr>n_prev := None\<rparr>)) None (n_next n) xs (l_tail self) None"
      using dllseg_set_prev [OF seg False dist(1) t m] .
    moreover have "fst (hd xs) \<noteq> a" using mem dist(2) by auto
    ultimately show ?thesis
      using n tl nz nz1 t m mem dist len1
      by (auto simp: list_lpop_def h_modify_def list_repr_def same_outside_def)
  qed
qed

subsection \<open>Searching and indexing\<close>

definition list_matches :: "'v list_t \<Rightarrow> 'v \<Rightarrow> 'v \<Rightarrow> bool" where
  "list_matches self v w = (case l_match self of Some mt \<Rightarrow> mt v w | None \<Rightarrow> v = w)"

lemma list_find_loop_seg:
  "dllseg (hp_mem h) p f xs l None \<Longrightarrow>
     list_find_loop h self v \<lparr>it_next = f, it_direction = LIST_HEAD\<rparr> =
       Some (map_option fst (List.find (\<lambda>x. list_matches self v (snd x)) xs))"
proof (induction xs arbitrary: p f)
  case Nil
  then show ?case by (simp add: list_find_loop.simps list_iterator_next_def)
next
  case (Cons x xs)
  then obtain n where n: "f = Some (fst x)" "hp_mem h (fst x) = Some n" "n_val n = snd x"
    and rest: "dllseg (hp_mem h) (Some (fst x)) (n_next n) xs l None" by auto
  from Cons.IH [OF rest] n show ?case
    by (subst list_find_loop.simps, cases "l_match self")
      (auto simp: list_iterator_next_def list_matches_def)
qed

lemma list_find_repr:
  assumes "list_repr h self xs" and "\<not> hp_oom h (hp_brk h)"
  shows "list_find h self v = Some (h\<lparr>hp_brk := Suc (hp_brk h)\<rparr>,
     map_option fst (List.find (\<lambda>x. list_matches self v (snd x)) xs))"
proof -
  let ?h = "h\<lparr>hp_brk := Suc (hp_brk h)\<rparr>"
  have "dllseg (hp_mem ?h) None (l_head self) xs (l_tail self) None"
    using assms(1) by (simp add: list_repr_def)
  from list_find_loop_seg [OF this] assms(2) show ?thesis
    by (simp add: list_find_def list_iterator_new_def list_iterator_new_from_node_def h_malloc_def)
qed

lemma list_at_head:
  "dllseg (hp_mem h) p f xs l q \<Longrightarrow> k < length xs \<Longrightarrow>
     (\<exists>node it1. list_iterator_next h \<lparr>it_next = f, it_direction = LIST_HEAD\<rparr> = Some (node, it1) \<and>
       list_at_loop h k node it1 = Some (Some (addrs xs ! k)))"
proof (induction xs arbitrary: p f k)
  case Nil
  then show ?case by simp
next
  case (Cons x xs)
  then obtain n where n: "f = Some (fst x)" "hp_mem h (fst x) = Some n"
    and rest: "dllseg (hp_mem h) (Some (fst x)) (n_next n) xs l q" by auto
  show ?case
  proof (cases k)
    case 0
    with n show ?thesis by (simp add: list_iterator_next_def)
  next
    case (Suc j)
    with Cons.prems have "j < length xs" by simp
    from Cons.IH [OF rest this] Suc n show ?thesis
      by (auto simp: list_iterator_next_def)
  qed
qed

lemma list_at_tail:
  "dllseg (hp_mem h) p f xs l q \<Longrightarrow> k < length xs \<Longrightarrow>
     (\<exists>node it1. list_iterator_next h \<lparr>it_next = l, it_direction = LIST_TAIL\<rparr> = Some (node, it1) \<and>
       list_at_loop h k node it1 = Some (Some (addrs xs ! (length xs - Suc k))))"
proof (induction xs arbitrary: l q k rule: rev_induct)
  case Nil
  then show ?case by simp
next
  case (snoc x xs)
  obtain a v where x: "x = (a, v)" by (cases x)
  from snoc.prems(1) obtain n where n: "l = Some a" "hp_mem h a = Some n"
    and rest: "dllseg (hp_mem h) p f xs (n_prev n) (Some a)" by (auto simp: x dllseg_snoc)
  show ?case
  proof (cases k)
    case 0
    with n show ?thesis by (simp add: list_iterator_next_def x nth_append)
  next
    case (Suc j)
    with snoc.prems have j: "j < length xs" by simp
    then have "addrs (xs @ [x]) ! (length (xs @ [x]) - Suc k) = addrs xs ! (length xs - Suc j)"
      using diff_less [of "Suc j" "length xs"] by (auto simp: Suc nth_append)
    with snoc.IH [OF rest j] Suc n show ?thesis
      by (auto simp: list_iterator_next_def)
  qed
qed

text \<open>
  The index counts from the front when it is not negative and from the back when it is
  (\<open>-1\<close> is the last node).
\<close>

definition seq_at :: "(addr \<times> 'v) list \<Rightarrow> c_int \<Rightarrow> ptr" where
  "seq_at xs i =
     (if 0 \<le> i \<and> i < int (length xs) then Some (addrs xs ! nat i)
      else if - int (length xs) \<le> i \<and> i < 0 then Some (addrs xs ! nat (int (length xs) + i))
      else None)"

lemma list_at_repr:
  assumes repr: "list_repr h self xs" and "\<not> hp_oom h (hp_brk h)"
  shows "\<exists>h'. list_at h self i = Some (h', seq_at xs i) \<and>
     (h' = h \<or> h' = h\<lparr>hp_brk := Suc (hp_brk h)\<rparr>)"
proof -
  let ?h = "h\<lparr>hp_brk := Suc (hp_brk h)\<rparr>"
  have seg: "dllseg (hp_mem ?h) None (l_head self) xs (l_tail self) None"
    and len: "uint (l_len self) = int (length xs)"
    using repr by (auto simp: list_repr_def uint_nat)
  consider (front) "0 \<le> i" "i < int (length xs)" | (rear) "- int (length xs) \<le> i" "i < 0"
    | (outside) "i < - int (length xs) \<or> int (length xs) \<le> i" by linarith
  then show ?thesis
  proof cases
    case front
    then have "nat i < length xs" by linarith
    from list_at_head [OF seg this] front len assms(2) show ?thesis
      by (auto simp: list_at_def seq_at_def list_iterator_new_def list_iterator_new_from_node_def h_malloc_def)
  next
    case rear
    then have k: "nat (- i - 1) < length xs" by linarith
    have "length xs - Suc (nat (- i - 1)) = nat (int (length xs) + i)" using rear by linarith
    with list_at_tail [OF seg k] rear len assms(2) show ?thesis
      by (auto simp: list_at_def seq_at_def list_iterator_new_def list_iterator_new_from_node_def h_malloc_def)
  next
    case outside
    with len show ?thesis by (auto simp: list_at_def seq_at_def Let_def)
  qed
qed

subsection \<open>Destruction\<close>

lemma list_destroy_loop_seg:
  "dllseg (hp_mem h) p f xs l None \<Longrightarrow> distinct (addrs xs) \<Longrightarrow>
     \<exists>h'. list_destroy_loop h fr (length xs) f = Some (h', if fr then map snd xs else []) \<and>
       (\<forall>a \<in> set (addrs xs). hp_mem h' a = None) \<and> same_outside (set (addrs xs)) h h'"
proof (induction xs arbitrary: h p f)
  case Nil
  then show ?case by simp
next
  case (Cons x xs)
  then obtain n where n: "f = Some (fst x)" "hp_mem h (fst x) = Some n" "n_val n = snd x"
    and rest: "dllseg (hp_mem h) (Some (fst x)) (n_next n) xs l None" by auto
  let ?h = "h\<lparr>hp_mem := (hp_mem h)(fst x := None)\<rparr>"
  have notin: "fst x \<notin> set (addrs xs)" and dist: "distinct (addrs xs)" using Cons.prems(2) by auto
  have "dllseg (hp_mem ?h) (Some (fst x)) (n_next n) xs l None" using rest notin by simp
  from Cons.IH [OF this dist] obtain h' where
    h': "list_destroy_loop ?h fr (length xs) (n_next n) = Some (h', if fr then map snd xs else [])"
      "\<forall>a \<in> set (addrs xs). hp_mem h' a = None" "same_outside (set (addrs xs)) ?h h'" by blast
  moreover have "hp_mem h' (fst x) = None" using same_outsideD [OF h'(3) notin] by simp
  ultimately show ?case using n by (auto simp: h_free_def same_outside_def)
qed

lemma list_destroy_repr:
  assumes "list_repr h self xs"
  shows "\<exists>h'. list_destroy h self = Some (h', if l_free self then map snd xs else []) \<and>
     (\<forall>a \<in> set (addrs xs). hp_mem h' a = None) \<and> same_outside (set (addrs xs)) h h'"
  using assms list_destroy_loop_seg unfolding list_repr_def list_destroy_def by metis


section \<open>A client's sequence of calls\<close>

text \<open>
  What the event layers do with a list: append or prepend a new node, take a node off either
  end and release it, read by index, find a value and remove its node. Each call yields the
  values it hands out (or releases through the \<open>free\<close> callback).
\<close>

datatype 'v list_cmd = RPush 'v | LPush 'v | RPop | LPop | At c_int | FindRemove 'v

definition list_take_off ::
  "('v node heap \<times> 'v list_t \<times> ptr) option \<Rightarrow> (('v node heap \<times> 'v list_t) \<times> 'v list) option" where
  "list_take_off r = do {
     (h1, self1, node) \<leftarrow> r;
     (case node of
        None \<Rightarrow> Some ((h1, self1), [])
      | Some a \<Rightarrow> do { n \<leftarrow> hp_mem h1 a; h2 \<leftarrow> h_free h1 a; Some ((h2, self1), [n_val n]) })
   }"

definition list_put_on ::
  "('v node heap \<Rightarrow> 'v list_t \<Rightarrow> ptr \<Rightarrow> ('v node heap \<times> 'v list_t \<times> ptr) option) \<Rightarrow> 'v \<Rightarrow>
     'v node heap \<times> 'v list_t \<Rightarrow> (('v node heap \<times> 'v list_t) \<times> 'v list) option" where
  "list_put_on push v s = (let (node, h1) = list_node_new (fst s) v in do {
     (h2, self2, _) \<leftarrow> push h1 (snd s) node;
     Some ((h2, self2), [])
   })"

fun list_cmd_step :: "'v list_cmd \<Rightarrow> 'v node heap \<times> 'v list_t \<Rightarrow> (('v node heap \<times> 'v list_t) \<times> 'v list) option" where
  "list_cmd_step (RPush v) s = list_put_on list_rpush v s"
| "list_cmd_step (LPush v) s = list_put_on list_lpush v s"
| "list_cmd_step RPop s = list_take_off (list_rpop (fst s) (snd s))"
| "list_cmd_step LPop s = list_take_off (list_lpop (fst s) (snd s))"
| "list_cmd_step (At i) s = do {
     (h1, node) \<leftarrow> list_at (fst s) (snd s) i;
     (case node of
        None \<Rightarrow> Some ((h1, snd s), [])
      | Some a \<Rightarrow> do { n \<leftarrow> hp_mem h1 a; Some ((h1, snd s), [n_val n]) })
   }"
| "list_cmd_step (FindRemove v) s = do {
     (h1, node) \<leftarrow> list_find (fst s) (snd s) v;
     (case node of
        None \<Rightarrow> Some ((h1, snd s), [])
      | Some a \<Rightarrow> do { (h2, self2, freed) \<leftarrow> list_remove h1 (snd s) a; Some ((h2, self2), freed) })
   }"

text \<open>The same commands on a list of values; \<open>fr\<close> and \<open>mt\<close> are the list's callbacks.\<close>

fun seq_cmd_step :: "bool \<Rightarrow> ('v \<Rightarrow> 'v \<Rightarrow> bool) \<Rightarrow> 'v list_cmd \<Rightarrow> 'v list \<Rightarrow> 'v list \<times> 'v list" where
  "seq_cmd_step fr mt (RPush v) vs = (vs @ [v], [])"
| "seq_cmd_step fr mt (LPush v) vs = (v # vs, [])"
| "seq_cmd_step fr mt RPop vs = (if vs = [] then ([], []) else (butlast vs, [last vs]))"
| "seq_cmd_step fr mt LPop vs = (if vs = [] then ([], []) else (tl vs, [hd vs]))"
| "seq_cmd_step fr mt (At i) vs =
     (vs, if 0 \<le> i \<and> i < int (length vs) then [vs ! nat i]
          else if - int (length vs) \<le> i \<and> i < 0 then [vs ! nat (int (length vs) + i)] else [])"
| "seq_cmd_step fr mt (FindRemove v) vs =
     (case dropWhile (\<lambda>w. \<not> mt v w) vs of
        [] \<Rightarrow> (vs, [])
      | w # rest \<Rightarrow> (takeWhile (\<lambda>w. \<not> mt v w) vs @ rest, if fr then [w] else []))"

primrec list_cmds_run ::
  "'v list_cmd list \<Rightarrow> 'v node heap \<times> 'v list_t \<Rightarrow> (('v node heap \<times> 'v list_t) \<times> 'v list list) option" where
  "list_cmds_run [] s = Some (s, [])"
| "list_cmds_run (c # cs) s = do {
     (s1, o1) \<leftarrow> list_cmd_step c s;
     (s2, os) \<leftarrow> list_cmds_run cs s1;
     Some (s2, o1 # os)
   }"

primrec seq_cmds_run :: "bool \<Rightarrow> ('v \<Rightarrow> 'v \<Rightarrow> bool) \<Rightarrow> 'v list_cmd list \<Rightarrow> 'v list \<Rightarrow> 'v list \<times> 'v list list" where
  "seq_cmds_run fr mt [] vs = (vs, [])"
| "seq_cmds_run fr mt (c # cs) vs =
     (let (vs1, o1) = seq_cmd_step fr mt c vs; (vs2, os) = seq_cmds_run fr mt cs vs1 in (vs2, o1 # os))"

definition list_client_inv :: "bool \<Rightarrow> ('v \<Rightarrow> 'v \<Rightarrow> bool) option \<Rightarrow> 'v node heap \<times> 'v list_t \<Rightarrow> (addr \<times> 'v) list \<Rightarrow> bool" where
  "list_client_inv fr mt s xs \<longleftrightarrow>
     heap_ok (fst s) \<and> (\<forall>n. \<not> hp_oom (fst s) n) \<and> list_repr (fst s) (snd s) xs \<and>
     l_free (snd s) = fr \<and> l_match (snd s) = mt"

lemma list_op_callbacks:
  "list_rpush h self node = Some (h', self', r) \<Longrightarrow> l_free self' = l_free self \<and> l_match self' = l_match self"
  "list_lpush h self node = Some (h', self', r) \<Longrightarrow> l_free self' = l_free self \<and> l_match self' = l_match self"
  "list_rpop h self = Some (h', self', r) \<Longrightarrow> l_free self' = l_free self \<and> l_match self' = l_match self"
  "list_lpop h self = Some (h', self', r) \<Longrightarrow> l_free self' = l_free self \<and> l_match self' = l_match self"
  "list_remove h self a = Some (h', self', vs) \<Longrightarrow> l_free self' = l_free self \<and> l_match self' = l_match self"
  by (auto simp: list_rpush_def list_lpush_def list_rpop_def list_lpop_def list_remove_def
      split: option.splits if_splits Option.bind_splits)

lemma list_repr_dom: "list_repr h self xs \<Longrightarrow> b \<in> set (addrs xs) \<Longrightarrow> hp_mem h b \<noteq> None"
  unfolding list_repr_def using dllseg_dom by fastforce

text \<open>A push of a fresh node, and the release of a node that has been taken off.\<close>

lemma list_put_on_refines:
  assumes inv: "list_client_inv fr mt s xs"
    and push: "\<And>h a n. hp_mem h a = Some n \<Longrightarrow> a \<notin> set (addrs xs) \<Longrightarrow> list_repr h (snd s) xs \<Longrightarrow>
      \<exists>h' self'. push h (snd s) (Some a) = Some (h', self', Some a) \<and>
        list_repr h' self' (ins (a, n_val n)) \<and> same_outside (insert a (set (addrs xs))) h h'"
    and cbs: "\<And>h h' node self' r. push h (snd s) node = Some (h', self', r) \<Longrightarrow>
      l_free self' = l_free (snd s) \<and> l_match self' = l_match (snd s)"
  shows "\<exists>s' a. list_put_on push v s = Some (s', []) \<and> list_client_inv fr mt s' (ins (a, v))"
proof -
  let ?h = "fst s" and ?n = "\<lparr>n_prev = None, n_next = None, n_val = v\<rparr>"
  let ?h1 = "?h\<lparr>hp_mem := (hp_mem ?h)(hp_brk ?h \<mapsto> ?n), hp_brk := Suc (hp_brk ?h)\<rparr>"
  from inv have ok: "heap_ok ?h" and oom: "\<forall>n. \<not> hp_oom ?h n" and repr: "list_repr ?h (snd s) xs"
    by (auto simp: list_client_inv_def)
  have new: "list_node_new ?h v = (Some (hp_brk ?h), ?h1)"
    using oom by (simp add: list_node_new_def h_alloc_def)
  have fresh: "hp_brk ?h \<notin> set (addrs xs)" using list_repr_dom [OF repr] heap_ok_brk [OF ok] by blast
  have repr1: "list_repr ?h1 (snd s) xs" using repr fresh by (simp add: list_repr_def)
  have ok1: "heap_ok ?h1" using ok by (auto simp: heap_ok_def)
  obtain h2 self2 where p: "push ?h1 (snd s) (Some (hp_brk ?h)) = Some (h2, self2, Some (hp_brk ?h))"
    "list_repr h2 self2 (ins (hp_brk ?h, v))" "same_outside (insert (hp_brk ?h) (set (addrs xs))) ?h1 h2"
    using push [OF _ fresh repr1, of ?n] by auto
  have "hp_mem ?h1 b \<noteq> None" if "b \<in> insert (hp_brk ?h) (set (addrs xs))" for b
    using list_repr_dom [OF repr, of b] that by auto
  then have "heap_ok h2" by (rule heap_ok_same_outside [OF ok1 p(3)])
  moreover have "\<forall>n. \<not> hp_oom h2 n" using same_outside_alloc [OF p(3)] oom by simp
  ultimately have "list_client_inv fr mt (h2, self2) (ins (hp_brk ?h, v))"
    using p(2) cbs [OF p(1)] inv by (simp add: list_client_inv_def)
  moreover have "list_put_on push v s = Some ((h2, self2), [])"
    by (simp add: list_put_on_def new p(1))
  ultimately show ?thesis by blast
qed

lemma list_take_off_refines:
  assumes inv: "list_client_inv fr mt s xs"
    and r: "r = Some (h', self', Some a)" "list_repr h' self' ys"
      "hp_mem h' a = Some \<lparr>n_prev = None, n_next = None, n_val = v\<rparr>"
      "same_outside (insert a (set (addrs ys))) (fst s) h'" "set (addrs xs) = insert a (set (addrs ys))"
      "a \<notin> set (addrs ys)"
    and cbs: "l_free self' = l_free (snd s) \<and> l_match self' = l_match (snd s)"
  shows "\<exists>s'. list_take_off r = Some (s', [v]) \<and> list_client_inv fr mt s' ys"
proof -
  from inv have ok: "heap_ok (fst s)" and oom: "\<forall>n. \<not> hp_oom (fst s) n" and repr: "list_repr (fst s) (snd s) xs"
    by (auto simp: list_client_inv_def)
  let ?h2 = "h'\<lparr>hp_mem := (hp_mem h')(a := None)\<rparr>"
  have "hp_mem (fst s) b \<noteq> None" if "b \<in> insert a (set (addrs ys))" for b
    using list_repr_dom [OF repr, of b] that r(5) by blast
  then have "heap_ok h'" by (rule heap_ok_same_outside [OF ok r(4)])
  then have "heap_ok ?h2" by (auto simp: heap_ok_def)
  moreover have "list_repr ?h2 self' ys" using r(2,6) by (simp add: list_repr_def)
  moreover have "\<forall>n. \<not> hp_oom ?h2 n" using same_outside_alloc [OF r(4)] oom by simp
  ultimately have "list_client_inv fr mt (?h2, self') ys"
    using cbs inv by (simp add: list_client_inv_def)
  moreover have "list_take_off r = Some ((?h2, self'), [v])"
    by (simp add: list_take_off_def r(1,3) h_free_def)
  ultimately show ?thesis by blast
qed

lemma find_as_split:
  "(case List.find (\<lambda>x. P (snd x)) xs of
      None \<Rightarrow> dropWhile (\<lambda>w. \<not> P w) (map snd xs) = []
    | Some (a, v) \<Rightarrow> \<exists>ys zs. xs = ys @ (a, v) # zs \<and>
        takeWhile (\<lambda>w. \<not> P w) (map snd xs) = map snd ys \<and>
        dropWhile (\<lambda>w. \<not> P w) (map snd xs) = v # map snd zs)"
proof (induction xs)
  case Nil
  then show ?case by simp
next
  case (Cons x xs)
  show ?case
  proof (cases "P (snd x)")
    case True
    then show ?thesis by (cases x) (auto intro: exI [of _ "[]"])
  next
    case False
    show ?thesis
    proof (cases "List.find (\<lambda>x. P (snd x)) xs")
      case None
      with Cons False show ?thesis by simp
    next
      case (Some y)
      obtain a v where y: "y = (a, v)" by (cases y)
      from Cons Some y obtain ys zs where "xs = ys @ (a, v) # zs"
        "takeWhile (\<lambda>w. \<not> P w) (map snd xs) = map snd ys"
        "dropWhile (\<lambda>w. \<not> P w) (map snd xs) = v # map snd zs" by auto
      then have "\<exists>zs'. x # xs = (x # ys) @ (a, v) # zs' \<and>
          takeWhile (\<lambda>w. \<not> P w) (map snd (x # xs)) = map snd (x # ys) \<and>
          dropWhile (\<lambda>w. \<not> P w) (map snd (x # xs)) = v # map snd zs'"
        using False by simp
      with Some y False show ?thesis by (simp only: find.simps if_False option.case prod.case) blast
    qed
  qed
qed

text \<open>One command, refined.\<close>

abbreviation match_fun :: "('v \<Rightarrow> 'v \<Rightarrow> bool) option \<Rightarrow> 'v \<Rightarrow> 'v \<Rightarrow> bool" where
  "match_fun mt \<equiv> (case mt of Some f \<Rightarrow> f | None \<Rightarrow> (=))"

definition cmd_refined ::
  "bool \<Rightarrow> ('v \<Rightarrow> 'v \<Rightarrow> bool) option \<Rightarrow> 'v list_cmd \<Rightarrow> 'v node heap \<times> 'v list_t \<Rightarrow> (addr \<times> 'v) list \<Rightarrow> bool" where
  "cmd_refined fr mt c s xs \<longleftrightarrow> (\<exists>s' xs' r. list_cmd_step c s = Some (s', r) \<and> list_client_inv fr mt s' xs' \<and>
     seq_cmd_step fr (match_fun mt) c (map snd xs) = (map snd xs', r) \<and> length xs' \<le> Suc (length xs))"

lemma push_refined:
  assumes inv: "list_client_inv fr mt s xs" and len: "Suc (length xs) < 2 ^ 32"
  shows "cmd_refined fr mt (RPush v) s xs" "cmd_refined fr mt (LPush v) s xs"
proof -
  obtain s' a where "list_put_on list_rpush v s = Some (s', [])" "list_client_inv fr mt s' (xs @ [(a, v)])"
    using list_put_on_refines [where v = v and ins = "\<lambda>x. xs @ [x]" and push = list_rpush,
        OF inv list_rpush_repr [OF _ _ _ len] list_op_callbacks(1)] by fast
  then show "cmd_refined fr mt (RPush v) s xs" by (auto simp: cmd_refined_def)
  obtain s' a where "list_put_on list_lpush v s = Some (s', [])" "list_client_inv fr mt s' ((a, v) # xs)"
    using list_put_on_refines [where v = v and ins = "\<lambda>x. x # xs" and push = list_lpush,
        OF inv list_lpush_repr [OF _ _ _ len] list_op_callbacks(2)] by fast
  then show "cmd_refined fr mt (LPush v) s xs"
    by (auto simp: cmd_refined_def intro!: exI [of _ "(a, v) # xs"])
qed

lemma pop_refined:
  assumes inv: "list_client_inv fr mt s xs"
  shows "cmd_refined fr mt RPop s xs" "cmd_refined fr mt LPop s xs"
proof -
  from inv have repr: "list_repr (fst s) (snd s) xs" by (simp add: list_client_inv_def)
  then have dist: "distinct (addrs xs)" by (simp add: list_repr_def)
  have none: "list_rpop (fst s) (snd s) = Some (fst s, snd s, None)"
    "list_lpop (fst s) (snd s) = Some (fst s, snd s, None)" if "xs = []"
    using list_repr_len0 [OF repr] that by (simp_all add: list_rpop_def list_lpop_def)
  show "cmd_refined fr mt RPop s xs"
  proof (cases xs rule: rev_cases)
    case Nil
    with none inv show ?thesis by (auto simp: cmd_refined_def list_take_off_def)
  next
    case (snoc ys x)
    obtain a v where x: "x = (a, v)" by (cases x)
    obtain h' self' where p: "list_rpop (fst s) (snd s) = Some (h', self', Some a)" "list_repr h' self' ys"
      "hp_mem h' a = Some \<lparr>n_prev = None, n_next = None, n_val = v\<rparr>" "same_outside (insert a (set (addrs ys))) (fst s) h'"
      using list_rpop_repr [of "fst s" "snd s" ys a v] repr snoc x by auto
    from list_take_off_refines [OF inv p _ _ list_op_callbacks(3) [OF p(1)]] snoc x dist
    obtain s' where "list_take_off (list_rpop (fst s) (snd s)) = Some (s', [v])" "list_client_inv fr mt s' ys" by auto
    then show ?thesis using snoc x by (auto simp: cmd_refined_def)
  qed
  show "cmd_refined fr mt LPop s xs"
  proof (cases xs)
    case Nil
    with none inv show ?thesis by (auto simp: cmd_refined_def list_take_off_def)
  next
    case (Cons x ys)
    obtain a v where x: "x = (a, v)" by (cases x)
    obtain h' self' where p: "list_lpop (fst s) (snd s) = Some (h', self', Some a)" "list_repr h' self' ys"
      "hp_mem h' a = Some \<lparr>n_prev = None, n_next = None, n_val = v\<rparr>" "same_outside (insert a (set (addrs ys))) (fst s) h'"
      using list_lpop_repr [of "fst s" "snd s" a v ys] repr Cons x by auto
    from list_take_off_refines [OF inv p _ _ list_op_callbacks(4) [OF p(1)]] Cons x dist
    obtain s' where "list_take_off (list_lpop (fst s) (snd s)) = Some (s', [v])" "list_client_inv fr mt s' ys" by auto
    then show ?thesis using Cons x by (auto simp: cmd_refined_def)
  qed
qed

lemma seq_at_nth:
  "seq_at xs i = Some a \<Longrightarrow> \<exists>k. k < length xs \<and> fst (xs ! k) = a \<and>
     snd (seq_cmd_step fr mt (At i) (map snd xs)) = [snd (xs ! k)]"
  "seq_at xs i = None \<Longrightarrow> snd (seq_cmd_step fr mt (At i) (map snd xs)) = []"
  by (auto simp: seq_at_def split: if_splits intro: exI [of _ "nat i"] exI [of _ "nat (int (length xs) + i)"])

lemma list_client_inv_brk:
  "list_client_inv fr mt (h, l) xs \<Longrightarrow> list_client_inv fr mt (h\<lparr>hp_brk := Suc (hp_brk h)\<rparr>, l) xs"
  by (auto simp: list_client_inv_def list_repr_def heap_ok_def)

lemma at_refined:
  assumes inv: "list_client_inv fr mt s xs"
  shows "cmd_refined fr mt (At i) s xs"
proof -
  from inv have repr: "list_repr (fst s) (snd s) xs" and oom: "\<not> hp_oom (fst s) (hp_brk (fst s))"
    by (auto simp: list_client_inv_def)
  obtain h1 where at: "list_at (fst s) (snd s) i = Some (h1, seq_at xs i)"
    and h1: "h1 = fst s \<or> h1 = (fst s)\<lparr>hp_brk := Suc (hp_brk (fst s))\<rparr>"
    using list_at_repr [OF repr oom] by blast
  have inv1: "list_client_inv fr mt (h1, snd s) xs"
    using h1 inv list_client_inv_brk [of fr mt "fst s" "snd s"] by auto
  have seg: "dllseg (hp_mem h1) None (l_head (snd s)) xs (l_tail (snd s)) None"
    using inv1 by (simp add: list_client_inv_def list_repr_def)
  have fst: "fst (seq_cmd_step fr (match_fun mt) (At i) (map snd xs)) = map snd xs" by simp
  show ?thesis
  proof (cases "seq_at xs i")
    case None
    then have "list_cmd_step (At i) s = Some ((h1, snd s), [])" by (simp add: at)
    with inv1 seq_at_nth(2) [OF None] fst show ?thesis
      unfolding cmd_refined_def by (metis prod.collapse le_SucI order_refl)
  next
    case (Some a)
    obtain k where k: "k < length xs" "fst (xs ! k) = a"
      "snd (seq_cmd_step fr (match_fun mt) (At i) (map snd xs)) = [snd (xs ! k)]"
      using seq_at_nth(1) [OF Some] by blast
    have "(a, snd (xs ! k)) \<in> set xs" using k nth_mem [of k xs] by (metis prod.collapse)
    from dllseg_mapped [OF seg this] have "list_cmd_step (At i) s = Some ((h1, snd s), [snd (xs ! k)])"
      by (auto simp: at Some)
    with inv1 k(3) fst show ?thesis
      unfolding cmd_refined_def by (metis prod.collapse le_SucI order_refl)
  qed
qed

lemma list_matches_fun: "list_matches l v w = match_fun (l_match l) v w"
  by (simp add: list_matches_def split: option.splits)

lemma find_remove_refined:
  assumes inv: "list_client_inv fr mt s xs"
  shows "cmd_refined fr mt (FindRemove v) s xs"
proof -
  let ?h1 = "(fst s)\<lparr>hp_brk := Suc (hp_brk (fst s))\<rparr>"
  let ?P = "match_fun mt v"
  from inv have repr: "list_repr (fst s) (snd s) xs" and oom: "\<not> hp_oom (fst s) (hp_brk (fst s))"
    and mt: "l_match (snd s) = mt" and fr: "l_free (snd s) = fr"
    by (auto simp: list_client_inv_def)
  have find: "list_find (fst s) (snd s) v = Some (?h1, map_option fst (List.find (\<lambda>x. ?P (snd x)) xs))"
    using list_find_repr [OF repr oom, of v] by (simp add: list_matches_fun mt)
  have inv1: "list_client_inv fr mt (?h1, snd s) xs"
    using inv list_client_inv_brk [of fr mt "fst s" "snd s"] by simp
  note split = find_as_split [of ?P xs]
  show ?thesis
  proof (cases "List.find (\<lambda>x. ?P (snd x)) xs")
    case None
    from split have "dropWhile (\<lambda>w. \<not> ?P w) (map snd xs) = []" unfolding None by (simp only: option.case)
    then have "seq_cmd_step fr (match_fun mt) (FindRemove v) (map snd xs) = (map snd xs, [])"
      by (simp only: seq_cmd_step.simps list.case)
    moreover have "list_cmd_step (FindRemove v) s = Some ((?h1, snd s), [])" using find None by simp
    ultimately show ?thesis using inv1 unfolding cmd_refined_def by (metis le_SucI order_refl)
  next
    case (Some x)
    obtain a w where x: "x = (a, w)" by (cases x)
    from split Some x obtain ys zs where ys: "xs = ys @ (a, w) # zs"
      "takeWhile (\<lambda>w. \<not> ?P w) (map snd xs) = map snd ys"
      "dropWhile (\<lambda>w. \<not> ?P w) (map snd xs) = w # map snd zs" by auto
    have repr1: "list_repr ?h1 (snd s) (ys @ (a, w) # zs)"
      using inv1 ys by (simp add: list_client_inv_def)
    obtain h2 self2 where r: "list_remove ?h1 (snd s) a = Some (h2, self2, if fr then [w] else [])"
      "list_repr h2 self2 (ys @ zs)" "same_outside (set (addrs (ys @ (a, w) # zs))) ?h1 h2"
      using list_remove_repr [OF repr1] fr by auto
    have "hp_mem ?h1 b \<noteq> None" if "b \<in> set (addrs (ys @ (a, w) # zs))" for b
      using list_repr_dom [OF repr1 that] .
    then have "heap_ok h2"
      using heap_ok_same_outside [OF _ r(3)] inv1 by (simp add: list_client_inv_def)
    then have inv2: "list_client_inv fr mt (h2, self2) (ys @ zs)"
      using r(2) list_op_callbacks(5) [OF r(1)] same_outside_alloc [OF r(3)] inv
      by (simp add: list_client_inv_def)
    have "list_cmd_step (FindRemove v) s = Some ((h2, self2), if fr then [w] else [])"
      using find Some x r(1) by simp
    moreover have "seq_cmd_step fr (match_fun mt) (FindRemove v) (map snd xs) =
        (map snd (ys @ zs), if fr then [w] else [])"
      using ys by simp
    ultimately show ?thesis
      using inv2 ys(1) unfolding cmd_refined_def by (intro exI conjI) (assumption | simp)+
  qed
qed

lemma cmd_step_refined:
  assumes "list_client_inv fr mt s xs" and "Suc (length xs) < 2 ^ 32"
  shows "cmd_refined fr mt c s xs"
  by (cases c) (use push_refined [OF assms] pop_refined [OF assms(1)] at_refined [OF assms(1)]
      find_remove_refined [OF assms(1)] in simp_all)

lemma cmds_run_refined:
  "list_client_inv fr mt s xs \<Longrightarrow> length xs + length cs < 2 ^ 32 \<Longrightarrow>
     \<exists>s' xs' rs. list_cmds_run cs s = Some (s', rs) \<and> list_client_inv fr mt s' xs' \<and>
       seq_cmds_run fr (match_fun mt) cs (map snd xs) = (map snd xs', rs)"
proof (induction cs arbitrary: s xs)
  case Nil
  then show ?case by auto
next
  case (Cons c cs)
  have "Suc (length xs) < 2 ^ 32" using Cons.prems(2) by simp
  from cmd_step_refined [OF Cons.prems(1) this, of c, unfolded cmd_refined_def]
  obtain s1 xs1 r where s1: "list_cmd_step c s = Some (s1, r)" "list_client_inv fr mt s1 xs1"
    "seq_cmd_step fr (match_fun mt) c (map snd xs) = (map snd xs1, r)" "length xs1 \<le> Suc (length xs)" by blast
  have "length xs1 + length cs < 2 ^ 32" using s1(4) Cons.prems(2) by simp
  from Cons.IH [OF s1(2) this] obtain s2 xs2 rs where "list_cmds_run cs s1 = Some (s2, rs)"
    "list_client_inv fr mt s2 xs2" "seq_cmds_run fr (match_fun mt) cs (map snd xs1) = (map snd xs2, rs)" by blast
  with s1 show ?case by auto
qed

section \<open>Properties\<close>

text \<open>
  C1. Any sequence of fewer than \<open>2 ^ 32\<close> calls on a list created by \<open>list_new\<close>, whatever its callbacks, runs
  without a memory error as long as allocations succeed, hands out exactly the values the same
  calls give on a plain sequence, and \<open>list_destroy\<close> then releases every node that is left
  and calls \<open>free\<close> on their values in order.
\<close>

theorem list_behaves_as_sequence:
  assumes "heap_ok h" and "\<forall>n. \<not> hp_oom h n" and "length cs < 2 ^ 32"
    and "list_new h = (Some l, h1)"
  shows "\<exists>h2 l2 rs vs h3. list_cmds_run cs (h1, l\<lparr>l_free := fr, l_match := mt\<rparr>) = Some ((h2, l2), rs) \<and>
     seq_cmds_run fr (match_fun mt) cs [] = (vs, rs) \<and> unat (l_len l2) = length vs \<and>
     list_destroy h2 l2 = Some (h3, if fr then vs else []) \<and>
     (\<forall>xs. list_repr h2 l2 xs \<longrightarrow> (\<forall>a \<in> set (addrs xs). hp_mem h3 a = None))"
proof -
  have inv: "list_client_inv fr mt (h1, l\<lparr>l_free := fr, l_match := mt\<rparr>) []"
    using assms by (auto simp: list_client_inv_def list_new_def h_malloc_def list_repr_def heap_ok_def)
  obtain h2 l2 xs rs where run: "list_cmds_run cs (h1, l\<lparr>l_free := fr, l_match := mt\<rparr>) = Some ((h2, l2), rs)"
    and inv2: "list_client_inv fr mt (h2, l2) xs" and seq: "seq_cmds_run fr (match_fun mt) cs [] = (map snd xs, rs)"
    using cmds_run_refined [OF inv, of cs] assms(3) by auto
  from inv2 have repr: "list_repr h2 l2 xs" and fr: "l_free l2 = fr" by (auto simp: list_client_inv_def)
  obtain h3 where h3: "list_destroy h2 l2 = Some (h3, if fr then map snd xs else [])"
    using list_destroy_repr [OF repr] fr by auto
  have "\<forall>a \<in> set (addrs ys). hp_mem h3 a = None" if "list_repr h2 l2 ys" for ys
    using list_destroy_repr [OF that] h3 by auto
  moreover have "unat (l_len l2) = length (map snd xs)" using repr by (simp add: list_repr_def)
  ultimately show ?thesis using run seq h3 by blast
qed

theorem list_behaves_as_sequence_witness:
  "\<exists>h2 l2 h3. list_cmds_run [RPush (3::nat), LPush 4, RPush 5, At (-1), FindRemove 3]
       (snd (list_new empty_heap), (the (fst (list_new empty_heap)))\<lparr>l_free := True, l_match := None\<rparr>) =
         Some ((h2, l2), [[], [], [], [5], [3]]) \<and>
     unat (l_len l2) = 2 \<and> list_destroy h2 l2 = Some (h3, [4, 5])"
proof -
  have new: "list_new empty_heap =
      (Some (the (fst (list_new (empty_heap :: nat node heap)))), snd (list_new (empty_heap :: nat node heap)))"
    by (simp add: list_new_def h_malloc_def)
  from list_behaves_as_sequence [OF _ _ _ new, where fr = True and mt = None and
      cs = "[RPush 3, LPush 4, RPush 5, At (-1), FindRemove 3]"]
  show ?thesis by auto
qed

end
