(* ===== verification/LruCache.thy ===== *)
theory LruCache
  imports Prelude
begin

text \<open>
  The cache of \<^verbatim>\<open>src/lru_cache/lru_cache.c\<close>: entries in a doubly linked chain on the heap,
  most recently used first, with the byte and entry totals of the header kept as 64-bit words.
  \<open>struct lru_cache_entry\<close> is a node whose value holds the key, data and size fields; the
  copies of key and data belong to their entry and are stored in it by value, their
  allocations being ones that can fail. A \<open>char *\<close> argument is a string without its
  terminator, \<open>None\<close> for \<open>NULL\<close>.

  The lemmas relate every operation to an abstract cache, a list of keys and payloads in the
  order of use, and show that the totals always equal the sums they stand for and never exceed
  the configured bounds.
\<close>

section \<open>Data\<close>

record lru_item =
  e_key :: string
  e_data :: "byte list option"
  e_size :: size_t

type_synonym lru_heap = "lru_item node heap"

record lru_cache =
  max_bytes :: size_t
  max_entries :: size_t
  used_bytes :: size_t
  entry_count :: size_t
  lru_head :: ptr
  lru_tail :: ptr

section \<open>Operations\<close>

partial_function (option) lru_find_loop :: "lru_heap \<Rightarrow> ptr \<Rightarrow> string \<Rightarrow> ptr option" where
  "lru_find_loop h entry key = (case entry of
     None \<Rightarrow> Some None
   | Some a \<Rightarrow> do {
       n \<leftarrow> hp_mem h a;
       (if e_key (n_val n) = key then Some (Some a) else lru_find_loop h (n_next n) key)
     })"

declare lru_find_loop.simps [code]

definition lru_cache_find :: "lru_heap \<Rightarrow> lru_cache \<Rightarrow> string \<Rightarrow> ptr option" where
  "lru_cache_find h cache key = lru_find_loop h (lru_head cache) key"

definition sub_or_zero :: "size_t \<Rightarrow> size_t \<Rightarrow> size_t" where
  "sub_or_zero used sz = (if sz \<le> used then used - sz else 0)"

definition lru_cache_remove_entry ::
  "lru_heap \<Rightarrow> lru_cache \<Rightarrow> addr \<Rightarrow> (lru_heap \<times> lru_cache) option" where
  "lru_cache_remove_entry h cache entry = do {
     (h1, hd1, tl1) \<leftarrow> dl_unlink h (lru_head cache) (lru_tail cache) entry;
     n \<leftarrow> hp_mem h1 entry;
     h2 \<leftarrow> h_free h1 entry;
     Some (h2, cache\<lparr>lru_head := hd1, lru_tail := tl1,
       used_bytes := sub_or_zero (used_bytes cache) (e_size (n_val n)),
       entry_count := (if entry_count cache > 0 then entry_count cache - 1 else entry_count cache)\<rparr>)
   }"

definition lru_cache_touch_front ::
  "lru_heap \<Rightarrow> lru_cache \<Rightarrow> addr \<Rightarrow> (lru_heap \<times> lru_cache) option" where
  "lru_cache_touch_front h cache entry =
     (if lru_head cache = Some entry then Some (h, cache)
      else do {
        n \<leftarrow> hp_mem h entry;
        h1 \<leftarrow> (case n_prev n of
            Some b \<Rightarrow> h_modify h b (n_next_update (\<lambda>_. n_next n))
          | None \<Rightarrow> Some h);
        (h2, tl2) \<leftarrow> (case n_next n of
            Some b \<Rightarrow> do { h' \<leftarrow> h_modify h1 b (n_prev_update (\<lambda>_. n_prev n)); Some (h', lru_tail cache) }
          | None \<Rightarrow> Some (h1, n_prev n));
        h3 \<leftarrow> h_modify h2 entry (\<lambda>m. m\<lparr>n_prev := None, n_next := lru_head cache\<rparr>);
        h4 \<leftarrow> (case lru_head cache of
            Some b \<Rightarrow> h_modify h3 b (n_prev_update (\<lambda>_. Some entry))
          | None \<Rightarrow> Some h3);
        Some (h4, cache\<lparr>lru_head := Some entry, lru_tail := (if tl2 = None then Some entry else tl2)\<rparr>)
      })"

partial_function (option) lru_cache_evict_if_needed ::
  "lru_heap \<Rightarrow> lru_cache \<Rightarrow> (lru_heap \<times> lru_cache) option" where
  "lru_cache_evict_if_needed h cache =
     (if used_bytes cache > max_bytes cache \<or> entry_count cache > max_entries cache then
        (case lru_tail cache of
           None \<Rightarrow> Some (h, cache)
         | Some t \<Rightarrow> do {
             s \<leftarrow> lru_cache_remove_entry h cache t;
             lru_cache_evict_if_needed (fst s) (snd s)
           })
      else Some (h, cache))"

declare lru_cache_evict_if_needed.simps [code]

definition lru_cache_create :: "lru_heap \<Rightarrow> size_t \<Rightarrow> size_t \<Rightarrow> lru_cache option \<times> lru_heap" where
  "lru_cache_create h mb me =
     (if mb = 0 \<or> me = 0 then (None, h)
      else (let (ok, h1) = h_malloc h in
        if \<not> ok then (None, h1)
        else (Some \<lparr>max_bytes = mb, max_entries = me, used_bytes = 0, entry_count = 0,
                    lru_head = None, lru_tail = None\<rparr>, h1)))"

partial_function (option) lru_clear_loop :: "lru_heap \<Rightarrow> ptr \<Rightarrow> lru_heap option" where
  "lru_clear_loop h entry = (case entry of
     None \<Rightarrow> Some h
   | Some a \<Rightarrow> do {
       n \<leftarrow> hp_mem h a;
       h1 \<leftarrow> h_free h a;
       lru_clear_loop h1 (n_next n)
     })"

declare lru_clear_loop.simps [code]

definition lru_cache_clear :: "lru_heap \<Rightarrow> lru_cache option \<Rightarrow> (lru_heap \<times> lru_cache option) option" where
  "lru_cache_clear h cache = (case cache of
     None \<Rightarrow> Some (h, None)
   | Some c \<Rightarrow> do {
       h1 \<leftarrow> lru_clear_loop h (lru_head c);
       Some (h1, Some (c\<lparr>lru_head := None, lru_tail := None, used_bytes := 0, entry_count := 0\<rparr>))
     })"

text \<open>After \<open>lru_cache_destroy\<close> the header is gone: only the heap is returned.\<close>

definition lru_cache_destroy :: "lru_heap \<Rightarrow> lru_cache option \<Rightarrow> lru_heap option" where
  "lru_cache_destroy h cache = (case cache of
     None \<Rightarrow> Some h
   | Some c \<Rightarrow> do { (h1, c1) \<leftarrow> lru_cache_clear h (Some c); Some h1 })"

text \<open>
  The out parameters of \<open>lru_cache_get_copy\<close>: whether each pointer was given, and what the
  call leaves in them (\<open>None\<close>: not written).
\<close>

record lru_get_result =
  g_ret :: bool
  g_data :: "byte list option option"
  g_size :: "size_t option"

definition lru_cache_get_copy ::
  "lru_heap \<Rightarrow> lru_cache option \<Rightarrow> string option \<Rightarrow> bool \<Rightarrow> bool \<Rightarrow>
     (lru_heap \<times> lru_cache option \<times> lru_get_result) option" where
  "lru_cache_get_copy h cache key out_data out_size = (case (cache, key) of
     (Some c, Some k) \<Rightarrow>
       if \<not> out_data \<or> \<not> out_size then Some (h, cache, \<lparr>g_ret = False, g_data = None, g_size = None\<rparr>)
       else do {
         entry \<leftarrow> lru_cache_find h c k;
         (case entry of
            None \<Rightarrow> Some (h, cache, \<lparr>g_ret = False, g_data = Some None, g_size = Some 0\<rparr>)
          | Some a \<Rightarrow> do {
              n \<leftarrow> hp_mem h a;
              (case e_data (n_val n) of
                 None \<Rightarrow> Some (h, cache, \<lparr>g_ret = False, g_data = Some None, g_size = Some 0\<rparr>)
               | Some d \<Rightarrow>
                   if e_size (n_val n) = 0
                   then Some (h, cache, \<lparr>g_ret = False, g_data = Some None, g_size = Some 0\<rparr>)
                   else (let (ok, h1) = h_malloc h in
                     if \<not> ok then Some (h1, cache, \<lparr>g_ret = False, g_data = Some None, g_size = Some 0\<rparr>)
                     else if unat (e_size (n_val n)) > length d then None
                     else do {
                       (h2, c2) \<leftarrow> lru_cache_touch_front h1 c a;
                       Some (h2, Some c2, \<lparr>g_ret = True,
                         g_data = Some (Some (take (unat (e_size (n_val n))) d)),
                         g_size = Some (e_size (n_val n))\<rparr>)
                     }))
            })
       }
   | _ \<Rightarrow> Some (h, cache, \<lparr>g_ret = False, g_data = None, g_size = None\<rparr>))"

text \<open>
  \<open>data\<close> is the caller's buffer: copying more bytes than it has is undefined behaviour.
\<close>

definition lru_cache_put_copy ::
  "lru_heap \<Rightarrow> lru_cache option \<Rightarrow> string option \<Rightarrow> byte list option \<Rightarrow> size_t \<Rightarrow>
     (lru_heap \<times> lru_cache option \<times> c_int) option" where
  "lru_cache_put_copy h cache key data sz = (case (cache, key, data) of
     (Some c, Some k, Some d) \<Rightarrow>
       if sz = 0 then Some (h, cache, -1)
       else if sz > max_bytes c then Some (h, cache, -1)
       else do {
         found \<leftarrow> lru_cache_find h c k;
         (case found of
            Some a \<Rightarrow>
              (let (ok, h1) = h_malloc h in
               if \<not> ok then Some (h1, cache, -1)
               else if unat sz > length d then None
               else do {
                 n \<leftarrow> hp_mem h1 a;
                 h2 \<leftarrow> h_modify h1 a (\<lambda>n. n\<lparr>n_val := (n_val n)\<lparr>e_data := Some (take (unat sz) d), e_size := sz\<rparr>\<rparr>);
                 (h3, c3) \<leftarrow> lru_cache_touch_front h2
                    (c\<lparr>used_bytes := sub_or_zero (used_bytes c) (e_size (n_val n)) + sz\<rparr>) a;
                 (h4, c4) \<leftarrow> lru_cache_evict_if_needed h3 c3;
                 Some (h4, Some c4, 0)
               })
          | None \<Rightarrow>
              (let (entry, h1) = h_alloc h
                 \<lparr>n_prev = None, n_next = None, n_val = \<lparr>e_key = [], e_data = None, e_size = 0\<rparr>\<rparr> in
               case entry of
                 None \<Rightarrow> Some (h1, cache, -1)
               | Some a \<Rightarrow>
                   (let (ok_key, h2) = h_malloc h1 in
                    if \<not> ok_key then do { h3 \<leftarrow> h_free h2 a; Some (h3, cache, -1) }
                    else (let (ok_data, h3) = h_malloc h2 in
                      if \<not> ok_data then do { h4 \<leftarrow> h_free h3 a; Some (h4, cache, -1) }
                      else if unat sz > length d then None
                      else do {
                        h4 \<leftarrow> h_modify h3 a (\<lambda>_. \<lparr>n_prev = None, n_next = lru_head c,
                           n_val = \<lparr>e_key = k, e_data = Some (take (unat sz) d), e_size = sz\<rparr>\<rparr>);
                        h5 \<leftarrow> (case lru_head c of
                            Some b \<Rightarrow> h_modify h4 b (n_prev_update (\<lambda>_. Some a))
                          | None \<Rightarrow> Some h4);
                        (h6, c6) \<leftarrow> lru_cache_evict_if_needed h5
                          (c\<lparr>lru_head := Some a,
                             lru_tail := (if lru_tail c = None then Some a else lru_tail c),
                             entry_count := entry_count c + 1,
                             used_bytes := used_bytes c + sz\<rparr>);
                        Some (h6, Some c6, 0)
                      }))))
       }
   | _ \<Rightarrow> Some (h, cache, -1))"

definition lru_cache_size_bytes :: "lru_cache option \<Rightarrow> size_t" where
  "lru_cache_size_bytes cache = (case cache of None \<Rightarrow> 0 | Some c \<Rightarrow> used_bytes c)"

definition lru_cache_size_entries :: "lru_cache option \<Rightarrow> size_t" where
  "lru_cache_size_entries cache = (case cache of None \<Rightarrow> 0 | Some c \<Rightarrow> entry_count c)"


section \<open>The chain behind the operations\<close>

definition lru_rest :: "lru_cache \<Rightarrow> size_t \<times> size_t \<times> size_t \<times> size_t" where
  "lru_rest c = (max_bytes c, max_entries c, used_bytes c, entry_count c)"

definition lru_seg :: "lru_heap \<Rightarrow> lru_cache \<Rightarrow> (addr \<times> lru_item) list \<Rightarrow> bool" where
  "lru_seg h c xs \<longleftrightarrow> dllseg (hp_mem h) None (lru_head c) xs (lru_tail c) None \<and> distinct (addrs xs)"

lemma lru_seg_dom: "lru_seg h c xs \<Longrightarrow> b \<in> set (addrs xs) \<Longrightarrow> hp_mem h b \<noteq> None"
  unfolding lru_seg_def using dllseg_dom by fastforce

lemma lru_find_loop_seg:
  "dllseg (hp_mem h) p f xs l None \<Longrightarrow>
     lru_find_loop h f key = Some (map_option fst (List.find (\<lambda>x. e_key (snd x) = key) xs))"
proof (induction xs arbitrary: p f)
  case Nil
  then show ?case by (simp add: lru_find_loop.simps)
next
  case (Cons x xs)
  then obtain n where n: "f = Some (fst x)" "hp_mem h (fst x) = Some n" "n_val n = snd x"
    and rest: "dllseg (hp_mem h) (Some (fst x)) (n_next n) xs l None" by auto
  from Cons.IH [OF rest] n show ?case by (subst lru_find_loop.simps) auto
qed

lemma lru_find_seg:
  "lru_seg h c xs \<Longrightarrow>
     lru_cache_find h c key = Some (map_option fst (List.find (\<lambda>x. e_key (snd x) = key) xs))"
  unfolding lru_cache_find_def lru_seg_def using lru_find_loop_seg by blast

lemma lru_remove_seg:
  assumes "lru_seg h c (xs @ (a, v) # ys)"
  shows "\<exists>h' c'. lru_cache_remove_entry h c a = Some (h', c') \<and> lru_seg h' c' (xs @ ys) \<and>
     hp_mem h' a = None \<and> same_outside (set (addrs (xs @ (a, v) # ys))) h h' \<and>
     lru_rest c' = (max_bytes c, max_entries c, sub_or_zero (used_bytes c) (e_size v),
       if entry_count c > 0 then entry_count c - 1 else entry_count c)"
proof -
  from assms have seg: "dllseg (hp_mem h) None (lru_head c) (xs @ (a, v) # ys) (lru_tail c) None"
    and dist: "distinct (addrs (xs @ (a, v) # ys))" by (auto simp: lru_seg_def)
  obtain h1 hd1 tl1 where unl: "dl_unlink h (lru_head c) (lru_tail c) a = Some (h1, hd1, tl1)"
    and seg1: "dllseg (hp_mem h1) None hd1 (xs @ ys) tl1 None"
    and out: "same_outside (set (addrs (xs @ ys))) h h1"
    using dl_unlink_spec [OF seg dist] by blast
  have notin: "a \<notin> set (addrs (xs @ ys))" using dist by auto
  from seg obtain n where n: "hp_mem h a = Some n" "n_val n = v" by (auto simp: dllseg_split)
  have n1: "hp_mem h1 a = Some n" using same_outsideD [OF out notin] n by simp
  show ?thesis
    using seg1 dist notin out
    by (auto simp: lru_cache_remove_entry_def unl n1 n(2) h_free_def lru_seg_def lru_rest_def
        same_outside_def)
qed

lemma lru_touch_seg:
  assumes "lru_seg h c (xs @ (a, v) # ys)"
  shows "\<exists>h' c'. lru_cache_touch_front h c a = Some (h', c') \<and> lru_seg h' c' ((a, v) # xs @ ys) \<and>
     same_outside (set (addrs (xs @ (a, v) # ys))) h h' \<and> lru_rest c' = lru_rest c"
proof (cases "xs = []")
  case True
  with assms show ?thesis by (auto simp: lru_seg_def lru_cache_touch_front_def)
next
  case False
  from assms have dx: "distinct (addrs xs)" and dy: "distinct (addrs ys)"
    and disj: "set (addrs xs) \<inter> set (addrs ys) = {}" and a: "a \<notin> set (addrs (xs @ ys))"
    by (auto simp: lru_seg_def)
  from assms obtain n where n: "hp_mem h a = Some n" "n_val n = v"
    and xs: "dllseg (hp_mem h) None (lru_head c) xs (n_prev n) (Some a)"
    and ys: "dllseg (hp_mem h) (Some a) (n_next n) ys (lru_tail c) None"
    by (auto simp: lru_seg_def dllseg_split)
  have hdm: "fst (hd xs) \<in> set (addrs xs)" using False by auto
  have head: "lru_head c = Some (fst (hd xs))" using dllseg_first [OF xs] False by simp
  then have not_head: "lru_head c \<noteq> Some a" using hdm a by auto
  have prev: "n_prev n = Some (fst (last xs))" using dllseg_last [OF xs] False by simp
  obtain h1 where step1: "h_modify h (fst (last xs)) (n_next_update (\<lambda>_. n_next n)) = Some h1"
    and xs1: "dllseg (hp_mem h1) None (lru_head c) xs (n_prev n) (n_next n)"
    and s1: "same_outside (set (addrs xs)) h h1"
    using relink_forward [OF xs dx, of "n_next n"] by (auto simp: prev split: Option.bind_splits)
  have ys1: "dllseg (hp_mem h1) (Some a) (n_next n) ys (lru_tail c) None"
    using ys s1 disj by (simp add: same_outside_dllseg)
  obtain h2 tl2 where step2: "(case n_next n of
         Some b \<Rightarrow> do { h' \<leftarrow> h_modify h1 b (n_prev_update (\<lambda>_. n_prev n)); Some (h', lru_tail c) }
       | None \<Rightarrow> Some (h1, n_prev n)) = Some (h2, tl2)"
    and ys2: "dllseg (hp_mem h2) (n_prev n) (n_next n) ys tl2 None"
    and s2: "same_outside (set (addrs ys)) h1 h2"
    using relink_backward [OF ys1 dy] by blast
  have "dllseg (hp_mem h2) None (lru_head c) xs (n_prev n) (n_next n)"
    using xs1 s2 disj by (simp add: same_outside_dllseg Int_commute)
  with ys2 have both: "dllseg (hp_mem h2) None (lru_head c) (xs @ ys) tl2 None"
    by (auto simp: dllseg_append)
  have s12: "same_outside (set (addrs (xs @ ys))) h h2"
    using s1 s2 by (auto intro: same_outside_trans same_outside_mono)
  have n2: "hp_mem h2 a = Some n" using same_outsideD [OF s12 a] n by simp
  let ?h3 = "h2\<lparr>hp_mem := (hp_mem h2)(a \<mapsto> n\<lparr>n_prev := None, n_next := lru_head c\<rparr>)\<rparr>"
  have seg3: "dllseg (hp_mem ?h3) None (lru_head c) (xs @ ys) tl2 None" using both a by simp
  have mem: "fst (hd xs) \<in> set (addrs (xs @ ys))" using hdm by simp
  obtain m where m: "hp_mem ?h3 (fst (hd xs)) = Some m" using dllseg_dom [OF seg3 mem] by blast
  have dxy: "distinct (addrs (xs @ ys))" using dx dy disj by simp
  have seg4: "dllseg ((hp_mem ?h3)(fst (hd xs) \<mapsto> m\<lparr>n_prev := Some a\<rparr>)) (Some a) (lru_head c) (xs @ ys) tl2 None"
    using dllseg_set_prev [OF seg3 _ dxy head m] False by blast
  have "tl2 \<noteq> None" using dllseg_last [OF both] False by simp
  moreover have "fst (hd xs) \<noteq> a" using a mem by auto
  ultimately show ?thesis
    using not_head n n2 step1 step2 prev head m seg4 a dxy s12 mem
    by (auto simp: lru_cache_touch_front_def h_modify_def lru_seg_def lru_rest_def same_outside_def)
qed


section \<open>The abstract cache\<close>

text \<open>Keys and payloads, most recently used first.\<close>

type_synonym acache = "(string \<times> byte list) list"

definition cache_bytes :: "acache \<Rightarrow> nat" where
  "cache_bytes m = sum_list (map (length \<circ> snd) m)"

definition spec_drop_key :: "string \<Rightarrow> acache \<Rightarrow> acache" where
  "spec_drop_key k m = filter (\<lambda>x. fst x \<noteq> k) m"

text \<open>Entries leave from the back until the rest is within both bounds.\<close>

function spec_evict :: "nat \<Rightarrow> nat \<Rightarrow> acache \<Rightarrow> acache" where
  "spec_evict mb me m =
     (if m = [] \<or> (cache_bytes m \<le> mb \<and> length m \<le> me) then m else spec_evict mb me (butlast m))"
  by pat_completeness auto
termination
  by (relation "measure (\<lambda>(mb, me, m). length m)") auto

declare spec_evict.simps [simp del]

definition spec_get :: "string \<Rightarrow> acache \<Rightarrow> acache \<times> byte list option" where
  "spec_get k m = (case map_of m k of None \<Rightarrow> (m, None) | Some d \<Rightarrow> ((k, d) # spec_drop_key k m, Some d))"

definition spec_put :: "nat \<Rightarrow> nat \<Rightarrow> string \<Rightarrow> byte list \<Rightarrow> acache \<Rightarrow> acache" where
  "spec_put mb me k d m = spec_evict mb me ((k, d) # spec_drop_key k m)"

lemma cache_bytes_simps [simp]:
  "cache_bytes [] = 0" "cache_bytes (x # m) = length (snd x) + cache_bytes m"
  "cache_bytes (m @ m') = cache_bytes m + cache_bytes m'"
  by (simp_all add: cache_bytes_def)

lemma spec_evict_stop: "m = [] \<or> (cache_bytes m \<le> mb \<and> length m \<le> me) \<Longrightarrow> spec_evict mb me m = m"
  by (rule trans [OF spec_evict.simps]) simp

lemma spec_evict_go:
  "m \<noteq> [] \<Longrightarrow> \<not> (cache_bytes m \<le> mb \<and> length m \<le> me) \<Longrightarrow>
     spec_evict mb me m = spec_evict mb me (butlast m)"
  by (subst spec_evict.simps, rule if_not_P) auto

text \<open>
  What eviction leaves is a prefix within the bounds, and the longest one: one more entry would
  break a bound.
\<close>

lemma spec_evict_prefix: "\<exists>rest. m = spec_evict mb me m @ rest"
proof (induction mb me m rule: spec_evict.induct)
  case (1 mb me m)
  show ?case
  proof (cases "m = [] \<or> (cache_bytes m \<le> mb \<and> length m \<le> me)")
    case True
    then show ?thesis by (simp add: spec_evict_stop)
  next
    case False
    with 1 obtain rest where "butlast m = spec_evict mb me (butlast m) @ rest" by blast
    then have "m = spec_evict mb me (butlast m) @ (rest @ [last m])"
      using False by (metis append.assoc append_butlast_last_id)
    then show ?thesis using False spec_evict_go by metis
  qed
qed

lemma spec_evict_bounds:
  "spec_evict mb me m = [] \<or> (cache_bytes (spec_evict mb me m) \<le> mb \<and> length (spec_evict mb me m) \<le> me)"
proof (induction mb me m rule: spec_evict.induct)
  case (1 mb me m)
  show ?case
  proof (cases "m = [] \<or> (cache_bytes m \<le> mb \<and> length m \<le> me)")
    case True
    then show ?thesis by (simp only: spec_evict_stop)
  next
    case False
    with 1 show ?thesis using spec_evict_go by auto
  qed
qed

lemma spec_evict_longest:
  "k \<le> length m \<Longrightarrow> cache_bytes (take k m) \<le> mb \<Longrightarrow> k \<le> me \<Longrightarrow> k \<le> length (spec_evict mb me m)"
proof (induction mb me m rule: spec_evict.induct)
  case (1 mb me m)
  show ?case
  proof (cases "m = [] \<or> (cache_bytes m \<le> mb \<and> length m \<le> me)")
    case True
    with 1 show ?thesis by (simp add: spec_evict_stop)
  next
    case False
    have "k \<noteq> length m" using False 1 by auto
    then have "k \<le> length (butlast m)" using 1 by simp
    moreover from this have "take k (butlast m) = take k m" by (simp add: butlast_conv_take)
    ultimately show ?thesis using 1 False spec_evict_go by auto
  qed
qed

lemma spec_evict_first:
  "length (snd x) \<le> mb \<Longrightarrow> 1 \<le> me \<Longrightarrow> \<exists>rest. spec_evict mb me (x # m) = x # rest"
proof (induction m rule: rev_induct)
  case Nil
  then show ?case by (simp add: spec_evict_stop)
next
  case (snoc y m)
  show ?case
  proof (cases "cache_bytes (x # m @ [y]) \<le> mb \<and> length (x # m @ [y]) \<le> me")
    case True
    then have "spec_evict mb me (x # m @ [y]) = x # m @ [y]" by (intro spec_evict_stop) simp
    then show ?thesis by simp
  next
    case False
    then have "spec_evict mb me (x # m @ [y]) = spec_evict mb me (butlast (x # m @ [y]))"
      by (intro spec_evict_go) simp_all
    with snoc show ?thesis by (simp add: butlast_append)
  qed
qed

lemma spec_evict_snoc:
  "\<not> (cache_bytes (m @ [x]) \<le> mb \<and> length (m @ [x]) \<le> me) \<Longrightarrow>
     spec_evict mb me (m @ [x]) = spec_evict mb me m"
  by (subst spec_evict_go) simp_all


section \<open>Representation of an abstract cache\<close>

definition item_ok :: "lru_item \<Rightarrow> bool" where
  "item_ok i \<longleftrightarrow> (\<exists>d. e_data i = Some d \<and> length d = unat (e_size i)) \<and> e_size i \<noteq> 0"

definition item_abs :: "lru_item \<Rightarrow> string \<times> byte list" where
  "item_abs i = (e_key i, the (e_data i))"

definition lru_abs :: "(addr \<times> lru_item) list \<Rightarrow> acache" where
  "lru_abs xs = map (item_abs \<circ> snd) xs"

text \<open>
  The chain is intact, keys are unique, every entry holds as many bytes as its size says, and
  the two totals of the header are the sums they stand for.
\<close>

definition lru_sums :: "lru_heap \<Rightarrow> lru_cache \<Rightarrow> (addr \<times> lru_item) list \<Rightarrow> bool" where
  "lru_sums h c xs \<longleftrightarrow>
     heap_ok h \<and> lru_seg h c xs \<and> distinct (map (e_key \<circ> snd) xs) \<and> (\<forall>x \<in> set xs. item_ok (snd x)) \<and>
     unat (used_bytes c) = cache_bytes (lru_abs xs) \<and> unat (entry_count c) = length xs"

text \<open>
  The invariant of a cache between calls. The last two conjuncts say that the configured bounds
  leave room for one more entry in 64 bits, so that the sums taken before eviction do not wrap.
\<close>

definition lru_inv :: "lru_heap \<Rightarrow> lru_cache \<Rightarrow> (addr \<times> lru_item) list \<Rightarrow> bool" where
  "lru_inv h c xs \<longleftrightarrow> lru_sums h c xs \<and> used_bytes c \<le> max_bytes c \<and> entry_count c \<le> max_entries c \<and>
     0 < max_bytes c \<and> 0 < max_entries c \<and> unat (max_bytes c) < 2 ^ 63 \<and> unat (max_entries c) < 2 ^ 64 - 1"

lemma lru_abs_simps [simp]:
  "lru_abs [] = []" "lru_abs (x # xs) = item_abs (snd x) # lru_abs xs"
  "lru_abs (xs @ ys) = lru_abs xs @ lru_abs ys" "length (lru_abs xs) = length xs"
  by (simp_all add: lru_abs_def)

lemma lru_abs_Nil_iff [simp]: "lru_abs xs = [] \<longleftrightarrow> xs = []"
  by (simp add: lru_abs_def)

lemma item_ok_bytes: "item_ok i \<Longrightarrow> length (snd (item_abs i)) = unat (e_size i)"
  by (auto simp: item_ok_def item_abs_def)

lemma fst_item_abs [simp]: "fst (item_abs i) = e_key i"
  by (simp add: item_abs_def)

lemma lru_abs_keys: "map fst (lru_abs xs) = map (e_key \<circ> snd) xs"
  by (simp add: lru_abs_def)

lemma spec_drop_key_absent: "k \<notin> fst ` set m \<Longrightarrow> spec_drop_key k m = m"
  by (induction m) (auto simp: spec_drop_key_def)

lemma spec_drop_key_split:
  "distinct (map fst (m @ (k, d) # m')) \<Longrightarrow> spec_drop_key k (m @ (k, d) # m') = m @ m'"
proof -
  assume dist: "distinct (map fst (m @ (k, d) # m'))"
  then have "spec_drop_key k m = m" and "spec_drop_key k m' = m'"
    by (simp_all add: spec_drop_key_absent)
  then show ?thesis by (simp add: spec_drop_key_def)
qed

lemma sub_or_zero_unat: "unat (sub_or_zero u s) = unat u - unat s"
  by (simp add: sub_or_zero_def unat_sub word_le_nat_alt)

text \<open>Dropping the last entry, as eviction does.\<close>

lemma lru_remove_last_sums:
  assumes "lru_sums h c (xs @ [(a, v)])"
  shows "\<exists>h' c'. lru_cache_remove_entry h c a = Some (h', c') \<and> lru_sums h' c' xs \<and>
     max_bytes c' = max_bytes c \<and> max_entries c' = max_entries c"
proof -
  from assms have seg: "lru_seg h c (xs @ (a, v) # [])" by (simp add: lru_sums_def)
  from lru_remove_seg [OF this] obtain h' c' where
    rem: "lru_cache_remove_entry h c a = Some (h', c')" "lru_seg h' c' xs"
      "hp_mem h' a = None" "same_outside (set (addrs (xs @ [(a, v)]))) h h'"
      "lru_rest c' = (max_bytes c, max_entries c, sub_or_zero (used_bytes c) (e_size v),
       if entry_count c > 0 then entry_count c - 1 else entry_count c)" by auto
  have item: "item_ok v" and cnt: "unat (entry_count c) = Suc (length xs)"
    and used: "unat (used_bytes c) = cache_bytes (lru_abs xs) + unat (e_size v)"
    using assms by (auto simp: lru_sums_def item_ok_bytes)
  have "heap_ok h'"
    using heap_ok_same_outside [OF _ rem(4)] assms lru_seg_dom [OF seg] by (simp add: lru_sums_def)
  moreover have "entry_count c > 0" using cnt by (simp add: word_less_nat_alt)
  moreover from this have "unat (entry_count c - 1) = length xs"
    using cnt by (metis One_nat_def diff_Suc_1 unat_1 unat_minus_one word_less_nat_alt word_not_simps(1))
  ultimately show ?thesis
    using assms rem used by (auto simp: lru_sums_def lru_rest_def sub_or_zero_unat)
qed

lemma lru_evict_sums:
  "lru_sums h c xs \<Longrightarrow>
     \<exists>h' c' xs'. lru_cache_evict_if_needed h c = Some (h', c') \<and> lru_sums h' c' xs' \<and>
       lru_abs xs' = spec_evict (unat (max_bytes c)) (unat (max_entries c)) (lru_abs xs) \<and>
       max_bytes c' = max_bytes c \<and> max_entries c' = max_entries c \<and> (\<exists>rest. xs = xs' @ rest)"
proof (induction xs arbitrary: h c rule: rev_induct)
  case Nil
  then have "lru_tail c = None" by (simp add: lru_sums_def lru_seg_def)
  with Nil show ?case by (subst lru_cache_evict_if_needed.simps) (auto simp: spec_evict_stop)
next
  case (snoc x xs)
  obtain a v where x: "x = (a, v)" by (cases x)
  have over: "(used_bytes c > max_bytes c \<or> entry_count c > max_entries c) \<longleftrightarrow>
      \<not> (cache_bytes (lru_abs (xs @ [x])) \<le> unat (max_bytes c) \<and> length (lru_abs (xs @ [x])) \<le> unat (max_entries c))"
    using snoc.prems by (auto simp: lru_sums_def word_less_nat_alt)
  show ?case
  proof (cases "used_bytes c > max_bytes c \<or> entry_count c > max_entries c")
    case False
    then have "spec_evict (unat (max_bytes c)) (unat (max_entries c)) (lru_abs (xs @ [x])) = lru_abs (xs @ [x])"
      using over by (intro spec_evict_stop) blast
    with False snoc.prems show ?thesis by (subst lru_cache_evict_if_needed.simps) auto
  next
    case True
    have tail: "lru_tail c = Some a"
      using snoc.prems by (auto simp: lru_sums_def lru_seg_def x dllseg_snoc)
    from snoc.prems have "lru_sums h c (xs @ [(a, v)])" by (simp add: x)
    from lru_remove_last_sums [OF this] obtain h1 c1 where
      rem: "lru_cache_remove_entry h c a = Some (h1, c1)" "lru_sums h1 c1 xs"
        "max_bytes c1 = max_bytes c" "max_entries c1 = max_entries c" by blast
    have "spec_evict (unat (max_bytes c)) (unat (max_entries c)) (lru_abs (xs @ [x])) =
        spec_evict (unat (max_bytes c)) (unat (max_entries c)) (lru_abs xs)"
      using spec_evict_snoc over True by simp
    moreover obtain h' c' xs' where "lru_cache_evict_if_needed h1 c1 = Some (h', c')"
      and "lru_sums h' c' xs'" and "max_bytes c' = max_bytes c1" and "max_entries c' = max_entries c1"
      and "lru_abs xs' = spec_evict (unat (max_bytes c1)) (unat (max_entries c1)) (lru_abs xs)"
      and "\<exists>rest. xs = xs' @ rest"
      using snoc.IH [OF rem(2)] by blast
    moreover have "lru_cache_evict_if_needed h c = lru_cache_evict_if_needed h1 c1"
      using True tail rem(1) by (subst lru_cache_evict_if_needed.simps) simp
    ultimately show ?thesis using rem(3,4) by (metis append.assoc)
  qed
qed


section \<open>Lookup and insertion\<close>

lemma find_Some_split:
  "List.find P xs = Some x \<Longrightarrow> \<exists>ys zs. xs = ys @ x # zs \<and> P x"
  by (metis find_Some_iff id_take_nth_drop)

lemma lru_find_abs:
  assumes "lru_sums h c xs"
  shows "(lru_cache_find h c k = Some None \<and> k \<notin> fst ` set (lru_abs xs)) \<or>
    (\<exists>ys a v zs. lru_cache_find h c k = Some (Some a) \<and> xs = ys @ (a, v) # zs \<and> e_key v = k)"
proof -
  have found: "lru_cache_find h c k = Some (map_option fst (List.find (\<lambda>x. e_key (snd x) = k) xs))"
    using assms by (intro lru_find_seg) (simp add: lru_sums_def)
  show ?thesis
  proof (cases "List.find (\<lambda>x. e_key (snd x) = k) xs")
    case None
    then have "\<forall>x \<in> set xs. e_key (snd x) \<noteq> k" unfolding find_None_iff by blast
    then have "k \<notin> fst ` set (lru_abs xs)" by (auto simp: lru_abs_def)
    with None found show ?thesis by simp
  next
    case (Some x)
    from find_Some_split [OF Some] obtain ys zs where "xs = ys @ x # zs" "e_key (snd x) = k" by blast
    with Some found show ?thesis by (cases x) auto
  qed
qed

lemma lru_sums_malloc: "lru_sums h c xs \<Longrightarrow> lru_sums (h\<lparr>hp_brk := Suc (hp_brk h)\<rparr>) c xs"
  by (simp add: lru_sums_def lru_seg_def heap_ok_def)

lemma map_of_lru_abs:
  assumes "lru_sums h c (ys @ (a, v) # zs)"
  shows "map_of (lru_abs (ys @ (a, v) # zs)) (e_key v) = e_data v"
proof -
  have d: "distinct (map fst (lru_abs (ys @ (a, v) # zs)))" and ok: "item_ok v"
    using assms unfolding lru_abs_keys by (auto simp: lru_sums_def)
  have "(e_key v, the (e_data v)) \<in> set (lru_abs (ys @ (a, v) # zs))" by (simp add: item_abs_def)
  with d have "map_of (lru_abs (ys @ (a, v) # zs)) (e_key v) = Some (the (e_data v))" by (rule map_of_is_SomeI)
  with ok show ?thesis by (auto simp: item_ok_def)
qed

lemma lru_drop_key_abs:
  assumes "lru_sums h c (ys @ (a, v) # zs)"
  shows "spec_drop_key (e_key v) (lru_abs (ys @ (a, v) # zs)) = lru_abs (ys @ zs)"
proof -
  have "distinct (map fst (lru_abs (ys @ (a, v) # zs)))"
    using assms unfolding lru_abs_keys by (auto simp: lru_sums_def)
  then have "distinct (map fst (lru_abs ys @ (e_key v, snd (item_abs v)) # lru_abs zs))"
    by (metis fst_item_abs lru_abs_simps(2,3) prod.collapse snd_conv)
  from spec_drop_key_split [OF this] show ?thesis
    by (metis fst_item_abs lru_abs_simps(2,3) prod.collapse snd_conv)
qed

lemma lru_touch_sums:
  assumes "lru_sums h c (ys @ (a, v) # zs)"
  shows "\<exists>h' c'. lru_cache_touch_front h c a = Some (h', c') \<and> lru_sums h' c' ((a, v) # ys @ zs) \<and>
     max_bytes c' = max_bytes c \<and> max_entries c' = max_entries c \<and>
     used_bytes c' = used_bytes c \<and> entry_count c' = entry_count c"
proof -
  from assms have seg: "lru_seg h c (ys @ (a, v) # zs)" by (simp add: lru_sums_def)
  from lru_touch_seg [OF this] obtain h' c' where
    t: "lru_cache_touch_front h c a = Some (h', c')" "lru_seg h' c' ((a, v) # ys @ zs)"
      "same_outside (set (addrs (ys @ (a, v) # zs))) h h'" "lru_rest c' = lru_rest c" by blast
  have "heap_ok h'"
    using heap_ok_same_outside [OF _ t(3)] assms lru_seg_dom [OF seg] by (simp add: lru_sums_def)
  with t assms show ?thesis by (auto simp: lru_sums_def lru_rest_def)
qed

lemma lru_get_copy_spec:
  assumes inv: "lru_inv h c xs"
  shows "\<exists>h' c' xs' r. lru_cache_get_copy h (Some c) (Some k) True True = Some (h', Some c', r) \<and>
     lru_inv h' c' xs' \<and> max_bytes c' = max_bytes c \<and> max_entries c' = max_entries c \<and>
     (case map_of (lru_abs xs) k of
        None \<Rightarrow> \<not> g_ret r \<and> lru_abs xs' = lru_abs xs
      | Some d \<Rightarrow>
          if hp_oom h (hp_brk h) then \<not> g_ret r \<and> lru_abs xs' = lru_abs xs
          else g_ret r \<and> g_data r = Some (Some d) \<and> g_size r = Some (of_nat (length d)) \<and>
            lru_abs xs' = fst (spec_get k (lru_abs xs)))"
proof -
  from inv have sums: "lru_sums h c xs" by (simp add: lru_inv_def)
  from lru_find_abs [OF sums, of k] show ?thesis
  proof
    assume none: "lru_cache_find h c k = Some None \<and> k \<notin> fst ` set (lru_abs xs)"
    then have "map_of (lru_abs xs) k = None" by (simp add: map_of_eq_None_iff)
    with none inv show ?thesis by (auto simp: lru_cache_get_copy_def)
  next
    assume "\<exists>ys a v zs. lru_cache_find h c k = Some (Some a) \<and> xs = ys @ (a, v) # zs \<and> e_key v = k"
    then obtain ys a v zs where f: "lru_cache_find h c k = Some (Some a)" and xs: "xs = ys @ (a, v) # zs"
      and key: "e_key v = k" by blast
    from sums have sums': "lru_sums h c (ys @ (a, v) # zs)" by (simp add: xs)
    then obtain n where n: "hp_mem h a = Some n" "n_val n = v"
      by (auto simp: lru_sums_def lru_seg_def dllseg_split)
    from sums' obtain d where d: "e_data v = Some d" "length d = unat (e_size v)" "e_size v \<noteq> 0"
      by (auto simp: lru_sums_def item_ok_def)
    have look: "map_of (lru_abs xs) k = Some d" using map_of_lru_abs [OF sums'] d key xs by simp
    let ?h = "h\<lparr>hp_brk := Suc (hp_brk h)\<rparr>"
    show ?thesis
    proof (cases "hp_oom h (hp_brk h)")
      case True
      have "lru_inv ?h c xs" using inv by (simp add: lru_inv_def lru_sums_malloc)
      with True f n d look show ?thesis by (auto simp: lru_cache_get_copy_def h_malloc_def)
    next
      case False
      from lru_touch_sums [OF lru_sums_malloc [OF sums']] obtain h' c' where
        t: "lru_cache_touch_front ?h c a = Some (h', c')" "lru_sums h' c' ((a, v) # ys @ zs)"
          "max_bytes c' = max_bytes c" "max_entries c' = max_entries c"
          "used_bytes c' = used_bytes c" "entry_count c' = entry_count c" by blast
      have "lru_inv h' c' ((a, v) # ys @ zs)" using t inv by (simp add: lru_inv_def)
      moreover have "lru_abs ((a, v) # ys @ zs) = fst (spec_get k (lru_abs xs))"
        using lru_drop_key_abs [OF sums'] look d key xs by (simp add: spec_get_def item_abs_def)
      ultimately show ?thesis
        using False f n d look t by (auto simp: lru_cache_get_copy_def h_malloc_def)
    qed
  qed
qed


lemma lru_set_item_sums:
  assumes sums: "lru_sums h c (ys @ (a, v) # zs)" and n: "hp_mem h a = Some n"
    and w: "item_ok w" "e_key w = e_key v"
    and room: "unat (used_bytes c) + unat (e_size w) < 2 ^ 64"
  shows "lru_sums (h\<lparr>hp_mem := (hp_mem h)(a \<mapsto> n\<lparr>n_val := w\<rparr>)\<rparr>)
     (c\<lparr>used_bytes := sub_or_zero (used_bytes c) (e_size v) + e_size w\<rparr>) (ys @ (a, w) # zs)"
proof -
  from sums have seg: "dllseg (hp_mem h) None (lru_head c) (ys @ (a, v) # zs) (lru_tail c) None"
    and dist: "distinct (addrs (ys @ (a, v) # zs))" by (auto simp: lru_sums_def lru_seg_def)
  have used: "unat (used_bytes c) = cache_bytes (lru_abs ys) + unat (e_size v) + cache_bytes (lru_abs zs)"
    using sums by (auto simp: lru_sums_def item_ok_bytes)
  then have "unat (sub_or_zero (used_bytes c) (e_size v) + e_size w) =
      cache_bytes (lru_abs ys) + cache_bytes (lru_abs zs) + unat (e_size w)"
    using room by (simp add: unat_word_ariths sub_or_zero_unat)
  with dllseg_set_val [OF seg dist n, of w] sums w show ?thesis
    by (auto simp: lru_sums_def lru_seg_def item_ok_bytes heap_ok_upd n)
qed

lemma lru_push_sums:
  assumes sums: "lru_sums h c xs" and fresh: "hp_mem h a = None" "a < hp_brk h"
    and v: "item_ok v" "e_key v \<notin> fst ` set (lru_abs xs)"
    and room: "unat (used_bytes c) + unat (e_size v) < 2 ^ 64" "Suc (unat (entry_count c)) < 2 ^ 64"
  shows "\<exists>h'. (case lru_head c of
         Some b \<Rightarrow> h_modify (h\<lparr>hp_mem := (hp_mem h)(a \<mapsto> \<lparr>n_prev = None, n_next = lru_head c, n_val = v\<rparr>)\<rparr>)
                     b (n_prev_update (\<lambda>_. Some a))
       | None \<Rightarrow> Some (h\<lparr>hp_mem := (hp_mem h)(a \<mapsto> \<lparr>n_prev = None, n_next = lru_head c, n_val = v\<rparr>)\<rparr>)) = Some h' \<and>
     lru_sums h' (c\<lparr>lru_head := Some a, lru_tail := (if lru_tail c = None then Some a else lru_tail c),
       entry_count := entry_count c + 1, used_bytes := used_bytes c + e_size v\<rparr>) ((a, v) # xs)"
proof -
  let ?n = "\<lparr>n_prev = None, n_next = lru_head c, n_val = v\<rparr>"
  let ?h = "h\<lparr>hp_mem := (hp_mem h)(a \<mapsto> ?n)\<rparr>"
  from sums have seg0: "dllseg (hp_mem h) None (lru_head c) xs (lru_tail c) None"
    and dist: "distinct (addrs xs)" by (auto simp: lru_sums_def lru_seg_def)
  have notin: "a \<notin> set (addrs xs)" using dllseg_dom [OF seg0, of a] fresh(1) by auto
  have seg: "dllseg (hp_mem ?h) None (lru_head c) xs (lru_tail c) None" using seg0 notin by simp
  obtain h' tl1 where r: "(case lru_head c of
         Some b \<Rightarrow> do { h' \<leftarrow> h_modify ?h b (n_prev_update (\<lambda>_. Some a)); Some (h', lru_tail c) }
       | None \<Rightarrow> Some (?h, Some a)) = Some (h', tl1)"
    and seg1: "dllseg (hp_mem h') (Some a) (lru_head c) xs tl1 None"
    and out: "same_outside (set (addrs xs)) ?h h'"
    using relink_backward [OF seg dist, of "Some a"] by blast
  have tl1: "tl1 = (if lru_tail c = None then Some a else lru_tail c)"
    using dllseg_last [OF seg1] dllseg_last [OF seg0] by (auto split: if_splits)
  have step: "(case lru_head c of Some b \<Rightarrow> h_modify ?h b (n_prev_update (\<lambda>_. Some a)) | None \<Rightarrow> Some ?h) = Some h'"
    using r by (auto split: option.splits Option.bind_splits)
  have ok: "heap_ok ?h" using sums fresh(2) by (auto simp: lru_sums_def heap_ok_def)
  have "heap_ok h'"
    using heap_ok_same_outside [OF ok out] dllseg_dom [OF seg] by blast
  moreover have "hp_mem h' a = Some ?n" using same_outsideD [OF out notin] by simp
  moreover have "unat (used_bytes c + e_size v) = unat (used_bytes c) + unat (e_size v)"
    and "unat (entry_count c + 1) = Suc (unat (entry_count c))"
    using room by (simp_all add: unat_word_ariths)
  moreover have "e_key v \<notin> (e_key \<circ> snd) ` set xs" using v(2) by (auto simp: lru_abs_def image_comp)
  ultimately show ?thesis
    using step seg1 sums dist notin v tl1
    by (auto simp: lru_sums_def lru_seg_def item_ok_bytes)
qed

lemma lru_evict_inv:
  assumes sums: "lru_sums h c xs" and cfg: "0 < max_bytes c" "0 < max_entries c"
    "unat (max_bytes c) < 2 ^ 63" "unat (max_entries c) < 2 ^ 64 - 1"
  shows "\<exists>h' c' xs'. lru_cache_evict_if_needed h c = Some (h', c') \<and> lru_inv h' c' xs' \<and>
     lru_abs xs' = spec_evict (unat (max_bytes c)) (unat (max_entries c)) (lru_abs xs) \<and>
     max_bytes c' = max_bytes c \<and> max_entries c' = max_entries c"
proof -
  from lru_evict_sums [OF sums] obtain h' c' xs' where
    e: "lru_cache_evict_if_needed h c = Some (h', c')" "lru_sums h' c' xs'"
      "lru_abs xs' = spec_evict (unat (max_bytes c)) (unat (max_entries c)) (lru_abs xs)"
      "max_bytes c' = max_bytes c" "max_entries c' = max_entries c" by blast
  have "cache_bytes (lru_abs xs') \<le> unat (max_bytes c) \<and> length xs' \<le> unat (max_entries c)"
    using spec_evict_bounds [of "unat (max_bytes c)" "unat (max_entries c)" "lru_abs xs"]
    unfolding e(3) [symmetric] by auto
  then have "lru_inv h' c' xs'"
    using e cfg by (simp add: lru_inv_def lru_sums_def word_le_nat_alt)
  with e show ?thesis by blast
qed


lemma lru_put_existing:
  assumes inv: "lru_inv h c xs" and args: "sz \<noteq> 0" "sz \<le> max_bytes c" "unat sz \<le> length d"
    and found: "lru_cache_find h c k = Some (Some a)" and xs: "xs = ys @ (a, v) # zs" and key: "e_key v = k"
    and ok: "\<not> hp_oom h (hp_brk h)"
  shows "\<exists>h' c' xs'. lru_cache_put_copy h (Some c) (Some k) (Some d) sz = Some (h', Some c', 0) \<and>
     lru_inv h' c' xs' \<and> max_bytes c' = max_bytes c \<and> max_entries c' = max_entries c \<and>
     lru_abs xs' = spec_put (unat (max_bytes c)) (unat (max_entries c)) k (take (unat sz) d) (lru_abs xs)"
proof -
  let ?h1 = "h\<lparr>hp_brk := Suc (hp_brk h)\<rparr>"
  let ?w = "v\<lparr>e_data := Some (take (unat sz) d), e_size := sz\<rparr>"
  from inv have sums: "lru_sums ?h1 c (ys @ (a, v) # zs)"
    using lru_sums_malloc by (simp add: lru_inv_def xs)
  then obtain n where n: "hp_mem ?h1 a = Some n" "n_val n = v"
    by (auto simp: lru_sums_def lru_seg_def dllseg_split)
  have w: "item_ok ?w" "e_key ?w = e_key v" using args by (auto simp: item_ok_def)
  have room: "unat (used_bytes c) + unat (e_size ?w) < 2 ^ 64"
    using inv args(2) by (simp add: lru_inv_def word_le_nat_alt)
  let ?h2 = "?h1\<lparr>hp_mem := (hp_mem ?h1)(a \<mapsto> n\<lparr>n_val := ?w\<rparr>)\<rparr>"
  let ?c2 = "c\<lparr>used_bytes := sub_or_zero (used_bytes c) (e_size v) + e_size ?w\<rparr>"
  have s2: "lru_sums ?h2 ?c2 (ys @ (a, ?w) # zs)"
    using lru_set_item_sums [OF sums n(1) w room] .
  from lru_touch_sums [OF s2] obtain h3 c3 where
    t: "lru_cache_touch_front ?h2 ?c2 a = Some (h3, c3)" "lru_sums h3 c3 ((a, ?w) # ys @ zs)"
      "max_bytes c3 = max_bytes c" "max_entries c3 = max_entries c" by auto
  from lru_evict_inv [OF t(2)] inv t(3,4) obtain h4 c4 xs' where
    e: "lru_cache_evict_if_needed h3 c3 = Some (h4, c4)" "lru_inv h4 c4 xs'"
      "lru_abs xs' = spec_evict (unat (max_bytes c)) (unat (max_entries c)) (lru_abs ((a, ?w) # ys @ zs))"
      "max_bytes c4 = max_bytes c" "max_entries c4 = max_entries c" by (auto simp: lru_inv_def)
  have "lru_abs ((a, ?w) # ys @ zs) = (k, take (unat sz) d) # spec_drop_key k (lru_abs xs)"
    using lru_drop_key_abs [OF sums] key by (simp add: xs item_abs_def)
  then have "lru_abs xs' = spec_put (unat (max_bytes c)) (unat (max_entries c)) k (take (unat sz) d) (lru_abs xs)"
    using e(3) by (simp add: spec_put_def)
  moreover have "lru_cache_put_copy h (Some c) (Some k) (Some d) sz = Some (h4, Some c4, 0)"
    using args found ok n t(1) e(1)
    by (simp add: lru_cache_put_copy_def h_malloc_def h_modify_def)
  ultimately show ?thesis using e by blast
qed

lemma lru_put_new:
  assumes inv: "lru_inv h c xs" and args: "sz \<noteq> 0" "sz \<le> max_bytes c" "unat sz \<le> length d"
    and found: "lru_cache_find h c k = Some None" and new: "k \<notin> fst ` set (lru_abs xs)"
    and ok: "\<not> hp_oom h (hp_brk h)" "\<not> hp_oom h (Suc (hp_brk h))" "\<not> hp_oom h (Suc (Suc (hp_brk h)))"
  shows "\<exists>h' c' xs'. lru_cache_put_copy h (Some c) (Some k) (Some d) sz = Some (h', Some c', 0) \<and>
     lru_inv h' c' xs' \<and> max_bytes c' = max_bytes c \<and> max_entries c' = max_entries c \<and>
     lru_abs xs' = spec_put (unat (max_bytes c)) (unat (max_entries c)) k (take (unat sz) d) (lru_abs xs)"
proof -
  let ?a = "hp_brk h"
  let ?h3 = "h\<lparr>hp_brk := Suc (Suc (Suc (hp_brk h)))\<rparr>"
  let ?v = "\<lparr>e_key = k, e_data = Some (take (unat sz) d), e_size = sz\<rparr>"
  from inv have sums0: "lru_sums h c xs" by (simp add: lru_inv_def)
  then have sums: "lru_sums ?h3 c xs" by (simp add: lru_sums_def lru_seg_def heap_ok_def)
  have fresh: "hp_mem ?h3 ?a = None" "?a < hp_brk ?h3"
    using sums0 by (simp_all add: lru_sums_def heap_ok_brk)
  have v: "item_ok ?v" "e_key ?v \<notin> fst ` set (lru_abs xs)" using args new by (auto simp: item_ok_def)
  have room: "unat (used_bytes c) + unat (e_size ?v) < 2 ^ 64" "Suc (unat (entry_count c)) < 2 ^ 64"
    using inv args(2) by (simp_all add: lru_inv_def word_le_nat_alt)
  let ?c = "c\<lparr>lru_head := Some ?a, lru_tail := (if lru_tail c = None then Some ?a else lru_tail c),
       entry_count := entry_count c + 1, used_bytes := used_bytes c + e_size ?v\<rparr>"
  let ?h4 = "?h3\<lparr>hp_mem := (hp_mem ?h3)(?a \<mapsto> \<lparr>n_prev = None, n_next = lru_head c, n_val = ?v\<rparr>)\<rparr>"
  from lru_push_sums [OF sums fresh v room] obtain h5 where
    p: "(case lru_head c of Some b \<Rightarrow> h_modify ?h4 b (n_prev_update (\<lambda>_. Some ?a)) | None \<Rightarrow> Some ?h4) = Some h5"
      "lru_sums h5 ?c ((?a, ?v) # xs)" by blast
  from lru_evict_inv [OF p(2)] inv obtain h6 c6 xs' where
    e: "lru_cache_evict_if_needed h5 ?c = Some (h6, c6)" "lru_inv h6 c6 xs'"
      "lru_abs xs' = spec_evict (unat (max_bytes c)) (unat (max_entries c)) (lru_abs ((?a, ?v) # xs))"
      "max_bytes c6 = max_bytes c" "max_entries c6 = max_entries c" by (auto simp: lru_inv_def)
  have "lru_abs ((?a, ?v) # xs) = (k, take (unat sz) d) # spec_drop_key k (lru_abs xs)"
    using new by (simp add: item_abs_def spec_drop_key_absent)
  then have abs: "lru_abs xs' = spec_put (unat (max_bytes c)) (unat (max_entries c)) k (take (unat sz) d) (lru_abs xs)"
    using e(3) by (simp add: spec_put_def)
  have upd: "(hp_mem h)(?a \<mapsto> x, ?a \<mapsto> y) = (hp_mem h)(?a \<mapsto> y)" for x y by simp
  have "lru_cache_put_copy h (Some c) (Some k) (Some d) sz = Some (h6, Some c6, 0)"
    using args found ok p(1) e(1)
    by (cases "lru_head c")
      (simp_all add: lru_cache_put_copy_def h_malloc_def h_alloc_def h_modify_def [of _ "hp_brk h"])
  with e abs show ?thesis by blast
qed


text \<open>
  Insertion on any heap, also one whose allocations fail: either it reports success and the
  cache is what the abstract insertion gives, or it reports failure and the content is as before.
\<close>

lemma lru_inv_brk: "lru_inv h c xs \<Longrightarrow> lru_inv (h\<lparr>hp_brk := Suc (hp_brk h)\<rparr>) c xs"
  by (simp add: lru_inv_def lru_sums_malloc)

lemma lru_put_copy_spec:
  assumes inv: "lru_inv h c xs" and args: "sz \<noteq> 0" "sz \<le> max_bytes c" "unat sz \<le> length d"
  shows "\<exists>h' c' xs' r. lru_cache_put_copy h (Some c) (Some k) (Some d) sz = Some (h', Some c', r) \<and>
     lru_inv h' c' xs' \<and> max_bytes c' = max_bytes c \<and> max_entries c' = max_entries c \<and>
     (r = 0 \<and> lru_abs xs' = spec_put (unat (max_bytes c)) (unat (max_entries c)) k (take (unat sz) d) (lru_abs xs) \<or>
      r = -1 \<and> lru_abs xs' = lru_abs xs \<and> (\<exists>n. hp_oom h n))"
proof -
  from inv have sums: "lru_sums h c xs" by (simp add: lru_inv_def)
  from lru_find_abs [OF sums, of k] show ?thesis
  proof
    assume none: "lru_cache_find h c k = Some None \<and> k \<notin> fst ` set (lru_abs xs)"
    show ?thesis
    proof (cases "hp_oom h (hp_brk h) \<or> hp_oom h (Suc (hp_brk h)) \<or> hp_oom h (Suc (Suc (hp_brk h)))")
      case False
      then have "\<not> hp_oom h (hp_brk h)" "\<not> hp_oom h (Suc (hp_brk h))" "\<not> hp_oom h (Suc (Suc (hp_brk h)))"
        by simp_all
      from lru_put_new [OF inv args conjunct1 [OF none] conjunct2 [OF none] this]
      obtain h' c' xs' where "lru_cache_put_copy h (Some c) (Some k) (Some d) sz = Some (h', Some c', 0)"
        "lru_inv h' c' xs'" "max_bytes c' = max_bytes c" "max_entries c' = max_entries c"
        "lru_abs xs' = spec_put (unat (max_bytes c)) (unat (max_entries c)) k (take (unat sz) d) (lru_abs xs)"
        by blast
      then show ?thesis by auto
    next
      case True
      have brk: "(hp_mem h)(hp_brk h := None) = hp_mem h"
        using sums by (simp add: lru_sums_def heap_ok_brk fun_upd_idem)
      have "\<exists>n. lru_cache_put_copy h (Some c) (Some k) (Some d) sz =
          Some (h\<lparr>hp_brk := n\<rparr>, Some c, -1) \<and> n \<ge> hp_brk h"
        using True none args
        by (auto simp: lru_cache_put_copy_def h_malloc_def h_alloc_def h_free_def brk)
      then obtain n where n: "lru_cache_put_copy h (Some c) (Some k) (Some d) sz =
          Some (h\<lparr>hp_brk := n\<rparr>, Some c, -1)" "n \<ge> hp_brk h" by blast
      have inv': "lru_inv (h\<lparr>hp_brk := n\<rparr>) c xs"
        using inv n(2) by (simp add: lru_inv_def lru_sums_def lru_seg_def heap_ok_def)
      have oom: "\<exists>n. hp_oom h n" using True by blast
      show ?thesis
        by (rule exI [of _ "h\<lparr>hp_brk := n\<rparr>"], rule exI [of _ c], rule exI [of _ xs], rule exI [of _ "-1"])
          (simp add: n(1) inv' oom)
    qed
  next
    assume "\<exists>ys a v zs. lru_cache_find h c k = Some (Some a) \<and> xs = ys @ (a, v) # zs \<and> e_key v = k"
    then obtain ys a v zs where f: "lru_cache_find h c k = Some (Some a)" "xs = ys @ (a, v) # zs" "e_key v = k"
      by blast
    show ?thesis
    proof (cases "hp_oom h (hp_brk h)")
      case False
      from lru_put_existing [OF inv args f False]
      obtain h' c' xs' where "lru_cache_put_copy h (Some c) (Some k) (Some d) sz = Some (h', Some c', 0)"
        "lru_inv h' c' xs'" "max_bytes c' = max_bytes c" "max_entries c' = max_entries c"
        "lru_abs xs' = spec_put (unat (max_bytes c)) (unat (max_entries c)) k (take (unat sz) d) (lru_abs xs)"
        by blast
      then show ?thesis by auto
    next
      case True
      with f args have "lru_cache_put_copy h (Some c) (Some k) (Some d) sz =
          Some (h\<lparr>hp_brk := Suc (hp_brk h)\<rparr>, Some c, -1)"
        by (simp add: lru_cache_put_copy_def h_malloc_def)
      with lru_inv_brk [OF inv] True show ?thesis by blast
    qed
  qed
qed

section \<open>Creation, clearing, destruction\<close>

lemma lru_create_inv:
  assumes "heap_ok h" and "lru_cache_create h mb me = (Some c, h')"
    and "unat mb < 2 ^ 63" "unat me < 2 ^ 64 - 1"
  shows "lru_inv h' c [] \<and> max_bytes c = mb \<and> max_entries c = me"
  using assms
  by (auto simp: lru_cache_create_def h_malloc_def lru_inv_def lru_sums_def lru_seg_def heap_ok_def
      word_greater_zero_iff split: if_splits)

lemma lru_clear_loop_seg:
  "dllseg (hp_mem h) p f xs l None \<Longrightarrow> distinct (addrs xs) \<Longrightarrow>
     \<exists>h'. lru_clear_loop h f = Some h' \<and> (\<forall>a \<in> set (addrs xs). hp_mem h' a = None) \<and>
       same_outside (set (addrs xs)) h h'"
proof (induction xs arbitrary: h p f)
  case Nil
  then show ?case by (simp add: lru_clear_loop.simps)
next
  case (Cons x xs)
  then obtain n where n: "f = Some (fst x)" "hp_mem h (fst x) = Some n"
    and rest: "dllseg (hp_mem h) (Some (fst x)) (n_next n) xs l None" by auto
  let ?h = "h\<lparr>hp_mem := (hp_mem h)(fst x := None)\<rparr>"
  have notin: "fst x \<notin> set (addrs xs)" and dist: "distinct (addrs xs)" using Cons.prems(2) by auto
  have "dllseg (hp_mem ?h) (Some (fst x)) (n_next n) xs l None" using rest notin by simp
  from Cons.IH [OF this dist] obtain h' where
    h': "lru_clear_loop ?h (n_next n) = Some h'"
      "\<forall>a \<in> set (addrs xs). hp_mem h' a = None" "same_outside (set (addrs xs)) ?h h'" by blast
  moreover have "hp_mem h' (fst x) = None" using same_outsideD [OF h'(3) notin] by simp
  moreover have "lru_clear_loop h f = lru_clear_loop ?h (n_next n)"
    using n by (subst lru_clear_loop.simps) (simp add: h_free_def)
  ultimately show ?case by (auto simp: same_outside_def)
qed

lemma lru_clear_spec:
  assumes inv: "lru_inv h c xs"
  shows "\<exists>h' c'. lru_cache_clear h (Some c) = Some (h', Some c') \<and> lru_inv h' c' [] \<and>
     (\<forall>a \<in> set (addrs xs). hp_mem h' a = None) \<and> same_outside (set (addrs xs)) h h'"
proof -
  from inv have seg: "lru_seg h c xs" by (simp add: lru_inv_def lru_sums_def)
  then obtain h' where h': "lru_clear_loop h (lru_head c) = Some h'"
      "\<forall>a \<in> set (addrs xs). hp_mem h' a = None" "same_outside (set (addrs xs)) h h'"
    using lru_clear_loop_seg unfolding lru_seg_def by blast
  have "heap_ok h'"
    using heap_ok_same_outside [OF _ h'(3)] inv lru_seg_dom [OF seg] by (simp add: lru_inv_def lru_sums_def)
  with h' inv show ?thesis
    by (auto simp: lru_cache_clear_def lru_inv_def lru_sums_def lru_seg_def word_greater_zero_iff)
qed


section \<open>The contract of a cache, and its client\<close>

text \<open>
  What a client of a cache does, and the record it could keep of the values the cache accepted.
\<close>

datatype ('k, 'v) cache_op = CPut 'k 'v | CGet 'k | CClear

fun cache_run ::
  "('k \<Rightarrow> 'v \<Rightarrow> 's \<Rightarrow> 's \<times> bool) \<Rightarrow> ('k \<Rightarrow> 's \<Rightarrow> 's) \<Rightarrow> ('s \<Rightarrow> 's) \<Rightarrow>
     ('k, 'v) cache_op list \<Rightarrow> 's \<Rightarrow> ('k \<rightharpoonup> 'v) \<Rightarrow> 's \<times> ('k \<rightharpoonup> 'v)" where
  "cache_run put get clear [] s m = (s, m)"
| "cache_run put get clear (CPut k v # ops) s m =
     (let (s', ok) = put k v s in cache_run put get clear ops s' (if ok then m(k \<mapsto> v) else m))"
| "cache_run put get clear (CGet k # ops) s m = cache_run put get clear ops (get k s) m"
| "cache_run put get clear (CClear # ops) s m = cache_run put get clear ops (clear s) Map.empty"

text \<open>
  The contract: an accepted value is what a lookup of its key returns next; a rejected one
  changes nothing; any other key keeps its value or is forgotten; looking up changes no value.
\<close>

locale coherent_cache =
  fixes inv :: "'s \<Rightarrow> bool"
    and lookup :: "'s \<Rightarrow> 'k \<Rightarrow> 'v option"
    and put :: "'k \<Rightarrow> 'v \<Rightarrow> 's \<Rightarrow> 's \<times> bool"
    and get :: "'k \<Rightarrow> 's \<Rightarrow> 's"
    and clear :: "'s \<Rightarrow> 's"
  assumes inv_put: "inv s \<Longrightarrow> inv (fst (put k v s))"
    and inv_get: "inv s \<Longrightarrow> inv (get k s)"
    and inv_clear: "inv s \<Longrightarrow> inv (clear s)"
    and put_accepted: "inv s \<Longrightarrow> snd (put k v s) \<Longrightarrow> lookup (fst (put k v s)) k = Some v"
    and put_rejected: "inv s \<Longrightarrow> \<not> snd (put k v s) \<Longrightarrow> lookup (fst (put k v s)) k' = lookup s k'"
    and put_other: "inv s \<Longrightarrow> k' \<noteq> k \<Longrightarrow> lookup (fst (put k v s)) k' = Some w \<Longrightarrow> lookup s k' = Some w"
    and get_lookup: "inv s \<Longrightarrow> lookup (get k s) k' = lookup s k'"
    and clear_lookup: "inv s \<Longrightarrow> lookup (clear s) k' = None"
begin

lemma put_agrees:
  assumes "inv s" and "\<forall>k v. lookup s k = Some v \<longrightarrow> m k = Some v"
    and "lookup (fst (put k v s)) k' = Some w"
  shows "(if snd (put k v s) then m(k \<mapsto> v) else m) k' = Some w"
proof (cases "snd (put k v s)")
  case True
  then show ?thesis
    using assms put_accepted [OF assms(1) True] put_other [OF assms(1)] by (cases "k' = k") auto
next
  case False
  then show ?thesis using assms put_rejected [OF assms(1) False] by simp
qed

lemma never_stale:
  "inv s \<Longrightarrow> \<forall>k v. lookup s k = Some v \<longrightarrow> m k = Some v \<Longrightarrow>
     cache_run put get clear ops s m = (s', m') \<Longrightarrow>
     inv s' \<and> (\<forall>k v. lookup s' k = Some v \<longrightarrow> m' k = Some v)"
proof (induction ops arbitrary: s m)
  case Nil
  then show ?case by auto
next
  case (Cons x ops)
  show ?case
  proof (cases x)
    case (CPut k v)
    from Cons.prems(3) have "cache_run put get clear ops (fst (put k v s))
        (if snd (put k v s) then m(k \<mapsto> v) else m) = (s', m')"
      by (simp add: CPut case_prod_beta)
    moreover have "\<forall>k' w. lookup (fst (put k v s)) k' = Some w \<longrightarrow>
        (if snd (put k v s) then m(k \<mapsto> v) else m) k' = Some w"
      using put_agrees [OF Cons.prems(1,2)] by blast
    ultimately show ?thesis
      using Cons.IH [OF inv_put [OF Cons.prems(1)]] by blast
  next
    case (CGet k)
    then show ?thesis
      using Cons.IH [OF inv_get [OF Cons.prems(1)], where m = m] Cons.prems by (simp add: CGet get_lookup)
  next
    case CClear
    then show ?thesis
      using Cons.IH [OF inv_clear [OF Cons.prems(1)], where m = Map.empty] Cons.prems by (simp add: CClear clear_lookup)
  qed
qed

end

subsection \<open>The program's cache keeps the contract\<close>

definition lru_client_inv :: "lru_heap \<times> lru_cache \<Rightarrow> bool" where
  "lru_client_inv s \<longleftrightarrow> (\<exists>xs. lru_inv (fst s) (snd s) xs)"

text \<open>What a caller sees whose own allocation succeeds.\<close>

definition lru_client_lookup :: "lru_heap \<times> lru_cache \<Rightarrow> string \<Rightarrow> byte list option" where
  "lru_client_lookup s k =
     (case lru_cache_get_copy ((fst s)\<lparr>hp_oom := \<lambda>_. False\<rparr>) (Some (snd s)) (Some k) True True of
        Some (_, _, r) \<Rightarrow> if g_ret r then the (g_data r) else None
      | None \<Rightarrow> None)"

text \<open>A buffer of \<open>2 ^ 64\<close> bytes or more cannot be passed: its length is no \<open>size_t\<close>.\<close>

definition lru_client_put ::
  "string \<Rightarrow> byte list \<Rightarrow> lru_heap \<times> lru_cache \<Rightarrow> (lru_heap \<times> lru_cache) \<times> bool" where
  "lru_client_put k v s =
     (if 2 ^ 64 \<le> length v then (s, False)
      else case lru_cache_put_copy (fst s) (Some (snd s)) (Some k) (Some v) (of_nat (length v)) of
        Some (h', Some c', r) \<Rightarrow> ((h', c'), r = 0)
      | _ \<Rightarrow> (s, False))"

definition lru_client_get :: "string \<Rightarrow> lru_heap \<times> lru_cache \<Rightarrow> lru_heap \<times> lru_cache" where
  "lru_client_get k s =
     (case lru_cache_get_copy (fst s) (Some (snd s)) (Some k) True True of
        Some (h', Some c', _) \<Rightarrow> (h', c') | _ \<Rightarrow> s)"

definition lru_client_clear :: "lru_heap \<times> lru_cache \<Rightarrow> lru_heap \<times> lru_cache" where
  "lru_client_clear s =
     (case lru_cache_clear (fst s) (Some (snd s)) of Some (h', Some c') \<Rightarrow> (h', c') | _ \<Rightarrow> s)"

lemma lru_inv_oom: "lru_inv h c xs \<Longrightarrow> lru_inv (h\<lparr>hp_oom := f\<rparr>) c xs"
  by (simp add: lru_inv_def lru_sums_def lru_seg_def heap_ok_def)

lemma lru_client_lookup_abs:
  assumes "lru_inv h c xs"
  shows "lru_client_lookup (h, c) k = map_of (lru_abs xs) k"
  using lru_get_copy_spec [OF lru_inv_oom [OF assms, of "\<lambda>_. False"], of k]
  by (cases "map_of (lru_abs xs) k") (auto simp: lru_client_lookup_def)

lemma map_of_drop_key: "k' \<noteq> k \<Longrightarrow> map_of (spec_drop_key k m) k' = map_of m k'"
  by (induction m) (auto simp: spec_drop_key_def)

lemma map_of_spec_put_same:
  "length d \<le> mb \<Longrightarrow> 1 \<le> me \<Longrightarrow> map_of (spec_put mb me k d m) k = Some d"
  using spec_evict_first [of "(k, d)" mb me "spec_drop_key k m"] by (auto simp: spec_put_def)

lemma map_of_spec_put_other:
  assumes "k' \<noteq> k" and "map_of (spec_put mb me k d m) k' = Some w"
  shows "map_of m k' = Some w"
proof -
  obtain rest where "(k, d) # spec_drop_key k m = spec_put mb me k d m @ rest"
    using spec_evict_prefix unfolding spec_put_def by blast
  then have "map_of ((k, d) # spec_drop_key k m) k' = Some w"
    using assms(2) by (simp add: map_add_Some_iff)
  then show ?thesis using assms(1) by (simp add: map_of_drop_key)
qed

text \<open>Insertion as the client sees it: rejected and invisible, or accepted with the abstract effect.\<close>

lemma lru_client_put_cases:
  assumes inv: "lru_inv h c xs"
  obtains (rejected) h' c' xs' where "lru_client_put k v (h, c) = ((h', c'), False)" "lru_inv h' c' xs'"
      "lru_abs xs' = lru_abs xs"
    | (accepted) h' c' xs' where "lru_client_put k v (h, c) = ((h', c'), True)" "lru_inv h' c' xs'"
      "length v \<le> unat (max_bytes c)"
      "lru_abs xs' = spec_put (unat (max_bytes c)) (unat (max_entries c)) k v (lru_abs xs)"
proof (cases "2 ^ 64 \<le> length v")
  case True
  then have "lru_client_put k v (h, c) = ((h, c), False)" by (simp add: lru_client_put_def)
  then show ?thesis using inv rejected by simp
next
  case False
  define sz :: size_t where "sz = of_nat (length v)"
  have len: "unat sz = length v" using False by (simp add: sz_def unat_of_nat)
  show ?thesis
  proof (cases "sz = 0 \<or> sz > max_bytes c")
    case True
    then have "lru_cache_put_copy h (Some c) (Some k) (Some v) sz = Some (h, Some c, -1)"
      by (auto simp: lru_cache_put_copy_def)
    then have "lru_client_put k v (h, c) = ((h, c), False)"
      using False by (simp add: lru_client_put_def sz_def [symmetric])
    then show ?thesis using inv rejected by simp
  next
    case ok: False
    then have args: "sz \<noteq> 0" "sz \<le> max_bytes c" "unat sz \<le> length v" using len by auto
    have fits: "length v \<le> unat (max_bytes c)" using args(2) len by (simp add: word_le_nat_alt)
    obtain h' c' xs' r where p: "lru_cache_put_copy h (Some c) (Some k) (Some v) sz = Some (h', Some c', r)"
      "lru_inv h' c' xs'"
      and res: "r = 0 \<and> lru_abs xs' = spec_put (unat (max_bytes c)) (unat (max_entries c)) k (take (unat sz) v) (lru_abs xs) \<or>
        r = -1 \<and> lru_abs xs' = lru_abs xs"
      using lru_put_copy_spec [OF inv args, of k] by auto
    have put: "lru_client_put k v (h, c) = ((h', c'), r = 0)"
      using False p(1) by (simp add: lru_client_put_def sz_def [symmetric])
    from res show ?thesis
    proof
      assume "r = 0 \<and> lru_abs xs' = spec_put (unat (max_bytes c)) (unat (max_entries c)) k (take (unat sz) v) (lru_abs xs)"
      with put p(2) fits show ?thesis by (intro accepted [of h' c' xs']) (auto simp: len)
    next
      assume "r = -1 \<and> lru_abs xs' = lru_abs xs"
      with put p(2) show ?thesis by (intro rejected [of h' c' xs']) auto
    qed
  qed
qed

lemma lru_client_put_same:
  assumes inv: "lru_inv h c xs" and ok: "snd (lru_client_put k v (h, c))"
  shows "lru_client_lookup (fst (lru_client_put k v (h, c))) k = Some v"
  using inv
proof (cases rule: lru_client_put_cases [where k = k and v = v])
  case (rejected h' c' xs')
  with ok show ?thesis by simp
next
  case (accepted h' c' xs')
  have "1 \<le> unat (max_entries c)" using inv by (simp add: lru_inv_def word_less_nat_alt)
  with accepted show ?thesis by (simp add: lru_client_lookup_abs [OF accepted(2)] map_of_spec_put_same)
qed

lemma lru_client_put_other:
  assumes inv: "lru_inv h c xs" and neq: "k' \<noteq> k"
    and look: "lru_client_lookup (fst (lru_client_put k v (h, c))) k' = Some w"
  shows "lru_client_lookup (h, c) k' = Some w"
  using inv
proof (cases rule: lru_client_put_cases [where k = k and v = v])
  case (rejected h' c' xs')
  with look show ?thesis
    by (simp add: lru_client_lookup_abs [OF inv] lru_client_lookup_abs [OF rejected(2)])
next
  case (accepted h' c' xs')
  then have "map_of (spec_put (unat (max_bytes c)) (unat (max_entries c)) k v (lru_abs xs)) k' = Some w"
    using look by (simp add: lru_client_lookup_abs [OF accepted(2)])
  from map_of_spec_put_other [OF neq this] show ?thesis by (simp add: lru_client_lookup_abs [OF inv])
qed

lemma lru_client_put_rejected:
  assumes inv: "lru_inv h c xs" and no: "\<not> snd (lru_client_put k v (h, c))"
  shows "lru_client_lookup (fst (lru_client_put k v (h, c))) k' = lru_client_lookup (h, c) k'"
  using inv
proof (cases rule: lru_client_put_cases [where k = k and v = v])
  case (rejected h' c' xs')
  then show ?thesis
    by (simp add: lru_client_lookup_abs [OF inv] lru_client_lookup_abs [OF rejected(2)])
next
  case (accepted h' c' xs')
  with no show ?thesis by simp
qed

lemma lru_client_put_inv:
  assumes inv: "lru_inv h c xs"
  shows "lru_client_inv (fst (lru_client_put k v (h, c)))"
  by (cases rule: lru_client_put_cases [OF inv, where k = k and v = v]) (auto simp: lru_client_inv_def)

lemma lru_client_get_cases:
  assumes inv: "lru_inv h c xs"
  obtains h' c' xs' where "lru_client_get k (h, c) = (h', c')" "lru_inv h' c' xs'"
    "\<forall>k'. map_of (lru_abs xs') k' = map_of (lru_abs xs) k'"
proof -
  obtain h' c' xs' r where g: "lru_cache_get_copy h (Some c) (Some k) True True = Some (h', Some c', r)"
    "lru_inv h' c' xs'" and abs: "case map_of (lru_abs xs) k of
        None \<Rightarrow> \<not> g_ret r \<and> lru_abs xs' = lru_abs xs
      | Some d \<Rightarrow>
          if hp_oom h (hp_brk h) then \<not> g_ret r \<and> lru_abs xs' = lru_abs xs
          else g_ret r \<and> g_data r = Some (Some d) \<and> g_size r = Some (of_nat (length d)) \<and>
            lru_abs xs' = fst (spec_get k (lru_abs xs))"
    using lru_get_copy_spec [OF inv] by blast
  have "\<forall>k'. map_of (lru_abs xs') k' = map_of (lru_abs xs) k'"
    using abs by (auto simp: spec_get_def map_of_drop_key split: option.splits if_splits)
  moreover have "lru_client_get k (h, c) = (h', c')" using g by (simp add: lru_client_get_def)
  ultimately show ?thesis using g that by blast
qed

lemma lru_client_get_lookup:
  assumes inv: "lru_inv h c xs"
  shows "lru_client_inv (lru_client_get k (h, c)) \<and>
    lru_client_lookup (lru_client_get k (h, c)) k' = lru_client_lookup (h, c) k'"
  by (rule lru_client_get_cases [OF inv, where k = k])
    (auto simp: lru_client_inv_def lru_client_lookup_abs [OF inv] lru_client_lookup_abs)

interpretation lru: coherent_cache lru_client_inv lru_client_lookup lru_client_put lru_client_get lru_client_clear
proof
  fix s k v
  assume "lru_client_inv s"
  then obtain h c xs where s: "s = (h, c)" and inv: "lru_inv h c xs"
    by (cases s) (auto simp: lru_client_inv_def)
  show "lru_client_inv (fst (lru_client_put k v s))"
    using lru_client_put_inv [OF inv] by (simp add: s)
  show "lru_client_inv (lru_client_get k s)"
    using lru_client_get_lookup [OF inv] by (simp add: s)
  from lru_clear_spec [OF inv] obtain h' c' where
    clr: "lru_cache_clear h (Some c) = Some (h', Some c')" "lru_inv h' c' []" by blast
  then show "lru_client_inv (lru_client_clear s)"
    by (auto simp: s lru_client_inv_def lru_client_clear_def)
  show "lru_client_lookup (lru_client_clear s) k' = None" for k'
    using lru_client_lookup_abs [OF clr(2)] clr(1) by (simp add: s lru_client_clear_def)
  show "snd (lru_client_put k v s) \<Longrightarrow> lru_client_lookup (fst (lru_client_put k v s)) k = Some v"
    using lru_client_put_same [OF inv] by (simp add: s)
  show "\<not> snd (lru_client_put k v s) \<Longrightarrow>
      lru_client_lookup (fst (lru_client_put k v s)) k' = lru_client_lookup s k'" for k'
    using lru_client_put_rejected [OF inv] by (simp add: s)
  show "k' \<noteq> k \<Longrightarrow> lru_client_lookup (fst (lru_client_put k v s)) k' = Some w \<Longrightarrow>
      lru_client_lookup s k' = Some w" for k' w
    using lru_client_put_other [OF inv] by (simp add: s)
  show "lru_client_lookup (lru_client_get k s) k' = lru_client_lookup s k'" for k'
    using lru_client_get_lookup [OF inv] by (simp add: s)
qed

lemma lru_destroy_spec:
  "lru_inv h c xs \<Longrightarrow> \<exists>h'. lru_cache_destroy h (Some c) = Some h' \<and>
     (\<forall>a \<in> set (addrs xs). hp_mem h' a = None) \<and> same_outside (set (addrs xs)) h h'"
  using lru_clear_spec by (fastforce simp: lru_cache_destroy_def)

lemma lru_client_inv_create:
  "heap_ok h \<Longrightarrow> lru_cache_create h mb me = (Some c, h1) \<Longrightarrow> unat mb < 2 ^ 63 \<Longrightarrow> unat me < 2 ^ 64 - 1 \<Longrightarrow>
     lru_client_inv (h1, c)"
  using lru_create_inv by (fastforce simp: lru_client_inv_def)

lemma spec_put_take:
  "\<exists>n. spec_put mb me k d m = take n ((k, d) # spec_drop_key k m) \<and>
     (\<forall>j. n < j \<longrightarrow> j \<le> Suc (length (spec_drop_key k m)) \<longrightarrow>
        mb < cache_bytes (take j ((k, d) # spec_drop_key k m)) \<or> me < j)"
proof (intro exI conjI)
  let ?full = "(k, d) # spec_drop_key k m"
  obtain rest where "?full = spec_evict mb me ?full @ rest" using spec_evict_prefix by blast
  then show "spec_put mb me k d m = take (length (spec_evict mb me ?full)) ?full"
    unfolding spec_put_def by (metis append_eq_conv_conj)
  show "\<forall>j. length (spec_evict mb me ?full) < j \<longrightarrow> j \<le> Suc (length (spec_drop_key k m)) \<longrightarrow>
      mb < cache_bytes (take j ?full) \<or> me < j"
    using spec_evict_longest [of _ ?full mb me] by (metis length_Cons linorder_not_le)
qed

text \<open>A concrete cache of three bytes and two entries, on which the properties below are instantiated.\<close>

definition demo_heap :: lru_heap where
  "demo_heap = snd (lru_cache_create empty_heap 3 2)"

definition demo_cache :: lru_cache where
  "demo_cache = the (fst (lru_cache_create empty_heap 3 2))"

lemma demo_create: "lru_cache_create empty_heap 3 2 = (Some demo_cache, demo_heap)"
  by (simp add: demo_heap_def demo_cache_def lru_cache_create_def h_malloc_def)

lemma demo_inv: "lru_inv demo_heap demo_cache []"
  using lru_create_inv [OF _ demo_create] by simp

lemma demo_simps [simp]:
  "hp_oom demo_heap = (\<lambda>_. False)" "max_bytes demo_cache = 3" "max_entries demo_cache = 2"
  by (simp_all add: demo_heap_def demo_cache_def lru_cache_create_def h_malloc_def)

section \<open>Properties\<close>

text \<open>
  C2. \<open>lru_cache_put_copy\<close>, on every heap: it never touches memory that is not its own; when
  it reports success the new entry is in front and the cache is the longest stretch of
  most recently used entries that both bounds allow; when it reports failure the arguments were
  out of range or an allocation failed, and the content is unchanged.
\<close>

theorem lru_put_all_or_nothing:
  assumes "lru_inv h c xs" and "unat sz \<le> length d"
  shows "\<exists>h' c' xs' r. lru_cache_put_copy h (Some c) (Some k) (Some d) sz = Some (h', Some c', r) \<and>
     lru_inv h' c' xs' \<and> max_bytes c' = max_bytes c \<and> max_entries c' = max_entries c \<and>
     (if r = 0 then
        let full = (k, take (unat sz) d) # spec_drop_key k (lru_abs xs) in
        \<exists>n. 1 \<le> n \<and> lru_abs xs' = take n full \<and>
          (\<forall>j. n < j \<longrightarrow> j \<le> length full \<longrightarrow>
             unat (max_bytes c) < cache_bytes (take j full) \<or> unat (max_entries c) < j)
      else r = -1 \<and> lru_abs xs' = lru_abs xs \<and> (sz = 0 \<or> sz > max_bytes c \<or> (\<exists>n. hp_oom h n)))"
proof (cases "sz = 0 \<or> sz > max_bytes c")
  case True
  then have "lru_cache_put_copy h (Some c) (Some k) (Some d) sz = Some (h, Some c, -1)"
    by (auto simp: lru_cache_put_copy_def)
  with True assms(1) show ?thesis by auto
next
  case False
  then have args: "sz \<noteq> 0" "sz \<le> max_bytes c" by auto
  from lru_put_copy_spec [OF assms(1) args assms(2), of k] obtain h' c' xs' r where
    put: "lru_cache_put_copy h (Some c) (Some k) (Some d) sz = Some (h', Some c', r)" "lru_inv h' c' xs'"
      "max_bytes c' = max_bytes c" "max_entries c' = max_entries c"
    and res: "r = 0 \<and> lru_abs xs' = spec_put (unat (max_bytes c)) (unat (max_entries c)) k (take (unat sz) d) (lru_abs xs) \<or>
      r = -1 \<and> lru_abs xs' = lru_abs xs \<and> (\<exists>n. hp_oom h n)" by blast
  obtain n where n: "spec_put (unat (max_bytes c)) (unat (max_entries c)) k (take (unat sz) d) (lru_abs xs) =
      take n ((k, take (unat sz) d) # spec_drop_key k (lru_abs xs))"
    "\<forall>j. n < j \<longrightarrow> j \<le> Suc (length (spec_drop_key k (lru_abs xs))) \<longrightarrow>
        unat (max_bytes c) < cache_bytes (take j ((k, take (unat sz) d) # spec_drop_key k (lru_abs xs))) \<or>
        unat (max_entries c) < j" using spec_put_take by blast
  have "length (take (unat sz) d) \<le> unat (max_bytes c)" "1 \<le> unat (max_entries c)"
    using args assms by (simp_all add: word_le_nat_alt lru_inv_def word_less_nat_alt)
  with spec_evict_first [of "(k, take (unat sz) d)" "unat (max_bytes c)"] obtain rest where
    "spec_put (unat (max_bytes c)) (unat (max_entries c)) k (take (unat sz) d) (lru_abs xs) = (k, take (unat sz) d) # rest"
    unfolding spec_put_def by fastforce
  with n(1) have "1 \<le> n" by (cases n) auto
  with put res n show ?thesis by (auto simp: Let_def)
qed

theorem lru_put_all_or_nothing_witness:
  "\<exists>h' c' xs'. lru_cache_put_copy demo_heap (Some demo_cache) (Some ''a'') (Some [7, 8]) 2 = Some (h', Some c', 0) \<and>
     lru_inv h' c' xs' \<and> lru_abs xs' = [(''a'', [7, 8])]"
proof -
  have drop: "spec_drop_key ''a'' [] = []" by (simp add: spec_drop_key_def)
  have len: "unat (2 :: size_t) \<le> length [7, 8 :: byte]" by simp
  from lru_put_all_or_nothing [OF demo_inv len, of "''a''"] show ?thesis
  proof (elim exE conjE, goal_cases)
    case (1 h' c' xs' r)
    have "r = 0" using 1(5) by (simp split: if_splits)
    moreover have "lru_abs xs' = [(''a'', [7, 8])]"
      using 1(5) \<open>r = 0\<close> by (auto simp: drop take_Cons' Let_def split: if_splits)
    ultimately show ?case using 1(1,2) by blast
  qed
qed

text \<open>
  C12. \<open>lru_cache_get_copy\<close>: a key that is not cached is a miss that changes nothing; a cached
  key gives a copy of exactly its bytes and their number and moves to the front, everything else
  keeping its order; when the copy cannot be allocated the lookup is a miss and the order stays.
\<close>

theorem lru_get_moves_to_front:
  assumes "lru_inv h c xs"
  shows "\<exists>h' c' xs' r. lru_cache_get_copy h (Some c) (Some k) True True = Some (h', Some c', r) \<and>
     lru_inv h' c' xs' \<and>
     (case map_of (lru_abs xs) k of
        None \<Rightarrow> r = \<lparr>g_ret = False, g_data = Some None, g_size = Some 0\<rparr> \<and> lru_abs xs' = lru_abs xs
      | Some d \<Rightarrow>
          if hp_oom h (hp_brk h)
          then r = \<lparr>g_ret = False, g_data = Some None, g_size = Some 0\<rparr> \<and> lru_abs xs' = lru_abs xs
          else r = \<lparr>g_ret = True, g_data = Some (Some d), g_size = Some (of_nat (length d))\<rparr> \<and>
            lru_abs xs' = (k, d) # filter (\<lambda>x. fst x \<noteq> k) (lru_abs xs))"
proof -
  obtain h' c' xs' r where g: "lru_cache_get_copy h (Some c) (Some k) True True = Some (h', Some c', r)"
    "lru_inv h' c' xs'" and abs: "case map_of (lru_abs xs) k of
        None \<Rightarrow> \<not> g_ret r \<and> lru_abs xs' = lru_abs xs
      | Some d \<Rightarrow>
          if hp_oom h (hp_brk h) then \<not> g_ret r \<and> lru_abs xs' = lru_abs xs
          else g_ret r \<and> g_data r = Some (Some d) \<and> g_size r = Some (of_nat (length d)) \<and>
            lru_abs xs' = fst (spec_get k (lru_abs xs))"
    using lru_get_copy_spec [OF assms] by blast
  have miss: "\<not> g_ret r \<Longrightarrow> r = \<lparr>g_ret = False, g_data = Some None, g_size = Some 0\<rparr>"
    using g(1) by (auto simp: lru_cache_get_copy_def Let_def case_prod_beta
        split: option.splits if_splits Option.bind_splits)
  have hit: "g_ret r \<Longrightarrow> g_data r = Some d \<Longrightarrow> g_size r = Some n \<Longrightarrow>
      r = \<lparr>g_ret = True, g_data = Some d, g_size = Some n\<rparr>" for d n by (cases r) simp
  show ?thesis
  proof (intro exI conjI, rule g(1), rule g(2))
    show "case map_of (lru_abs xs) k of
        None \<Rightarrow> r = \<lparr>g_ret = False, g_data = Some None, g_size = Some 0\<rparr> \<and> lru_abs xs' = lru_abs xs
      | Some d \<Rightarrow>
          if hp_oom h (hp_brk h)
          then r = \<lparr>g_ret = False, g_data = Some None, g_size = Some 0\<rparr> \<and> lru_abs xs' = lru_abs xs
          else r = \<lparr>g_ret = True, g_data = Some (Some d), g_size = Some (of_nat (length d))\<rparr> \<and>
            lru_abs xs' = (k, d) # filter (\<lambda>x. fst x \<noteq> k) (lru_abs xs)"
      using abs miss hit
      by (cases "map_of (lru_abs xs) k") (auto simp: spec_get_def spec_drop_key_def split: if_splits)
  qed
qed

theorem lru_get_moves_to_front_witness:
  "\<exists>h' c' xs' r. lru_cache_get_copy demo_heap (Some demo_cache) (Some ''a'') True True = Some (h', Some c', r) \<and>
     lru_inv h' c' xs' \<and> \<not> g_ret r \<and> lru_abs xs' = []"
  using lru_get_moves_to_front [OF demo_inv, of "''a''"] by auto

text \<open>
  C11. The cache is coherent: whatever sequence of insertions, lookups and clears follows its
  creation, evictions and failing allocations included, a lookup finds either nothing or the
  value the last accepted insertion of that key stored.
\<close>

theorem lru_never_stale:
  assumes "heap_ok h" and "lru_cache_create h mb me = (Some c, h1)"
    and "unat mb < 2 ^ 63" and "unat me < 2 ^ 64 - 1"
  shows "let (s, m) = cache_run lru_client_put lru_client_get lru_client_clear ops (h1, c) Map.empty
     in lru_client_lookup s k = None \<or> lru_client_lookup s k = m k"
proof -
  obtain s m where run: "cache_run lru_client_put lru_client_get lru_client_clear ops (h1, c) Map.empty = (s, m)"
    by fastforce
  have inv: "lru_inv h1 c []" using lru_create_inv assms by blast
  have "lru_client_lookup (h1, c) k = None" for k using lru_client_lookup_abs [OF inv] by simp
  from lru.never_stale [OF lru_client_inv_create [OF assms] _ run] this show ?thesis
    by (cases "lru_client_lookup s k") (auto simp: run)
qed

theorem lru_never_stale_witness:
  "let (s, m) = cache_run lru_client_put lru_client_get lru_client_clear
       [CPut ''a'' [1], CPut ''b'' [2], CGet ''a'', CPut ''c'' [3]] (demo_heap, demo_cache) Map.empty
     in lru_client_lookup s ''b'' = None \<or> lru_client_lookup s ''b'' = m ''b''"
  by (rule lru_never_stale [OF _ demo_create]) simp_all

text \<open>
  C13. The totals are exact and bounded: after any such sequence, the reported number of bytes and
  of entries are those of the keys that can be looked up, and neither exceeds its bound.
\<close>

theorem lru_totals_exact:
  assumes "heap_ok h" and "lru_cache_create h mb me = (Some c, h1)"
    and "unat mb < 2 ^ 63" and "unat me < 2 ^ 64 - 1"
  shows "let (s, _) = cache_run lru_client_put lru_client_get lru_client_clear ops (h1, c) Map.empty in
     \<exists>m. (\<forall>k. lru_client_lookup s k = map_of m k) \<and> distinct (map fst m) \<and>
       unat (lru_cache_size_bytes (Some (snd s))) = cache_bytes m \<and>
       unat (lru_cache_size_entries (Some (snd s))) = length m \<and>
       lru_cache_size_bytes (Some (snd s)) \<le> max_bytes (snd s) \<and>
       lru_cache_size_entries (Some (snd s)) \<le> max_entries (snd s)"
proof -
  obtain s m where run: "cache_run lru_client_put lru_client_get lru_client_clear ops (h1, c) Map.empty = (s, m)"
    by fastforce
  have inv: "lru_inv h1 c []" using lru_create_inv assms by blast
  have "lru_client_lookup (h1, c) k = None" for k using lru_client_lookup_abs [OF inv] by simp
  then have "lru_client_inv s"
    using lru.never_stale [OF lru_client_inv_create [OF assms] _ run] by simp
  then obtain xs where xs: "lru_inv (fst s) (snd s) xs" by (auto simp: lru_client_inv_def)
  then show ?thesis
    using lru_client_lookup_abs [OF xs]
    by (auto simp: run lru_inv_def lru_sums_def lru_cache_size_bytes_def lru_cache_size_entries_def
        lru_abs_keys intro!: exI [of _ "lru_abs xs"])
qed

theorem lru_totals_exact_witness:
  "let (s, _) = cache_run lru_client_put lru_client_get lru_client_clear
       [CPut ''a'' [1], CPut ''b'' [2], CGet ''a'', CPut ''c'' [3]] (demo_heap, demo_cache) Map.empty in
     \<exists>m. (\<forall>k. lru_client_lookup s k = map_of m k) \<and> unat (lru_cache_size_entries (Some (snd s))) = length m"
  using lru_totals_exact [OF _ demo_create, of "[CPut ''a'' [1], CPut ''b'' [2], CGet ''a'', CPut ''c'' [3]]"]
  by (fastforce simp: Let_def case_prod_beta simp del: cache_run.simps)

text \<open>
  C35. \<open>lru_cache_clear\<close> and \<open>lru_cache_destroy\<close> free every entry of the cache exactly once
  and touch nothing else; the cleared cache is a valid empty one.
\<close>

theorem lru_clear_and_destroy_free_all:
  assumes "lru_inv h c xs"
  shows "\<exists>h' c'. lru_cache_clear h (Some c) = Some (h', Some c') \<and> lru_cache_destroy h (Some c) = Some h' \<and>
     lru_inv h' c' [] \<and> (\<forall>a. hp_mem h' a = (if a \<in> set (addrs xs) then None else hp_mem h a))"
proof -
  obtain h' c' where "lru_cache_clear h (Some c) = Some (h', Some c')" "lru_inv h' c' []"
    "\<forall>a \<in> set (addrs xs). hp_mem h' a = None" "same_outside (set (addrs xs)) h h'"
    using lru_clear_spec [OF assms] by blast
  then show ?thesis by (auto simp: lru_cache_destroy_def same_outside_def)
qed

theorem lru_clear_and_destroy_free_all_witness:
  "\<exists>h' c'. lru_cache_clear demo_heap (Some demo_cache) = Some (h', Some c') \<and> lru_inv h' c' []"
  using lru_clear_and_destroy_free_all [OF demo_inv] by blast

end
