(* ===== verification/CString.thy ===== *)
theory CString
  imports Prelude
begin

text \<open>
  C strings as the program uses them: a string is the list of its characters without the
  terminator, a read at its length gives the terminator, and a fixed-size buffer is a list of
  raw characters whose content is what comes before the first terminator.
\<close>

abbreviation NUL :: char where "NUL \<equiv> CHR 0x00"

definition c_at :: "string \<Rightarrow> nat \<Rightarrow> char" where
  "c_at s i = (if i < length s then s ! i else NUL)"

definition nonul :: "string \<Rightarrow> bool" where
  "nonul s \<longleftrightarrow> NUL \<notin> set s"

text \<open>The content of a buffer.\<close>

definition c_str :: "char list \<Rightarrow> string" where
  "c_str buf = takeWhile (\<lambda>c. c \<noteq> NUL) buf"

text \<open>The \<open>n\<close> characters of memory from offset \<open>i\<close> of a string on.\<close>

definition c_sub :: "string \<Rightarrow> nat \<Rightarrow> nat \<Rightarrow> char list" where
  "c_sub s i n = map (c_at s) [i..<i + n]"

text \<open>\<open>strncmp (s + i, t + j, n) == 0\<close>\<close>

primrec c_strncmp_eq :: "string \<Rightarrow> nat \<Rightarrow> string \<Rightarrow> nat \<Rightarrow> nat \<Rightarrow> bool" where
  "c_strncmp_eq s i t j 0 = True"
| "c_strncmp_eq s i t j (Suc n) =
     (c_at s i = c_at t j \<and> (c_at s i = NUL \<or> c_strncmp_eq s (Suc i) t (Suc j) n))"

text \<open>
  \<open>snprintf (buf, size, "%s", s)\<close> on a buffer of \<open>length buf\<close> characters: as much of the text
  as fits before a terminator; the rest of the buffer is left alone.
\<close>

text \<open>
  What \<^verbatim>\<open>"%.*s"\<close> prints of a string for a length that is cast to \<^verbatim>\<open>int\<close>: so many characters, or all of them when the
  cast gives a negative number.
\<close>

definition c_precision :: "nat \<Rightarrow> string \<Rightarrow> string" where
  "c_precision n s = (let precision = sint (word_of_nat n :: 32 word) in if precision < 0 then s else take (nat precision) s)"

lemma c_precision_take: "n < 2 ^ 31 \<Longrightarrow> c_precision n s = take n s"
  by (simp add: c_precision_def signed_of_nat signed_take_bit_int_eq_self)

definition c_snprintf :: "char list \<Rightarrow> string \<Rightarrow> char list" where
  "c_snprintf buf s =
     (if buf = [] then []
      else let t = take (length buf - 1) s in t @ [NUL] @ drop (length t + 1) buf)"

definition is_alpha :: "char \<Rightarrow> bool" where
  "is_alpha c = (let n = of_char c :: nat in (65 \<le> n \<and> n \<le> 90) \<or> (97 \<le> n \<and> n \<le> 122))"

definition is_digit :: "char \<Rightarrow> bool" where
  "is_digit c = (let n = of_char c :: nat in 48 \<le> n \<and> n \<le> 57)"

definition is_alnum :: "char \<Rightarrow> bool" where
  "is_alnum c = (is_alpha c \<or> is_digit c)"

definition to_lower :: "char \<Rightarrow> char" where
  "to_lower c = (let n = of_char c :: nat in if 65 \<le> n \<and> n \<le> 90 then char_of (n + 32) else c)"

lemma c_at_app_left [simp]: "i < length s \<Longrightarrow> c_at (s @ t) i = s ! i"
  by (simp add: c_at_def nth_append)

lemma c_at_length [simp]: "c_at s (length s) = NUL"
  by (simp add: c_at_def)

lemma c_at_mid: "c_at (s @ x # t) (length s) = x"
  by (simp add: c_at_def)

lemma nonul_append [simp]: "nonul (s @ t) \<longleftrightarrow> nonul s \<and> nonul t"
  by (auto simp: nonul_def)

lemma nonul_Cons [simp]: "nonul (c # t) \<longleftrightarrow> c \<noteq> NUL \<and> nonul t"
  by (auto simp: nonul_def)

lemma nonul_Nil [simp]: "nonul []"
  by (simp add: nonul_def)

lemma c_at_nul: "nonul s \<Longrightarrow> c_at s i = NUL \<longleftrightarrow> length s \<le> i"
  by (auto simp: c_at_def nonul_def) (metis nth_mem)

lemma c_sub_mid: "c_sub (s @ t @ u) (length s) (length t) = t"
  by (rule nth_equalityI) (auto simp: c_sub_def c_at_def nth_append)

lemma c_str_nul: "nonul t \<Longrightarrow> c_str (t @ NUL # rest) = t"
  by (induction t) (simp_all add: c_str_def)

lemma nonul_c_str: "nonul (c_str buf)"
  by (auto simp: c_str_def nonul_def dest: set_takeWhileD)

lemma c_str_snprintf:
  "nonul s \<Longrightarrow> buf \<noteq> [] \<Longrightarrow> c_str (c_snprintf buf s) = take (length buf - 1) s"
proof -
  assume "nonul s" and "buf \<noteq> []"
  then have "nonul (take (length buf - 1) s)" by (auto simp: nonul_def dest: in_set_takeD)
  with \<open>buf \<noteq> []\<close> show ?thesis by (simp add: c_snprintf_def Let_def c_str_nul)
qed

lemma c_snprintf_fits: "nonul s \<Longrightarrow> length s < length buf \<Longrightarrow> c_str (c_snprintf buf s) = s"
  using c_str_snprintf [of s buf] by (cases "buf = []") auto

lemma length_c_snprintf [simp]: "length (c_snprintf buf s) = length buf"
  by (cases buf) (auto simp: c_snprintf_def Let_def min_def)

text \<open>Advancing a pointer over the characters that satisfy \<open>P\<close>, up to the terminator.\<close>

function c_scan :: "(char \<Rightarrow> bool) \<Rightarrow> string \<Rightarrow> nat \<Rightarrow> nat" where
  "c_scan P s i = (if c_at s i \<noteq> NUL \<and> P (c_at s i) then c_scan P s (Suc i) else i)"
  by pat_completeness auto
termination
  by (relation "measure (\<lambda>(P, s, i). length s - i)") (auto simp: c_at_def split: if_splits)

declare c_scan.simps [simp del]

text \<open>\<open>strchr (s + i, c)\<close> and \<open>strrchr (s, c)\<close>, as offsets.\<close>

definition c_strchr :: "string \<Rightarrow> nat \<Rightarrow> char \<Rightarrow> nat option" where
  "c_strchr s i c = (let j = c_scan (\<lambda>d. d \<noteq> c) s i in if c_at s j = c then Some j else None)"

definition c_strrchr :: "string \<Rightarrow> char \<Rightarrow> nat option" where
  "c_strrchr s c = List.find (\<lambda>i. s ! i = c) (rev [0..<length s])"

lemma c_at_append: "c_at (u @ v) (length u + i) = c_at v i"
  by (simp add: c_at_def nth_append)

lemma c_at_append0: "c_at (u @ v) (length u) = c_at v 0"
  using c_at_append [of u v 0] by simp

lemma c_at_0: "c_at v 0 = (if v = [] then NUL else hd v)"
  by (cases v) (simp_all add: c_at_def)

lemma c_scan_word:
  "list_all P w \<Longrightarrow> nonul w \<Longrightarrow> post = [] \<or> \<not> P (hd post) \<Longrightarrow>
     c_scan P (u @ w @ post) (length u) = length u + length w"
proof (induction w arbitrary: u)
  case Nil
  then show ?case by (subst c_scan.simps) (auto simp: c_at_append0 c_at_0)
next
  case (Cons x w)
  then have IH: "c_scan P ((u @ [x]) @ w @ post) (length (u @ [x])) = length (u @ [x]) + length w"
    by (intro Cons.IH) auto
  have "c_at (u @ (x # w) @ post) (length u) = x" by (simp add: c_at_append0 c_at_0)
  with Cons.prems IH show ?case by (subst c_scan.simps) simp
qed

lemma c_strchr_found:
  "c \<notin> set w \<Longrightarrow> nonul w \<Longrightarrow> c_strchr (u @ w @ c # post) (length u) c = Some (length u + length w)"
proof -
  assume w: "c \<notin> set w" "nonul w"
  have "c_scan (\<lambda>d. d \<noteq> c) (u @ w @ c # post) (length u) = length u + length w"
    using w by (intro c_scan_word) (auto simp: list_all_iff)
  moreover have "c_at (u @ w @ c # post) (length u + length w) = c"
    using c_at_append0 [of "u @ w" "c # post"] by (simp add: c_at_0)
  ultimately show ?thesis by (simp add: c_strchr_def)
qed

lemma c_strchr_absent:
  "c \<notin> set w \<Longrightarrow> nonul w \<Longrightarrow> c \<noteq> NUL \<Longrightarrow> c_strchr (u @ w) (length u) c = None"
proof -
  assume w: "c \<notin> set w" "nonul w" "c \<noteq> NUL"
  have "c_scan (\<lambda>d. d \<noteq> c) (u @ w @ []) (length u) = length u + length w"
    using w by (intro c_scan_word) (auto simp: list_all_iff)
  then show ?thesis using w(3) by (simp add: c_strchr_def c_at_def)
qed

lemma c_strrchr_None: "c_strrchr s c = None \<longleftrightarrow> c \<notin> set s"
  by (auto simp: c_strrchr_def find_None_iff in_set_conv_nth)

lemma find_skip: "List.find P xs = None \<Longrightarrow> List.find P (xs @ ys) = List.find P ys"
  by (induction xs) (auto split: if_splits)

lemma c_strrchr_found: "c \<notin> set v \<Longrightarrow> c_strrchr (u @ c # v) c = Some (length u)"
proof -
  assume v: "c \<notin> set v"
  have split: "rev [0..<length (u @ c # v)] = rev [Suc (length u)..<length (u @ c # v)] @ length u # rev [0..<length u]"
    using upt_add_eq_append [of 0 "Suc (length u)" "length v"] by simp
  have "List.find (\<lambda>i. (u @ c # v) ! i = c) (rev [Suc (length u)..<length (u @ c # v)]) = None"
    unfolding find_None_iff
  proof (rule notI, elim exE conjE)
    fix i assume "i \<in> set (rev [Suc (length u)..<length (u @ c # v)])" and i: "(u @ c # v) ! i = c"
    then obtain k where k: "i = Suc (length u) + k" "k < length v"
      by (metis (no_types, lifting) add_Suc add_Suc_right atLeastLessThan_iff length_Cons length_append
          less_eqE nat_add_left_cancel_less set_rev set_upt)
    with i have "v ! k = c" by (simp add: nth_append)
    with k(2) v show False by (metis nth_mem)
  qed
  then have "List.find (\<lambda>i. (u @ c # v) ! i = c)
      (rev [Suc (length u)..<length (u @ c # v)] @ length u # rev [0..<length u]) = Some (length u)"
    by (subst find_skip) simp_all
  then show ?thesis by (simp only: c_strrchr_def split)
qed

lemma c_strrchr_Some:
  assumes "c_strrchr s c = Some i" obtains u v where "s = u @ c # v" "length u = i" "c \<notin> set v"
proof -
  have "c \<in> set s" using assms c_strrchr_None [of s c] by fastforce
  then obtain u v where "s = u @ c # v" "c \<notin> set v" by (metis split_list_last)
  with that assms c_strrchr_found [of c v u] show thesis by simp
qed

text \<open>\<open>strstr (s, t)\<close>, as an offset.\<close>

definition c_strstr :: "string \<Rightarrow> string \<Rightarrow> nat option" where
  "c_strstr s t = List.find (\<lambda>i. take (length t) (drop i s) = t) [0..<Suc (length s)]"

lemma c_strstr_first:
  assumes "s = u @ t @ v" and "\<And>i. i < length u \<Longrightarrow> take (length t) (drop i s) \<noteq> t"
  shows "c_strstr s t = Some (length u)"
proof -
  have "[0..<Suc (length s)] = [0..<length u] @ length u # [Suc (length u)..<Suc (length s)]"
    using upt_add_eq_append [of 0 "length u" "Suc (length t + length v)"] assms(1)
    by (simp add: upt_conv_Cons del: upt_Suc)
  moreover have "List.find (\<lambda>i. take (length t) (drop i s) = t) [0..<length u] = None"
    using assms(2) by (auto simp: find_None_iff)
  moreover have "take (length t) (drop (length u) s) = t" by (simp add: assms(1))
  ultimately show ?thesis by (simp add: c_strstr_def find_skip)
qed

lemma c_strstr_found:
  assumes "\<forall>i \<in> set [0..<length u]. take (length t) (drop i (u @ t)) \<noteq> t"
  shows "c_strstr (u @ t @ v) t = Some (length u)"
proof (rule c_strstr_first [OF refl])
  fix i assume i: "i < length u"
  have "drop i (u @ t @ v) = drop i (u @ t) @ v" using i by simp
  moreover have "take (length t) (drop i (u @ t) @ v) = take (length t) (drop i (u @ t))" using i by simp
  ultimately show "take (length t) (drop i (u @ t @ v)) \<noteq> t" using assms i by simp
qed

end
