(* ===== verification/Cwalk.thy ===== *)
theory Cwalk
  imports CString
begin

text \<open>
  The path library of \<^verbatim>\<open>src/vendor/cwalk/cwalk.c\<close>. A pointer into a path is an offset, and the
  path it points into is passed beside it; the static variable \<open>path_style\<close> is the first
  argument \<open>st\<close> of every function. An output buffer is a list of characters as long as
  its \<open>buffer_size\<close>.

  \<open>cwk_path_join_and_normalize_multiple\<close> may be called with its buffer as one of its inputs
  (\<^verbatim>\<open>path.c\<close> does so). It therefore takes the function \<open>rd\<close> that says what the input paths
  read as for a given content of the buffer: constant when they are elsewhere in memory.
  Its loop is a \<open>partial_function\<close>, because overwriting the input could keep it going:
  \<open>None\<close> is a loop that does not end. The \<open>int\<close> that counts back segments is an integer without bound, so that what is shown is for
  paths of fewer than \<open>2 ^ 31\<close> segments.
\<close>

section \<open>Styles, separators, segments\<close>

datatype cwk_path_style = CWK_STYLE_WINDOWS | CWK_STYLE_UNIX

datatype cwk_segment_type = CWK_NORMAL | CWK_CURRENT | CWK_BACK

definition separators :: "cwk_path_style \<Rightarrow> string" where
  "separators st = (case st of CWK_STYLE_WINDOWS \<Rightarrow> [CHR 0x5C, CHR ''/''] | CWK_STYLE_UNIX \<Rightarrow> ''/'')"

record cwk_segment =
  sg_segments :: nat
  sg_begin :: nat
  sg_end :: nat
  sg_size :: nat

record cwk_segment_joined =
  sj_segment :: cwk_segment
  sj_index :: nat

definition cwk_path_is_separator :: "cwk_path_style \<Rightarrow> char \<Rightarrow> bool" where
  "cwk_path_is_separator st c = list_ex (\<lambda>d. d = c) (separators st)"

lemma is_separator_nul [simp]: "\<not> cwk_path_is_separator st NUL"
  by (cases st) (simp_all add: cwk_path_is_separator_def separators_def)

lemma is_separator_unix [simp]: "cwk_path_is_separator CWK_STYLE_UNIX c \<longleftrightarrow> c = CHR ''/''"
  by (auto simp: cwk_path_is_separator_def separators_def)

lemma separator_in_string: "cwk_path_is_separator st (c_at s i) \<Longrightarrow> i < length s"
  by (metis c_at_def is_separator_nul)

lemma not_nul_in_string: "c_at s i \<noteq> NUL \<Longrightarrow> i < length s"
  by (metis c_at_def)

section \<open>Output\<close>

text \<open>
  Returns the length that would have been written, and the buffer.
\<close>

definition cwk_path_output_sized :: "char list \<Rightarrow> nat \<Rightarrow> char list \<Rightarrow> nat \<times> char list" where
  "cwk_path_output_sized buf position str =
     (let bsize = length buf; len = length str;
          amount = (if bsize > position + len then len
                    else if bsize > position then bsize - position else 0)
      in (len, if amount > 0 then take position buf @ take amount str @ drop (position + amount) buf
               else buf))"

definition cwk_path_output_current :: "char list \<Rightarrow> nat \<Rightarrow> nat \<times> char list" where
  "cwk_path_output_current buf position = cwk_path_output_sized buf position ''.''"

definition cwk_path_output_back :: "char list \<Rightarrow> nat \<Rightarrow> nat \<times> char list" where
  "cwk_path_output_back buf position = cwk_path_output_sized buf position ''..''"

definition cwk_path_output_separator :: "cwk_path_style \<Rightarrow> char list \<Rightarrow> nat \<Rightarrow> nat \<times> char list" where
  "cwk_path_output_separator st buf position = cwk_path_output_sized buf position [hd (separators st)]"

definition cwk_path_output_dot :: "char list \<Rightarrow> nat \<Rightarrow> nat \<times> char list" where
  "cwk_path_output_dot buf position = cwk_path_output_sized buf position ''.''"

definition cwk_path_output :: "char list \<Rightarrow> nat \<Rightarrow> string \<Rightarrow> nat \<times> char list" where
  "cwk_path_output buf position str = cwk_path_output_sized buf position str"

definition cwk_path_terminate_output :: "char list \<Rightarrow> nat \<Rightarrow> char list" where
  "cwk_path_terminate_output buf pos =
     (if length buf > 0
      then if pos \<ge> length buf then buf[length buf - 1 := NUL] else buf[pos := NUL]
      else buf)"

text \<open>
  Equality of two stretches of a path: \<open>strncmp\<close> for the Unix style, a loop that ignores case
  and the kind of separator for the Windows style. The \<open>'\0'\<close> is in \<open>strchr\<close>'s string, but
  the loop does not look at it.
\<close>

fun cwk_equal_windows_loop :: "string \<Rightarrow> nat \<Rightarrow> string \<Rightarrow> nat \<Rightarrow> nat \<Rightarrow> bool" where
  "cwk_equal_windows_loop s i t j 0 = True"
| "cwk_equal_windows_loop s i t j (Suc n) =
     (if c_at s i \<noteq> NUL \<and> c_at t j \<noteq> NUL then
        (let both = cwk_path_is_separator CWK_STYLE_WINDOWS (c_at s i) \<and>
                    cwk_path_is_separator CWK_STYLE_WINDOWS (c_at t j)
         in if to_lower (c_at s i) \<noteq> to_lower (c_at t j) \<and> \<not> both then False
            else cwk_equal_windows_loop s (Suc i) t (Suc j) n)
      else True)"

definition cwk_path_is_string_equal ::
  "cwk_path_style \<Rightarrow> string \<Rightarrow> nat \<Rightarrow> string \<Rightarrow> nat \<Rightarrow> nat \<Rightarrow> nat \<Rightarrow> bool" where
  "cwk_path_is_string_equal st s i t j first_size second_size =
     (if first_size \<noteq> second_size then False
      else if st = CWK_STYLE_UNIX then c_strncmp_eq s i t j first_size
      else cwk_equal_windows_loop s i t j first_size)"

section \<open>Roots\<close>

function cwk_path_find_next_stop :: "cwk_path_style \<Rightarrow> string \<Rightarrow> nat \<Rightarrow> nat" where
  "cwk_path_find_next_stop st s c =
     (if c_at s c \<noteq> NUL \<and> \<not> cwk_path_is_separator st (c_at s c)
      then cwk_path_find_next_stop st s (Suc c) else c)"
  by pat_completeness auto
termination
  by (relation "measure (\<lambda>(st, s, c). length s - c)") (auto dest: not_nul_in_string)

declare cwk_path_find_next_stop.simps [simp del]

function cwk_previous_stop_loop :: "cwk_path_style \<Rightarrow> string \<Rightarrow> nat \<Rightarrow> nat \<Rightarrow> nat" where
  "cwk_previous_stop_loop st s begin c =
     (if c > begin \<and> \<not> cwk_path_is_separator st (c_at s c)
      then cwk_previous_stop_loop st s begin (c - 1) else c)"
  by pat_completeness auto
termination
  by (relation "measure (\<lambda>(st, s, begin, c). c)") auto

declare cwk_previous_stop_loop.simps [simp del]

definition cwk_path_find_previous_stop :: "cwk_path_style \<Rightarrow> string \<Rightarrow> nat \<Rightarrow> nat \<Rightarrow> nat" where
  "cwk_path_find_previous_stop st s begin c =
     (let c' = cwk_previous_stop_loop st s begin c
      in if cwk_path_is_separator st (c_at s c') then c' + 1 else c')"

function cwk_skip_separators :: "cwk_path_style \<Rightarrow> string \<Rightarrow> nat \<Rightarrow> nat" where
  "cwk_skip_separators st s c =
     (if cwk_path_is_separator st (c_at s c) then cwk_skip_separators st s (Suc c) else c)"
  by pat_completeness auto
termination
  by (relation "measure (\<lambda>(st, s, c). length s - c)") (auto dest: separator_in_string)

declare cwk_skip_separators.simps [simp del]

definition cwk_path_get_root_windows :: "string \<Rightarrow> nat" where
  "cwk_path_get_root_windows path =
     (let sep = (\<lambda>c. cwk_path_is_separator CWK_STYLE_WINDOWS (c_at path c)) in
      if c_at path 0 = NUL then 0
      else if sep 0 then
        if \<not> sep 1 then 1
        else if (c_at path 2 = CHR ''?'' \<or> c_at path 2 = CHR ''.'') \<and> sep 3 then 4
        else
          (let c0 = (if c_at path 2 = CHR ''?'' \<or> c_at path 2 = CHR ''.'' then 3 else 2);
               c1 = cwk_path_find_next_stop CWK_STYLE_WINDOWS path c0;
               c2 = cwk_skip_separators CWK_STYLE_WINDOWS path c1;
               c3 = cwk_path_find_next_stop CWK_STYLE_WINDOWS path c2
           in if sep c3 then c3 + 1 else c3)
      else if c_at path 1 = CHR '':'' then (if sep 2 then 3 else 2)
      else 0)"

definition cwk_path_get_root_unix :: "string \<Rightarrow> nat" where
  "cwk_path_get_root_unix path =
     (if cwk_path_is_separator CWK_STYLE_UNIX (c_at path 0) then 1 else 0)"

definition cwk_path_get_root :: "cwk_path_style \<Rightarrow> string \<Rightarrow> nat" where
  "cwk_path_get_root st path =
     (if st = CWK_STYLE_WINDOWS then cwk_path_get_root_windows path else cwk_path_get_root_unix path)"

definition cwk_path_is_root_absolute :: "cwk_path_style \<Rightarrow> string \<Rightarrow> nat \<Rightarrow> bool" where
  "cwk_path_is_root_absolute st path len =
     (if len = 0 then False else cwk_path_is_separator st (c_at path (len - 1)))"

definition cwk_path_fix_root :: "cwk_path_style \<Rightarrow> char list \<Rightarrow> nat \<Rightarrow> char list" where
  "cwk_path_fix_root st buf len =
     (if st \<noteq> CWK_STYLE_WINDOWS then buf
      else let n = (if len > length buf then length buf else len) in
        map (\<lambda>c. if cwk_path_is_separator st c then hd (separators CWK_STYLE_WINDOWS) else c) (take n buf) @
        drop n buf)"

definition cwk_path_is_absolute :: "cwk_path_style \<Rightarrow> string \<Rightarrow> bool" where
  "cwk_path_is_absolute st path = cwk_path_is_root_absolute st path (cwk_path_get_root st path)"

definition cwk_path_is_relative :: "cwk_path_style \<Rightarrow> string \<Rightarrow> bool" where
  "cwk_path_is_relative st path = (\<not> cwk_path_is_absolute st path)"


section \<open>Moving between the segments of one path\<close>

text \<open>
  Skipping the separators in front of a segment: \<open>None\<close> when the string ends there.
\<close>

function cwk_skip_to_segment :: "cwk_path_style \<Rightarrow> string \<Rightarrow> nat \<Rightarrow> nat option" where
  "cwk_skip_to_segment st s i =
     (if cwk_path_is_separator st (c_at s i)
      then if c_at s (Suc i) = NUL then None else cwk_skip_to_segment st s (Suc i)
      else Some i)"
  by pat_completeness auto
termination
  by (relation "measure (\<lambda>(st, s, i). length s - i)") (auto dest: separator_in_string)

declare cwk_skip_to_segment.simps [simp del]

definition cwk_path_get_first_segment_without_root ::
  "cwk_path_style \<Rightarrow> string \<Rightarrow> nat \<Rightarrow> bool \<times> cwk_segment" where
  "cwk_path_get_first_segment_without_root st s segments =
     (let seg = \<lparr>sg_segments = segments, sg_begin = segments, sg_end = segments, sg_size = 0\<rparr> in
      if c_at s segments = NUL then (False, seg)
      else case cwk_skip_to_segment st s segments of
        None \<Rightarrow> (False, seg)
      | Some b \<Rightarrow> (let e = cwk_path_find_next_stop st s b
                   in (True, seg\<lparr>sg_begin := b, sg_size := e - b, sg_end := e\<rparr>)))"

definition cwk_path_get_first_segment :: "cwk_path_style \<Rightarrow> string \<Rightarrow> bool \<times> cwk_segment" where
  "cwk_path_get_first_segment st path =
     cwk_path_get_first_segment_without_root st path (cwk_path_get_root st path)"

text \<open>
  The source asserts that the character after a segment is a separator when it is not the
  terminator; \<open>seg_at_end\<close> below shows that it is.
\<close>

definition cwk_path_get_next_segment :: "cwk_path_style \<Rightarrow> string \<Rightarrow> cwk_segment \<Rightarrow> bool \<times> cwk_segment" where
  "cwk_path_get_next_segment st s seg =
     (let c = sg_begin seg + sg_size seg in
      if c_at s c = NUL then (False, seg)
      else
        (let c1 = cwk_skip_separators st s (Suc c) in
         if c_at s c1 = NUL then (False, seg)
         else (let e = cwk_path_find_next_stop st s c1
               in (True, seg\<lparr>sg_begin := c1, sg_end := e, sg_size := e - c1\<rparr>))))"

function cwk_previous_char_loop :: "cwk_path_style \<Rightarrow> string \<Rightarrow> nat \<Rightarrow> nat \<Rightarrow> nat option" where
  "cwk_previous_char_loop st s segments c =
     (if c \<le> segments then None
      else if cwk_path_is_separator st (c_at s (c - 1)) then cwk_previous_char_loop st s segments (c - 1)
      else Some (c - 1))"
  by pat_completeness auto
termination
  by (relation "measure (\<lambda>(st, s, segments, c). c)") auto

declare cwk_previous_char_loop.simps [simp del]

definition cwk_path_get_previous_segment :: "cwk_path_style \<Rightarrow> string \<Rightarrow> cwk_segment \<Rightarrow> bool \<times> cwk_segment" where
  "cwk_path_get_previous_segment st s seg =
     (case cwk_previous_char_loop st s (sg_segments seg) (sg_begin seg) of
        None \<Rightarrow> (False, seg)
      | Some c \<Rightarrow>
          (let b = cwk_path_find_previous_stop st s (sg_segments seg) c
           in (True, seg\<lparr>sg_end := c + 1, sg_begin := b, sg_size := c + 1 - b\<rparr>)))"

lemma next_segment_grows:
  assumes "cwk_path_get_next_segment st s seg = (True, seg')"
  shows "sg_begin seg < sg_begin seg' \<and> sg_begin seg' < length s"
proof -
  have ge: "c \<le> cwk_skip_separators st s c" for c
    by (induction st s c rule: cwk_skip_separators.induct) (subst cwk_skip_separators.simps, auto)
  show ?thesis
    using assms ge [of "Suc (sg_begin seg + sg_size seg)"]
    by (auto simp: cwk_path_get_next_segment_def Let_def dest: not_nul_in_string split: if_splits)
qed

function cwk_last_segment_loop :: "cwk_path_style \<Rightarrow> string \<Rightarrow> cwk_segment \<Rightarrow> cwk_segment" where
  "cwk_last_segment_loop st s seg =
     (let r = cwk_path_get_next_segment st s seg
      in if fst r then cwk_last_segment_loop st s (snd r) else snd r)"
  by pat_completeness auto
termination
proof (relation "measure (\<lambda>(st, s, seg). length s - sg_begin seg)", goal_cases)
  case (2 st s seg x)
  then have "cwk_path_get_next_segment st s seg = (True, snd x)" by (simp add: prod_eq_iff)
  from next_segment_grows [OF this] show ?case by auto
qed simp

declare cwk_last_segment_loop.simps [simp del]

definition cwk_path_get_last_segment :: "cwk_path_style \<Rightarrow> string \<Rightarrow> bool \<times> cwk_segment" where
  "cwk_path_get_last_segment st path =
     (let (r, seg) = cwk_path_get_first_segment st path
      in if \<not> r then (False, seg) else (True, cwk_last_segment_loop st path seg))"

definition cwk_path_get_last_segment_without_root :: "cwk_path_style \<Rightarrow> string \<Rightarrow> bool \<times> cwk_segment" where
  "cwk_path_get_last_segment_without_root st path =
     (let (r, seg) = cwk_path_get_first_segment_without_root st path 0
      in if \<not> r then (False, seg) else (True, cwk_last_segment_loop st path seg))"

definition cwk_path_get_segment_type :: "string \<Rightarrow> cwk_segment \<Rightarrow> cwk_segment_type" where
  "cwk_path_get_segment_type s seg =
     (if c_strncmp_eq s (sg_begin seg) ''.'' 0 (sg_size seg) then CWK_CURRENT
      else if c_strncmp_eq s (sg_begin seg) ''..'' 0 (sg_size seg) then CWK_BACK
      else CWK_NORMAL)"

section \<open>Moving between the segments of several paths\<close>

function cwk_first_joined_loop ::
  "cwk_path_style \<Rightarrow> string list \<Rightarrow> nat \<Rightarrow> cwk_segment \<Rightarrow> bool \<times> cwk_segment_joined" where
  "cwk_first_joined_loop st paths i seg =
     (if i < length paths then
        (let (r, seg') = cwk_path_get_first_segment st (paths ! i)
         in if r then (True, \<lparr>sj_segment = seg', sj_index = i\<rparr>)
            else cwk_first_joined_loop st paths (Suc i) seg')
      else (False, \<lparr>sj_segment = seg, sj_index = i\<rparr>))"
  by pat_completeness auto
termination
  by (relation "measure (\<lambda>(st, paths, i, seg). length paths - i)") auto

declare cwk_first_joined_loop.simps [simp del]

definition cwk_path_get_first_segment_joined ::
  "cwk_path_style \<Rightarrow> string list \<Rightarrow> bool \<times> cwk_segment_joined" where
  "cwk_path_get_first_segment_joined st paths =
     cwk_first_joined_loop st paths 0 \<lparr>sg_segments = 0, sg_begin = 0, sg_end = 0, sg_size = 0\<rparr>"

function cwk_next_joined_loop ::
  "cwk_path_style \<Rightarrow> string list \<Rightarrow> cwk_segment_joined \<Rightarrow> bool \<times> cwk_segment_joined" where
  "cwk_next_joined_loop st paths sj =
     (let i = Suc (sj_index sj) in
      if length paths \<le> i then (False, sj\<lparr>sj_index := i\<rparr>)
      else
        (let (r, seg) = cwk_path_get_first_segment_without_root st (paths ! i) 0;
             sj' = sj\<lparr>sj_index := i, sj_segment := seg\<rparr>
         in if r then (True, sj') else cwk_next_joined_loop st paths sj'))"
  by pat_completeness auto
termination
  by (relation "measure (\<lambda>(st, paths, sj). length paths - sj_index sj)") auto

declare cwk_next_joined_loop.simps [simp del]

definition cwk_path_get_next_segment_joined ::
  "cwk_path_style \<Rightarrow> string list \<Rightarrow> cwk_segment_joined \<Rightarrow> bool \<times> cwk_segment_joined" where
  "cwk_path_get_next_segment_joined st paths sj =
     (if length paths \<le> sj_index sj then (False, sj)
      else
        (let (r, seg) = cwk_path_get_next_segment st (paths ! sj_index sj) (sj_segment sj)
         in if r then (True, sj\<lparr>sj_segment := seg\<rparr>) else cwk_next_joined_loop st paths sj))"

text \<open>The last segment of one of the joined paths: only the first path has a root.\<close>

definition cwk_last_segment_at :: "cwk_path_style \<Rightarrow> string list \<Rightarrow> nat \<Rightarrow> bool \<times> cwk_segment" where
  "cwk_last_segment_at st paths i =
     (if i = 0 then cwk_path_get_last_segment st (paths ! i)
      else cwk_path_get_last_segment_without_root st (paths ! i))"

function cwk_previous_joined_loop ::
  "cwk_path_style \<Rightarrow> string list \<Rightarrow> cwk_segment_joined \<Rightarrow> bool \<times> cwk_segment_joined" where
  "cwk_previous_joined_loop st paths sj =
     (if sj_index sj = 0 then (False, sj)
      else
        (let i = sj_index sj - 1;
             (r, seg) = cwk_last_segment_at st paths i;
             sj' = sj\<lparr>sj_index := i, sj_segment := seg\<rparr>
         in if r then (True, sj') else cwk_previous_joined_loop st paths sj'))"
  by pat_completeness auto
termination
  by (relation "measure (\<lambda>(st, paths, sj). sj_index sj)") auto

declare cwk_previous_joined_loop.simps [simp del]

definition cwk_path_get_previous_segment_joined ::
  "cwk_path_style \<Rightarrow> string list \<Rightarrow> cwk_segment_joined \<Rightarrow> bool \<times> cwk_segment_joined" where
  "cwk_path_get_previous_segment_joined st paths sj =
     (if paths = [] then (False, sj)
      else
        (let (r, seg) = cwk_path_get_previous_segment st (paths ! sj_index sj) (sj_segment sj)
         in if r then (True, sj\<lparr>sj_segment := seg\<rparr>) else cwk_previous_joined_loop st paths sj))"

section \<open>Which segments disappear\<close>

text \<open>Progress of the two directions, for the loops below.\<close>

lemma next_joined_loop_index:
  "cwk_next_joined_loop st paths sj = (r, sj') \<Longrightarrow> sj_index sj < sj_index sj' \<and> (r \<longrightarrow> sj_index sj' < length paths)"
proof (induction st paths sj arbitrary: r sj' rule: cwk_next_joined_loop.induct)
  case (1 st paths sj)
  show ?case
  proof (cases "length paths \<le> Suc (sj_index sj)")
    case True
    with "1.prems" show ?thesis by (subst (asm) cwk_next_joined_loop.simps) auto
  next
    case False
    obtain b seg where seg: "cwk_path_get_first_segment_without_root st (paths ! Suc (sj_index sj)) 0 = (b, seg)"
      by fastforce
    show ?thesis
    proof (cases b)
      case True
      with "1.prems" False seg show ?thesis by (subst (asm) cwk_next_joined_loop.simps) auto
    next
      case b: False
      from "1.IH" [OF refl False seg [symmetric] refl] b
      have "cwk_next_joined_loop st paths (sj\<lparr>sj_index := Suc (sj_index sj), sj_segment := seg\<rparr>) = (r, sj') \<Longrightarrow> ?thesis"
        by fastforce
      moreover have "cwk_next_joined_loop st paths (sj\<lparr>sj_index := Suc (sj_index sj), sj_segment := seg\<rparr>) = (r, sj')"
        using "1.prems" False seg b by (subst (asm) cwk_next_joined_loop.simps) auto
      ultimately show ?thesis by blast
    qed
  qed
qed

lemma previous_joined_loop_index:
  "cwk_previous_joined_loop st paths sj = (True, sj') \<Longrightarrow> sj_index sj' < sj_index sj"
proof (induction st paths sj arbitrary: sj' rule: cwk_previous_joined_loop.induct)
  case (1 st paths sj)
  have i: "sj_index sj \<noteq> 0" using "1.prems" by (subst (asm) cwk_previous_joined_loop.simps) (auto split: if_splits)
  obtain b seg where seg: "cwk_last_segment_at st paths (sj_index sj - 1) = (b, seg)"
    by (metis surj_pair)
  let ?sj = "sj\<lparr>sj_index := sj_index sj - 1, sj_segment := seg\<rparr>"
  have eq: "cwk_previous_joined_loop st paths sj = (if b then (True, ?sj) else cwk_previous_joined_loop st paths ?sj)"
    using i seg by (subst cwk_previous_joined_loop.simps) (simp add: Let_def)
  show ?case
  proof (cases b)
    case True
    with eq "1.prems" i show ?thesis by auto
  next
    case False
    with eq "1.prems" have "cwk_previous_joined_loop st paths ?sj = (True, sj')" by simp
    from "1.IH" [OF i refl seg [symmetric] refl refl False this] i show ?thesis by simp
  qed
qed

lemma previous_stop_le: "cwk_path_find_previous_stop st s segments c \<le> Suc c"
proof -
  have "cwk_previous_stop_loop st s segments c \<le> c" for c
  proof (induction st s segments c rule: cwk_previous_stop_loop.induct)
    case (1 st s segs c)
    then show ?case by (subst cwk_previous_stop_loop.simps) (auto intro: le_trans)
  qed
  then show ?thesis by (simp add: cwk_path_find_previous_stop_def Let_def le_SucI)
qed

lemma previous_char_lt: "cwk_previous_char_loop st s segments c = Some c' \<Longrightarrow> c' < c \<and> \<not> cwk_path_is_separator st (c_at s c')"
proof (induction st s segments c rule: cwk_previous_char_loop.induct)
  case (1 st s segments c)
  then show ?case
    by (subst (asm) (2) cwk_previous_char_loop.simps) (auto split: if_splits)
qed

lemma previous_segment_shrinks:
  "cwk_path_get_previous_segment st s seg = (True, seg') \<Longrightarrow> sg_begin seg' < sg_begin seg"
proof -
  assume prev: "cwk_path_get_previous_segment st s seg = (True, seg')"
  then obtain c where c: "cwk_previous_char_loop st s (sg_segments seg) (sg_begin seg) = Some c"
    and seg': "sg_begin seg' = cwk_path_find_previous_stop st s (sg_segments seg) c"
    by (auto simp: cwk_path_get_previous_segment_def Let_def split: option.splits)
  have lt: "c < sg_begin seg" and sep: "\<not> cwk_path_is_separator st (c_at s c)" using previous_char_lt [OF c] by auto
  have le: "cwk_previous_stop_loop st s segs d \<le> d" for segs d
  proof (induction st s segs d rule: cwk_previous_stop_loop.induct)
    case (1 st s segs c)
    then show ?case by (subst cwk_previous_stop_loop.simps) (auto intro: le_trans)
  qed
  have "cwk_path_find_previous_stop st s (sg_segments seg) c \<le> c"
    using le [of "sg_segments seg" c] sep
    by (cases "cwk_previous_stop_loop st s (sg_segments seg) c = c") (auto simp: cwk_path_find_previous_stop_def Let_def)
  with lt seg' show ?thesis by simp
qed

lemma previous_joined_decreases:
  "cwk_path_get_previous_segment_joined st paths sj = (True, sj') \<Longrightarrow>
     sj_index sj' < sj_index sj \<or>
     sj_index sj' = sj_index sj \<and> sg_begin (sj_segment sj') < sg_begin (sj_segment sj)"
  using previous_joined_loop_index previous_segment_shrinks
  by (fastforce simp: cwk_path_get_previous_segment_joined_def split: if_splits prod.splits)

lemma next_joined_increases:
  "cwk_path_get_next_segment_joined st paths sj = (True, sj') \<Longrightarrow>
     sj_index sj < sj_index sj' \<and> sj_index sj' < length paths \<or>
     sj_index sj' = sj_index sj \<and> sj_index sj < length paths \<and>
     sg_begin (sj_segment sj) < sg_begin (sj_segment sj') \<and>
     sg_begin (sj_segment sj') < length (paths ! sj_index sj)"
  using next_joined_loop_index next_segment_grows
  by (fastforce simp: cwk_path_get_next_segment_joined_def split: if_splits prod.splits)

definition sj_left :: "string list \<Rightarrow> cwk_segment_joined \<Rightarrow> nat" where
  "sj_left paths sj = length (paths ! sj_index sj) - sg_begin (sj_segment sj)"

definition sj_type :: "string list \<Rightarrow> cwk_segment_joined \<Rightarrow> cwk_segment_type" where
  "sj_type paths sj = cwk_path_get_segment_type (paths ! sj_index sj) (sj_segment sj)"

text \<open>
  The loops of the two tests; \<open>counter\<close> is the \<open>int\<close> of the source. \<open>continue\<close> to the
  next round is the recursive call.
\<close>

function cwk_back_removed_loop :: "cwk_path_style \<Rightarrow> string list \<Rightarrow> cwk_segment_joined \<Rightarrow> int \<Rightarrow> bool" where
  "cwk_back_removed_loop st paths sj counter =
     (let r = cwk_path_get_previous_segment_joined st paths sj; sj1 = snd r in
      if \<not> fst r then False
      else if sj_type paths sj1 = CWK_NORMAL then
        (if counter + 1 > 0 then True else cwk_back_removed_loop st paths sj1 (counter + 1))
      else if sj_type paths sj1 = CWK_BACK then cwk_back_removed_loop st paths sj1 (counter - 1)
      else cwk_back_removed_loop st paths sj1 counter)"
  by pat_completeness auto
termination
proof (relation "measures [\<lambda>(st, paths, sj, counter). sj_index sj, \<lambda>(st, paths, sj, counter). sg_begin (sj_segment sj)]",
    goal_cases)
  case (2 st paths sj counter x xa)
  then have "cwk_path_get_previous_segment_joined st paths sj = (True, xa)" by (simp add: prod_eq_iff)
  from previous_joined_decreases [OF this] show ?case by auto
next
  case (3 st paths sj counter x xa)
  then have "cwk_path_get_previous_segment_joined st paths sj = (True, xa)" by (simp add: prod_eq_iff)
  from previous_joined_decreases [OF this] show ?case by auto
next
  case (4 st paths sj counter x xa)
  then have "cwk_path_get_previous_segment_joined st paths sj = (True, xa)" by (simp add: prod_eq_iff)
  from previous_joined_decreases [OF this] show ?case by auto
qed simp

declare cwk_back_removed_loop.simps [simp del]

definition cwk_path_segment_back_will_be_removed :: "cwk_path_style \<Rightarrow> string list \<Rightarrow> cwk_segment_joined \<Rightarrow> bool" where
  "cwk_path_segment_back_will_be_removed st paths sj = cwk_back_removed_loop st paths sj 0"

function cwk_normal_removed_loop :: "cwk_path_style \<Rightarrow> string list \<Rightarrow> cwk_segment_joined \<Rightarrow> int \<Rightarrow> bool" where
  "cwk_normal_removed_loop st paths sj counter =
     (let r = cwk_path_get_next_segment_joined st paths sj; sj1 = snd r in
      if \<not> fst r then False
      else if sj_type paths sj1 = CWK_NORMAL then cwk_normal_removed_loop st paths sj1 (counter + 1)
      else if sj_type paths sj1 = CWK_BACK then
        (if counter - 1 < 0 then True else cwk_normal_removed_loop st paths sj1 (counter - 1))
      else cwk_normal_removed_loop st paths sj1 counter)"
  by pat_completeness auto
termination
proof (relation "measures [\<lambda>(st, paths, sj, counter). length paths - sj_index sj, \<lambda>(st, paths, sj, counter). sj_left paths sj]",
    goal_cases)
  case (2 st paths sj counter x xa)
  then have "cwk_path_get_next_segment_joined st paths sj = (True, xa)" by (simp add: prod_eq_iff)
  from next_joined_increases [OF this] show ?case by (auto simp: sj_left_def)
next
  case (3 st paths sj counter x xa)
  then have "cwk_path_get_next_segment_joined st paths sj = (True, xa)" by (simp add: prod_eq_iff)
  from next_joined_increases [OF this] show ?case by (auto simp: sj_left_def)
next
  case (4 st paths sj counter x xa)
  then have "cwk_path_get_next_segment_joined st paths sj = (True, xa)" by (simp add: prod_eq_iff)
  from next_joined_increases [OF this] show ?case by (auto simp: sj_left_def)
qed simp

declare cwk_normal_removed_loop.simps [simp del]

definition cwk_path_segment_normal_will_be_removed :: "cwk_path_style \<Rightarrow> string list \<Rightarrow> cwk_segment_joined \<Rightarrow> bool" where
  "cwk_path_segment_normal_will_be_removed st paths sj = cwk_normal_removed_loop st paths sj 0"

definition cwk_path_segment_will_be_removed ::
  "cwk_path_style \<Rightarrow> string list \<Rightarrow> cwk_segment_joined \<Rightarrow> bool \<Rightarrow> bool" where
  "cwk_path_segment_will_be_removed st paths sj absolute =
     (let ty = sj_type paths sj in
      if ty = CWK_CURRENT \<or> (ty = CWK_BACK \<and> absolute) then True
      else if ty = CWK_BACK then cwk_path_segment_back_will_be_removed st paths sj
      else cwk_path_segment_normal_will_be_removed st paths sj)"

function cwk_skip_invisible ::
  "cwk_path_style \<Rightarrow> string list \<Rightarrow> bool \<Rightarrow> cwk_segment_joined \<Rightarrow> bool \<times> cwk_segment_joined" where
  "cwk_skip_invisible st paths absolute sj =
     (if cwk_path_segment_will_be_removed st paths sj absolute
      then (let r = cwk_path_get_next_segment_joined st paths sj
            in if fst r then cwk_skip_invisible st paths absolute (snd r) else r)
      else (True, sj))"
  by pat_completeness auto
termination
proof (relation "measures [\<lambda>(st, paths, absolute, sj). length paths - sj_index sj, \<lambda>(st, paths, absolute, sj). sj_left paths sj]",
    goal_cases)
  case (2 st paths absolute sj x)
  then have "cwk_path_get_next_segment_joined st paths sj = (True, snd x)" by (simp add: prod_eq_iff)
  from next_joined_increases [OF this] show ?case by (auto simp: sj_left_def)
qed simp

declare cwk_skip_invisible.simps [simp del]

section \<open>Joining and normalizing\<close>

text \<open>
  The \<open>do .. while\<close> loop, from the segment \<open>sj\<close> on: \<open>pos\<close> characters are out and
  \<open>has\<close> is \<open>has_segment_output\<close>. A segment is copied from where its path is, after the
  separator has been written.
\<close>

definition cwk_join_emit ::
  "cwk_path_style \<Rightarrow> (char list \<Rightarrow> string list) \<Rightarrow> cwk_segment_joined \<Rightarrow> nat \<Rightarrow> bool \<Rightarrow> char list \<Rightarrow>
     nat \<times> char list" where
  "cwk_join_emit st rd sj pos has buf =
     (let (n1, buf1) = (if has then cwk_path_output_separator st buf pos else (0, buf));
          seg = sj_segment sj;
          (n2, buf2) = cwk_path_output_sized buf1 (pos + n1)
            (c_sub (rd buf1 ! sj_index sj) (sg_begin seg) (sg_size seg))
      in (pos + n1 + n2, buf2))"

partial_function (option) cwk_join_loop ::
  "cwk_path_style \<Rightarrow> (char list \<Rightarrow> string list) \<Rightarrow> bool \<Rightarrow> cwk_segment_joined \<Rightarrow> nat \<Rightarrow> bool \<Rightarrow> char list \<Rightarrow>
     (nat \<times> bool \<times> char list) option" where
  "cwk_join_loop st rd absolute sj pos has buf =
     (let removed = cwk_path_segment_will_be_removed st (rd buf) sj absolute;
          emitted = (if removed then (pos, buf) else cwk_join_emit st rd sj pos has buf);
          has1 = (if removed then has else True);
          r = cwk_path_get_next_segment_joined st (rd (snd emitted)) sj
      in if fst r then cwk_join_loop st rd absolute (snd r) (fst emitted) has1 (snd emitted)
         else Some (fst emitted, has1, snd emitted))"

declare cwk_join_loop.simps [code]

definition cwk_path_join_and_normalize_multiple ::
  "cwk_path_style \<Rightarrow> (char list \<Rightarrow> string list) \<Rightarrow> char list \<Rightarrow> (nat \<times> char list) option" where
  "cwk_path_join_and_normalize_multiple st rd buf =
     (let pos = cwk_path_get_root st (hd (rd buf));
          absolute = cwk_path_is_root_absolute st (hd (rd buf)) pos;
          (_, buf1) = cwk_path_output_sized buf 0 (take pos (hd (rd buf)));
          buf2 = cwk_path_fix_root st buf1 pos;
          r = cwk_path_get_first_segment_joined st (rd buf2)
      in if \<not> fst r then Some (pos, cwk_path_terminate_output buf2 pos)
         else do {
           (pos3, has3, buf3) \<leftarrow> cwk_join_loop st rd absolute (snd r) pos False buf2;
           let (n4, buf4) = (if \<not> has3 \<and> pos3 = 0 then cwk_path_output_current buf3 pos3 else (0, buf3));
           Some (pos3 + n4, cwk_path_terminate_output buf4 (pos3 + n4))
         })"

text \<open>
  Input paths that are not in the buffer; and a first path that is the string in the buffer,
  which runs into the memory \<open>beyond\<close> the buffer when there is no terminator in it.
\<close>

definition rd_apart :: "string list \<Rightarrow> char list \<Rightarrow> string list" where
  [simp]: "rd_apart paths = (\<lambda>_. paths)"

definition rd_in_place :: "char list \<Rightarrow> string list \<Rightarrow> char list \<Rightarrow> string list" where
  "rd_in_place beyond rest buf = c_str (buf @ beyond) # rest"

definition cwk_path_normalize :: "cwk_path_style \<Rightarrow> string \<Rightarrow> char list \<Rightarrow> (nat \<times> char list) option" where
  "cwk_path_normalize st path buf = cwk_path_join_and_normalize_multiple st (rd_apart [path]) buf"

definition cwk_path_join :: "cwk_path_style \<Rightarrow> string \<Rightarrow> string \<Rightarrow> char list \<Rightarrow> (nat \<times> char list) option" where
  "cwk_path_join st path_a path_b buf = cwk_path_join_and_normalize_multiple st (rd_apart [path_a, path_b]) buf"

definition cwk_path_join_in_place ::
  "cwk_path_style \<Rightarrow> char list \<Rightarrow> string \<Rightarrow> char list \<Rightarrow> (nat \<times> char list) option" where
  "cwk_path_join_in_place st beyond path_b buf =
     cwk_path_join_and_normalize_multiple st (rd_in_place beyond [path_b]) buf"

definition cwk_path_join_multiple :: "cwk_path_style \<Rightarrow> string list \<Rightarrow> char list \<Rightarrow> (nat \<times> char list) option" where
  "cwk_path_join_multiple st paths buf = cwk_path_join_and_normalize_multiple st (rd_apart paths) buf"

definition cwk_path_get_absolute :: "cwk_path_style \<Rightarrow> string \<Rightarrow> string \<Rightarrow> char list \<Rightarrow> (nat \<times> char list) option" where
  "cwk_path_get_absolute st base path buf =
     (let root = (if cwk_path_is_absolute st base then []
                  else if st = CWK_STYLE_WINDOWS then [[CHR 0x5C]] else [''/'']);
          paths = (if cwk_path_is_absolute st path then root @ [path] else root @ [base, path])
      in cwk_path_join_and_normalize_multiple st (rd_apart paths) buf)"

section \<open>Relative paths and common prefixes\<close>

text \<open>Skipping never moves back, which is what the loops over it need to end.\<close>

definition sj_order :: "string list \<Rightarrow> (cwk_segment_joined \<times> cwk_segment_joined) set" where
  "sj_order paths = measures [\<lambda>sj. length paths - sj_index sj, sj_left paths]"

lemma wf_sj_order [simp]: "wf (sj_order paths)"
  by (simp add: sj_order_def)

lemma next_joined_order:
  "cwk_path_get_next_segment_joined st paths sj = (True, sj') \<Longrightarrow> (sj', sj) \<in> sj_order paths"
  using next_joined_increases by (fastforce simp: sj_order_def sj_left_def)

lemma sj_order_trans: "(a, b) \<in> sj_order paths \<Longrightarrow> (b, c) \<in> sj_order paths \<Longrightarrow> (a, c) \<in> sj_order paths"
  by (auto simp: sj_order_def)

lemma skip_invisible_order:
  "cwk_skip_invisible st paths absolute sj = (True, sj') \<Longrightarrow> sj' = sj \<or> (sj', sj) \<in> sj_order paths"
proof (induction st paths absolute sj arbitrary: sj' rule: cwk_skip_invisible.induct)
  case (1 st paths absolute sj)
  show ?case
  proof (cases "cwk_path_segment_will_be_removed st paths sj absolute")
    case False
    with "1.prems" show ?thesis by (subst (asm) cwk_skip_invisible.simps) simp
  next
    case True
    obtain b sj1 where n: "cwk_path_get_next_segment_joined st paths sj = (b, sj1)" by fastforce
    have b: b using "1.prems" True n by (subst (asm) cwk_skip_invisible.simps) (auto simp: Let_def split: if_splits)
    have "cwk_skip_invisible st paths absolute sj1 = (True, sj')"
      using "1.prems" True n b by (subst (asm) cwk_skip_invisible.simps) (auto simp: Let_def split: if_splits)
    with "1.IH" [OF True refl] n b have "sj' = sj1 \<or> (sj', sj1) \<in> sj_order paths" by simp
    moreover have "(sj1, sj) \<in> sj_order paths" using n b by (intro next_joined_order) simp
    ultimately show ?thesis using sj_order_trans by blast
  qed
qed

lemma skip_next_order:
  assumes "cwk_skip_invisible st paths absolute sj = (True, sj1)"
    and "cwk_path_get_next_segment_joined st paths sj1 = (True, sj2)"
  shows "(sj2, sj) \<in> sj_order paths"
  using skip_invisible_order [OF assms(1)] next_joined_order [OF assms(2)] sj_order_trans by blast

definition cwk_segments_equal ::
  "cwk_path_style \<Rightarrow> string list \<Rightarrow> cwk_segment_joined \<Rightarrow> string list \<Rightarrow> cwk_segment_joined \<Rightarrow> bool" where
  "cwk_segments_equal st ps bsj qs osj =
     cwk_path_is_string_equal st (ps ! sj_index bsj) (sg_begin (sj_segment bsj))
       (qs ! sj_index osj) (sg_begin (sj_segment osj)) (sg_size (sj_segment bsj)) (sg_size (sj_segment osj))"

text \<open>Result: what is left of the base and of the other path, and the flags for both.\<close>

function cwk_path_skip_segments_until_diverge ::
  "cwk_path_style \<Rightarrow> string list \<Rightarrow> string list \<Rightarrow> bool \<Rightarrow> cwk_segment_joined \<Rightarrow> cwk_segment_joined \<Rightarrow>
     (bool \<times> cwk_segment_joined) \<times> (bool \<times> cwk_segment_joined)" where
  "cwk_path_skip_segments_until_diverge st ps qs absolute bsj osj =
     (let b1 = cwk_skip_invisible st ps absolute bsj; o1 = cwk_skip_invisible st qs absolute osj in
      if \<not> fst b1 \<or> \<not> fst o1 then (b1, o1)
      else if \<not> cwk_segments_equal st ps (snd b1) qs (snd o1) then (b1, o1)
      else (let b2 = cwk_path_get_next_segment_joined st ps (snd b1);
                o2 = cwk_path_get_next_segment_joined st qs (snd o1)
            in if fst b2 \<and> fst o2
               then cwk_path_skip_segments_until_diverge st ps qs absolute (snd b2) (snd o2)
               else (b2, o2)))"
  by pat_completeness auto
termination
proof (relation "measures [\<lambda>(st, ps, qs, absolute, bsj, osj). length ps - sj_index bsj,
      \<lambda>(st, ps, qs, absolute, bsj, osj). sj_left ps bsj]", goal_cases)
  case (2 st ps qs absolute bsj osj b1 o1 b2 o2)
  then have "cwk_skip_invisible st ps absolute bsj = (True, snd b1)"
    "cwk_path_get_next_segment_joined st ps (snd b1) = (True, snd b2)" by (simp_all add: prod_eq_iff)
  from skip_next_order [OF this] show ?case by (auto simp: sj_order_def)
qed simp

declare cwk_path_skip_segments_until_diverge.simps [simp del]

text \<open>The two output loops of \<open>cwk_path_get_relative\<close>; \<open>emit\<close> writes what one visible segment gives.\<close>

function cwk_relative_output_loop ::
  "cwk_path_style \<Rightarrow> string list \<Rightarrow> bool \<Rightarrow> (cwk_segment_joined \<Rightarrow> char list \<Rightarrow> nat \<Rightarrow> nat \<times> char list) \<Rightarrow>
     cwk_segment_joined \<Rightarrow> nat \<Rightarrow> bool \<Rightarrow> char list \<Rightarrow> nat \<times> bool \<times> char list" where
  "cwk_relative_output_loop st ps absolute emit sj pos has buf =
     (let r = cwk_skip_invisible st ps absolute sj in
      if \<not> fst r then (pos, has, buf)
      else
        (let (n1, buf1) = emit (snd r) buf pos;
             (n2, buf2) = cwk_path_output_separator st buf1 (pos + n1);
             r2 = cwk_path_get_next_segment_joined st ps (snd r)
         in if fst r2 then cwk_relative_output_loop st ps absolute emit (snd r2) (pos + n1 + n2) True buf2
            else (pos + n1 + n2, True, buf2)))"
  by pat_completeness auto
termination
proof (relation "measures [\<lambda>(st, ps, absolute, emit, sj, pos, has, buf). length ps - sj_index sj,
      \<lambda>(st, ps, absolute, emit, sj, pos, has, buf). sj_left ps sj]", goal_cases)
  case (2 st ps absolute emit sj pos has buf r x n1 buf1 y n2 buf2 r2)
  then have "cwk_skip_invisible st ps absolute sj = (True, snd r)"
    "cwk_path_get_next_segment_joined st ps (snd r) = (True, snd r2)" by (simp_all add: prod_eq_iff)
  from skip_next_order [OF this] show ?case by (auto simp: sj_order_def)
qed simp

declare cwk_relative_output_loop.simps [simp del]

definition cwk_path_get_relative :: "cwk_path_style \<Rightarrow> string \<Rightarrow> string \<Rightarrow> char list \<Rightarrow> nat \<times> char list" where
  "cwk_path_get_relative st base_directory path buf =
     (let base_root = cwk_path_get_root st base_directory;
          path_root = cwk_path_get_root st path in
      if base_root \<noteq> path_root \<or>
         \<not> cwk_path_is_string_equal st base_directory 0 path 0 base_root path_root
      then (0, cwk_path_terminate_output buf 0)
      else
        (let absolute = cwk_path_is_root_absolute st base_directory base_root;
             bsj = snd (cwk_path_get_first_segment_joined st [base_directory]);
             osj = snd (cwk_path_get_first_segment_joined st [path]);
             (b, q) = cwk_path_skip_segments_until_diverge st [base_directory] [path] absolute bsj osj;
             (pos1, has1, buf1) =
               (if fst b then cwk_relative_output_loop st [base_directory] absolute
                  (\<lambda>_ buf pos. cwk_path_output_back buf pos) (snd b) 0 False buf
                else (0, False, buf));
             (pos2, has2, buf2) =
               (if fst q then cwk_relative_output_loop st [path] absolute
                  (\<lambda>sj buf pos. cwk_path_output_sized buf pos
                     (c_sub path (sg_begin (sj_segment sj)) (sg_size (sj_segment sj)))) (snd q) pos1 has1 buf1
                else (pos1, has1, buf1));
             (pos3, buf3) =
               (if has2 then (pos2 - 1, buf2)
                else (let (n, b) = cwk_path_output_current buf2 pos2 in (pos2 + n, b)))
         in (pos3, cwk_path_terminate_output buf3 pos3)))"

function cwk_intersection_loop ::
  "cwk_path_style \<Rightarrow> string list \<Rightarrow> string list \<Rightarrow> bool \<Rightarrow> cwk_segment_joined \<Rightarrow> cwk_segment_joined \<Rightarrow> nat \<Rightarrow> nat" where
  "cwk_intersection_loop st ps qs absolute bsj osj stop =
     (let b1 = cwk_skip_invisible st ps absolute bsj in
      if \<not> fst b1 then stop
      else
        (let o1 = cwk_skip_invisible st qs absolute osj in
         if \<not> fst o1 then stop
         else if \<not> cwk_segments_equal st ps (snd b1) qs (snd o1) then stop
         else
           (let stop1 = sg_end (sj_segment (snd b1));
                b2 = cwk_path_get_next_segment_joined st ps (snd b1) in
            if \<not> fst b2 then stop1
            else (let o2 = cwk_path_get_next_segment_joined st qs (snd o1) in
                  if fst o2 then cwk_intersection_loop st ps qs absolute (snd b2) (snd o2) stop1 else stop1))))"
  by pat_completeness auto
termination
proof (relation "measures [\<lambda>(st, ps, qs, absolute, bsj, osj, stop). length ps - sj_index bsj,
      \<lambda>(st, ps, qs, absolute, bsj, osj, stop). sj_left ps bsj]", goal_cases)
  case (2 st ps qs absolute bsj osj stop b1 o1 stop1 b2 o2)
  then have "cwk_skip_invisible st ps absolute bsj = (True, snd b1)"
    "cwk_path_get_next_segment_joined st ps (snd b1) = (True, snd b2)" by (simp_all add: prod_eq_iff)
  from skip_next_order [OF this] show ?case by (auto simp: sj_order_def)
qed simp

declare cwk_intersection_loop.simps [simp del]

definition cwk_path_get_intersection :: "cwk_path_style \<Rightarrow> string \<Rightarrow> string \<Rightarrow> nat" where
  "cwk_path_get_intersection st path_base path_other =
     (let base_root = cwk_path_get_root st path_base;
          other_root = cwk_path_get_root st path_other in
      if \<not> cwk_path_is_string_equal st path_base 0 path_other 0 base_root other_root then 0
      else
        (let b = cwk_path_get_first_segment_joined st [path_base];
             q = cwk_path_get_first_segment_joined st [path_other] in
         if \<not> fst b \<or> \<not> fst q then base_root
         else cwk_intersection_loop st [path_base] [path_other]
                (cwk_path_is_root_absolute st path_base base_root) (snd b) (snd q) base_root))"

section \<open>Parts of a path\<close>

definition cwk_path_change_root :: "cwk_path_style \<Rightarrow> string \<Rightarrow> string \<Rightarrow> char list \<Rightarrow> nat \<times> char list" where
  "cwk_path_change_root st path new_root buf =
     (let root_length = cwk_path_get_root st path;
          tail = drop root_length path;
          (_, buf1) = cwk_path_output_sized buf (length new_root) tail;
          (_, buf2) = cwk_path_output_sized buf1 0 new_root;
          size = length tail + length new_root
      in (size, cwk_path_terminate_output buf2 size))"

text \<open>Offset and length of the last segment; \<open>None\<close> stands for the \<open>NULL\<close> and 0 of the source.\<close>

definition cwk_path_get_basename :: "cwk_path_style \<Rightarrow> string \<Rightarrow> (nat \<times> nat) option" where
  "cwk_path_get_basename st path =
     (let (r, seg) = cwk_path_get_last_segment st path
      in if r then Some (sg_begin seg, sg_size seg) else None)"

definition cwk_path_get_dirname :: "cwk_path_style \<Rightarrow> string \<Rightarrow> nat" where
  "cwk_path_get_dirname st path =
     (let (r, seg) = cwk_path_get_last_segment st path in if r then sg_begin seg else 0)"

text \<open>A new segment value loses the separators at both of its ends.\<close>

definition cwk_trim_value :: "cwk_path_style \<Rightarrow> string \<Rightarrow> string" where
  "cwk_trim_value st v =
     rev (dropWhile (cwk_path_is_separator st) (rev (dropWhile (cwk_path_is_separator st) v)))"

definition cwk_path_change_segment ::
  "cwk_path_style \<Rightarrow> string \<Rightarrow> cwk_segment \<Rightarrow> string \<Rightarrow> char list \<Rightarrow> nat \<times> char list" where
  "cwk_path_change_segment st path seg v buf =
     (let (pos, buf1) = cwk_path_output_sized buf 0 (take (sg_begin seg) path);
          v1 = cwk_trim_value st v;
          tail = drop (sg_end seg) path;
          (_, buf2) = cwk_path_output_sized buf1 (pos + length v1) tail;
          (n, buf3) = cwk_path_output_sized buf2 pos v1;
          size = pos + n + length tail
      in (size, cwk_path_terminate_output buf3 size))"

definition cwk_path_change_basename :: "cwk_path_style \<Rightarrow> string \<Rightarrow> string \<Rightarrow> char list \<Rightarrow> nat \<times> char list" where
  "cwk_path_change_basename st path new_basename buf =
     (let (r, seg) = cwk_path_get_last_segment st path in
      if \<not> r then
        (let (pos, buf1) = cwk_path_output_sized buf 0 (take (cwk_path_get_root st path) path);
             (n, buf2) = cwk_path_output_sized buf1 pos (cwk_trim_value st new_basename)
         in (pos + n, cwk_path_terminate_output buf2 (pos + n)))
      else cwk_path_change_segment st path seg new_basename buf)"

function cwk_extension_loop :: "string \<Rightarrow> nat \<Rightarrow> nat \<Rightarrow> nat option" where
  "cwk_extension_loop s b c =
     (if c < b then None
      else if c_at s c = CHR ''.'' then Some c
      else if c = 0 then None else cwk_extension_loop s b (c - 1))"
  by pat_completeness auto
termination
  by (relation "measure (\<lambda>(s, b, c). c)") auto

declare cwk_extension_loop.simps [simp del]

definition cwk_path_get_extension :: "cwk_path_style \<Rightarrow> string \<Rightarrow> (nat \<times> nat) option" where
  "cwk_path_get_extension st path =
     (let (r, seg) = cwk_path_get_last_segment st path in
      if \<not> r then None
      else case cwk_extension_loop path (sg_begin seg) (sg_end seg) of
        None \<Rightarrow> None | Some c \<Rightarrow> Some (c, sg_end seg - c))"

definition cwk_path_has_extension :: "cwk_path_style \<Rightarrow> string \<Rightarrow> bool" where
  "cwk_path_has_extension st path = (cwk_path_get_extension st path \<noteq> None)"

definition cwk_path_change_extension :: "cwk_path_style \<Rightarrow> string \<Rightarrow> string \<Rightarrow> char list \<Rightarrow> nat \<times> char list" where
  "cwk_path_change_extension st path new_extension buf =
     (let (r, seg) = cwk_path_get_last_segment st path in
      if \<not> r then
        (let (pos, buf1) = cwk_path_output_sized buf 0 (take (cwk_path_get_root st path) path);
             (n1, buf2) = (if c_at new_extension 0 \<noteq> CHR ''.'' then cwk_path_output_dot buf1 pos else (0, buf1));
             (n2, buf3) = cwk_path_output buf2 (pos + n1) new_extension
         in (pos + n1 + n2, cwk_path_terminate_output buf3 (pos + n1 + n2)))
      else
        (let old_extension = fold (\<lambda>c acc. if c_at path c = CHR ''.'' then c else acc)
               [sg_begin seg..<sg_end seg] (sg_end seg);
             (pos, buf1) = cwk_path_output_sized buf 0 (take old_extension path);
             ext = (if c_at new_extension 0 = CHR ''.'' then drop 1 new_extension else new_extension);
             (trail, buf2) = cwk_path_output buf1 (pos + (length ext + 1)) (drop (sg_end seg) path);
             (n1, buf3) = cwk_path_output_dot buf2 pos;
             (n2, buf4) = cwk_path_output buf3 (pos + n1) ext;
             size = pos + n1 + n2 + trail
         in (size, cwk_path_terminate_output buf4 size)))"

text \<open>\<open>st\<close> is the style set at the moment: the last segment is looked up with it.\<close>

definition cwk_path_guess_style :: "cwk_path_style \<Rightarrow> string \<Rightarrow> cwk_path_style" where
  "cwk_path_guess_style st path =
     (if cwk_path_get_root_windows path > 1 then CWK_STYLE_WINDOWS
      else case List.find (\<lambda>c. c = hd (separators CWK_STYLE_UNIX) \<or> c = hd (separators CWK_STYLE_WINDOWS)) path of
        Some c \<Rightarrow> if c = hd (separators CWK_STYLE_UNIX) then CWK_STYLE_UNIX else CWK_STYLE_WINDOWS
      | None \<Rightarrow>
          (let (r, seg) = cwk_path_get_last_segment st path in
           if \<not> r then CWK_STYLE_UNIX
           else if c_at path (sg_begin seg) = CHR ''.'' then CWK_STYLE_UNIX
           else if list_ex (\<lambda>c. c = CHR ''.'') (drop (sg_begin seg) path) then CWK_STYLE_WINDOWS
           else CWK_STYLE_UNIX))"

end
