(* ===== verification/CwalkSegments.thy ===== *)
theory CwalkSegments
  imports Cwalk
begin

text \<open>
  What the cursors of cwalk point at. A path is the list of its segments, the maximal
  stretches without a separator after its root; a cursor splits that list into the segments
  before it, the one it is on and those after it, and the moves of \<^verbatim>\<open>cwalk.c\<close> move that
  split by one. The same holds for the cursors over several joined paths.
\<close>

section \<open>Segments of one path\<close>

function toks :: "(char \<Rightarrow> bool) \<Rightarrow> string \<Rightarrow> string list" where
  "toks P [] = []"
| "toks P (c # s) =
     (if P c then toks P s
      else (c # takeWhile (\<lambda>d. \<not> P d) s) # toks P (dropWhile (\<lambda>d. \<not> P d) s))"
  by pat_completeness auto
termination
  by (relation "measure (\<lambda>(P, s). length s)") (auto simp: length_dropWhile_le le_imp_less_Suc)

lemma toks_sep [simp]: "P c \<Longrightarrow> toks P (c # s) = toks P s"
  by simp

lemma toks_word:
  assumes "w \<noteq> []" and "list_all (\<lambda>d. \<not> P d) w" and "post = [] \<or> P (hd post)"
  shows "toks P (w @ post) = w # toks P post"
proof -
  obtain c v where w: "w = c # v" using assms(1) by (cases w) auto
  have "takeWhile (\<lambda>d. \<not> P d) (v @ post) = v" "dropWhile (\<lambda>d. \<not> P d) (v @ post) = post"
    using assms by (cases post; auto simp: w list_all_iff takeWhile_append dropWhile_append)+
  with assms show ?thesis by (simp add: w)
qed

lemma toks_append_sep: "P d \<Longrightarrow> toks P (pre @ d # post) = toks P pre @ toks P post"
proof (induction P pre rule: toks.induct)
  case (1 P)
  then show ?case by simp
next
  case (2 P c s)
  show ?case
  proof (cases "P c")
    case True
    with 2 show ?thesis by simp
  next
    case False
    have tw: "takeWhile (\<lambda>d. \<not> P d) (s @ d # post) = takeWhile (\<lambda>d. \<not> P d) s"
      using 2(3) by (induction s) auto
    have dw: "dropWhile (\<lambda>d. \<not> P d) (s @ d # post) =
        (if list_all (\<lambda>d. \<not> P d) s then d # post else dropWhile (\<lambda>d. \<not> P d) s @ d # post)"
      using 2(3) by (induction s) auto
    show ?thesis
    proof (cases "list_all (\<lambda>d. \<not> P d) s")
      case True
      then have nil: "dropWhile (\<lambda>d. \<not> P d) s = []" by (simp add: list_all_iff)
      have "toks P (dropWhile (\<lambda>d. \<not> P d) s) = []" by (simp only: nil toks.simps)
      with True 2 False tw dw show ?thesis by simp
    next
      case nall: False
      with 2 False tw dw show ?thesis by simp
    qed
  qed
qed

lemma toks_append:
  "pre = [] \<or> P (last pre) \<Longrightarrow> toks P (pre @ post) = toks P pre @ toks P post"
proof (cases pre rule: rev_cases)
  case (snoc ys d)
  assume "pre = [] \<or> P (last pre)"
  then have "P d" using snoc by simp
  then show ?thesis using toks_append_sep [of P d ys post] toks_append_sep [of P d ys "[]"] snoc by simp
qed simp

lemma toks_all_sep: "list_all P s \<Longrightarrow> toks P s = []"
  by (induction s) auto

lemma toks_words: "w \<in> set (toks P s) \<Longrightarrow> w \<noteq> [] \<and> list_all (\<lambda>d. \<not> P d) w \<and> set w \<subseteq> set s"
proof (induction P s rule: toks.induct)
  case (1 P)
  then show ?case by simp
next
  case (2 P c s)
  show ?case
  proof (cases "P c")
    case True
    with 2 show ?thesis by auto
  next
    case False
    let ?v = "takeWhile (\<lambda>d. \<not> P d) s" and ?rest = "dropWhile (\<lambda>d. \<not> P d) s"
    have sub: "set ?v \<subseteq> set s" "set ?rest \<subseteq> set s"
      by (auto dest: set_takeWhileD set_dropWhileD)
    have v: "list_all (\<lambda>d. \<not> P d) ?v" by (auto simp: list_all_iff dest: set_takeWhileD)
    from 2(3) False consider "w = c # ?v" | "w \<in> set (toks P ?rest)" by auto
    then show ?thesis
    proof cases
      case 1
      with False v sub show ?thesis by auto
    next
      case w: 2
      from 2(2) [OF False w] sub show ?thesis by auto
    qed
  qed
qed

text \<open>Taking the first and the last segment off.\<close>

lemma toks_first:
  obtains (none) "list_all P s" "toks P s = []"
    | (some) seps w post where "s = seps @ w @ post" "list_all P seps" "w \<noteq> []" "list_all (\<lambda>d. \<not> P d) w"
      "post = [] \<or> P (hd post)" "toks P s = w # toks P post"
proof -
  let ?rest = "dropWhile P s" and ?Q = "\<lambda>d. \<not> P d"
  have s: "s = takeWhile P s @ ?rest" by simp
  have seps: "list_all P (takeWhile P s)" by (auto simp: list_all_iff dest: set_takeWhileD)
  show ?thesis
  proof (cases "?rest = []")
    case True
    then have "list_all P s" using seps s by (metis append_Nil2)
    with none toks_all_sep show ?thesis by blast
  next
    case False
    let ?w = "takeWhile ?Q ?rest" and ?post = "dropWhile ?Q ?rest"
    have hd: "\<not> P (hd ?rest)" using False hd_dropWhile by blast
    have w: "?w \<noteq> []" using False hd by (cases ?rest) auto
    have post: "?post = [] \<or> P (hd ?post)" using hd_dropWhile [of ?Q ?rest] by blast
    have allw: "list_all ?Q ?w" by (auto simp: list_all_iff dest: set_takeWhileD)
    have "toks P s = toks P (takeWhile P s) @ toks P (?w @ ?post)"
    proof -
      have "takeWhile P s = [] \<or> P (last (takeWhile P s))"
        using seps by (cases "takeWhile P s" rule: rev_cases) (auto simp: list_all_iff)
      from toks_append [where P = P, OF this, of ?rest] show ?thesis by simp
    qed
    then have "toks P s = ?w # toks P ?post"
      using toks_all_sep [OF seps] toks_word [OF w allw post] by simp
    with some [of "takeWhile P s" ?w ?post] seps w allw post show ?thesis by simp
  qed
qed

lemma toks_rev: "toks P (rev s) = rev (map rev (toks P s))"
proof (induction "length s" arbitrary: s rule: less_induct)
  case less
  show ?case
  proof (cases rule: toks_first [where P = P and s = s])
    case none
    then show ?thesis by (simp add: toks_all_sep list_all_iff)
  next
    case (some seps w post)
    have IH: "toks P (rev post) = rev (map rev (toks P post))"
      using less [of post] some by simp
    have "rev post = [] \<or> P (last (rev post))" using some(5) by (simp add: last_rev)
    then have "toks P (rev s) = toks P (rev post) @ toks P (rev w @ rev seps)"
      using toks_append [of "rev post" P "rev w @ rev seps"] by (simp add: some(1))
    moreover have "toks P (rev w @ rev seps) = [rev w]"
      using toks_word [of "rev w" P "rev seps"] some(2,3,4) toks_all_sep [of P "rev seps"]
      by (cases seps rule: rev_cases) (auto simp: list_all_iff)
    ultimately show ?thesis using IH some(6) by simp
  qed
qed

lemma toks_last:
  obtains (none) "list_all P s" "toks P s = []"
    | (some) pre w seps where "s = pre @ w @ seps" "list_all P seps" "w \<noteq> []" "list_all (\<lambda>d. \<not> P d) w"
      "pre = [] \<or> P (last pre)" "toks P s = toks P pre @ [w]"
proof (cases rule: toks_first [where P = P and s = "rev s"])
  case none
  then show ?thesis using that(1) by (simp add: toks_rev)
next
  case (some seps w post)
  have "s = rev post @ rev w @ rev seps" using some(1) by (metis append.assoc rev_append rev_rev_ident)
  moreover have "rev post = [] \<or> P (last (rev post))" using some(5) by (simp add: last_rev)
  moreover have "toks P s = toks P (rev post) @ [rev w]"
    using toks_rev [of P "rev s"] toks_rev [of P post] some(6) by simp
  ultimately show ?thesis using that(2) [of "rev post" "rev w" "rev seps"] some by (auto simp: list_all_iff)
qed

section \<open>The scanning loops\<close>

lemma c_at_hd_sep: "post = [] \<or> cwk_path_is_separator st (hd post) \<Longrightarrow>
    c_at post 0 = NUL \<or> cwk_path_is_separator st (c_at post 0)"
  by (auto simp: c_at_0)

lemma next_stop_word:
  "list_all (\<lambda>d. \<not> cwk_path_is_separator st d) w \<Longrightarrow> nonul w \<Longrightarrow>
   post = [] \<or> cwk_path_is_separator st (hd post) \<Longrightarrow>
     cwk_path_find_next_stop st (u @ w @ post) (length u) = length u + length w"
proof (induction w arbitrary: u)
  case Nil
  then have "c_at (u @ post) (length u) = NUL \<or> cwk_path_is_separator st (c_at (u @ post) (length u))"
    using c_at_hd_sep [of post st] by (simp add: c_at_append0)
  then show ?case by (subst cwk_path_find_next_stop.simps) auto
next
  case (Cons x w)
  then have IH: "cwk_path_find_next_stop st ((u @ [x]) @ w @ post) (length (u @ [x])) = length (u @ [x]) + length w"
    by (intro Cons.IH) auto
  have "c_at (u @ (x # w) @ post) (length u) = x" by (simp add: c_at_append0 c_at_0)
  with Cons.prems IH show ?case by (subst cwk_path_find_next_stop.simps) simp
qed

lemma skip_separators_all:
  "list_all (cwk_path_is_separator st) seps \<Longrightarrow> post = [] \<or> \<not> cwk_path_is_separator st (hd post) \<Longrightarrow>
     cwk_skip_separators st (u @ seps @ post) (length u) = length u + length seps"
proof (induction seps arbitrary: u)
  case Nil
  then have "\<not> cwk_path_is_separator st (c_at (u @ post) (length u))"
    by (auto simp: c_at_append0 c_at_0)
  then show ?case by (subst cwk_skip_separators.simps) auto
next
  case (Cons x seps)
  then have IH: "cwk_skip_separators st ((u @ [x]) @ seps @ post) (length (u @ [x])) = length (u @ [x]) + length seps"
    by (intro Cons.IH) auto
  have "c_at (u @ (x # seps) @ post) (length u) = x" by (simp add: c_at_append0 c_at_0)
  with Cons.prems IH show ?case by (subst cwk_skip_separators.simps) simp
qed

lemma skip_to_segment_word:
  "list_all (cwk_path_is_separator st) seps \<Longrightarrow> nonul seps \<Longrightarrow> w \<noteq> [] \<Longrightarrow>
   list_all (\<lambda>d. \<not> cwk_path_is_separator st d) w \<Longrightarrow> nonul w \<Longrightarrow>
     cwk_skip_to_segment st (u @ seps @ w @ post) (length u) = Some (length u + length seps)"
proof (induction seps arbitrary: u)
  case Nil
  then have "\<not> cwk_path_is_separator st (c_at (u @ w @ post) (length u))"
    by (cases w) (auto simp: c_at_append0 c_at_0)
  then show ?case by (subst cwk_skip_to_segment.simps) auto
next
  case (Cons x seps)
  then have IH: "cwk_skip_to_segment st ((u @ [x]) @ seps @ w @ post) (length (u @ [x])) =
      Some (length (u @ [x]) + length seps)"
    by (intro Cons.IH) auto
  have x: "c_at (u @ (x # seps) @ w @ post) (length u) = x" by (simp add: c_at_append0 c_at_0)
  have "c_at (u @ (x # seps) @ w @ post) (Suc (length u)) = c_at (seps @ w @ post) 0"
    using c_at_append0 [of "u @ [x]" "seps @ w @ post"] by simp
  then have "c_at (u @ (x # seps) @ w @ post) (Suc (length u)) \<noteq> NUL"
    using Cons.prems by (cases seps; cases w) (auto simp: c_at_0)
  with Cons.prems IH x show ?case by (subst cwk_skip_to_segment.simps) simp
qed

lemma skip_to_segment_none:
  "list_all (cwk_path_is_separator st) seps \<Longrightarrow> seps \<noteq> [] \<Longrightarrow> nonul seps \<Longrightarrow>
     cwk_skip_to_segment st (u @ seps) (length u) = None"
proof (induction seps arbitrary: u)
  case Nil
  then show ?case by simp
next
  case (Cons x seps)
  have x: "c_at (u @ x # seps) (length u) = x" by (simp add: c_at_append0 c_at_0)
  have n: "c_at (u @ x # seps) (Suc (length u)) = c_at seps 0"
    using c_at_append0 [of "u @ [x]" seps] by simp
  show ?case
  proof (cases "seps = []")
    case True
    with Cons.prems x n show ?thesis by (subst cwk_skip_to_segment.simps) (simp add: c_at_0)
  next
    case False
    with Cons.prems have IH: "cwk_skip_to_segment st ((u @ [x]) @ seps) (length (u @ [x])) = None"
      by (intro Cons.IH) auto
    from False Cons.prems n have "c_at (u @ x # seps) (Suc (length u)) \<noteq> NUL" by (cases seps) (auto simp: c_at_0)
    with Cons.prems IH x show ?thesis by (subst cwk_skip_to_segment.simps) simp
  qed
qed

lemma previous_char_word:
  "list_all (cwk_path_is_separator st) seps \<Longrightarrow> w \<noteq> [] \<Longrightarrow> \<not> cwk_path_is_separator st (last w) \<Longrightarrow>
     cwk_previous_char_loop st ((h @ w) @ seps @ post) (length h) (length (h @ w) + length seps) =
       Some (length (h @ w) - 1)"
proof (induction seps arbitrary: post rule: rev_induct)
  case Nil
  have "c_at ((h @ w) @ post) (length (h @ w) - 1) = last w"
    using Nil by (cases w rule: rev_cases) (simp_all add: c_at_def nth_append)
  with Nil show ?case by (subst cwk_previous_char_loop.simps) simp
next
  case (snoc x seps)
  have "c_at ((h @ w) @ (seps @ [x]) @ post) (length (h @ w) + length seps) = x"
    using c_at_append0 [of "h @ w @ seps" "x # post"] by (simp add: c_at_0 add.assoc)
  with snoc.prems snoc.IH [of "x # post"] show ?case
    by (subst cwk_previous_char_loop.simps) simp
qed

lemma previous_char_none:
  "list_all (cwk_path_is_separator st) seps \<Longrightarrow>
     cwk_previous_char_loop st (h @ seps @ post) (length h) (length h + length seps) = None"
proof (induction seps arbitrary: post rule: rev_induct)
  case Nil
  show ?case by (subst cwk_previous_char_loop.simps) simp
next
  case (snoc x seps)
  have "c_at (h @ (seps @ [x]) @ post) (length h + length seps) = x"
    using c_at_append0 [of "h @ seps" "x # post"] by (simp add: c_at_0 add.assoc)
  with snoc.prems snoc.IH [of "x # post"] show ?case
    by (subst cwk_previous_char_loop.simps) simp
qed

lemma previous_stop_word:
  assumes "list_all (\<lambda>d. \<not> cwk_path_is_separator st d) w" and "w \<noteq> []"
    and "pre = [] \<or> cwk_path_is_separator st (last pre)"
  shows "cwk_path_find_previous_stop st ((h @ pre) @ w @ post) (length h) (length (h @ pre) + length w - 1) =
    length (h @ pre)"
  using assms(1,2)
proof (induction w arbitrary: post rule: rev_induct)
  case Nil
  then show ?case by simp
next
  case (snoc x w)
  let ?s = "(h @ pre) @ (w @ [x]) @ post" and ?c = "length (h @ pre) + length w"
  have x: "c_at ?s ?c = x" using c_at_append0 [of "h @ pre @ w" "x # post"] by (simp add: c_at_0 add.assoc)
  show ?case
  proof (cases "w = []")
    case True
    show ?thesis
    proof (cases "pre = []")
      case True
      with \<open>w = []\<close> x snoc.prems show ?thesis
        by (simp add: cwk_path_find_previous_stop_def cwk_previous_stop_loop.simps)
    next
      case False
      have l: "c_at ?s (?c - 1) = last pre"
        using False \<open>w = []\<close> by (cases pre rule: rev_cases) (simp_all add: c_at_def nth_append)
      have "cwk_previous_stop_loop st ?s (length h) ?c = ?c - 1"
        using False \<open>w = []\<close> x l snoc.prems assms(3)
        by (subst cwk_previous_stop_loop.simps, subst cwk_previous_stop_loop.simps) simp
      with l False assms(3) \<open>w = []\<close> show ?thesis
        by (simp add: cwk_path_find_previous_stop_def)
    qed
  next
    case False
    from snoc.IH [of "x # post"] False snoc.prems
    have IH: "cwk_path_find_previous_stop st ?s (length h) (?c - 1) = length (h @ pre)" by simp
    have "cwk_previous_stop_loop st ?s (length h) ?c = cwk_previous_stop_loop st ?s (length h) (?c - 1)"
      using False x snoc.prems by (subst cwk_previous_stop_loop.simps) simp
    with IH show ?thesis by (simp add: cwk_path_find_previous_stop_def)
  qed
qed

section \<open>A cursor on one path\<close>

text \<open>
  \<open>seg_at st s r seg before w after\<close>: the cursor \<open>seg\<close> is on the segment \<open>w\<close> of the path
  \<open>s\<close>, whose segments begin at offset \<open>r\<close>, with \<open>before\<close> and \<open>after\<close> around it.
\<close>

definition seg_at ::
  "cwk_path_style \<Rightarrow> string \<Rightarrow> nat \<Rightarrow> cwk_segment \<Rightarrow> string list \<Rightarrow> string \<Rightarrow> string list \<Rightarrow> bool" where
  "seg_at st s r seg before w after \<longleftrightarrow>
     (\<exists>h pre post. s = h @ pre @ w @ post \<and> length h = r \<and>
        seg = \<lparr>sg_segments = r, sg_begin = r + length pre, sg_end = r + length pre + length w, sg_size = length w\<rparr> \<and>
        w \<noteq> [] \<and> list_all (\<lambda>d. \<not> cwk_path_is_separator st d) w \<and>
        (post = [] \<or> cwk_path_is_separator st (hd post)) \<and>
        (pre = [] \<or> cwk_path_is_separator st (last pre)) \<and>
        toks (cwk_path_is_separator st) pre = before \<and> toks (cwk_path_is_separator st) post = after)"

abbreviation path_toks :: "cwk_path_style \<Rightarrow> string \<Rightarrow> string list" where
  "path_toks st \<equiv> toks (cwk_path_is_separator st)"

lemma seg_at_toks: "seg_at st s r seg before w after \<Longrightarrow> path_toks st (drop r s) = before @ w # after"
proof -
  assume "seg_at st s r seg before w after"
  then obtain h pre post where s: "s = h @ pre @ w @ post" "length h = r" and w: "w \<noteq> []"
    "list_all (\<lambda>d. \<not> cwk_path_is_separator st d) w"
    and pp: "post = [] \<or> cwk_path_is_separator st (hd post)" "pre = [] \<or> cwk_path_is_separator st (last pre)"
    "path_toks st pre = before" "path_toks st post = after" by (auto simp: seg_at_def)
  have "drop r s = pre @ w @ post" using s by simp
  then show ?thesis using toks_append [where P = "cwk_path_is_separator st", OF pp(2), of "w @ post"] toks_word [OF w pp(1)] pp(3,4) by simp
qed

lemma first_segment_at:
  assumes "nonul s" and "r \<le> length s"
  shows "case path_toks st (drop r s) of
      [] \<Rightarrow> cwk_path_get_first_segment_without_root st s r =
        (False, \<lparr>sg_segments = r, sg_begin = r, sg_end = r, sg_size = 0\<rparr>)
    | w # ws \<Rightarrow> \<exists>seg. cwk_path_get_first_segment_without_root st s r = (True, seg) \<and> seg_at st s r seg [] w ws"
proof -
  let ?h = "take r s" and ?t = "drop r s"
  have s: "s = ?h @ ?t" and h: "length ?h = r" using assms(2) by simp_all
  have "nonul (?h @ ?t)" using assms(1) by simp
  then have nn: "nonul ?t" by (simp only: nonul_append)
  show ?thesis
  proof (cases rule: toks_first [where P = "cwk_path_is_separator st" and s = ?t])
    case none
    have "cwk_skip_to_segment st s r = None" if "?t \<noteq> []"
      using skip_to_segment_none [OF none(1) that nn, of ?h] s h by simp
    then show ?thesis using none(2) c_at_append0 [of ?h ?t] s h
      by (cases "?t = []") (auto simp: cwk_path_get_first_segment_without_root_def Let_def c_at_0)
  next
    case (some seps w post)
    from nn some(1) have nuls: "nonul seps" "nonul w" by auto
    have sl: "seps = [] \<or> cwk_path_is_separator st (last seps)"
      using some(2) by (cases seps rule: rev_cases) auto
    have s': "s = (?h @ seps) @ w @ post" using s some(1) by simp
    have ne: "c_at s r \<noteq> NUL"
    proof -
      have "c_at s r = hd ?t" using c_at_append0 [of ?h ?t] s h some(1,3) by (simp add: c_at_0)
      moreover have "hd ?t \<in> set ?t" using some(1,3) by (intro hd_in_set) auto
      ultimately show ?thesis using nn by (auto simp: nonul_def)
    qed
    have skip: "cwk_skip_to_segment st s r = Some (r + length seps)"
      using skip_to_segment_word [OF some(2) nuls(1) some(3,4) nuls(2), of ?h post] s' h by simp
    have stop: "cwk_path_find_next_stop st s (r + length seps) = r + length seps + length w"
      using next_stop_word [OF some(4) nuls(2) some(5), of "?h @ seps"] s' h by simp
    have "seg_at st s r \<lparr>sg_segments = r, sg_begin = r + length seps, sg_end = r + length seps + length w,
        sg_size = length w\<rparr> [] w (path_toks st post)"
      unfolding seg_at_def
      by (rule exI [of _ ?h], rule exI [of _ seps], rule exI [of _ post])
        (use s' h some(3,4,5) sl toks_all_sep [OF some(2)] in simp)
    with skip stop ne some(6) show ?thesis
      by (simp add: cwk_path_get_first_segment_without_root_def Let_def)
  qed
qed

lemma hd_nonul: "nonul s \<Longrightarrow> s \<noteq> [] \<Longrightarrow> hd s \<noteq> NUL"
  by (cases s) auto

lemma next_segment_at:
  assumes "nonul s" and "seg_at st s r seg before w after"
  shows "case after of
      [] \<Rightarrow> cwk_path_get_next_segment st s seg = (False, seg)
    | v # vs \<Rightarrow> \<exists>seg'. cwk_path_get_next_segment st s seg = (True, seg') \<and> seg_at st s r seg' (before @ [w]) v vs"
proof -
  from assms(2) obtain h pre post where s: "s = h @ pre @ w @ post" and h: "length h = r"
    and seg: "seg = \<lparr>sg_segments = r, sg_begin = r + length pre, sg_end = r + length pre + length w, sg_size = length w\<rparr>"
    and w: "w \<noteq> []" "list_all (\<lambda>d. \<not> cwk_path_is_separator st d) w"
    and pp: "post = [] \<or> cwk_path_is_separator st (hd post)" "pre = [] \<or> cwk_path_is_separator st (last pre)"
    and tk: "path_toks st pre = before" "path_toks st post = after" by (auto simp: seg_at_def)
  let ?u = "h @ pre @ w" and ?c = "r + length pre + length w"
  have su: "s = ?u @ post" and lu: "length ?u = ?c" using s h by simp_all
  have nn: "nonul post" using assms(1) su by simp
  have c0: "c_at s ?c = c_at post 0" using c_at_append0 [of ?u post] su lu by (simp add: add.assoc)
  show ?thesis
  proof (cases post)
    case Nil
    then show ?thesis using c0 tk(2) by (auto simp: cwk_path_get_next_segment_def Let_def seg c_at_0)
  next
    case (Cons d rest)
    then have d: "cwk_path_is_separator st d" "d \<noteq> NUL" using pp(1) nn by auto
    have after: "path_toks st rest = after" using tk(2) Cons d(1) by simp
    have ne: "c_at s ?c \<noteq> NUL" using c0 Cons d by (simp add: c_at_0)
    have nr: "nonul rest" using nn Cons by simp
    show ?thesis
    proof (cases rule: toks_first [where P = "cwk_path_is_separator st" and s = rest])
      case none
      have "cwk_skip_separators st ((?u @ [d]) @ rest @ []) (length (?u @ [d])) = length (?u @ [d]) + length rest"
        by (rule skip_separators_all) (use none in auto)
      then have skip: "cwk_skip_separators st s (Suc ?c) = length s" using su Cons h by (simp add: add.assoc)
      then show ?thesis using ne after none(2) by (auto simp: cwk_path_get_next_segment_def Let_def seg)
    next
      case (some seps v post')
      have hdv: "post' = [] \<or> cwk_path_is_separator st (hd post')" using some(5) .
      have hv: "\<not> cwk_path_is_separator st (hd v)" using some(3,4) by (cases v) auto
      have nv: "nonul v" "hd v \<noteq> NUL" using nr some(1,3) hd_nonul by auto
      have "cwk_skip_separators st ((?u @ [d]) @ seps @ v @ post') (length (?u @ [d])) = length (?u @ [d]) + length seps"
        by (rule skip_separators_all) (use some(2,3) hv in simp_all)
      then have skip: "cwk_skip_separators st s (Suc ?c) = Suc ?c + length seps" using su Cons h some(1) by (simp add: add.assoc)
      let ?b = "Suc ?c + length seps"
      have cb: "c_at s ?b = hd v"
        using c_at_append0 [of "?u @ d # seps" "v @ post'"] su Cons some(1,3) h by (simp add: c_at_0 add.assoc)
      have stop: "cwk_path_find_next_stop st s ?b = ?b + length v"
        using next_stop_word [OF some(4) nv(1) hdv, of "?u @ d # seps"] su Cons some(1) h by (simp add: add.assoc)
      let ?pre = "pre @ w @ d # seps"
      have last: "cwk_path_is_separator st (last ?pre)"
        using d some(2) by (cases seps rule: rev_cases) auto
      have tpre: "path_toks st ?pre = before @ [w]"
      proof -
        have "path_toks st (w @ d # seps) = [w]"
          using toks_word [where P = "cwk_path_is_separator st" and post = "d # seps", OF w] d toks_all_sep [OF some(2)] by simp
        then show ?thesis using toks_append [where P = "cwk_path_is_separator st", OF pp(2), of "w @ d # seps"] tk(1) by simp
      qed
      let ?seg = "\<lparr>sg_segments = r, sg_begin = ?b, sg_end = ?b + length v, sg_size = length v\<rparr>"
      have "seg_at st s r ?seg (before @ [w]) v (path_toks st post')"
        unfolding seg_at_def
        by (rule exI [of _ h], rule exI [of _ ?pre], rule exI [of _ post'])
          (use s h Cons some(1,3,4,5) last tpre in simp)
      moreover have "cwk_path_get_next_segment st s seg = (True, ?seg)"
        using ne skip stop cb nv by (simp add: cwk_path_get_next_segment_def Let_def seg)
      ultimately show ?thesis using after some(6) by auto
    qed
  qed
qed

lemma previous_segment_at:
  assumes "seg_at st s r seg before w after"
  shows "before = [] \<and> cwk_path_get_previous_segment st s seg = (False, seg) \<or>
    (\<exists>bs v seg'. before = bs @ [v] \<and> cwk_path_get_previous_segment st s seg = (True, seg') \<and>
       seg_at st s r seg' bs v (w # after))"
proof -
  from assms obtain h pre post where s: "s = h @ pre @ w @ post" and h: "length h = r"
    and seg: "seg = \<lparr>sg_segments = r, sg_begin = r + length pre, sg_end = r + length pre + length w, sg_size = length w\<rparr>"
    and w: "w \<noteq> []" "list_all (\<lambda>d. \<not> cwk_path_is_separator st d) w"
    and pp: "post = [] \<or> cwk_path_is_separator st (hd post)" "pre = [] \<or> cwk_path_is_separator st (last pre)"
    and tk: "path_toks st pre = before" "path_toks st post = after" by (auto simp: seg_at_def)
  show ?thesis
  proof (cases rule: toks_last [where P = "cwk_path_is_separator st" and s = pre])
    case none
    then show ?thesis using previous_char_none [OF none(1), of h "w @ post"] s h tk(1)
      by (simp add: cwk_path_get_previous_segment_def seg)
  next
    case (some pre' v seps)
    have lv: "\<not> cwk_path_is_separator st (last v)" using some(3,4) by (simp add: list_all_iff)
    have c: "cwk_previous_char_loop st s r (r + length pre) = Some (r + length pre' + length v - 1)"
      using previous_char_word [OF some(2), of "pre' @ v" h "w @ post"] lv some(1,3) s h by (simp add: add.assoc)
    have b: "cwk_path_find_previous_stop st s r (r + length pre' + length v - 1) = r + length pre'"
      using previous_stop_word [OF some(4,3,5), of h "seps @ w @ post"] s h some(1) by simp
    have seps: "seps \<noteq> []" using pp(2) some(1) lv some(3) by auto
    then have hds: "cwk_path_is_separator st (hd seps)" using some(2) by (simp add: list_all_iff)
    have sw: "path_toks st (seps @ w @ post) = w # after"
    proof -
      have "seps = [] \<or> cwk_path_is_separator st (last seps)" using some(2) seps by (simp add: list_all_iff)
      from toks_append [where P = "cwk_path_is_separator st", OF this, of "w @ post"]
      show ?thesis using toks_all_sep [OF some(2)] toks_word [where P = "cwk_path_is_separator st", OF w pp(1)] tk(2) by simp
    qed
    have len: "r + length pre' + length v - 1 + 1 = r + length pre' + length v" using some(3) by (cases v) auto
    let ?seg = "\<lparr>sg_segments = r, sg_begin = r + length pre', sg_end = r + length pre' + length v, sg_size = length v\<rparr>"
    have "seg_at st s r ?seg (path_toks st pre') v (w # after)"
      unfolding seg_at_def
      by (rule exI [of _ h], rule exI [of _ pre'], rule exI [of _ "seps @ w @ post"])
        (use s h some(1,3,4,5) hds seps sw in simp)
    moreover have "cwk_path_get_previous_segment st s seg = (True, ?seg)"
      using c b len by (simp add: cwk_path_get_previous_segment_def Let_def seg)
    ultimately show ?thesis using tk(1) some(6) by auto
  qed
qed

lemma last_loop_at:
  "nonul s \<Longrightarrow> seg_at st s r seg before w after \<Longrightarrow>
     \<exists>seg' bs v. cwk_last_segment_loop st s seg = seg' \<and> seg_at st s r seg' bs v [] \<and> before @ w # after = bs @ [v]"
proof (induction after arbitrary: seg before w)
  case Nil
  then have "cwk_path_get_next_segment st s seg = (False, seg)" using next_segment_at by fastforce
  then have "cwk_last_segment_loop st s seg = seg" by (subst cwk_last_segment_loop.simps) simp
  with Nil show ?case by auto
next
  case (Cons v vs)
  then obtain seg' where n: "cwk_path_get_next_segment st s seg = (True, seg')" "seg_at st s r seg' (before @ [w]) v vs"
    using next_segment_at by fastforce
  then have "cwk_last_segment_loop st s seg = cwk_last_segment_loop st s seg'"
    by (subst cwk_last_segment_loop.simps) simp
  with Cons.IH [OF Cons.prems(1) n(2)] show ?case by auto
qed

text \<open>The last segment, from a given start of the segments.\<close>

lemma last_segment_from_at:
  assumes "nonul s" and "r \<le> length s"
  shows "(let (b, seg) = cwk_path_get_first_segment_without_root st s r
      in if \<not> b then (False, seg) else (True, cwk_last_segment_loop st s seg)) = res \<Longrightarrow>
    path_toks st (drop r s) = [] \<and> \<not> fst res \<or>
    (\<exists>bs v. path_toks st (drop r s) = bs @ [v] \<and> fst res \<and> seg_at st s r (snd res) bs v [])"
proof (cases "path_toks st (drop r s)")
  case Nil
  assume res: "(let (b, seg) = cwk_path_get_first_segment_without_root st s r
      in if \<not> b then (False, seg) else (True, cwk_last_segment_loop st s seg)) = res"
  have "\<exists>seg. cwk_path_get_first_segment_without_root st s r = (False, seg)"
    using first_segment_at [OF assms, of st] Nil by simp
  then have "\<not> fst res" using res by (elim exE) (auto simp: Let_def)
  with Nil show ?thesis by simp
next
  case (Cons w ws)
  assume res: "(let (b, seg) = cwk_path_get_first_segment_without_root st s r
      in if \<not> b then (False, seg) else (True, cwk_last_segment_loop st s seg)) = res"
  from first_segment_at [OF assms, of st] Cons obtain seg where
    "cwk_path_get_first_segment_without_root st s r = (True, seg)" "seg_at st s r seg [] w ws" by auto
  with res last_loop_at [OF assms(1) this(2)] Cons show ?thesis by auto
qed

section \<open>A cursor on several paths\<close>

lemma next_stop_le: "c \<le> length s \<Longrightarrow> cwk_path_find_next_stop st s c \<le> length s"
proof (induction st s c rule: cwk_path_find_next_stop.induct)
  case (1 st s c)
  then show ?case using not_nul_in_string [of s c] by (subst cwk_path_find_next_stop.simps) auto
qed

lemma skip_separators_le: "c \<le> length s \<Longrightarrow> cwk_skip_separators st s c \<le> length s"
proof (induction st s c rule: cwk_skip_separators.induct)
  case (1 st s c)
  then show ?case using separator_in_string [of st s c] by (subst cwk_skip_separators.simps) auto
qed

lemma get_root_le: "cwk_path_get_root st s \<le> length s"
proof (cases st)
  case CWK_STYLE_UNIX
  then show ?thesis
    by (cases s) (auto simp: cwk_path_get_root_def cwk_path_get_root_unix_def c_at_0)
next
  case CWK_STYLE_WINDOWS
  let ?W = "CWK_STYLE_WINDOWS"
  have le: "2 \<le> length s" if "cwk_path_is_separator ?W (c_at s 1)" using separator_in_string [OF that] by simp
  have le2: "3 \<le> length s" if "c_at s 2 = CHR ''?'' \<or> c_at s 2 = CHR ''.''"
    using that by (auto simp: c_at_def split: if_splits)
  have le3: "Suc i \<le> length s" if "cwk_path_is_separator ?W (c_at s i)" for i using separator_in_string [OF that] by simp
  have colon: "2 \<le> length s" if "c_at s 1 = CHR '':''" using that by (auto simp: c_at_def split: if_splits)
  have stop: "cwk_path_find_next_stop ?W s (cwk_skip_separators ?W s (cwk_path_find_next_stop ?W s c)) \<le> length s"
    if "c \<le> length s" for c
    using that by (intro next_stop_le skip_separators_le)
  show ?thesis
    using CWK_STYLE_WINDOWS le le2 le3 [of 0] le3 [of 2] le3 [of 3] colon
      stop [of 2] stop [of 3] le3 [of "cwk_path_find_next_stop ?W s (cwk_skip_separators ?W s (cwk_path_find_next_stop ?W s 2))"]
      le3 [of "cwk_path_find_next_stop ?W s (cwk_skip_separators ?W s (cwk_path_find_next_stop ?W s 3))"]
    by (simp add: cwk_path_get_root_def cwk_path_get_root_windows_def Let_def)
qed

definition tk :: "cwk_path_style \<Rightarrow> string list \<Rightarrow> nat \<Rightarrow> string list" where
  "tk st paths i = path_toks st (drop (if i = 0 then cwk_path_get_root st (paths ! i) else 0) (paths ! i))"

definition toks_from :: "cwk_path_style \<Rightarrow> string list \<Rightarrow> nat \<Rightarrow> string list" where
  "toks_from st paths i = concat (map (tk st paths) [i..<length paths])"

definition toks_upto :: "cwk_path_style \<Rightarrow> string list \<Rightarrow> nat \<Rightarrow> string list" where
  "toks_upto st paths i = concat (map (tk st paths) [0..<i])"

lemma toks_from_step: "i < length paths \<Longrightarrow> toks_from st paths i = tk st paths i @ toks_from st paths (Suc i)"
  by (simp add: toks_from_def upt_conv_Cons)

lemma toks_from_end [simp]: "length paths \<le> i \<Longrightarrow> toks_from st paths i = []"
  by (simp add: toks_from_def)

lemma toks_upto_step [simp]: "toks_upto st paths (Suc i) = toks_upto st paths i @ tk st paths i"
  by (simp add: toks_upto_def)

lemma toks_upto_0 [simp]: "toks_upto st paths 0 = []"
  by (simp add: toks_upto_def)

text \<open>
  Every path is a C string, and the root of a path that is not the first has no segments in it.
  The second condition holds for all Unix paths; a Windows drive in a later path breaks it.
\<close>

definition paths_ok :: "cwk_path_style \<Rightarrow> string list \<Rightarrow> bool" where
  "paths_ok st paths \<longleftrightarrow> (\<forall>p \<in> set paths. nonul p) \<and>
     (\<forall>i < length paths. path_toks st (drop (cwk_path_get_root st (paths ! i)) (paths ! i)) = tk st paths i)"

lemma paths_ok_unix: "(\<And>p. p \<in> set paths \<Longrightarrow> nonul p) \<Longrightarrow> paths_ok CWK_STYLE_UNIX paths"
proof -
  have "path_toks CWK_STYLE_UNIX (drop (cwk_path_get_root CWK_STYLE_UNIX p) p) = path_toks CWK_STYLE_UNIX p" for p
    by (cases p) (auto simp: cwk_path_get_root_def cwk_path_get_root_unix_def c_at_0)
  then show "(\<And>p. p \<in> set paths \<Longrightarrow> nonul p) \<Longrightarrow> paths_ok CWK_STYLE_UNIX paths"
    by (simp add: paths_ok_def tk_def)
qed

lemma paths_ok_single: "nonul p \<Longrightarrow> paths_ok st [p]"
  by (simp add: paths_ok_def tk_def)

lemma paths_ok_nonul: "paths_ok st paths \<Longrightarrow> i < length paths \<Longrightarrow> nonul (paths ! i)"
  by (simp add: paths_ok_def)

definition sj_at ::
  "cwk_path_style \<Rightarrow> string list \<Rightarrow> cwk_segment_joined \<Rightarrow> string list \<Rightarrow> string \<Rightarrow> string list \<Rightarrow> bool" where
  "sj_at st paths sj before w after \<longleftrightarrow>
     sj_index sj < length paths \<and>
     (\<exists>r b a. seg_at st (paths ! sj_index sj) r (sj_segment sj) b w a \<and>
        tk st paths (sj_index sj) = b @ w # a \<and>
        before = toks_upto st paths (sj_index sj) @ b \<and>
        after = a @ toks_from st paths (Suc (sj_index sj)))"

lemma sj_at_all: "sj_at st paths sj before w after \<Longrightarrow> toks_from st paths 0 = before @ w # after"
proof -
  assume at: "sj_at st paths sj before w after"
  let ?i = "sj_index sj"
  have i: "?i < length paths" using at by (simp add: sj_at_def)
  have split: "toks_from st paths 0 = toks_upto st paths i @ toks_from st paths i" if "i \<le> length paths" for i
  proof -
    have "[0..<length paths] = [0..<i] @ [i..<length paths]"
      using that upt_add_eq_append [of 0 i "length paths - i"] by simp
    then show ?thesis by (simp add: toks_from_def toks_upto_def)
  qed
  have "toks_from st paths 0 = toks_upto st paths ?i @ tk st paths ?i @ toks_from st paths (Suc ?i)"
    using split [of ?i] i toks_from_step [OF i] by simp
  then show ?thesis using at by (auto simp: sj_at_def)
qed

lemma first_joined_loop_at:
  assumes ok: "paths_ok st paths"
  shows "i \<le> length paths \<Longrightarrow> toks_upto st paths i = [] \<Longrightarrow>
    case toks_from st paths i of
      [] \<Rightarrow> \<not> fst (cwk_first_joined_loop st paths i seg)
    | w # ws \<Rightarrow> \<exists>sj. cwk_first_joined_loop st paths i seg = (True, sj) \<and> sj_at st paths sj [] w ws"
proof (induction "length paths - i" arbitrary: i seg)
  case 0
  then have "\<not> fst (cwk_first_joined_loop st paths i seg)" by (subst cwk_first_joined_loop.simps) simp
  with 0 show ?case by simp
next
  case (Suc n)
  then have i: "i < length paths" by simp
  let ?p = "paths ! i" and ?r = "cwk_path_get_root st (paths ! i)"
  have tki: "path_toks st (drop ?r ?p) = tk st paths i" using ok i by (simp add: paths_ok_def)
  have at: "case tk st paths i of
      [] \<Rightarrow> cwk_path_get_first_segment st ?p = (False, \<lparr>sg_segments = ?r, sg_begin = ?r, sg_end = ?r, sg_size = 0\<rparr>)
    | w # ws \<Rightarrow> \<exists>seg. cwk_path_get_first_segment st ?p = (True, seg) \<and> seg_at st ?p ?r seg [] w ws"
    using first_segment_at [OF paths_ok_nonul [OF ok i] get_root_le, of st st]
    unfolding tki cwk_path_get_first_segment_def .
  show ?case
  proof (cases "tk st paths i")
    case Nil
    let ?seg = "\<lparr>sg_segments = ?r, sg_begin = ?r, sg_end = ?r, sg_size = 0\<rparr>"
    have loop: "cwk_first_joined_loop st paths i seg = cwk_first_joined_loop st paths (Suc i) ?seg"
      using i at Nil by (subst cwk_first_joined_loop.simps) simp
    have rest: "toks_from st paths i = toks_from st paths (Suc i)" using Nil toks_from_step [OF i, of st] by simp
    show ?thesis
      unfolding loop rest by (rule Suc.hyps(1)) (use Suc.hyps(2) Suc.prems i Nil in simp_all)
  next
    case (Cons w ws)
    with at obtain seg' where seg': "cwk_path_get_first_segment st ?p = (True, seg')" "seg_at st ?p ?r seg' [] w ws" by auto
    have "cwk_first_joined_loop st paths i seg = (True, \<lparr>sj_segment = seg', sj_index = i\<rparr>)"
      using i seg' by (subst cwk_first_joined_loop.simps) simp
    moreover have "sj_at st paths \<lparr>sj_segment = seg', sj_index = i\<rparr> [] w (ws @ toks_from st paths (Suc i))"
      using i seg' Cons Suc.prems(2) by (auto simp: sj_at_def)
    ultimately show ?thesis using Cons toks_from_step [OF i, of st] by simp
  qed
qed

lemma first_joined_at:
  assumes "paths_ok st paths"
  shows "case toks_from st paths 0 of
      [] \<Rightarrow> \<not> fst (cwk_path_get_first_segment_joined st paths)
    | w # ws \<Rightarrow> \<exists>sj. cwk_path_get_first_segment_joined st paths = (True, sj) \<and> sj_at st paths sj [] w ws"
  unfolding cwk_path_get_first_segment_joined_def by (rule first_joined_loop_at [OF assms]) simp_all

lemma next_joined_loop_at:
  assumes ok: "paths_ok st paths"
  shows "sj_index sj < length paths \<Longrightarrow>
    case toks_from st paths (Suc (sj_index sj)) of
      [] \<Rightarrow> \<not> fst (cwk_next_joined_loop st paths sj)
    | w # ws \<Rightarrow> \<exists>sj'. cwk_next_joined_loop st paths sj = (True, sj') \<and>
        sj_at st paths sj' (toks_upto st paths (Suc (sj_index sj))) w ws"
proof (induction "length paths - sj_index sj" arbitrary: sj)
  case 0
  then show ?case by simp
next
  case (Suc n)
  let ?i = "Suc (sj_index sj)"
  show ?case
  proof (cases "?i < length paths")
    case False
    then have "\<not> fst (cwk_next_joined_loop st paths sj)"
      by (subst cwk_next_joined_loop.simps) simp
    with False show ?thesis by simp
  next
    case i: True
    let ?p = "paths ! ?i"
    have tki: "path_toks st (drop 0 ?p) = tk st paths ?i" by (simp add: tk_def)
    have at: "case tk st paths ?i of
        [] \<Rightarrow> cwk_path_get_first_segment_without_root st ?p 0 = (False, \<lparr>sg_segments = 0, sg_begin = 0, sg_end = 0, sg_size = 0\<rparr>)
      | w # ws \<Rightarrow> \<exists>seg. cwk_path_get_first_segment_without_root st ?p 0 = (True, seg) \<and> seg_at st ?p 0 seg [] w ws"
      using first_segment_at [OF paths_ok_nonul [OF ok i], of 0 st] unfolding tki by simp
    show ?thesis
    proof (cases "tk st paths ?i")
      case Nil
      let ?sj = "sj\<lparr>sj_index := ?i, sj_segment := \<lparr>sg_segments = 0, sg_begin = 0, sg_end = 0, sg_size = 0\<rparr>\<rparr>"
      have loop: "cwk_next_joined_loop st paths sj = cwk_next_joined_loop st paths ?sj"
        using i at Nil by (subst cwk_next_joined_loop.simps) simp
      have rest: "toks_from st paths ?i = toks_from st paths (Suc ?i)" using Nil toks_from_step [OF i, of st] by simp
      have upto: "toks_upto st paths ?i = toks_upto st paths (Suc ?i)" using Nil by simp
      have idx: "sj_index ?sj = ?i" by simp
      show ?thesis
        unfolding loop rest upto using Suc.hyps(1) [of ?sj] Suc.hyps(2) i unfolding idx by simp
    next
      case (Cons w ws)
      with at obtain seg' where seg': "cwk_path_get_first_segment_without_root st ?p 0 = (True, seg')"
        "seg_at st ?p 0 seg' [] w ws" by auto
      have "cwk_next_joined_loop st paths sj = (True, sj\<lparr>sj_index := ?i, sj_segment := seg'\<rparr>)"
        using i seg' by (subst cwk_next_joined_loop.simps) simp
      moreover have "sj_at st paths (sj\<lparr>sj_index := ?i, sj_segment := seg'\<rparr>) (toks_upto st paths ?i) w
          (ws @ toks_from st paths (Suc ?i))"
        using i seg' Cons by (auto simp: sj_at_def simp del: toks_upto_step)
      ultimately show ?thesis using Cons toks_from_step [OF i, of st] by simp
    qed
  qed
qed

text \<open>One step forward moves the split by one segment.\<close>

lemma next_joined_at:
  assumes ok: "paths_ok st paths" and at: "sj_at st paths sj before w after"
  shows "case after of
      [] \<Rightarrow> \<not> fst (cwk_path_get_next_segment_joined st paths sj)
    | v # vs \<Rightarrow> \<exists>sj'. cwk_path_get_next_segment_joined st paths sj = (True, sj') \<and>
        sj_at st paths sj' (before @ [w]) v vs"
proof -
  let ?i = "sj_index sj"
  from at obtain r b a where i: "?i < length paths" and seg: "seg_at st (paths ! ?i) r (sj_segment sj) b w a"
    and tki: "tk st paths ?i = b @ w # a" and ba: "before = toks_upto st paths ?i @ b"
    "after = a @ toks_from st paths (Suc ?i)" by (auto simp: sj_at_def)
  note nn = paths_ok_nonul [OF ok i]
  show ?thesis
  proof (cases a)
    case (Cons v vs)
    then obtain seg' where n: "cwk_path_get_next_segment st (paths ! ?i) (sj_segment sj) = (True, seg')"
      "seg_at st (paths ! ?i) r seg' (b @ [w]) v vs" using next_segment_at [OF nn seg] by auto
    then have "sj_at st paths (sj\<lparr>sj_segment := seg'\<rparr>) (before @ [w]) v (vs @ toks_from st paths (Suc ?i))"
      using i tki ba Cons by (auto simp: sj_at_def)
    with n(1) i Cons ba(2) show ?thesis by (simp add: cwk_path_get_next_segment_joined_def)
  next
    case Nil
    then have "cwk_path_get_next_segment st (paths ! ?i) (sj_segment sj) = (False, sj_segment sj)"
      using next_segment_at [OF nn seg] by simp
    then have loop: "cwk_path_get_next_segment_joined st paths sj = cwk_next_joined_loop st paths sj"
      using i by (simp add: cwk_path_get_next_segment_joined_def)
    have upto: "before @ [w] = toks_upto st paths (Suc ?i)" using ba(1) tki Nil by simp
    have rest: "after = toks_from st paths (Suc ?i)" using ba(2) Nil by simp
    show ?thesis unfolding loop upto rest by (rule next_joined_loop_at [OF ok i])
  qed
qed

lemma last_segment_at_path:
  assumes ok: "paths_ok st paths" and i: "i < length paths"
  shows "tk st paths i = [] \<and> \<not> fst (cwk_last_segment_at st paths i) \<or>
    (\<exists>r bs v. tk st paths i = bs @ [v] \<and> fst (cwk_last_segment_at st paths i) \<and>
       seg_at st (paths ! i) r (snd (cwk_last_segment_at st paths i)) bs v [])"
proof -
  note nn = paths_ok_nonul [OF ok i]
  show ?thesis
  proof (cases "i = 0")
    case True
    have "(let (b, seg) = cwk_path_get_first_segment_without_root st (paths ! i) (cwk_path_get_root st (paths ! i))
        in if \<not> b then (False, seg) else (True, cwk_last_segment_loop st (paths ! i) seg)) = cwk_last_segment_at st paths i"
      unfolding cwk_last_segment_at_def cwk_path_get_last_segment_def cwk_path_get_first_segment_def True by simp
    from last_segment_from_at [OF nn get_root_le this] True show ?thesis unfolding tk_def by auto
  next
    case False
    have "(let (b, seg) = cwk_path_get_first_segment_without_root st (paths ! i) 0
        in if \<not> b then (False, seg) else (True, cwk_last_segment_loop st (paths ! i) seg)) = cwk_last_segment_at st paths i"
      using False by (simp add: cwk_last_segment_at_def cwk_path_get_last_segment_without_root_def)
    from last_segment_from_at [OF nn _ this] False show ?thesis unfolding tk_def by auto
  qed
qed

lemma previous_joined_loop_at:
  assumes ok: "paths_ok st paths"
  shows "sj_index sj < length paths \<Longrightarrow>
    toks_upto st paths (sj_index sj) = [] \<and> \<not> fst (cwk_previous_joined_loop st paths sj) \<or>
    (\<exists>bs v sj'. toks_upto st paths (sj_index sj) = bs @ [v] \<and> cwk_previous_joined_loop st paths sj = (True, sj') \<and>
       sj_at st paths sj' bs v (toks_from st paths (sj_index sj)))"
proof (induction "sj_index sj" arbitrary: sj)
  case 0
  then show ?case by (subst cwk_previous_joined_loop.simps) simp
next
  case (Suc n)
  then have idx: "sj_index sj = Suc n" and n: "n < length paths" by simp_all
  obtain b seg where last: "cwk_last_segment_at st paths n = (b, seg)" by fastforce
  let ?sj = "sj\<lparr>sj_index := n, sj_segment := seg\<rparr>"
  have loop: "cwk_previous_joined_loop st paths sj = (if b then (True, ?sj) else cwk_previous_joined_loop st paths ?sj)"
    using idx last by (subst cwk_previous_joined_loop.simps) (simp add: Let_def)
  from last_segment_at_path [OF ok n] last consider
      (none) "tk st paths n = []" "\<not> b"
    | (some) r bs v where "tk st paths n = bs @ [v]" b "seg_at st (paths ! n) r seg bs v []" by auto
  then show ?case
  proof cases
    case none
    have upto: "toks_upto st paths (sj_index sj) = toks_upto st paths (sj_index ?sj)" using idx none by simp
    have rest: "toks_from st paths (sj_index sj) = toks_from st paths (sj_index ?sj)"
      using idx none toks_from_step [OF n, of st] by simp
    have eq: "cwk_previous_joined_loop st paths sj = cwk_previous_joined_loop st paths ?sj" using loop none by simp
    show ?thesis unfolding upto rest eq by (rule Suc.hyps(1)) (use n in simp_all)
  next
    case some
    have "sj_at st paths ?sj (toks_upto st paths n @ bs) v (toks_from st paths (sj_index sj))"
      using n some idx by (auto simp: sj_at_def)
    with loop some idx show ?thesis by auto
  qed
qed

text \<open>One step back moves the split by one segment.\<close>

lemma previous_joined_at:
  assumes ok: "paths_ok st paths" and at: "sj_at st paths sj before w after"
  shows "before = [] \<and> \<not> fst (cwk_path_get_previous_segment_joined st paths sj) \<or>
    (\<exists>bs v sj'. before = bs @ [v] \<and> cwk_path_get_previous_segment_joined st paths sj = (True, sj') \<and>
       sj_at st paths sj' bs v (w # after))"
proof -
  let ?i = "sj_index sj"
  from at obtain r b a where i: "?i < length paths" and seg: "seg_at st (paths ! ?i) r (sj_segment sj) b w a"
    and tki: "tk st paths ?i = b @ w # a" and ba: "before = toks_upto st paths ?i @ b"
    "after = a @ toks_from st paths (Suc ?i)" by (auto simp: sj_at_def)
  have ne: "paths \<noteq> []" using i by auto
  from previous_segment_at [OF seg] consider
      (none) "b = []" "cwk_path_get_previous_segment st (paths ! ?i) (sj_segment sj) = (False, sj_segment sj)"
    | (some) bs v seg' where "b = bs @ [v]" "cwk_path_get_previous_segment st (paths ! ?i) (sj_segment sj) = (True, seg')"
      "seg_at st (paths ! ?i) r seg' bs v (w # a)" by auto
  then show ?thesis
  proof cases
    case none
    have loop: "cwk_path_get_previous_segment_joined st paths sj = cwk_previous_joined_loop st paths sj"
      using none ne by (simp add: cwk_path_get_previous_segment_joined_def)
    have "before = toks_upto st paths ?i" "w # after = toks_from st paths ?i"
      using ba none tki toks_from_step [OF i, of st] by simp_all
    then show ?thesis using previous_joined_loop_at [OF ok i] unfolding loop by simp
  next
    case some
    have "sj_at st paths (sj\<lparr>sj_segment := seg'\<rparr>) (toks_upto st paths ?i @ bs) v (w # after)"
      using i some tki ba by (auto simp: sj_at_def)
    with some ne ba(1) show ?thesis by (auto simp: cwk_path_get_previous_segment_joined_def)
  qed
qed

section \<open>What the current segment is\<close>

definition word_type :: "string \<Rightarrow> cwk_segment_type" where
  "word_type w = (if w = ''.'' then CWK_CURRENT else if w = ''..'' then CWK_BACK else CWK_NORMAL)"

lemma strncmp_word:
  "nonul w \<Longrightarrow> nonul t \<Longrightarrow> c_strncmp_eq (u @ w @ v) (length u) (t' @ t) (length t') (length w) \<longleftrightarrow> (\<exists>z. t = w @ z)"
proof (induction w arbitrary: u t t')
  case Nil
  then show ?case by simp
next
  case (Cons x w)
  have x: "c_at (u @ (x # w) @ v) (length u) = x" by (simp add: c_at_append0 c_at_0)
  show ?case
  proof (cases t)
    case Nil
    with Cons.prems x show ?thesis by (simp add: c_at_append0 c_at_0)
  next
    case (Cons y t1)
    with Cons.prems Cons.IH [of t1 "u @ [x]" "t' @ [y]"] x
    show ?thesis by (auto simp: c_at_append0 c_at_0)
  qed
qed

lemma segment_type_at:
  assumes "nonul s" and "seg_at st s r seg before w after"
  shows "cwk_path_get_segment_type s seg = word_type w"
proof -
  from assms(2) obtain h pre post where s: "s = h @ pre @ w @ post" "length h = r"
    and seg: "seg = \<lparr>sg_segments = r, sg_begin = r + length pre, sg_end = r + length pre + length w, sg_size = length w\<rparr>"
    and w: "w \<noteq> []" by (auto simp: seg_at_def)
  have nw: "nonul w" using assms(1) s by simp
  have cmp: "c_strncmp_eq s (sg_begin seg) t 0 (sg_size seg) \<longleftrightarrow> (\<exists>z. t = w @ z)" if "nonul t" for t
    using strncmp_word [OF nw that, of "h @ pre" post "[]"] s seg by simp
  have "(\<exists>z. ''.'' = w @ z) \<longleftrightarrow> w = ''.''" "w \<noteq> ''.'' \<Longrightarrow> (\<exists>z. ''..'' = w @ z) \<longleftrightarrow> w = ''..''"
    using w by (auto simp: Cons_eq_append_conv)
  then show ?thesis by (simp add: cwk_path_get_segment_type_def cmp word_type_def)
qed

lemma sj_type_at:
  "paths_ok st paths \<Longrightarrow> sj_at st paths sj before w after \<Longrightarrow> sj_type paths sj = word_type w"
  using segment_type_at paths_ok_nonul by (fastforce simp: sj_at_def sj_type_def)

lemma sj_text_at:
  "sj_at st paths sj before w after \<Longrightarrow>
     c_sub (paths ! sj_index sj) (sg_begin (sj_segment sj)) (sg_size (sj_segment sj)) = w"
proof -
  assume "sj_at st paths sj before w after"
  then obtain r b a where "seg_at st (paths ! sj_index sj) r (sj_segment sj) b w a"
    by (auto simp: sj_at_def)
  then obtain h pre post where "paths ! sj_index sj = h @ pre @ w @ post" "length h = r"
    "sg_begin (sj_segment sj) = r + length pre" "sg_size (sj_segment sj) = length w"
    unfolding seg_at_def by (elim exE conjE) simp
  then show ?thesis using c_sub_mid [of "h @ pre" w post] by simp
qed

end
