(* ===== verification/CwalkNormalize.thy ===== *)
theory CwalkNormalize
  imports CwalkSegments
begin

text \<open>
  Normalization. The code decides for each segment by itself, walking back and forth from it,
  whether it is written; the specification resolves the segments with a stack. The two agree,
  for one path in either style and for several Unix paths. From the specification follow that
  a normal form is normal, that normalizing again changes nothing, and that a normalized path
  leads where the path itself leads.
\<close>

section \<open>The removal tests on lists of segments\<close>

fun back_removed :: "string list \<Rightarrow> int \<Rightarrow> bool" where
  "back_removed [] c = False"
| "back_removed (x # xs) c =
     (case word_type x of
        CWK_NORMAL \<Rightarrow> c + 1 > 0 \<or> back_removed xs (c + 1)
      | CWK_BACK \<Rightarrow> back_removed xs (c - 1)
      | CWK_CURRENT \<Rightarrow> back_removed xs c)"

fun normal_removed :: "string list \<Rightarrow> int \<Rightarrow> bool" where
  "normal_removed [] c = False"
| "normal_removed (x # xs) c =
     (case word_type x of
        CWK_NORMAL \<Rightarrow> normal_removed xs (c + 1)
      | CWK_BACK \<Rightarrow> c - 1 < 0 \<or> normal_removed xs (c - 1)
      | CWK_CURRENT \<Rightarrow> normal_removed xs c)"

definition word_removed :: "bool \<Rightarrow> string list \<Rightarrow> string \<Rightarrow> string list \<Rightarrow> bool" where
  "word_removed absolute before w after =
     (case word_type w of
        CWK_CURRENT \<Rightarrow> True
      | CWK_BACK \<Rightarrow> absolute \<or> back_removed (rev before) 0
      | CWK_NORMAL \<Rightarrow> normal_removed after 0)"

lemma back_removed_loop_at:
  "paths_ok st paths \<Longrightarrow> sj_at st paths sj before w after \<Longrightarrow>
     cwk_back_removed_loop st paths sj c = back_removed (rev before) c"
proof (induction before arbitrary: sj w after c rule: rev_induct)
  case Nil
  then have "\<not> fst (cwk_path_get_previous_segment_joined st paths sj)"
    using previous_joined_at by fastforce
  then show ?case by (subst cwk_back_removed_loop.simps) simp
next
  case (snoc x before)
  from previous_joined_at [OF snoc.prems] obtain sj' where
    p: "cwk_path_get_previous_segment_joined st paths sj = (True, sj')" "sj_at st paths sj' before x (w # after)"
    by auto
  have ty: "sj_type paths sj' = word_type x" using sj_type_at [OF snoc.prems(1) p(2)] .
  show ?case
    using snoc.IH [OF snoc.prems(1) p(2)]
    by (subst cwk_back_removed_loop.simps) (simp add: p(1) ty Let_def split: cwk_segment_type.splits)
qed

lemma normal_removed_loop_at:
  "paths_ok st paths \<Longrightarrow> sj_at st paths sj before w after \<Longrightarrow>
     cwk_normal_removed_loop st paths sj c = normal_removed after c"
proof (induction after arbitrary: sj before w c)
  case Nil
  then have "\<not> fst (cwk_path_get_next_segment_joined st paths sj)"
    using next_joined_at by fastforce
  then show ?case by (subst cwk_normal_removed_loop.simps) simp
next
  case (Cons x after)
  from next_joined_at [OF Cons.prems] obtain sj' where
    p: "cwk_path_get_next_segment_joined st paths sj = (True, sj')" "sj_at st paths sj' (before @ [w]) x after"
    by auto
  have ty: "sj_type paths sj' = word_type x" using sj_type_at [OF Cons.prems(1) p(2)] .
  show ?case
    using Cons.IH [OF Cons.prems(1) p(2)]
    by (subst cwk_normal_removed_loop.simps) (simp add: p(1) ty Let_def split: cwk_segment_type.splits)
qed

lemma will_be_removed_at:
  "paths_ok st paths \<Longrightarrow> sj_at st paths sj before w after \<Longrightarrow>
     cwk_path_segment_will_be_removed st paths sj absolute = word_removed absolute before w after"
  using sj_type_at [of st paths sj before w after]
  by (simp add: cwk_path_segment_will_be_removed_def word_removed_def Let_def
      cwk_path_segment_back_will_be_removed_def cwk_path_segment_normal_will_be_removed_def
      back_removed_loop_at normal_removed_loop_at split: cwk_segment_type.splits)

text \<open>The segments that are written, from a position on.\<close>

fun visible :: "bool \<Rightarrow> string list \<Rightarrow> string list \<Rightarrow> string list" where
  "visible absolute before [] = []"
| "visible absolute before (w # ws) =
     (if word_removed absolute before w ws then [] else [w]) @ visible absolute (before @ [w]) ws"

section \<open>Resolution with a stack\<close>

fun resolve :: "bool \<Rightarrow> string list \<Rightarrow> string list \<Rightarrow> string list" where
  "resolve absolute stack [] = rev stack"
| "resolve absolute stack (w # ws) =
     (case word_type w of
        CWK_CURRENT \<Rightarrow> resolve absolute stack ws
      | CWK_NORMAL \<Rightarrow> resolve absolute (w # stack) ws
      | CWK_BACK \<Rightarrow>
          (case stack of
             [] \<Rightarrow> resolve absolute (if absolute then [] else [w]) ws
           | x # rest \<Rightarrow> if word_type x = CWK_BACK then resolve absolute (w # stack) ws
                        else resolve absolute rest ws))"

text \<open>Segments that climb out of a list to its left, and names that stay open to its right.\<close>

fun unmatched_back :: "string list \<Rightarrow> nat" where
  "unmatched_back [] = 0"
| "unmatched_back (w # ws) =
     (case word_type w of
        CWK_NORMAL \<Rightarrow> unmatched_back ws - 1
      | CWK_BACK \<Rightarrow> Suc (unmatched_back ws)
      | CWK_CURRENT \<Rightarrow> unmatched_back ws)"

fun open_names :: "string list \<Rightarrow> nat" where
  "open_names [] = 0"
| "open_names (w # ws) =
     (case word_type w of
        CWK_NORMAL \<Rightarrow> Suc (open_names ws)
      | CWK_BACK \<Rightarrow> open_names ws - 1
      | CWK_CURRENT \<Rightarrow> open_names ws)"

lemma normal_removed_iff: "0 \<le> c \<Longrightarrow> normal_removed ws c \<longleftrightarrow> c < int (unmatched_back ws)"
proof (induction ws arbitrary: c)
  case (Cons x ws)
  show ?case
    using Cons.IH [of c] Cons.IH [of "c + 1"] Cons.IH [of "c - 1"] Cons.prems
    by (cases "c = 0") (auto split: cwk_segment_type.splits)
qed simp

lemma back_removed_iff: "c \<le> 0 \<Longrightarrow> back_removed ws c \<longleftrightarrow> 0 < int (open_names ws) + c"
proof (induction ws arbitrary: c)
  case (Cons x ws)
  show ?case
    using Cons.IH [of c] Cons.IH [of "c + 1"] Cons.IH [of "c - 1"] Cons.prems
    by (cases "c = 0") (auto split: cwk_segment_type.splits)
qed simp

lemma word_removed_iff:
  "word_removed absolute before w after \<longleftrightarrow>
     (case word_type w of
        CWK_CURRENT \<Rightarrow> True
      | CWK_BACK \<Rightarrow> absolute \<or> 0 < open_names (rev before)
      | CWK_NORMAL \<Rightarrow> 0 < unmatched_back after)"
  by (simp add: word_removed_def normal_removed_iff back_removed_iff split: cwk_segment_type.splits)

lemma word_type_back: "word_type w = CWK_BACK \<longleftrightarrow> w = ''..''"
  by (simp add: word_type_def)

lemma resolve_visible:
  "length names = open_names (rev before) \<Longrightarrow> (\<And>x. x \<in> set names \<Longrightarrow> word_type x = CWK_NORMAL) \<Longrightarrow>
   (absolute \<longrightarrow> m = 0) \<Longrightarrow>
     resolve absolute (names @ replicate m ''..'') ws =
       replicate m ''..'' @ rev (drop (unmatched_back ws) names) @ visible absolute before ws"
proof (induction ws arbitrary: names before m)
  case Nil
  then show ?case by simp
next
  case (Cons w ws)
  show ?case
  proof (cases "word_type w")
    case CWK_CURRENT
    have "length names = open_names (rev (before @ [w]))" using Cons.prems(1) CWK_CURRENT by simp
    from Cons.IH [OF this Cons.prems(2,3)] CWK_CURRENT show ?thesis
      by (simp add: word_removed_iff)
  next
    case CWK_NORMAL
    have "length (w # names) = open_names (rev (before @ [w]))" using Cons.prems(1) CWK_NORMAL by simp
    moreover have "\<And>x. x \<in> set (w # names) \<Longrightarrow> word_type x = CWK_NORMAL" using Cons.prems(2) CWK_NORMAL by auto
    ultimately have "resolve absolute ((w # names) @ replicate m ''..'') ws =
        replicate m ''..'' @ rev (drop (unmatched_back ws) (w # names)) @ visible absolute (before @ [w]) ws"
      using Cons.IH Cons.prems(3) by blast
    then show ?thesis using CWK_NORMAL
      by (cases "unmatched_back ws") (simp_all add: word_removed_iff)
  next
    case CWK_BACK
    then have w: "w = ''..''" by (simp add: word_type_back)
    show ?thesis
    proof (cases names)
      case (Cons x rest)
      have "length rest = open_names (rev (before @ [w]))" using Cons.prems(1) CWK_BACK Cons by simp
      moreover have "\<And>x. x \<in> set rest \<Longrightarrow> word_type x = CWK_NORMAL" using Cons.prems(2) Cons by auto
      ultimately have "resolve absolute (rest @ replicate m ''..'') ws =
          replicate m ''..'' @ rev (drop (unmatched_back ws) rest) @ visible absolute (before @ [w]) ws"
        using Cons.IH Cons.prems(3) by blast
      moreover have "word_type x = CWK_NORMAL" "0 < open_names (rev before)"
        using Cons.prems(1,2) Cons by auto
      ultimately show ?thesis using CWK_BACK Cons by (simp add: word_removed_iff)
    next
      case Nil
      let ?m = "if absolute then 0 else Suc m"
      have o: "open_names (rev before) = 0" using Cons.prems(1) Nil by simp
      then have "length [] = open_names (rev (before @ [w]))" using CWK_BACK by simp
      from Cons.IH [OF this, of ?m] have
        IH: "resolve absolute (replicate ?m ''..'') ws = replicate ?m ''..'' @ visible absolute (before @ [w]) ws" by simp
      have m: "resolve absolute (names @ replicate m ''..'') (w # ws) = resolve absolute (replicate ?m ''..'') ws"
        using Cons.prems(3) CWK_BACK Nil w by (cases m) (auto simp: word_type_def)
      show ?thesis unfolding m IH using Cons.prems(3) CWK_BACK Nil o w
        by (simp add: word_removed_iff replicate_app_Cons_same)
    qed
  qed
qed

lemma visible_resolve: "visible absolute [] ws = resolve absolute [] ws"
  using resolve_visible [of "[]" "[]" absolute 0 ws] by simp

section \<open>What the buffer holds\<close>

text \<open>
  \<open>written buf t\<close>: the buffer begins with the text \<open>t\<close>, or with as much of it as there is
  room for.
\<close>

definition written :: "char list \<Rightarrow> string \<Rightarrow> bool" where
  "written buf t \<longleftrightarrow> take (length t) buf = take (length buf) t"

lemma written_Nil [simp]: "written buf []"
  by (simp add: written_def)

lemma output_sized_written:
  assumes "written buf t"
  shows "\<exists>buf'. cwk_path_output_sized buf (length t) s = (length s, buf') \<and> length buf' = length buf \<and>
    written buf' (t @ s)"
proof -
  consider (all) "length buf > length t + length s" | (part) "length buf \<le> length t + length s" "length buf > length t"
    | (none) "length buf \<le> length t" by linarith
  then show ?thesis
  proof cases
    case all
    then have t: "take (length t) buf = t" using assms by (simp add: written_def)
    with all show ?thesis by (auto simp: cwk_path_output_sized_def Let_def written_def)
  next
    case part
    then have t: "take (length t) buf = t" using assms by (simp add: written_def)
    with part show ?thesis by (auto simp: cwk_path_output_sized_def Let_def written_def min_def)
  next
    case none
    with assms show ?thesis by (auto simp: cwk_path_output_sized_def Let_def written_def)
  qed
qed

lemma terminate_written:
  assumes "written buf t" and "nonul t" and "buf \<noteq> []"
  shows "c_str (cwk_path_terminate_output buf (length t)) = take (length buf - 1) t"
    "length (cwk_path_terminate_output buf (length t)) = length buf"
proof -
  let ?n = "if length t \<ge> length buf then length buf - 1 else length t"
  have n: "?n < length buf" using assms(3) by (cases buf) auto
  have "take ?n buf = take ?n t"
  proof (cases "length t \<ge> length buf")
    case True
    then have "buf = take (length buf) t" using assms(1) by (simp add: written_def)
    then have "take ?n buf = take ?n (take (length buf) t)" by simp
    with True show ?thesis by simp
  next
    case False
    then show ?thesis using assms(1) by (simp add: written_def)
  qed
  moreover have "cwk_path_terminate_output buf (length t) = take ?n buf @ NUL # drop (Suc ?n) buf"
    using n assms(3) by (auto simp: cwk_path_terminate_output_def upd_conv_take_nth_drop)
  moreover have "nonul (take ?n t)" using assms(2) by (auto simp: nonul_def dest: in_set_takeD)
  ultimately have "c_str (cwk_path_terminate_output buf (length t)) = take ?n t" by (simp add: c_str_nul)
  then show "c_str (cwk_path_terminate_output buf (length t)) = take (length buf - 1) t" by simp
  show "length (cwk_path_terminate_output buf (length t)) = length buf"
    by (simp add: cwk_path_terminate_output_def)
qed

lemma finish_written:
  assumes "written buf t" and "nonul t" and "length buf = length buf0"
  shows "length (cwk_path_terminate_output buf (length t)) = length buf0 \<and>
    (buf0 \<noteq> [] \<longrightarrow> c_str (cwk_path_terminate_output buf (length t)) = take (length buf0 - 1) t)"
  using terminate_written [OF assms(1,2)] assms(3)
  by (cases "buf = []") (auto simp: cwk_path_terminate_output_def)

definition out_sep :: "cwk_path_style \<Rightarrow> char" where
  "out_sep st = hd (separators st)"

fun join_words :: "char \<Rightarrow> string list \<Rightarrow> string" where
  "join_words d [] = []"
| "join_words d [w] = w"
| "join_words d (w # v # ws) = w @ d # join_words d (v # ws)"

lemma join_words_snoc: "join_words d (ws @ [w]) = (if ws = [] then w else join_words d ws @ d # w)"
  by (induction d ws rule: join_words.induct) auto

text \<open>The root as it is written.\<close>

definition root_text :: "cwk_path_style \<Rightarrow> string \<Rightarrow> string" where
  "root_text st p = map (\<lambda>c. if st = CWK_STYLE_WINDOWS \<and> cwk_path_is_separator st c then out_sep st else c)
     (take (cwk_path_get_root st p) p)"

lemma length_root_text [simp]: "length (root_text st p) = cwk_path_get_root st p"
  by (simp add: root_text_def get_root_le)

lemma fix_root_written:
  assumes "written buf (take (cwk_path_get_root st p) p)"
  shows "written (cwk_path_fix_root st buf (cwk_path_get_root st p)) (root_text st p)"
    "length (cwk_path_fix_root st buf n) = length buf"
proof -
  let ?r = "cwk_path_get_root st p"
  have r: "length (take ?r p) = ?r" by (simp add: get_root_le)
  show "written (cwk_path_fix_root st buf ?r) (root_text st p)"
  proof (cases st)
    case CWK_STYLE_UNIX
    with assms show ?thesis by (simp add: cwk_path_fix_root_def root_text_def)
  next
    case CWK_STYLE_WINDOWS
    have min: "(if ?r > length buf then length buf else ?r) = min ?r (length buf)" by (simp add: min_def)
    have w: "take ?r buf = take (length buf) (take ?r p)" using assms r by (simp add: written_def)
    have short: "buf = take (length buf) p" if "length buf < ?r"
      using w that by (simp add: min_def)
    have eq: "map f buf = map f (take (length buf) p)" if "length buf < ?r" for f :: "char \<Rightarrow> char"
      using short [OF that] by simp
    show ?thesis
      using w CWK_STYLE_WINDOWS eq
      by (simp add: cwk_path_fix_root_def root_text_def out_sep_def written_def Let_def min get_root_le
          take_map min.commute)
  qed
  show "length (cwk_path_fix_root st buf n) = length buf"
    by (auto simp: cwk_path_fix_root_def Let_def)
qed

section \<open>The loop\<close>

lemma join_emit_at:
  assumes at: "sj_at st paths sj before w after" and ow: "t = root @ join_words (out_sep st) ow" "written buf t"
  shows "\<exists>buf'. cwk_join_emit st (rd_apart paths) sj (length t) (ow \<noteq> []) buf =
      (length (root @ join_words (out_sep st) (ow @ [w])), buf') \<and>
    length buf' = length buf \<and> written buf' (root @ join_words (out_sep st) (ow @ [w]))"
proof -
  let ?sep = "if ow \<noteq> [] then [out_sep st] else []"
  obtain buf1 where b1: "(if ow \<noteq> [] then cwk_path_output_separator st buf (length t) else (0, buf)) = (length ?sep, buf1)"
    "length buf1 = length buf" "written buf1 (t @ ?sep)"
    using output_sized_written [OF ow(2), of "[out_sep st]"] ow(2)
    by (cases "ow = []") (auto simp: cwk_path_output_separator_def out_sep_def)
  obtain buf2 where b2: "cwk_path_output_sized buf1 (length (t @ ?sep)) w = (length w, buf2)"
    "length buf2 = length buf1" "written buf2 ((t @ ?sep) @ w)"
    using output_sized_written [OF b1(3), of w] by blast
  have tx: "(t @ ?sep) @ w = root @ join_words (out_sep st) (ow @ [w])"
    by (simp add: ow(1) join_words_snoc)
  have len: "length t + length ?sep + length w = length (root @ join_words (out_sep st) (ow @ [w]))"
    unfolding tx [symmetric] by simp
  have "cwk_join_emit st (rd_apart paths) sj (length t) (ow \<noteq> []) buf = (length t + length ?sep + length w, buf2)"
    unfolding cwk_join_emit_def b1(1) using b2(1) sj_text_at [OF at] by simp
  then show ?thesis using b1(2) b2(2,3) unfolding len tx by simp
qed

lemma join_loop_at:
  "paths_ok st paths \<Longrightarrow> sj_at st paths sj before w after \<Longrightarrow>
   t = root @ join_words (out_sep st) ow \<Longrightarrow> written buf t \<Longrightarrow>
   ow' = ow @ visible absolute before (w # after) \<Longrightarrow>
     \<exists>buf'. cwk_join_loop st (rd_apart paths) absolute sj (length t) (ow \<noteq> []) buf =
         Some (length (root @ join_words (out_sep st) ow'), ow' \<noteq> [], buf') \<and>
       length buf' = length buf \<and> written buf' (root @ join_words (out_sep st) ow')"
proof (induction after arbitrary: sj before w t ow buf)
  case Nil
  from next_joined_at [OF Nil.prems(1,2)]
  have n: "\<not> fst (cwk_path_get_next_segment_joined st paths sj)" by simp
  show ?case
  proof (cases "word_removed absolute before w []")
    case True
    with Nil n show ?thesis
      by (subst cwk_join_loop.simps) (simp add: will_be_removed_at [OF Nil.prems(1,2)])
  next
    case False
    with Nil n join_emit_at [OF Nil.prems(2,3,4)] show ?thesis
      by (subst cwk_join_loop.simps) (auto simp: will_be_removed_at [OF Nil.prems(1,2)])
  qed
next
  case (Cons v vs)
  from next_joined_at [OF Cons.prems(1,2)] obtain sj' where
    n: "cwk_path_get_next_segment_joined st paths sj = (True, sj')" "sj_at st paths sj' (before @ [w]) v vs" by auto
  show ?case
  proof (cases "word_removed absolute before w (v # vs)")
    case True
    have "ow' = ow @ visible absolute (before @ [w]) (v # vs)" using Cons.prems(5) True by simp
    from Cons.IH [OF Cons.prems(1) n(2) Cons.prems(3,4) this] True n(1) show ?thesis
      by (subst cwk_join_loop.simps) (simp add: will_be_removed_at [OF Cons.prems(1,2)])
  next
    case False
    obtain buf1 where e: "cwk_join_emit st (rd_apart paths) sj (length t) (ow \<noteq> []) buf =
        (length (root @ join_words (out_sep st) (ow @ [w])), buf1)" "length buf1 = length buf"
      "written buf1 (root @ join_words (out_sep st) (ow @ [w]))"
      using join_emit_at [OF Cons.prems(2,3,4)] by blast
    have "ow' = (ow @ [w]) @ visible absolute (before @ [w]) (v # vs)" using Cons.prems(5) False by simp
    from Cons.IH [OF Cons.prems(1) n(2) refl e(3) this] False n(1) e(1,2) show ?thesis
      by (subst cwk_join_loop.simps) (simp add: will_be_removed_at [OF Cons.prems(1,2)])
  qed
qed

section \<open>The result\<close>

definition norm_words :: "cwk_path_style \<Rightarrow> string list \<Rightarrow> string list" where
  "norm_words st paths = resolve (cwk_path_is_absolute st (hd paths)) [] (toks_from st paths 0)"

definition norm_text :: "cwk_path_style \<Rightarrow> string list \<Rightarrow> string" where
  "norm_text st paths =
     (let root = root_text st (hd paths) in
      if toks_from st paths 0 = [] then root
      else if root = [] \<and> norm_words st paths = [] then ''.''
      else root @ join_words (out_sep st) (norm_words st paths))"

lemma resolve_subset: "set (resolve absolute stack ws) \<subseteq> set stack \<union> set ws"
proof (induction absolute stack ws rule: resolve.induct)
  case (2 absolute stack w ws)
  then show ?case by (cases stack) (auto split: cwk_segment_type.splits if_splits)
qed simp

lemma set_toks_from: "w \<in> set (toks_from st paths 0) \<Longrightarrow> \<exists>p \<in> set paths. set w \<subseteq> set p"
proof -
  assume "w \<in> set (toks_from st paths 0)"
  then obtain i where i: "i < length paths" "w \<in> set (tk st paths i)" by (auto simp: toks_from_def)
  then have "set w \<subseteq> set (paths ! i)"
    using toks_words unfolding tk_def by (metis set_drop_subset subset_trans)
  with i show ?thesis by auto
qed

lemma nonul_join_words: "d \<noteq> NUL \<Longrightarrow> (\<And>w. w \<in> set ws \<Longrightarrow> nonul w) \<Longrightarrow> nonul (join_words d ws)"
  by (induction d ws rule: join_words.induct) auto

lemma out_sep_nonul [simp]: "out_sep st \<noteq> NUL"
  by (cases st) (simp_all add: out_sep_def separators_def)

lemma nonul_norm_words:
  assumes "paths_ok st paths" and "w \<in> set (norm_words st paths)"
  shows "nonul w"
proof -
  have "w \<in> set (toks_from st paths 0)" using resolve_subset assms(2) by (fastforce simp: norm_words_def)
  then obtain p where "p \<in> set paths" "set w \<subseteq> set p" using set_toks_from by blast
  with assms(1) show ?thesis by (auto simp: paths_ok_def nonul_def)
qed

lemma nonul_norm_text:
  assumes "paths_ok st paths" and "paths \<noteq> []"
  shows "nonul (norm_text st paths)"
proof -
  have "nonul (hd paths)" using assms by (simp add: paths_ok_def)
  then have "nonul (root_text st (hd paths))"
    using out_sep_nonul [of CWK_STYLE_WINDOWS, symmetric] by (auto simp: root_text_def nonul_def dest: in_set_takeD)
  with nonul_norm_words [OF assms(1)] show ?thesis
    by (simp add: norm_text_def Let_def nonul_join_words)
qed

text \<open>
  The whole function: the length it returns is that of the normal form, and the buffer holds as
  much of the normal form as fits before the terminator.
\<close>

lemma join_normalize_spec:
  assumes ok: "paths_ok st paths" and ne: "paths \<noteq> []"
  shows "\<exists>buf'. cwk_path_join_and_normalize_multiple st (rd_apart paths) buf = Some (length (norm_text st paths), buf') \<and>
    length buf' = length buf \<and> (buf \<noteq> [] \<longrightarrow> c_str buf' = take (length buf - 1) (norm_text st paths))"
proof -
  let ?p = "hd paths" and ?r = "cwk_path_get_root st (hd paths)" and ?root = "root_text st (hd paths)"
  let ?abs = "cwk_path_is_absolute st ?p"
  obtain buf1 where b1: "cwk_path_output_sized buf 0 (take ?r ?p) = (length (take ?r ?p), buf1)" "length buf1 = length buf"
    "written buf1 (take ?r ?p)" using output_sized_written [OF written_Nil, of buf "take ?r ?p"] by auto
  define buf2 where "buf2 = cwk_path_fix_root st buf1 ?r"
  have b2: "written buf2 ?root" "length buf2 = length buf"
    using fix_root_written [OF b1(3)] b1(2) by (simp_all add: buf2_def)
  have abs: "cwk_path_is_root_absolute st ?p ?r = ?abs" by (simp add: cwk_path_is_absolute_def)
  show ?thesis
  proof (cases "toks_from st paths 0")
    case Nil
    then have first: "\<not> fst (cwk_path_get_first_segment_joined st paths)" using first_joined_at [OF ok] by simp
    have t: "norm_text st paths = ?root" using Nil by (simp add: norm_text_def)
    have "cwk_path_join_and_normalize_multiple st (rd_apart paths) buf =
        Some (length (norm_text st paths), cwk_path_terminate_output buf2 (length (norm_text st paths)))"
      unfolding cwk_path_join_and_normalize_multiple_def using first t b1(1) by (simp add: buf2_def [symmetric] Let_def)
    then show ?thesis using finish_written [OF _ nonul_norm_text [OF ok ne] b2(2)] b2(1) t by simp
  next
    case (Cons w ws)
    then obtain sj where first: "cwk_path_get_first_segment_joined st paths = (True, sj)" "sj_at st paths sj [] w ws"
      using first_joined_at [OF ok] by auto
    have words: "norm_words st paths = [] @ visible ?abs [] (w # ws)"
      unfolding visible_resolve norm_words_def Cons by simp
    have root0: "?root = ?root @ join_words (out_sep st) []" by simp
    obtain buf3 where l: "cwk_join_loop st (rd_apart paths) ?abs sj ?r False buf2 =
        Some (length (?root @ join_words (out_sep st) (norm_words st paths)), norm_words st paths \<noteq> [], buf3)"
      "length buf3 = length buf2" "written buf3 (?root @ join_words (out_sep st) (norm_words st paths))"
      using join_loop_at [OF ok first(2) root0 b2(1) words] by auto
    let ?t = "?root @ join_words (out_sep st) (norm_words st paths)"
    let ?dot = "?root = [] \<and> norm_words st paths = []"
    have rz: "?root = [] \<Longrightarrow> ?r = 0" by (metis length_root_text list.size(3))
    have cond: "norm_words st paths = [] \<and> length ?t = 0 \<longleftrightarrow> ?dot"
      by (simp only: length_0_conv) auto
    have tx: "norm_text st paths = (if ?dot then ?t @ ''.'' else ?t)"
      using Cons by (simp add: norm_text_def Let_def)
    obtain buf4 where b4: "(if norm_words st paths = [] \<and> length ?t = 0 then cwk_path_output_current buf3 (length ?t)
        else (0, buf3)) = (if ?dot then 1 else 0, buf4)" "length buf4 = length buf" "written buf4 (norm_text st paths)"
      using output_sized_written [OF l(3), of "''.''"] l b2(2) unfolding cond tx
      by (cases ?dot) (auto simp: cwk_path_output_current_def)
    have len: "length ?t + (if ?dot then 1 else 0) = length (norm_text st paths)"
      unfolding tx by (auto simp: rz)
    have "cwk_path_join_and_normalize_multiple st (rd_apart paths) buf =
        Some (length (norm_text st paths), cwk_path_terminate_output buf4 (length (norm_text st paths)))"
      unfolding cwk_path_join_and_normalize_multiple_def
      using first(1) b1(1) abs l(1) b4(1) len by (simp add: buf2_def [symmetric] Let_def del: length_append length_root_text)
    then show ?thesis using finish_written [OF b4(3) nonul_norm_text [OF ok ne] b4(2)] by simp
  qed
qed

section \<open>Normal forms\<close>

definition normal_words :: "bool \<Rightarrow> string list \<Rightarrow> bool" where
  "normal_words absolute ws \<longleftrightarrow>
     (\<exists>m names. ws = replicate m ''..'' @ names \<and> (absolute \<longrightarrow> m = 0) \<and> list_all (\<lambda>w. word_type w = CWK_NORMAL) names)"

lemma resolve_normal_form:
  "list_all (\<lambda>w. word_type w = CWK_NORMAL) names \<Longrightarrow> (absolute \<longrightarrow> m = 0) \<Longrightarrow>
     normal_words absolute (resolve absolute (names @ replicate m ''..'') ws)"
proof (induction ws arbitrary: names m)
  case Nil
  then show ?case
    unfolding normal_words_def
    by (intro exI [of _ m] exI [of _ "rev names"]) simp
next
  case (Cons w ws)
  show ?case
  proof (cases "word_type w")
    case CWK_CURRENT
    with Cons show ?thesis by simp
  next
    case CWK_NORMAL
    with Cons.IH [of "w # names" m] Cons.prems show ?thesis by simp
  next
    case CWK_BACK
    then have w: "w = ''..''" by (simp add: word_type_back)
    show ?thesis
    proof (cases names)
      case (Cons x rest)
      with Cons.IH [of rest m] Cons.prems CWK_BACK show ?thesis by simp
    next
      case Nil
      let ?m = "if absolute then 0 else Suc m"
      have "resolve absolute (names @ replicate m ''..'') (w # ws) = resolve absolute (replicate ?m ''..'') ws"
        using Cons.prems(2) CWK_BACK Nil w by (cases m) (auto simp: word_type_def)
      with Cons.IH [of "[]" ?m] show ?thesis by simp
    qed
  qed
qed

lemma resolve_names:
  "list_all (\<lambda>w. word_type w = CWK_NORMAL) names \<Longrightarrow> resolve absolute stack names = rev stack @ names"
  by (induction names arbitrary: stack) simp_all

lemma resolve_backs:
  "resolve False (replicate k ''..'') (replicate m ''..'' @ names) = resolve False (replicate (k + m) ''..'') names"
proof (induction m arbitrary: k)
  case (Suc m)
  have "resolve False (replicate k ''..'') (''..'' # replicate m ''..'' @ names) =
      resolve False (replicate (Suc k) ''..'') (replicate m ''..'' @ names)"
    by (cases k) (auto simp: word_type_def)
  with Suc [of "Suc k"] show ?case by simp
qed simp

lemma resolve_of_normal: "normal_words absolute ws \<Longrightarrow> resolve absolute [] ws = ws"
proof -
  assume "normal_words absolute ws"
  then obtain m names where ws: "ws = replicate m ''..'' @ names" "absolute \<longrightarrow> m = 0"
    "list_all (\<lambda>w. word_type w = CWK_NORMAL) names" by (auto simp: normal_words_def)
  show ?thesis
  proof (cases absolute)
    case True
    with ws resolve_names [OF ws(3), of True "[]"] show ?thesis by simp
  next
    case False
    with ws resolve_backs [of 0 m names] resolve_names [OF ws(3), of False "replicate m ''..''"] show ?thesis by simp
  qed
qed

section \<open>Where a path leads\<close>

text \<open>
  A directory is the list of names that lead to it, the innermost first; there is nothing above
  the root. A path is walked segment by segment.
\<close>

fun walk_step :: "string list \<Rightarrow> string \<Rightarrow> string list" where
  "walk_step d w =
     (case word_type w of CWK_CURRENT \<Rightarrow> d | CWK_BACK \<Rightarrow> tl d | CWK_NORMAL \<Rightarrow> w # d)"

definition walk :: "string list \<Rightarrow> string \<Rightarrow> string list" where
  "walk d p = foldl walk_step (if cwk_path_is_absolute CWK_STYLE_UNIX p then [] else d) (path_toks CWK_STYLE_UNIX p)"

lemma walk_resolve:
  "(absolute \<longrightarrow> d = []) \<Longrightarrow> (\<And>x. x \<in> set stack \<Longrightarrow> word_type x \<noteq> CWK_CURRENT) \<Longrightarrow>
     foldl walk_step d (resolve absolute stack ws) = foldl walk_step (foldl walk_step d (rev stack)) ws"
proof (induction absolute stack ws rule: resolve.induct)
  case (1 absolute stack)
  then show ?case by simp
next
  case (2 absolute stack w ws)
  show ?case
  proof (cases "word_type w")
    case CWK_CURRENT
    with 2 show ?thesis by simp
  next
    case CWK_NORMAL
    then have "\<And>x. x \<in> set (w # stack) \<Longrightarrow> word_type x \<noteq> CWK_CURRENT" using "2.prems"(2) by auto
    from "2.IH"(1) [OF CWK_NORMAL "2.prems"(1) this] CWK_NORMAL show ?thesis by simp
  next
    case CWK_BACK
    then have new: "\<And>x. x \<in> set (w # stack) \<Longrightarrow> word_type x \<noteq> CWK_CURRENT" using "2.prems"(2) by auto
    show ?thesis
    proof (cases stack)
      case Nil
      with "2.IH"(3) [OF CWK_BACK Nil "2.prems"(1)] "2.prems"(1) CWK_BACK show ?thesis by auto
    next
      case (Cons x rest)
      show ?thesis
      proof (cases "word_type x = CWK_BACK")
        case True
        from "2.IH"(4) [OF CWK_BACK Cons True "2.prems"(1) new] CWK_BACK Cons True show ?thesis by simp
      next
        case False
        then have x: "word_type x = CWK_NORMAL" using "2.prems"(2) Cons by (cases "word_type x") auto
        have "\<And>x. x \<in> set rest \<Longrightarrow> word_type x \<noteq> CWK_CURRENT" using "2.prems"(2) Cons by auto
        from "2.IH"(5) [OF CWK_BACK Cons False "2.prems"(1) this] CWK_BACK Cons x show ?thesis by simp
      qed
    qed
  qed
qed

section \<open>Unix normal forms as text\<close>

abbreviation "slash c \<equiv> cwk_path_is_separator CWK_STYLE_UNIX c"

lemma out_sep_unix [simp]: "out_sep CWK_STYLE_UNIX = CHR ''/''"
  by (simp add: out_sep_def separators_def)

lemma toks_join_words:
  "(\<And>w. w \<in> set ws \<Longrightarrow> w \<noteq> [] \<and> list_all (\<lambda>c. \<not> slash c) w) \<Longrightarrow>
     path_toks CWK_STYLE_UNIX (join_words (CHR ''/'') ws) = ws"
proof (induction "CHR ''/''" ws rule: join_words.induct)
  case (2 w)
  then show ?case using toks_word [where P = "cwk_path_is_separator CWK_STYLE_UNIX" and post = "[]"] by simp
next
  case (3 w v ws)
  then have "path_toks CWK_STYLE_UNIX (w @ CHR ''/'' # join_words (CHR ''/'') (v # ws)) =
      w # path_toks CWK_STYLE_UNIX (CHR ''/'' # join_words (CHR ''/'') (v # ws))"
    by (intro toks_word) auto
  with 3 show ?case by simp
qed simp

lemma hd_join_words:
  "ws \<noteq> [] \<Longrightarrow> (\<And>w. w \<in> set ws \<Longrightarrow> w \<noteq> [] \<and> list_all (\<lambda>c. \<not> slash c) w) \<Longrightarrow>
     join_words (CHR ''/'') ws \<noteq> [] \<and> \<not> slash (hd (join_words (CHR ''/'') ws))"
proof -
  assume ne: "ws \<noteq> []" and ok: "\<And>w. w \<in> set ws \<Longrightarrow> w \<noteq> [] \<and> list_all (\<lambda>c. \<not> slash c) w"
  obtain w vs where ws: "ws = w # vs" using ne by (cases ws) auto
  obtain c u where w: "w = c # u" using ok [of w] ws by (cases w) auto
  have "\<not> slash c" using ok [of w] ws w by simp
  then show ?thesis using ws w by (cases vs) auto
qed

lemma absolute_unix: "cwk_path_is_absolute CWK_STYLE_UNIX p \<longleftrightarrow> p \<noteq> [] \<and> hd p = CHR ''/''"
  by (auto simp: cwk_path_is_absolute_def cwk_path_is_root_absolute_def cwk_path_get_root_def
      cwk_path_get_root_unix_def c_at_0)

lemma root_text_unix: "root_text CWK_STYLE_UNIX p = (if cwk_path_is_absolute CWK_STYLE_UNIX p then ''/'' else [])"
  by (cases p) (auto simp: root_text_def absolute_unix cwk_path_get_root_def cwk_path_get_root_unix_def c_at_0)

lemma toks_from_unix: "toks_from CWK_STYLE_UNIX paths 0 = concat (map (path_toks CWK_STYLE_UNIX) paths)"
proof -
  have "path_toks CWK_STYLE_UNIX (drop (cwk_path_get_root CWK_STYLE_UNIX p) p) = path_toks CWK_STYLE_UNIX p" for p
    by (cases p) (auto simp: cwk_path_get_root_def cwk_path_get_root_unix_def c_at_0)
  then have tk: "tk CWK_STYLE_UNIX paths i = path_toks CWK_STYLE_UNIX (paths ! i)" for i by (simp add: tk_def)
  have "map (tk CWK_STYLE_UNIX paths) [0..<length paths] = map (path_toks CWK_STYLE_UNIX) paths"
    by (rule nth_equalityI) (simp_all add: tk)
  then show ?thesis by (simp add: toks_from_def)
qed

lemma norm_words_ok:
  "w \<in> set (norm_words CWK_STYLE_UNIX paths) \<Longrightarrow> w \<noteq> [] \<and> list_all (\<lambda>c. \<not> slash c) w"
proof -
  assume "w \<in> set (norm_words CWK_STYLE_UNIX paths)"
  then have "w \<in> set (toks_from CWK_STYLE_UNIX paths 0)"
    using resolve_subset by (fastforce simp: norm_words_def)
  then show ?thesis using toks_words by (fastforce simp: toks_from_unix)
qed

text \<open>The segments of a normal form, and whether it is absolute.\<close>

lemma norm_text_unix:
  assumes "paths \<noteq> []"
  shows "cwk_path_is_absolute CWK_STYLE_UNIX (norm_text CWK_STYLE_UNIX paths) = cwk_path_is_absolute CWK_STYLE_UNIX (hd paths)"
    "norm_words CWK_STYLE_UNIX paths \<noteq> [] \<Longrightarrow>
      path_toks CWK_STYLE_UNIX (norm_text CWK_STYLE_UNIX paths) = norm_words CWK_STYLE_UNIX paths"
    "norm_words CWK_STYLE_UNIX paths = [] \<Longrightarrow>
      norm_text CWK_STYLE_UNIX paths = (if cwk_path_is_absolute CWK_STYLE_UNIX (hd paths) then ''/''
        else if toks_from CWK_STYLE_UNIX paths 0 = [] then [] else ''.'')"
proof -
  let ?W = "norm_words CWK_STYLE_UNIX paths" and ?abs = "cwk_path_is_absolute CWK_STYLE_UNIX (hd paths)"
  show empty: "norm_text CWK_STYLE_UNIX paths = (if ?abs then ''/''
        else if toks_from CWK_STYLE_UNIX paths 0 = [] then [] else ''.'')" if "?W = []"
    using that by (simp add: norm_text_def Let_def root_text_unix)
  have full: "norm_text CWK_STYLE_UNIX paths = (if ?abs then ''/'' else []) @ join_words (CHR ''/'') ?W" if "?W \<noteq> []"
  proof -
    have "toks_from CWK_STYLE_UNIX paths 0 \<noteq> []" using that by (auto simp: norm_words_def)
    with that show ?thesis by (simp add: norm_text_def Let_def root_text_unix)
  qed
  show "path_toks CWK_STYLE_UNIX (norm_text CWK_STYLE_UNIX paths) = ?W" if "?W \<noteq> []"
    using full [OF that] toks_join_words [of ?W] norm_words_ok by simp
  show "cwk_path_is_absolute CWK_STYLE_UNIX (norm_text CWK_STYLE_UNIX paths) = ?abs"
    using empty full hd_join_words [of ?W] norm_words_ok
    by (cases "?W = []") (auto simp: absolute_unix hd_append)
qed

lemma walk_norm_text:
  assumes "paths \<noteq> []"
  shows "walk d (norm_text CWK_STYLE_UNIX paths) =
    foldl walk_step (if cwk_path_is_absolute CWK_STYLE_UNIX (hd paths) then [] else d)
      (concat (map (path_toks CWK_STYLE_UNIX) paths))"
proof -
  let ?abs = "cwk_path_is_absolute CWK_STYLE_UNIX (hd paths)" and ?d = "if cwk_path_is_absolute CWK_STYLE_UNIX (hd paths) then [] else d"
  have res: "foldl walk_step ?d (norm_words CWK_STYLE_UNIX paths) = foldl walk_step ?d (toks_from CWK_STYLE_UNIX paths 0)"
    using walk_resolve [of ?abs ?d "[]"] by (simp add: norm_words_def)
  have tx: "foldl walk_step ?d (path_toks CWK_STYLE_UNIX (norm_text CWK_STYLE_UNIX paths)) =
      foldl walk_step ?d (norm_words CWK_STYLE_UNIX paths)"
    using norm_text_unix [OF assms]
    by (cases "norm_words CWK_STYLE_UNIX paths = []") (auto simp: word_type_def)
  show ?thesis unfolding walk_def norm_text_unix(1) [OF assms] tx res toks_from_unix ..
qed

lemma norm_words_normal: "normal_words (cwk_path_is_absolute st (hd paths)) (norm_words st paths)"
  using resolve_normal_form [of "[]" _ 0] by (simp add: norm_words_def)

lemma norm_text_idem:
  assumes "paths \<noteq> []"
  shows "norm_text CWK_STYLE_UNIX [norm_text CWK_STYLE_UNIX paths] = norm_text CWK_STYLE_UNIX paths"
proof -
  let ?t = "norm_text CWK_STYLE_UNIX paths" and ?abs = "cwk_path_is_absolute CWK_STYLE_UNIX (hd paths)"
  note abs = norm_text_unix(1) [OF assms]
  show ?thesis
  proof (cases "norm_words CWK_STYLE_UNIX paths = []")
    case True
    have sp: "word_type ''.'' = CWK_CURRENT" by (simp add: word_type_def)
    show ?thesis unfolding norm_text_unix(3) [OF assms True]
      by (simp add: norm_text_def norm_words_def toks_from_unix root_text_unix absolute_unix sp)
  next
    case False
    then have toks: "toks_from CWK_STYLE_UNIX [?t] 0 = norm_words CWK_STYLE_UNIX paths"
      using norm_text_unix(2) [OF assms] by (simp add: toks_from_unix)
    have words: "norm_words CWK_STYLE_UNIX [?t] = norm_words CWK_STYLE_UNIX paths"
      using resolve_of_normal [OF norm_words_normal] toks abs by (simp add: norm_words_def)
    have ne: "toks_from CWK_STYLE_UNIX paths 0 \<noteq> []" using False by (auto simp: norm_words_def)
    have "norm_text CWK_STYLE_UNIX [?t] = (if ?abs then ''/'' else []) @ join_words (CHR ''/'') (norm_words CWK_STYLE_UNIX paths)"
      using False words toks abs by (simp add: norm_text_def [of _ "[?t]"] Let_def root_text_unix)
    then show ?thesis using False ne by (simp add: norm_text_def Let_def root_text_unix)
  qed
qed

section \<open>Properties\<close>

text \<open>
  C8. Joining and normalizing, any number of Unix paths or one path in either style, always ends
  and writes the normal form: the root with uniform separators, then the segments left when a
  stack resolves the dots; nothing but a dot when a relative path resolves to nothing. The
  function returns the length of the whole normal form, and the buffer holds what fits, terminated.
\<close>

theorem join_is_stack_resolution:
  assumes "paths \<noteq> []" and "\<forall>p \<in> set paths. nonul p" and "st = CWK_STYLE_UNIX \<or> length paths = 1"
  shows "\<exists>buf'. cwk_path_join_multiple st paths buf =
      Some (length (norm_text st paths), buf') \<and> length buf' = length buf \<and>
      (buf \<noteq> [] \<longrightarrow> c_str buf' = take (length buf - 1) (norm_text st paths))"
proof -
  have "paths_ok st paths"
  proof (cases "st = CWK_STYLE_UNIX")
    case True
    then show ?thesis using paths_ok_unix assms(2) by blast
  next
    case False
    then obtain p where "paths = [p]" using assms(3) by (cases paths) auto
    then show ?thesis using paths_ok_single assms(2) by simp
  qed
  from join_normalize_spec [OF this assms(1)] show ?thesis by (simp add: cwk_path_join_multiple_def)
qed

theorem join_is_stack_resolution_witness:
  "\<exists>buf'. cwk_path_join_multiple CWK_STYLE_UNIX [''a/./b'', ''..//../../c/''] (replicate 4 CHR ''#'') = Some (4, buf') \<and>
    c_str buf' = ''../''"
proof -
  have tx: "norm_text CWK_STYLE_UNIX [''a/./b'', ''..//../../c/''] = ''../c''"
    by (simp add: norm_text_def norm_words_def toks_from_unix root_text_unix absolute_unix word_type_def)
  from join_is_stack_resolution [of "[''a/./b'', ''..//../../c/'']" CWK_STYLE_UNIX "replicate 4 CHR ''#''"]
  show ?thesis unfolding tx by auto
qed

text \<open>
  C25. A normalized Unix path leads, from every directory, to where the paths it was made from
  lead when they are followed one after the other.
\<close>

theorem join_preserves_meaning:
  assumes "nonul a" and "nonul b" and "cwk_path_join CWK_STYLE_UNIX a b buf = Some (n, buf')" and "n < length buf"
  shows "walk d (c_str buf') = foldl walk_step (walk d a) (path_toks CWK_STYLE_UNIX b)"
proof -
  have "paths_ok CWK_STYLE_UNIX [a, b]" using assms(1,2) by (intro paths_ok_unix) auto
  from join_normalize_spec [OF this, of buf] assms(3,4)
  have "c_str buf' = norm_text CWK_STYLE_UNIX [a, b]"
    by (cases "buf = []") (auto simp: cwk_path_join_def)
  then show ?thesis using walk_norm_text [of "[a, b]" d] by (simp add: walk_def)
qed

theorem join_preserves_meaning_witness:
  "\<exists>n buf'. cwk_path_join CWK_STYLE_UNIX ''a/b'' ''../c'' (replicate 9 NUL) = Some (n, buf') \<and>
     walk [''x''] (c_str buf') = [''c'', ''a'', ''x'']"
proof -
  have join: "cwk_path_join CWK_STYLE_UNIX ''a/b'' ''../c'' (replicate 9 NUL) = Some (3, ''a/c'' @ replicate 6 NUL)"
    by code_simp
  have "walk [''x''] (c_str (''a/c'' @ replicate 6 NUL)) =
      foldl walk_step (walk [''x''] ''a/b'') (path_toks CWK_STYLE_UNIX ''../c'')"
    by (rule join_preserves_meaning [OF _ _ join]) simp_all
  with join show ?thesis by (simp add: walk_def absolute_unix word_type_def)
qed

text \<open>
  C26. The result of normalizing a Unix path has no empty and no dot segments, and double dots
  only in front of a relative path; normalizing it again gives the same path.
\<close>

theorem normalize_normal_and_idempotent:
  assumes "nonul p" and "cwk_path_normalize CWK_STYLE_UNIX p buf = Some (n, buf1)" and "n < length buf" and "n < length buf'"
  shows "(\<exists>m names. c_str buf1 \<in>
      {(if cwk_path_is_absolute CWK_STYLE_UNIX p then ''/'' else []) @ join_words (CHR ''/'') (replicate m ''..'' @ names), ''.''} \<and>
      (cwk_path_is_absolute CWK_STYLE_UNIX p \<longrightarrow> m = 0) \<and>
      list_all (\<lambda>w. w \<noteq> [] \<and> w \<noteq> ''.'' \<and> w \<noteq> ''..'' \<and> CHR ''/'' \<notin> set w) names) \<and>
    (\<exists>buf2. cwk_path_normalize CWK_STYLE_UNIX (c_str buf1) buf' = Some (n, buf2) \<and> c_str buf2 = c_str buf1)"
proof -
  let ?W = "norm_words CWK_STYLE_UNIX [p]"
  have ok: "paths_ok CWK_STYLE_UNIX [p]" using assms(1) by (rule paths_ok_single)
  from join_normalize_spec [OF ok, of buf] assms(2,3)
  have t: "c_str buf1 = norm_text CWK_STYLE_UNIX [p]" and n: "n = length (norm_text CWK_STYLE_UNIX [p])"
    by (cases "buf = []"; auto simp: cwk_path_normalize_def)+
  have nn: "nonul (norm_text CWK_STYLE_UNIX [p])" using nonul_norm_text [OF ok] by simp
  from join_normalize_spec [OF paths_ok_single [OF nn], of CWK_STYLE_UNIX buf'] assms(4) n
  have again: "\<exists>buf2. cwk_path_normalize CWK_STYLE_UNIX (c_str buf1) buf' = Some (n, buf2) \<and> c_str buf2 = c_str buf1"
    by (cases "buf' = []") (auto simp: cwk_path_normalize_def t norm_text_idem)
  obtain m names where w: "?W = replicate m ''..'' @ names" "cwk_path_is_absolute CWK_STYLE_UNIX p \<longrightarrow> m = 0"
    "list_all (\<lambda>w. word_type w = CWK_NORMAL) names"
    using norm_words_normal [of CWK_STYLE_UNIX "[p]"] by (auto simp: normal_words_def)
  have "list_all (\<lambda>w. w \<noteq> [] \<and> w \<noteq> ''.'' \<and> w \<noteq> ''..'' \<and> CHR ''/'' \<notin> set w) names"
    using norm_words_ok [of _ "[p]"] w(1,3) unfolding list_all_iff by (fastforce simp: word_type_def split: if_splits)
  moreover have "norm_text CWK_STYLE_UNIX [p] \<in>
      {(if cwk_path_is_absolute CWK_STYLE_UNIX p then ''/'' else []) @ join_words (CHR ''/'') (replicate m ''..'' @ names), ''.''}"
    using w(1) by (auto simp: norm_text_def Let_def root_text_unix norm_words_def)
  ultimately show ?thesis using again w(2) unfolding t by blast
qed

theorem normalize_normal_and_idempotent_witness:
  "\<exists>buf2. cwk_path_normalize CWK_STYLE_UNIX ''../c'' (replicate 9 NUL) = Some (4, buf2) \<and> c_str buf2 = ''../c''"
proof -
  have norm: "cwk_path_normalize CWK_STYLE_UNIX ''a/../..//c/.'' (replicate 9 NUL) = Some (4, ''../c'' @ replicate 5 NUL)"
    by code_simp
  have "c_str (''../c'' @ replicate 5 NUL) = ''../c''" by (simp add: c_str_def)
  with normalize_normal_and_idempotent [OF _ norm, of "replicate 9 NUL"] show ?thesis by simp
qed

end
