(* ===== verification/Uri.thy ===== *)
theory Uri
  imports CwalkNormalize
begin

text \<open>
  URLs, \<^verbatim>\<open>src/uri/uri.c\<close>. A \<open>const char *\<close> is a string or \<open>None\<close>; the output buffer is a list
  of characters or \<open>None\<close>; the path style is that of cwalk; \<open>mem_ok\<close> tells whether the two
  temporary buffers could be allocated and \<open>junk\<close> what they contain at first. The lengths of
  scheme and authority are cast to \<^verbatim>\<open>int\<close> for \<^verbatim>\<open>"%.*s"\<close>, which keeps them when the URL is shorter than \<open>2 ^ 31\<close>; that also
  keeps \<^verbatim>\<open>snprintf\<close> from failing.
\<close>

section \<open>Operations\<close>

definition scheme_char :: "char \<Rightarrow> bool" where
  "scheme_char c = (is_alnum c \<or> c = CHR ''+'' \<or> c = CHR ''-'' \<or> c = CHR ''.'')"

text \<open>The offset of the end of the scheme, when there is a valid one.\<close>

definition uri_has_valid_scheme :: "string option \<Rightarrow> nat option" where
  "uri_has_valid_scheme v = (case v of
     None \<Rightarrow> None
   | Some s \<Rightarrow>
       if c_at s 0 = NUL \<or> \<not> is_alpha (c_at s 0) then None
       else (let p = c_scan scheme_char s 1
             in if c_at s p = CHR '':'' \<and> c_at s (p + 1) = CHR ''/'' \<and> c_at s (p + 2) = CHR ''/''
                then Some p else None))"

definition uri_is_url :: "string option \<Rightarrow> bool" where
  "uri_is_url v = (uri_has_valid_scheme v \<noteq> None)"

definition uri_put :: "char list option \<Rightarrow> string \<Rightarrow> char list option" where
  "uri_put buf s = map_option (\<lambda>b. c_snprintf b s) buf"

definition uri_normalize ::
  "cwk_path_style \<Rightarrow> (nat \<Rightarrow> char) \<Rightarrow> bool \<Rightarrow> string option \<Rightarrow> char list option \<Rightarrow> (nat \<times> char list option) option" where
  "uri_normalize st junk mem_ok uri buf = (case uri of
     None \<Rightarrow> Some (0, uri_put buf [])
   | Some s \<Rightarrow> (case uri_has_valid_scheme uri of
       None \<Rightarrow> Some (length s, uri_put buf s)
     | Some scheme_end \<Rightarrow>
         (let authority_start = scheme_end + 3;
              authority_end = c_scan (\<lambda>c. c \<noteq> CHR ''/'' \<and> c \<noteq> CHR ''?'' \<and> c \<noteq> CHR ''#'') s authority_start;
              path_end = c_scan (\<lambda>c. c \<noteq> CHR ''?'' \<and> c \<noteq> CHR ''#'') s authority_end;
              query_start = (if c_at s path_end = CHR ''?'' then Some path_end else None);
              fragment_start = (if c_at s path_end = CHR ''?'' then c_strchr s path_end CHR ''#''
                                else if c_at s path_end = CHR ''#'' then Some path_end else None);
              path_len = path_end - authority_end
          in do {
            r \<leftarrow> (if path_len = 0 then Some (Some (0, []))
                  else if \<not> mem_ok then Some None
                  else map_option Some (cwk_path_normalize st (c_sub s authority_end path_len)
                         (map junk [0..<path_len + 2])));
            (case r of
               None \<Rightarrow> Some (0, uri_put buf [])
             | Some (n, path_buf) \<Rightarrow>
                 (let query = (case query_start of Some q \<Rightarrow> drop q s | None \<Rightarrow> []);
                      fragment = (case query_start of
                          Some _ \<Rightarrow> []
                        | None \<Rightarrow> (case fragment_start of Some f \<Rightarrow> drop f s | None \<Rightarrow> []))
                  in Some (scheme_end + 3 + (authority_end - authority_start) + n + length query + length fragment,
                       uri_put buf (c_precision scheme_end s @ ''://'' @
                         c_precision (authority_end - authority_start) (drop authority_start s) @
                         (if n > 0 then c_str path_buf else []) @ query @ fragment))))
          })))"

section \<open>The parts of a URL\<close>

text \<open>The query and the fragment include the character that introduces them, or are empty.\<close>

record url =
  u_scheme :: string
  u_authority :: string
  u_path :: string
  u_query :: string
  u_fragment :: string

definition url_text :: "url \<Rightarrow> string" where
  "url_text u = u_scheme u @ ''://'' @ u_authority u @ u_path u @ u_query u @ u_fragment u"

definition no_end :: "char \<Rightarrow> bool" where
  "no_end c \<longleftrightarrow> c \<noteq> CHR ''?'' \<and> c \<noteq> CHR ''#''"

definition url_ok :: "url \<Rightarrow> bool" where
  "url_ok u \<longleftrightarrow>
     nonul (url_text u) \<and>
     u_scheme u \<noteq> [] \<and> is_alpha (hd (u_scheme u)) \<and> list_all scheme_char (u_scheme u) \<and>
     list_all (\<lambda>c. c \<noteq> CHR ''/'' \<and> no_end c) (u_authority u) \<and>
     (u_path u = [] \<or> hd (u_path u) = CHR ''/'') \<and> list_all no_end (u_path u) \<and>
     (u_query u = [] \<or> hd (u_query u) = CHR ''?'' \<and> CHR ''#'' \<notin> set (u_query u)) \<and>
     (u_fragment u = [] \<or> hd (u_fragment u) = CHR ''#'')"

lemma scheme_char_facts:
  "\<not> scheme_char CHR '':''" "is_alpha c \<Longrightarrow> scheme_char c" "\<not> scheme_char NUL"
  by (simp_all add: scheme_char_def is_alnum_def is_alpha_def is_digit_def)

lemma takeWhile_split:
  "\<exists>w post. s = w @ post \<and> list_all P w \<and> (post = [] \<or> \<not> P (hd post))"
proof (intro exI conjI)
  show "s = takeWhile P s @ dropWhile P s" by simp
  show "list_all P (takeWhile P s)" by (auto simp: list_all_iff dest: set_takeWhileD)
  show "dropWhile P s = [] \<or> \<not> P (hd (dropWhile P s))" using hd_dropWhile [of P s] by blast
qed

text \<open>Every URL has such parts.\<close>

lemma url_scheme_end:
  assumes "url_ok u"
  shows "uri_has_valid_scheme (Some (url_text u)) = Some (length (u_scheme u))"
proof -
  let ?rest = "u_authority u @ u_path u @ u_query u @ u_fragment u"
  obtain c v where sch: "u_scheme u = c # v" using assms by (cases "u_scheme u") (auto simp: url_ok_def)
  have s: "url_text u = [c] @ v @ CHR '':'' # CHR ''/'' # CHR ''/'' # ?rest" by (simp add: url_text_def sch)
  have c: "is_alpha c" "c \<noteq> NUL" and v: "list_all scheme_char v" "nonul v"
    using assms by (auto simp: url_ok_def sch url_text_def)
  have "c_scan scheme_char ([c] @ v @ CHR '':'' # CHR ''/'' # CHR ''/'' # ?rest) (length [c]) = length [c] + length v"
    using v by (intro c_scan_word) (simp_all add: scheme_char_facts)
  then have scan: "c_scan scheme_char (url_text u) 1 = Suc (length v)" unfolding s by simp
  have at: "c_at (url_text u) (Suc (length v) + i) = c_at (CHR '':'' # CHR ''/'' # CHR ''/'' # ?rest) i" for i
    unfolding s using c_at_append [of "[c] @ v" _ i] by simp
  have "c_at (url_text u) 0 = c" unfolding s by (simp add: c_at_0)
  then show ?thesis
    using scan c at [of 0] at [of 1] at [of 2]
    by (simp add: uri_has_valid_scheme_def Let_def sch c_at_def)
qed

lemma url_parts_exist:
  assumes "nonul s" and "uri_is_url (Some s)"
  shows "\<exists>u. url_ok u \<and> s = url_text u"
proof -
  obtain c t where s0: "s = c # t" using assms(2)
    by (cases s) (auto simp: uri_is_url_def uri_has_valid_scheme_def c_at_0)
  have c: "is_alpha c" using assms(2) s0
    by (auto simp: uri_is_url_def uri_has_valid_scheme_def c_at_0 split: if_splits)
  obtain v t1 where v: "t = v @ t1" "list_all scheme_char v" "t1 = [] \<or> \<not> scheme_char (hd t1)"
    using takeWhile_split by blast
  have nv: "nonul v" using assms(1) s0 v by simp
  have "c_scan scheme_char ([c] @ v @ t1) (length [c]) = length [c] + length v"
    using v nv by (intro c_scan_word) auto
  then have scan: "c_scan scheme_char s 1 = Suc (length v)" using s0 v by simp
  have at: "c_at s (Suc (length v) + i) = c_at t1 i" for i
    using c_at_append [of "[c] @ v" t1 i] s0 v by simp
  have "c_at t1 0 = CHR '':''" "c_at t1 1 = CHR ''/''" "c_at t1 2 = CHR ''/''"
    using assms(2) scan at [of 0] at [of 1] at [of 2]
    by (auto simp: uri_is_url_def uri_has_valid_scheme_def Let_def split: if_splits)
  then obtain rest where t1: "t1 = ''://'' @ rest"
    by (cases t1; cases "tl t1"; cases "tl (tl t1)") (auto simp: c_at_def)
  obtain a r1 where a: "rest = a @ r1" "list_all (\<lambda>c. c \<noteq> CHR ''/'' \<and> no_end c) a"
    "r1 = [] \<or> \<not> (hd r1 \<noteq> CHR ''/'' \<and> no_end (hd r1))" using takeWhile_split by blast
  obtain p r2 where p: "r1 = p @ r2" "list_all no_end p" "r2 = [] \<or> \<not> no_end (hd r2)"
    using takeWhile_split by blast
  have p0: "p = [] \<or> hd p = CHR ''/''"
    using a(3) p(1,2) by (cases p) auto
  obtain q f where q: "r2 = q @ f" "q = [] \<or> hd q = CHR ''?'' \<and> CHR ''#'' \<notin> set q" "f = [] \<or> hd f = CHR ''#''"
  proof (cases "r2 = [] \<or> hd r2 = CHR ''#''")
    case True
    then show ?thesis using that [of "[]" r2] by simp
  next
    case False
    then have hd: "hd r2 = CHR ''?''" using p(3) by (auto simp: no_end_def)
    obtain q f where "r2 = q @ f" "list_all (\<lambda>c. c \<noteq> CHR ''#'') q" "f = [] \<or> \<not> hd f \<noteq> CHR ''#''"
      using takeWhile_split by blast
    then show ?thesis using that [of q f] hd False by (cases q) (auto simp: list_all_iff)
  qed
  let ?u = "\<lparr>u_scheme = c # v, u_authority = a, u_path = p, u_query = q, u_fragment = f\<rparr>"
  have "s = url_text ?u" using s0 v t1 a p q by (simp add: url_text_def)
  moreover have "url_ok ?u"
    using assms(1) calculation c v a p p0 q by (simp add: url_ok_def scheme_char_facts)
  ultimately show ?thesis by blast
qed

text \<open>What normalization makes of the parts.\<close>

definition norm_path :: "cwk_path_style \<Rightarrow> string \<Rightarrow> string" where
  "norm_path st p = (if p = [] then [] else norm_text st [p])"

lemma weight_resolve:
  "sum_list (map (Suc \<circ> length) (resolve absolute stack ws)) \<le>
     sum_list (map (Suc \<circ> length) stack) + sum_list (map (Suc \<circ> length) ws)"
proof (induction absolute stack ws rule: resolve.induct)
  case (1 absolute stack)
  then show ?case by (simp add: rev_map [symmetric] sum_list_rev)
next
  case (2 absolute stack w ws)
  then show ?case by (cases stack) (auto split: cwk_segment_type.splits if_splits)
qed

lemma weight_toks: "sum_list (map (Suc \<circ> length) (toks P s)) \<le> Suc (length s)"
proof (induction "length s" arbitrary: s rule: less_induct)
  case less
  show ?case
  proof (cases rule: toks_first [where P = P and s = s])
    case none
    then show ?thesis by simp
  next
    case (some seps w post)
    show ?thesis
    proof (cases post)
      case Nil
      with some show ?thesis by simp
    next
      case (Cons d u)
      then have "toks P post = toks P u" using some(5) by simp
      moreover have "sum_list (map (Suc \<circ> length) (toks P u)) \<le> Suc (length u)"
        using less [of u] some(1) Cons by simp
      ultimately show ?thesis using some Cons by simp
    qed
  qed
qed

lemma length_join_words: "ws \<noteq> [] \<Longrightarrow> Suc (length (join_words d ws)) = sum_list (map (Suc \<circ> length) ws)"
  by (induction d ws rule: join_words.induct) auto

text \<open>The normal form of an absolute path is not longer than the path.\<close>

lemma norm_path_length:
  assumes "p = [] \<or> hd p = CHR ''/''"
  shows "length (norm_path CWK_STYLE_UNIX p) \<le> length p" "p \<noteq> [] \<Longrightarrow> norm_path CWK_STYLE_UNIX p \<noteq> []"
proof -
  let ?W = "norm_words CWK_STYLE_UNIX [p]"
  have tx: "norm_path CWK_STYLE_UNIX p = CHR ''/'' # join_words (CHR ''/'') ?W" if "p \<noteq> []"
    using that assms by (auto simp: norm_path_def norm_text_def Let_def root_text_unix absolute_unix norm_words_def)
  then show "p \<noteq> [] \<Longrightarrow> norm_path CWK_STYLE_UNIX p \<noteq> []" by simp
  show "length (norm_path CWK_STYLE_UNIX p) \<le> length p"
  proof (cases p)
    case Nil
    then show ?thesis by (simp add: norm_path_def)
  next
    case (Cons c t)
    then have c: "slash c" using assms by simp
    have "sum_list (map (Suc \<circ> length) ?W) \<le> sum_list (map (Suc \<circ> length) (path_toks CWK_STYLE_UNIX p))"
      using weight_resolve [of _ "[]"] by (simp add: norm_words_def toks_from_unix)
    also have "\<dots> \<le> Suc (length t)" using weight_toks [of "cwk_path_is_separator CWK_STYLE_UNIX" t] c Cons by simp
    finally have "length (join_words (CHR ''/'') ?W) \<le> length t"
      using length_join_words [of ?W "CHR ''/''"] by (cases "?W = []") auto
    then show ?thesis using tx Cons by simp
  qed
qed

lemma nonul_norm_path: "nonul p \<Longrightarrow> nonul (norm_path st p)"
  using nonul_norm_text [OF paths_ok_single] by (simp add: norm_path_def)

definition url_norm :: "url \<Rightarrow> url" where
  "url_norm u = u\<lparr>u_path := norm_path CWK_STYLE_UNIX (u_path u)\<rparr>"

lemma uri_normalize_path_buffer:
  assumes "nonul p" and "p = [] \<or> hd p = CHR ''/''"
  shows "\<exists>b. cwk_path_normalize CWK_STYLE_UNIX p (map junk [0..<length p + 2]) = Some (length (norm_text CWK_STYLE_UNIX [p]), b) \<and>
     (p \<noteq> [] \<longrightarrow> c_str b = norm_path CWK_STYLE_UNIX p)"
proof -
  from join_normalize_spec [OF paths_ok_single [OF assms(1)], of CWK_STYLE_UNIX "map junk [0..<length p + 2]"]
  obtain b where b: "cwk_path_normalize CWK_STYLE_UNIX p (map junk [0..<length p + 2]) = Some (length (norm_text CWK_STYLE_UNIX [p]), b)"
    "c_str b = take (length p + 1) (norm_text CWK_STYLE_UNIX [p])" by (auto simp: cwk_path_normalize_def)
  then show ?thesis using norm_path_length(1) [OF assms(2)] by (auto simp: norm_path_def)
qed

lemma drop_append_length: "drop (length u) (u @ v) = v"
  by simp

lemma uri_normalize_url:
  assumes ok: "url_ok u" and short: "length (url_text u) < 2 ^ 31"
  shows "uri_normalize CWK_STYLE_UNIX junk True (Some (url_text u)) buf =
    Some (length (url_text (url_norm u)), uri_put buf (url_text (url_norm u)))"
proof -
  let ?s = "url_text u" and ?A = "u_authority u" and ?P = "u_path u" and ?Q = "u_query u" and ?F = "u_fragment u"
  let ?U = "u_scheme u @ ''://''" and ?e = "length (u_scheme u)"
  have s: "?s = ?U @ ?A @ ?P @ ?Q @ ?F" by (simp add: url_text_def)
  have lU: "length ?U = ?e + 3" by simp
  have nn: "nonul ?s" using ok by (simp add: url_ok_def)
  then have nul: "nonul ?A" "nonul ?P" "nonul ?Q" "nonul ?F" by (simp_all add: s)
  note sch = url_scheme_end [OF ok]
  have "c_scan (\<lambda>c. c \<noteq> CHR ''/'' \<and> c \<noteq> CHR ''?'' \<and> c \<noteq> CHR ''#'') (?U @ ?A @ ?P @ ?Q @ ?F) (length ?U) = length ?U + length ?A"
    by (rule c_scan_word) (use ok nul in \<open>auto simp: url_ok_def no_end_def hd_append list_all_iff\<close>)
  then have auth: "c_scan (\<lambda>c. c \<noteq> CHR ''/'' \<and> c \<noteq> CHR ''?'' \<and> c \<noteq> CHR ''#'') ?s (?e + 3) = ?e + 3 + length ?A"
    unfolding s lU .
  have "c_scan (\<lambda>c. c \<noteq> CHR ''?'' \<and> c \<noteq> CHR ''#'') ((?U @ ?A) @ ?P @ ?Q @ ?F) (length (?U @ ?A)) = length (?U @ ?A) + length ?P"
    by (rule c_scan_word) (use ok nul in \<open>auto simp: url_ok_def no_end_def hd_append list_all_iff\<close>)
  then have path: "c_scan (\<lambda>c. c \<noteq> CHR ''?'' \<and> c \<noteq> CHR ''#'') ?s (?e + 3 + length ?A) = ?e + 3 + length ?A + length ?P"
    unfolding s by (simp add: numeral_3_eq_3)
  have at: "c_at ?s (?e + 3 + length ?A + length ?P) = c_at (?Q @ ?F) 0"
    using c_at_append0 [of "?U @ ?A @ ?P" "?Q @ ?F"] by (simp add: s numeral_3_eq_3 add.assoc)
  have "length ?A < 2 ^ 31" "?e < 2 ^ 31" using short unfolding s by simp_all
  note prec = this [THEN c_precision_take]
  have "drop (?e + 3) ?s = ?A @ ?P @ ?Q @ ?F" using drop_append_length [of ?U "?A @ ?P @ ?Q @ ?F"] unfolding s lU .
  then have subA: "c_precision (length ?A) (drop (?e + 3) ?s) = ?A" unfolding prec by simp
  have subP: "c_sub ?s (?e + 3 + length ?A) (length ?P) = ?P" using c_sub_mid [of "?U @ ?A" ?P "?Q @ ?F"] by (simp add: s numeral_3_eq_3)
  have takeS: "c_precision ?e ?s = u_scheme u" unfolding prec by (simp add: url_text_def)
  have dropR: "drop (?e + 3 + length ?A + length ?P) ?s = ?Q @ ?F"
    using drop_append_length [of "?U @ ?A @ ?P" "?Q @ ?F"] by (simp add: s numeral_3_eq_3 add.assoc)
  obtain b where b: "cwk_path_normalize CWK_STYLE_UNIX ?P (map junk [0..<length ?P + 2]) =
      Some (length (norm_text CWK_STYLE_UNIX [?P]), b)" "?P \<noteq> [] \<longrightarrow> c_str b = norm_path CWK_STYLE_UNIX ?P"
    using uri_normalize_path_buffer [OF nul(2), of junk] ok by (auto simp: url_ok_def)
  let ?r = "if length ?P = 0 then Some (Some (0, [])) else if \<not> True then Some None
      else map_option Some (cwk_path_normalize CWK_STYLE_UNIX ?P (map junk [0..<length ?P + 2]))"
  obtain b' where r: "?r = Some (Some (length (norm_path CWK_STYLE_UNIX ?P), b'))"
    and b': "norm_path CWK_STYLE_UNIX ?P \<noteq> [] \<Longrightarrow> c_str b' = norm_path CWK_STYLE_UNIX ?P"
    using b by (cases "?P = []") (auto simp: norm_path_def)
  have tails: "(case (if c_at (?Q @ ?F) 0 = CHR ''?'' then Some (?e + 3 + length ?A + length ?P) else None) of
        Some q \<Rightarrow> drop q ?s | None \<Rightarrow> []) = (if ?Q = [] then [] else ?Q @ ?F)"
    "?Q = [] \<Longrightarrow> c_at (?Q @ ?F) 0 = CHR ''#'' \<or> ?F = [] \<and> c_at (?Q @ ?F) 0 = NUL"
    "?Q = [] \<Longrightarrow> c_at (?Q @ ?F) 0 \<noteq> CHR ''?''" "?Q \<noteq> [] \<Longrightarrow> c_at (?Q @ ?F) 0 = CHR ''?''"
    using ok dropR by (auto simp: url_ok_def c_at_0 hd_append)
  let ?N = "norm_path CWK_STYLE_UNIX ?P"
  define t where t: "t = ?s"
  have len: "length (url_text (url_norm u)) = ?e + 3 + length ?A + length ?N + length ?Q + length ?F"
    by (simp add: url_text_def url_norm_def)
  have tx: "url_text (url_norm u) = u_scheme u @ ''://'' @ ?A @ ?N @ ?Q @ ?F"
    by (simp add: url_text_def url_norm_def)
  note facts = sch auth path at subA subP takeS dropR
  have off: "?e + 3 + length ?A - (?e + 3) = length ?A"
    "?e + 3 + length ?A + length ?P - (?e + 3 + length ?A) = length ?P" by simp_all
  show ?thesis
  proof (cases "?Q = []")
    case True
    with tails show ?thesis
      unfolding uri_normalize_def option.case sch len tx
      unfolding option.case Let_def t [symmetric]
      unfolding facts [folded t]
      unfolding facts [folded t] off r
      by (auto simp: b' dropR [folded t])
  next
    case False
    with tails show ?thesis
      unfolding uri_normalize_def option.case sch len tx
      unfolding option.case Let_def t [symmetric]
      unfolding facts [folded t]
      unfolding facts [folded t] off r
      by (auto simp: b' dropR [folded t])
  qed
qed

lemma url_norm_ok: "url_ok u \<Longrightarrow> url_ok (url_norm u)"
proof -
  assume ok: "url_ok u"
  let ?P = "u_path u" and ?N = "norm_path CWK_STYLE_UNIX (u_path u)"
  have nn: "nonul ?P" "?P = [] \<or> hd ?P = CHR ''/''" "list_all no_end ?P"
    using ok by (auto simp: url_ok_def url_text_def)
  have N: "?N = [] \<or> hd ?N = CHR ''/''"
    using nn(2) by (auto simp: norm_path_def norm_text_def Let_def root_text_unix absolute_unix)
  have words: "set w \<subseteq> set ?P" if "w \<in> set (norm_words CWK_STYLE_UNIX [?P])" for w
    using that resolve_subset [of _ "[]"] set_toks_from [of w CWK_STYLE_UNIX "[?P]"]
    by (auto simp: norm_words_def)
  have join: "set (join_words d ws) \<subseteq> insert d (\<Union>w \<in> set ws. set w)" for d ws
    by (induction d ws rule: join_words.induct) auto
  have "set ?N \<subseteq> {CHR ''/'', CHR ''.''} \<union> set ?P"
  proof (cases "?P = []")
    case False
    have "set (norm_text CWK_STYLE_UNIX [?P]) \<subseteq>
        {CHR ''/'', CHR ''.''} \<union> set (join_words (CHR ''/'') (norm_words CWK_STYLE_UNIX [?P]))"
      by (auto simp: norm_text_def Let_def root_text_unix)
    also have "\<dots> \<subseteq> {CHR ''/'', CHR ''.''} \<union> set ?P"
      using join [of "CHR ''/''" "norm_words CWK_STYLE_UNIX [?P]"] words by blast
    finally show ?thesis using False by (simp add: norm_path_def)
  qed (simp add: norm_path_def)
  then have "list_all no_end ?N" using nn(3) by (auto simp: list_all_iff no_end_def)
  then show ?thesis
    using ok N nonul_norm_path [OF nn(1), of CWK_STYLE_UNIX] by (simp add: url_ok_def url_text_def url_norm_def)
qed

lemma url_norm_idem: "url_norm (url_norm u) = url_norm u"
  using norm_text_idem [of "[u_path u]"] by (auto simp: url_norm_def norm_path_def)

section \<open>Properties\<close>

text \<open>
  C27. Every URL shorter than \<open>2 ^ 31\<close> splits into scheme, authority, path, query and fragment, and
  \<open>uri_normalize\<close> replaces its path by the normal form and nothing else; the length it returns
  is that of the whole result, of which the buffer receives what fits. Paths are in Unix style and the two buffers can be allocated.
\<close>

theorem uri_normalize_changes_path_only:
  assumes "nonul s" and "uri_is_url (Some s)" and "length s < 2 ^ 31"
  shows "\<exists>u. url_ok u \<and> s = url_text u \<and>
    (let t = url_text (u\<lparr>u_path := norm_path CWK_STYLE_UNIX (u_path u)\<rparr>) in
     uri_normalize CWK_STYLE_UNIX junk True (Some s) buf = Some (length t, uri_put buf t))"
proof -
  obtain u where u: "url_ok u" "s = url_text u" using url_parts_exist [OF assms(1,2)] by blast
  then show ?thesis using uri_normalize_url [OF u(1)] assms(3) by (auto simp: url_norm_def Let_def)
qed

theorem uri_normalize_changes_path_only_witness:
  "\<exists>b. uri_normalize CWK_STYLE_UNIX (\<lambda>_. NUL) True (Some ''http://h/a/../b?q/../r#f'') (Some (replicate 32 NUL)) = Some (19, Some b) \<and>
    c_str b = ''http://h/b?q/../r#f''"
proof -
  let ?s = "''http://h/a/../b?q/../r#f''"
  let ?r = "uri_normalize CWK_STYLE_UNIX (\<lambda>_. NUL) True (Some ?s) (Some (replicate 32 NUL))"
  have "uri_is_url (Some ?s)" by code_simp
  from uri_normalize_changes_path_only [OF _ this, of "\<lambda>_. NUL" "Some (replicate 32 NUL)"]
  obtain t where t: "?r = Some (length t, uri_put (Some (replicate 32 NUL)) t)" by (auto simp: Let_def)
  have "map_option (\<lambda>(n, b). (n, map_option c_str b)) ?r = Some (19, Some ''http://h/b?q/../r#f'')" by code_simp
  with t show ?thesis by (auto simp: uri_put_def)
qed

text \<open>
  Normalizing is idempotent: a string that is not a URL is copied unchanged, and normalizing the
  result of a URL once more gives the same text and the same length.
\<close>

theorem uri_normalize_stable:
  assumes "nonul s" and "length s + 1 < length buf" and "length s < 2 ^ 31"
  shows "\<exists>n b. uri_normalize CWK_STYLE_UNIX junk True (Some s) (Some buf) = Some (n, Some b) \<and>
    (uri_is_url (Some s) \<or> c_str b = s) \<and>
    (n < length buf' \<longrightarrow> (\<exists>b'. uri_normalize CWK_STYLE_UNIX junk' True (Some (c_str b)) (Some buf') = Some (n, Some b') \<and>
      c_str b' = c_str b))"
proof (cases "uri_is_url (Some s)")
  case True
  obtain u where u: "url_ok u" "s = url_text u" using url_parts_exist [OF assms(1) True] by blast
  let ?t = "url_text (url_norm u)"
  have ok: "url_ok (url_norm u)" using url_norm_ok [OF u(1)] .
  then have nn: "nonul ?t" by (simp add: url_ok_def)
  have "length ?t \<le> length s"
    using u norm_path_length(1) [of "u_path u"] by (auto simp: url_text_def url_norm_def url_ok_def)
  then have short: "length ?t < 2 ^ 31" and "length ?t < length buf" using assms(2,3) by linarith+
  then have b: "c_str (c_snprintf buf ?t) = ?t" using c_snprintf_fits [OF nn] by simp
  have one: "uri_normalize CWK_STYLE_UNIX junk True (Some s) (Some buf) = Some (length ?t, Some (c_snprintf buf ?t))"
    using uri_normalize_url [OF u(1)] u(2) assms(3) by (simp add: uri_put_def)
  have two: "uri_normalize CWK_STYLE_UNIX junk' True (Some ?t) (Some buf') = Some (length ?t, Some (c_snprintf buf' ?t))"
    using uri_normalize_url [OF ok short] by (simp add: uri_put_def url_norm_idem)
  have "c_str (c_snprintf buf' ?t) = ?t" if "length ?t < length buf'"
    using c_snprintf_fits [OF nn] that by simp
  with one two True b show ?thesis by auto
next
  case False
  then have not: "uri_has_valid_scheme (Some s) = None" by (simp add: uri_is_url_def)
  have b: "c_str (c_snprintf buf s) = s" using c_snprintf_fits [OF assms(1)] assms(2) by simp
  have one: "uri_normalize CWK_STYLE_UNIX j True (Some s) (Some bf) = Some (length s, Some (c_snprintf bf s))" for j bf
    using not by (simp add: uri_normalize_def uri_put_def)
  have "c_str (c_snprintf buf' s) = s" if "length s < length buf'"
    using c_snprintf_fits [OF assms(1)] that by simp
  with one b show ?thesis by auto
qed

theorem uri_normalize_stable_witness:
  "\<exists>n b. uri_normalize CWK_STYLE_UNIX (\<lambda>_. NUL) True (Some ''a/../b'') (Some (replicate 9 NUL)) = Some (n, Some b) \<and>
    c_str b = ''a/../b''"
proof -
  have "\<not> uri_is_url (Some ''a/../b'')" by code_simp
  with uri_normalize_stable [of "''a/../b''" "replicate 9 NUL" "\<lambda>_. NUL" "[]" "\<lambda>_. NUL"] show ?thesis by auto
qed

end
