(* ===== verification/CwalkInPlace.thy ===== *)
theory CwalkInPlace
  imports CwalkNormalize
begin

text \<open>
  Joining a path onto the path that is in the output buffer, as \<^verbatim>\<open>src/path/path.c\<close> does. For an
  absolute path this is sound: its tests only look forward, and what has been written never
  reaches past the segment that is being read. For a relative path it is not: the test for a
  double dot walks back over text that may have been overwritten.
\<close>

section \<open>Cursors that only look forward\<close>

definition fwd_at :: "cwk_path_style \<Rightarrow> string \<Rightarrow> cwk_segment \<Rightarrow> string \<Rightarrow> string list \<Rightarrow> bool" where
  "fwd_at st s seg w after \<longleftrightarrow>
     sg_size seg = length w \<and> w \<noteq> [] \<and> list_all (\<lambda>d. \<not> cwk_path_is_separator st d) w \<and>
     (\<exists>u post. s = u @ w @ post \<and> length u = sg_begin seg \<and>
        (post = [] \<or> cwk_path_is_separator st (hd post)) \<and> path_toks st post = after)"

lemma fwd_of_seg_at: "seg_at st s r seg before w after \<Longrightarrow> fwd_at st s seg w after"
  unfolding seg_at_def fwd_at_def
proof (elim exE conjE, intro conjI)
  fix h pre post
  assume s: "s = h @ pre @ w @ post" "length h = r" and post: "post = [] \<or> cwk_path_is_separator st (hd post)"
    "path_toks st post = after"
    and seg: "seg = \<lparr>sg_segments = r, sg_begin = r + length pre, sg_end = r + length pre + length w, sg_size = length w\<rparr>"
  show "\<exists>u post. s = u @ w @ post \<and> length u = sg_begin seg \<and>
      (post = [] \<or> cwk_path_is_separator st (hd post)) \<and> path_toks st post = after"
    by (rule exI [of _ "h @ pre"], rule exI [of _ post]) (use s post seg in simp)
qed simp_all

lemma seg_at_of_fwd:
  assumes "fwd_at st s seg w after"
  shows "seg_at st s (sg_begin seg) \<lparr>sg_segments = sg_begin seg, sg_begin = sg_begin seg,
    sg_end = sg_begin seg + length w, sg_size = length w\<rparr> [] w after"
proof -
  from assms obtain u post where s: "s = u @ w @ post" "length u = sg_begin seg"
    "post = [] \<or> cwk_path_is_separator st (hd post)" "path_toks st post = after"
    and w: "w \<noteq> []" "list_all (\<lambda>d. \<not> cwk_path_is_separator st d) w" by (auto simp: fwd_at_def)
  show ?thesis unfolding seg_at_def
    by (rule exI [of _ u], rule exI [of _ "[]"], rule exI [of _ post]) (use s w in simp)
qed

lemma next_segment_depends:
  "sg_begin seg = sg_begin seg1 \<Longrightarrow> sg_size seg = sg_size seg1 \<Longrightarrow>
     fst (cwk_path_get_next_segment st s seg) = fst (cwk_path_get_next_segment st s seg1) \<and>
     sg_begin (snd (cwk_path_get_next_segment st s seg)) = sg_begin (snd (cwk_path_get_next_segment st s seg1)) \<and>
     sg_size (snd (cwk_path_get_next_segment st s seg)) = sg_size (snd (cwk_path_get_next_segment st s seg1))"
  by (auto simp: cwk_path_get_next_segment_def Let_def)

lemma fwd_at_cong: "sg_begin seg = sg_begin seg1 \<Longrightarrow> sg_size seg = sg_size seg1 \<Longrightarrow> fwd_at st s seg w after = fwd_at st s seg1 w after"
  by (simp add: fwd_at_def)

lemma next_segment_fwd:
  assumes "nonul s" and "fwd_at st s seg w after"
  shows "case after of
      [] \<Rightarrow> \<not> fst (cwk_path_get_next_segment st s seg)
    | v # vs \<Rightarrow> \<exists>seg'. cwk_path_get_next_segment st s seg = (True, seg') \<and> fwd_at st s seg' v vs \<and>
        sg_begin seg + length w < sg_begin seg'"
proof -
  let ?seg = "\<lparr>sg_segments = sg_begin seg, sg_begin = sg_begin seg, sg_end = sg_begin seg + length w, sg_size = length w\<rparr>"
  have same: "sg_begin seg = sg_begin ?seg" "sg_size seg = sg_size ?seg" using assms(2) by (auto simp: fwd_at_def)
  note dep = next_segment_depends [OF same, of st s]
  note at = next_segment_at [OF assms(1) seg_at_of_fwd [OF assms(2)]]
  show ?thesis
  proof (cases after)
    case Nil
    with at dep show ?thesis by simp
  next
    case (Cons v vs)
    with at obtain seg1 where seg1: "cwk_path_get_next_segment st s ?seg = (True, seg1)"
      "seg_at st s (sg_begin seg) seg1 [w] v vs" by auto
    obtain b seg' where n: "cwk_path_get_next_segment st s seg = (b, seg')" by fastforce
    have b: "b" "sg_begin seg' = sg_begin seg1" "sg_size seg' = sg_size seg1" using dep n seg1(1) by auto
    have "fwd_at st s seg' v vs" using fwd_of_seg_at [OF seg1(2)] fwd_at_cong [OF b(2,3)] by simp
    moreover have "sg_begin seg + length w < sg_begin seg'"
    proof -
      have c: "sg_begin seg + sg_size seg < sg_begin seg'"
      proof -
        have ge: "c \<le> cwk_skip_separators st s c" for c
          by (induction st s c rule: cwk_skip_separators.induct) (subst cwk_skip_separators.simps, auto)
        show ?thesis using n b(1) ge [of "Suc (sg_begin seg + sg_size seg)"]
          by (auto simp: cwk_path_get_next_segment_def Let_def split: if_splits)
      qed
      then show ?thesis using same by simp
    qed
    ultimately show ?thesis using n b(1) Cons by auto
  qed
qed

text \<open>Only the text from the segment on matters.\<close>

lemma fwd_at_suffix:
  assumes "fwd_at st s seg w after" and "drop (sg_begin seg) s' = drop (sg_begin seg) s" and "length s' = length s"
  shows "fwd_at st s' seg w after"
proof -
  from assms(1) obtain u post where s: "s = u @ w @ post" "length u = sg_begin seg"
    "post = [] \<or> cwk_path_is_separator st (hd post)" "path_toks st post = after" by (auto simp: fwd_at_def)
  have "s' = take (sg_begin seg) s' @ w @ post" "length (take (sg_begin seg) s') = sg_begin seg"
    using s(1,2) assms(2,3) by (metis append_eq_conv_conj append_take_drop_id, simp)
  with assms(1) s show ?thesis unfolding fwd_at_def by blast
qed

section \<open>The same for several paths\<close>

definition fsj_at :: "cwk_path_style \<Rightarrow> string list \<Rightarrow> cwk_segment_joined \<Rightarrow> string \<Rightarrow> string list \<Rightarrow> bool" where
  "fsj_at st paths sj w after \<longleftrightarrow>
     sj_index sj < length paths \<and>
     (\<exists>a. fwd_at st (paths ! sj_index sj) (sj_segment sj) w a \<and> after = a @ toks_from st paths (Suc (sj_index sj)))"

lemma fsj_of_sj_at: "sj_at st paths sj before w after \<Longrightarrow> fsj_at st paths sj w after"
  unfolding sj_at_def fsj_at_def using fwd_of_seg_at by blast

lemma fsj_type_at:
  assumes "\<forall>p \<in> set paths. nonul p" and "fsj_at st paths sj w after"
  shows "sj_type paths sj = word_type w"
proof -
  from assms(2) obtain a where i: "sj_index sj < length paths" and f: "fwd_at st (paths ! sj_index sj) (sj_segment sj) w a"
    by (auto simp: fsj_at_def)
  have "nonul (paths ! sj_index sj)" using assms(1) i by simp
  from segment_type_at [OF this seg_at_of_fwd [OF f]] f show ?thesis
    by (auto simp: sj_type_def cwk_path_get_segment_type_def fwd_at_def)
qed

lemma fsj_text_at:
  assumes "fsj_at st paths sj w after"
  shows "c_sub (paths ! sj_index sj) (sg_begin (sj_segment sj)) (sg_size (sj_segment sj)) = w"
proof -
  from assms obtain u post where "paths ! sj_index sj = u @ w @ post" "length u = sg_begin (sj_segment sj)"
    "sg_size (sj_segment sj) = length w" by (auto simp: fsj_at_def fwd_at_def)
  then show ?thesis using c_sub_mid [of u w post] by simp
qed

lemma next_joined_fwd:
  assumes ok: "paths_ok st paths" and at: "fsj_at st paths sj w after"
  shows "case after of
      [] \<Rightarrow> \<not> fst (cwk_path_get_next_segment_joined st paths sj)
    | v # vs \<Rightarrow> \<exists>sj'. cwk_path_get_next_segment_joined st paths sj = (True, sj') \<and> fsj_at st paths sj' v vs \<and>
        (sj_index sj' = sj_index sj \<longrightarrow> sg_begin (sj_segment sj) + length w < sg_begin (sj_segment sj'))"
proof -
  let ?i = "sj_index sj"
  from at obtain a where i: "?i < length paths" and seg: "fwd_at st (paths ! ?i) (sj_segment sj) w a"
    and after: "after = a @ toks_from st paths (Suc ?i)" by (auto simp: fsj_at_def)
  note nn = paths_ok_nonul [OF ok i]
  note step = next_segment_fwd [OF nn seg]
  show ?thesis
  proof (cases a)
    case (Cons v vs)
    with step obtain seg' where n: "cwk_path_get_next_segment st (paths ! ?i) (sj_segment sj) = (True, seg')"
      "fwd_at st (paths ! ?i) seg' v vs" "sg_begin (sj_segment sj) + length w < sg_begin seg'" by auto
    then have "fsj_at st paths (sj\<lparr>sj_segment := seg'\<rparr>) v (vs @ toks_from st paths (Suc ?i))"
      using i by (simp add: fsj_at_def)
    with n i Cons after show ?thesis by (simp add: cwk_path_get_next_segment_joined_def)
  next
    case Nil
    with step have loop: "cwk_path_get_next_segment_joined st paths sj = cwk_next_joined_loop st paths sj"
      using i by (auto simp: cwk_path_get_next_segment_joined_def split: prod.splits)
    note l = next_joined_loop_at [OF ok i]
    show ?thesis
    proof (cases "toks_from st paths (Suc ?i)")
      case Nil
      with l \<open>a = []\<close> after show ?thesis unfolding loop by simp
    next
      case (Cons v vs)
      with l obtain sj' where "cwk_next_joined_loop st paths sj = (True, sj')"
        "sj_at st paths sj' (toks_upto st paths (Suc ?i)) v vs" by auto
      with next_joined_loop_index [OF this(1)] fsj_of_sj_at [OF this(2)] Cons \<open>a = []\<close> after
      show ?thesis unfolding loop by simp
    qed
  qed
qed

lemma normal_removed_fwd:
  "paths_ok st paths \<Longrightarrow> fsj_at st paths sj w after \<Longrightarrow>
     cwk_normal_removed_loop st paths sj c = normal_removed after c"
proof (induction after arbitrary: sj w c)
  case Nil
  then have "\<not> fst (cwk_path_get_next_segment_joined st paths sj)" using next_joined_fwd by fastforce
  then show ?case by (subst cwk_normal_removed_loop.simps) simp
next
  case (Cons x after)
  from next_joined_fwd [OF Cons.prems] obtain sj' where
    p: "cwk_path_get_next_segment_joined st paths sj = (True, sj')" "fsj_at st paths sj' x after" by auto
  have "\<forall>p \<in> set paths. nonul p" using Cons.prems(1) by (simp add: paths_ok_def)
  from fsj_type_at [OF this p(2)] have ty: "sj_type paths sj' = word_type x" .
  show ?case
    using Cons.IH [OF Cons.prems(1) p(2)]
    by (subst cwk_normal_removed_loop.simps) (simp add: p(1) ty Let_def split: cwk_segment_type.splits)
qed

lemma removed_fwd:
  assumes "paths_ok st paths" and "fsj_at st paths sj w after"
  shows "cwk_path_segment_will_be_removed st paths sj True = word_removed True before w after"
proof -
  have "\<forall>p \<in> set paths. nonul p" using assms(1) by (simp add: paths_ok_def)
  from fsj_type_at [OF this assms(2)] normal_removed_fwd [OF assms] show ?thesis
    by (simp add: cwk_path_segment_will_be_removed_def word_removed_def Let_def
        cwk_path_segment_normal_will_be_removed_def split: cwk_segment_type.splits)
qed

section \<open>The loop in place\<close>

text \<open>
  While the cursor is in the buffer's own path \<open>p\<close>, the buffer still holds everything of \<open>p\<close>
  from the cursor on; the text written so far ends before the cursor.
\<close>

definition intact :: "char list \<Rightarrow> string \<Rightarrow> nat \<Rightarrow> bool" where
  "intact buf p k \<longleftrightarrow> (\<exists>u rest. buf = u @ drop k p @ NUL # rest \<and> length u = k \<and> k \<le> length p \<and> nonul u)"

lemma intact_text:
  "intact buf p k \<Longrightarrow> nonul p \<Longrightarrow>
     nonul (c_str (buf @ beyond)) \<and> length (c_str (buf @ beyond)) = length p \<and> drop k (c_str (buf @ beyond)) = drop k p"
proof -
  assume i: "intact buf p k" and n: "nonul p"
  then obtain u rest where b: "buf = u @ drop k p @ NUL # rest" "length u = k" "k \<le> length p" "nonul u"
    by (auto simp: intact_def)
  have "nonul (take k p @ drop k p)" using n by simp
  then have "nonul (u @ drop k p)" using b(4) by (simp only: nonul_append)
  then have "c_str ((u @ drop k p) @ NUL # (rest @ beyond)) = u @ drop k p" by (rule c_str_nul)
  then have "c_str (buf @ beyond) = u @ drop k p" by (simp add: b(1))
  then show ?thesis using b \<open>nonul (u @ drop k p)\<close> by simp
qed

lemma intact_later: "intact buf p k \<Longrightarrow> nonul p \<Longrightarrow> k \<le> j \<Longrightarrow> j \<le> length p \<Longrightarrow> intact buf p j"
proof -
  assume i: "intact buf p k" and n: "nonul p" and j: "k \<le> j" "j \<le> length p"
  then obtain u rest where b: "buf = u @ drop k p @ NUL # rest" "length u = k" "nonul u" by (auto simp: intact_def)
  have split: "drop k p = take (j - k) (drop k p) @ drop j p"
    using j by (metis append_take_drop_id drop_drop le_add_diff_inverse2)
  have "nonul (take (j - k) (drop k p))" using n by (auto simp: nonul_def dest: in_set_takeD in_set_dropD)
  then show ?thesis unfolding intact_def
    by (intro exI [of _ "u @ take (j - k) (drop k p)"] exI [of _ rest]) (use b split j in auto)
qed

text \<open>Writing below the cursor keeps what follows it.\<close>

lemma output_sized_intact:
  assumes "intact buf p k" and "nonul s" and "pos + length s \<le> k"
  shows "intact (snd (cwk_path_output_sized buf pos s)) p k"
proof -
  from assms(1) obtain u rest where b: "buf = u @ drop k p @ NUL # rest" "length u = k" "k \<le> length p" "nonul u"
    by (auto simp: intact_def)
  let ?u = "take pos u @ s @ drop (pos + length s) u"
  have lu: "length ?u = k" using b(2) assms(3) by simp
  have nu: "nonul ?u" using b(4) assms(2) by (auto simp: nonul_def dest: in_set_takeD in_set_dropD)
  have long: "length buf > pos + length s" using b(1,2) assms(3) by simp
  have "snd (cwk_path_output_sized buf pos s) = ?u @ drop k p @ NUL # rest"
    using long b(1,2) assms(3) by (cases s) (auto simp: cwk_path_output_sized_def Let_def)
  with lu nu b(3) show ?thesis unfolding intact_def by blast
qed

lemma rd_in_place_ok:
  assumes "intact buf p k" and "nonul p" and "nonul q"
  shows "paths_ok CWK_STYLE_UNIX (rd_in_place beyond [q] buf)"
  using assms intact_text [OF assms(1,2), of beyond] by (intro paths_ok_unix) (auto simp: rd_in_place_def)

lemma toks_from_in_place [simp]:
  "toks_from CWK_STYLE_UNIX (rd_in_place beyond [q] buf) (Suc 0) = path_toks CWK_STYLE_UNIX q"
  "length (rd_in_place beyond [q] buf) = 2" "rd_in_place beyond [q] buf ! Suc 0 = q"
  "toks_from CWK_STYLE_UNIX (rd_in_place beyond [q] buf) 2 = []"
  by (simp_all add: toks_from_def tk_def rd_in_place_def)

text \<open>The cursor as it stands for a given buffer, in the first or in the second path.\<close>

definition place_at ::
  "char list \<Rightarrow> string \<Rightarrow> string \<Rightarrow> char list \<Rightarrow> cwk_segment_joined \<Rightarrow> nat \<Rightarrow> string \<Rightarrow> string list \<Rightarrow> bool" where
  "place_at beyond p q buf sj used w after \<longleftrightarrow>
     fsj_at CWK_STYLE_UNIX (rd_in_place beyond [q] buf) sj w after \<and>
     (sj_index sj = 0 \<longrightarrow> intact buf p (sg_begin (sj_segment sj)) \<and> used \<le> sg_begin (sj_segment sj))"

lemma toks_from_in_place2 [simp]: "toks_from CWK_STYLE_UNIX (rd_in_place beyond [q] buf) (Suc (Suc 0)) = []"
  by simp

lemma fsj_at_second:
  "sj_index sj \<noteq> 0 \<Longrightarrow> fsj_at CWK_STYLE_UNIX (rd_in_place beyond [q] buf) sj w after \<longleftrightarrow>
     sj_index sj = 1 \<and> fwd_at CWK_STYLE_UNIX q (sj_segment sj) w after"
  by (cases "sj_index sj = 1") (auto simp: fsj_at_def)

lemma fsj_at_first:
  "sj_index sj = 0 \<Longrightarrow> fsj_at CWK_STYLE_UNIX (rd_in_place beyond [q] buf) sj w after \<longleftrightarrow>
     (\<exists>a. fwd_at CWK_STYLE_UNIX (c_str (buf @ beyond)) (sj_segment sj) w a \<and> after = a @ path_toks CWK_STYLE_UNIX q)"
  by (simp add: fsj_at_def rd_in_place_def [of beyond "[q]" buf, symmetric]) (simp add: rd_in_place_def)

text \<open>Moving on reads only what follows the segment.\<close>

lemma skip_separators_suffix:
  "(\<And>i. c \<le> i \<Longrightarrow> c_at s' i = c_at s i) \<Longrightarrow> cwk_skip_separators st s' c = cwk_skip_separators st s c"
proof (induction st s c rule: cwk_skip_separators.induct)
  case (1 st s c)
  then show ?case by (subst (1 2) cwk_skip_separators.simps) simp
qed

lemma skip_separators_ge: "c \<le> cwk_skip_separators st s c"
  by (induction st s c rule: cwk_skip_separators.induct) (subst cwk_skip_separators.simps, auto)

lemma next_stop_suffix:
  "(\<And>i. c \<le> i \<Longrightarrow> c_at s' i = c_at s i) \<Longrightarrow> cwk_path_find_next_stop st s' c = cwk_path_find_next_stop st s c"
proof (induction st s c rule: cwk_path_find_next_stop.induct)
  case (1 st s c)
  then show ?case by (subst (1 2) cwk_path_find_next_stop.simps) simp
qed

lemma next_segment_suffix:
  assumes "\<And>i. sg_begin seg + sg_size seg \<le> i \<Longrightarrow> c_at s' i = c_at s i"
  shows "cwk_path_get_next_segment st s' seg = cwk_path_get_next_segment st s seg"
proof -
  let ?c = "sg_begin seg + sg_size seg"
  have skip: "cwk_skip_separators st s' (Suc ?c) = cwk_skip_separators st s (Suc ?c)"
    using assms by (intro skip_separators_suffix) simp
  let ?d = "cwk_skip_separators st s (Suc ?c)"
  have ge: "?c \<le> ?d" using skip_separators_ge [of "Suc ?c" st s] by simp
  have "cwk_path_find_next_stop st s' ?d = cwk_path_find_next_stop st s ?d"
    using assms ge by (intro next_stop_suffix) simp
  then show ?thesis using assms [of ?c] assms [of ?d] ge
    by (simp add: cwk_path_get_next_segment_def skip Let_def)
qed

lemma c_at_drop: "drop k s' = drop k s \<Longrightarrow> length s' = length s \<Longrightarrow> k \<le> i \<Longrightarrow> c_at s' i = c_at s i"
proof -
  assume d: "drop k s' = drop k s" and l: "length s' = length s" and k: "k \<le> i"
  have at: "c_at t i = c_at (drop k t) (i - k)" for t
    using k by (auto simp: c_at_def)
  show "c_at s' i = c_at s i" unfolding at [of s'] at [of s] d ..
qed

lemma next_joined_loop_first:
  "cwk_next_joined_loop st (p' # ps) sj = cwk_next_joined_loop st (p # ps) sj"
proof (induction st "p # ps" sj rule: cwk_next_joined_loop.induct)
  case (1 st sj)
  then show ?case by (subst (1 2) cwk_next_joined_loop.simps) (simp add: Let_def split: prod.splits)
qed

lemma next_joined_suffix:
  assumes "sj_index sj = 0 \<Longrightarrow> k \<le> sg_begin (sj_segment sj) + sg_size (sj_segment sj)"
    and "sj_index sj = 0 \<Longrightarrow> intact buf p k \<and> intact buf' p k" and "nonul p"
  shows "cwk_path_get_next_segment_joined st (rd_in_place beyond [q] buf') sj =
    cwk_path_get_next_segment_joined st (rd_in_place beyond [q] buf) sj"
proof -
  let ?p = "c_str (buf @ beyond)" and ?p' = "c_str (buf' @ beyond)"
  have seg: "cwk_path_get_next_segment st ((?p' # [q]) ! sj_index sj) (sj_segment sj) =
      cwk_path_get_next_segment st ((?p # [q]) ! sj_index sj) (sj_segment sj)"
  proof (cases "sj_index sj = 0")
    case False
    then show ?thesis by (cases "sj_index sj") simp_all
  next
    case True
    from assms(2) [OF True] have i: "intact buf p k" "intact buf' p k" by auto
    have "drop k ?p' = drop k ?p" "length ?p' = length ?p"
      using intact_text [OF i(1) assms(3), of beyond] intact_text [OF i(2) assms(3), of beyond] by simp_all
    from c_at_drop [OF this] have "cwk_path_get_next_segment st ?p' (sj_segment sj) =
        cwk_path_get_next_segment st ?p (sj_segment sj)"
      using assms(1) [OF True] by (intro next_segment_suffix) simp
    then show ?thesis using True by simp
  qed
  show ?thesis using seg next_joined_loop_first [of st ?p' "[q]" sj ?p]
    by (simp add: cwk_path_get_next_segment_joined_def rd_in_place_def split: prod.split)
qed

lemma place_ok:
  assumes at: "place_at beyond p q buf sj used w after" and nn: "nonul p" "nonul q"
  shows "paths_ok CWK_STYLE_UNIX (rd_in_place beyond [q] buf)"
proof -
  have "nonul (c_str (buf @ beyond))" by (rule nonul_c_str)
  with nn show ?thesis by (intro paths_ok_unix) (auto simp: rd_in_place_def)
qed

text \<open>Writing the segment under the cursor.\<close>

lemma emit_in_place:
  assumes at: "place_at beyond p q buf sj (length t + (if ow \<noteq> [] then 1 else 0)) w after" and nn: "nonul p" "nonul q"
    and t: "t = root @ join_words (CHR ''/'') ow" "written buf t"
  obtains buf' where
    "cwk_join_emit CWK_STYLE_UNIX (rd_in_place beyond [q]) sj (length t) (ow \<noteq> []) buf =
      (length (root @ join_words (CHR ''/'') (ow @ [w])), buf')"
    "length buf' = length buf" "written buf' (root @ join_words (CHR ''/'') (ow @ [w]))"
    "sj_index sj = 0 \<longrightarrow> intact buf' p (sg_begin (sj_segment sj) + length w) \<and>
       intact buf p (sg_begin (sj_segment sj) + length w) \<and>
       length (root @ join_words (CHR ''/'') (ow @ [w])) \<le> sg_begin (sj_segment sj) + length w"
proof -
  let ?sep = "if ow \<noteq> [] then [CHR ''/''] else []" and ?b = "sg_begin (sj_segment sj)"
  obtain buf1 where b1: "(if ow \<noteq> [] then cwk_path_output_separator CWK_STYLE_UNIX buf (length t) else (0, buf)) = (length ?sep, buf1)"
    "length buf1 = length buf" "written buf1 (t @ ?sep)"
    using output_sized_written [OF t(2), of "''/''"] t(2)
    by (cases "ow = []") (auto simp: cwk_path_output_separator_def separators_def)
  have fsj: "fsj_at CWK_STYLE_UNIX (rd_in_place beyond [q] buf) sj w after" using at by (simp add: place_at_def)
  have first: "intact buf p ?b" "length t + length ?sep \<le> ?b" if "sj_index sj = 0"
    using at that by (auto simp: place_at_def)
  have i1: "intact buf1 p ?b" if "sj_index sj = 0"
    using output_sized_intact [OF first(1) [OF that], of "''/''" "length t"] first [OF that] b1(1)
    by (cases "ow = []") (auto simp: cwk_path_output_separator_def separators_def)
  have fsj1: "fsj_at CWK_STYLE_UNIX (rd_in_place beyond [q] buf1) sj w after"
  proof (cases "sj_index sj = 0")
    case True
    have "drop ?b (c_str (buf1 @ beyond)) = drop ?b (c_str (buf @ beyond))" "length (c_str (buf1 @ beyond)) = length (c_str (buf @ beyond))"
      using intact_text [OF first(1) [OF True] nn(1), of beyond] intact_text [OF i1 [OF True] nn(1), of beyond] by simp_all
    with fsj show ?thesis unfolding fsj_at_first [OF True] using fwd_at_suffix by blast
  next
    case False
    with fsj show ?thesis by (simp add: fsj_at_second)
  qed
  have word: "c_sub (rd_in_place beyond [q] buf1 ! sj_index sj) (sg_begin (sj_segment sj)) (sg_size (sj_segment sj)) = w"
    by (rule fsj_text_at [OF fsj1])
  obtain buf2 where b2: "cwk_path_output_sized buf1 (length (t @ ?sep)) w = (length w, buf2)"
    "length buf2 = length buf1" "written buf2 ((t @ ?sep) @ w)"
    using output_sized_written [OF b1(3), of w] by blast
  have tx: "(t @ ?sep) @ w = root @ join_words (CHR ''/'') (ow @ [w])"
    by (simp add: t(1) join_words_snoc)
  have len: "length t + length ?sep + length w = length (root @ join_words (CHR ''/'') (ow @ [w]))"
    unfolding tx [symmetric] by simp
  have "cwk_join_emit CWK_STYLE_UNIX (rd_in_place beyond [q]) sj (length t) (ow \<noteq> []) buf = (length t + length ?sep + length w, buf2)"
    unfolding cwk_join_emit_def b1(1) using b2(1) word by simp
  moreover have "intact buf2 p (?b + length w) \<and> intact buf p (?b + length w) \<and> length t + length ?sep + length w \<le> ?b + length w"
    if z: "sj_index sj = 0"
  proof -
    from fsj z obtain a where f: "fwd_at CWK_STYLE_UNIX (c_str (buf @ beyond)) (sj_segment sj) w a" by (auto simp: fsj_at_first)
    then have le: "?b + length w \<le> length p"
      using intact_text [OF first(1) [OF z] nn(1), of beyond] by (auto simp: fwd_at_def)
    have nw: "nonul w" using f nonul_c_str [of "buf @ beyond"] by (auto simp: fwd_at_def)
    note later = intact_later [OF _ nn(1) le_add1 le]
    have "length (t @ ?sep) + length w \<le> ?b + length w" using first(2) [OF z] by simp
    from output_sized_intact [OF later [OF i1 [OF z]] nw this] b2(1) later [OF first(1) [OF z]] first(2) [OF z]
    show ?thesis by simp
  qed
  ultimately show ?thesis using b1(2) b2(2,3) unfolding len tx by (intro that [of buf2]) simp_all
qed

text \<open>Moving on, after the segment has been written (or not).\<close>

lemma place_next:
  assumes fsj: "fsj_at CWK_STYLE_UNIX (rd_in_place beyond [q] buf) sj w (v # vs)" and nn: "nonul p" "nonul q"
    and first: "sj_index sj = 0 \<Longrightarrow> intact buf p (sg_begin (sj_segment sj) + length w) \<and>
      intact buf' p (sg_begin (sj_segment sj) + length w) \<and> used \<le> Suc (sg_begin (sj_segment sj) + length w)"
  shows "\<exists>sj'. cwk_path_get_next_segment_joined CWK_STYLE_UNIX (rd_in_place beyond [q] buf') sj = (True, sj') \<and>
    place_at beyond p q buf' sj' used v vs"
proof -
  let ?b = "sg_begin (sj_segment sj)"
  have ok: "paths_ok CWK_STYLE_UNIX (rd_in_place beyond [q] buf)" if "nonul q" for buf
    using that nonul_c_str by (intro paths_ok_unix) (auto simp: rd_in_place_def)
  have size: "sg_size (sj_segment sj) = length w" using fsj by (auto simp: fsj_at_def fwd_at_def)
  from next_joined_fwd [OF ok [OF nn(2)] fsj] obtain sj' where
    n: "cwk_path_get_next_segment_joined CWK_STYLE_UNIX (rd_in_place beyond [q] buf) sj = (True, sj')"
    "fsj_at CWK_STYLE_UNIX (rd_in_place beyond [q] buf) sj' v vs"
    "sj_index sj' = sj_index sj \<longrightarrow> ?b + length w < sg_begin (sj_segment sj')" by auto
  have same: "cwk_path_get_next_segment_joined CWK_STYLE_UNIX (rd_in_place beyond [q] buf') sj = (True, sj')"
    using next_joined_suffix [of sj "?b + length w" buf p buf' CWK_STYLE_UNIX beyond q] first nn size n(1) by simp
  have "place_at beyond p q buf' sj' used v vs"
  proof (cases "sj_index sj' = 0")
    case False
    then show ?thesis using n(2) by (simp add: place_at_def fsj_at_second)
  next
    case True
    then have z: "sj_index sj = 0" using next_joined_increases [OF n(1)] by auto
    let ?b' = "sg_begin (sj_segment sj')" and ?s = "c_str (buf @ beyond)" and ?s' = "c_str (buf' @ beyond)"
    from first [OF z] have i: "intact buf p (?b + length w)" "intact buf' p (?b + length w)"
      and used: "used \<le> Suc (?b + length w)" by auto
    have lt: "?b + length w < ?b'" using n(3) True z by simp
    from n(2) True obtain a where f: "fwd_at CWK_STYLE_UNIX ?s (sj_segment sj') v a" "vs = a @ path_toks CWK_STYLE_UNIX q"
      by (auto simp: fsj_at_first)
    have le: "?b' \<le> length p"
      using f(1) intact_text [OF i(1) nn(1), of beyond] by (auto simp: fwd_at_def)
    have d: "drop (?b + length w) ?s' = drop (?b + length w) ?s" "length ?s' = length ?s"
      using intact_text [OF i(1) nn(1), of beyond] intact_text [OF i(2) nn(1), of beyond] by simp_all
    have "drop ?b' t = drop (?b' - (?b + length w)) (drop (?b + length w) t)" for t :: string using lt by simp
    then have "drop ?b' ?s' = drop ?b' ?s" using d(1) by metis
    from fwd_at_suffix [OF f(1) this d(2)] have "fsj_at CWK_STYLE_UNIX (rd_in_place beyond [q] buf') sj' v vs"
      using f(2) True by (auto simp: fsj_at_first)
    then show ?thesis
      using intact_later [OF i(2) nn(1) less_imp_le [OF lt] le] used lt by (simp add: place_at_def)
  qed
  with same show ?thesis by blast
qed

lemma place_removed:
  "place_at beyond p q buf sj used w after \<Longrightarrow> nonul p \<Longrightarrow> nonul q \<Longrightarrow>
     cwk_path_segment_will_be_removed CWK_STYLE_UNIX (rd_in_place beyond [q] buf) sj True = word_removed True before w after"
  using removed_fwd [OF place_ok] by (auto simp: place_at_def)

lemma place_here:
  assumes "place_at beyond p q buf sj used w after" and "nonul p" and "sj_index sj = 0"
  shows "intact buf p (sg_begin (sj_segment sj) + length w) \<and> used \<le> Suc (sg_begin (sj_segment sj) + length w)"
proof -
  from assms have i: "intact buf p (sg_begin (sj_segment sj))" and u: "used \<le> sg_begin (sj_segment sj)"
    and f: "\<exists>a. fwd_at CWK_STYLE_UNIX (c_str (buf @ beyond)) (sj_segment sj) w a"
    by (auto simp: place_at_def fsj_at_first)
  have "sg_begin (sj_segment sj) + length w \<le> length p"
    using f intact_text [OF i assms(2), of beyond] by (auto simp: fwd_at_def)
  from intact_later [OF i assms(2) le_add1 this] u show ?thesis by simp
qed

lemma join_loop_in_place:
  "place_at beyond p q buf sj (length t + (if ow \<noteq> [] then 1 else 0)) w after \<Longrightarrow> nonul p \<Longrightarrow> nonul q \<Longrightarrow>
   t = root @ join_words (CHR ''/'') ow \<Longrightarrow> written buf t \<Longrightarrow> ow' = ow @ visible True before (w # after) \<Longrightarrow>
     \<exists>buf'. cwk_join_loop CWK_STYLE_UNIX (rd_in_place beyond [q]) True sj (length t) (ow \<noteq> []) buf =
         Some (length (root @ join_words (CHR ''/'') ow'), ow' \<noteq> [], buf') \<and>
       length buf' = length buf \<and> written buf' (root @ join_words (CHR ''/'') ow')"
proof (induction after arbitrary: sj before w t ow buf)
  case Nil
  note rem = place_removed [OF Nil.prems(1-3), of before]
  have fsj: "fsj_at CWK_STYLE_UNIX (rd_in_place beyond [q] buf) sj w []" using Nil.prems(1) by (simp add: place_at_def)
  have stop: "\<not> fst (cwk_path_get_next_segment_joined CWK_STYLE_UNIX (rd_in_place beyond [q] buf) sj)"
    using next_joined_fwd [OF place_ok [OF Nil.prems(1-3)] fsj] by simp
  show ?case
  proof (cases "word_removed True before w []")
    case True
    with Nil stop rem show ?thesis by (subst cwk_join_loop.simps) simp
  next
    case False
    obtain buf1 where
      e: "cwk_join_emit CWK_STYLE_UNIX (rd_in_place beyond [q]) sj (length t) (ow \<noteq> []) buf =
        (length (root @ join_words (CHR ''/'') (ow @ [w])), buf1)" "length buf1 = length buf"
        "written buf1 (root @ join_words (CHR ''/'') (ow @ [w]))"
      and i: "sj_index sj = 0 \<longrightarrow> intact buf1 p (sg_begin (sj_segment sj) + length w) \<and>
        intact buf p (sg_begin (sj_segment sj) + length w) \<and>
        length (root @ join_words (CHR ''/'') (ow @ [w])) \<le> sg_begin (sj_segment sj) + length w"
      by (rule emit_in_place [OF Nil.prems(1-5)])
    have "sg_size (sj_segment sj) = length w" using fsj by (auto simp: fsj_at_def fwd_at_def)
    then have "cwk_path_get_next_segment_joined CWK_STYLE_UNIX (rd_in_place beyond [q] buf1) sj =
        cwk_path_get_next_segment_joined CWK_STYLE_UNIX (rd_in_place beyond [q] buf) sj"
      using i Nil.prems(2) by (intro next_joined_suffix [where k = "sg_begin (sj_segment sj) + length w" and p = p]) auto
    with Nil.prems False stop rem e show ?thesis by (subst cwk_join_loop.simps) simp
  qed
next
  case (Cons v vs)
  note rem = place_removed [OF Cons.prems(1-3), of before]
  have fsj: "fsj_at CWK_STYLE_UNIX (rd_in_place beyond [q] buf) sj w (v # vs)" using Cons.prems(1) by (simp add: place_at_def)
  show ?case
  proof (cases "word_removed True before w (v # vs)")
    case True
    note here = place_here [OF Cons.prems(1,2)]
    have "sj_index sj = 0 \<Longrightarrow> intact buf p (sg_begin (sj_segment sj) + length w) \<and>
        intact buf p (sg_begin (sj_segment sj) + length w) \<and>
        length t + (if ow \<noteq> [] then 1 else 0) \<le> Suc (sg_begin (sj_segment sj) + length w)"
      using here by simp
    from place_next [OF fsj Cons.prems(2,3) this] obtain sj' where
      n: "cwk_path_get_next_segment_joined CWK_STYLE_UNIX (rd_in_place beyond [q] buf) sj = (True, sj')"
      "place_at beyond p q buf sj' (length t + (if ow \<noteq> [] then 1 else 0)) v vs" by blast
    have "ow' = ow @ visible True (before @ [w]) (v # vs)" using Cons.prems(6) True by simp
    from Cons.IH [OF n(2) Cons.prems(2-5) this] True n(1) rem show ?thesis
      by (subst cwk_join_loop.simps) simp
  next
    case False
    let ?t = "root @ join_words (CHR ''/'') (ow @ [w])"
    obtain buf1 where
      e: "cwk_join_emit CWK_STYLE_UNIX (rd_in_place beyond [q]) sj (length t) (ow \<noteq> []) buf = (length ?t, buf1)"
        "length buf1 = length buf" "written buf1 ?t"
      and i: "sj_index sj = 0 \<longrightarrow> intact buf1 p (sg_begin (sj_segment sj) + length w) \<and>
        intact buf p (sg_begin (sj_segment sj) + length w) \<and> length ?t \<le> sg_begin (sj_segment sj) + length w"
      by (rule emit_in_place [OF Cons.prems(1-5)])
    obtain sj' where n: "cwk_path_get_next_segment_joined CWK_STYLE_UNIX (rd_in_place beyond [q] buf1) sj = (True, sj')"
      "place_at beyond p q buf1 sj' (length ?t + (if ow @ [w] \<noteq> [] then 1 else 0)) v vs"
      using place_next [OF fsj Cons.prems(2,3), of buf1 "length ?t + 1"] i by auto
    have "ow' = (ow @ [w]) @ visible True (before @ [w]) (v # vs)" using Cons.prems(6) False by simp
    from Cons.IH [OF n(2) Cons.prems(2,3) refl e(3) this] False n(1) e(1,2) rem show ?thesis
      by (subst cwk_join_loop.simps) simp
  qed
qed

lemma buffer_split: "NUL \<in> set buf \<Longrightarrow> \<exists>rest. buf = c_str buf @ NUL # rest"
proof -
  assume "NUL \<in> set buf"
  then have "dropWhile (\<lambda>c. c \<noteq> NUL) buf \<noteq> []" by (auto simp: dropWhile_eq_Nil_conv)
  then obtain d rest where d: "dropWhile (\<lambda>c. c \<noteq> NUL) buf = d # rest" by (cases "dropWhile (\<lambda>c. c \<noteq> NUL) buf") auto
  then have "d = NUL" using hd_dropWhile [of "\<lambda>c. c \<noteq> NUL" buf] by simp
  with d have "buf = c_str buf @ NUL # rest" unfolding c_str_def by (metis takeWhile_dropWhile_id)
  then show ?thesis by blast
qed

lemma join_in_place_absolute:
  assumes nul: "NUL \<in> set buf" and abs: "cwk_path_is_absolute CWK_STYLE_UNIX (c_str buf)" and q: "nonul q"
  shows "\<exists>buf'. cwk_path_join_in_place CWK_STYLE_UNIX beyond q buf =
      Some (length (norm_text CWK_STYLE_UNIX [c_str buf, q]), buf') \<and> length buf' = length buf \<and>
    c_str buf' = take (length buf - 1) (norm_text CWK_STYLE_UNIX [c_str buf, q])"
proof -
  let ?U = CWK_STYLE_UNIX and ?p = "c_str buf"
  let ?t = "norm_text ?U [?p, q]"
  obtain rest where b: "buf = ?p @ NUL # rest" using buffer_split [OF nul] by blast
  obtain p1 where p1: "?p = CHR ''/'' # p1" using abs by (cases ?p) (auto simp: absolute_unix)
  have np: "nonul ?p" by (rule nonul_c_str)
  have rd: "rd_in_place beyond [q] buf = [?p, q]"
  proof -
    have "c_str (?p @ NUL # (rest @ beyond)) = ?p" by (rule c_str_nul [OF np])
    moreover have "?p @ NUL # (rest @ beyond) = buf @ beyond" using b by (metis append.assoc append_Cons)
    ultimately show ?thesis by (simp add: rd_in_place_def)
  qed
  have buf: "buf = CHR ''/'' # p1 @ NUL # rest" using b p1 by simp
  then have ne: "buf \<noteq> []" by auto
  have root: "cwk_path_get_root ?U ?p = 1" "root_text ?U ?p = ''/''"
    using p1 abs by (simp_all add: cwk_path_get_root_def cwk_path_get_root_unix_def c_at_0 root_text_unix)
  have same: "cwk_path_output_sized buf 0 (take 1 ?p) = (1, buf)"
    by (simp add: cwk_path_output_sized_def Let_def p1) (simp add: buf)
  have ok: "paths_ok ?U [?p, q]" using np q by (intro paths_ok_unix) auto
  have nt: "nonul ?t" using nonul_norm_text [OF ok] by simp
  have w0: "written buf ''/''" by (simp add: written_def buf)
  have absr: "cwk_path_is_root_absolute ?U ?p 1" using p1 by (simp add: cwk_path_is_root_absolute_def c_at_0)
  have fin: "length (cwk_path_terminate_output bf (length ?t)) = length buf \<and>
      c_str (cwk_path_terminate_output bf (length ?t)) = take (length buf - 1) ?t"
    if "written bf ?t" "length bf = length buf" for bf
    using finish_written [OF that(1) nt that(2)] ne by simp
  show ?thesis
  proof (cases "toks_from ?U [?p, q] 0")
    case Nil
    then have t: "?t = ''/''" using root by (simp add: norm_text_def)
    have "\<not> fst (cwk_path_get_first_segment_joined ?U [?p, q])" using first_joined_at [OF ok] Nil by simp
    then have "cwk_path_join_in_place ?U beyond q buf = Some (length ?t, cwk_path_terminate_output buf (length ?t))"
      using rd root(1) same t by (simp add: cwk_path_join_in_place_def cwk_path_join_and_normalize_multiple_def
          cwk_path_fix_root_def Let_def)
    with fin [of buf] w0 t show ?thesis by simp
  next
    case (Cons w ws)
    then obtain sj where first: "cwk_path_get_first_segment_joined ?U [?p, q] = (True, sj)" "sj_at ?U [?p, q] sj [] w ws"
      using first_joined_at [OF ok] by auto
    have fsj: "fsj_at ?U (rd_in_place beyond [q] buf) sj w ws" unfolding rd by (rule fsj_of_sj_at [OF first(2)])
    have place: "place_at beyond ?p q buf sj (length ''/'' + (if ([] :: string list) \<noteq> [] then 1 else 0)) w ws"
      unfolding place_at_def
    proof (intro conjI impI fsj)
      assume z: "sj_index sj = 0"
      with fsj obtain a where "fwd_at ?U ?p (sj_segment sj) w a" by (auto simp: fsj_at_def rd)
      then obtain u post where u: "?p = u @ w @ post" "length u = sg_begin (sj_segment sj)" "w \<noteq> []"
        "list_all (\<lambda>d. \<not> slash d) w" by (auto simp: fwd_at_def)
      have "u \<noteq> []" using u(1,3,4) p1 by (cases w) auto
      then show "length ''/'' + (if ([] :: string list) \<noteq> [] then 1 else 0) \<le> sg_begin (sj_segment sj)"
        using u(2) by (cases u) auto
      show "intact buf ?p (sg_begin (sj_segment sj))"
        unfolding intact_def
        by (rule exI [of _ u], rule exI [of _ rest]) (use u b np in \<open>auto simp: nonul_def\<close>)
    qed
    have words: "norm_words ?U [?p, q] = [] @ visible True [] (w # ws)"
      using abs unfolding visible_resolve norm_words_def Cons by simp
    have empty: "''/'' = ''/'' @ join_words (CHR ''/'') []" by simp
    obtain buf3 where l: "cwk_join_loop ?U (rd_in_place beyond [q]) True sj (length ''/'') False buf =
        Some (length (''/'' @ join_words (CHR ''/'') (norm_words ?U [?p, q])), norm_words ?U [?p, q] \<noteq> [], buf3)"
      "length buf3 = length buf" "written buf3 (''/'' @ join_words (CHR ''/'') (norm_words ?U [?p, q]))"
      using join_loop_in_place [OF place np q empty w0 words] by auto
    have t: "?t = ''/'' @ join_words (CHR ''/'') (norm_words ?U [?p, q])"
      using Cons root by (simp add: norm_text_def Let_def)
    have "cwk_path_join_in_place ?U beyond q buf = Some (length ?t, cwk_path_terminate_output buf3 (length ?t))"
      using rd root(1) same first(1) absr l(1) t
      by (simp add: cwk_path_join_in_place_def cwk_path_join_and_normalize_multiple_def cwk_path_fix_root_def Let_def)
    with fin [OF _ l(2)] l(3) t show ?thesis by simp
  qed
qed

text \<open>Joining in steps is joining at once.\<close>

lemma resolve_append: "resolve absolute stack (ws @ vs) = resolve absolute (rev (resolve absolute stack ws)) vs"
proof (induction absolute stack ws rule: resolve.induct)
  case (2 absolute stack w ws)
  then show ?case by (cases stack) (auto split: cwk_segment_type.splits)
qed simp

lemma resolve_normal_append:
  "normal_words absolute ws \<Longrightarrow> resolve absolute [] (ws @ vs) = resolve absolute (rev ws) vs"
  using resolve_append [of absolute "[]" ws vs] resolve_of_normal by simp

lemma norm_text_step:
  assumes "cwk_path_is_absolute CWK_STYLE_UNIX p"
  shows "norm_text CWK_STYLE_UNIX [norm_text CWK_STYLE_UNIX (p # ps), q] = norm_text CWK_STYLE_UNIX (p # ps @ [q])"
proof -
  let ?U = CWK_STYLE_UNIX and ?t = "norm_text CWK_STYLE_UNIX (p # ps)"
  have form: "norm_text ?U (r # rs) = CHR ''/'' # join_words (CHR ''/'') (norm_words ?U (r # rs))"
    if "cwk_path_is_absolute ?U r" for r rs
    using that by (auto simp: norm_text_def Let_def root_text_unix norm_words_def)
  have abs: "cwk_path_is_absolute ?U ?t" using norm_text_unix(1) [of "p # ps"] assms by simp
  have toks: "path_toks ?U ?t = norm_words ?U (p # ps)"
    using norm_text_unix(2) [of "p # ps"] form [OF assms, of ps] by (cases "norm_words ?U (p # ps) = []") auto
  have "norm_words ?U [?t, q] = resolve True [] (norm_words ?U (p # ps) @ path_toks ?U q)"
    using abs toks by (simp add: norm_words_def toks_from_unix)
  also have "\<dots> = resolve True (rev (norm_words ?U (p # ps))) (path_toks ?U q)"
    using resolve_normal_append norm_words_normal [of ?U "p # ps"] assms by simp
  also have "\<dots> = norm_words ?U (p # ps @ [q])"
    using resolve_append [of True "[]" "concat (map (path_toks ?U) (p # ps))" "path_toks ?U q"] assms
    by (simp add: norm_words_def toks_from_unix)
  finally show ?thesis using form [OF abs] form [OF assms] by simp
qed

end
