(* ===== verification/Path.thy ===== *)
theory Path
  imports Uri CwalkInPlace
begin

text \<open>
  Paths and URLs together, \<^verbatim>\<open>src/path/path.c\<close>. The variadic functions take the list of their
  further arguments, which ends at the \<open>NULL\<close> the macros add. \<open>st\<close> is the path style, \<open>beyond\<close>
  the memory after the output buffer, \<open>junk\<close> the content of memory from \<open>malloc\<close>, and \<open>mem_ok\<close>
  whether it succeeds.
\<close>

section \<open>Operations\<close>

primrec path_join_more ::
  "cwk_path_style \<Rightarrow> char list \<Rightarrow> string list \<Rightarrow> nat \<Rightarrow> char list \<Rightarrow> (nat \<times> char list) option" where
  "path_join_more st beyond [] n buf = Some (n, buf)"
| "path_join_more st beyond (q # qs) n buf = do {
     (n1, buf1) \<leftarrow> cwk_path_join_in_place st beyond q buf;
     path_join_more st beyond qs n1 buf1
   }"

definition path_join ::
  "cwk_path_style \<Rightarrow> char list \<Rightarrow> string \<Rightarrow> string \<Rightarrow> string list \<Rightarrow> char list \<Rightarrow> (nat \<times> char list) option" where
  "path_join st beyond base path rest buf = do {
     (n, buf1) \<leftarrow> cwk_path_join st base path buf;
     path_join_more st beyond rest n buf1
   }"

definition path_normalize ::
  "cwk_path_style \<Rightarrow> (nat \<Rightarrow> char) \<Rightarrow> bool \<Rightarrow> string \<Rightarrow> char list \<Rightarrow> (nat \<times> char list) option" where
  "path_normalize st junk mem_ok path buf =
     (if uri_is_url (Some path)
      then map_option (\<lambda>(n, b). (n, the b)) (uri_normalize st junk mem_ok (Some path) (Some buf))
      else cwk_path_normalize st path buf)"

definition path_is_absolute :: "cwk_path_style \<Rightarrow> string option \<Rightarrow> bool" where
  "path_is_absolute st path = (case path of
     None \<Rightarrow> False
   | Some p \<Rightarrow>
       if c_at p 0 = NUL then False
       else if uri_is_url path then True
       else cwk_path_is_absolute st p)"

definition path_length :: "string option \<Rightarrow> string list \<Rightarrow> nat" where
  "path_length base rest = (case base of
     None \<Rightarrow> 0
   | Some b \<Rightarrow> fold (\<lambda>arg total. total + (length arg + 1)) rest (length b))"

primrec path_join_alloc_loop :: "cwk_path_style \<Rightarrow> char list \<Rightarrow> string list \<Rightarrow> char list \<Rightarrow> char list option" where
  "path_join_alloc_loop st beyond [] buf = Some buf"
| "path_join_alloc_loop st beyond (q # qs) buf = do {
     (total_len, buf1) \<leftarrow> cwk_path_join_in_place st beyond q buf;
     (if total_len \<ge> length buf then Some buf1 else path_join_alloc_loop st beyond qs buf1)
   }"

definition path_join_alloc ::
  "cwk_path_style \<Rightarrow> (nat \<Rightarrow> char) \<Rightarrow> char list \<Rightarrow> bool \<Rightarrow> string option \<Rightarrow> string list \<Rightarrow> char list option option" where
  "path_join_alloc st junk beyond mem_ok base rest = (case base of
     None \<Rightarrow> Some None
   | Some b \<Rightarrow>
       (let buffer_size = fold (\<lambda>arg size. size + (length arg + 1)) rest (length b + 1) in
        if \<not> mem_ok then Some None
        else map_option Some (path_join_alloc_loop st beyond rest
               (b @ NUL # map junk [length b + 1..<buffer_size]))))"

text \<open>Offsets into the path.\<close>

definition path_get_filename :: "string \<Rightarrow> nat" where
  "path_get_filename path = (case c_strrchr path CHR ''/'' of Some i \<Rightarrow> i + 1 | None \<Rightarrow> 0)"

definition path_get_extension :: "string \<Rightarrow> nat option" where
  "path_get_extension path = (case c_strrchr path CHR ''.'' of Some i \<Rightarrow> Some (i + 1) | None \<Rightarrow> None)"

section \<open>Lengths\<close>

definition joined_length :: "string list \<Rightarrow> nat" where
  "joined_length ps = sum_list (map (\<lambda>p. length p + 1) ps)"

lemma joined_length_simps [simp]:
  "joined_length [] = 0" "joined_length (p # ps) = length p + 1 + joined_length ps"
  "joined_length (ps @ qs) = joined_length ps + joined_length qs"
  by (simp_all add: joined_length_def)

lemma fold_joined_length: "fold (\<lambda>arg size. size + (length arg + 1)) ps n = n + joined_length ps"
  by (induction ps arbitrary: n) simp_all

lemma norm_text_absolute:
  assumes "cwk_path_is_absolute CWK_STYLE_UNIX p"
  shows "norm_text CWK_STYLE_UNIX (p # ps) = CHR ''/'' # join_words (CHR ''/'') (norm_words CWK_STYLE_UNIX (p # ps))"
  using assms by (auto simp: norm_text_def Let_def root_text_unix norm_words_def)

lemma weight_all_toks:
  "sum_list (map (Suc \<circ> length) (concat (map (path_toks CWK_STYLE_UNIX) ps))) \<le> joined_length ps"
proof (induction ps)
  case (Cons p ps)
  have "sum_list (map (Suc \<circ> length) (path_toks CWK_STYLE_UNIX p)) \<le> Suc (length p)" by (rule weight_toks)
  with Cons have "sum_list (map (Suc \<circ> length) (path_toks CWK_STYLE_UNIX p)) +
      sum_list (map (Suc \<circ> length) (concat (map (path_toks CWK_STYLE_UNIX) ps))) \<le> Suc (length p) + joined_length ps"
    by (rule add_mono [rotated])
  then show ?case by (simp only: list.map concat.simps map_append sum_list_append joined_length_simps)
qed simp

lemma norm_text_length:
  assumes "cwk_path_is_absolute CWK_STYLE_UNIX p"
  shows "length (norm_text CWK_STYLE_UNIX (p # ps)) \<le> length p + joined_length ps"
proof -
  let ?W = "norm_words CWK_STYLE_UNIX (p # ps)"
  obtain t where p: "p = CHR ''/'' # t" using assms by (cases p) (auto simp: absolute_unix)
  have "sum_list (map (Suc \<circ> length) ?W) \<le> sum_list (map (Suc \<circ> length) (toks_from CWK_STYLE_UNIX (p # ps) 0))"
    using weight_resolve [of _ "[]"] by (simp add: norm_words_def)
  also have "\<dots> \<le> Suc (length t) + joined_length ps"
    using weight_toks [of "cwk_path_is_separator CWK_STYLE_UNIX" t] weight_all_toks [of ps] p by (simp add: toks_from_unix)
  finally have "length (join_words (CHR ''/'') ?W) \<le> length t + joined_length ps"
    using length_join_words [of ?W "CHR ''/''"] by (cases "?W = []") auto
  then show ?thesis using norm_text_absolute [OF assms] p by simp
qed

lemma norm_text_nonul: "p \<noteq> [] \<Longrightarrow> \<forall>x \<in> set p. nonul x \<Longrightarrow> nonul (norm_text CWK_STYLE_UNIX p)"
  using nonul_norm_text paths_ok_unix by blast

lemma norm_text_abs: "cwk_path_is_absolute CWK_STYLE_UNIX p \<Longrightarrow> cwk_path_is_absolute CWK_STYLE_UNIX (norm_text CWK_STYLE_UNIX (p # ps))"
  using norm_text_unix(1) [of "p # ps"] by simp

lemma c_str_fits: "length (c_str buf) < length buf \<Longrightarrow> NUL \<in> set buf"
proof (rule ccontr)
  assume l: "length (c_str buf) < length buf" and "NUL \<notin> set buf"
  then have "takeWhile (\<lambda>c. c \<noteq> NUL) buf = buf" by (simp add: takeWhile_eq_all_conv) blast
  with l show False by (simp add: c_str_def)
qed

section \<open>Joining onto an absolute path\<close>

lemma path_join_more_absolute:
  "cwk_path_is_absolute CWK_STYLE_UNIX p \<Longrightarrow> \<forall>x \<in> set qs. nonul x \<Longrightarrow>
   c_str buf = norm_text CWK_STYLE_UNIX (p # ps) \<Longrightarrow> n = length (c_str buf) \<Longrightarrow>
   \<forall>k \<le> length qs. length (norm_text CWK_STYLE_UNIX (p # ps @ take k qs)) < length buf \<Longrightarrow>
     \<exists>buf'. path_join_more CWK_STYLE_UNIX beyond qs n buf =
         Some (length (norm_text CWK_STYLE_UNIX (p # ps @ qs)), buf') \<and> length buf' = length buf \<and>
       c_str buf' = norm_text CWK_STYLE_UNIX (p # ps @ qs)"
proof (induction qs arbitrary: ps n buf)
  case Nil
  then show ?case by simp
next
  case (Cons q qs)
  have fits: "length (c_str buf) < length buf" using Cons.prems(3,5) by (metis append_Nil2 le0 take0)
  from join_in_place_absolute [OF c_str_fits [OF fits], of q beyond] norm_text_abs [OF Cons.prems(1)] Cons.prems(2,3)
  obtain buf1 where b: "cwk_path_join_in_place CWK_STYLE_UNIX beyond q buf =
      Some (length (norm_text CWK_STYLE_UNIX (p # ps @ [q])), buf1)" "length buf1 = length buf"
      "c_str buf1 = take (length buf - 1) (norm_text CWK_STYLE_UNIX (p # ps @ [q]))"
    using norm_text_step [OF Cons.prems(1)] by auto
  have "length (norm_text CWK_STYLE_UNIX (p # ps @ take 1 (q # qs))) < length buf" using Cons.prems(5) by (simp del: take_Suc_Cons)
  then have c: "c_str buf1 = norm_text CWK_STYLE_UNIX (p # (ps @ [q]))" using b(3) by simp
  have "\<forall>k \<le> length qs. length (norm_text CWK_STYLE_UNIX (p # (ps @ [q]) @ take k qs)) < length buf1"
  proof (intro allI impI)
    fix k assume "k \<le> length qs"
    then have "length (norm_text CWK_STYLE_UNIX (p # ps @ take (Suc k) (q # qs))) < length buf"
      using Cons.prems(5) by (metis Suc_le_mono length_Cons)
    then show "length (norm_text CWK_STYLE_UNIX (p # (ps @ [q]) @ take k qs)) < length buf1" using b(2) by simp
  qed
  from Cons.IH [OF Cons.prems(1) _ c _ this] Cons.prems(2) b(1,2) c show ?case by auto
qed

lemma path_join_alloc_loop_absolute:
  "cwk_path_is_absolute CWK_STYLE_UNIX p \<Longrightarrow> \<forall>x \<in> set qs. nonul x \<Longrightarrow> NUL \<in> set buf \<Longrightarrow>
   c_str buf = t \<Longrightarrow> cwk_path_is_absolute CWK_STYLE_UNIX t \<Longrightarrow>
   (\<And>q. norm_text CWK_STYLE_UNIX [t, q] = norm_text CWK_STYLE_UNIX (p # ps @ [q])) \<Longrightarrow>
   length p + joined_length (ps @ qs) < length buf \<Longrightarrow> qs \<noteq> [] \<Longrightarrow>
     \<exists>buf'. path_join_alloc_loop CWK_STYLE_UNIX beyond qs buf = Some buf' \<and> length buf' = length buf \<and>
       c_str buf' = norm_text CWK_STYLE_UNIX (p # ps @ qs)"
proof (induction qs arbitrary: ps buf t)
  case Nil
  then show ?case by simp
next
  case (Cons q qs)
  let ?t1 = "norm_text CWK_STYLE_UNIX (p # ps @ [q])"
  have q: "nonul q" using Cons.prems(2) by simp
  from join_in_place_absolute [OF Cons.prems(3) _ q, of beyond] Cons.prems(4-6)
  obtain buf1 where b: "cwk_path_join_in_place CWK_STYLE_UNIX beyond q buf = Some (length ?t1, buf1)"
      "length buf1 = length buf" "c_str buf1 = take (length buf - 1) ?t1" by auto
  have lt: "length ?t1 < length buf"
    using norm_text_length [OF Cons.prems(1), of "ps @ [q]"] Cons.prems(7) by simp
  then have c: "c_str buf1 = ?t1" using b(3) by simp
  show ?case
  proof (cases "qs = []")
    case True
    with b lt c show ?thesis by simp
  next
    case False
    have nul: "NUL \<in> set buf1" using c_str_fits [of buf1] c b(2) lt by simp
    have step: "norm_text CWK_STYLE_UNIX [?t1, r] = norm_text CWK_STYLE_UNIX (p # (ps @ [q]) @ [r])" for r
      using norm_text_step [OF Cons.prems(1), of "ps @ [q]" r] by simp
    have "length p + joined_length ((ps @ [q]) @ qs) < length buf1" using Cons.prems(7) b(2) by simp
    from Cons.IH [OF Cons.prems(1) _ nul c norm_text_abs [OF Cons.prems(1)] step this False] Cons.prems(2) b lt
    show ?thesis by auto
  qed
qed

text \<open>
  C28. Joining any number of paths onto an absolute base, where every intermediate result fits the
  buffer: \<open>path_join\<close> returns the length of the path that the stack of names of all the arguments
  spells, and the buffer holds that path. The further arguments are joined with the buffer as both
  source and destination, which is harmless here because an absolute path only ever moves towards
  the start of the buffer.
\<close>

theorem path_join_absolute:
  assumes "cwk_path_is_absolute CWK_STYLE_UNIX base" and "\<forall>x \<in> set (base # path # rest). nonul x"
    and "\<forall>k \<le> length rest. length (norm_text CWK_STYLE_UNIX (base # path # take k rest)) < length buf"
  shows "\<exists>buf'. path_join CWK_STYLE_UNIX beyond base path rest buf =
      Some (length (norm_text CWK_STYLE_UNIX (base # path # rest)), buf') \<and> length buf' = length buf \<and>
    c_str buf' = norm_text CWK_STYLE_UNIX (base # path # rest)"
proof -
  let ?t = "norm_text CWK_STYLE_UNIX [base, path]"
  have fits: "length ?t < length buf" using assms(3) by (metis le0 take0)
  have "paths_ok CWK_STYLE_UNIX [base, path]" using assms(2) by (intro paths_ok_unix) auto
  from join_normalize_spec [OF this, of buf] fits obtain buf1 where
    b: "cwk_path_join CWK_STYLE_UNIX base path buf = Some (length ?t, buf1)" "length buf1 = length buf" "c_str buf1 = ?t"
    unfolding cwk_path_join_def by (cases "buf = []") auto
  from path_join_more_absolute [OF assms(1), of rest buf1 "[path]" "length ?t" beyond] assms(2,3) b
  show ?thesis by (auto simp: path_join_def)
qed

theorem path_join_absolute_witness:
  "\<exists>buf'. path_join CWK_STYLE_UNIX [] ''/a'' ''b'' [''../../..'', ''c/''] (replicate 6 NUL) = Some (2, buf') \<and>
    c_str buf' = ''/c''"
proof -
  have tx: "norm_text CWK_STYLE_UNIX [''/a'', ''b'', ''../../..'', ''c/''] = ''/c''"
    by (simp add: norm_text_def norm_words_def toks_from_unix root_text_unix absolute_unix word_type_def)
  have fit: "\<forall>k \<le> length [''../../..'', ''c/'']. length (norm_text CWK_STYLE_UNIX (''/a'' # ''b'' # take k [''../../..'', ''c/'']))
      < length (replicate 6 NUL)"
    by (auto simp: le_Suc_eq norm_text_def norm_words_def toks_from_unix root_text_unix absolute_unix word_type_def)
  from path_join_absolute [OF _ _ fit, of "[]"] show ?thesis unfolding tx by (auto simp: absolute_unix)
qed

text \<open>
  \<open>path_join_alloc\<close> on an absolute base: the block it allocates is one byte longer than
  \<open>path_length\<close> says, no join is ever truncated in it, so the loop never stops early, and the result
  is the path that the stack of names of all the arguments spells, or the base itself, not
  normalised, when there are no further arguments.
\<close>

theorem path_join_alloc_absolute:
  assumes "cwk_path_is_absolute CWK_STYLE_UNIX base" and "\<forall>x \<in> set (base # rest). nonul x"
  shows "\<exists>buf. path_join_alloc CWK_STYLE_UNIX junk beyond True (Some base) rest = Some (Some buf) \<and>
    length buf = path_length (Some base) rest + 1 \<and>
    c_str buf = (if rest = [] then base else norm_text CWK_STYLE_UNIX (base # rest))"
proof -
  let ?buf = "base @ NUL # map junk [length base + 1..<length base + 1 + joined_length rest]"
  have c: "c_str ?buf = base" using assms(2) by (simp add: c_str_nul)
  have alloc: "path_join_alloc CWK_STYLE_UNIX junk beyond True (Some base) rest =
      map_option Some (path_join_alloc_loop CWK_STYLE_UNIX beyond rest ?buf)"
    by (simp only: path_join_alloc_def Let_def fold_joined_length option.case not_True_eq_False if_False)
  have len: "length ?buf = path_length (Some base) rest + 1"
    by (simp only: path_length_def fold_joined_length option.case) simp
  show ?thesis
  proof (cases "rest = []")
    case True
    with alloc len c show ?thesis by simp
  next
    case False
    from path_join_alloc_loop_absolute [OF assms(1), of rest ?buf base "[]" beyond] assms c False
    show ?thesis unfolding alloc len [symmetric] by (auto simp del: upt_Suc)
  qed
qed

theorem path_join_alloc_absolute_witness:
  "\<exists>buf. path_join_alloc CWK_STYLE_UNIX (\<lambda>_. CHR ''#'') [] True (Some ''/a/'') [''./b'', ''../../c''] = Some (Some buf) \<and>
    length buf = 16 \<and> c_str buf = ''/c''"
proof -
  have tx: "norm_text CWK_STYLE_UNIX [''/a/'', ''./b'', ''../../c''] = ''/c''"
    by (simp add: norm_text_def norm_words_def toks_from_unix root_text_unix absolute_unix word_type_def)
  have len: "path_length (Some ''/a/'') [''./b'', ''../../c''] + 1 = 16" by (simp add: path_length_def)
  from path_join_alloc_absolute [of "''/a/''" "[''./b'', ''../../c'']" "\<lambda>_. CHR ''#''" "[]"]
  show ?thesis unfolding tx len by (simp add: absolute_unix)
qed

text \<open>
  On relative paths the in-place join is wrong: a kept \<open>..\<close> segment makes the output run ahead
  of the source in the shared buffer, and the removal test then reads what was just written.
  \<open>path_join_alloc\<close> of \<open>./..\<close> and \<open>..\<close> gives \<open>..\<close>, while the same two paths joined into a separate
  buffer give \<open>../..\<close>; and \<open>path_join\<close> of \<open>a\<close>, \<open>b\<close> and a path that climbs five levels gives results
  that depend on what the output buffer held before the call.
\<close>

theorem path_join_in_place_relative_wrong:
  "map_option (map_option c_str) (path_join_alloc CWK_STYLE_UNIX (\<lambda>_. NUL) [NUL] True (Some ''./..'') [''..'']) = Some (Some ''..'') \<and>
   map_option (c_str \<circ> snd) (cwk_path_join CWK_STYLE_UNIX ''./..'' ''..'' (replicate 8 NUL)) = Some ''../..'' \<and>
   map_option (c_str \<circ> snd) (path_join CWK_STYLE_UNIX [NUL] ''a'' ''b'' [''../../../../../c''] (replicate 32 NUL)) = Some ''../../../c'' \<and>
   map_option (c_str \<circ> snd) (path_join CWK_STYLE_UNIX [NUL] ''a'' ''b'' [''../../../../../c'']
      (''####/q/r/s/t/u/v/w'' @ replicate 13 NUL)) = Some ''../../c''"
  by code_simp

text \<open>
  File name and extension: \<open>path_get_filename\<close> splits the path after its last slash, and
  \<open>path_get_extension\<close> points behind the last dot of the whole path, or nowhere when there is none.
  That dot belongs to a directory, not to the file name, exactly when the file name has no dot.
\<close>

theorem path_filename_extension:
  "\<exists>dir name. path = dir @ name \<and> path_get_filename path = length dir \<and> CHR ''/'' \<notin> set name \<and>
    (dir = [] \<or> last dir = CHR ''/'') \<and>
    (case path_get_extension path of
       None \<Rightarrow> CHR ''.'' \<notin> set path
     | Some i \<Rightarrow> 0 < i \<and> path ! (i - 1) = CHR ''.'' \<and> CHR ''.'' \<notin> set (drop i path) \<and>
         (i \<le> length dir \<longleftrightarrow> CHR ''.'' \<notin> set name))"
proof -
  obtain dir name where d: "path = dir @ name" "path_get_filename path = length dir" "CHR ''/'' \<notin> set name"
    "dir = [] \<or> last dir = CHR ''/''"
  proof (cases "c_strrchr path CHR ''/''")
    case None
    then have "CHR ''/'' \<notin> set path" by (simp add: c_strrchr_None)
    with None show ?thesis using that [of "[]" path] by (simp add: path_get_filename_def)
  next
    case (Some i)
    then obtain u v where "path = u @ CHR ''/'' # v" "length u = i" "CHR ''/'' \<notin> set v" by (rule c_strrchr_Some)
    then show ?thesis using that [of "u @ [CHR ''/'']" v] Some by (simp add: path_get_filename_def)
  qed
  have "case path_get_extension path of
       None \<Rightarrow> CHR ''.'' \<notin> set path
     | Some i \<Rightarrow> 0 < i \<and> path ! (i - 1) = CHR ''.'' \<and> CHR ''.'' \<notin> set (drop i path) \<and>
         (i \<le> length dir \<longleftrightarrow> CHR ''.'' \<notin> set name)"
  proof (cases "c_strrchr path CHR ''.''")
    case None
    then have "CHR ''.'' \<notin> set path" by (simp add: c_strrchr_None)
    with None show ?thesis by (simp add: path_get_extension_def)
  next
    case (Some i)
    then obtain u v where s: "path = u @ CHR ''.'' # v" "length u = i" "CHR ''.'' \<notin> set v" by (rule c_strrchr_Some)
    have "dir @ name = u @ CHR ''.'' # v" using d(1) s(1) by simp
    then have "Suc i \<le> length dir \<longleftrightarrow> CHR ''.'' \<notin> set name"
      using s(2,3) by (auto simp: append_eq_append_conv2 append_eq_Cons_conv)
    with s(1) s(2) [symmetric] s(3) Some show ?thesis by (simp add: path_get_extension_def)
  qed
  with d show ?thesis by blast
qed

end
