(* ===== verification/Sha1.thy ===== *)
theory Sha1
  imports Prelude
begin

unbundle bit_operations_syntax

text \<open>
  The SHA-1 code of the websocket handshake, \<^verbatim>\<open>src/websocket/websocket.c\<close>: the streaming
  context with its 64-byte buffer and its 64-bit count kept in two 32-bit words, the block
  transformation, and the padding loop of the last step. The reference definition is the one of
  the standard (message schedule by recursion, padding of the whole message, compression block by
  block), and the main theorem is that the streaming code computes it for every way of cutting
  the message into calls.
\<close>

section \<open>The code\<close>

type_synonym sha1_chain = "uint \<times> uint \<times> uint \<times> uint \<times> uint"

definition SHA1_ROL :: "uint \<Rightarrow> nat \<Rightarrow> uint" where
  "SHA1_ROL x n = push_bit n x OR drop_bit (32 - n) x"

text \<open>Four bytes of a block, the most significant first.\<close>

definition sha1_word :: "byte list \<Rightarrow> nat \<Rightarrow> uint" where
  "sha1_word blk i =
     push_bit 24 (ucast (blk ! (i * 4))) OR push_bit 16 (ucast (blk ! (i * 4 + 1))) OR
     push_bit 8 (ucast (blk ! (i * 4 + 2))) OR ucast (blk ! (i * 4 + 3))"

primrec sha1_expand :: "nat \<Rightarrow> uint list \<Rightarrow> uint list" where
  "sha1_expand 0 w = w"
| "sha1_expand (Suc k) w =
     (let i = length w in
      sha1_expand k (w @ [SHA1_ROL (w ! (i - 3) XOR w ! (i - 8) XOR w ! (i - 14) XOR w ! (i - 16)) 1]))"

text \<open>The body the four loops share; they differ in the boolean function and the constant.\<close>

fun sha1_round :: "(uint \<Rightarrow> uint \<Rightarrow> uint \<Rightarrow> uint) \<Rightarrow> uint \<Rightarrow> uint \<Rightarrow> sha1_chain \<Rightarrow> sha1_chain" where
  "sha1_round f k wi (a, b, c, d, e) =
     (let t = SHA1_ROL a 5 + f b c d + e + wi + k in (t, a, SHA1_ROL b 30, c, d))"

definition sha1_transform :: "uint list \<Rightarrow> byte list \<Rightarrow> uint list" where
  "sha1_transform st blk =
     (let w = sha1_expand 64 (map (sha1_word blk) [0..<16]);
          s0 = (st ! 0, st ! 1, st ! 2, st ! 3, st ! 4);
          s1 = fold (\<lambda>i. sha1_round (\<lambda>b c d. (b AND c) OR (NOT b AND d)) 0x5A827999 (w ! i)) [0..<20] s0;
          s2 = fold (\<lambda>i. sha1_round (\<lambda>b c d. b XOR c XOR d) 0x6ED9EBA1 (w ! i)) [20..<40] s1;
          s3 = fold (\<lambda>i. sha1_round (\<lambda>b c d. (b AND c) OR (b AND d) OR (c AND d)) 0x8F1BBCDC (w ! i)) [40..<60] s2;
          (a, b, c, d, e) = fold (\<lambda>i. sha1_round (\<lambda>b c d. b XOR c XOR d) 0xCA62C1D6 (w ! i)) [60..<80] s3
      in [st ! 0 + a, st ! 1 + b, st ! 2 + c, st ! 3 + d, st ! 4 + e])"

record sha1_ctx =
  sha_st :: "uint list"
  sha_cnt0 :: uint
  sha_cnt1 :: uint
  sha_buf :: "byte list"

text \<open>The buffer of a fresh context is uninitialised memory, \<open>junk\<close>.\<close>

definition sha1_init :: "byte list \<Rightarrow> sha1_ctx" where
  "sha1_init junk = \<lparr>sha_st = [0x67452301, 0xEFCDAB89, 0x98BADCFE, 0x10325476, 0xC3D2E1F0],
     sha_cnt0 = 0, sha_cnt1 = 0, sha_buf = junk\<rparr>"

function sha1_update_loop :: "uint list \<Rightarrow> byte list \<Rightarrow> nat \<Rightarrow> uint list \<times> nat" where
  "sha1_update_loop st d i =
     (if i + 63 < length d then sha1_update_loop (sha1_transform st (take 64 (drop i d))) d (i + 64)
      else (st, i))"
  by pat_completeness auto
termination by (relation "measure (\<lambda>(st, d, i). length d - i)") auto

declare sha1_update_loop.simps [simp del]

definition sha1_update :: "sha1_ctx \<Rightarrow> byte list \<Rightarrow> sha1_ctx" where
  "sha1_update c d =
     (let n = length d;
          j = unat (drop_bit 3 (sha_cnt0 c) AND 63);
          bits = ucast (push_bit 3 (word_of_nat n :: size_t)) :: uint;
          cnt0 = sha_cnt0 c + bits;
          cnt1 = (if cnt0 < bits then sha_cnt1 c + 1 else sha_cnt1 c) + ucast (drop_bit 29 (word_of_nat n :: size_t));
          (st, buf, j', i) =
            (if j + n > 63 then
               (let buf1 = take j (sha_buf c) @ take (64 - j) d;
                    (st2, i2) = sha1_update_loop (sha1_transform (sha_st c) buf1) d (64 - j)
                in (st2, buf1, 0, i2))
             else (sha_st c, sha_buf c, j, 0))
      in \<lparr>sha_st = st, sha_cnt0 = cnt0, sha_cnt1 = cnt1,
          sha_buf = take j' buf @ drop i d @ drop (j' + (n - i)) buf\<rparr>)"

lemma sha1_update_cnt0 [simp]:
  "sha_cnt0 (sha1_update c d) = sha_cnt0 c + ucast (push_bit 3 (word_of_nat (length d) :: size_t))"
  by (simp add: sha1_update_def Let_def split: prod.split)

lemma sha1_update_cnt1:
  "sha_cnt1 (sha1_update c d) =
     (let bits = ucast (push_bit 3 (word_of_nat (length d) :: size_t)) in
      (if sha_cnt0 c + bits < bits then sha_cnt1 c + 1 else sha_cnt1 c) + ucast (drop_bit 29 (word_of_nat (length d) :: size_t)))"
  by (simp add: sha1_update_def Let_def split: prod.split)

text \<open>The padding loop: the number of bytes to go until the count is 56 modulo 64 decreases.\<close>

definition sha1_to_pad :: "uint \<Rightarrow> nat" where
  "sha1_to_pad cnt0 = (120 - unat cnt0 div 8 mod 64) mod 64"

lemma and_504: "unat (w AND 504 :: uint) = 8 * (unat w div 8 mod 64)"
proof -
  have "unat w AND 504 = push_bit 3 (take_bit 6 (drop_bit 3 (unat w)))"
  proof (rule bit_eqI)
    have m: "(504 :: nat) = push_bit 3 (mask 6)" by (simp add: mask_eq_exp_minus_1 push_bit_eq_mult)
    show "bit (unat w AND 504) n = bit (push_bit 3 (take_bit 6 (drop_bit 3 (unat w)))) n" for n
      unfolding m by (auto simp: bit_simps)
  qed
  then show ?thesis by (simp add: unsigned_and_eq push_bit_eq_mult take_bit_eq_mod drop_bit_eq_div)
qed

lemma pad_step: "unat (w + 8 :: uint) div 8 mod 64 = Suc (unat w div 8 mod 64) mod 64"
proof -
  have u: "unat (w + 8) = (unat w + 8) mod 4294967296" by (simp add: unat_word_ariths)
  have lt: "unat w < 4294967296" using unsigned_less [of w] by simp
  show ?thesis
  proof (cases "unat w + 8 < 4294967296")
    case True
    moreover have "(unat w + 8) div 8 = Suc (unat w div 8)" by simp
    ultimately show ?thesis unfolding u by (simp only: mod_less mod_Suc_eq)
  next
    case False
    then have "unat w div 8 = 536870911" using lt by linarith
    moreover have "(unat w + 8) mod 4294967296 div 8 = 0" using False lt by (simp add: mod_if)
    ultimately show ?thesis unfolding u by simp
  qed
qed

lemma pad_decreases: "(m :: nat) \<noteq> 56 \<Longrightarrow> m < 64 \<Longrightarrow> (120 - Suc m mod 64) mod 64 < (120 - m) mod 64"
  by (cases "m = 63"; cases "m < 56") (simp_all add: mod_if, linarith+)

function sha1_pad :: "sha1_ctx \<Rightarrow> sha1_ctx" where
  "sha1_pad c = (if sha_cnt0 c AND 504 \<noteq> 448 then sha1_pad (sha1_update c [0]) else c)"
  by pat_completeness auto
termination
proof (relation "measure (\<lambda>c. sha1_to_pad (sha_cnt0 c))", goal_cases)
  case (2 c)
  let ?m = "unat (sha_cnt0 c) div 8 mod 64"
  have "unat (sha_cnt0 c AND 504) \<noteq> unat (448 :: uint)" using 2 by (simp only: word_unat_eq_iff) blast
  then have "?m \<noteq> 56" by (simp add: and_504)
  moreover have "?m < 64" by simp
  ultimately have "(120 - Suc ?m mod 64) mod 64 < (120 - ?m) mod 64" by (rule pad_decreases)
  then show ?case by (simp add: sha1_to_pad_def pad_step)
qed simp

declare sha1_pad.simps [simp del]

definition be_byte :: "uint \<Rightarrow> nat \<Rightarrow> byte" where
  "be_byte w i = ucast (drop_bit ((3 - i mod 4) * 8) w)"

definition sha1_final :: "sha1_ctx \<Rightarrow> byte list" where
  "sha1_final c =
     (let fc = map (\<lambda>i. be_byte (if i \<ge> 4 then sha_cnt0 c else sha_cnt1 c) i) [0..<8];
          c3 = sha1_update (sha1_pad (sha1_update c [0x80])) fc
      in map (\<lambda>i. be_byte (sha_st c3 ! (i div 4)) i) [0..<20])"

section \<open>The standard\<close>

fun sha1_W :: "byte list \<Rightarrow> nat \<Rightarrow> uint" where
  "sha1_W blk t =
     (if t < 16 then sha1_word blk t
      else word_rotl 1 (sha1_W blk (t - 3) XOR sha1_W blk (t - 8) XOR sha1_W blk (t - 14) XOR sha1_W blk (t - 16)))"

declare sha1_W.simps [simp del]

definition sha1_f :: "nat \<Rightarrow> uint \<Rightarrow> uint \<Rightarrow> uint \<Rightarrow> uint" where
  "sha1_f t x y z =
     (if t < 20 then (x AND y) XOR (NOT x AND z)
      else if t < 40 then x XOR y XOR z
      else if t < 60 then (x AND y) XOR (x AND z) XOR (y AND z)
      else x XOR y XOR z)"

definition sha1_K :: "nat \<Rightarrow> uint" where
  "sha1_K t = (if t < 20 then 0x5A827999 else if t < 40 then 0x6ED9EBA1 else if t < 60 then 0x8F1BBCDC else 0xCA62C1D6)"

fun sha1_step :: "byte list \<Rightarrow> nat \<Rightarrow> sha1_chain \<Rightarrow> sha1_chain" where
  "sha1_step blk t (a, b, c, d, e) =
     (word_rotl 5 a + sha1_f t b c d + e + sha1_K t + sha1_W blk t, a, word_rotl 30 b, c, d)"

fun chain_add :: "sha1_chain \<Rightarrow> sha1_chain \<Rightarrow> sha1_chain" where
  "chain_add (a, b, c, d, e) (a', b', c', d', e') = (a + a', b + b', c + c', d + d', e + e')"

definition sha1_compress :: "sha1_chain \<Rightarrow> byte list \<Rightarrow> sha1_chain" where
  "sha1_compress H blk = chain_add H (fold (sha1_step blk) [0..<80] H)"

definition sha1_H0 :: sha1_chain where
  "sha1_H0 = (0x67452301, 0xEFCDAB89, 0x98BADCFE, 0x10325476, 0xC3D2E1F0)"

fun blocks64 :: "'a list \<Rightarrow> 'a list list" where
  "blocks64 m = (if length m < 64 then [] else take 64 m # blocks64 (drop 64 m))"

declare blocks64.simps [simp del]

text \<open>The message, one bit, zeroes, and the length in bits as a 64-bit number.\<close>

definition sha1_padded :: "byte list \<Rightarrow> byte list" where
  "sha1_padded m = m @ [0x80] @ replicate ((119 - length m mod 64) mod 64) 0 @
     map (\<lambda>i. word_of_nat (8 * length m div 2 ^ (8 * (7 - i)))) [0..<8]"

fun chain_bytes :: "sha1_chain \<Rightarrow> byte list" where
  "chain_bytes (a, b, c, d, e) = concat (map (\<lambda>w. map (be_byte w) [0..<4]) [a, b, c, d, e])"

definition sha1_hash :: "byte list \<Rightarrow> byte list" where
  "sha1_hash m = chain_bytes (foldl sha1_compress sha1_H0 (blocks64 (sha1_padded m)))"

section \<open>The block transformation\<close>

lemma SHA1_ROL_rotl: "n < 32 \<Longrightarrow> SHA1_ROL x n = word_rotl n x"
proof -
  assume n: "n < 32"
  show ?thesis
    by (rule bit_word_eqI) (use n in \<open>auto simp: SHA1_ROL_def bit_simps bit_word_rotl_iff mod_if not_le not_less add.commute [of _ 32] dest: bit_imp_le_length\<close>)
qed

fun chain_list :: "sha1_chain \<Rightarrow> uint list" where
  "chain_list (a, b, c, d, e) = [a, b, c, d, e]"

lemma sha1_expand_W:
  "16 \<le> length w \<Longrightarrow> (\<forall>i < length w. w ! i = sha1_W blk i) \<Longrightarrow>
     length (sha1_expand k w) = length w + k \<and> (\<forall>i < length w + k. sha1_expand k w ! i = sha1_W blk i)"
proof (induction k arbitrary: w)
  case (Suc k)
  let ?i = "length w"
  let ?w = "w @ [SHA1_ROL (w ! (?i - 3) XOR w ! (?i - 8) XOR w ! (?i - 14) XOR w ! (?i - 16)) 1]"
  have "SHA1_ROL (w ! (?i - 3) XOR w ! (?i - 8) XOR w ! (?i - 14) XOR w ! (?i - 16)) 1 = sha1_W blk ?i"
    using Suc.prems by (subst sha1_W.simps) (simp add: SHA1_ROL_rotl)
  then have "\<forall>i < length ?w. ?w ! i = sha1_W blk i" using Suc.prems(2) by (auto simp: nth_append less_Suc_eq)
  from Suc.IH [OF _ this] Suc.prems(1) show ?case by (simp add: Let_def)
qed simp

lemma f_ch: "((b AND c) OR (NOT b AND d)) = (b AND c) XOR (NOT b AND d)" for b c d :: uint
  by (rule bit_word_eqI) (auto simp: bit_simps)

lemma f_maj: "((b AND c) OR (b AND d) OR (c AND d)) = (b AND c) XOR (b AND d) XOR (c AND d)" for b c d :: uint
  by (rule bit_word_eqI) (auto simp: bit_simps)

lemma sha1_round_step:
  assumes "w ! t = sha1_W blk t" and "f = sha1_f t" and "k = sha1_K t"
  shows "sha1_round f k (w ! t) s = sha1_step blk t s"
  using assms by (cases s) (simp add: SHA1_ROL_rotl Let_def ac_simps)

lemma fold_rounds:
  assumes "\<And>t. t \<in> set ts \<Longrightarrow> w ! t = sha1_W blk t \<and> f = sha1_f t \<and> k = sha1_K t"
  shows "fold (\<lambda>i. sha1_round f k (w ! i)) ts s = fold (sha1_step blk) ts s"
proof (rule fold_cong)
  fix t assume "t \<in> set ts"
  from assms [OF this] show "sha1_round f k (w ! t) = sha1_step blk t"
    by (intro ext sha1_round_step) auto
qed simp_all

lemma sha1_transform_compress:
  "sha1_transform (chain_list H) blk = chain_list (sha1_compress H blk)"
proof -
  let ?w = "sha1_expand 64 (map (sha1_word blk) [0..<16])"
  have "\<forall>i < length (map (sha1_word blk) [0..<16]). map (sha1_word blk) [0..<16] ! i = sha1_W blk i"
    by (simp add: sha1_W.simps)
  from sha1_expand_W [OF _ this, of 64] have W: "?w ! t = sha1_W blk t" if "t < 80" for t using that by simp
  have split: "[0..<80] = [0..<20] @ [20..<40] @ [40..<60] @ [60..<80]"
    using upt_add_eq_append [of 0 20 60] upt_add_eq_append [of 20 40 40] upt_add_eq_append [of 40 60 20] by simp
  have r1: "fold (\<lambda>i. sha1_round (\<lambda>b c d. (b AND c) OR (NOT b AND d)) 0x5A827999 (?w ! i)) [0..<20] s =
      fold (sha1_step blk) [0..<20] s" for s
    by (rule fold_rounds) (auto simp: W sha1_f_def sha1_K_def f_ch fun_eq_iff)
  have r2: "fold (\<lambda>i. sha1_round (\<lambda>b c d. b XOR c XOR d) 0x6ED9EBA1 (?w ! i)) [20..<40] s =
      fold (sha1_step blk) [20..<40] s" for s
    by (rule fold_rounds) (auto simp: W sha1_f_def sha1_K_def fun_eq_iff)
  have r3: "fold (\<lambda>i. sha1_round (\<lambda>b c d. (b AND c) OR (b AND d) OR (c AND d)) 0x8F1BBCDC (?w ! i)) [40..<60] s =
      fold (sha1_step blk) [40..<60] s" for s
    by (rule fold_rounds) (auto simp: W sha1_f_def sha1_K_def f_maj fun_eq_iff)
  have r4: "fold (\<lambda>i. sha1_round (\<lambda>b c d. b XOR c XOR d) 0xCA62C1D6 (?w ! i)) [60..<80] s =
      fold (sha1_step blk) [60..<80] s" for s
    by (rule fold_rounds) (auto simp: W sha1_f_def sha1_K_def fun_eq_iff)
  obtain a b c d e where H: "H = (a, b, c, d, e)" by (cases H)
  have "sha1_transform (chain_list H) blk = chain_list (chain_add H (fold (sha1_step blk) [0..<80] H))"
    unfolding sha1_transform_def Let_def r1 r2 r3 r4 split fold_append o_apply
    by (simp add: H split: prod.split)
  then show ?thesis by (simp add: sha1_compress_def)
qed

section \<open>Blocks\<close>

lemma blocks64_append: "64 dvd length p \<Longrightarrow> blocks64 (p @ q) = blocks64 p @ blocks64 q"
proof (induction p rule: blocks64.induct)
  case (1 p)
  show ?case
  proof (cases "length p < 64")
    case True
    with 1(2) have "p = []" by (cases p) (auto dest: dvd_imp_le)
    then show ?thesis by (simp add: blocks64.simps [of "[]"])
  next
    case False
    then have "64 dvd length (drop 64 p)" using 1(2) by auto
    from 1(1) [OF False this] False show ?thesis by (simp add: blocks64.simps [of p] blocks64.simps [of "p @ q"])
  qed
qed

lemma blocks64_short: "length p < 64 \<Longrightarrow> blocks64 p = []"
  by (simp add: blocks64.simps)

lemma blocks64_whole: "blocks64 p = blocks64 (take (64 * (length p div 64)) p)"
proof -
  have "p = take (64 * (length p div 64)) p @ drop (64 * (length p div 64)) p" by simp
  moreover have "length (drop (64 * (length p div 64)) p) < 64"
    by (simp add: minus_mult_div_eq_mod)
  moreover have "64 dvd length (take (64 * (length p div 64)) p)" by simp
  ultimately show ?thesis by (metis append_Nil2 blocks64_append blocks64_short)
qed

lemma sha1_update_loop_blocks:
  "i \<le> length d \<Longrightarrow> sha1_update_loop (chain_list H) d i =
     (chain_list (foldl sha1_compress H (blocks64 (drop i d))), i + 64 * ((length d - i) div 64))"
proof (induction "length d - i" arbitrary: H i rule: less_induct)
  case less
  show ?case
  proof (cases "i + 63 < length d")
    case True
    let ?H = "sha1_compress H (take 64 (drop i d))"
    have b: "blocks64 (drop i d) = take 64 (drop i d) # blocks64 (drop (i + 64) d)"
      using True by (subst blocks64.simps) (simp add: add.commute)
    have "length d - i = (length d - (i + 64)) + 64" using True by simp
    then have n: "(length d - i) div 64 = Suc ((length d - (i + 64)) div 64)" by (simp only: div_add_self2)
    from less.hyps [of "i + 64" ?H] True
    show ?thesis by (subst sha1_update_loop.simps) (simp add: sha1_transform_compress b n)
  next
    case False
    then have "(length d - i) div 64 = 0" and "length (drop i d) < 64" using less.prems by auto
    with False show ?thesis by (subst sha1_update_loop.simps) (simp add: blocks64_short)
  qed
qed

section \<open>The count\<close>

lemma below_high: "x * 4294967296 + y < 18446744073709551616 \<Longrightarrow> (x :: nat) < 4294967296"
proof (rule ccontr)
  assume lt: "x * 4294967296 + y < 18446744073709551616" and "\<not> x < 4294967296"
  then have "4294967296 * 4294967296 \<le> x * 4294967296" by (intro mult_le_mono1) simp
  with lt show False by simp
qed

lemma count_add:
  fixes c0 c1 lo hi :: uint
  assumes "(unat c1 + unat hi) * 4294967296 + unat c0 + unat lo < 18446744073709551616"
  shows "unat ((if c0 + lo < lo then c1 + 1 else c1) + hi) * 4294967296 + unat (c0 + lo) =
    (unat c1 + unat hi) * 4294967296 + unat c0 + unat lo"
proof (cases "unat c0 + unat lo < 4294967296")
  case True
  then have "unat (c0 + lo) = unat c0 + unat lo" by (simp add: unat_word_ariths)
  moreover from this have "\<not> c0 + lo < lo" by (simp add: word_less_nat_alt)
  moreover have "unat c1 + unat hi < 4294967296" using assms by (intro below_high [of _ "unat c0 + unat lo"]) simp
  then have "unat (c1 + hi) = unat c1 + unat hi" by (simp add: unat_word_ariths)
  ultimately show ?thesis by simp
next
  case False
  have lt: "unat c0 < 4294967296" "unat lo < 4294967296" using unsigned_less [of c0] unsigned_less [of lo] by simp_all
  with False have "unat (c0 + lo) = unat c0 + unat lo - 4294967296" by (simp add: unat_word_ariths mod_if)
  moreover from this have "c0 + lo < lo" using lt False by (simp add: word_less_nat_alt)
  moreover have "unat c1 + 1 + unat hi < 4294967296"
    using assms False by (intro below_high [of _ "unat c0 + unat lo - 4294967296"]) simp
  then have "unat (c1 + 1 + hi) = unat c1 + 1 + unat hi" by (simp add: unat_word_ariths)
  ultimately show ?thesis using False by simp
qed

lemma count_bits:
  assumes "n < 2 ^ 61"
  shows "unat (ucast (push_bit 3 (word_of_nat n :: size_t)) :: uint) = 8 * n mod 4294967296"
    and "unat (ucast (drop_bit 29 (word_of_nat n :: size_t)) :: uint) = 8 * n div 4294967296"
proof -
  have "8 * n < 18446744073709551616" using assms by simp
  then have p: "unat (push_bit 3 (word_of_nat n :: size_t)) = 8 * n"
    by (subst unsigned_push_bit_eq) (simp add: unat_of_nat take_bit_eq_mod push_bit_eq_mult mult.commute)
  show "unat (ucast (push_bit 3 (word_of_nat n :: size_t)) :: uint) = 8 * n mod 4294967296"
    by (simp add: unsigned_ucast_eq take_bit_eq_mod p)
  have d: "unat (drop_bit 29 (word_of_nat n :: size_t)) = n div 536870912"
    using assms by (subst unat_drop_bit_eq) (simp add: unat_of_nat drop_bit_eq_div)
  have "n div 536870912 < 4294967296" using assms by simp
  moreover have "8 * n div 4294967296 = n div 536870912" by simp
  ultimately show "unat (ucast (drop_bit 29 (word_of_nat n :: size_t)) :: uint) = 8 * n div 4294967296"
    by (simp add: unsigned_ucast_eq take_bit_eq_mod d)
qed

section \<open>Streaming\<close>

definition sha1_inv :: "sha1_ctx \<Rightarrow> byte list \<Rightarrow> bool" where
  "sha1_inv c m \<longleftrightarrow> sha_st c = chain_list (foldl sha1_compress sha1_H0 (blocks64 m)) \<and>
     length (sha_buf c) = 64 \<and> take (length m mod 64) (sha_buf c) = drop (64 * (length m div 64)) m \<and>
     unat (sha_cnt1 c) * 4294967296 + unat (sha_cnt0 c) = 8 * length m"

lemma sha1_inv_init: "length junk = 64 \<Longrightarrow> sha1_inv (sha1_init junk) []"
  by (simp add: sha1_inv_def sha1_init_def sha1_H0_def blocks64_short)

lemma and_63: "unat (drop_bit 3 w AND 63 :: uint) = unat w div 8 mod 64"
proof -
  have "drop_bit 3 w AND 63 = take_bit 6 (drop_bit 3 w)"
    by (simp add: take_bit_eq_mask mask_eq_exp_minus_1)
  then show ?thesis
    by (simp only: unsigned_take_bit_eq unat_drop_bit_eq) (simp add: take_bit_eq_mod drop_bit_eq_div)
qed

lemma sha1_inv_j:
  assumes "sha1_inv c m"
  shows "unat (drop_bit 3 (sha_cnt0 c) AND 63) = length m mod 64"
proof -
  have "unat (drop_bit 3 (sha_cnt0 c) AND 63) = unat (sha_cnt0 c) div 8 mod 64" by (rule and_63)
  also have "\<dots> = length m mod 64"
  proof -
    have "unat (sha_cnt1 c) * 4294967296 + unat (sha_cnt0 c) = 8 * length m" using assms by (simp add: sha1_inv_def)
    then have "length m = unat (sha_cnt0 c) div 8 + (unat (sha_cnt1 c) * 8388608) * 64" by linarith
    then show ?thesis by (simp only: mod_mult_self1)
  qed
  finally show ?thesis .
qed

lemma sha1_update_count:
  assumes "unat (sha_cnt1 c) * 4294967296 + unat (sha_cnt0 c) = 8 * l" and "l + length d < 2 ^ 61"
  shows "unat (sha_cnt1 (sha1_update c d)) * 4294967296 + unat (sha_cnt0 (sha1_update c d)) = 8 * (l + length d)"
proof -
  let ?lo = "ucast (push_bit 3 (word_of_nat (length d) :: size_t)) :: uint"
  let ?hi = "ucast (drop_bit 29 (word_of_nat (length d) :: size_t)) :: uint"
  have n: "length d < 2 ^ 61" using assms(2) by linarith
  note bits = count_bits [OF n]
  have whole: "8 * length d = unat ?hi * 4294967296 + unat ?lo" by (simp only: bits div_mult_mod_eq)
  then have "(unat (sha_cnt1 c) + unat ?hi) * 4294967296 + unat (sha_cnt0 c) + unat ?lo = 8 * (l + length d)"
    using assms(1) by (simp add: algebra_simps)
  with count_add [of "sha_cnt1 c" ?hi "sha_cnt0 c" ?lo] assms(2) show ?thesis
    by (simp only: sha1_update_cnt1 sha1_update_cnt0 Let_def) simp
qed

lemma sha1_inv_update:
  assumes inv: "sha1_inv c m" and len: "length m + length d < 2 ^ 61"
  shows "sha1_inv (sha1_update c d) (m @ d)"
proof -
  define j n H where "j = length m mod 64" and "n = length d"
    and "H = foldl sha1_compress sha1_H0 (blocks64 m)"
  define p r where "p = take (64 * (length m div 64)) m" and "r = drop (64 * (length m div 64)) m"
  have st: "sha_st c = chain_list H" and buf: "length (sha_buf c) = 64" and r: "take j (sha_buf c) = r"
    using inv by (simp_all add: sha1_inv_def j_def H_def r_def)
  have lr: "length r = j" by (simp add: r_def j_def minus_mult_div_eq_mod)
  have lp: "64 dvd length p" by (simp add: p_def)
  have j: "j < 64" by (simp add: j_def)
  have m: "m = p @ r" by (simp add: p_def r_def)
  have Hp: "H = foldl sha1_compress sha1_H0 (blocks64 p)" unfolding H_def p_def by (subst blocks64_whole) simp
  have bl: "blocks64 (m @ d) = blocks64 p @ blocks64 (r @ d)" using blocks64_append [OF lp] m by simp
  note jw = sha1_inv_j [OF inv, folded j_def]
  note count = sha1_update_count [OF conjunct2 [OF conjunct2 [OF conjunct2 [OF inv [unfolded sha1_inv_def]]]] len]
  have tail: "length (m @ d) mod 64 = (j + n) mod 64" by (simp add: j_def n_def mod_simps)
  have rest: "drop (64 * (length (m @ d) div 64)) (m @ d) = drop (64 * ((j + n) div 64)) (r @ d)"
  proof -
    have "length (m @ d) = length p + (j + n)" by (simp add: m lr n_def)
    then have "length (m @ d) div 64 = length p div 64 + (j + n) div 64" using lp by (simp add: div_plus_div_distrib_dvd_left)
    then have "64 * (length (m @ d) div 64) = length p + 64 * ((j + n) div 64)" using lp by simp
    then show ?thesis by (simp add: m)
  qed
  show ?thesis
  proof (cases "j + n > 63")
    case True
    let ?i = "64 - j"
    define blk where "blk = r @ take ?i d"
    have lblk: "length blk = 64" using True j lr by (simp add: n_def blk_def)
    have b: "blocks64 (r @ d) = blk # blocks64 (drop ?i d)"
      using True j lr by (subst blocks64.simps) (simp add: n_def blk_def)
    define e where "e = ?i + 64 * ((n - ?i) div 64)"
    have loop: "sha1_update_loop (sha1_transform (sha_st c) blk) d ?i =
        (chain_list (foldl sha1_compress (sha1_compress H blk) (blocks64 (drop ?i d))), e)"
      using True j by (simp add: st sha1_transform_compress sha1_update_loop_blocks n_def e_def)
    have e: "64 * ((j + n) div 64) = j + e" and e_le: "e \<le> n" and tl: "n - e = (j + n) mod 64"
    proof -
      have s: "j + n = 64 + (n - ?i)" using True j by simp
      then have d: "(j + n) div 64 = Suc ((n - ?i) div 64)" by simp
      then show "64 * ((j + n) div 64) = j + e" using j by (simp add: e_def)
      then show "n - e = (j + n) mod 64" by (metis add_diff_cancel_left minus_mult_div_eq_mod)
      have "64 * ((j + n) div 64) \<le> j + n" by simp
      then show "e \<le> n" using \<open>64 * ((j + n) div 64) = j + e\<close> by linarith
    qed
    have up: "sha_st (sha1_update c d) = chain_list (foldl sha1_compress (sha1_compress H blk) (blocks64 (drop ?i d)))"
      "sha_buf (sha1_update c d) = drop e d @ drop (n - e) blk"
      using True loop by (simp_all add: sha1_update_def Let_def jw n_def [symmetric] r blk_def [symmetric])
    have "length (drop e d) = (j + n) mod 64" using tl by (simp add: n_def)
    moreover have "(j + n) mod 64 \<le> 64" by simp
    moreover have "drop (64 * ((j + n) div 64)) (r @ d) = drop e d" using e lr by simp
    ultimately show ?thesis
      unfolding sha1_inv_def tail rest using up count tl by (simp add: bl b Hp lblk)
  next
    case False
    have up: "sha_st (sha1_update c d) = chain_list H" "sha_buf (sha1_update c d) = r @ d @ drop (j + n) (sha_buf c)"
      using False st by (simp_all add: sha1_update_def Let_def jw n_def [symmetric] r)
    have "blocks64 (r @ d) = []" using False lr by (intro blocks64_short) (simp add: n_def)
    moreover have "(j + n) div 64 = 0" "(j + n) mod 64 = j + n" using False by simp_all
    moreover have "length (r @ d) = j + n" by (simp add: lr n_def)
    ultimately show ?thesis
      unfolding sha1_inv_def tail rest using up count buf False by (simp add: bl Hp)
  qed
qed

lemma sha1_inv_updates:
  "sha1_inv c m \<Longrightarrow> length m + length (concat ds) < 2 ^ 61 \<Longrightarrow> sha1_inv (foldl sha1_update c ds) (m @ concat ds)"
proof (induction ds arbitrary: c m)
  case (Cons d ds)
  from Cons.prems(2) have len: "length m + length d < 2 ^ 61" "length (m @ d) + length (concat ds) < 2 ^ 61" by simp_all
  from Cons.IH [OF sha1_inv_update [OF Cons.prems(1) len(1)] len(2)] show ?case by simp
qed simp

section \<open>Padding and output\<close>

lemma sha1_inv_pad_test:
  assumes "sha1_inv c m" shows "sha_cnt0 c AND 504 \<noteq> 448 \<longleftrightarrow> length m mod 64 \<noteq> 56"
proof -
  have "unat (sha_cnt0 c AND 504) = 8 * (length m mod 64)"
    using sha1_inv_j [OF assms] by (simp only: and_504 and_63)
  moreover have "sha_cnt0 c AND 504 \<noteq> 448 \<longleftrightarrow> unat (sha_cnt0 c AND 504) \<noteq> unat (448 :: uint)"
    by (simp only: word_unat_eq_iff)
  ultimately show ?thesis by simp
qed

lemma pad_next: "(m :: nat) \<noteq> 56 \<Longrightarrow> m < 64 \<Longrightarrow> (120 - m) mod 64 = Suc ((120 - Suc m mod 64) mod 64)"
  by (cases "m = 63"; cases "m < 56") (simp_all add: mod_if, linarith+)

lemma sha1_inv_pad:
  "sha1_inv c m \<Longrightarrow> length m + (120 - length m mod 64) mod 64 < 2 ^ 61 \<Longrightarrow>
     sha1_inv (sha1_pad c) (m @ replicate ((120 - length m mod 64) mod 64) 0)"
proof (induction c arbitrary: m rule: sha1_pad.induct)
  case (1 c)
  show ?case
  proof (cases "length m mod 64 = 56")
    case True
    then have "\<not> sha_cnt0 c AND 504 \<noteq> 448" using sha1_inv_pad_test [OF 1(2)] by simp
    with 1(2) True show ?thesis by (subst sha1_pad.simps) simp
  next
    case False
    let ?k = "(120 - length m mod 64) mod 64" and ?k' = "(120 - length (m @ [0]) mod 64) mod 64"
    have k: "?k = Suc ?k'" using pad_next [OF False] by (simp add: mod_Suc_eq)
    have test: "sha_cnt0 c AND 504 \<noteq> 448" using sha1_inv_pad_test [OF 1(2)] False by simp
    have "length m + length [0 :: byte] < 2 ^ 61" using 1(3) unfolding k by simp
    from 1(1) [OF test sha1_inv_update [OF 1(2) this]] 1(3)
    have "sha1_inv (sha1_pad (sha1_update c [0])) ((m @ [0]) @ replicate ?k' 0)" unfolding k by simp
    moreover have "sha1_pad c = sha1_pad (sha1_update c [0])" using test by (subst sha1_pad.simps) simp
    ultimately show ?thesis unfolding k by simp
  qed
qed

lemma count_bytes:
  fixes h l :: uint
  assumes n: "n = unat h * 4294967296 + unat l" and i: "i < 8"
  shows "be_byte (if i \<ge> 4 then l else h) i = word_of_nat (n div 2 ^ (8 * (7 - i)))"
proof -
  have lt: "unat l < 4294967296" using unsigned_less [of l] by simp
  have b: "unat (be_byte w j) = unat w div 2 ^ ((3 - j mod 4) * 8) mod 256" for w j
    unfolding be_byte_def unsigned_ucast_eq unat_drop_bit_eq by (simp add: take_bit_eq_mod drop_bit_eq_div)
  have "unat (if i \<ge> 4 then l else h) div 2 ^ ((3 - i mod 4) * 8) mod 256 = n div 2 ^ (8 * (7 - i)) mod 256"
  proof (cases "i \<ge> 4")
    case True
    define k where "k = 8 * (7 - i)"
    have "i \<in> {4, 5, 6, 7}" using True i by auto
    then have "(3 - i mod 4) * 8 = k" and k: "k \<le> 24" by (auto simp: k_def)
    have "(4294967296 :: nat) = 2 ^ (24 - k) * 256 * 2 ^ k" using k by (simp add: power_add [symmetric])
    then have "n = unat l + (unat h * 2 ^ (24 - k) * 256) * 2 ^ k" using n by (simp add: mult.assoc)
    then have "n div 2 ^ k = unat l div 2 ^ k + unat h * 2 ^ (24 - k) * 256" by (simp only: div_mult_self1) simp
    then show ?thesis using True \<open>(3 - i mod 4) * 8 = k\<close> by (simp add: k_def [symmetric])
  next
    case False
    define k where "k = 8 * (3 - i)"
    have "i \<in> {0, 1, 2, 3}" using False by auto
    then have e: "(3 - i mod 4) * 8 = k" "8 * (7 - i) = 32 + k" by (auto simp: k_def)
    have "n div 4294967296 = unat h" using n lt by simp
    then have "n div 2 ^ (32 + k) = unat h div 2 ^ k" by (simp add: power_add div_mult2_eq)
    then show ?thesis using False by (simp only: e) simp
  qed
  then show ?thesis by (simp add: word_unat_eq_iff b unat_of_nat)
qed

lemma pad_total: "(r :: nat) < 64 \<Longrightarrow> 64 dvd r + 9 + (119 - r) mod 64"
proof -
  assume r: "r < 64"
  show ?thesis
  proof (cases "r < 56")
    case True
    then have "119 - r = (55 - r) + 64" by simp
    then have "(119 - r) mod 64 = 55 - r" by (simp only: mod_add_self2) simp
    then show ?thesis using True by simp
  next
    case False
    then have "(119 - r) mod 64 = 119 - r" by simp
    then show ?thesis using False r by simp
  qed
qed

lemma length_sha1_padded: "64 dvd length (sha1_padded m)"
proof -
  have "length (sha1_padded m) = 64 * (length m div 64) + (length m mod 64 + 9 + (119 - length m mod 64) mod 64)"
    using mult_div_mod_eq [of 64 "length m"] by (simp add: sha1_padded_def)
  then show ?thesis using pad_total [of "length m mod 64"] by (simp only: dvd_add_times_triv_left_iff dvd_add_right_iff dvd_triv_left)
qed

lemma chain_output: "map (\<lambda>i. be_byte (chain_list H ! (i div 4)) i) [0..<20] = chain_bytes H"
proof -
  have "[0..<20] = [0, 1, 2, 3, 4, 5, 6, 7, 8, 9, 10, 11, 12, 13, 14, 15, 16, 17, 18, 19]" "[0..<4] = [0, 1, 2, 3]"
    by code_simp+
  then show ?thesis by (cases H) (simp add: be_byte_def)
qed

lemma sha1_stream:
  assumes "length junk = 64" and "length (concat ms) + 128 < 2 ^ 61"
  shows "sha1_final (foldl sha1_update (sha1_init junk) ms) = sha1_hash (concat ms)"
proof -
  define m c where "m = concat ms" and "c = foldl sha1_update (sha1_init junk) ms"
  have inv: "sha1_inv c m"
    using sha1_inv_updates [OF sha1_inv_init [OF assms(1)], of ms] assms(2) by (simp add: m_def c_def)
  define k where "k = (119 - length m mod 64) mod 64"
  have k: "(120 - length (m @ [0x80]) mod 64) mod 64 = k" "k < 64"
  proof -
    have "length m mod 64 < 64" by simp
    then show "(120 - length (m @ [0x80]) mod 64) mod 64 = k"
      by (cases "length m mod 64 = 63") (simp_all add: k_def mod_Suc)
  qed (simp add: k_def)
  have inv1: "sha1_inv (sha1_update c [0x80]) (m @ [0x80])"
    using assms(2) by (intro sha1_inv_update [OF inv]) (simp add: m_def)
  have inv2: "sha1_inv (sha1_pad (sha1_update c [0x80])) ((m @ [0x80]) @ replicate k 0)"
    using sha1_inv_pad [OF inv1] k assms(2) by (simp add: m_def)
  define fc where "fc = map (\<lambda>i. be_byte (if i \<ge> 4 then sha_cnt0 c else sha_cnt1 c) i) [0..<8]"
  have "fc = map (\<lambda>i. word_of_nat (8 * length m div 2 ^ (8 * (7 - i)))) [0..<8]"
    unfolding fc_def using inv by (intro map_cong refl count_bytes) (auto simp: sha1_inv_def)
  then have pd: "((m @ [0x80]) @ replicate k 0) @ fc = sha1_padded m" by (simp add: sha1_padded_def k_def)
  have "length fc = 8" by (simp add: fc_def)
  then have "sha1_inv (sha1_update (sha1_pad (sha1_update c [0x80])) fc) (sha1_padded m)"
    using sha1_inv_update [OF inv2, of fc] assms(2) k(2) unfolding pd by (simp add: m_def)
  then have "sha_st (sha1_update (sha1_pad (sha1_update c [0x80])) fc) =
      chain_list (foldl sha1_compress sha1_H0 (blocks64 (sha1_padded m)))"
    by (simp add: sha1_inv_def)
  then show ?thesis
    unfolding c_def [symmetric] m_def [symmetric] sha1_hash_def
    by (simp add: sha1_final_def Let_def fc_def [symmetric] chain_output)
qed

lemma sha1_update_final:
  "length junk = 64 \<Longrightarrow> length m < 1000 \<Longrightarrow> sha1_final (sha1_update (sha1_init junk) m) = sha1_hash m"
  using sha1_stream [of junk "[m]"] by simp

text \<open>
  C15. However the message is cut into calls of \<open>sha1_update\<close>, \<open>sha1_final\<close> gives the SHA-1 hash the
  standard defines for the whole message: the two-word bit count carries correctly, the block
  buffer is refilled across calls, the padding loop ends, and the four round loops agree with the
  message schedule and the compression function.
\<close>

theorem sha1_streaming_is_standard:
  assumes "length junk = 64" and "length (concat ms) + 128 < 2 ^ 61"
  shows "sha1_final (foldl sha1_update (sha1_init junk) ms) = sha1_hash (concat ms)"
  using assms by (rule sha1_stream)

theorem sha1_streaming_is_standard_witness:
  "sha1_hash [97, 98, 99] = sha1_final (foldl sha1_update (sha1_init (replicate 64 7)) [[97], [], [98, 99]])"
  using sha1_streaming_is_standard [of "replicate 64 7" "[[97], [], [98, 99]]"] by simp


end
