(* ===== verification/Base64.thy ===== *)
theory Base64
  imports CString
begin

unbundle bit_operations_syntax

text \<open>
  The base-64 encoder of the websocket handshake, \<^verbatim>\<open>src/websocket/websocket.c\<close>. The loop over
  the source takes three bytes per round and finishes with one of the two padded groups; here it
  is the recursion over the bytes that are left. A decoder, which the program does not have, says
  what the encoding is for.
\<close>

definition b64 :: string where
  "b64 = ''ABCDEFGHIJKLMNOPQRSTUVWXYZabcdefghijklmnopqrstuvwxyz0123456789+/''"

definition b64_char :: "byte \<Rightarrow> char" where
  "b64_char x = b64 ! unat x"

fun b64_encode :: "byte list \<Rightarrow> string" where
  "b64_encode (x # y # z # src) =
     [b64_char (drop_bit 2 x), b64_char (push_bit 4 (x AND 3) OR drop_bit 4 y),
      b64_char (push_bit 2 (y AND 15) OR drop_bit 6 z), b64_char (z AND 63)] @ b64_encode src"
| "b64_encode [x, y] =
     [b64_char (drop_bit 2 x), b64_char (push_bit 4 (x AND 3) OR drop_bit 4 y),
      b64_char (push_bit 2 (y AND 15)), CHR ''='']"
| "b64_encode [x] = [b64_char (drop_bit 2 x), b64_char (push_bit 4 (x AND 3)), CHR ''='', CHR ''='']"
| "b64_encode [] = []"

section \<open>Decoding\<close>

definition b64_value :: "char \<Rightarrow> byte option" where
  "b64_value c = map_option word_of_nat (List.find (\<lambda>i. b64 ! i = c) [0..<64])"

fun b64_decode :: "string \<Rightarrow> byte list option" where
  "b64_decode [] = Some []"
| "b64_decode (c0 # c1 # c2 # c3 # cs) = do {
     v0 \<leftarrow> b64_value c0;
     v1 \<leftarrow> b64_value c1;
     let b0 = push_bit 2 v0 OR drop_bit 4 v1;
     (if c2 = CHR ''='' then (if c3 = CHR ''='' \<and> cs = [] then Some [b0] else None)
      else do {
        v2 \<leftarrow> b64_value c2;
        let b1 = push_bit 4 v1 OR drop_bit 2 v2;
        (if c3 = CHR ''='' then (if cs = [] then Some [b0, b1] else None)
         else do {
           v3 \<leftarrow> b64_value c3;
           rest \<leftarrow> b64_decode cs;
           Some (b0 # b1 # (push_bit 6 v2 OR v3) # rest)
         })
      })
   }"
| "b64_decode _ = None"

lemma b64_value_table: "\<forall>i \<in> set [0..<64]. b64_value (b64 ! i) = Some (word_of_nat i) \<and> b64 ! i \<noteq> CHR ''='' \<and> b64 ! i \<noteq> NUL"
  by code_simp

lemma b64_value_char: "x < 64 \<Longrightarrow> b64_value (b64_char x) = Some x \<and> b64_char x \<noteq> CHR ''='' \<and> b64_char x \<noteq> NUL"
proof -
  assume "x < 64"
  then have "unat x < 64" by (simp add: word_less_nat_alt)
  then have "unat x \<in> set [0..<64]" by simp
  with b64_value_table show ?thesis by (auto simp: b64_char_def)
qed

lemma b64_masks:
  "x AND 3 = take_bit 2 x" "x AND 15 = take_bit 4 x" "x AND 63 = take_bit 6 x" for x :: byte
  by (simp_all add: take_bit_eq_mask mask_eq_exp_minus_1)

lemmas b64_encode_bits = b64_encode.simps [unfolded b64_masks]

declare b64_encode.simps [simp del]

lemma below_64: "take_bit 6 x = x \<Longrightarrow> x < 64" for x :: byte
proof -
  assume "take_bit 6 x = x"
  then have "unat x = take_bit 6 (unat x)" by (metis unsigned_take_bit_eq)
  also have "\<dots> < 2 ^ 6" by (rule take_bit_nat_less_exp)
  finally show ?thesis by (simp add: word_less_nat_alt)
qed

lemma b64_digits:
  fixes x y z :: byte
  shows "drop_bit 2 x < 64" "push_bit 4 (take_bit 2 x) OR drop_bit 4 y < 64" "push_bit 2 (take_bit 4 y) OR drop_bit 6 z < 64"
    "take_bit 6 z < 64" "push_bit 4 (take_bit 2 x) < 64" "push_bit 2 (take_bit 4 y) < 64"
  by (rule below_64, rule byte_eqI; simp add: bit_simps)+

lemma b64_bytes:
  fixes x y z :: byte
  shows "push_bit 2 (drop_bit 2 x) OR drop_bit 4 (push_bit 4 (take_bit 2 x) OR drop_bit 4 y) = x"
    "push_bit 2 (drop_bit 2 x) OR drop_bit 4 (push_bit 4 (take_bit 2 x)) = x"
    "push_bit 4 (push_bit 4 (take_bit 2 x) OR drop_bit 4 y) OR drop_bit 2 (push_bit 2 (take_bit 4 y) OR drop_bit 6 z) = y"
    "push_bit 4 (push_bit 4 (take_bit 2 x) OR drop_bit 4 y) OR drop_bit 2 (push_bit 2 (take_bit 4 y)) = y"
    "push_bit 6 (push_bit 2 (take_bit 4 y) OR drop_bit 6 z) OR (take_bit 6 z) = z"
    "push_bit 4 (drop_bit 4 y) OR drop_bit 2 (push_bit 2 (take_bit 4 y)) = y"
    "push_bit 6 (drop_bit 6 z) OR take_bit 6 z = z"
  by (rule byte_eqI; simp add: bit_simps)+

lemma b64_length: "length (b64_encode src) = 4 * ((length src + 2) div 3)"
proof (induction src rule: b64_encode.induct)
  case (1 x y z src)
  have "(length (x # y # z # src) + 2) div 3 = Suc ((length src + 2) div 3)" by simp
  with 1 show ?case by (simp add: b64_encode_bits)
qed (simp_all add: b64_encode_bits)

lemma b64_alphabet: "set (b64_encode src) \<subseteq> insert (CHR ''='') (set b64)"
proof -
  have c: "x < 64 \<Longrightarrow> b64_char x \<in> set b64" for x
  proof -
    assume "x < 64"
    then have "unat x < length b64" by (simp add: word_less_nat_alt b64_def)
    then show ?thesis by (simp add: b64_char_def)
  qed
  show ?thesis by (induction src rule: b64_encode.induct) (simp_all add: b64_encode_bits c b64_digits)
qed

text \<open>
  Decoding gives back the encoded bytes, for every length; the encoding has four characters
  for every three bytes or part of three, all of them from the alphabet or padding, so that the
  key of 16 bytes and the hash of 20 bytes fit the handshake's buffers of 32 and 64 characters.
\<close>

theorem b64_roundtrip:
  "b64_decode (b64_encode src) = Some src \<and> length (b64_encode src) = 4 * ((length src + 2) div 3) \<and>
   nonul (b64_encode src)"
proof (induction src rule: b64_encode.induct)
  case (1 x y z src)
  have "(length (x # y # z # src) + 2) div 3 = Suc ((length src + 2) div 3)" by simp
  with 1 show ?case by (simp add: b64_encode_bits b64_value_char b64_digits b64_bytes Let_def)
qed (simp_all add: b64_encode_bits b64_value_char b64_digits b64_bytes Let_def)

end
