(* ===== verification/CNumber.thy ===== *)
theory CNumber
  imports CString
begin

text \<open>
  Numbers as text: \<^verbatim>\<open>atoi\<close>, whose result is undefined outside the range of \<open>int\<close>, and the
  \<open>%d\<close> conversion of \<^verbatim>\<open>snprintf\<close>.
\<close>

definition is_space :: "char \<Rightarrow> bool" where
  "is_space c = (let n = of_char c :: nat in n = 32 \<or> (9 \<le> n \<and> n \<le> 13))"

definition digit_value :: "char \<Rightarrow> nat" where
  "digit_value c = of_char c - 48"

definition c_digits :: "string \<Rightarrow> nat" where
  "c_digits s = foldl (\<lambda>n c. 10 * n + digit_value c) 0 (takeWhile is_digit s)"

definition c_atoi :: "string \<Rightarrow> int option" where
  "c_atoi s =
     (let t = dropWhile is_space s;
          r = (case t of
              c # u \<Rightarrow> if c = CHR ''-'' then - int (c_digits u) else if c = CHR ''+'' then int (c_digits u) else int (c_digits t)
            | [] \<Rightarrow> 0)
      in if - (2 ^ 31) \<le> r \<and> r < 2 ^ 31 then Some r else None)"

fun nat_dec :: "nat \<Rightarrow> string" where
  "nat_dec n = (if n < 10 then [char_of (48 + n)] else nat_dec (n div 10) @ [char_of (48 + n mod 10)])"

declare nat_dec.simps [simp del]

definition c_dec :: "int \<Rightarrow> string" where
  "c_dec i = (if i < 0 then CHR ''-'' # nat_dec (nat (- i)) else nat_dec (nat i))"

lemma digit_char:
  "d < 10 \<Longrightarrow> is_digit (char_of (48 + d :: nat)) \<and> digit_value (char_of (48 + d :: nat)) = d"
  by (simp add: is_digit_def digit_value_def Let_def of_char_of)

lemma nat_dec_digits: "list_all is_digit (nat_dec n)"
proof (induction n rule: nat_dec.induct)
  case (1 n)
  then show ?case using digit_char [of n] digit_char [of "n mod 10"] by (subst nat_dec.simps) auto
qed

lemma nat_dec_not_Nil [simp]: "nat_dec n \<noteq> []"
  by (subst nat_dec.simps) simp

lemma takeWhile_all_append: "list_all P s \<Longrightarrow> takeWhile P (s @ t) = s @ takeWhile P t"
  by (induction s) auto

lemma c_digits_nat_dec:
  assumes "t = [] \<or> \<not> is_digit (hd t)" shows "c_digits (nat_dec n @ t) = n"
proof -
  have "foldl (\<lambda>n c. 10 * n + digit_value c) 0 (nat_dec n) = n"
  proof (induction n rule: nat_dec.induct)
    case (1 n)
    then show ?case using digit_char [of n] digit_char [of "n mod 10"]
      by (subst nat_dec.simps) auto
  qed
  moreover have "takeWhile is_digit t = []" using assms by (cases t) auto
  ultimately show ?thesis by (simp add: c_digits_def takeWhile_all_append nat_dec_digits)
qed

lemma is_digit_facts: "is_digit c \<Longrightarrow> \<not> is_space c \<and> c \<noteq> CHR ''-'' \<and> c \<noteq> CHR ''+'' \<and> c \<noteq> CHR '':'' \<and> c \<noteq> CHR ''/'' \<and> c \<noteq> NUL"
  by (auto simp: is_digit_def is_space_def Let_def)

lemma hd_nat_dec: "is_digit (hd (nat_dec n))"
  using nat_dec_digits [of n] by (cases "nat_dec n") auto

lemma c_atoi_dec: "n < 2 ^ 31 \<Longrightarrow> c_atoi (nat_dec n) = Some (int n)"
proof -
  assume n: "n < 2 ^ 31"
  obtain c u where d: "nat_dec n = c # u" by (cases "nat_dec n") auto
  with hd_nat_dec [of n] have c: "\<not> is_space c" "c \<noteq> CHR ''-''" "c \<noteq> CHR ''+''" using is_digit_facts [of c] by auto
  have "c_digits (nat_dec n) = n" using c_digits_nat_dec [of "[]" n] by simp
  with n c d show ?thesis by (simp add: c_atoi_def Let_def)
qed

lemma nat_dec_nonul: "nonul (nat_dec n)"
  using nat_dec_digits [of n] is_digit_facts by (auto simp: nonul_def list_all_iff)

lemma length_nat_dec: "n < 10 ^ Suc k \<Longrightarrow> length (nat_dec n) \<le> Suc k"
proof (induction k arbitrary: n)
  case 0
  then show ?case by (simp add: nat_dec.simps)
next
  case (Suc k)
  show ?case
  proof (cases "n < 10")
    case True
    then show ?thesis by (simp add: nat_dec.simps)
  next
    case False
    have "n div 10 < 10 ^ Suc k" using Suc.prems by (simp add: less_mult_imp_div_less mult.commute)
    from Suc.IH [OF this] False show ?thesis by (subst nat_dec.simps) simp
  qed
qed

definition c_int_range :: "int \<Rightarrow> bool" where
  "c_int_range i \<longleftrightarrow> - (2 ^ 31) \<le> i \<and> i < 2 ^ 31"

lemma c_atoi_range: "c_atoi s = Some i \<Longrightarrow> c_int_range i"
  by (simp add: c_atoi_def c_int_range_def Let_def split: if_splits)

lemma length_c_dec: "c_int_range i \<Longrightarrow> length (c_dec i) \<le> 11"
proof -
  assume "c_int_range i"
  then have "nat (- i) < 10 ^ Suc 9" "nat i < 10 ^ Suc 9" by (auto simp: c_int_range_def)
  from this [THEN length_nat_dec] show ?thesis by (simp add: c_dec_def)
qed

end
