(* ===== verification/WsUrl.thy ===== *)
theory WsUrl
  imports CNumber
begin

text \<open>
  The websocket URL parser, \<^verbatim>\<open>ws_parse_url\<close> of \<^verbatim>\<open>src/websocket/websocket.c\<close>. The two character
  arrays of 256 bytes are the strings they hold, cut to 255 characters where the code cuts them;
  \<open>None\<close> is the undefined result of \<^verbatim>\<open>atoi\<close> on a number that does not fit.
\<close>

record ws_url =
  wu_host :: string
  wu_path :: string
  wu_port :: int

text \<open>What follows the scheme; \<open>port\<close> is the default port.\<close>

definition ws_parse_authority :: "int \<Rightarrow> string \<Rightarrow> (bool \<times> ws_url) option" where
  "ws_parse_authority port p =
     (let slash = c_strchr p 0 CHR ''/'';
          path = (case slash of Some i \<Rightarrow> take 255 (drop i p) | None \<Rightarrow> ''/'');
          hlen = (case slash of Some i \<Rightarrow> i | None \<Rightarrow> length p);
          host_port = take (if hlen \<ge> 256 then 255 else hlen) p
      in case c_strrchr host_port CHR '':'' of
           Some i \<Rightarrow> do {
             n \<leftarrow> c_atoi (drop (i + 1) host_port);
             Some (take i host_port \<noteq> [], \<lparr>wu_host = take i host_port, wu_path = path, wu_port = n\<rparr>)
           }
         | None \<Rightarrow> Some (host_port \<noteq> [], \<lparr>wu_host = host_port, wu_path = path, wu_port = port\<rparr>))"

definition ws_parse_url :: "string \<Rightarrow> (bool \<times> ws_url) option" where
  "ws_parse_url url =
     (if c_strncmp_eq url 0 ''ws://'' 0 5 then ws_parse_authority 80 (drop 5 url)
      else if c_strncmp_eq url 0 ''wss://'' 0 6 then ws_parse_authority 443 (drop 6 url)
      else Some (False, \<lparr>wu_host = [], wu_path = ''/'', wu_port = 80\<rparr>))"

text \<open>The text of a URL, with the port left out where it is not given.\<close>

definition ws_url_string :: "bool \<Rightarrow> string \<Rightarrow> nat option \<Rightarrow> string \<Rightarrow> string" where
  "ws_url_string tls host port path =
     (if tls then ''wss://'' else ''ws://'') @ host @
     (case port of None \<Rightarrow> [] | Some n \<Rightarrow> CHR '':'' # nat_dec n) @ path"

lemma c_strchr_slash:
  assumes "nonul hp" and "CHR ''/'' \<notin> set hp" and "path = [] \<or> hd path = CHR ''/''"
  shows "c_strchr (hp @ path) 0 CHR ''/'' = (if path = [] then None else Some (length hp))"
proof (cases path)
  case Nil
  then show ?thesis using c_strchr_absent [of "CHR ''/''" hp "[]"] assms by simp
next
  case (Cons c p)
  then show ?thesis using c_strchr_found [of "CHR ''/''" hp "[]" p] assms by simp
qed

text \<open>
  C37. Parsing the text of a URL gives back its parts: the host, the port as written or the
  default of the scheme, and the path, or \<open>/\<close> when there is none, for every host that fits the buffer together with its port, and every path that fits. The host
  is a text without slash, and with a colon, like an IPv6 address, only when a port is given: without one the address is taken apart, which is
  shown below.
\<close>

theorem ws_parse_url_roundtrip:
  assumes "host \<noteq> []" and "nonul host" and "CHR ''/'' \<notin> set host" and "CHR '':'' \<notin> set host \<or> port \<noteq> None"
    and "path = [] \<or> hd path = CHR ''/''" and "length path < 256"
    and "length host + (case port of None \<Rightarrow> 0 | Some n \<Rightarrow> 1 + length (nat_dec n)) < 256"
    and "case port of None \<Rightarrow> True | Some n \<Rightarrow> n < 2 ^ 31"
  shows "ws_parse_url (ws_url_string tls host port path) =
    Some (True, \<lparr>wu_host = host, wu_path = (if path = [] then ''/'' else path),
      wu_port = (case port of None \<Rightarrow> if tls then 443 else 80 | Some n \<Rightarrow> int n)\<rparr>)"
proof -
  define hp where "hp = host @ (case port of None \<Rightarrow> [] | Some n \<Rightarrow> CHR '':'' # nat_dec n)"
  have dd: "CHR ''/'' \<notin> set (nat_dec n)" "CHR '':'' \<notin> set (nat_dec n)" for n
    using nat_dec_digits [of n] is_digit_facts by (auto simp: list_all_iff)
  have "nonul hp" "CHR ''/'' \<notin> set hp" using assms(2,3) dd nat_dec_nonul by (auto simp: hp_def split: option.splits)
  note slash = c_strchr_slash [OF this assms(5)]
  have len: "length hp < 256" using assms(7) by (simp add: hp_def split: option.splits)
  have colon: "c_strrchr hp CHR '':'' = (case port of None \<Rightarrow> None | Some n \<Rightarrow> Some (length host))"
    using assms(4) dd c_strrchr_None [of hp "CHR '':''"] c_strrchr_found [of "CHR '':''" _ host]
    by (auto simp: hp_def split: option.splits)
  have pre: "c_strncmp_eq (''ws://'' @ x) 0 ''ws://'' 0 5" "\<not> c_strncmp_eq (''wss://'' @ x) 0 ''ws://'' 0 5"
    "c_strncmp_eq (''wss://'' @ x) 0 ''wss://'' 0 6" for x
    by (simp_all add: numeral_eq_Suc c_at_def)
  have url: "ws_url_string tls host port path = (if tls then ''wss://'' else ''ws://'') @ hp @ path"
    by (simp add: ws_url_string_def hp_def)
  have parse: "ws_parse_url (ws_url_string tls host port path) = ws_parse_authority (if tls then 443 else 80) (hp @ path)"
  proof (cases tls)
    case True
    have "drop 6 (''wss://'' @ hp @ path) = hp @ path" by simp
    moreover have "ws_url_string tls host port path = ''wss://'' @ hp @ path" using True url by simp
    ultimately show ?thesis using True by (simp only: ws_parse_url_def pre if_True if_False)
  next
    case False
    have "drop 5 (''ws://'' @ hp @ path) = hp @ path" by simp
    moreover have "ws_url_string tls host port path = ''ws://'' @ hp @ path" using False url by simp
    ultimately show ?thesis using False by (simp only: ws_parse_url_def pre if_True if_False)
  qed
  have auth: "ws_parse_authority d (hp @ path) = (case c_strrchr hp CHR '':'' of
      Some i \<Rightarrow> do {
        n \<leftarrow> c_atoi (drop (i + 1) hp);
        Some (take i hp \<noteq> [], \<lparr>wu_host = take i hp, wu_path = (if path = [] then ''/'' else path), wu_port = n\<rparr>)
      }
    | None \<Rightarrow> Some (hp \<noteq> [], \<lparr>wu_host = hp, wu_path = (if path = [] then ''/'' else path), wu_port = d\<rparr>))" for d
  proof -
    have hl: "(case if path = [] then None else Some (length hp) of Some i \<Rightarrow> i | None \<Rightarrow> length (hp @ path)) = length hp"
      by simp
    have tk: "take (if length hp \<ge> 256 then 255 else length hp) (hp @ path) = hp" using len by simp
    have pt: "(case if path = [] then None else Some (length hp) of Some i \<Rightarrow> take 255 (drop i (hp @ path)) | None \<Rightarrow> ''/'') =
        (if path = [] then ''/'' else path)" using assms(6) by simp
    show ?thesis unfolding ws_parse_authority_def Let_def slash hl tk pt by (rule refl)
  qed
  show ?thesis
  proof (cases port)
    case None
    then have c: "c_strrchr hp CHR '':'' = None" and hp: "hp = host" using colon by (simp_all add: hp_def)
    show ?thesis unfolding parse auth c using assms(1) None by (simp add: hp)
  next
    case (Some n)
    then have c: "c_strrchr hp CHR '':'' = Some (length host)" and hp: "hp = host @ CHR '':'' # nat_dec n"
      using colon by (simp_all add: hp_def)
    have t: "take (length host) hp = host" "drop (length host + 1) hp = nat_dec n" by (simp_all add: hp)
    have n: "c_atoi (nat_dec n) = Some (int n)" using assms(8) Some by (intro c_atoi_dec) simp
    show ?thesis unfolding parse auth c using assms(1) by (simp only: option.case t n Some) simp
  qed
qed

theorem ws_parse_url_roundtrip_witness:
  "ws_parse_url (ws_url_string True ''example.org'' (Some 8443) ''/chat'') =
     Some (True, \<lparr>wu_host = ''example.org'', wu_path = ''/chat'', wu_port = 8443\<rparr>)"
proof -
  have dec: "length (nat_dec 8443) = 4"
    by (simp add: nat_dec.simps [of 8443] nat_dec.simps [of 844] nat_dec.simps [of 84] nat_dec.simps [of 8])
  have h: "''example.org'' \<noteq> []" "nonul ''example.org''" "CHR ''/'' \<notin> set ''example.org''" "CHR '':'' \<notin> set ''example.org'' \<or> Some (8443 :: nat) \<noteq> None"
    "''/chat'' = [] \<or> hd ''/chat'' = CHR ''/''" "length ''/chat'' < 256"
    "length ''example.org'' + (case Some 8443 of None \<Rightarrow> 0 | Some n \<Rightarrow> 1 + length (nat_dec n)) < 256"
    by (simp_all add: dec)
  have p: "case Some 8443 of None \<Rightarrow> True | Some n \<Rightarrow> n < (2 :: nat) ^ 31" by simp
  from ws_parse_url_roundtrip [OF h p, of True] show ?thesis by simp
qed

text \<open>
  An IPv6 address without a port is taken apart at its last colon: the URL of the local host on the default
  port gives the host \<open>[:\<close> and the port 1; and a port that is no number is port 0.
\<close>

theorem ws_parse_url_ipv6_wrong:
  "ws_parse_url ''ws://[::1]/chat'' = Some (True, \<lparr>wu_host = ''[:'', wu_path = ''/chat'', wu_port = 1\<rparr>) \<and>
   ws_parse_url ''ws://host:x/chat'' = Some (True, \<lparr>wu_host = ''host'', wu_path = ''/chat'', wu_port = 0\<rparr>)"
  by code_simp

definition ws_url_ok :: "ws_url \<Rightarrow> bool" where
  "ws_url_ok u \<longleftrightarrow> length (wu_host u) < 256 \<and> length (wu_path u) < 256 \<and> c_int_range (wu_port u)"

lemma ws_parse_url_ok: "ws_parse_url url = Some (r, u) \<Longrightarrow> ws_url_ok u"
proof -
  have auth: "c_int_range d \<Longrightarrow> ws_parse_authority d p = Some (r, u) \<Longrightarrow> ws_url_ok u" for d p
    by (auto simp: ws_parse_authority_def ws_url_ok_def Let_def dest!: c_atoi_range
        split: option.splits Option.bind_splits if_splits)
  assume "ws_parse_url url = Some (r, u)"
  then show ?thesis
    using auth [of 80] auth [of 443] by (auto simp: ws_parse_url_def c_int_range_def ws_url_ok_def split: if_splits)
qed

end
