(* ===== verification/Socket.thy ===== *)
theory Socket
  imports Prelude
begin

text \<open>
  The two loops of \<^verbatim>\<open>src/websocket/websocket.c\<close> that move a whole buffer through a stream socket,
  \<^verbatim>\<open>ws_recv_all\<close> and \<^verbatim>\<open>ws_send_all\<close>. The socket belongs to the operating system: it is a state of
  some type and the two calls on it are arguments. \<open>recv n s\<close> gives the bytes one call returns for
  a request of \<open>n\<close> bytes, none of them when the call reports the end of the stream or an error;
  \<open>send bs s\<close> gives how many of the bytes one call takes, none when it fails.

  The locale states the contract of the two calls, over the bytes that the socket will still
  deliver and the bytes it has taken; it is interpreted on a socket whose input arrives in
  segments of any size and whose output accepts any number of bytes per call.
\<close>

section \<open>The loops\<close>

type_synonym 's recv_fun = "nat \<Rightarrow> 's \<Rightarrow> byte list \<times> 's"
type_synonym 's send_fun = "byte list \<Rightarrow> 's \<Rightarrow> nat \<times> 's"

function ws_recv_all :: "'s recv_fun \<Rightarrow> nat \<Rightarrow> 's \<Rightarrow> byte list option \<times> 's" where
  "ws_recv_all recv n s =
     (if n = 0 then (Some [], s)
      else (let r = recv n s in
        if fst r = [] then (None, snd r)
        else (let t = ws_recv_all recv (n - length (fst r)) (snd r) in (map_option ((@) (fst r)) (fst t), snd t))))"
  by pat_completeness auto
termination by (relation "measure (\<lambda>(recv, n, s). n)") auto

declare ws_recv_all.simps [simp del]

function ws_send_all :: "'s send_fun \<Rightarrow> byte list \<Rightarrow> 's \<Rightarrow> bool \<times> 's" where
  "ws_send_all send bs s =
     (if bs = [] then (True, s)
      else (let r = send bs s in
        if fst r = 0 then (False, snd r) else ws_send_all send (drop (fst r) bs) (snd r)))"
  by pat_completeness auto
termination by (relation "measure (\<lambda>(send, bs, s). length bs)") (auto simp: length_greater_0_conv [symmetric] simp del: length_greater_0_conv)

declare ws_send_all.simps [simp del]

section \<open>The contract of a stream socket\<close>

locale stream_socket =
  fixes recv :: "'s recv_fun"
    and send :: "'s send_fun"
    and pending :: "'s \<Rightarrow> byte list"
    and sent :: "'s \<Rightarrow> byte list"
  assumes recv_prefix: "0 < n \<Longrightarrow> recv n s = (bs, s') \<Longrightarrow> length bs \<le> n \<and> pending s = bs @ pending s' \<and> sent s' = sent s"
    and recv_progress: "0 < n \<Longrightarrow> pending s \<noteq> [] \<Longrightarrow> fst (recv n s) \<noteq> []"
    and send_prefix: "bs \<noteq> [] \<Longrightarrow> send bs s = (k, s') \<Longrightarrow> k \<le> length bs \<and> sent s' = sent s @ take k bs \<and> pending s' = pending s"
begin

lemma recv_all_enough:
  "n \<le> length (pending s) \<Longrightarrow>
     \<exists>s'. ws_recv_all recv n s = (Some (take n (pending s)), s') \<and> pending s' = drop n (pending s) \<and> sent s' = sent s"
proof (induction n arbitrary: s rule: less_induct)
  case (less n)
  show ?case
  proof (cases "n = 0")
    case True
    then show ?thesis by (simp add: ws_recv_all.simps)
  next
    case False
    obtain bs s1 where r: "recv n s = (bs, s1)" by (cases "recv n s")
    from recv_prefix [OF _ r] False have l: "length bs \<le> n" and p: "pending s = bs @ pending s1" "sent s1 = sent s" by auto
    have "pending s \<noteq> []" using less.prems False by auto
    then have ne: "bs \<noteq> []" using recv_progress [of n s] r False by auto
    have "n - length bs \<le> length (pending s1)" using less.prems l p by simp
    from less.IH [OF _ this] False ne obtain s2 where
      "ws_recv_all recv (n - length bs) s1 = (Some (take (n - length bs) (pending s1)), s2)"
      "pending s2 = drop (n - length bs) (pending s1)" "sent s2 = sent s1" by auto
    with False ne l p r show ?thesis by (subst ws_recv_all.simps) (simp add: Let_def)
  qed
qed

lemma recv_all_short:
  "length (pending s) < n \<Longrightarrow>
     \<exists>s'. ws_recv_all recv n s = (None, s') \<and> sent s' = sent s \<and> length (pending s') \<le> length (pending s)"
proof (induction n arbitrary: s rule: less_induct)
  case (less n)
  obtain bs s1 where r: "recv n s = (bs, s1)" by (cases "recv n s")
  have n: "n \<noteq> 0" using less.prems by simp
  from recv_prefix [OF _ r] n have p: "pending s = bs @ pending s1" "sent s1 = sent s" by auto
  show ?case
  proof (cases "bs = []")
    case True
    with n p r show ?thesis by (subst ws_recv_all.simps) (simp add: Let_def)
  next
    case False
    have "length (pending s1) < n - length bs" using less.prems p by simp
    from less.IH [OF _ this] n False obtain s2 where
      "ws_recv_all recv (n - length bs) s1 = (None, s2)" "sent s2 = sent s1" "length (pending s2) \<le> length (pending s1)" by auto
    with n False p r show ?thesis by (subst ws_recv_all.simps) (simp add: Let_def)
  qed
qed

text \<open>Reading the next item of an input that may stop anywhere.\<close>

lemma recv_all_next:
  assumes "pending s = take k (bs @ rest)" and "length bs = n"
  obtains s' where "ws_recv_all recv n s = (if n \<le> k then Some bs else None, s')" "sent s' = sent s"
    "n \<le> k \<longrightarrow> pending s' = take (k - n) rest"
proof (cases "n \<le> k")
  case True
  then have p: "pending s = bs @ take (k - n) rest" using assms by simp
  then have "n \<le> length (pending s)" using assms(2) by simp
  from recv_all_enough [OF this] p assms(2) True that show thesis by auto
next
  case False
  then have "length (pending s) < n" using assms by simp
  from recv_all_short [OF this] False that show thesis by auto
qed

lemma send_all_spec:
  "\<exists>ok s' k. ws_send_all send bs s = (ok, s') \<and> sent s' = sent s @ take k bs \<and> k \<le> length bs \<and> (ok \<longrightarrow> k = length bs) \<and>
     pending s' = pending s"
proof (induction "length bs" arbitrary: bs s rule: less_induct)
  case less
  show ?case
  proof (cases "bs = []")
    case True
    then show ?thesis by (auto simp: ws_send_all.simps intro: exI [of _ True])
  next
    case False
    obtain k s1 where r: "send bs s = (k, s1)" by (cases "send bs s")
    from send_prefix [OF False r] have p: "k \<le> length bs" "sent s1 = sent s @ take k bs" "pending s1 = pending s" by auto
    show ?thesis
    proof (cases "k = 0")
      case True
      with False r p show ?thesis by (subst ws_send_all.simps) (auto intro: exI [of _ 0])
    next
      case k: False
      then have "length (drop k bs) < length bs" using False p by auto
      from less.hyps [OF this, of s1] obtain ok s2 j where
        s2: "ws_send_all send (drop k bs) s1 = (ok, s2)" "sent s2 = sent s1 @ take j (drop k bs)" "j \<le> length (drop k bs)"
          "ok \<longrightarrow> j = length (drop k bs)" "pending s2 = pending s1" by blast
      have "ws_send_all send bs s = (ok, s2)" using False k r s2 by (subst ws_send_all.simps) simp
      moreover have "sent s2 = sent s @ take (k + j) bs" using s2 p by (simp add: take_add)
      ultimately show ?thesis using s2 p by (intro exI [of _ ok] exI [of _ s2] exI [of _ "k + j"]) auto
    qed
  qed
qed

end

section \<open>A socket\<close>

text \<open>
  Input in segments, an empty segment being the end of the stream; how much each call of
  \<open>send\<close> takes, everything once the list is used up.
\<close>

record net_sock =
  ns_in :: "byte list list"
  ns_out :: "byte list"
  ns_room :: "nat list"

fun net_recv :: "nat \<Rightarrow> net_sock \<Rightarrow> byte list \<times> net_sock" where
  "net_recv n s = (case ns_in s of
     [] \<Rightarrow> ([], s)
   | c # cs \<Rightarrow> if length c \<le> n then (c, if c = [] then s else s\<lparr>ns_in := cs\<rparr>)
              else (take n c, s\<lparr>ns_in := drop n c # cs\<rparr>))"

fun net_send :: "byte list \<Rightarrow> net_sock \<Rightarrow> nat \<times> net_sock" where
  "net_send bs s = (case ns_room s of
     [] \<Rightarrow> (length bs, s\<lparr>ns_out := ns_out s @ bs\<rparr>)
   | k # ks \<Rightarrow> (min k (length bs), s\<lparr>ns_out := ns_out s @ take k bs, ns_room := ks\<rparr>))"

definition net_pending :: "net_sock \<Rightarrow> byte list" where
  "net_pending s = concat (takeWhile (\<lambda>c. c \<noteq> []) (ns_in s))"

interpretation net: stream_socket net_recv net_send net_pending ns_out
proof
  show "length bs \<le> n \<and> net_pending s = bs @ net_pending s' \<and> ns_out s' = ns_out s"
    if "0 < n" "net_recv n s = (bs, s')" for n s bs s'
    using that by (auto simp: net_pending_def split: list.splits if_splits)
  show "fst (net_recv n s) \<noteq> []" if "0 < n" "net_pending s \<noteq> []" for n s
    using that by (auto simp: net_pending_def split: list.splits if_splits)
  show "k \<le> length bs \<and> ns_out s' = ns_out s @ take k bs \<and> net_pending s' = net_pending s"
    if "bs \<noteq> []" "net_send bs s = (k, s')" for bs s k s'
    using that by (auto simp: net_pending_def min_def split: list.splits)
qed

end
