(* ===== verification/WsFrame.thy ===== *)
theory WsFrame
  imports Socket
begin

unbundle bit_operations_syntax

text \<open>
  Frames on the wire, \<^verbatim>\<open>src/websocket/websocket.c\<close>: the mask generator, the header and masking of
  \<^verbatim>\<open>ws_send_frame_locked\<close>, and the part of \<^verbatim>\<open>websocket_worker_main\<close> that reads one frame. The
  reference is the frame format itself, \<open>ws_wire\<close>: the sender writes it and the reader takes it
  apart again, whatever segments the socket delivers it in.
\<close>

section \<open>Sending\<close>

text \<open>\<open>now\<close> is \<open>(uint32_t) time (NULL)\<close>; the static variable of the generator is passed along.\<close>

definition ws_xorshift :: "uint \<Rightarrow> uint \<Rightarrow> uint" where
  "ws_xorshift now s =
     (let s0 = (if s = 0 then now XOR 0xA5A5A5A5 else s);
          s1 = s0 XOR push_bit 13 s0;
          s2 = s1 XOR drop_bit 17 s1
      in s2 XOR push_bit 5 s2)"

definition ws_frame_header :: "byte \<Rightarrow> nat \<Rightarrow> byte list" where
  "ws_frame_header opcode len =
     (0x80 OR (opcode AND 0x0f)) #
     (if len \<le> 125 then [0x80 OR word_of_nat len]
      else if len \<le> 0xFFFF then [0x80 OR 126, word_of_nat (len div 2 ^ 8), word_of_nat len]
      else (0x80 OR 127) # map (\<lambda>i. word_of_nat (len div 2 ^ ((i - 1) * 8))) (rev [1..<9]))"

definition ws_mask_key :: "uint \<Rightarrow> byte list" where
  "ws_mask_key mk = [ucast (drop_bit 24 mk), ucast (drop_bit 16 mk), ucast (drop_bit 8 mk), ucast mk]"

text \<open>The sender masks into a second block, the reader removes the mask in place.\<close>

definition ws_mask :: "byte list \<Rightarrow> byte list \<Rightarrow> byte list" where
  "ws_mask key data = map (\<lambda>i. data ! i XOR key ! (i mod 4)) [0..<length data]"

definition ws_unmask :: "byte list \<Rightarrow> byte list \<Rightarrow> byte list" where
  "ws_unmask key payload = fold (\<lambda>i p. p[i := p ! i XOR key ! (i mod 4)]) [0..<length payload] payload"

text \<open>
  The bytes one call sends: header and key together, then the masked payload, unless it is empty or
  there is no memory for the copy. \<open>True\<close> is the result 0.
\<close>

definition ws_send_frame :: "'s send_fun \<Rightarrow> bool \<Rightarrow> byte \<Rightarrow> byte list \<Rightarrow> uint \<Rightarrow> 's \<Rightarrow> bool \<times> 's" where
  "ws_send_frame send mem_ok opcode data mk s =
     (let key = ws_mask_key mk;
          (ok, s1) = ws_send_all send (ws_frame_header opcode (length data) @ key) s
      in if \<not> ok then (False, s1)
         else if data = [] then (True, s1)
         else if \<not> mem_ok then (False, s1)
         else ws_send_all send (ws_mask key data) s1)"

section \<open>Receiving\<close>

datatype ws_read =
    ReadFrame (rf_fin: bool) (rf_op: byte) (rf_payload: "byte list")
  | ReadClosed
  | ReadError

definition be_number :: "byte list \<Rightarrow> nat" where
  "be_number bs = foldl (\<lambda>n b. n * 2 ^ 8 + unat b) 0 bs"

definition ws_max_payload :: nat where
  "ws_max_payload = 16 * 1024 * 1024"

text \<open>
  One frame, once \<open>select\<close> has reported data. \<open>mem_ok\<close> is the success of the allocation of the
  payload. The end of the stream before a header is \<open>ReadClosed\<close>; the error label is \<open>ReadError\<close>.
\<close>

definition ws_read_length :: "'s recv_fun \<Rightarrow> byte \<Rightarrow> 's \<Rightarrow> nat option \<times> 's" where
  "ws_read_length recv b s =
     (let plen = unat (b AND 0x7f) in
      if plen = 126 then (let (e, s1) = ws_recv_all recv 2 s in (map_option be_number e, s1))
      else if plen = 127 then (let (e, s1) = ws_recv_all recv 8 s in (map_option be_number e, s1))
      else (Some plen, s))"

definition ws_read_key :: "'s recv_fun \<Rightarrow> bool \<Rightarrow> 's \<Rightarrow> byte list option \<times> 's" where
  "ws_read_key recv masked s = (if masked then ws_recv_all recv 4 s else (Some [0, 0, 0, 0], s))"

definition ws_read_payload :: "'s recv_fun \<Rightarrow> bool \<Rightarrow> bool \<Rightarrow> byte list \<Rightarrow> nat \<Rightarrow> 's \<Rightarrow> byte list option \<times> 's" where
  "ws_read_payload recv mem_ok masked key plen s =
     (if plen = 0 then (Some [], s)
      else if plen > ws_max_payload then (None, s)
      else if \<not> mem_ok then (None, s)
      else (let (p, s1) = ws_recv_all recv plen s in
            (map_option (\<lambda>d. if masked then ws_unmask key d else d) p, s1)))"

text \<open>What follows the two bytes of the header.\<close>

definition ws_read_body :: "'s recv_fun \<Rightarrow> bool \<Rightarrow> bool \<Rightarrow> byte \<Rightarrow> bool \<Rightarrow> byte \<Rightarrow> 's \<Rightarrow> ws_read \<times> 's" where
  "ws_read_body recv mem_ok fin op masked b s =
     (case ws_read_length recv b s of
        (None, s2) \<Rightarrow> (ReadError, s2)
      | (Some plen, s2) \<Rightarrow>
          (case ws_read_key recv masked s2 of
             (None, s3) \<Rightarrow> (ReadError, s3)
           | (Some key, s3) \<Rightarrow>
               (case ws_read_payload recv mem_ok masked key plen s3 of
                  (None, s4) \<Rightarrow> (ReadError, s4)
                | (Some payload, s4) \<Rightarrow> (ReadFrame fin op payload, s4))))"

definition ws_read_frame :: "'s recv_fun \<Rightarrow> bool \<Rightarrow> 's \<Rightarrow> ws_read \<times> 's" where
  "ws_read_frame recv mem_ok s =
     (case ws_recv_all recv 2 s of
        (None, s1) \<Rightarrow> (ReadClosed, s1)
      | (Some hdr, s1) \<Rightarrow>
          ws_read_body recv mem_ok (hdr ! 0 AND 0x80 \<noteq> 0) (hdr ! 0 AND 0x0f) (hdr ! 1 AND 0x80 \<noteq> 0) (hdr ! 1) s1)"

section \<open>The frame format\<close>

definition wire_length :: "byte \<Rightarrow> nat \<Rightarrow> byte list" where
  "wire_length mbit n =
     (if n \<le> 125 then [mbit OR word_of_nat n]
      else if n < 2 ^ 16 then [mbit OR 126, word_of_nat (n div 2 ^ 8), word_of_nat n]
      else (mbit OR 127) # map (\<lambda>i. word_of_nat (n div 2 ^ (8 * i))) [7, 6, 5, 4, 3, 2, 1, 0])"

definition ws_wire :: "bool \<Rightarrow> byte \<Rightarrow> byte list option \<Rightarrow> byte list \<Rightarrow> byte list" where
  "ws_wire fin op mko payload =
     ((if fin then 0x80 else 0) OR op) # wire_length (if mko = None then 0 else 0x80) (length payload) @
     (case mko of None \<Rightarrow> payload | Some key \<Rightarrow> key @ ws_mask key payload)"

lemma ws_unmask_eq [simp]: "ws_unmask key payload = ws_mask key payload"
proof -
  have "n \<le> length payload \<Longrightarrow> fold (\<lambda>i p. p[i := p ! i XOR key ! (i mod 4)]) [0..<n] payload =
      map (\<lambda>i. payload ! i XOR key ! (i mod 4)) [0..<n] @ drop n payload" for n
  proof (induction n)
    case (Suc n)
    then have "drop n payload = payload ! n # drop (Suc n) payload" by (simp add: Cons_nth_drop_Suc)
    then show ?case using Suc by (simp add: nth_append list_update_append)
  qed simp
  from this [of "length payload"] show ?thesis by (simp add: ws_unmask_def ws_mask_def)
qed

lemma length_ws_mask [simp]: "length (ws_mask key data) = length data"
  by (simp add: ws_mask_def)

lemma ws_mask_involution [simp]: "ws_mask key (ws_mask key data) = data"
  by (rule nth_equalityI) (simp_all add: ws_mask_def ac_simps)

lemma ws_mask_Nil [simp]: "ws_mask key [] = []"
  by (simp add: ws_mask_def)

lemma length_ws_mask_key [simp]: "length (ws_mask_key mk) = 4"
  by (simp add: ws_mask_key_def)

section \<open>Bits of the header\<close>

lemma bit_below: "unat x < 2 ^ k \<Longrightarrow> k \<le> n \<Longrightarrow> \<not> bit (x :: byte) n"
proof
  assume x: "unat x < 2 ^ k" "k \<le> n" "bit x n"
  then have "take_bit k (unat x) = unat x" by (simp add: take_bit_nat_eq_self)
  moreover have "bit (unat x) n" using x(3) by (simp add: bit_unsigned_iff)
  ultimately have "bit (take_bit k (unat x)) n" by simp
  then show False using x(2) by (simp add: bit_take_bit_iff)
qed

lemma low_bits: "x < 16 \<Longrightarrow> 4 \<le> n \<Longrightarrow> \<not> bit (x :: byte) n"
  by (rule bit_below [of _ 4]) (simp_all add: word_less_nat_alt)

lemma seven_bits: "x < 128 \<Longrightarrow> 7 \<le> n \<Longrightarrow> \<not> bit (x :: byte) n"
  by (rule bit_below [of _ 7]) (simp_all add: word_less_nat_alt)

lemma opcode_bits:
  fixes op :: byte
  assumes "op < 16"
  shows "(128 OR op) AND 128 \<noteq> 0" "(128 OR op) AND 15 = op" "op AND 128 = 0" "op AND 15 = op"
proof -
  have "bit ((128 OR op) AND 128) 7" by (simp add: bit_simps)
  then show "(128 OR op) AND 128 \<noteq> 0" by auto
  show "(128 OR op) AND 15 = op" "op AND 128 = 0" "op AND 15 = op"
    by (rule byte_eqI; simp add: bit_simps low_bits [OF assms])+
qed

lemma length_bits:
  fixes x :: byte
  assumes "x < 128"
  shows "(128 OR x) AND 128 \<noteq> 0" "(128 OR x) AND 127 = x" "x AND 128 = 0" "x AND 127 = x"
proof -
  have "bit ((128 OR x) AND 128) 7" by (simp add: bit_simps)
  then show "(128 OR x) AND 128 \<noteq> 0" by auto
  show "(128 OR x) AND 127 = x" "x AND 128 = 0" "x AND 127 = x"
    by (rule byte_eqI; simp add: bit_simps seven_bits [OF assms])+
qed

lemma header_wire:
  "op < 16 \<Longrightarrow> (ws_frame_header op (length data) @ key) @ ws_mask key data = ws_wire True op (Some key) data"
proof -
  assume op: "op < 16"
  have "rev [1..<9] = [8, 7, 6, 5, 4, 3, 2, 1 :: nat]" by code_simp
  then have "map (\<lambda>i. word_of_nat (length data div 2 ^ ((i - 1) * 8)) :: byte) (rev [1..<9]) =
      map (\<lambda>i. word_of_nat (length data div 2 ^ (8 * i))) [7, 6, 5, 4, 3, 2, 1, 0]" by simp
  then show ?thesis
    by (simp add: ws_frame_header_def ws_wire_def wire_length_def opcode_bits(4) [OF op] less_Suc_eq_le)
qed

lemma be_digits:
  "(n div 2 ^ (8 * Suc i)) * 256 + unat (word_of_nat (n div 2 ^ (8 * i)) :: byte) = n div 2 ^ (8 * i)"
proof -
  have "(2 :: nat) ^ (8 * Suc i) = 2 ^ (8 * i) * 256" by (simp add: power_add)
  then have "n div 2 ^ (8 * Suc i) = n div 2 ^ (8 * i) div 256" by (simp only: div_mult2_eq)
  then show ?thesis by (simp add: unat_of_nat)
qed

lemma be_fold:
  "foldl (\<lambda>n b. n * 256 + unat b) (n div 2 ^ (8 * k)) (map (\<lambda>i. word_of_nat (n div 2 ^ (8 * i)) :: byte) (rev [0..<k])) = n"
proof (induction k)
  case (Suc k)
  then show ?case by (simp only: upt_Suc rev_append list.map foldl_Cons be_digits le0 if_True rev.simps append.simps)
qed simp

lemma be_number_64:
  assumes "n < 2 ^ 64"
  shows "be_number (map (\<lambda>i. word_of_nat (n div 2 ^ (8 * i))) [7, 6, 5, 4, 3, 2, 1, 0]) = n"
proof -
  have "rev [0..<8] = [7, 6, 5, 4, 3, 2, 1, 0 :: nat]" by code_simp
  moreover have "n div 2 ^ (8 * 8) = 0" using assms by simp
  moreover have "(2 :: nat) ^ 8 = 256" by simp
  ultimately show ?thesis using be_fold [of n 8] by (simp only: be_number_def)
qed

lemma be_number_16:
  assumes "n < 2 ^ 16" shows "be_number [word_of_nat (n div 2 ^ 8), word_of_nat n] = n"
  using assms by (simp add: be_number_def unat_of_nat)

text \<open>The byte after the first one, and the bytes of an extended length.\<close>

definition length_byte :: "bool \<Rightarrow> nat \<Rightarrow> byte" where
  "length_byte masked n = (if masked then 128 else 0) OR
     (if n \<le> 125 then word_of_nat n else if n < 2 ^ 16 then 126 else 127)"

definition length_ext :: "nat \<Rightarrow> byte list" where
  "length_ext n =
     (if n \<le> 125 then [] else if n < 2 ^ 16 then [word_of_nat (n div 2 ^ 8), word_of_nat n]
      else map (\<lambda>i. word_of_nat (n div 2 ^ (8 * i))) [7, 6, 5, 4, 3, 2, 1, 0])"

lemma wire_length_split: "wire_length (if masked then 128 else 0) n = length_byte masked n # length_ext n"
  by (simp add: wire_length_def length_byte_def length_ext_def)

lemma length_byte_bits:
  "length_byte masked n AND 128 \<noteq> 0 \<longleftrightarrow> masked"
  "unat (length_byte masked n AND 127) = (if n \<le> 125 then n else if n < 2 ^ 16 then 126 else 127)"
proof -
  let ?x = "if n \<le> 125 then word_of_nat n else if n < 2 ^ 16 then 126 else 127 :: byte"
  have u: "unat ?x = (if n \<le> 125 then n else if n < 2 ^ 16 then 126 else 127)" by (simp add: unat_of_nat)
  then have x: "?x < 128" unfolding word_less_nat_alt by (simp split: if_splits)
  show "length_byte masked n AND 128 \<noteq> 0 \<longleftrightarrow> masked"
    unfolding length_byte_def using length_bits(1,3) [OF x] by (cases masked) (simp_all only: if_True if_False or.left_neutral simp_thms)
  have "length_byte masked n AND 127 = ?x"
    unfolding length_byte_def using length_bits(2,4) [OF x] by (cases masked) (simp_all only: if_True if_False or.left_neutral)
  then show "unat (length_byte masked n AND 127) = (if n \<le> 125 then n else if n < 2 ^ 16 then 126 else 127)"
    using u by simp
qed

section \<open>Reading what was written\<close>

lemma length_ext_number: "n < 2 ^ 64 \<Longrightarrow> 125 < n \<Longrightarrow> be_number (length_ext n) = n"
  using be_number_64 [of n] be_number_16 [of n] by (simp add: length_ext_def)

lemma length_length_ext: "length (length_ext n) = (if n \<le> 125 then 0 else if n < 2 ^ 16 then 2 else 8)"
  by (simp add: length_ext_def)

definition wire_size :: "byte list option \<Rightarrow> nat \<Rightarrow> nat" where
  "wire_size mko n = 2 + length (length_ext n) + (case mko of None \<Rightarrow> 0 | Some key \<Rightarrow> length key) + n"

lemma length_ws_wire: "length (ws_wire fin op mko payload) = wire_size mko (length payload)"
  using wire_length_split [of "mko \<noteq> None" "length payload"]
  by (cases mko) (simp_all add: ws_wire_def wire_size_def)

context stream_socket
begin

lemma read_length_next:
  assumes "pending s = take k (length_ext n @ rest)" and "n < 2 ^ 64"
  obtains s' where "ws_read_length recv (length_byte masked n) s = (if length (length_ext n) \<le> k then Some n else None, s')"
    "sent s' = sent s" "length (length_ext n) \<le> k \<longrightarrow> pending s' = take (k - length (length_ext n)) rest"
proof -
  obtain s' where
    r: "ws_recv_all recv (length (length_ext n)) s = (if length (length_ext n) \<le> k then Some (length_ext n) else None, s')"
      "sent s' = sent s" "length (length_ext n) \<le> k \<longrightarrow> pending s' = take (k - length (length_ext n)) rest"
    by (rule recv_all_next [OF assms(1) refl])
  consider "n \<le> 125" | "125 < n" "n < 2 ^ 16" | "2 ^ 16 \<le> n" by linarith
  then show thesis
  proof cases
    case 1
    then have "length_ext n = []" by (simp add: length_ext_def)
    with 1 assms(1) that [of s] show thesis by (simp add: ws_read_length_def length_byte_bits)
  next
    case 2
    with r length_ext_number [OF assms(2)] that [of s'] show thesis
      by (simp add: ws_read_length_def length_byte_bits length_length_ext)
  next
    case 3
    with r length_ext_number [OF assms(2)] that [of s'] show thesis
      by (simp add: ws_read_length_def length_byte_bits length_length_ext)
  qed
qed

lemma read_key_next:
  assumes "pending s = take k (key @ rest)" and "length key = (if masked then 4 else 0)"
  obtains key' s' where "ws_read_key recv masked s = (if length key \<le> k then Some key' else None, s')" "sent s' = sent s"
    "masked \<longrightarrow> key' = key" "length key \<le> k \<longrightarrow> pending s' = take (k - length key) rest"
proof (cases masked)
  case False
  with assms that [of "[0, 0, 0, 0]" s] show thesis by (simp add: ws_read_key_def)
next
  case True
  then have l: "length key = 4" using assms(2) by simp
  obtain s' where "ws_recv_all recv 4 s = (if 4 \<le> k then Some key else None, s')" "sent s' = sent s"
    "4 \<le> k \<longrightarrow> pending s' = take (k - 4) rest"
    by (rule recv_all_next [OF assms(1) l])
  with True l that [of key s'] show thesis by (simp add: ws_read_key_def)
qed

lemma read_payload_next:
  assumes "pending s = take k (d @ rest)" and "length d \<le> ws_max_payload"
  obtains s' where "ws_read_payload recv True masked key (length d) s =
      (if length d \<le> k then Some (if masked then ws_mask key d else d) else None, s')" "sent s' = sent s"
    "length d \<le> k \<longrightarrow> pending s' = take (k - length d) rest"
proof (cases "d = []")
  case True
  with assms(1) that [of s] show thesis by (simp add: ws_read_payload_def)
next
  case False
  obtain s' where "ws_recv_all recv (length d) s = (if length d \<le> k then Some d else None, s')" "sent s' = sent s"
    "length d \<le> k \<longrightarrow> pending s' = take (k - length d) rest"
    by (rule recv_all_next [OF assms(1) refl])
  with False assms(2) that [of s'] show thesis by (auto simp: ws_read_payload_def)
qed

end

context stream_socket
begin

lemma read_body_next:
  assumes "pending s = take k (length_ext n @ key @ d @ rest)" and "length key = (if masked then 4 else 0)"
    and "length d = n" and "n \<le> ws_max_payload"
  obtains s' where "ws_read_body recv True fin op masked (length_byte masked n) s =
      (if length (length_ext n @ key @ d) \<le> k then ReadFrame fin op (if masked then ws_mask key d else d) else ReadError, s')"
    "sent s' = sent s" "length (length_ext n @ key @ d) \<le> k \<longrightarrow> pending s' = take (k - length (length_ext n @ key @ d)) rest"
proof -
  let ?e = "length (length_ext n)" and ?K = "length key"
  have n: "n < 2 ^ 64" using assms(4) by (simp add: ws_max_payload_def)
  obtain s1 where s1: "ws_read_length recv (length_byte masked n) s = (if ?e \<le> k then Some n else None, s1)" "sent s1 = sent s"
      "?e \<le> k \<longrightarrow> pending s1 = take (k - ?e) (key @ d @ rest)"
    by (rule read_length_next [OF assms(1) n])
  show thesis
  proof (cases "?e \<le> k")
    case False
    with s1 that [of s1] show thesis by (simp add: ws_read_body_def)
  next
    case e: True
    then have p1: "pending s1 = take (k - ?e) (key @ d @ rest)" using s1(3) by simp
    obtain key' s2 where s2: "ws_read_key recv masked s1 = (if ?K \<le> k - ?e then Some key' else None, s2)" "sent s2 = sent s1"
        "masked \<longrightarrow> key' = key" "?K \<le> k - ?e \<longrightarrow> pending s2 = take (k - ?e - ?K) (d @ rest)"
      by (rule read_key_next [OF p1 assms(2)])
    show thesis
    proof (cases "?K \<le> k - ?e")
      case False
      then have "\<not> length (length_ext n @ key @ d) \<le> k" using e by simp
      with False e s1 s2 that [of s2] show thesis by (simp add: ws_read_body_def)
    next
      case l: True
      then have p2: "pending s2 = take (k - ?e - ?K) (d @ rest)" using s2(4) by simp
      have dn: "length d \<le> ws_max_payload" using assms(3,4) by simp
      obtain s3 where s3: "ws_read_payload recv True masked key' (length d) s2 =
          (if length d \<le> k - ?e - ?K then Some (if masked then ws_mask key' d else d) else None, s3)" "sent s3 = sent s2"
          "length d \<le> k - ?e - ?K \<longrightarrow> pending s3 = take (k - ?e - ?K - length d) rest"
        by (rule read_payload_next [OF p2 dn])
      have body: "ws_read_body recv True fin op masked (length_byte masked n) s =
          (if length d \<le> k - ?e - ?K then ReadFrame fin op (if masked then ws_mask key' d else d) else ReadError, s3)"
        using s1(1) e s2(1) l s3(1) assms(3) by (simp add: ws_read_body_def)
      have "(length d \<le> k - ?e - ?K) = (length (length_ext n @ key @ d) \<le> k)" using e l by auto
      moreover have "(if masked then ws_mask key' d else d) = (if masked then ws_mask key d else d)" using s2(3) by simp
      ultimately show thesis using that [of s3] body s1(2) s2(2) s3(2,3) by (simp add: add.assoc)
    qed
  qed
qed

lemma read_frame_next:
  assumes "pending s = take k (ws_wire fin op mko payload @ rest)" and "op < 16"
    and "case mko of None \<Rightarrow> True | Some key \<Rightarrow> length key = 4" and "length payload \<le> ws_max_payload"
  obtains s' where "ws_read_frame recv True s =
      (if length (ws_wire fin op mko payload) \<le> k then ReadFrame fin op payload
       else if k < 2 then ReadClosed else ReadError, s')" "sent s' = sent s"
    "length (ws_wire fin op mko payload) \<le> k \<longrightarrow> pending s' = take (k - length (ws_wire fin op mko payload)) rest"
proof -
  define n m h where "n = length payload" and "m = (mko \<noteq> None)"
    and "h = [(if fin then 0x80 else 0) OR op, length_byte (mko \<noteq> None) (length payload)]"
  define key d where "key = (case mko of None \<Rightarrow> [] | Some key \<Rightarrow> key)"
    and "d = (case mko of None \<Rightarrow> payload | Some key \<Rightarrow> ws_mask key payload)"
  have wire: "ws_wire fin op mko payload = h @ length_ext n @ key @ d"
    using wire_length_split [of m n] by (cases mko) (simp_all add: ws_wire_def h_def key_def d_def n_def m_def)
  have h2: "length h = 2" by (simp add: h_def)
  have key: "length key = (if m then 4 else 0)" using assms(3) by (simp add: key_def m_def split: option.splits)
  have d: "length d = n" by (simp add: d_def n_def split: option.splits)
  have payload_back: "(if m then ws_mask key d else d) = payload" by (cases mko) (simp_all add: m_def key_def d_def)
  have hb: "(h ! 0 AND 0x80 \<noteq> 0) = fin" "h ! 0 AND 0x0f = op" "h ! 1 = length_byte m n" "(h ! 1 AND 0x80 \<noteq> 0) = m"
    using opcode_bits [OF assms(2)] length_byte_bits(1) [of m n] by (cases fin; simp add: h_def m_def n_def)+
  have p: "pending s = take k (h @ length_ext n @ key @ d @ rest)" using assms(1) unfolding wire by simp
  obtain s1 where s1: "ws_recv_all recv 2 s = (if 2 \<le> k then Some h else None, s1)" "sent s1 = sent s"
      "2 \<le> k \<longrightarrow> pending s1 = take (k - 2) (length_ext n @ key @ d @ rest)"
    by (rule recv_all_next [OF p h2])
  show thesis
  proof (cases "2 \<le> k")
    case False
    with s1 that [of s1] show thesis by (simp add: ws_read_frame_def wire h2)
  next
    case True
    then have p1: "pending s1 = take (k - 2) (length_ext n @ key @ d @ rest)" using s1(3) by simp
    have nm: "n \<le> ws_max_payload" using assms(4) by (simp add: n_def)
    obtain s2 where s2: "ws_read_body recv True fin op m (length_byte m n) s1 =
        (if length (length_ext n @ key @ d) \<le> k - 2 then ReadFrame fin op (if m then ws_mask key d else d) else ReadError, s2)"
      "sent s2 = sent s1"
      "length (length_ext n @ key @ d) \<le> k - 2 \<longrightarrow> pending s2 = take (k - 2 - length (length_ext n @ key @ d)) rest"
      by (rule read_body_next [OF p1 key d nm])
    have "ws_read_frame recv True s = ws_read_body recv True fin op m (length_byte m n) s1"
      using s1(1) True by (simp add: ws_read_frame_def hb [unfolded One_nat_def] length_byte_bits(1))
    moreover have "(length (length_ext n @ key @ d) \<le> k - 2) = (length (ws_wire fin op mko payload) \<le> k)"
      using True by (auto simp: wire h2)
    ultimately show thesis using that [of s2] s1(2) s2 True by (simp add: payload_back wire h2)
  qed
qed

text \<open>What every successful read took from the socket, whatever the input was.\<close>

lemma recv_all_took:
  assumes "ws_recv_all recv n s = (Some bs, s')" shows "length bs = n \<and> pending s = bs @ pending s' \<and> sent s' = sent s"
proof (cases "n \<le> length (pending s)")
  case True
  from recv_all_enough [OF True] assms show ?thesis using True by auto
next
  case False
  then show ?thesis using recv_all_short [of s n] assms by auto
qed

lemma read_frame_took:
  assumes "ws_read_frame recv mem_ok s = (ReadFrame fin op payload, s')"
  shows "length payload \<le> ws_max_payload \<and> op < 16 \<and> sent s' = sent s \<and>
    length (pending s') + 2 + length payload \<le> length (pending s)"
proof -
  obtain hdr s1 where h: "ws_recv_all recv 2 s = (Some hdr, s1)"
    and b: "ws_read_body recv mem_ok (hdr ! 0 AND 0x80 \<noteq> 0) (hdr ! 0 AND 0x0f) (hdr ! 1 AND 0x80 \<noteq> 0) (hdr ! 1) s1 =
      (ReadFrame fin op payload, s')"
    using assms by (auto simp: ws_read_frame_def split: prod.splits option.splits)
  let ?m = "hdr ! 1 AND 0x80 \<noteq> 0"
  obtain n s2 key s3 where l: "ws_read_length recv (hdr ! 1) s1 = (Some n, s2)" and k: "ws_read_key recv ?m s2 = (Some key, s3)"
    and p: "ws_read_payload recv mem_ok ?m key n s3 = (Some payload, s')" and op: "op = hdr ! 0 AND 0x0f"
    using b by (auto simp: ws_read_body_def split: prod.splits option.splits)
  have "length (pending s2) \<le> length (pending s1) \<and> sent s2 = sent s1"
    using l by (auto simp: ws_read_length_def Let_def split: if_splits prod.splits dest!: recv_all_took)
  moreover have "length (pending s3) \<le> length (pending s2) \<and> sent s3 = sent s2"
    using k by (auto simp: ws_read_key_def split: if_splits dest!: recv_all_took)
  moreover have "length (pending s') + length payload \<le> length (pending s3) \<and> sent s' = sent s3 \<and> length payload \<le> ws_max_payload"
    using p by (auto simp: ws_read_payload_def split: if_splits prod.splits dest!: recv_all_took)
  moreover have "length (pending s1) + 2 = length (pending s) \<and> sent s1 = sent s" using recv_all_took [OF h] by auto
  moreover have "op < 16"
  proof -
    have "op = take_bit 4 (hdr ! 0)" unfolding op by (simp add: take_bit_eq_mask mask_eq_exp_minus_1)
    then have "unat op = take_bit 4 (unat (hdr ! 0))" by (simp add: unsigned_take_bit_eq)
    then have "unat op < 2 ^ 4" by (simp only: take_bit_nat_less_exp)
    then show ?thesis by (simp add: word_less_nat_alt)
  qed
  ultimately show ?thesis by simp
qed

end

text \<open>A socket about to deliver some bytes, in any segments.\<close>

lemma net_pending_segments: "[] \<notin> set cs \<Longrightarrow> net_pending \<lparr>ns_in = cs, ns_out = out', ns_room = room\<rparr> = concat cs"
  unfolding net_pending_def by (induction cs) auto

text \<open>
  C14. What \<open>ws_send_frame_locked\<close> sends is read back by the other side as the same frame, whatever
  the mask, the sizes in which the socket took the bytes and the segments in which it delivers
  them, and nothing of what follows is consumed.
\<close>

theorem ws_frame_roundtrip:
  assumes "op < 16" and "length data \<le> ws_max_payload"
    and "ws_send_frame net_send mem_ok op data mk s = (True, s')"
    and "[] \<notin> set segments" and "ns_out s @ concat segments = ns_out s' @ rest"
  shows "\<exists>t. ws_read_frame net_recv True \<lparr>ns_in = segments, ns_out = [], ns_room = []\<rparr> = (ReadFrame True op data, t) \<and>
    net_pending t = rest"
proof -
  let ?key = "ws_mask_key mk" and ?h = "ws_frame_header op (length data) @ ws_mask_key mk"
  obtain ok s1 k where s1: "ws_send_all net_send ?h s = (ok, s1)" "ns_out s1 = ns_out s @ take k ?h" "ok \<longrightarrow> k = length ?h"
    using net.send_all_spec [of ?h s] by blast
  have ok and sent: "data = [] \<and> s' = s1 \<or> ws_send_all net_send (ws_mask ?key data) s1 = (True, s')"
    using assms(3) s1(1) by (auto simp: ws_send_frame_def Let_def split: if_splits)
  then have h: "ns_out s1 = ns_out s @ ?h" using s1(2,3) by simp
  have "ns_out s' = ns_out s1 @ ws_mask ?key data"
    using sent net.send_all_spec [of "ws_mask ?key data" s1] by auto
  then have "ns_out s' = ns_out s @ ws_wire True op (Some ?key) data"
    using h header_wire [OF assms(1), of data ?key] by simp
  with assms(5) have "concat segments = ws_wire True op (Some ?key) data @ rest" by simp
  then have p: "net_pending \<lparr>ns_in = segments, ns_out = [], ns_room = []\<rparr> =
      take (length (ws_wire True op (Some ?key) data @ rest)) (ws_wire True op (Some ?key) data @ rest)"
    using net_pending_segments [OF assms(4)] by simp
  obtain t where "ws_read_frame net_recv True \<lparr>ns_in = segments, ns_out = [], ns_room = []\<rparr> =
      (if length (ws_wire True op (Some ?key) data) \<le> length (ws_wire True op (Some ?key) data @ rest) then ReadFrame True op data
       else if length (ws_wire True op (Some ?key) data @ rest) < 2 then ReadClosed else ReadError, t)"
    "length (ws_wire True op (Some ?key) data) \<le> length (ws_wire True op (Some ?key) data @ rest) \<longrightarrow>
      net_pending t = take (length (ws_wire True op (Some ?key) data @ rest) - length (ws_wire True op (Some ?key) data)) rest"
    by (rule net.read_frame_next [OF p assms(1)]) (use assms(2) in auto)
  then show ?thesis by auto
qed

theorem ws_frame_roundtrip_witness:
  "\<exists>t. ws_read_frame net_recv True \<lparr>ns_in = [[0x81], [0x82, 0xA5, 0xA5], [0x5A, 0xA5, 0xCD, 0xCC, 7]], ns_out = [], ns_room = []\<rparr> =
     (ReadFrame True 1 [0x68, 0x69], t) \<and> net_pending t = [7]"
proof -
  let ?s = "\<lparr>ns_in = [], ns_out = [9], ns_room = [1, 2]\<rparr>"
  have "ws_send_frame net_send True 1 [0x68, 0x69] 0xA5A55AA5 ?s =
      (True, \<lparr>ns_in = [], ns_out = [9, 0x81, 0x82, 0xA5, 0xA5, 0x5A, 0xA5, 0xCD, 0xCC], ns_room = []\<rparr>)"
    by code_simp
  from ws_frame_roundtrip [OF _ _ this, of "[[0x81], [0x82, 0xA5, 0xA5], [0x5A, 0xA5, 0xCD, 0xCC, 7]]" "[7]"]
  show ?thesis by (simp add: ws_max_payload_def)
qed

text \<open>
  C30. A frame that stops short is never delivered: when the peer's bytes end inside a frame, with or
  without mask, at whatever point, the reader reports the end of the stream or an error.
\<close>

theorem ws_frame_truncated:
  assumes "op < 16" and "length payload \<le> ws_max_payload" and "case mko of None \<Rightarrow> True | Some key \<Rightarrow> length key = 4"
    and "[] \<notin> set segments" and "concat segments = take k (ws_wire fin op mko payload)"
    and "k < length (ws_wire fin op mko payload)"
  shows "fst (ws_read_frame net_recv True \<lparr>ns_in = segments, ns_out = [], ns_room = []\<rparr>) =
    (if k < 2 then ReadClosed else ReadError)"
proof -
  have p: "net_pending \<lparr>ns_in = segments, ns_out = [], ns_room = []\<rparr> = take k (ws_wire fin op mko payload @ [])"
    using net_pending_segments [OF assms(4)] assms(5) by simp
  obtain t where "ws_read_frame net_recv True \<lparr>ns_in = segments, ns_out = [], ns_room = []\<rparr> =
      (if length (ws_wire fin op mko payload) \<le> k then ReadFrame fin op payload else if k < 2 then ReadClosed else ReadError, t)"
    by (rule net.read_frame_next [OF p assms(1,3,2)]) blast
  with assms(6) show ?thesis by simp
qed

theorem ws_frame_truncated_witness:
  "fst (ws_read_frame net_recv True \<lparr>ns_in = [[0x82, 3], [1, 2]], ns_out = [], ns_room = []\<rparr>) = ReadError"
proof -
  have w: "ws_wire True 2 None [1, 2, 3] = [0x82, 3, 1, 2, 3]" by code_simp
  have "fst (ws_read_frame net_recv True \<lparr>ns_in = [[0x82, 3], [1, 2]], ns_out = [], ns_room = []\<rparr>) =
      (if (4 :: nat) < 2 then ReadClosed else ReadError)"
    by (rule ws_frame_truncated [where op = 2 and payload = "[1, 2, 3]" and mko = None and fin = True])
      (simp_all add: w ws_max_payload_def)
  then show ?thesis by simp
qed

text \<open>
  C31. Whatever bytes arrive, a delivered frame has at most 16 megabytes of payload and a four-bit
  operation code, and its header and payload were taken from the stream: a stream of \<open>n\<close> bytes can
  deliver at most \<open>n / 2\<close> frames.
\<close>

theorem ws_frame_bounds:
  assumes "ws_read_frame net_recv mem_ok s = (ReadFrame fin op payload, s')"
  shows "length payload \<le> 16777216 \<and> op < 16 \<and> length (net_pending s') + 2 + length payload \<le> length (net_pending s)"
  using net.read_frame_took [OF assms] by (simp add: ws_max_payload_def)

theorem ws_frame_bounds_witness:
  "\<exists>t. ws_read_frame net_recv True \<lparr>ns_in = [[0x81], [1, 5, 7]], ns_out = [], ns_room = []\<rparr> = (ReadFrame True 1 [5], t) \<and>
     length (net_pending t) + 3 \<le> 4"
proof -
  let ?s = "\<lparr>ns_in = [[0x81], [1, 5, 7]], ns_out = [], ns_room = []\<rparr>"
  have w: "ws_wire True 1 None [5] = [0x81, 1, 5]" by code_simp
  have p: "net_pending ?s = take 4 (ws_wire True 1 None [5] @ [7])" by (simp add: net_pending_def w)
  obtain t where "ws_read_frame net_recv True ?s =
      (if length (ws_wire True 1 None [5]) \<le> 4 then ReadFrame True 1 [5] else if (4 :: nat) < 2 then ReadClosed else ReadError, t)"
    by (rule net.read_frame_next [OF p]) (simp_all add: ws_max_payload_def)
  then have r: "ws_read_frame net_recv True ?s = (ReadFrame True 1 [5], t)" by (simp add: w)
  from ws_frame_bounds [OF this] r show ?thesis by (simp add: p w)
qed

end
