(* ===== verification/WsHandshake.thy ===== *)
theory WsHandshake
  imports Sha1 Base64 WsUrl WsFrame
begin

unbundle bit_operations_syntax

text \<open>
  The opening handshake, \<^verbatim>\<open>ws_do_handshake\<close> of \<^verbatim>\<open>src/websocket/websocket.c\<close>: the key made from
  the clock, the request, the response read byte by byte up to the empty line, and the test of
  the accept header. \<open>now\<close> is \<open>time (NULL)\<close> as 32 bits, \<open>word_bytes\<close> the byte order of the
  machine, \<open>junk\<close> the uninitialised buffer of the hash context. \<open>None\<close> would be sending more bytes
  than the request buffer has.
\<close>

definition chars_bytes :: "string \<Rightarrow> byte list" where
  "chars_bytes = map (\<lambda>c. word_of_nat (of_char c))"

definition bytes_chars :: "byte list \<Rightarrow> string" where
  "bytes_chars = map (\<lambda>b. char_of (unat b))"

lemma bytes_chars_inverse [simp]: "bytes_chars (chars_bytes s) = s"
proof -
  have "char_of (unat (word_of_nat (of_char c) :: byte)) = c" for c
    by (simp add: unat_of_nat)
  then show ?thesis by (simp add: bytes_chars_def chars_bytes_def comp_def)
qed

lemma chars_bytes_append [simp]: "chars_bytes (s @ t) = chars_bytes s @ chars_bytes t"
  by (simp add: chars_bytes_def)

lemma chars_bytes_Nil [simp]: "chars_bytes [] = []"
  by (simp add: chars_bytes_def)

lemma chars_bytes_eq_Nil [simp]: "chars_bytes s = [] \<longleftrightarrow> s = []"
  by (simp add: chars_bytes_def)

lemma length_chars_bytes [simp]: "length (chars_bytes s) = length s"
  by (simp add: chars_bytes_def)

section \<open>The code\<close>

definition ws_magic :: string where
  "ws_magic = ''258EAFA5-E914-47DA-95CA-C5AB0DC85B11''"

definition CRLF :: string where
  "CRLF = [CHR 0x0D, CHR 0x0A]"

definition ws_key_step :: "uint \<Rightarrow> uint" where
  "ws_key_step s =
     (let s1 = s XOR push_bit 13 s;
          s2 = s1 XOR drop_bit 17 s1
      in s2 XOR push_bit 5 s2)"

primrec ws_key_bytes :: "(uint \<Rightarrow> byte list) \<Rightarrow> nat \<Rightarrow> uint \<Rightarrow> byte list" where
  "ws_key_bytes word_bytes 0 s = []"
| "ws_key_bytes word_bytes (Suc k) s = word_bytes (ws_key_step s) @ ws_key_bytes word_bytes k (ws_key_step s)"

definition ws_make_key :: "(uint \<Rightarrow> byte list) \<Rightarrow> uint \<Rightarrow> string" where
  "ws_make_key word_bytes now = b64_encode (ws_key_bytes word_bytes 4 (now XOR 0xDEADBEEF))"

definition ws_expected :: "byte list \<Rightarrow> string \<Rightarrow> string" where
  "ws_expected junk key = b64_encode (sha1_final (sha1_update (sha1_init junk) (chars_bytes (key @ ws_magic))))"

definition ws_request :: "ws_url \<Rightarrow> string \<Rightarrow> string" where
  "ws_request url key =
     ''GET '' @ wu_path url @ '' HTTP/1.1'' @ CRLF @
     ''Host: '' @ wu_host url @ '':'' @ c_dec (wu_port url) @ CRLF @
     ''Upgrade: websocket'' @ CRLF @ ''Connection: Upgrade'' @ CRLF @
     ''Sec-WebSocket-Key: '' @ key @ CRLF @ ''Sec-WebSocket-Version: 13'' @ CRLF @ CRLF"

text \<open>Byte by byte, while the buffer of 4096 has room for one more and the terminator.\<close>

definition ws_headers_end :: "string \<Rightarrow> bool" where
  "ws_headers_end r = (length r \<ge> 4 \<and> drop (length r - 4) r = CRLF @ CRLF)"

function ws_read_response :: "'s recv_fun \<Rightarrow> string \<Rightarrow> 's \<Rightarrow> string option \<times> 's" where
  "ws_read_response recv response s =
     (if length response < 4095 then
        (let r = recv 1 s in
         if fst r = [] then (None, snd r)
         else (let response' = response @ bytes_chars (take 1 (fst r)) in
           if ws_headers_end response' then (Some response', snd r)
           else ws_read_response recv response' (snd r)))
      else (Some response, s))"
  by pat_completeness auto
termination
  by (relation "measure (\<lambda>(recv, response, s). 4095 - length response)") (auto simp: bytes_chars_def neq_Nil_conv)

declare ws_read_response.simps [simp del]

definition ws_response_ok :: "string \<Rightarrow> string \<Rightarrow> bool" where
  "ws_response_ok expected response =
     (if c_strstr (c_str response) ''101'' = None then False
      else case c_strstr (c_str response) ''Sec-WebSocket-Accept:'' of
          None \<Rightarrow> True
        | Some i \<Rightarrow>
            (let ah = dropWhile (\<lambda>c. c = CHR '' '') (drop (i + 21) (c_str response));
                 actual = (case c_strstr ah CRLF of
                     Some al \<Rightarrow> take (if al \<ge> 64 then 63 else al) ah
                   | None \<Rightarrow> [])
             in actual = expected))"

definition ws_do_handshake ::
  "'s recv_fun \<Rightarrow> 's send_fun \<Rightarrow> (uint \<Rightarrow> byte list) \<Rightarrow> byte list \<Rightarrow> uint \<Rightarrow> ws_url \<Rightarrow> 's \<Rightarrow> (bool \<times> 's) option" where
  "ws_do_handshake recv send word_bytes junk now url s =
     (let key = ws_make_key word_bytes now;
          expected = ws_expected junk key;
          request = ws_request url key
      in if length request \<ge> 1024 then None
         else Some (let (ok, s1) = ws_send_all send (chars_bytes request) s in
           if \<not> ok then (False, s1)
           else (case ws_read_response recv [] s1 of
               (None, s2) \<Rightarrow> (False, s2)
             | (Some response, s2) \<Rightarrow> (ws_response_ok expected response, s2))))"

section \<open>The request\<close>

lemma length_ws_key_bytes: "(\<And>w. length (word_bytes w) = 4) \<Longrightarrow> length (ws_key_bytes word_bytes k s) = 4 * k"
  by (induction k arbitrary: s) simp_all

lemma ws_request_fits:
  assumes "ws_url_ok url" and "length key = 24"
  shows "length (ws_request url key) < 1024"
  using assms length_c_dec [of "wu_port url"] by (simp add: ws_request_def ws_url_ok_def CRLF_def)

lemma length_ws_make_key: "(\<And>w. length (word_bytes w) = 4) \<Longrightarrow> length (ws_make_key word_bytes now) = 24"
proof -
  assume "\<And>w. length (word_bytes w) = 4"
  then have "length (ws_key_bytes word_bytes 4 (now XOR 0xDEADBEEF)) = 16" by (subst length_ws_key_bytes) simp_all
  then show ?thesis using b64_length [of "ws_key_bytes word_bytes 4 (now XOR 0xDEADBEEF)"] by (simp add: ws_make_key_def)
qed

section \<open>The end of the headers\<close>

definition header_block :: "string list \<Rightarrow> string" where
  "header_block ls = concat (map (\<lambda>l. l @ CRLF) ls) @ CRLF"

lemma header_block_simps [simp]:
  "header_block [] = CRLF" "header_block (l # ls) = l @ CRLF @ header_block ls"
  by (simp_all add: header_block_def)

lemma header_block_starts_empty:
  "\<forall>l \<in> set ls. l \<noteq> [] \<and> CHR 0x0D \<notin> set l \<Longrightarrow> header_block ls = CRLF @ q \<Longrightarrow> q = []"
proof (cases ls)
  case (Cons m ms)
  assume "\<forall>l \<in> set ls. l \<noteq> [] \<and> CHR 0x0D \<notin> set l" and h: "header_block ls = CRLF @ q"
  with Cons obtain c m' where "m = c # m'" "c \<noteq> CHR 0x0D" by (cases m) auto
  with h Cons show ?thesis by (simp add: CRLF_def)
qed simp

text \<open>The first empty line of a block of headers is its end.\<close>

lemma blank_line_last:
  "\<forall>l \<in> set ls. l \<noteq> [] \<and> CHR 0x0D \<notin> set l \<Longrightarrow> ls \<noteq> [] \<Longrightarrow> p @ CRLF @ CRLF @ q = header_block ls \<Longrightarrow> q = []"
proof (induction ls arbitrary: p)
  case (Cons l ls)
  have l: "CHR 0x0D \<notin> set l" using Cons.prems(1) by simp
  have "p @ (CRLF @ CRLF @ q) = l @ (CRLF @ header_block ls)" using Cons.prems(3) by simp
  then show ?case
  proof (subst (asm) append_eq_append_conv2, elim exE disjE conjE, goal_cases)
    case (2 us)
    then have e: "CRLF @ CRLF @ q = us @ CRLF @ header_block ls" by simp
    from 2 have "us = []" using l by (cases us) (auto simp: CRLF_def)
    then have "header_block ls = CRLF @ q" using e by simp
    with Cons.prems(1) show "q = []" by (intro header_block_starts_empty [of ls]) auto
  next
    case (1 us)
    then have e: "us @ CRLF @ CRLF @ q = CRLF @ header_block ls" by simp
    consider "us = []" | c where "us = [c]" | c d us' where "us = c # d # us'" by (metis list.exhaust)
    then show "q = []"
    proof cases
      case 1
      then have "header_block ls = CRLF @ q" using e by simp
      with Cons.prems(1) show ?thesis by (intro header_block_starts_empty [of ls]) auto
    next
      case 2
      with e show ?thesis by (simp add: CRLF_def)
    next
      case 3
      then have e': "us' @ CRLF @ CRLF @ q = header_block ls" using e by (simp add: CRLF_def)
      show ?thesis
      proof (cases "ls = []")
        case True
        with e' have "length (us' @ CRLF @ CRLF @ q) = 2" by (simp add: CRLF_def)
        then show ?thesis by (simp add: CRLF_def)
      next
        case False
        from Cons.IH [OF _ False e'] Cons.prems(1) show ?thesis by simp
      qed
    qed
  qed
qed simp

lemma headers_end_only_there:
  assumes "\<forall>l \<in> set ls. l \<noteq> [] \<and> CHR 0x0D \<notin> set l" and "ls \<noteq> []" and "k < length (header_block ls)"
  shows "\<not> ws_headers_end (take k (header_block ls))"
proof
  assume e: "ws_headers_end (take k (header_block ls))"
  let ?r = "header_block ls"
  have len: "length (take k ?r) = k" using assms(3) by simp
  have "take k ?r = take (k - 4) (take k ?r) @ drop (k - 4) (take k ?r)" by (simp only: append_take_drop_id)
  also have "drop (k - 4) (take k ?r) = CRLF @ CRLF" using e unfolding ws_headers_end_def len by simp
  finally have "take k ?r @ drop k ?r = (take (k - 4) (take k ?r) @ CRLF @ CRLF) @ drop k ?r" by (rule arg_cong)
  then have "take (k - 4) (take k ?r) @ CRLF @ CRLF @ drop k ?r = ?r" by simp
  from blank_line_last [OF assms(1,2) this] assms(3) show False by simp
qed

lemma headers_end_there: "ls \<noteq> [] \<Longrightarrow> ws_headers_end (header_block ls)"
proof -
  assume "ls \<noteq> []"
  then obtain ms l where "ls = ms @ [l]" by (metis rev_exhaust)
  then have "header_block ls = concat (map (\<lambda>l. l @ CRLF) ms) @ l @ CRLF @ CRLF" by (simp add: header_block_def)
  then show ?thesis by (simp add: ws_headers_end_def CRLF_def)
qed

section \<open>Reading the response\<close>

context stream_socket
begin

lemma recv_one:
  assumes "pending s = b # rest"
  obtains s' where "recv 1 s = ([b], s')" "pending s' = rest" "sent s' = sent s"
proof -
  obtain bs s' where r: "recv 1 s = (bs, s')" by (cases "recv 1 s")
  from recv_progress [of 1 s] assms r have ne: "bs \<noteq> []" by simp
  from recv_prefix [OF _ r] have l: "length bs \<le> 1" and p: "pending s = bs @ pending s'" "sent s' = sent s" by simp_all
  from ne l obtain c where "bs = [c]" by (cases bs) auto
  with p assms r that [of s'] show thesis by simp
qed

lemma read_response_block:
  "response @ tl' = r \<Longrightarrow> tl' \<noteq> [] \<Longrightarrow> length r \<le> 4095 \<Longrightarrow> ws_headers_end r \<Longrightarrow>
   (\<forall>k < length r. \<not> ws_headers_end (take k r)) \<Longrightarrow> pending s = chars_bytes tl' @ rest \<Longrightarrow>
     \<exists>s'. ws_read_response recv response s = (Some r, s') \<and> pending s' = rest \<and> sent s' = sent s"
proof (induction tl' arbitrary: response s)
  case (Cons c tl')
  have "pending s = word_of_nat (of_char c) # (chars_bytes tl' @ rest)" using Cons.prems(6) by (simp add: chars_bytes_def)
  then obtain s1 where s1: "recv 1 s = ([word_of_nat (of_char c)], s1)" "pending s1 = chars_bytes tl' @ rest" "sent s1 = sent s"
    by (rule recv_one)
  have one: "bytes_chars [word_of_nat (of_char c)] = [c]"
    using bytes_chars_inverse [of "[c]"] by (simp add: chars_bytes_def)
  have len: "length response < 4095" using Cons.prems(1,3) by auto
  show ?case
  proof (cases "tl' = []")
    case True
    then have "response @ [c] = r" using Cons.prems(1) by simp
    with s1 one len True Cons.prems(4) show ?thesis by (subst ws_read_response.simps) simp
  next
    case False
    have r: "(response @ [c]) @ tl' = r" using Cons.prems(1) by simp
    then have "take (length (response @ [c])) r = response @ [c]" by (metis append_eq_conv_conj)
    moreover have "length (response @ [c]) < length r" using r False by (metis append_Nil2 append_eq_append_conv2 length_append less_add_same_cancel1 length_greater_0_conv)
    ultimately have "\<not> ws_headers_end (response @ [c])" using Cons.prems(5) by metis
    moreover from Cons.IH [OF r False Cons.prems(3-5) s1(2)] obtain s' where
      "ws_read_response recv (response @ [c]) s1 = (Some r, s')" "pending s' = rest" "sent s' = sent s1" by blast
    ultimately show ?thesis using s1 one len by (subst ws_read_response.simps) simp
  qed
qed simp

end

section \<open>The server's answer\<close>

definition ws_server_headers :: "string \<Rightarrow> string list" where
  "ws_server_headers acc = [''HTTP/1.1 101 Switching Protocols'', ''Upgrade: websocket'', ''Connection: Upgrade'',
     ''Sec-WebSocket-Accept: '' @ acc]"

definition ws_accept_spec :: "string \<Rightarrow> string" where
  "ws_accept_spec key = b64_encode (sha1_hash (chars_bytes (key @ ws_magic)))"

lemma response_ok_server:
  assumes acc: "nonul acc" "CHR 0x0D \<notin> set acc" "length acc < 64" "acc = [] \<or> hd acc \<noteq> CHR '' ''"
  shows "ws_response_ok expected (header_block (ws_server_headers acc)) = (acc = expected)"
proof -
  define pre h where "pre = ''HTTP/1.1 101 Switching Protocols'' @ CRLF @ ''Upgrade: websocket'' @ CRLF @ ''Connection: Upgrade'' @ CRLF"
    and "h = ''Sec-WebSocket-Accept:''"
  let ?r = "header_block (ws_server_headers acc)" and ?ah = "acc @ CRLF @ CRLF"
  have r: "?r = pre @ h @ '' '' @ ?ah" by (simp add: ws_server_headers_def pre_def h_def)
  have "nonul ?r" using acc(1) by (simp add: r pre_def h_def CRLF_def)
  then have c: "c_str ?r = ?r" by (simp add: c_str_def nonul_def takeWhile_eq_all_conv) blast
  have s101: "c_strstr ?r ''101'' \<noteq> None"
  proof -
    have "take (length ''101'') (drop 9 ?r) = ''101''" by (simp add: r pre_def)
    moreover have "9 \<in> set [0..<Suc (length ?r)]" by (simp add: r pre_def CRLF_def del: upt_Suc)
    ultimately show ?thesis unfolding c_strstr_def find_None_iff by blast
  qed
  have "\<forall>i \<in> set [0..<length pre]. take (length h) (drop i (pre @ h)) \<noteq> h" unfolding pre_def h_def by code_simp
  then have hd: "c_strstr ?r h = Some (length pre)" unfolding r by (rule c_strstr_found)
  have "length h = 21" by (simp add: h_def)
  then have "drop (length pre + 21) ?r = '' '' @ ?ah" by (simp add: r)
  moreover have "dropWhile (\<lambda>c. c = CHR '' '') ('' '' @ ?ah) = ?ah" using acc(4) by (cases acc) (auto simp: CRLF_def)
  moreover have "c_strstr ?ah CRLF = Some (length acc)"
  proof (rule c_strstr_first [OF refl])
    fix i assume "i < length acc"
    then have "hd (drop i ?ah) = acc ! i" "drop i ?ah \<noteq> []" "acc ! i \<noteq> CHR 0x0D" using acc(2)
      by (auto simp: hd_drop_conv_nth nth_append) (metis nth_mem)
    then show "take (length CRLF) (drop i ?ah) \<noteq> CRLF" by (cases "drop i ?ah") (auto simp: CRLF_def)
  qed
  ultimately show ?thesis using s101 hd acc(3) by (auto simp: ws_response_ok_def c Let_def h_def [symmetric])
qed

section \<open>The handshake\<close>

lemma net_send_whole: "ws_send_all net_send d \<lparr>ns_in = segments, ns_out = [], ns_room = []\<rparr> = (True, \<lparr>ns_in = segments, ns_out = d, ns_room = []\<rparr>)"
proof (cases "d = []")
  case True
  then show ?thesis by (simp add: ws_send_all.simps)
next
  case False
  then show ?thesis by (subst ws_send_all.simps) (simp add: ws_send_all.simps Let_def)
qed

text \<open>
  C29. Against a server that answers with a switch to the websocket protocol, the handshake succeeds
  exactly when the accept value of the answer is the one the protocol prescribes for the key that
  was sent, the encoded hash of key and magic number. The request fits its buffer and is sent as a
  whole, and reading the answer stops at the empty line: what the server sends next stays in the
  socket, however the answer was cut into segments.
\<close>

theorem ws_handshake_checks_accept:
  assumes "ws_url_ok url" and "\<And>w. length (word_bytes w) = 4" and "length junk = 64"
    and "nonul acc" and "CHR 0x0D \<notin> set acc" and "length acc < 64" and "acc = [] \<or> hd acc \<noteq> CHR '' ''"
    and "[] \<notin> set segments" and "concat segments = chars_bytes (header_block (ws_server_headers acc)) @ rest"
  shows "\<exists>s'. ws_do_handshake net_recv net_send word_bytes junk now url \<lparr>ns_in = segments, ns_out = [], ns_room = []\<rparr> =
      Some (acc = ws_accept_spec (ws_make_key word_bytes now), s') \<and> net_pending s' = rest \<and>
    ns_out s' = chars_bytes (ws_request url (ws_make_key word_bytes now))"
proof -
  let ?key = "ws_make_key word_bytes now" and ?r = "header_block (ws_server_headers acc)"
  let ?s = "\<lparr>ns_in = segments, ns_out = [], ns_room = []\<rparr>"
  let ?req = "chars_bytes (ws_request url ?key)"
  have fits: "length (ws_request url ?key) < 1024"
    by (rule ws_request_fits [OF assms(1) length_ws_make_key]) (rule assms(2))
  note send = net_send_whole [of ?req segments]
  have lines: "\<forall>l \<in> set (ws_server_headers acc). l \<noteq> [] \<and> CHR 0x0D \<notin> set l" and ne: "ws_server_headers acc \<noteq> []"
    using assms(5) by (simp_all add: ws_server_headers_def)
  have len: "length ?r \<le> 4095" using assms(6) by (simp add: ws_server_headers_def CRLF_def)
  have r: "[] @ ?r = ?r" "?r \<noteq> []" by (simp_all add: header_block_def CRLF_def)
  have p: "net_pending \<lparr>ns_in = segments, ns_out = ?req, ns_room = []\<rparr> = chars_bytes ?r @ rest"
    using net_pending_segments [OF assms(8)] assms(9) by simp
  from net.read_response_block [OF r len headers_end_there [OF ne] _ p] headers_end_only_there [OF lines ne]
  obtain s' where s': "ws_read_response net_recv [] \<lparr>ns_in = segments, ns_out = ?req, ns_room = []\<rparr> = (Some ?r, s')"
    "net_pending s' = rest" "ns_out s' = ?req" by auto
  have "ws_expected junk ?key = ws_accept_spec ?key"
  proof -
    have "length (?key @ ws_magic) < 100" using length_ws_make_key [of word_bytes now] assms(2) by (simp add: ws_magic_def)
    then show ?thesis
      using sha1_update_final [OF assms(3), of "chars_bytes (?key @ ws_magic)"] by (simp add: ws_expected_def ws_accept_spec_def)
  qed
  with s' send fits response_ok_server [OF assms(4-7)] show ?thesis by (simp add: ws_do_handshake_def Let_def)
qed

lemma ws_accept_spec_text:
  "nonul (ws_accept_spec key)" "CHR 0x0D \<notin> set (ws_accept_spec key)" "length (ws_accept_spec key) = 28"
  "hd (ws_accept_spec key) \<noteq> CHR '' ''"
proof -
  let ?H = "foldl sha1_compress sha1_H0 (blocks64 (sha1_padded (chars_bytes (key @ ws_magic))))"
  have sub: "set (ws_accept_spec key) \<subseteq> insert (CHR ''='') (set b64)" unfolding ws_accept_spec_def by (rule b64_alphabet)
  show "nonul (ws_accept_spec key)" using sub by (auto simp: nonul_def b64_def)
  show "CHR 0x0D \<notin> set (ws_accept_spec key)" using sub by (auto simp: b64_def)
  have "length (chain_bytes ?H) = 20" by (cases ?H) simp
  then show l: "length (ws_accept_spec key) = 28" by (simp add: ws_accept_spec_def sha1_hash_def b64_length)
  then have "hd (ws_accept_spec key) \<in> set (ws_accept_spec key)" by (intro hd_in_set) auto
  with sub show "hd (ws_accept_spec key) \<noteq> CHR '' ''" by (auto simp: b64_def)
qed

theorem ws_handshake_checks_accept_witness:
  "\<exists>word_bytes junk url s s'. ws_do_handshake net_recv net_send word_bytes junk 7 url s = Some (True, s') \<and> net_pending s' = [9]"
proof -
  let ?url = "\<lparr>wu_host = ''h'', wu_path = ''/'', wu_port = 80\<rparr>" and ?wb = "\<lambda>w :: uint. replicate 4 (0 :: byte)"
  let ?acc = "ws_accept_spec (ws_make_key ?wb 7)"
  let ?seg = "[chars_bytes (header_block (ws_server_headers ?acc)) @ [9]]"
  have ok: "ws_url_ok ?url" by (simp add: ws_url_ok_def c_int_range_def)
  have wb: "length (?wb w) = 4" for w by simp
  have junk: "length (replicate 64 0 :: byte list) = 64" by simp
  have acc: "length ?acc < 64" "?acc = [] \<or> hd ?acc \<noteq> CHR '' ''" using ws_accept_spec_text by simp_all
  have seg: "[] \<notin> set ?seg" "concat ?seg = chars_bytes (header_block (ws_server_headers ?acc)) @ [9]" by simp_all
  from ws_handshake_checks_accept [OF ok wb junk ws_accept_spec_text(1,2) acc seg, of 7] obtain s' where
    "ws_do_handshake net_recv net_send ?wb (replicate 64 0) 7 ?url \<lparr>ns_in = ?seg, ns_out = [], ns_room = []\<rparr> = Some (?acc = ?acc, s')"
    "net_pending s' = [9]" by (elim exE conjE)
  then show ?thesis by (simp only: simp_thms) (intro exI conjI)
qed

text \<open>
  The test of the answer is weaker than the protocol asks for: an answer without an accept
  header passes, and so does one whose status is an error, if the digits 101 occur anywhere in it.
\<close>

theorem ws_response_check_is_weak:
  "ws_response_ok expected (header_block [''HTTP/1.1 404 Not Found'', ''X-Request-Id: 44101'']) \<and>
   ws_response_ok expected (header_block [''HTTP/1.1 101 Switching Protocols'', ''sec-websocket-accept: AAAA''])"
proof -
  have n: "c_strstr (c_str (header_block [''HTTP/1.1 404 Not Found'', ''X-Request-Id: 44101''])) ''101'' \<noteq> None \<and>
      c_strstr (c_str (header_block [''HTTP/1.1 404 Not Found'', ''X-Request-Id: 44101''])) ''Sec-WebSocket-Accept:'' = None \<and>
      c_strstr (c_str (header_block [''HTTP/1.1 101 Switching Protocols'', ''sec-websocket-accept: AAAA''])) ''101'' \<noteq> None \<and>
      c_strstr (c_str (header_block [''HTTP/1.1 101 Switching Protocols'', ''sec-websocket-accept: AAAA''])) ''Sec-WebSocket-Accept:'' = None"
    by code_simp
  then show ?thesis by (simp only: ws_response_ok_def option.case if_False simp_thms)
qed

text \<open>A server without an accept header is accepted.\<close>

definition plain_answer :: string where
  "plain_answer = header_block [''HTTP/1.1 101 Switching Protocols'', ''sec-websocket-accept: AAAA'']"

lemma handshake_plain_answer:
  assumes "ws_url_ok url" and "\<And>w. length (word_bytes w) = 4"
  shows "\<exists>s'. ws_do_handshake net_recv net_send word_bytes junk now url \<lparr>ns_in = [chars_bytes plain_answer], ns_out = [], ns_room = []\<rparr> = Some (True, s')"
proof -
  let ?ls = "[''HTTP/1.1 101 Switching Protocols'', ''sec-websocket-accept: AAAA'']" and ?req = "chars_bytes (ws_request url (ws_make_key word_bytes now))"
  have fits: "length (ws_request url (ws_make_key word_bytes now)) < 1024"
    by (rule ws_request_fits [OF assms(1) length_ws_make_key]) (rule assms(2))
  have r: "[] @ plain_answer = plain_answer" "plain_answer \<noteq> []" "length plain_answer \<le> 4095"
    by (simp_all add: plain_answer_def header_block_def CRLF_def)
  have ls: "\<forall>l \<in> set ?ls. l \<noteq> [] \<and> CHR 0x0D \<notin> set l" "?ls \<noteq> []" by simp_all
  have p: "net_pending \<lparr>ns_in = [chars_bytes plain_answer], ns_out = ?req, ns_room = []\<rparr> = chars_bytes plain_answer @ []"
    by (simp add: net_pending_def)
  obtain s' where s': "ws_read_response net_recv [] \<lparr>ns_in = [chars_bytes plain_answer], ns_out = ?req, ns_room = []\<rparr> = (Some plain_answer, s')"
    using net.read_response_block [OF r(1,2,3) headers_end_there [OF ls(2), folded plain_answer_def] _ p] headers_end_only_there [OF ls, folded plain_answer_def] by auto
  have "ws_response_ok expected plain_answer" for expected
    using ws_response_check_is_weak [of expected] by (simp only: plain_answer_def)
  with s' fits net_send_whole [of ?req "[chars_bytes plain_answer]"] show ?thesis by (simp add: ws_do_handshake_def Let_def)
qed

end
