(* ===== verification/Websocket.thy ===== *)
theory Websocket
  imports WsHandshake
begin

unbundle bit_operations_syntax

text \<open>
  The websocket client, \<^verbatim>\<open>src/websocket/websocket.c\<close>: the structure the application and the worker
  thread share, the operations on it that run under its mutex, the application's calls, and the
  worker as a machine whose steps are the stretches between two visits to the shared structure.

  The operating system is an argument, the record \<open>ws_os\<close>: name lookup, socket creation and
  connection as results, \<open>select\<close>, the two stream calls and the clock. \<open>sy_oom\<close> is a script of
  allocation failures, any list of them; a frame takes one entry for its payload even when it has
  none, and a sent frame one for its masked copy even when the header cannot be sent. The queue of events, a chain with a tail pointer in the code that is only
  appended to and taken from at its head, is the list of its events.
\<close>

section \<open>Data\<close>

datatype websocket_event_type = EVENT_OPEN | EVENT_CLOSE | EVENT_ERROR | EVENT_MESSAGE

record websocket_event =
  ev_type :: websocket_event_type
  ev_code :: int
  ev_is_text :: bool
  ev_len :: int
  ev_reason :: string
  ev_message :: "byte list option"

text \<open>\<open>ws_sockfd\<close> says whether the descriptor is valid; \<open>ws_callbacks\<close> which callbacks are set.\<close>

record websocket =
  ws_sockfd :: bool
  ws_url_text :: string
  ws_close_reason :: string
  ws_connected :: bool
  ws_worker_started :: bool
  ws_close_requested :: bool
  ws_destroy_requested :: bool
  ws_close_emitted :: bool
  ws_error_emitted :: bool
  ws_close_code :: int
  ws_callbacks :: "websocket_event_type \<Rightarrow> bool"
  ws_events :: "websocket_event list"

record 's ws_sys =
  sy_ws :: websocket
  sy_rng :: uint
  sy_net :: 's
  sy_oom :: "bool list"
  sy_shut :: bool

datatype ws_select = SelectReady | SelectInterrupted | SelectFailed

record 's ws_os =
  os_recv :: "'s recv_fun"
  os_send :: "'s send_fun"
  os_lookup :: "string \<Rightarrow> int \<Rightarrow> bool"
  os_socket :: bool
  os_connect :: "string \<Rightarrow> int \<Rightarrow> bool"
  os_select :: "'s \<Rightarrow> ws_select \<times> 's"
  os_now :: uint
  os_word_bytes :: "uint \<Rightarrow> byte list"
  os_junk :: "byte list"

definition ws_alloc :: "'s ws_sys \<Rightarrow> bool \<times> 's ws_sys" where
  "ws_alloc sys = (case sy_oom sys of [] \<Rightarrow> (True, sys) | f # fs \<Rightarrow> (\<not> f, sys\<lparr>sy_oom := fs\<rparr>))"

abbreviation ws_modify :: "(websocket \<Rightarrow> websocket) \<Rightarrow> 's ws_sys \<Rightarrow> 's ws_sys" where
  "ws_modify \<equiv> sy_ws_update"

text \<open>A \<open>size_t\<close> converted to \<open>int\<close>.\<close>

definition c_int_of_size :: "nat \<Rightarrow> int" where
  "c_int_of_size n = sint (word_of_nat n :: 32 word)"

section \<open>Operations under the mutex\<close>

definition ws_enqueue_locked ::
  "'s ws_sys \<Rightarrow> websocket_event_type \<Rightarrow> int \<Rightarrow> string \<Rightarrow> byte list \<Rightarrow> int \<Rightarrow> bool \<Rightarrow> 's ws_sys" where
  "ws_enqueue_locked sys type code reason msg len is_text =
     (let (ok, sys1) = ws_alloc sys in
      if \<not> ok then sys1
      else
        let (ok2, sys2) = (if len > 0 then ws_alloc sys1 else (True, sys1)) in
        if \<not> ok2 then sys2
        else ws_modify (ws_events_update (\<lambda>q. q @ [\<lparr>ev_type = type, ev_code = code, ev_is_text = is_text, ev_len = len,
               ev_reason = take 127 reason, ev_message = (if len > 0 then Some (take (nat len) msg) else None)\<rparr>])) sys2)"

definition ws_enqueue_error_locked :: "'s ws_sys \<Rightarrow> 's ws_sys" where
  "ws_enqueue_error_locked sys =
     (if ws_error_emitted (sy_ws sys) then sys
      else ws_enqueue_locked (ws_modify (ws_error_emitted_update (\<lambda>_. True)) sys) EVENT_ERROR 0 [] [] 0 False)"

definition ws_enqueue_close_locked :: "'s ws_sys \<Rightarrow> int \<Rightarrow> string \<Rightarrow> 's ws_sys" where
  "ws_enqueue_close_locked sys code reason =
     (if ws_close_emitted (sy_ws sys) then sys
      else ws_enqueue_locked (ws_modify (\<lambda>w. w\<lparr>ws_close_emitted := True, ws_connected := False\<rparr>) sys)
             EVENT_CLOSE code reason [] 0 False)"

definition ws_send_frame_locked :: "'s ws_os \<Rightarrow> 's ws_sys \<Rightarrow> byte list \<Rightarrow> byte \<Rightarrow> bool \<times> 's ws_sys" where
  "ws_send_frame_locked os sys data opcode =
     (if \<not> ws_sockfd (sy_ws sys) \<or> \<not> ws_connected (sy_ws sys) then (False, sys)
      else
        let mk = ws_xorshift (os_now os) (sy_rng sys);
            (mem_ok, sys1) = (if data = [] then (True, sys) else ws_alloc sys);
            (ok, net) = ws_send_frame (os_send os) mem_ok opcode data mk (sy_net sys1)
        in (ok, sys1\<lparr>sy_rng := mk, sy_net := net\<rparr>))"

definition ws_close_payload :: "int \<Rightarrow> string \<Rightarrow> byte list" where
  "ws_close_payload code reason =
     (let nc = (word_of_int (if code > 0 then code else 1000) :: 16 word)
      in [ucast (drop_bit 8 nc), ucast nc] @ take 123 (chars_bytes reason))"

definition ws_send_close_frame_locked :: "'s ws_os \<Rightarrow> 's ws_sys \<Rightarrow> int \<Rightarrow> string \<Rightarrow> 's ws_sys" where
  "ws_send_close_frame_locked os sys code reason =
     snd (ws_send_frame_locked os sys (ws_close_payload code reason) 8)"

section \<open>The application's calls\<close>

definition websocket_init :: "string \<Rightarrow> (websocket_event_type \<Rightarrow> bool) \<Rightarrow> websocket" where
  "websocket_init url callbacks =
     \<lparr>ws_sockfd = False, ws_url_text = take 255 url, ws_close_reason = ''client closing'', ws_connected = False,
      ws_worker_started = True, ws_close_requested = False, ws_destroy_requested = False, ws_close_emitted = False,
      ws_error_emitted = False, ws_close_code = 1000, ws_callbacks = callbacks, ws_events = []\<rparr>"

definition websocket_close :: "'s ws_os \<Rightarrow> 's ws_sys \<Rightarrow> int \<Rightarrow> string option \<Rightarrow> 's ws_sys" where
  "websocket_close os sys code reason =
     (let sys1 = ws_modify (\<lambda>w. w\<lparr>ws_close_requested := True, ws_close_code := (if code > 0 then code else 1000),
            ws_close_reason := take 127 (case reason of Some r \<Rightarrow> r | None \<Rightarrow> [])\<rparr>) sys
      in if ws_connected (sy_ws sys1)
         then ws_send_close_frame_locked os sys1 (ws_close_code (sy_ws sys1)) (ws_close_reason (sy_ws sys1))
         else sys1)"

definition websocket_send_text :: "'s ws_os \<Rightarrow> 's ws_sys \<Rightarrow> string option \<Rightarrow> bool \<times> 's ws_sys" where
  "websocket_send_text os sys text = (case text of
     None \<Rightarrow> (False, sys)
   | Some t \<Rightarrow> ws_send_frame_locked os sys (chars_bytes t) 1)"

definition websocket_send_binary :: "'s ws_os \<Rightarrow> 's ws_sys \<Rightarrow> byte list option \<Rightarrow> bool \<times> 's ws_sys" where
  "websocket_send_binary os sys data = (case data of
     None \<Rightarrow> (False, sys)
   | Some d \<Rightarrow> if d = [] then (False, sys) else ws_send_frame_locked os sys d 2)"

text \<open>One round of \<^verbatim>\<open>websocket_poll\<close>: the event taken from the queue, which goes to its callback if that is set.\<close>

definition websocket_poll_one :: "'s ws_sys \<Rightarrow> (websocket_event \<times> bool) option \<times> 's ws_sys" where
  "websocket_poll_one sys = (case ws_events (sy_ws sys) of
     [] \<Rightarrow> (None, sys)
   | ev # q \<Rightarrow> (Some (ev, ws_callbacks (sy_ws sys) (ev_type ev)), ws_modify (ws_events_update (\<lambda>_. q)) sys))"

text \<open>
  \<^verbatim>\<open>websocket_destroy\<close>: a call of \<^verbatim>\<open>websocket_close\<close>, a second visit to the mutex in which the flag is set and
  the socket shut down, the join, and from the join on: the events that are left are freed.
\<close>

definition websocket_destroy_mark :: "'s ws_sys \<Rightarrow> 's ws_sys" where
  "websocket_destroy_mark sys =
     (let sys1 = ws_modify (ws_destroy_requested_update (\<lambda>_. True)) sys
      in if ws_sockfd (sy_ws sys1) then sys1\<lparr>sy_shut := True\<rparr> else sys1)"

definition websocket_destroy_begin :: "'s ws_os \<Rightarrow> 's ws_sys \<Rightarrow> 's ws_sys" where
  "websocket_destroy_begin os sys =
     websocket_destroy_mark (websocket_close os sys 1000 (Some ''Client closing''))"

definition websocket_destroy_end :: "'s ws_sys \<Rightarrow> websocket_event list" where
  "websocket_destroy_end sys = ws_events (sy_ws sys)"

definition websocket_create ::
  "string option \<Rightarrow> (websocket_event_type \<Rightarrow> bool) \<Rightarrow> bool \<Rightarrow> bool \<Rightarrow> bool \<Rightarrow> websocket option" where
  "websocket_create url callbacks mem_ok mutex_ok thread_ok = (case url of
     None \<Rightarrow> None
   | Some u \<Rightarrow> if mem_ok \<and> mutex_ok \<and> thread_ok then Some (websocket_init u callbacks) else None)"

definition websocket_is_connected :: "websocket option \<Rightarrow> bool" where
  "websocket_is_connected ws = (case ws of None \<Rightarrow> False | Some w \<Rightarrow> ws_connected w)"

definition websocket_get_url :: "websocket option \<Rightarrow> string option" where
  "websocket_get_url ws = map_option ws_url_text ws"

section \<open>The worker\<close>

text \<open>The reassembly buffer: its first \<open>frag_len\<close> bytes, its capacity and the type of the message.\<close>

record ws_frag =
  fr_data :: "byte list"
  fr_cap :: nat
  fr_text :: bool

definition ws_frag_empty :: ws_frag where
  "ws_frag_empty = \<lparr>fr_data = [], fr_cap = 0, fr_text = False\<rparr>"

datatype ws_pc =
    WInit
  | WHandshake ws_url
  | WLoop ws_frag
  | WWait ws_frag
  | WRead ws_frag
  | WHandle ws_frag bool byte "byte list"
  | WExit
  | WDone

definition ws_fail :: "'s ws_sys \<Rightarrow> string \<Rightarrow> 's ws_sys" where
  "ws_fail sys reason = ws_enqueue_close_locked (ws_enqueue_error_locked sys) 1006 reason"

text \<open>
  From the start of the thread to the connected socket, which the worker keeps to itself until the handshake is
  over. \<open>None\<close> is the undefined port of the URL parser.
\<close>

definition ws_connect :: "'s ws_os \<Rightarrow> 's ws_sys \<Rightarrow> (ws_pc \<times> 's ws_sys) option" where
  "ws_connect os sys = do {
     (ok, url) \<leftarrow> ws_parse_url (ws_url_text (sy_ws sys));
     (if \<not> ok then Some (WDone, ws_fail sys ''invalid url'')
      else if \<not> os_lookup os (wu_host url) (wu_port url) then Some (WDone, ws_fail sys ''dns failed'')
      else if \<not> os_socket os then Some (WDone, ws_fail sys ''socket failed'')
      else if \<not> os_connect os (wu_host url) (wu_port url) then Some (WDone, ws_fail sys ''connect failed'')
      else Some (WHandshake url, sys))
   }"

text \<open>The handshake, and the visit to the mutex after it.\<close>

definition ws_upgrade :: "'s ws_os \<Rightarrow> ws_url \<Rightarrow> 's ws_sys \<Rightarrow> (ws_pc \<times> 's ws_sys) option" where
  "ws_upgrade os url sys = do {
     (ok, net) \<leftarrow> ws_do_handshake (os_recv os) (os_send os) (os_word_bytes os) (os_junk os) (os_now os) url (sy_net sys);
     let sys1 = sys\<lparr>sy_net := net\<rparr>;
     (if \<not> ok then Some (WDone, ws_fail sys1 ''handshake failed'')
      else (let sys2 = ws_enqueue_locked (ws_modify (\<lambda>w. w\<lparr>ws_sockfd := True, ws_connected := True\<rparr>) sys1) EVENT_OPEN 0 [] [] 0 False;
                sys3 = (if ws_close_requested (sy_ws sys2)
                  then ws_send_close_frame_locked os sys2 (ws_close_code (sy_ws sys2)) (ws_close_reason (sy_ws sys2)) else sys2)
            in Some (WLoop ws_frag_empty, sys3)))
   }"

definition ws_close_info :: "websocket \<Rightarrow> byte list \<Rightarrow> int \<times> string" where
  "ws_close_info w payload =
     (if length payload \<ge> 2
      then (int (be_number (take 2 payload)), if length payload > 2 then c_str (bytes_chars (take 127 (drop 2 payload))) else [])
      else if ws_close_requested w then (ws_close_code w, take 127 (ws_close_reason w))
      else (1000, []))"

definition ws_handle_frame ::
  "'s ws_os \<Rightarrow> 's ws_sys \<Rightarrow> ws_frag \<Rightarrow> bool \<Rightarrow> byte \<Rightarrow> byte list \<Rightarrow> ws_pc \<times> 's ws_sys" where
  "ws_handle_frame os sys frag fin op payload =
     (if op = 9 then (WLoop frag, snd (ws_send_frame_locked os sys payload 10))
      else if op = 10 then (WLoop frag, sys)
      else if op = 8 then
        (let (cc, reason) = ws_close_info (sy_ws sys) payload;
             sys1 = snd (ws_send_frame_locked os sys [] 8)
         in (WExit, ws_enqueue_close_locked sys1 cc reason))
      else if op = 1 \<or> op = 2 \<or> op = 0 then
        (let frag1 = (if op \<noteq> 0 then frag\<lparr>fr_text := (op = 1), fr_data := []\<rparr> else frag);
             data = fr_data frag1 @ payload;
             (ok, sys1) = (if length data > fr_cap frag1 then ws_alloc sys else (True, sys));
             cap = (if length data > fr_cap frag1 then length data + 4096 else fr_cap frag1)
         in if \<not> ok then (WExit, ws_fail sys1 ''receive failed'')
            else if fin then
              (WLoop (frag1\<lparr>fr_data := [], fr_cap := cap\<rparr>),
               ws_enqueue_locked sys1 EVENT_MESSAGE 0 [] data (c_int_of_size (length data)) (fr_text frag1))
            else (WLoop (frag1\<lparr>fr_data := data, fr_cap := cap\<rparr>), sys1))
      else (WLoop frag, sys))"

definition ws_exit :: "'s ws_sys \<Rightarrow> 's ws_sys" where
  "ws_exit sys =
     (let sys1 = ws_modify (ws_connected_update (\<lambda>_. False)) sys;
          sys2 = ws_enqueue_close_locked sys1 1006 ''connection closed''
      in ws_modify (ws_sockfd_update (\<lambda>_. False)) sys2)"

fun ws_worker_step :: "'s ws_os \<Rightarrow> ws_pc \<Rightarrow> 's ws_sys \<Rightarrow> (ws_pc \<times> 's ws_sys) option" where
  "ws_worker_step os WInit sys = ws_connect os sys"
| "ws_worker_step os (WHandshake url) sys = ws_upgrade os url sys"
| "ws_worker_step os (WLoop frag) sys =
     Some (if ws_destroy_requested (sy_ws sys) then (WExit, sys) else (WWait frag, sys))"
| "ws_worker_step os (WWait frag) sys =
     (let (r, net) = os_select os (sy_net sys); sys1 = sys\<lparr>sy_net := net\<rparr> in
      Some (case r of
          SelectReady \<Rightarrow> (WRead frag, sys1)
        | SelectInterrupted \<Rightarrow> (WLoop frag, sys1)
        | SelectFailed \<Rightarrow> (WExit, ws_fail sys1 ''select failed'')))"
| "ws_worker_step os (WRead frag) sys =
     (let (mem_ok, sys1) = ws_alloc sys;
          (r, net) = ws_read_frame (os_recv os) mem_ok (sy_net sys1);
          sys2 = sys1\<lparr>sy_net := net\<rparr>; w = sy_ws sys2
      in Some (case r of
          ReadFrame fin op payload \<Rightarrow> (WHandle frag fin op payload, sys2)
        | ReadClosed \<Rightarrow> (WExit, ws_enqueue_close_locked sys2
              (if ws_close_requested w then ws_close_code w else 1006)
              (if ws_close_requested w then ws_close_reason w else ''connection closed''))
        | ReadError \<Rightarrow> (WExit, ws_fail sys2 ''receive failed'')))"
| "ws_worker_step os (WHandle frag fin op payload) sys = Some (ws_handle_frame os sys frag fin op payload)"
| "ws_worker_step os WExit sys = Some (WDone, ws_exit sys)"
| "ws_worker_step os WDone sys = None"

section \<open>Threads\<close>

text \<open>
  The worker and the application, one action at a time: everything that touches the shared structure
  does so under the mutex, apart from the reads of the requested close code when the peer closes,
  which are part of the worker's step here. \<open>heard\<close> are the events polled so far. \<^verbatim>\<open>websocket_destroy\<close> visits
  the mutex twice before it joins the worker, as \<open>client_close\<close> and as \<open>client_destroy\<close>, with steps of the
  worker in between; after the second the application makes no further call. A step of the worker includes the calls
  it makes before the visit that ends it, and these may wait: name lookup and \<^verbatim>\<open>connect\<close> in \<open>WInit\<close>, the reads of the handshake in
  \<open>WHandshake\<close>, \<^verbatim>\<open>select\<close> and the reads of a frame later. That the worker waits there is that the step has not been taken.
\<close>

record 's ws_conf =
  cf_pc :: ws_pc
  cf_sys :: "'s ws_sys"
  cf_heard :: "websocket_event list"

inductive ws_step :: "'s ws_os \<Rightarrow> 's ws_conf \<Rightarrow> 's ws_conf \<Rightarrow> bool" for os where
  worker: "ws_worker_step os (cf_pc c) (cf_sys c) = Some (pc, sys) \<Longrightarrow> ws_step os c (c\<lparr>cf_pc := pc, cf_sys := sys\<rparr>)"
| client_close: "\<not> ws_destroy_requested (sy_ws (cf_sys c)) \<Longrightarrow>
    ws_step os c (c\<lparr>cf_sys := websocket_close os (cf_sys c) code reason\<rparr>)"
| client_text: "\<not> ws_destroy_requested (sy_ws (cf_sys c)) \<Longrightarrow>
    ws_step os c (c\<lparr>cf_sys := snd (websocket_send_text os (cf_sys c) text)\<rparr>)"
| client_binary: "\<not> ws_destroy_requested (sy_ws (cf_sys c)) \<Longrightarrow>
    ws_step os c (c\<lparr>cf_sys := snd (websocket_send_binary os (cf_sys c) data)\<rparr>)"
| client_poll: "\<not> ws_destroy_requested (sy_ws (cf_sys c)) \<Longrightarrow> websocket_poll_one (cf_sys c) = (Some (ev, called), sys) \<Longrightarrow>
    ws_step os c (c\<lparr>cf_sys := sys, cf_heard := cf_heard c @ [ev]\<rparr>)"
| client_destroy: "\<not> ws_destroy_requested (sy_ws (cf_sys c)) \<Longrightarrow>
    ws_step os c (c\<lparr>cf_sys := websocket_destroy_mark (cf_sys c)\<rparr>)"

inductive ws_reach :: "'s ws_os \<Rightarrow> 's ws_conf \<Rightarrow> 's ws_conf \<Rightarrow> bool" for os where
  ws_reach_refl: "ws_reach os c c"
| ws_reach_step: "ws_reach os c d \<Longrightarrow> ws_step os d e \<Longrightarrow> ws_reach os c e"

inductive_cases ws_stepE: "ws_step os c d"
inductive_simps ws_reach_simps: "ws_reach os c d"

definition ws_start :: "string \<Rightarrow> (websocket_event_type \<Rightarrow> bool) \<Rightarrow> uint \<Rightarrow> 's \<Rightarrow> bool list \<Rightarrow> 's ws_conf" where
  "ws_start url callbacks rng net oom =
     \<lparr>cf_pc = WInit, cf_sys = \<lparr>sy_ws = websocket_init url callbacks, sy_rng = rng, sy_net = net, sy_oom = oom, sy_shut = False\<rparr>,
      cf_heard = []\<rparr>"

end
