(* ===== verification/WsSafety.thy ===== *)
theory WsSafety
  imports Websocket
begin

text \<open>
  What the websocket client guarantees whatever the peer, the network, the allocator and the order
  of the two threads do: the order of the events the application sees, the single close event,
  the socket that destruction never leaves a worker waiting on, and the end of the worker.
\<close>

section \<open>The invariant\<close>

text \<open>The types of the events of a connection, with the open, error and close event there or lost.\<close>

definition ws_log :: "bool \<Rightarrow> nat \<Rightarrow> bool \<Rightarrow> bool \<Rightarrow> websocket_event_type list" where
  "ws_log opened n err closed =
     (if opened then [EVENT_OPEN] else []) @ replicate n EVENT_MESSAGE @
     (if err then [EVENT_ERROR] else []) @ (if closed then [EVENT_CLOSE] else [])"

fun ws_running :: "ws_pc \<Rightarrow> bool" where
  "ws_running (WLoop _) = True"
| "ws_running (WWait _) = True"
| "ws_running (WRead _) = True"
| "ws_running (WHandle _ _ _ _) = True"
| "ws_running _ = False"

text \<open>
  Where the worker waits for the outside: before the connection is open, in name lookup, \<^verbatim>\<open>connect\<close> and the handshake; and
  after, in \<^verbatim>\<open>select\<close>, \<^verbatim>\<open>recv\<close> and the \<^verbatim>\<open>send\<close> of an answer.
\<close>

fun ws_connecting :: "ws_pc \<Rightarrow> bool" where
  "ws_connecting WInit = True"
| "ws_connecting (WHandshake _) = True"
| "ws_connecting _ = False"

fun ws_serving :: "ws_pc \<Rightarrow> bool" where
  "ws_serving (WWait _) = True"
| "ws_serving (WRead _) = True"
| "ws_serving (WHandle _ _ _ _) = True"
| "ws_serving _ = False"

lemma connecting_facts: "ws_connecting pc \<Longrightarrow> \<not> ws_running pc \<and> \<not> ws_serving pc \<and> pc \<noteq> WExit \<and> pc \<noteq> WDone"
  by (cases pc) simp_all


definition ws_types :: "'s ws_conf \<Rightarrow> websocket_event_type list" where
  "ws_types c = map ev_type (cf_heard c @ ws_events (sy_ws (cf_sys c)))"

definition ws_flags_ok :: "ws_pc \<Rightarrow> websocket \<Rightarrow> bool \<Rightarrow> bool" where
  "ws_flags_ok pc w shut \<longleftrightarrow>
     (ws_error_emitted w \<longrightarrow> ws_close_emitted w) \<and>
     (ws_close_emitted w \<longrightarrow> pc = WExit \<or> pc = WDone) \<and>
     (pc = WDone \<longrightarrow> ws_close_emitted w \<and> \<not> ws_connected w) \<and>
     (ws_connected w \<longrightarrow> \<not> ws_close_emitted w) \<and>
     (ws_running pc \<or> pc = WExit \<longleftrightarrow> ws_sockfd w) \<and>
     (ws_connected w \<longrightarrow> ws_sockfd w) \<and>
     (ws_destroy_requested w \<and> ws_serving pc \<longrightarrow> shut)"

definition ws_log_ok :: "bool \<Rightarrow> ws_pc \<Rightarrow> websocket \<Rightarrow> bool list \<Rightarrow> websocket_event_type list \<Rightarrow> bool" where
  "ws_log_ok lossless pc w oom ts \<longleftrightarrow>
     (\<exists>opened n err closed. ts = ws_log opened n err closed \<and>
        (err \<longrightarrow> ws_error_emitted w) \<and> (closed \<longrightarrow> ws_close_emitted w) \<and>
        (ws_connecting pc \<longrightarrow> \<not> opened \<and> n = 0) \<and>
        (lossless \<longrightarrow> oom = [] \<and> err = ws_error_emitted w \<and> closed = ws_close_emitted w \<and>
           (ws_sockfd w \<longrightarrow> opened) \<and> (n > 0 \<longrightarrow> opened)))"

definition ws_inv :: "bool \<Rightarrow> 's ws_conf \<Rightarrow> bool" where
  "ws_inv lossless c \<longleftrightarrow>
     ws_flags_ok (cf_pc c) (sy_ws (cf_sys c)) (sy_shut (cf_sys c)) \<and>
     ws_log_ok lossless (cf_pc c) (sy_ws (cf_sys c)) (sy_oom (cf_sys c)) (ws_types c)"

lemma ws_inv_start: "ws_inv (oom = []) (ws_start url callbacks rng net oom)"
  by (auto simp: ws_inv_def ws_start_def ws_flags_ok_def ws_log_ok_def ws_types_def websocket_init_def ws_log_def
      intro!: exI [of _ False] exI [of _ "0 :: nat"])

section \<open>What the operations change\<close>

definition enqueued :: "'s ws_sys \<Rightarrow> 's ws_sys \<Rightarrow> websocket_event_type list \<Rightarrow> bool" where
  "enqueued sys sys' ts \<longleftrightarrow> (\<exists>q oom. sys' = sys\<lparr>sy_ws := (sy_ws sys)\<lparr>ws_events := ws_events (sy_ws sys) @ q\<rparr>, sy_oom := oom\<rparr> \<and>
     (map ev_type q = [] \<or> map ev_type q = ts) \<and> (sy_oom sys = [] \<longrightarrow> oom = [] \<and> map ev_type q = ts))"

lemma ws_alloc_shape: "ws_alloc sys = (ok, sys') \<Longrightarrow> \<exists>oom. sys' = sys\<lparr>sy_oom := oom\<rparr> \<and> (sy_oom sys = [] \<longrightarrow> ok \<and> oom = [])"
  by (cases sys) (auto simp: ws_alloc_def split: list.splits)

lemma ws_alloc_if_shape:
  "(if b then (True, sys) else ws_alloc sys) = (ok, sys') \<Longrightarrow>
     \<exists>oom. sys' = sys\<lparr>sy_oom := oom\<rparr> \<and> (sy_oom sys = [] \<longrightarrow> ok \<and> oom = [])"
  using ws_alloc_shape [of sys ok sys'] by (cases b) (auto intro: exI [of _ "sy_oom sys"])

lemma ws_append_event:
  "ws_modify (ws_events_update (\<lambda>q. q @ es)) (sys\<lparr>sy_oom := oom\<rparr>) =
     sys\<lparr>sy_ws := (sy_ws sys)\<lparr>ws_events := ws_events (sy_ws sys) @ es\<rparr>, sy_oom := oom\<rparr>"
proof -
  have "ws_events_update f w = w\<lparr>ws_events := f (ws_events w)\<rparr>" for f w by (cases w) simp
  then show ?thesis by (cases sys) simp
qed

lemma ws_enqueue_shape: "enqueued sys (ws_enqueue_locked sys ty code reason msg len is_text) [ty]"
proof -
  obtain ok sys1 where a: "ws_alloc sys = (ok, sys1)" by (cases "ws_alloc sys")
  from ws_alloc_shape [OF a] obtain oom1 where s1: "sys1 = sys\<lparr>sy_oom := oom1\<rparr>" "sy_oom sys = [] \<longrightarrow> ok \<and> oom1 = []" by blast
  obtain ok2 sys2 where b: "(if len > 0 then ws_alloc sys1 else (True, sys1)) = (ok2, sys2)"
    by (cases "if len > 0 then ws_alloc sys1 else (True, sys1)")
  then have "(if \<not> len > 0 then (True, sys1) else ws_alloc sys1) = (ok2, sys2)" by (simp split: if_splits)
  from ws_alloc_if_shape [OF this] obtain oom2 where
    s2: "sys2 = sys1\<lparr>sy_oom := oom2\<rparr>" "sy_oom sys1 = [] \<longrightarrow> ok2 \<and> oom2 = []" by blast
  let ?r = "ws_enqueue_locked sys ty code reason msg len is_text"
  have r: "?r = (if \<not> ok then sys1 else if \<not> ok2 then sys2 else
      ws_modify (ws_events_update (\<lambda>q. q @ [\<lparr>ev_type = ty, ev_code = code, ev_is_text = is_text, ev_len = len,
        ev_reason = take 127 reason, ev_message = (if len > 0 then Some (take (nat len) msg) else None)\<rparr>])) sys2)"
    unfolding ws_enqueue_locked_def a b Let_def prod.case by (rule refl)
  show ?thesis
  proof (cases "ok \<and> ok2")
    case True
    let ?ev = "\<lparr>ev_type = ty, ev_code = code, ev_is_text = is_text, ev_len = len,
        ev_reason = take 127 reason, ev_message = (if len > 0 then Some (take (nat len) msg) else None)\<rparr>"
    from True have "?r = ws_modify (ws_events_update (\<lambda>q. q @ [?ev])) (sys\<lparr>sy_oom := oom2\<rparr>)" using s1 s2 by (simp add: r)
    then have "?r = sys\<lparr>sy_ws := (sy_ws sys)\<lparr>ws_events := ws_events (sy_ws sys) @ [?ev]\<rparr>, sy_oom := oom2\<rparr>"
      by (simp only: ws_append_event)
    then show ?thesis unfolding enqueued_def using s1(2) s2 s1(1) by (intro exI [of _ "[?ev]"] exI [of _ oom2]) simp
  next
    case False
    then have "?r = sys\<lparr>sy_oom := sy_oom ?r\<rparr>" "sy_oom sys \<noteq> []" using s1 s2 by (auto simp: r)
    then show ?thesis unfolding enqueued_def by (intro exI [of _ "[]"] exI [of _ "sy_oom ?r"]) auto
  qed
qed

definition same_ws :: "'s ws_sys \<Rightarrow> 's ws_sys \<Rightarrow> bool" where
  "same_ws sys sys' \<longleftrightarrow> sy_ws sys' = sy_ws sys \<and> sy_shut sys' = sy_shut sys \<and> (sy_oom sys = [] \<longrightarrow> sy_oom sys' = [])"

lemma same_ws_refl [simp, intro]: "same_ws sys sys"
  by (simp add: same_ws_def)

lemma ws_send_frame_shape: "same_ws sys (snd (ws_send_frame_locked os sys data opcode))"
proof -
  obtain ok sys1 where a: "(if data = [] then (True, sys) else ws_alloc sys) = (ok, sys1)"
    by (cases "if data = [] then (True, sys) else ws_alloc sys")
  from ws_alloc_if_shape [OF a] obtain oom where "sys1 = sys\<lparr>sy_oom := oom\<rparr>" "sy_oom sys = [] \<longrightarrow> oom = []" by blast
  then show ?thesis unfolding ws_send_frame_locked_def Let_def a
    by (simp add: same_ws_def split: prod.split)
qed

definition some_of :: "websocket_event list \<Rightarrow> websocket_event_type \<Rightarrow> bool \<Rightarrow> bool" where
  "some_of q ty sure \<longleftrightarrow> (map ev_type q = [] \<or> map ev_type q = [ty]) \<and> (sure \<longrightarrow> map ev_type q = [ty])"

lemma enqueueE:
  obtains q :: "websocket_event list" and oom :: "bool list" where "ws_enqueue_locked sys ty code reason msg len is_text =
      sys\<lparr>sy_ws := (sy_ws sys)\<lparr>ws_events := ws_events (sy_ws sys) @ q\<rparr>, sy_oom := oom\<rparr>"
    "some_of q ty (sy_oom sys = [])" "sy_oom sys = [] \<longrightarrow> oom = []"
proof -
  from ws_enqueue_shape [of sys ty code reason msg len is_text] obtain q oom where
    e: "ws_enqueue_locked sys ty code reason msg len is_text =
      sys\<lparr>sy_ws := (sy_ws sys)\<lparr>ws_events := ws_events (sy_ws sys) @ q\<rparr>, sy_oom := oom\<rparr>"
      "map ev_type q = [] \<or> map ev_type q = [ty]" "sy_oom sys = [] \<longrightarrow> oom = [] \<and> map ev_type q = [ty]"
    unfolding enqueued_def by (elim exE conjE)
  show thesis
  proof (rule that)
    show "ws_enqueue_locked sys ty code reason msg len is_text =
      sys\<lparr>sy_ws := (sy_ws sys)\<lparr>ws_events := ws_events (sy_ws sys) @ q\<rparr>, sy_oom := oom\<rparr>" by (fact e(1))
    show "some_of q ty (sy_oom sys = [])" using e(2,3) by (simp add: some_of_def)
    show "sy_oom sys = [] \<longrightarrow> oom = []" using e(3) by simp
  qed
qed

lemma enqueue_closeE:
  assumes "\<not> ws_close_emitted (sy_ws sys)"
  obtains q :: "websocket_event list" and oom :: "bool list" where "ws_enqueue_close_locked sys code reason =
      sys\<lparr>sy_ws := (sy_ws sys)\<lparr>ws_close_emitted := True, ws_connected := False, ws_events := ws_events (sy_ws sys) @ q\<rparr>, sy_oom := oom\<rparr>"
    "some_of q EVENT_CLOSE (sy_oom sys = [])" "sy_oom sys = [] \<longrightarrow> oom = []"
proof -
  let ?s = "ws_modify (\<lambda>w. w\<lparr>ws_close_emitted := True, ws_connected := False\<rparr>) sys"
  obtain q oom where e: "ws_enqueue_locked ?s EVENT_CLOSE code reason [] 0 False =
      ?s\<lparr>sy_ws := (sy_ws ?s)\<lparr>ws_events := ws_events (sy_ws ?s) @ q\<rparr>, sy_oom := oom\<rparr>"
    "some_of q EVENT_CLOSE (sy_oom ?s = [])" "sy_oom ?s = [] \<longrightarrow> oom = []"
    by (rule enqueueE)
  show thesis
  proof (rule that)
    show "ws_enqueue_close_locked sys code reason =
      sys\<lparr>sy_ws := (sy_ws sys)\<lparr>ws_close_emitted := True, ws_connected := False, ws_events := ws_events (sy_ws sys) @ q\<rparr>, sy_oom := oom\<rparr>"
      using assms e(1) by (cases sys) (simp add: ws_enqueue_close_locked_def)
    show "some_of q EVENT_CLOSE (sy_oom sys = [])" using e(2) by simp
    show "sy_oom sys = [] \<longrightarrow> oom = []" using e(3) by simp
  qed
qed

lemma ws_failE:
  assumes "\<not> ws_error_emitted (sy_ws sys)" and "\<not> ws_close_emitted (sy_ws sys)"
  obtains q1 q2 :: "websocket_event list" and oom :: "bool list" where "ws_fail sys reason =
      sys\<lparr>sy_ws := (sy_ws sys)\<lparr>ws_error_emitted := True, ws_close_emitted := True, ws_connected := False,
        ws_events := ws_events (sy_ws sys) @ q1 @ q2\<rparr>, sy_oom := oom\<rparr>"
    "some_of q1 EVENT_ERROR (sy_oom sys = [])" "some_of q2 EVENT_CLOSE (sy_oom sys = [])" "sy_oom sys = [] \<longrightarrow> oom = []"
proof -
  let ?s = "ws_modify (ws_error_emitted_update (\<lambda>_. True)) sys"
  obtain q1 oom1 where e: "ws_enqueue_locked ?s EVENT_ERROR 0 [] [] 0 False =
      ?s\<lparr>sy_ws := (sy_ws ?s)\<lparr>ws_events := ws_events (sy_ws ?s) @ q1\<rparr>, sy_oom := oom1\<rparr>"
    "some_of q1 EVENT_ERROR (sy_oom ?s = [])" "sy_oom ?s = [] \<longrightarrow> oom1 = []"
    by (rule enqueueE)
  let ?t = "?s\<lparr>sy_ws := (sy_ws ?s)\<lparr>ws_events := ws_events (sy_ws ?s) @ q1\<rparr>, sy_oom := oom1\<rparr>"
  have c: "\<not> ws_close_emitted (sy_ws ?t)" using assms(2) by simp
  obtain q2 oom2 where f: "ws_enqueue_close_locked ?t 1006 reason =
      ?t\<lparr>sy_ws := (sy_ws ?t)\<lparr>ws_close_emitted := True, ws_connected := False, ws_events := ws_events (sy_ws ?t) @ q2\<rparr>, sy_oom := oom2\<rparr>"
    "some_of q2 EVENT_CLOSE (sy_oom ?t = [])" "sy_oom ?t = [] \<longrightarrow> oom2 = []"
    by (rule enqueue_closeE [OF c])
  show thesis
  proof (rule that)
    show "ws_fail sys reason = sys\<lparr>sy_ws := (sy_ws sys)\<lparr>ws_error_emitted := True, ws_close_emitted := True, ws_connected := False,
        ws_events := ws_events (sy_ws sys) @ q1 @ q2\<rparr>, sy_oom := oom2\<rparr>"
      using assms(1) e(1) f(1) by (cases sys) (simp add: ws_fail_def ws_enqueue_error_locked_def)
    show "some_of q1 EVENT_ERROR (sy_oom sys = [])" using e(2) by simp
    show "some_of q2 EVENT_CLOSE (sy_oom sys = [])" using e(3) f(2) by (auto simp: some_of_def)
    show "sy_oom sys = [] \<longrightarrow> oom2 = []" using e(3) f(3) by simp
  qed
qed

section \<open>Each step keeps the invariant\<close>

lemma ws_log_snoc:
  "ws_log opened n False False @ [EVENT_MESSAGE] = ws_log opened (Suc n) False False"
  "ws_log opened n False False @ [EVENT_ERROR] = ws_log opened n True False"
  "ws_log opened n err False @ [EVENT_CLOSE] = ws_log opened n err True"
  "ws_log False 0 False False @ [EVENT_OPEN] = ws_log True 0 False False"
  by (simp_all add: ws_log_def replicate_append_same)

lemma ws_log_okI:
  assumes "ts = ws_log opened n err closed" "err \<longrightarrow> ws_error_emitted w" "closed \<longrightarrow> ws_close_emitted w"
    "ws_connecting pc \<longrightarrow> \<not> opened \<and> n = 0"
    "lossless \<longrightarrow> oom = [] \<and> err = ws_error_emitted w \<and> closed = ws_close_emitted w \<and> (ws_sockfd w \<longrightarrow> opened) \<and> (n > 0 \<longrightarrow> opened)"
  shows "ws_log_ok lossless pc w oom ts"
  unfolding ws_log_ok_def using assms by (intro exI conjI)

text \<open>A log whose flags are not set yet, and the three ways it grows.\<close>

lemma ws_log_okE:
  assumes "ws_log_ok lossless pc w oom ts" and "\<not> ws_close_emitted w"
  obtains opened n err where "ts = ws_log opened n err False" "err \<longrightarrow> ws_error_emitted w"
    "ws_connecting pc \<longrightarrow> \<not> opened \<and> n = 0"
    "lossless \<longrightarrow> oom = [] \<and> err = ws_error_emitted w \<and> (ws_sockfd w \<longrightarrow> opened) \<and> (n > 0 \<longrightarrow> opened)"
proof -
  from assms(1) obtain opened n err closed where a: "ts = ws_log opened n err closed" "err \<longrightarrow> ws_error_emitted w"
    "closed \<longrightarrow> ws_close_emitted w" "ws_connecting pc \<longrightarrow> \<not> opened \<and> n = 0"
    "lossless \<longrightarrow> oom = [] \<and> err = ws_error_emitted w \<and> closed = ws_close_emitted w \<and> (ws_sockfd w \<longrightarrow> opened) \<and> (n > 0 \<longrightarrow> opened)"
    unfolding ws_log_ok_def by (elim exE conjE)
  have "\<not> closed" using a(3) assms(2) by simp
  show thesis by (rule that [of opened n err]) (use a \<open>\<not> closed\<close> in simp_all)
qed

lemma log_close:
  assumes "ws_log_ok lossless pc w oom ts" and "\<not> ws_close_emitted w" and "some_of q EVENT_CLOSE (oom = [])"
    and "oom = [] \<longrightarrow> oom' = []" and "\<not> ws_connecting pc'"
    and "ws_close_emitted w'" "ws_error_emitted w' = ws_error_emitted w" "ws_sockfd w' \<longrightarrow> ws_sockfd w"
  shows "ws_log_ok lossless pc' w' oom' (ts @ map ev_type q)"
proof -
  obtain opened n err where ts: "ts = ws_log opened n err False" "err \<longrightarrow> ws_error_emitted w"
    "ws_connecting pc \<longrightarrow> \<not> opened \<and> n = 0"
    "lossless \<longrightarrow> oom = [] \<and> err = ws_error_emitted w \<and> (ws_sockfd w \<longrightarrow> opened) \<and> (n > 0 \<longrightarrow> opened)"
    by (rule ws_log_okE [OF assms(1,2)])
  from assms(3) consider "map ev_type q = []" "oom \<noteq> []" | "map ev_type q = [EVENT_CLOSE]" by (auto simp: some_of_def)
  then show ?thesis
  proof cases
    case 1
    show ?thesis by (rule ws_log_okI [of _ opened n err False]) (use 1 ts assms(4-8) in simp_all)
  next
    case 2
    show ?thesis by (rule ws_log_okI [of _ opened n err True]) (use 2 ts assms(4-8) in \<open>simp_all add: ws_log_snoc\<close>)
  qed
qed

lemma log_append:
  assumes "ws_log_ok lossless pc w oom ts" and "\<not> ws_close_emitted w" and "\<not> ws_error_emitted w"
    and "some_of q ty (oom = [])" and "oom = [] \<longrightarrow> oom' = []" and "\<not> ws_connecting pc'"
    and "\<not> ws_close_emitted w'"
    and "ty = EVENT_OPEN \<and> ws_connecting pc \<and> \<not> ws_error_emitted w' \<or> ty = EVENT_MESSAGE \<and> ws_sockfd w \<and> \<not> ws_error_emitted w' \<or>
      ty = EVENT_ERROR \<and> ws_error_emitted w' \<and> (ws_sockfd w' \<longrightarrow> ws_sockfd w)"
  shows "ws_log_ok lossless pc' w' oom' (ts @ map ev_type q)"
proof -
  obtain opened n err where ts0: "ts = ws_log opened n err False" "err \<longrightarrow> ws_error_emitted w"
    and ts: "ws_connecting pc \<longrightarrow> \<not> opened \<and> n = 0"
    "lossless \<longrightarrow> oom = [] \<and> err = ws_error_emitted w \<and> (ws_sockfd w \<longrightarrow> opened) \<and> (n > 0 \<longrightarrow> opened)"
    by (rule ws_log_okE [OF assms(1,2)])
  have l: "ts = ws_log opened n False False" using ts0 assms(3) by (cases err) simp_all
  from assms(4) consider "map ev_type q = []" "oom \<noteq> []" | "map ev_type q = [ty]" by (auto simp: some_of_def)
  then show ?thesis
  proof cases
    case 1
    show ?thesis by (rule ws_log_okI [of _ opened n False False]) (use 1 ts l assms(5-8) in auto)
  next
    case 2
    from assms(8) consider "ty = EVENT_OPEN" | "ty = EVENT_MESSAGE" | "ty = EVENT_ERROR" by auto
    then show ?thesis
    proof cases
      case a: 1
      show ?thesis by (rule ws_log_okI [of _ True 0 False False]) (use a 2 ts l assms(5-8) in \<open>auto simp: ws_log_snoc\<close>)
    next
      case a: 2
      show ?thesis by (rule ws_log_okI [of _ opened "Suc n" False False]) (use a 2 ts l assms(5-8) in \<open>auto simp: ws_log_snoc\<close>)
    next
      case a: 3
      show ?thesis by (rule ws_log_okI [of _ opened n True False]) (use a 2 ts l assms(5-8) in \<open>auto simp: ws_log_snoc\<close>)
    qed
  qed
qed

text \<open>A change of the shared state that no part of the invariant sees.\<close>

definition quiet :: "'s ws_sys \<Rightarrow> 's ws_sys \<Rightarrow> bool" where
  "quiet sys sys' \<longleftrightarrow> ws_events (sy_ws sys') = ws_events (sy_ws sys) \<and>
     ws_close_emitted (sy_ws sys') = ws_close_emitted (sy_ws sys) \<and> ws_error_emitted (sy_ws sys') = ws_error_emitted (sy_ws sys) \<and>
     ws_connected (sy_ws sys') = ws_connected (sy_ws sys) \<and> ws_sockfd (sy_ws sys') = ws_sockfd (sy_ws sys) \<and>
     ws_destroy_requested (sy_ws sys') = ws_destroy_requested (sy_ws sys) \<and> sy_shut sys' = sy_shut sys \<and>
     (sy_oom sys = [] \<longrightarrow> sy_oom sys' = [])"

lemma quiet_refl [simp]: "quiet sys sys"
  by (simp add: quiet_def)

lemma quiet_trans: "quiet a b \<Longrightarrow> quiet b d \<Longrightarrow> quiet a d"
  by (simp add: quiet_def)

lemma same_ws_quiet: "same_ws sys sys' \<Longrightarrow> quiet sys sys'"
  by (simp add: same_ws_def quiet_def)

lemma quiet_net: "quiet sys (sys\<lparr>sy_net := net\<rparr>)"
  by (simp add: quiet_def)

lemma quiet_net_eq: "quiet sys sys1 \<Longrightarrow> quiet sys (sys1\<lparr>sy_net := net\<rparr>)"
  by (simp add: quiet_def)

lemmas quiet_send = same_ws_quiet [OF ws_send_frame_shape]

lemma quiet_close_frame: "quiet sys (ws_send_close_frame_locked os sys code reason)"
  by (simp add: ws_send_close_frame_locked_def quiet_send)

lemma quiet_close: "quiet sys (websocket_close os sys code reason)"
proof -
  let ?s = "ws_modify (\<lambda>w. w\<lparr>ws_close_requested := True, ws_close_code := (if code > 0 then code else 1000),
            ws_close_reason := take 127 (case reason of Some r \<Rightarrow> r | None \<Rightarrow> [])\<rparr>) sys"
  have "quiet sys ?s" by (simp add: quiet_def)
  then show ?thesis unfolding websocket_close_def Let_def by (auto intro: quiet_trans [OF _ quiet_close_frame])
qed

lemma quiet_text: "quiet sys (snd (websocket_send_text os sys t))"
  by (simp add: websocket_send_text_def quiet_send split: option.split)

lemma quiet_binary: "quiet sys (snd (websocket_send_binary os sys d))"
  by (simp add: websocket_send_binary_def quiet_send split: option.split)

lemma quiet_alloc: "ws_alloc sys = (ok, sys') \<Longrightarrow> quiet sys sys'"
  using ws_alloc_shape [of sys ok sys'] by (auto simp: quiet_def)

lemma quiet_alloc_if: "(if b then ws_alloc sys else (True, sys)) = (ok, sys') \<Longrightarrow> quiet sys sys'"
  using quiet_alloc [of sys ok sys'] by (cases b) auto

definition ws_open :: "ws_pc \<Rightarrow> bool" where
  "ws_open pc \<longleftrightarrow> ws_connecting pc \<or> ws_running pc"

lemma ws_inv_open:
  assumes "ws_inv lossless c" and "ws_open (cf_pc c)"
  shows "\<not> ws_close_emitted (sy_ws (cf_sys c))" "\<not> ws_error_emitted (sy_ws (cf_sys c))"
    "ws_sockfd (sy_ws (cf_sys c)) \<longleftrightarrow> ws_running (cf_pc c)" "ws_connected (sy_ws (cf_sys c)) \<longrightarrow> ws_running (cf_pc c)"
    "cf_pc c \<noteq> WExit" "cf_pc c \<noteq> WDone"
  using assms by (auto simp: ws_inv_def ws_flags_ok_def ws_open_def)

abbreviation ws_next :: "'s ws_conf \<Rightarrow> ws_pc \<Rightarrow> 's ws_sys \<Rightarrow> 's ws_conf" where
  "ws_next c pc sys \<equiv> c\<lparr>cf_pc := pc, cf_sys := sys\<rparr>"

lemma flags_move:
  assumes f: "ws_flags_ok pc w shut" and move: "pc' = pc \<or> ws_connecting pc \<and> ws_connecting pc' \<or> ws_running pc \<and> (pc' = WExit \<or> ws_running pc')"
    and b: "ws_serving pc' \<longrightarrow> ws_serving pc \<or> \<not> ws_destroy_requested w"
  shows "ws_flags_ok pc' w shut"
proof (cases "pc' = pc")
  case False
  with move consider "ws_connecting pc" "ws_connecting pc'" | "ws_running pc" "pc' = WExit \<or> ws_running pc'" by blast
  then show ?thesis
  proof cases
    case 1
    then show ?thesis using f connecting_facts [OF 1(1)] connecting_facts [OF 1(2)] by (auto simp: ws_flags_ok_def)
  next
    case m: 2
    have r: "pc \<noteq> WDone" "pc \<noteq> WExit" "pc' \<noteq> WDone" using m by auto
    show ?thesis using f m r b by (simp add: ws_flags_ok_def) meson
  qed
qed (use f in simp)

lemma inv_quiet:
  assumes "ws_inv lossless c" and "quiet (cf_sys c) sys"
    and "pc = cf_pc c \<or> ws_connecting (cf_pc c) \<and> ws_connecting pc \<or> ws_running (cf_pc c) \<and> (pc = WExit \<or> ws_running pc)"
    and "ws_serving pc \<longrightarrow> ws_serving (cf_pc c) \<or> \<not> ws_destroy_requested (sy_ws (cf_sys c))"
  shows "ws_inv lossless (ws_next c pc sys)"
proof -
  have f0: "ws_flags_ok (cf_pc c) (sy_ws (cf_sys c)) (sy_shut (cf_sys c))" using assms(1) by (simp add: ws_inv_def)
  have f: "ws_flags_ok pc (sy_ws sys) (sy_shut sys)"
    using flags_move [OF f0 assms(3,4)] assms(2) by (simp add: ws_flags_ok_def quiet_def)
  from assms(1) obtain opened n err closed where l: "ws_types c = ws_log opened n err closed"
    "err \<longrightarrow> ws_error_emitted (sy_ws (cf_sys c))" "closed \<longrightarrow> ws_close_emitted (sy_ws (cf_sys c))"
    "ws_connecting (cf_pc c) \<longrightarrow> \<not> opened \<and> n = 0"
    "lossless \<longrightarrow> sy_oom (cf_sys c) = [] \<and> err = ws_error_emitted (sy_ws (cf_sys c)) \<and> closed = ws_close_emitted (sy_ws (cf_sys c)) \<and>
       (ws_sockfd (sy_ws (cf_sys c)) \<longrightarrow> opened) \<and> (n > 0 \<longrightarrow> opened)"
    unfolding ws_inv_def ws_log_ok_def by (elim exE conjE)
  have p: "ws_connecting pc \<longrightarrow> ws_connecting (cf_pc c)" using assms(3) connecting_facts [of pc] by auto
  have "ws_log_ok lossless pc (sy_ws sys) (sy_oom sys) (ws_types c)"
    by (rule ws_log_okI [of _ opened n err closed]) (use l p assms(2) in \<open>simp_all add: quiet_def\<close>)
  moreover have "ws_types (ws_next c pc sys) = ws_types c" using assms(2) by (simp add: ws_types_def quiet_def)
  ultimately show ?thesis using f by (simp add: ws_inv_def)
qed

lemma inv_fail:
  assumes inv: "ws_inv lossless c" and op: "ws_open (cf_pc c)" and q: "quiet (cf_sys c) sys"
    and pc: "pc = (if ws_connecting (cf_pc c) then WDone else WExit)"
  shows "ws_inv lossless (ws_next c pc (ws_fail sys reason))"
proof -
  note o = ws_inv_open [OF inv op]
  have e: "\<not> ws_error_emitted (sy_ws sys)" and cl: "\<not> ws_close_emitted (sy_ws sys)" using o q by (simp_all add: quiet_def)
  obtain q1 q2 oom where fl: "ws_fail sys reason =
      sys\<lparr>sy_ws := (sy_ws sys)\<lparr>ws_error_emitted := True, ws_close_emitted := True, ws_connected := False,
        ws_events := ws_events (sy_ws sys) @ q1 @ q2\<rparr>, sy_oom := oom\<rparr>"
    and q1: "some_of q1 EVENT_ERROR (sy_oom sys = [])" and q2: "some_of q2 EVENT_CLOSE (sy_oom sys = [])" and oom: "sy_oom sys = [] \<longrightarrow> oom = []"
    by (rule ws_failE [OF e cl])
  let ?w = "sy_ws (ws_fail sys reason)"
  have w: "ws_error_emitted ?w" "ws_close_emitted ?w" "\<not> ws_connected ?w" "ws_sockfd ?w = ws_sockfd (sy_ws (cf_sys c))"
    using q by (simp_all add: fl quiet_def)
  have pcn: "\<not> ws_connecting pc" "\<not> ws_serving pc" by (simp_all add: pc)
  have f: "ws_flags_ok pc ?w (sy_shut (ws_fail sys reason))"
    using w o op pcn connecting_facts [of "cf_pc c"] by (auto simp: ws_flags_ok_def pc ws_open_def)
  have l0: "ws_log_ok lossless (cf_pc c) (sy_ws (cf_sys c)) (sy_oom (cf_sys c)) (ws_types c)" using inv by (simp add: ws_inv_def)
  have qo: "sy_oom (cf_sys c) = [] \<longrightarrow> sy_oom sys = []" using q by (simp add: quiet_def)
  have l1: "ws_log_ok lossless pc ((sy_ws (cf_sys c))\<lparr>ws_error_emitted := True\<rparr>) (sy_oom sys) (ws_types c @ map ev_type q1)"
    by (rule log_append [OF l0 o(1,2)]) (use q1 qo pcn o in \<open>auto simp: some_of_def\<close>)
  have l2: "ws_log_ok lossless pc ?w oom ((ws_types c @ map ev_type q1) @ map ev_type q2)"
    by (rule log_close [OF l1]) (use q2 oom pcn w o in simp_all)
  have t: "ws_types (ws_next c pc (ws_fail sys reason)) = (ws_types c @ map ev_type q1) @ map ev_type q2"
    using q by (simp add: fl ws_types_def quiet_def)
  have oo: "sy_oom (ws_fail sys reason) = oom" by (simp add: fl)
  show ?thesis using f l2 by (simp only: ws_inv_def t) (simp add: oo)
qed

lemma inv_close:
  assumes inv: "ws_inv lossless c" and op: "ws_running (cf_pc c)" and q: "quiet (cf_sys c) sys"
  shows "ws_inv lossless (ws_next c WExit (ws_enqueue_close_locked sys code reason))"
proof -
  have op': "ws_open (cf_pc c)" using op by (simp add: ws_open_def)
  note o = ws_inv_open [OF inv op']
  have cl: "\<not> ws_close_emitted (sy_ws sys)" using o q by (simp add: quiet_def)
  let ?r = "ws_enqueue_close_locked sys code reason"
  obtain q2 oom where fl: "?r =
      sys\<lparr>sy_ws := (sy_ws sys)\<lparr>ws_close_emitted := True, ws_connected := False, ws_events := ws_events (sy_ws sys) @ q2\<rparr>, sy_oom := oom\<rparr>"
    and q2: "some_of q2 EVENT_CLOSE (sy_oom sys = [])" and oom: "sy_oom sys = [] \<longrightarrow> oom = []"
    by (rule enqueue_closeE [OF cl])
  have w: "ws_close_emitted (sy_ws ?r)" "\<not> ws_connected (sy_ws ?r)" "ws_sockfd (sy_ws ?r) = ws_sockfd (sy_ws (cf_sys c))"
    "ws_error_emitted (sy_ws ?r) = ws_error_emitted (sy_ws (cf_sys c))" "sy_oom ?r = oom"
    using q by (simp_all add: fl quiet_def)
  have f: "ws_flags_ok WExit (sy_ws ?r) (sy_shut ?r)" using w o op by (auto simp: ws_flags_ok_def)
  have l0: "ws_log_ok lossless (cf_pc c) (sy_ws (cf_sys c)) (sy_oom (cf_sys c)) (ws_types c)" using inv by (simp add: ws_inv_def)
  have qo: "sy_oom (cf_sys c) = [] \<longrightarrow> sy_oom sys = []" using q by (simp add: quiet_def)
  have l2: "ws_log_ok lossless WExit (sy_ws ?r) oom (ws_types c @ map ev_type q2)"
    by (rule log_close [OF l0 o(1)]) (use q2 qo oom w in \<open>auto simp: some_of_def\<close>)
  have t: "ws_types (ws_next c WExit ?r) = ws_types c @ map ev_type q2"
    using q by (simp add: fl ws_types_def quiet_def)
  show ?thesis using f l2 by (simp only: ws_inv_def t) (simp add: w(5))
qed

lemma inv_message:
  assumes inv: "ws_inv lossless c" and op: "cf_pc c = WHandle frag fin code payload" and q: "quiet (cf_sys c) sys"
  shows "ws_inv lossless (ws_next c (WLoop frag') (ws_enqueue_locked sys EVENT_MESSAGE cd reason msg len is_text))"
proof -
  have op': "ws_open (cf_pc c)" "ws_running (cf_pc c)" using op by (simp_all add: ws_open_def)
  note o = ws_inv_open [OF inv op'(1)]
  let ?r = "ws_enqueue_locked sys EVENT_MESSAGE cd reason msg len is_text"
  obtain q2 oom where fl: "?r = sys\<lparr>sy_ws := (sy_ws sys)\<lparr>ws_events := ws_events (sy_ws sys) @ q2\<rparr>, sy_oom := oom\<rparr>"
    and q2: "some_of q2 EVENT_MESSAGE (sy_oom sys = [])" and oom: "sy_oom sys = [] \<longrightarrow> oom = []"
    by (rule enqueueE)
  have f0: "ws_flags_ok (cf_pc c) (sy_ws (cf_sys c)) (sy_shut (cf_sys c))" using inv by (simp add: ws_inv_def)
  have f: "ws_flags_ok (WLoop frag') (sy_ws ?r) (sy_shut ?r)"
    using flags_move [OF f0, of "WLoop frag'"] op' q by (auto simp: ws_flags_ok_def quiet_def fl)
  have l0: "ws_log_ok lossless (cf_pc c) (sy_ws (cf_sys c)) (sy_oom (cf_sys c)) (ws_types c)" using inv by (simp add: ws_inv_def)
  have qo: "sy_oom (cf_sys c) = [] \<longrightarrow> sy_oom sys = []" using q by (simp add: quiet_def)
  have w: "\<not> ws_close_emitted (sy_ws ?r)" "\<not> ws_error_emitted (sy_ws ?r)" using q o by (simp_all add: fl quiet_def)
  have l2: "ws_log_ok lossless (WLoop frag') (sy_ws ?r) oom (ws_types c @ map ev_type q2)"
    by (rule log_append [OF l0 o(1,2)]) (use q2 qo oom w o op' in \<open>auto simp: some_of_def\<close>)
  have t: "ws_types (ws_next c (WLoop frag') ?r) = ws_types c @ map ev_type q2"
    using q by (simp add: fl ws_types_def quiet_def)
  have oo: "sy_oom ?r = oom" by (simp add: fl)
  show ?thesis using f l2 by (simp only: ws_inv_def t) (simp add: oo)
qed

lemma inv_opened:
  assumes inv: "ws_inv lossless c" and op: "ws_connecting (cf_pc c)" and q: "quiet (cf_sys c) sys"
  shows "ws_inv lossless (ws_next c (WLoop frag)
     (ws_enqueue_locked (ws_modify (\<lambda>w. w\<lparr>ws_sockfd := True, ws_connected := True\<rparr>) sys) EVENT_OPEN cd reason msg len is_text))"
proof -
  have op': "ws_open (cf_pc c)" "\<not> ws_running (cf_pc c)" using op connecting_facts [of "cf_pc c"] by (simp_all add: ws_open_def)
  note o = ws_inv_open [OF inv op'(1)]
  let ?s = "ws_modify (\<lambda>w. w\<lparr>ws_sockfd := True, ws_connected := True\<rparr>) sys"
  let ?r = "ws_enqueue_locked ?s EVENT_OPEN cd reason msg len is_text"
  obtain q2 oom where fl: "?r = ?s\<lparr>sy_ws := (sy_ws ?s)\<lparr>ws_events := ws_events (sy_ws ?s) @ q2\<rparr>, sy_oom := oom\<rparr>"
    and q2: "some_of q2 EVENT_OPEN (sy_oom ?s = [])" and oom: "sy_oom ?s = [] \<longrightarrow> oom = []"
    by (rule enqueueE)
  have w: "\<not> ws_close_emitted (sy_ws ?r)" "\<not> ws_error_emitted (sy_ws ?r)" "ws_sockfd (sy_ws ?r)" "sy_oom ?r = oom"
    using q o by (simp_all add: fl quiet_def)
  have f: "ws_flags_ok (WLoop frag) (sy_ws ?r) (sy_shut ?r)" using w by (simp add: ws_flags_ok_def)
  have l0: "ws_log_ok lossless (cf_pc c) (sy_ws (cf_sys c)) (sy_oom (cf_sys c)) (ws_types c)" using inv by (simp add: ws_inv_def)
  have qo: "sy_oom (cf_sys c) = [] \<longrightarrow> sy_oom sys = []" using q by (simp add: quiet_def)
  have l2: "ws_log_ok lossless (WLoop frag) (sy_ws ?r) oom (ws_types c @ map ev_type q2)"
    by (rule log_append [OF l0 o(1,2)]) (use q2 qo oom w o op in \<open>auto simp: some_of_def\<close>)
  have t: "ws_types (ws_next c (WLoop frag) ?r) = ws_types c @ map ev_type q2"
    using q by (simp add: fl ws_types_def quiet_def)
  show ?thesis using f l2 by (simp only: ws_inv_def t) (simp add: w(4))
qed

lemma ws_next_next: "ws_next (ws_next c pc sys) pc' sys' = ws_next c pc' sys'"
  by simp

lemma inv_quiet_after:
  assumes "ws_inv lossless (ws_next c pc sys)" and "quiet sys sys'"
  shows "ws_inv lossless (ws_next c pc sys')"
  using inv_quiet [OF assms(1), of sys' pc] assms(2) by simp

lemma inv_exit:
  assumes inv: "ws_inv lossless c" and op: "cf_pc c = WExit"
  shows "ws_inv lossless (ws_next c WDone (ws_exit (cf_sys c)))"
proof (cases "ws_close_emitted (sy_ws (cf_sys c))")
  case True
  let ?w = "sy_ws (cf_sys c)"
  have r: "ws_exit (cf_sys c) = (cf_sys c)\<lparr>sy_ws := ?w\<lparr>ws_connected := False, ws_sockfd := False\<rparr>\<rparr>"
    using True by (cases "cf_sys c") (simp add: ws_exit_def ws_enqueue_close_locked_def)
  have f: "ws_flags_ok WDone (sy_ws (ws_exit (cf_sys c))) (sy_shut (ws_exit (cf_sys c)))"
    using True by (simp add: r ws_flags_ok_def)
  from inv obtain opened n err closed where l: "ws_types c = ws_log opened n err closed"
    "err \<longrightarrow> ws_error_emitted ?w" "closed \<longrightarrow> ws_close_emitted ?w" "ws_connecting (cf_pc c) \<longrightarrow> \<not> opened \<and> n = 0"
    "lossless \<longrightarrow> sy_oom (cf_sys c) = [] \<and> err = ws_error_emitted ?w \<and> closed = ws_close_emitted ?w \<and>
       (ws_sockfd ?w \<longrightarrow> opened) \<and> (n > 0 \<longrightarrow> opened)"
    unfolding ws_inv_def ws_log_ok_def by (elim exE conjE)
  have "ws_log_ok lossless WDone (sy_ws (ws_exit (cf_sys c))) (sy_oom (ws_exit (cf_sys c))) (ws_types c)"
    by (rule ws_log_okI [of _ opened n err closed]) (use l in \<open>simp_all add: r\<close>)
  moreover have "ws_types (ws_next c WDone (ws_exit (cf_sys c))) = ws_types c" by (simp add: ws_types_def r)
  ultimately show ?thesis using f by (simp add: ws_inv_def)
next
  case False
  let ?s = "ws_modify (ws_connected_update (\<lambda>_. False)) (cf_sys c)"
  have cl: "\<not> ws_close_emitted (sy_ws ?s)" using False by simp
  obtain q2 oom where fl: "ws_enqueue_close_locked ?s 1006 ''connection closed'' =
      ?s\<lparr>sy_ws := (sy_ws ?s)\<lparr>ws_close_emitted := True, ws_connected := False, ws_events := ws_events (sy_ws ?s) @ q2\<rparr>, sy_oom := oom\<rparr>"
    and q2: "some_of q2 EVENT_CLOSE (sy_oom ?s = [])" and oom: "sy_oom ?s = [] \<longrightarrow> oom = []"
    by (rule enqueue_closeE [OF cl])
  let ?r = "ws_exit (cf_sys c)"
  have r: "ws_close_emitted (sy_ws ?r)" "\<not> ws_connected (sy_ws ?r)" "\<not> ws_sockfd (sy_ws ?r)" "sy_oom ?r = oom"
    "ws_error_emitted (sy_ws ?r) = ws_error_emitted (sy_ws (cf_sys c))"
    "ws_events (sy_ws ?r) = ws_events (sy_ws (cf_sys c)) @ q2" "sy_shut ?r = sy_shut (cf_sys c)"
    by (simp_all add: ws_exit_def fl)
  have e: "\<not> ws_error_emitted (sy_ws (cf_sys c))" using inv False by (auto simp: ws_inv_def ws_flags_ok_def)
  have f: "ws_flags_ok WDone (sy_ws ?r) (sy_shut ?r)" using r e by (simp add: ws_flags_ok_def)
  have l0: "ws_log_ok lossless (cf_pc c) (sy_ws (cf_sys c)) (sy_oom (cf_sys c)) (ws_types c)" using inv by (simp add: ws_inv_def)
  have l2: "ws_log_ok lossless WDone (sy_ws ?r) oom (ws_types c @ map ev_type q2)"
    by (rule log_close [OF l0 False]) (use q2 oom r in simp_all)
  have t: "ws_types (ws_next c WDone ?r) = ws_types c @ map ev_type q2" by (simp add: r ws_types_def)
  show ?thesis using f l2 by (simp only: ws_inv_def t) (simp add: r)
qed

text \<open>The steps of the worker.\<close>

lemma inv_connect:
  assumes inv: "ws_inv lossless c" and op: "cf_pc c = WInit" and s: "ws_connect os (cf_sys c) = Some (pc, sys)"
  shows "ws_inv lossless (ws_next c pc sys)"
proof -
  have o: "ws_open (cf_pc c)" by (simp add: op ws_open_def)
  have fail: "ws_inv lossless (ws_next c WDone (ws_fail (cf_sys c) reason))" for reason
    by (rule inv_fail [OF inv o quiet_refl]) (simp add: op)
  obtain ok url where u: "ws_parse_url (ws_url_text (sy_ws (cf_sys c))) = Some (ok, url)"
    using s by (auto simp: ws_connect_def split: Option.bind_splits)
  show ?thesis
  proof (cases "ok \<and> os_lookup os (wu_host url) (wu_port url) \<and> os_socket os \<and> os_connect os (wu_host url) (wu_port url)")
    case True
    then have e: "pc = WHandshake url" "sys = cf_sys c" using s u by (simp_all add: ws_connect_def)
    show ?thesis unfolding e by (rule inv_quiet [OF inv quiet_refl]) (simp_all add: op)
  next
    case False
    then obtain reason where "pc = WDone" "sys = ws_fail (cf_sys c) reason" using s u by (auto simp: ws_connect_def split: if_splits)
    then show ?thesis using fail by simp
  qed
qed

lemma inv_upgrade:
  assumes inv: "ws_inv lossless c" and op: "cf_pc c = WHandshake url" and s: "ws_upgrade os url (cf_sys c) = Some (pc, sys)"
  shows "ws_inv lossless (ws_next c pc sys)"
proof -
  have o: "ws_open (cf_pc c)" and cn: "ws_connecting (cf_pc c)" by (simp_all add: op ws_open_def)
  obtain ok net where h: "ws_do_handshake (os_recv os) (os_send os) (os_word_bytes os) (os_junk os) (os_now os) url (sy_net (cf_sys c)) = Some (ok, net)"
    using s by (auto simp: ws_upgrade_def split: Option.bind_splits)
  show ?thesis
  proof (cases ok)
    case False
    have e: "pc = WDone" "sys = ws_fail ((cf_sys c)\<lparr>sy_net := net\<rparr>) ''handshake failed''" using s h False by (simp_all add: ws_upgrade_def)
    show ?thesis unfolding e by (rule inv_fail [OF inv o quiet_net]) (simp add: op)
  next
    case True
    let ?s = "ws_enqueue_locked (ws_modify (\<lambda>w. w\<lparr>ws_sockfd := True, ws_connected := True\<rparr>) ((cf_sys c)\<lparr>sy_net := net\<rparr>)) EVENT_OPEN 0 [] [] 0 False"
    have e: "pc = WLoop ws_frag_empty"
      "sys = (if ws_close_requested (sy_ws ?s) then ws_send_close_frame_locked os ?s (ws_close_code (sy_ws ?s)) (ws_close_reason (sy_ws ?s)) else ?s)"
      using s h True by (simp_all add: ws_upgrade_def Let_def)
    have "quiet ?s sys" using e(2) quiet_close_frame [of ?s os] by (cases "ws_close_requested (sy_ws ?s)") simp_all
    with inv_opened [OF inv cn quiet_net] show ?thesis unfolding e(1) by (rule inv_quiet_after)
  qed
qed

lemma inv_handle:
  assumes inv: "ws_inv lossless c" and op: "cf_pc c = WHandle frag fin code payload"
    and s: "ws_handle_frame os (cf_sys c) frag fin code payload = (pc, sys)"
  shows "ws_inv lossless (ws_next c pc sys)"
proof -
  have o: "ws_open (cf_pc c)" and r: "ws_running (cf_pc c)" and b: "ws_serving (cf_pc c)" and ni: "\<not> ws_connecting (cf_pc c)"
    using op by (simp_all add: ws_open_def)
  have loop: "ws_inv lossless (ws_next c (WLoop g) t)" if "quiet (cf_sys c) t" for g t
    by (rule inv_quiet [OF inv that]) (use r in simp_all)
  consider "code = 9" | "code = 10" | "code = 8" | "code = 1 \<or> code = 2 \<or> code = 0"
    | "code \<noteq> 9" "code \<noteq> 10" "code \<noteq> 8" "\<not> (code = 1 \<or> code = 2 \<or> code = 0)" by blast
  then show ?thesis
  proof cases
    case 1
    then have e: "pc = WLoop frag" "sys = snd (ws_send_frame_locked os (cf_sys c) payload 10)"
      using s by (simp_all add: ws_handle_frame_def)
    show ?thesis unfolding e by (rule loop [OF quiet_send])
  next
    case 2
    then have e: "pc = WLoop frag" "sys = cf_sys c" using s by (simp_all add: ws_handle_frame_def)
    show ?thesis unfolding e by (rule loop) simp
  next
    case 3
    then have e: "pc = WExit" "sys = ws_enqueue_close_locked (snd (ws_send_frame_locked os (cf_sys c) [] 8))
        (fst (ws_close_info (sy_ws (cf_sys c)) payload)) (snd (ws_close_info (sy_ws (cf_sys c)) payload))"
      using s by (simp_all add: ws_handle_frame_def Let_def split: prod.splits)
    show ?thesis unfolding e by (rule inv_close [OF inv r quiet_send])
  next
    case 4
    let ?f = "if code \<noteq> 0 then frag\<lparr>fr_text := (code = 1), fr_data := []\<rparr> else frag"
    let ?data = "fr_data ?f @ payload"
    let ?cap = "if length ?data > fr_cap ?f then length ?data + 4096 else fr_cap ?f"
    obtain ok sys1 where a: "(if length ?data > fr_cap ?f then ws_alloc (cf_sys c) else (True, cf_sys c)) = (ok, sys1)"
      by (cases "if length ?data > fr_cap ?f then ws_alloc (cf_sys c) else (True, cf_sys c)")
    have q: "quiet (cf_sys c) sys1" by (rule quiet_alloc_if [OF a])
    have n: "code \<noteq> 9" "code \<noteq> 10" "code \<noteq> 8" using 4 by auto
    have e: "(pc, sys) = (if \<not> ok then (WExit, ws_fail sys1 ''receive failed'')
            else if fin then
              (WLoop (?f\<lparr>fr_data := [], fr_cap := ?cap\<rparr>),
               ws_enqueue_locked sys1 EVENT_MESSAGE 0 [] ?data (c_int_of_size (length ?data)) (fr_text ?f))
            else (WLoop (?f\<lparr>fr_data := ?data, fr_cap := ?cap\<rparr>), sys1))"
      unfolding s [symmetric] ws_handle_frame_def Let_def a using n 4 by (simp only: if_False if_True prod.case)
    consider "\<not> ok" | "ok" "fin" | "ok" "\<not> fin" by blast
    then show ?thesis
    proof cases
      case 1
      then have e': "pc = WExit" "sys = ws_fail sys1 ''receive failed''" using e by simp_all
      show ?thesis unfolding e' by (rule inv_fail [OF inv o q]) (simp add: op)
    next
      case 2
      then have e': "pc = WLoop (?f\<lparr>fr_data := [], fr_cap := ?cap\<rparr>)"
        "sys = ws_enqueue_locked sys1 EVENT_MESSAGE 0 [] ?data (c_int_of_size (length ?data)) (fr_text ?f)" using e by simp_all
      show ?thesis unfolding e' by (rule inv_message [OF inv op q])
    next
      case 3
      then have e': "pc = WLoop (?f\<lparr>fr_data := ?data, fr_cap := ?cap\<rparr>)" "sys = sys1" using e by simp_all
      show ?thesis unfolding e' by (rule loop [OF q])
    qed
  next
    case 5
    then have e: "pc = WLoop frag" "sys = cf_sys c" using s by (auto simp: ws_handle_frame_def)
    show ?thesis unfolding e by (rule loop) simp
  qed
qed

lemma inv_wait:
  assumes inv: "ws_inv lossless c" and op: "cf_pc c = WWait frag" and s: "ws_worker_step os (WWait frag) (cf_sys c) = Some (pc, sys)"
  shows "ws_inv lossless (ws_next c pc sys)"
proof -
  obtain r net where sel: "os_select os (sy_net (cf_sys c)) = (r, net)" by (cases "os_select os (sy_net (cf_sys c))")
  let ?s = "(cf_sys c)\<lparr>sy_net := net\<rparr>"
  show ?thesis
  proof (cases r)
    case SelectReady
    then have e: "pc = WRead frag" "sys = ?s" using s sel by simp_all
    show ?thesis unfolding e by (rule inv_quiet [OF inv quiet_net]) (simp_all add: op)
  next
    case SelectInterrupted
    then have e: "pc = WLoop frag" "sys = ?s" using s sel by simp_all
    show ?thesis unfolding e by (rule inv_quiet [OF inv quiet_net]) (simp_all add: op)
  next
    case SelectFailed
    then have e: "pc = WExit" "sys = ws_fail ?s ''select failed''" using s sel by simp_all
    show ?thesis unfolding e by (rule inv_fail [OF inv _ quiet_net]) (simp_all add: op ws_open_def)
  qed
qed

lemma inv_read:
  assumes inv: "ws_inv lossless c" and op: "cf_pc c = WRead frag" and s: "ws_worker_step os (WRead frag) (cf_sys c) = Some (pc, sys)"
  shows "ws_inv lossless (ws_next c pc sys)"
proof -
  obtain mem_ok sys1 where a: "ws_alloc (cf_sys c) = (mem_ok, sys1)" by (cases "ws_alloc (cf_sys c)")
  obtain r net where rd: "ws_read_frame (os_recv os) mem_ok (sy_net sys1) = (r, net)"
    by (cases "ws_read_frame (os_recv os) mem_ok (sy_net sys1)")
  let ?s = "sys1\<lparr>sy_net := net\<rparr>"
  have q: "quiet (cf_sys c) ?s" by (rule quiet_net_eq [OF quiet_alloc [OF a]])
  show ?thesis
  proof (cases r)
    case (ReadFrame fin code payload)
    then have e: "pc = WHandle frag fin code payload" "sys = ?s" using s a rd by (simp_all add: Let_def)
    show ?thesis unfolding e by (rule inv_quiet [OF inv q]) (simp_all add: op)
  next
    case ReadClosed
    let ?w = "sy_ws ?s"
    have e: "pc = WExit" "sys = ws_enqueue_close_locked ?s (if ws_close_requested ?w then ws_close_code ?w else 1006)
              (if ws_close_requested ?w then ws_close_reason ?w else ''connection closed'')"
      using s a rd ReadClosed by (simp_all add: Let_def)
    show ?thesis unfolding e by (rule inv_close [OF inv _ q]) (simp add: op)
  next
    case ReadError
    then have e: "pc = WExit" "sys = ws_fail ?s ''receive failed''" using s a rd by (simp_all add: Let_def)
    show ?thesis unfolding e by (rule inv_fail [OF inv _ q]) (simp_all add: op ws_open_def)
  qed
qed

lemma inv_worker:
  assumes inv: "ws_inv lossless c" and s: "ws_worker_step os (cf_pc c) (cf_sys c) = Some (pc, sys)"
  shows "ws_inv lossless (ws_next c pc sys)"
proof (cases "cf_pc c")
  case WInit
  then show ?thesis using s inv_connect [OF inv WInit] by simp
next
  case (WHandshake url)
  then show ?thesis using s inv_upgrade [OF inv WHandshake] by simp
next
  case (WLoop frag)
  then have e: "sys = cf_sys c" "pc = (if ws_destroy_requested (sy_ws (cf_sys c)) then WExit else WWait frag)"
    using s by (auto split: if_splits)
  show ?thesis unfolding e by (rule inv_quiet [OF inv]) (simp_all add: WLoop)
next
  case (WWait frag)
  then show ?thesis using s inv_wait [OF inv WWait] by metis
next
  case (WRead frag)
  then show ?thesis using s inv_read [OF inv WRead] by metis
next
  case (WHandle frag fin code payload)
  then show ?thesis using s inv_handle [OF inv WHandle, of os pc sys] by simp
next
  case WExit
  then show ?thesis using s inv_exit [OF inv WExit] by simp
next
  case WDone
  then show ?thesis using s by simp
qed

text \<open>The steps of the application.\<close>

lemma inv_client:
  assumes inv: "ws_inv lossless c" and q: "quiet (cf_sys c) sys"
  shows "ws_inv lossless (c\<lparr>cf_sys := sys\<rparr>)"
  using inv_quiet [OF inv q, of "cf_pc c"] by simp

lemma inv_poll:
  assumes inv: "ws_inv lossless c" and p: "websocket_poll_one (cf_sys c) = (Some (ev, called), sys)"
  shows "ws_inv lossless (c\<lparr>cf_sys := sys, cf_heard := cf_heard c @ [ev]\<rparr>)"
proof -
  obtain q where q: "ws_events (sy_ws (cf_sys c)) = ev # q" "sys = ws_modify (ws_events_update (\<lambda>_. q)) (cf_sys c)"
    using p by (auto simp: websocket_poll_one_def split: list.splits)
  have t: "ws_types (c\<lparr>cf_sys := sys, cf_heard := cf_heard c @ [ev]\<rparr>) = ws_types c" using q by (simp add: ws_types_def)
  show ?thesis using inv unfolding ws_inv_def t by (simp add: q(2) ws_flags_ok_def ws_log_ok_def)
qed

lemma flags_destroy:
  assumes "ws_flags_ok pc w shut"
  shows "ws_flags_ok pc (w\<lparr>ws_destroy_requested := True\<rparr>) (shut \<or> ws_sockfd w)"
proof -
  have "ws_serving pc \<Longrightarrow> ws_running pc" by (cases pc) simp_all
  with assms show ?thesis unfolding ws_flags_ok_def by simp blast
qed

lemma inv_destroy:
  assumes inv: "ws_inv lossless c"
  shows "ws_inv lossless (c\<lparr>cf_sys := websocket_destroy_mark (cf_sys c)\<rparr>)"
proof -
  let ?s = "cf_sys c" and ?t = "websocket_destroy_mark (cf_sys c)"
  have t: "?t = ?s\<lparr>sy_ws := (sy_ws ?s)\<lparr>ws_destroy_requested := True\<rparr>, sy_shut := sy_shut ?s \<or> ws_sockfd (sy_ws ?s)\<rparr>"
    by (simp add: websocket_destroy_mark_def Let_def)
  have "ws_flags_ok (cf_pc c) (sy_ws ?s) (sy_shut ?s)" using inv by (simp add: ws_inv_def)
  from flags_destroy [OF this] have "ws_flags_ok (cf_pc c) (sy_ws ?t) (sy_shut ?t)" unfolding t by simp
  moreover have "ws_types (c\<lparr>cf_sys := ?t\<rparr>) = ws_types c" by (simp add: ws_types_def t)
  ultimately show ?thesis using inv by (simp add: ws_inv_def ws_log_ok_def t)
qed

lemma inv_step: "ws_inv lossless c \<Longrightarrow> ws_step os c d \<Longrightarrow> ws_inv lossless d"
  by (erule ws_stepE)
    (simp_all add: inv_worker inv_poll inv_destroy inv_client quiet_close quiet_text quiet_binary)

lemma inv_reach: "ws_reach os c d \<Longrightarrow> ws_inv lossless c \<Longrightarrow> ws_inv lossless d"
  by (induction rule: ws_reach.induct) (auto intro: inv_step)

lemma inv_reach_start: "ws_reach os (ws_start url callbacks rng net oom) c \<Longrightarrow> ws_inv (oom = []) c"
  by (rule inv_reach [OF _ ws_inv_start])

section \<open>What the application sees\<close>

text \<open>A small operating system for concrete runs: a socket, and lookups and connections that succeed.\<close>

definition net_os :: "bool \<Rightarrow> net_sock ws_os" where
  "net_os found = \<lparr>os_recv = net_recv, os_send = net_send, os_lookup = (\<lambda>host port. found), os_socket = True,
     os_connect = (\<lambda>host port. True), os_select = (\<lambda>s. (SelectReady, s)), os_now = 1, os_word_bytes = (\<lambda>w. [0, 0, 0, 0]),
     os_junk = []\<rparr>"

abbreviation lost_start :: "net_sock ws_conf" where
  "lost_start \<equiv> ws_start ''ws://a/'' (\<lambda>_. True) 1 \<lparr>ns_in = [], ns_out = [], ns_room = []\<rparr> []"

text \<open>The run in which the host is not found: an error event and a close event.\<close>

lemma lost_run:
  "\<exists>sys. ws_reach (net_os False) lost_start (lost_start\<lparr>cf_pc := WDone, cf_sys := sys\<rparr>) \<and>
     map ev_type (ws_events (sy_ws sys)) = [EVENT_ERROR, EVENT_CLOSE]"
proof -
  have "case ws_worker_step (net_os False) (cf_pc lost_start) (cf_sys lost_start) of None \<Rightarrow> False
      | Some (pc, sys) \<Rightarrow> pc = WDone \<and> map ev_type (ws_events (sy_ws sys)) = [EVENT_ERROR, EVENT_CLOSE]"
    by code_simp
  then obtain sys where s: "ws_worker_step (net_os False) (cf_pc lost_start) (cf_sys lost_start) = Some (WDone, sys)"
    and t: "map ev_type (ws_events (sy_ws sys)) = [EVENT_ERROR, EVENT_CLOSE]"
    by (auto split: option.splits)
  show ?thesis
    by (intro exI [of _ sys] conjI ws_reach_step [OF ws_reach_refl] ws_step.worker s t)
qed

text \<open>
  C5. Whatever the server and the network do, whichever allocations fail and however the calls of
  the application and the steps of the worker interleave, the events polled so far followed by those
  still queued are at most one open event, then messages, then at most one error event, then at most
  one close event: no message before the open event or after an error, and nothing after the close
  event.
\<close>

theorem ws_event_order:
  assumes "ws_reach os (ws_start url callbacks rng net oom) c"
  shows "\<exists>opened n err closed. map ev_type (cf_heard c @ ws_events (sy_ws (cf_sys c))) =
     (if opened then [EVENT_OPEN] else []) @ replicate n EVENT_MESSAGE @
     (if err then [EVENT_ERROR] else []) @ (if closed then [EVENT_CLOSE] else [])"
  using inv_reach_start [OF assms] unfolding ws_inv_def ws_log_ok_def ws_types_def ws_log_def by (elim conjE exE) (intro exI)

theorem ws_event_order_witness:
  "\<exists>sys :: net_sock ws_sys. ws_events (sy_ws sys) \<noteq> [] \<and> (\<exists>opened n err closed. map ev_type (ws_events (sy_ws sys)) =
     (if opened then [EVENT_OPEN] else []) @ replicate n EVENT_MESSAGE @
     (if err then [EVENT_ERROR] else []) @ (if closed then [EVENT_CLOSE] else []))"
proof -
  obtain sys where s: "ws_reach (net_os False) lost_start (lost_start\<lparr>cf_pc := WDone, cf_sys := sys\<rparr>)"
    "map ev_type (ws_events (sy_ws sys)) = [EVENT_ERROR, EVENT_CLOSE]" using lost_run by (elim exE conjE)
  then have "ws_events (sy_ws sys) \<noteq> []" by auto
  moreover from ws_event_order [OF s(1)] have "\<exists>opened n err closed. map ev_type (ws_events (sy_ws sys)) =
     (if opened then [EVENT_OPEN] else []) @ replicate n EVENT_MESSAGE @
     (if err then [EVENT_ERROR] else []) @ (if closed then [EVENT_CLOSE] else [])" by (simp add: ws_start_def)
  ultimately show ?thesis by (intro exI [of _ sys] conjI)
qed

text \<open>
  C16. When no allocation fails, a worker that has ended has told the application exactly how: the log
  ends with the close event, an error event is there exactly when the error flag was raised, and a
  connection that delivered a message has reported that it was opened.
\<close>

theorem ws_event_log_complete:
  assumes "ws_reach os (ws_start url callbacks rng net []) c" and "cf_pc c = WDone"
  shows "\<exists>opened n. map ev_type (cf_heard c @ ws_events (sy_ws (cf_sys c))) =
     (if opened then [EVENT_OPEN] else []) @ replicate n EVENT_MESSAGE @
     (if ws_error_emitted (sy_ws (cf_sys c)) then [EVENT_ERROR] else []) @ [EVENT_CLOSE] \<and> (n > 0 \<longrightarrow> opened)"
proof -
  have i: "ws_inv True c" using inv_reach_start [OF assms(1)] by simp
  then have cl: "ws_close_emitted (sy_ws (cf_sys c))" using assms(2) by (simp add: ws_inv_def ws_flags_ok_def)
  from i obtain opened n where "ws_types c = ws_log opened n (ws_error_emitted (sy_ws (cf_sys c))) True" "n > 0 \<longrightarrow> opened"
    using cl by (auto simp: ws_inv_def ws_log_ok_def)
  then show ?thesis unfolding ws_types_def ws_log_def by (intro exI [of _ opened] exI [of _ n]) simp
qed

theorem ws_event_log_complete_witness:
  "\<exists>sys :: net_sock ws_sys. map ev_type (ws_events (sy_ws sys)) = [EVENT_ERROR, EVENT_CLOSE] \<and> (\<exists>opened n. map ev_type (ws_events (sy_ws sys)) =
     (if opened then [EVENT_OPEN] else []) @ replicate n EVENT_MESSAGE @
     (if ws_error_emitted (sy_ws sys) then [EVENT_ERROR] else []) @ [EVENT_CLOSE] \<and> (n > 0 \<longrightarrow> opened))"
proof -
  obtain sys where s: "ws_reach (net_os False) lost_start (lost_start\<lparr>cf_pc := WDone, cf_sys := sys\<rparr>)"
    "map ev_type (ws_events (sy_ws sys)) = [EVENT_ERROR, EVENT_CLOSE]" using lost_run by (elim exE conjE)
  from ws_event_log_complete [OF s(1)] have "\<exists>opened n. map ev_type (ws_events (sy_ws sys)) =
     (if opened then [EVENT_OPEN] else []) @ replicate n EVENT_MESSAGE @
     (if ws_error_emitted (sy_ws sys) then [EVENT_ERROR] else []) @ [EVENT_CLOSE] \<and> (n > 0 \<longrightarrow> opened)"
    by (simp add: ws_start_def)
  with s(2) show ?thesis by (intro exI [of _ sys] conjI)
qed

section \<open>Destruction\<close>


text \<open>A server that answers the handshake and then nothing; the worker connects, waits, and is asked to end.\<close>

abbreviation open_start :: "net_sock ws_conf" where
  "open_start \<equiv> ws_start ''ws://a/'' (\<lambda>_. True) 1 \<lparr>ns_in = [chars_bytes plain_answer], ns_out = [], ns_room = []\<rparr> []"

lemma open_connected: "ws_worker_step (net_os True) WInit (cf_sys open_start) = Some (WHandshake \<lparr>wu_host = ''a'', wu_path = ''/'', wu_port = 80\<rparr>, cf_sys open_start)"
proof -
  have "ws_parse_url ''ws://a/'' = Some (True, \<lparr>wu_host = ''a'', wu_path = ''/'', wu_port = 80\<rparr>)" by code_simp
  then show ?thesis by (simp add: ws_connect_def ws_start_def websocket_init_def net_os_def)
qed

lemma open_in_handshake: "ws_reach (net_os True) open_start (open_start\<lparr>cf_pc := WHandshake \<lparr>wu_host = ''a'', wu_path = ''/'', wu_port = 80\<rparr>\<rparr>)"
  using ws_reach_step [OF ws_reach_refl ws_step.worker, of "net_os True" open_start] open_connected by (simp add: ws_start_def)



text \<open>The same server, and destruction before the handshake is over: the worker is in the handshake and its socket is not shut down.\<close>

lemma ws_destroy_misses_handshake:
  "\<exists>d url. ws_reach (net_os True) open_start d \<and> cf_pc d = WHandshake url \<and> ws_destroy_requested (sy_ws (cf_sys d)) \<and> \<not> sy_shut (cf_sys d)"
proof -
  let ?c = "open_start\<lparr>cf_pc := WHandshake \<lparr>wu_host = ''a'', wu_path = ''/'', wu_port = 80\<rparr>\<rparr>"
  have n: "\<not> ws_destroy_requested (sy_ws (cf_sys ?c))" by (simp add: ws_start_def websocket_init_def)
  let ?d = "?c\<lparr>cf_sys := websocket_destroy_mark (cf_sys ?c)\<rparr>"
  have "ws_reach (net_os True) open_start ?d" by (rule ws_reach_step [OF open_in_handshake ws_step.client_destroy [OF n]])
  moreover have "cf_pc ?d = WHandshake \<lparr>wu_host = ''a'', wu_path = ''/'', wu_port = 80\<rparr>" "ws_destroy_requested (sy_ws (cf_sys ?d))" "\<not> sy_shut (cf_sys ?d)"
    by (simp_all add: ws_start_def websocket_init_def websocket_destroy_mark_def Let_def)
  ultimately show ?thesis by blast
qed

text \<open>The worker on its own, for a number of steps.\<close>

fun ws_run :: "nat \<Rightarrow> 's ws_os \<Rightarrow> ws_pc \<Rightarrow> 's ws_sys \<Rightarrow> ws_pc \<times> 's ws_sys" where
  "ws_run 0 os pc sys = (pc, sys)"
| "ws_run (Suc n) os pc sys = (case ws_worker_step os pc sys of None \<Rightarrow> (pc, sys) | Some (pc', sys') \<Rightarrow> ws_run n os pc' sys')"

lemma ws_run_add: "ws_run (m + n) os pc sys = ws_run n os (fst (ws_run m os pc sys)) (snd (ws_run m os pc sys))"
proof (induction m arbitrary: pc sys)
  case (Suc m)
  have stuck: "ws_worker_step os pc sys = None \<Longrightarrow> ws_run n os pc sys = (pc, sys)" for n by (cases n) simp_all
  show ?case using stuck Suc by (cases "ws_worker_step os pc sys") (simp_all split: prod.split)
qed simp

fun ws_rank :: "ws_pc \<Rightarrow> nat" where
  "ws_rank WDone = 0"
| "ws_rank WExit = 1"
| "ws_rank (WLoop _) = 2"
| "ws_rank (WHandle _ _ _ _) = 3"
| "ws_rank (WRead _) = 4"
| "ws_rank (WWait _) = 5"
| "ws_rank (WHandshake _) = 3"
| "ws_rank WInit = 4"

lemma ws_close_destroy [simp]: "ws_destroy_requested (sy_ws (ws_send_close_frame_locked os sys code reason)) = ws_destroy_requested (sy_ws sys)"
  using quiet_close_frame [of sys os code reason] by (simp add: quiet_def)

lemma ws_enqueue_destroy [simp]:
  "ws_destroy_requested (sy_ws (ws_enqueue_locked sys ty code reason msg len is_text)) = ws_destroy_requested (sy_ws sys)"
proof -
  obtain q oom where "ws_enqueue_locked sys ty code reason msg len is_text =
      sys\<lparr>sy_ws := (sy_ws sys)\<lparr>ws_events := ws_events (sy_ws sys) @ q\<rparr>, sy_oom := oom\<rparr>" by (rule enqueueE)
  then show ?thesis by simp
qed

lemma ws_enqueue_close_destroy [simp]:
  "ws_destroy_requested (sy_ws (ws_enqueue_close_locked sys code reason)) = ws_destroy_requested (sy_ws sys)"
  by (simp add: ws_enqueue_close_locked_def)

lemma ws_fail_destroy [simp]: "ws_destroy_requested (sy_ws (ws_fail sys reason)) = ws_destroy_requested (sy_ws sys)"
  by (simp add: ws_fail_def ws_enqueue_error_locked_def)

lemma ws_handle_rank:
  "ws_handle_frame os sys frag fin code payload = (pc, sys') \<Longrightarrow>
     ws_rank pc \<le> 2 \<and> ws_destroy_requested (sy_ws sys') = ws_destroy_requested (sy_ws sys)"
proof -
  assume s: "ws_handle_frame os sys frag fin code payload = (pc, sys')"
  obtain ok sys1 where a: "(if length (fr_data (if code \<noteq> 0 then frag\<lparr>fr_text := (code = 1), fr_data := []\<rparr> else frag) @ payload) >
      fr_cap (if code \<noteq> 0 then frag\<lparr>fr_text := (code = 1), fr_data := []\<rparr> else frag) then ws_alloc sys else (True, sys)) = (ok, sys1)"
    by fastforce
  have q: "ws_destroy_requested (sy_ws sys1) = ws_destroy_requested (sy_ws sys)"
    using quiet_alloc_if [OF a] by (simp add: quiet_def)
  have snd: "ws_destroy_requested (sy_ws (snd (ws_send_frame_locked os sys data opc))) = ws_destroy_requested (sy_ws sys)" for data opc
    using quiet_send [of sys os data opc] by (simp add: quiet_def)
  show ?thesis using s q unfolding ws_handle_frame_def Let_def a
    by (auto simp: snd split: if_splits prod.splits)
qed

lemma ws_rank_step:
  assumes "ws_worker_step os pc sys = Some (pc', sys')" and "ws_destroy_requested (sy_ws sys)"
  shows "ws_rank pc' < ws_rank pc \<and> (pc' = WDone \<or> ws_destroy_requested (sy_ws sys'))"
proof (cases pc)
  case WInit
  then show ?thesis using assms by (auto simp: ws_connect_def split: Option.bind_splits if_splits prod.splits)
next
  case (WHandshake url)
  then show ?thesis using assms by (auto simp: ws_upgrade_def Let_def split: Option.bind_splits if_splits prod.splits)
next
  case (WRead frag)
  obtain mem_ok sys1 where a: "ws_alloc sys = (mem_ok, sys1)" by (cases "ws_alloc sys")
  have "ws_destroy_requested (sy_ws sys1)" using quiet_alloc [OF a] assms(2) by (simp add: quiet_def)
  then show ?thesis using assms WRead by (auto simp: a Let_def split: prod.splits ws_read.splits)
next
  case (WHandle frag fin code payload)
  then show ?thesis using assms ws_handle_rank [of os sys frag fin code payload pc' sys'] by simp
qed (use assms in \<open>auto simp: Let_def split: prod.splits ws_select.splits\<close>)

text \<open>
  A step that is not defined: the worker is done, the port of its URL is no \<^verbatim>\<open>int\<close>, or the request does not fit its
  buffer, which it does for every URL that the parser gives.
\<close>

definition ws_defined :: "'s ws_os \<Rightarrow> ws_pc \<Rightarrow> 's ws_sys \<Rightarrow> bool" where
  "ws_defined os pc sys \<longleftrightarrow> (\<forall>w. length (os_word_bytes os w) = 4) \<and>
     (pc = WInit \<longrightarrow> ws_parse_url (ws_url_text (sy_ws sys)) \<noteq> None) \<and> (\<forall>u. pc = WHandshake u \<longrightarrow> ws_url_ok u)"

lemma ws_step_defined:
  assumes "ws_defined os pc sys" and "pc \<noteq> WDone"
  obtains pc' sys' where "ws_worker_step os pc sys = Some (pc', sys')" "ws_defined os pc' sys'"
proof -
  have "\<exists>pc' sys'. ws_worker_step os pc sys = Some (pc', sys') \<and> ws_defined os pc' sys'"
  proof (cases pc)
    case WInit
    then obtain ok u where "ws_parse_url (ws_url_text (sy_ws sys)) = Some (ok, u)" using assms(1) by (auto simp: ws_defined_def)
    then show ?thesis using WInit assms(1) ws_parse_url_ok by (auto simp: ws_connect_def ws_defined_def)
  next
    case (WHandshake u)
    then have "length (ws_request u (ws_make_key (os_word_bytes os) (os_now os))) < 1024"
      using assms(1) ws_request_fits [OF _ length_ws_make_key] by (simp add: ws_defined_def)
    then obtain r where "ws_do_handshake (os_recv os) (os_send os) (os_word_bytes os) (os_junk os) (os_now os) u (sy_net sys) = Some r"
      by (simp add: ws_do_handshake_def Let_def)
    then show ?thesis using WHandshake assms(1) by (cases r) (auto simp: ws_upgrade_def ws_defined_def Let_def)
  next
    case (WHandle frag fin code payload)
    obtain p s where r: "ws_handle_frame os sys frag fin code payload = (p, s)" by fastforce
    then have "ws_rank p \<le> 2" using ws_handle_rank by blast
    then show ?thesis using WHandle assms(1) r by (cases p) (auto simp: ws_defined_def)
  qed (use assms in \<open>auto simp: ws_defined_def Let_def split: prod.splits ws_select.splits ws_read.splits\<close>)
  then show thesis using that by blast
qed

lemma ws_run_ends:
  assumes "ws_destroy_requested (sy_ws sys)" and "ws_defined os pc sys" and "ws_rank pc \<le> n"
  shows "fst (ws_run n os pc sys) = WDone"
  using assms
proof (induction n arbitrary: pc sys)
  case 0
  then show ?case by (cases pc) simp_all
next
  case (Suc n)
  show ?case
  proof (cases "pc = WDone")
    case False
    obtain pc' sys' where s: "ws_worker_step os pc sys = Some (pc', sys')" "ws_defined os pc' sys'" by (rule ws_step_defined [OF Suc.prems(2) False])
    have k: "ws_rank pc' < ws_rank pc" "pc' = WDone \<or> ws_destroy_requested (sy_ws sys')" using ws_rank_step [OF s(1) Suc.prems(1)] by simp_all
    have "fst (ws_run n os pc' sys') = WDone"
    proof (cases "pc' = WDone")
      case True
      then show ?thesis by (cases n) simp_all
    qed (use Suc.IH [of sys' pc'] k s(2) Suc.prems(3) in simp)
    then show ?thesis by (simp add: s(1))
  qed simp
qed

text \<open>
  C17. After \<^verbatim>\<open>websocket_destroy\<close> has set its flag, the worker ends within five of its own steps, wherever it was, name
  lookup, \<^verbatim>\<open>connect\<close> and the handshake included (with a port that is an \<^verbatim>\<open>int\<close>, and a URL within the limits of the parser), and whatever the network then answers: it opens no second connection and
  reads at most one more frame. So the join returns once the calls that these steps make return. On the open connection the
  shutdown makes them return; a name lookup, a \<^verbatim>\<open>connect\<close> or a handshake that is under way is waited for as long as it takes.
\<close>

theorem ws_worker_ends_after_destroy:
  assumes "\<forall>w. length (os_word_bytes os w) = 4" and "pc = WInit \<longrightarrow> ws_parse_url (ws_url_text (sy_ws sys)) \<noteq> None"
    and "\<forall>u. pc = WHandshake u \<longrightarrow> ws_url_ok u"
  shows "fst (ws_run 5 os pc (websocket_destroy_begin os sys)) = WDone"
proof -
  have d: "ws_destroy_requested (sy_ws (websocket_destroy_begin os sys))" by (simp add: websocket_destroy_begin_def websocket_destroy_mark_def Let_def)
  have "ws_url_text (sy_ws (websocket_destroy_begin os sys)) = ws_url_text (sy_ws sys)"
    by (simp add: websocket_destroy_begin_def websocket_destroy_mark_def websocket_close_def ws_send_close_frame_locked_def Let_def
        conjunct1 [OF ws_send_frame_shape [unfolded same_ws_def]])
  then have "ws_defined os pc (websocket_destroy_begin os sys)" using assms by (simp add: ws_defined_def)
  moreover have "ws_rank pc \<le> 5" by (cases pc) simp_all
  ultimately show ?thesis using d by (simp add: ws_run_ends)
qed

theorem ws_worker_ends_after_destroy_witness:
  "fst (ws_run 5 (net_os True) WInit (websocket_destroy_begin (net_os True) (cf_sys open_start))) = WDone"
proof -
  have "\<not> Option.is_none (ws_parse_url (ws_url_text (sy_ws (cf_sys open_start))))" by code_simp
  then show ?thesis by (intro ws_worker_ends_after_destroy) (auto simp: net_os_def Option.is_none_def)
qed

end
