(* ===== verification/WsDelivery.thy ===== *)
theory WsDelivery
  imports WsSafety
begin

text \<open>
  Delivery: what the worker makes of the frames a server sends. A message may come in several frames
  with control frames between them, the bytes in segments of any size; the application gets one event
  per message, with the concatenation of its parts.
\<close>

section \<open>Messages and frames\<close>

type_synonym ws_frame = "bool \<times> byte \<times> byte list"

definition frame_wire :: "ws_frame \<Rightarrow> byte list" where
  "frame_wire f = (case f of (fin, op, p) \<Rightarrow> ws_wire fin op None p)"

definition is_control :: "ws_frame \<Rightarrow> bool" where
  "is_control f \<longleftrightarrow> fst (snd f) = 9 \<or> fst (snd f) = 10"

text \<open>The frames of one message: all but the last one unfinished, all but the first one continuations.\<close>

fun ws_fragments :: "byte \<Rightarrow> byte list list \<Rightarrow> ws_frame list" where
  "ws_fragments t [] = []"
| "ws_fragments t [p] = [(True, t, p)]"
| "ws_fragments t (p # ps) = (False, t, p) # ws_fragments 0 ps"

definition message_frames :: "bool \<times> byte list list \<Rightarrow> ws_frame list" where
  "message_frames m = ws_fragments (if fst m then 1 else 2) (snd m)"

definition message_event :: "bool \<times> byte list \<Rightarrow> websocket_event" where
  "message_event m = (case m of (is_text, d) \<Rightarrow>
     \<lparr>ev_type = EVENT_MESSAGE, ev_code = 0, ev_is_text = is_text, ev_len = int (length d), ev_reason = [],
      ev_message = (if d = [] then None else Some d)\<rparr>)"

text \<open>A message list read off a frame list, with a message that has begun.\<close>

fun ws_deliver :: "byte list \<Rightarrow> bool \<Rightarrow> ws_frame list \<Rightarrow> (bool \<times> byte list) list" where
  "ws_deliver acc t [] = []"
| "ws_deliver acc t ((fin, op, p) # fs) =
     (if op = 9 \<or> op = 10 then ws_deliver acc t fs
      else
        let d = (if op = 0 then acc @ p else p); t' = (if op = 0 then t else op = 1) in
        if fin then (t', d) # ws_deliver [] t' fs else ws_deliver d t' fs)"

lemma ws_deliver_data: "ws_deliver acc t fs = ws_deliver acc t (filter (\<lambda>f. \<not> is_control f) fs)"
  by (induction acc t fs rule: ws_deliver.induct) (simp_all add: is_control_def Let_def)

lemma ws_deliver_fragments:
  "ps \<noteq> [] \<Longrightarrow> ws_deliver acc t (ws_fragments 0 ps @ fs) = (t, acc @ concat ps) # ws_deliver [] t fs"
  by (induction "0 :: byte" ps arbitrary: acc rule: ws_fragments.induct) simp_all

lemma ws_deliver_message:
  assumes "ps \<noteq> []"
  shows "ws_deliver acc t (message_frames (is_text, ps) @ fs) = (is_text, concat ps) # ws_deliver [] is_text fs"
proof (cases ps)
  case (Cons p qs)
  show ?thesis
  proof (cases qs)
    case Nil
    then show ?thesis by (simp add: Cons message_frames_def)
  next
    case (Cons q rs)
    then have "message_frames (is_text, ps) = (False, if is_text then 1 else 2, p) # ws_fragments 0 qs"
      by (simp add: \<open>ps = p # qs\<close> message_frames_def)
    then show ?thesis using ws_deliver_fragments [of qs p is_text fs] \<open>ps = p # qs\<close> Cons by (cases is_text) simp_all
  qed
qed (use assms in simp)

lemma ws_deliver_messages:
  "(\<forall>m \<in> set ms. snd m \<noteq> []) \<Longrightarrow>
     ws_deliver acc t (concat (map message_frames ms)) = map (\<lambda>m. (fst m, concat (snd m))) ms"
proof (induction ms arbitrary: acc t)
  case (Cons m ms)
  then show ?case using ws_deliver_message [of "snd m" acc t "fst m" "concat (map message_frames ms)"] by simp
qed simp

section \<open>The worker\<close>

abbreviation net_ready :: "net_sock ws_os \<Rightarrow> net_sock ws_os" where
  "net_ready os \<equiv> os\<lparr>os_recv := net_recv, os_send := net_send, os_select := Pair SelectReady\<rparr>"

declare net_recv.simps [simp del] net_send.simps [simp del]

text \<open>The worker runs on, no allocation fails, and the socket still delivers some bytes.\<close>

definition live :: "net_sock ws_sys \<Rightarrow> byte list \<Rightarrow> bool" where
  "live sys bytes \<longleftrightarrow> \<not> ws_destroy_requested (sy_ws sys) \<and> sy_oom sys = [] \<and> net_pending (sy_net sys) = bytes"

lemma send_all_pending: "net_pending (snd (ws_send_all net_send bs s)) = net_pending s"
  using net.send_all_spec [of bs s] by auto

lemma send_frame_pending: "net_pending (snd (ws_send_frame net_send mem_ok op data mk s)) = net_pending s"
  by (auto simp: ws_send_frame_def Let_def send_all_pending split: prod.split)
     (metis send_all_pending snd_conv)+

lemma send_frame_live:
  assumes "live sys bytes"
  shows "live (snd (ws_send_frame_locked (net_ready os) sys data op)) bytes"
    and "sy_ws (snd (ws_send_frame_locked (net_ready os) sys data op)) = sy_ws sys"
proof -
  let ?r = "snd (ws_send_frame_locked (net_ready os) sys data op)"
  have s: "same_ws sys ?r" by (rule ws_send_frame_shape)
  then show "sy_ws ?r = sy_ws sys" by (simp add: same_ws_def)
  have a: "(if data = [] then (True, sys) else ws_alloc sys) = (True, sys)"
    using assms by (simp add: live_def ws_alloc_def)
  have "net_pending (sy_net ?r) = net_pending (sy_net sys)"
    using send_frame_pending [of True op data "ws_xorshift (os_now os) (sy_rng sys)" "sy_net sys"]
    unfolding ws_send_frame_locked_def Let_def a by (auto split: prod.split)
  with s assms show "live ?r bytes" by (simp add: live_def same_ws_def)
qed

lemma worker_reads_frame:
  assumes "live sys (ws_wire fin op None p @ rest)" and "op < 16" and "length p \<le> ws_max_payload"
  obtains net where "ws_run 4 (net_ready os) (WLoop frag) sys = ws_handle_frame (net_ready os) (sys\<lparr>sy_net := net\<rparr>) frag fin op p"
    "live (sys\<lparr>sy_net := net\<rparr>) rest"
proof -
  have d: "\<not> ws_destroy_requested (sy_ws sys)" and o: "sy_oom sys = []" and n: "net_pending (sy_net sys) = ws_wire fin op None p @ rest"
    using assms(1) by (simp_all add: live_def)
  let ?k = "length (ws_wire fin op None p @ rest)"
  have "net_pending (sy_net sys) = take ?k (ws_wire fin op None p @ rest)" using n by simp
  then obtain net where r: "ws_read_frame net_recv True (sy_net sys) =
      (if length (ws_wire fin op None p) \<le> ?k then ReadFrame fin op p else if ?k < 2 then ReadClosed else ReadError, net)"
    "length (ws_wire fin op None p) \<le> ?k \<longrightarrow> net_pending net = take (?k - length (ws_wire fin op None p)) rest"
    by (rule net.read_frame_next [OF _ assms(2) _ assms(3)]) simp
  have rd: "ws_read_frame net_recv True (sy_net sys) = (ReadFrame fin op p, net)" using r(1) by simp
  have four: "(4 :: nat) = Suc (Suc (Suc (Suc 0)))" by simp
  have "ws_run 4 (net_ready os) (WLoop frag) sys = ws_handle_frame (net_ready os) (sys\<lparr>sy_net := net\<rparr>) frag fin op p"
    unfolding four using d o rd by (simp add: ws_alloc_def Let_def split: prod.split)
  moreover have "live (sys\<lparr>sy_net := net\<rparr>) rest" using d o r(2) by (simp add: live_def)
  ultimately show thesis by (rule that)
qed

lemma c_int_of_size_small: "n < 2 ^ 31 \<Longrightarrow> c_int_of_size n = int n"
  unfolding c_int_of_size_def
  by (subst signed_of_nat) (simp add: signed_take_bit_eq_if_positive bit_iff_odd take_bit_int_eq_self)

lemma worker_handles_frame:
  assumes "live sys bytes" and "op \<in> {0, 1, 2, 9, 10}"
  obtains frag' sys' where "ws_handle_frame (net_ready os) sys frag fin op p = (WLoop frag', sys')" "live sys' bytes"
    "ws_deliver (fr_data frag) (fr_text frag) ((fin, op, p) # fs) =
       (if is_control (fin, op, p) \<or> \<not> fin then [] else [(fr_text frag', (if op = 0 then fr_data frag @ p else p))]) @
       ws_deliver (fr_data frag') (fr_text frag') fs"
    "ws_events (sy_ws sys') = ws_events (sy_ws sys) @
       (if is_control (fin, op, p) \<or> \<not> fin then []
        else let d = (if op = 0 then fr_data frag @ p else p) in
          [\<lparr>ev_type = EVENT_MESSAGE, ev_code = 0, ev_is_text = fr_text frag', ev_len = c_int_of_size (length d), ev_reason = [],
            ev_message = (if c_int_of_size (length d) > 0 then Some (take (nat (c_int_of_size (length d))) d) else None)\<rparr>])"
proof (cases "is_control (fin, op, p)")
  case True
  then have op: "op = 9 \<or> op = 10" by (simp add: is_control_def)
  show thesis
  proof (cases "op = 9")
    case True
    have "ws_handle_frame (net_ready os) sys frag fin op p = (WLoop frag, snd (ws_send_frame_locked (net_ready os) sys p 10))"
      by (simp add: ws_handle_frame_def True)
    then show thesis by (rule that) (use send_frame_live [OF assms(1)] True in \<open>simp_all add: is_control_def\<close>)
  next
    case False
    then have "op = 10" using op by simp
    then have "ws_handle_frame (net_ready os) sys frag fin op p = (WLoop frag, sys)" by (simp add: ws_handle_frame_def)
    then show thesis by (rule that) (use assms(1) \<open>op = 10\<close> in \<open>simp_all add: is_control_def\<close>)
  qed
next
  case False
  then have op: "op \<noteq> 9" "op \<noteq> 10" "op \<noteq> 8" "op = 1 \<or> op = 2 \<or> op = 0" using assms(2) by (auto simp: is_control_def)
  let ?f = "if op \<noteq> 0 then frag\<lparr>fr_text := (op = 1), fr_data := []\<rparr> else frag"
  let ?d = "if op = 0 then fr_data frag @ p else p"
  have d: "fr_data ?f @ p = ?d" by simp
  have t: "fr_text ?f = (if op = 0 then fr_text frag else op = 1)" by simp
  let ?cap = "if length ?d > fr_cap ?f then length ?d + 4096 else fr_cap ?f"
  have a: "(if length ?d > fr_cap ?f then ws_alloc sys else (True, sys)) = (True, sys)"
    using assms(1) by (simp add: live_def ws_alloc_def)
  let ?m = "ws_enqueue_locked sys EVENT_MESSAGE 0 [] ?d (c_int_of_size (length ?d)) (fr_text ?f)"
  have h: "ws_handle_frame (net_ready os) sys frag fin op p =
      (if fin then (WLoop (?f\<lparr>fr_data := [], fr_cap := ?cap\<rparr>), ?m) else (WLoop (?f\<lparr>fr_data := ?d, fr_cap := ?cap\<rparr>), sys))"
    unfolding ws_handle_frame_def Let_def d a using op by (simp only: if_False if_True prod.case not_True_eq_False)
  have al: "ws_alloc sys = (True, sys)" using assms(1) by (simp add: live_def ws_alloc_def)
  let ?ev = "\<lparr>ev_type = EVENT_MESSAGE, ev_code = 0, ev_is_text = fr_text ?f, ev_len = c_int_of_size (length ?d), ev_reason = [],
            ev_message = (if c_int_of_size (length ?d) > 0 then Some (take (nat (c_int_of_size (length ?d))) ?d) else None)\<rparr>"
  have m: "?m = ws_modify (ws_events_update (\<lambda>q. q @ [?ev])) sys"
    by (simp add: ws_enqueue_locked_def al Let_def)
  show thesis
  proof (cases fin)
    case True
    then have "ws_handle_frame (net_ready os) sys frag fin op p = (WLoop (?f\<lparr>fr_data := [], fr_cap := ?cap\<rparr>), ?m)"
      unfolding h by simp
    then show thesis
    proof (rule that)
      show "live ?m bytes" using assms(1) by (simp add: m live_def)
    qed (use True False op in \<open>simp_all add: m is_control_def Let_def\<close>)
  next
    case nf: False
    then have "ws_handle_frame (net_ready os) sys frag fin op p = (WLoop (?f\<lparr>fr_data := ?d, fr_cap := ?cap\<rparr>), sys)"
      unfolding h by simp
    then show thesis by (rule that) (use assms(1) nf False op in \<open>simp_all add: is_control_def Let_def\<close>)
  qed
qed

lemma worker_delivers:
  assumes "\<forall>f \<in> set fs. fst (snd f) \<in> {0, 1, 2, 9, 10} \<and> length (snd (snd f)) \<le> ws_max_payload"
    and "live sys (concat (map frame_wire fs) @ rest)"
    and "\<forall>m \<in> set (ws_deliver (fr_data frag) (fr_text frag) fs). length (snd m) < 2 ^ 31"
  shows "\<exists>frag' sys'. ws_run (4 * length fs) (net_ready os) (WLoop frag) sys = (WLoop frag', sys') \<and> live sys' rest \<and>
     ws_events (sy_ws sys') = ws_events (sy_ws sys) @ map message_event (ws_deliver (fr_data frag) (fr_text frag) fs)"
  using assms
proof (induction fs arbitrary: frag sys)
  case Nil
  then show ?case by simp
next
  case (Cons f fs)
  obtain fin op p where f: "f = (fin, op, p)" by (cases f)
  have ok: "op \<in> {0, 1, 2, 9, 10}" "length p \<le> ws_max_payload" using Cons.prems(1) by (simp_all add: f)
  have l: "live sys (ws_wire fin op None p @ concat (map frame_wire fs) @ rest)"
    using Cons.prems(2) by (simp add: f frame_wire_def [of "(fin, op, p)"])
  have op16: "op < 16" using ok(1) by auto
  obtain net where r: "ws_run 4 (net_ready os) (WLoop frag) sys = ws_handle_frame (net_ready os) (sys\<lparr>sy_net := net\<rparr>) frag fin op p"
    and l1: "live (sys\<lparr>sy_net := net\<rparr>) (concat (map frame_wire fs) @ rest)"
    by (rule worker_reads_frame [OF l op16 ok(2)])
  obtain frag1 sys1 where h: "ws_handle_frame (net_ready os) (sys\<lparr>sy_net := net\<rparr>) frag fin op p = (WLoop frag1, sys1)"
    and l2: "live sys1 (concat (map frame_wire fs) @ rest)"
    and d: "ws_deliver (fr_data frag) (fr_text frag) ((fin, op, p) # fs) =
       (if is_control (fin, op, p) \<or> \<not> fin then [] else [(fr_text frag1, (if op = 0 then fr_data frag @ p else p))]) @
       ws_deliver (fr_data frag1) (fr_text frag1) fs"
    and e: "ws_events (sy_ws sys1) = ws_events (sy_ws (sys\<lparr>sy_net := net\<rparr>)) @
       (if is_control (fin, op, p) \<or> \<not> fin then []
        else let d = (if op = 0 then fr_data frag @ p else p) in
          [\<lparr>ev_type = EVENT_MESSAGE, ev_code = 0, ev_is_text = fr_text frag1, ev_len = c_int_of_size (length d), ev_reason = [],
            ev_message = (if c_int_of_size (length d) > 0 then Some (take (nat (c_int_of_size (length d))) d) else None)\<rparr>])"
    by (rule worker_handles_frame [OF l1 ok(1)])
  have rest: "\<forall>m \<in> set (ws_deliver (fr_data frag1) (fr_text frag1) fs). length (snd m) < 2 ^ 31"
    using Cons.prems(3) unfolding f d by simp
  have e': "ws_events (sy_ws sys1) = ws_events (sy_ws sys) @ map message_event
       (if is_control (fin, op, p) \<or> \<not> fin then [] else [(fr_text frag1, (if op = 0 then fr_data frag @ p else p))])"
  proof (cases "is_control (fin, op, p) \<or> \<not> fin")
    case False
    let ?d = "if op = 0 then fr_data frag @ p else p"
    have "length ?d < 2 ^ 31" using Cons.prems(3) False unfolding f d by simp
    then have "c_int_of_size (length ?d) = int (length ?d)" by (rule c_int_of_size_small)
    with False show ?thesis unfolding e Let_def by (simp add: message_event_def)
  qed (simp add: e)
  have pre: "\<forall>f \<in> set fs. fst (snd f) \<in> {0, 1, 2, 9, 10} \<and> length (snd (snd f)) \<le> ws_max_payload"
    using Cons.prems(1) by (meson list.set_intros(2))
  from Cons.IH [OF pre l2 rest] obtain frag2 sys2 where i: "ws_run (4 * length fs) (net_ready os) (WLoop frag1) sys1 = (WLoop frag2, sys2)" "live sys2 rest"
    "ws_events (sy_ws sys2) = ws_events (sy_ws sys1) @ map message_event (ws_deliver (fr_data frag1) (fr_text frag1) fs)"
    by (elim exE conjE)
  have len: "4 * length (f # fs) = 4 + 4 * length fs" by simp
  have run: "ws_run (4 * length (f # fs)) (net_ready os) (WLoop frag) sys = (WLoop frag2, sys2)"
    unfolding len ws_run_add r h fst_conv snd_conv by (rule i(1))
  show ?case using i(2,3) e' run unfolding f d map_append append_assoc
    by (intro exI [of _ frag2] exI [of _ sys2] conjI) simp_all
qed

lemma messages_delivered:
  assumes "filter (\<lambda>f. \<not> is_control f) fs = concat (map message_frames ms)"
    and "\<forall>f \<in> set fs. length (snd (snd f)) \<le> ws_max_payload"
    and "\<forall>m \<in> set ms. snd m \<noteq> [] \<and> length (concat (snd m)) < 2 ^ 31"
    and "\<not> ws_destroy_requested (sy_ws sys)" and "sy_oom sys = []"
    and "net_pending (sy_net sys) = concat (map frame_wire fs) @ rest"
  shows "\<exists>frag' sys'. ws_run (4 * length fs) (net_ready os) (WLoop frag) sys = (WLoop frag', sys') \<and>
    ws_events (sy_ws sys') = ws_events (sy_ws sys) @ map (\<lambda>m. message_event (fst m, concat (snd m))) ms \<and>
    net_pending (sy_net sys') = rest"
proof -
  have ops: "\<forall>f \<in> set (ws_fragments t ps). fst (snd f) \<in> {0, t}" for t ps
    by (induction t ps rule: ws_fragments.induct) auto
  have "fst (snd f) \<in> {0, 1, 2, 9, 10}" if "f \<in> set fs" for f
  proof (cases "is_control f")
    case False
    with that have "f \<in> set (concat (map message_frames ms))" unfolding assms(1) [symmetric] by simp
    then obtain m where "f \<in> set (message_frames m)" by auto
    then show ?thesis using ops by (fastforce simp: message_frames_def split: if_splits)
  qed (auto simp: is_control_def)
  then have o: "\<forall>f \<in> set fs. fst (snd f) \<in> {0, 1, 2, 9, 10} \<and> length (snd (snd f)) \<le> ws_max_payload" using assms(2) by blast
  have d: "ws_deliver (fr_data frag) (fr_text frag) fs = map (\<lambda>m. (fst m, concat (snd m))) ms"
    using ws_deliver_messages [of ms] assms(3) unfolding ws_deliver_data [of _ _ fs] assms(1) by blast
  have l: "live sys (concat (map frame_wire fs) @ rest)" using assms(4-6) by (simp add: live_def)
  show ?thesis using worker_delivers [OF o l, of frag os] assms(3) unfolding d by (auto simp: live_def comp_def)
qed

text \<open>
  C6. A server's messages arrive as sent. Each message may come in any number of frames, with pings and
  pongs anywhere between them, and the bytes in segments of any size; the worker turns them into
  one message event per message, in order, each with its type and the concatenation of its parts, and
  waits for the next frame with the bytes that follow unread.
\<close>

theorem ws_messages_delivered:
  assumes "filter (\<lambda>f. \<not> is_control f) fs = concat (map message_frames ms)"
    and "\<forall>f \<in> set fs. length (snd (snd f)) \<le> ws_max_payload"
    and "\<forall>m \<in> set ms. snd m \<noteq> [] \<and> length (concat (snd m)) < 2 ^ 31"
    and "\<not> ws_destroy_requested (sy_ws sys)" and "sy_oom sys = []"
    and "net_pending (sy_net sys) = concat (map frame_wire fs) @ rest"
  shows "\<exists>frag' sys'. ws_run (4 * length fs) (net_ready os) (WLoop frag) sys = (WLoop frag', sys') \<and>
    ws_events (sy_ws sys') = ws_events (sy_ws sys) @ map (\<lambda>m. message_event (fst m, concat (snd m))) ms \<and>
    net_pending (sy_net sys') = rest"
  using messages_delivered [OF assms] .

theorem ws_messages_delivered_witness:
  "\<exists>frag' sys'. ws_run 12 (net_ready (net_os True)) (WLoop ws_frag_empty)
      ((cf_sys lost_start)\<lparr>sy_net := \<lparr>ns_in = [[1, 2, 0x68], [0x69, 0x89, 0, 0x80], [1, 0x21, 7]], ns_out = [], ns_room = []\<rparr>\<rparr>) =
      (WLoop frag', sys') \<and>
    ws_events (sy_ws sys') = [message_event (True, [0x68, 0x69, 0x21])] \<and> net_pending (sy_net sys') = [7]"
  using ws_messages_delivered [of "[(False, 1, [0x68, 0x69]), (True, 9, []), (True, 0, [0x21])]" "[(True, [[0x68, 0x69], [0x21]])]"
      "(cf_sys lost_start)\<lparr>sy_net := \<lparr>ns_in = [[1, 2, 0x68], [0x69, 0x89, 0, 0x80], [1, 0x21, 7]], ns_out = [], ns_room = []\<rparr>\<rparr>"
      "[7]" "net_os True" ws_frag_empty]
  by (simp add: is_control_def message_frames_def ws_max_payload_def ws_start_def websocket_init_def net_pending_def frame_wire_def ws_wire_def wire_length_def)

end
