(* ===== verification/EventBus.thy ===== *)
theory EventBus
  imports CString
begin

text \<open>
  The event bus, \<^verbatim>\<open>src/event/event.c\<close>, and the event emitter it stands on,
  \<^verbatim>\<open>src/vendor/ee/ee.c\<close>. A \<open>list_t\<close> is the sequence of its nodes with their values, which is
  what theory \<open>DList\<close> shows a list to be; a node keeps its address, so that a pointer
  to a node that has been removed and freed in the meantime is recognised: an operation that reads such
  a node, or a \<open>NULL\<close> pointer, is \<open>None\<close>. Addresses are not reused.

  A listener is a program: \<open>prog log l p u\<close> are the calls on the bus that the listener \<open>l\<close> makes
  when it is called with payload \<open>p\<close> and user data \<open>u\<close>, after the calls \<open>log\<close>. Emission
  may go on for ever, so it takes fuel; the flag it returns says that it came to its end.
\<close>

section \<open>Data\<close>

record ('l, 'u) event_listener_entry =
  el_listener :: 'l
  el_user_data :: 'u
  el_once :: bool

record ('l, 'u) event_name_binding =
  bi_name :: string
  bi_listeners :: "(addr \<times> ('l, 'u) event_listener_entry) list"

text \<open>The bus registers one callback with the emitter, \<^verbatim>\<open>event_bridge_dispatch\<close>.\<close>

datatype ee_cb = event_bridge_dispatch_cb

record ee_handler =
  eh_cb :: ee_cb
  eh_once :: bool

record ee_event =
  ev_name :: "string option"
  ev_handlers :: "(addr \<times> ee_handler) list"

record ('l, 'u, 'p) event_bus =
  eb_events :: "ee_event list"
  eb_bindings :: "(addr \<times> ('l, 'u) event_name_binding) list"
  eb_brk :: nat
  eb_oom :: "nat \<Rightarrow> bool"
  eb_calls :: "('l \<times> 'p \<times> 'u) list"

definition eb_malloc :: "('l, 'u, 'p) event_bus \<Rightarrow> addr option \<times> ('l, 'u, 'p) event_bus" where
  "eb_malloc bus = (if eb_oom bus (eb_brk bus) then None else Some (eb_brk bus), bus\<lparr>eb_brk := Suc (eb_brk bus)\<rparr>)"

text \<open>A node of a list, with the node that follows it.\<close>

fun node_at :: "addr \<Rightarrow> (addr \<times> 'v) list \<Rightarrow> ('v \<times> addr option) option" where
  "node_at a [] = None"
| "node_at a ((b, v) # xs) = (if a = b then Some (v, case xs of [] \<Rightarrow> None | (c, w) # ys \<Rightarrow> Some c) else node_at a xs)"

definition node_first :: "(addr \<times> 'v) list \<Rightarrow> addr option" where
  "node_first xs = (case xs of [] \<Rightarrow> None | (a, v) # ys \<Rightarrow> Some a)"

definition node_remove :: "addr \<Rightarrow> (addr \<times> 'v) list \<Rightarrow> (addr \<times> 'v) list" where
  "node_remove a xs = filter (\<lambda>x. fst x \<noteq> a) xs"

section \<open>The emitter\<close>

definition EE_NEW_LISTENER :: string where
  "EE_NEW_LISTENER = ''new_listener''"

fun ee_find_loop :: "ee_event list \<Rightarrow> string \<Rightarrow> nat \<Rightarrow> nat option option" where
  "ee_find_loop [] name i = Some None"
| "ee_find_loop (e # es) name i = (case ev_name e of
     None \<Rightarrow> None
   | Some n \<Rightarrow> if n = name then Some (Some i) else ee_find_loop es name (Suc i))"

text \<open>\<^verbatim>\<open>list_find\<close> does not check that it got an iterator.\<close>

definition ee_find :: "('l, 'u, 'p) event_bus \<Rightarrow> string \<Rightarrow> (nat option \<times> ('l, 'u, 'p) event_bus) option" where
  "ee_find bus name = (let (it, b1) = eb_malloc bus in do {
     _ \<leftarrow> it;
     r \<leftarrow> ee_find_loop (eb_events b1) name 0;
     Some (r, b1)
   })"

definition ee_event_new :: "('l, 'u, 'p) event_bus \<Rightarrow> string \<Rightarrow> (ee_event \<times> ('l, 'u, 'p) event_bus) option" where
  "ee_event_new bus name =
     (let (ev, b1) = eb_malloc bus; (dup, b2) = eb_malloc b1; (hs, b3) = eb_malloc b2 in do {
        _ \<leftarrow> ev;
        _ \<leftarrow> hs;
        Some (\<lparr>ev_name = (if dup = None then None else Some name), ev_handlers = []\<rparr>, b3)
      })"

definition ee_add_handler :: "nat \<Rightarrow> addr \<times> ee_handler \<Rightarrow> ('l, 'u, 'p) event_bus \<Rightarrow> ('l, 'u, 'p) event_bus" where
  "ee_add_handler i h bus = bus\<lparr>eb_events := (eb_events bus)
     [i := (eb_events bus ! i)\<lparr>ev_handlers := ev_handlers (eb_events bus ! i) @ [h]\<rparr>]\<rparr>"

text \<open>
  \<^verbatim>\<open>ee_emit\<close> of the event \<^verbatim>\<open>"new_listener"\<close>: the only callback a handler can have is the bridge, which
  would read the \<^verbatim>\<open>ee_new_listener_t\<close> it gets as a bridge payload, a larger structure with other
  fields: an error.
\<close>

definition ee_emit_new_listener :: "('l, 'u, 'p) event_bus \<Rightarrow> ('l, 'u, 'p) event_bus option" where
  "ee_emit_new_listener bus = do {
     (r, b1) \<leftarrow> ee_find bus EE_NEW_LISTENER;
     (case r of
       None \<Rightarrow> Some b1
     | Some i \<Rightarrow> (let (it, b2) = eb_malloc b1 in do {
         _ \<leftarrow> it;
         (if ev_handlers (eb_events b2 ! i) = [] then Some b2 else None)
       }))
   }"

text \<open>An event or a handler whose list node cannot be allocated is lost.\<close>

definition ee_on :: "('l, 'u, 'p) event_bus \<Rightarrow> string \<Rightarrow> ('l, 'u, 'p) event_bus option" where
  "ee_on bus name = do {
     (r, b1) \<leftarrow> ee_find bus name;
     (i, b2) \<leftarrow> (case r of
         Some i \<Rightarrow> Some (Some i, b1)
       | None \<Rightarrow> do {
           (e, b) \<leftarrow> ee_event_new b1 name;
           (let (node, b') = eb_malloc b in
             Some (if node = None then (None, b')
                   else (Some (length (eb_events b')), b'\<lparr>eb_events := eb_events b' @ [e]\<rparr>)))
         });
     (let (handler, b3) = eb_malloc b2; (node, b4) = eb_malloc b3 in do {
        _ \<leftarrow> handler;
        let b5 = (case (i, node) of
            (Some k, Some a) \<Rightarrow> ee_add_handler k (a, \<lparr>eh_cb = event_bridge_dispatch_cb, eh_once = False\<rparr>) b4
          | _ \<Rightarrow> b4);
        (if name \<noteq> EE_NEW_LISTENER then ee_emit_new_listener b5 else Some b5)
      })
   }"

definition ee_remove_listener :: "('l, 'u, 'p) event_bus \<Rightarrow> string \<Rightarrow> ('l, 'u, 'p) event_bus option" where
  "ee_remove_listener bus name = do {
     (r, b1) \<leftarrow> ee_find bus name;
     (case r of
       None \<Rightarrow> Some b1
     | Some i \<Rightarrow> (let (it, b2) = eb_malloc b1 in do {
         _ \<leftarrow> it;
         (case find (\<lambda>x. eh_cb (snd x) = event_bridge_dispatch_cb) (ev_handlers (eb_events b2 ! i)) of
            None \<Rightarrow> Some b2
          | Some (a, h) \<Rightarrow> Some (b2\<lparr>eb_events := (eb_events b2)
              [i := (eb_events b2 ! i)\<lparr>ev_handlers := node_remove a (ev_handlers (eb_events b2 ! i))\<rparr>]\<rparr>))
       }))
   }"

text \<open>The loop of \<^verbatim>\<open>ee_emit\<close>; \<open>cb\<close> runs the callback.\<close>

primrec ee_emit_loop ::
  "(('l, 'u, 'p) event_bus \<Rightarrow> (bool \<times> ('l, 'u, 'p) event_bus) option) \<Rightarrow> nat \<Rightarrow> nat \<Rightarrow> addr option \<Rightarrow>
     ('l, 'u, 'p) event_bus \<Rightarrow> (bool \<times> ('l, 'u, 'p) event_bus) option" where
  "ee_emit_loop cb 0 i cur bus = Some (cur = None, bus)"
| "ee_emit_loop cb (Suc k) i cur bus = (case cur of
     None \<Rightarrow> Some (True, bus)
   | Some a \<Rightarrow> do {
       (h, nxt) \<leftarrow> node_at a (ev_handlers (eb_events bus ! i));
       (ok, b1) \<leftarrow> cb bus;
       (if \<not> ok then Some (False, b1)
        else do {
          (h', _) \<leftarrow> node_at a (ev_handlers (eb_events b1 ! i));
          ee_emit_loop cb k i nxt
            (if eh_once h' then b1\<lparr>eb_events := (eb_events b1)
               [i := (eb_events b1 ! i)\<lparr>ev_handlers := node_remove a (ev_handlers (eb_events b1 ! i))\<rparr>]\<rparr> else b1)
        })
     })"

definition ee_emit ::
  "(('l, 'u, 'p) event_bus \<Rightarrow> (bool \<times> ('l, 'u, 'p) event_bus) option) \<Rightarrow> nat \<Rightarrow>
     ('l, 'u, 'p) event_bus \<Rightarrow> string \<Rightarrow> (bool \<times> ('l, 'u, 'p) event_bus) option" where
  "ee_emit cb k bus name = do {
     (r, b1) \<leftarrow> ee_find bus name;
     (case r of
       None \<Rightarrow> Some (True, b1)
     | Some i \<Rightarrow> (let (it, b2) = eb_malloc b1 in do {
         _ \<leftarrow> it;
         ee_emit_loop cb k i (node_first (ev_handlers (eb_events b2 ! i))) b2
       }))
   }"

section \<open>The bus\<close>

fun find_binding_loop :: "(addr \<times> ('l, 'u) event_name_binding) list \<Rightarrow> string \<Rightarrow> addr option" where
  "find_binding_loop [] name = None"
| "find_binding_loop ((a, bi) # bs) name = (if bi_name bi = name then Some a else find_binding_loop bs name)"

definition find_binding :: "('l, 'u, 'p) event_bus \<Rightarrow> string \<Rightarrow> addr option \<times> ('l, 'u, 'p) event_bus" where
  "find_binding bus name = (let (it, b1) = eb_malloc bus in
     (if it = None then None else find_binding_loop (eb_bindings b1) name, b1))"

definition ensure_binding :: "('l, 'u, 'p) event_bus \<Rightarrow> string \<Rightarrow> (addr option \<times> ('l, 'u, 'p) event_bus) option" where
  "ensure_binding bus name = (case find_binding bus name of
     (Some b, b1) \<Rightarrow> Some (Some b, b1)
   | (None, b1) \<Rightarrow>
       (let (binding, b2) = eb_malloc b1 in
        if binding = None then Some (None, b2)
        else
          let (dup, b3) = eb_malloc b2; (ls, b4) = eb_malloc b3 in
          if dup = None \<or> ls = None then Some (None, b4)
          else
            let (node, b5) = eb_malloc b4 in
            (case node of
               None \<Rightarrow> Some (None, b5)
             | Some a \<Rightarrow> do {
                 b6 \<leftarrow> ee_on (b5\<lparr>eb_bindings := eb_bindings b5 @ [(a, \<lparr>bi_name = name, bi_listeners = []\<rparr>)]\<rparr>) name;
                 Some (Some a, b6)
               })))"

definition eb_listeners :: "('l, 'u, 'p) event_bus \<Rightarrow> addr \<Rightarrow> (addr \<times> ('l, 'u) event_listener_entry) list option" where
  "eb_listeners bus b = map_option bi_listeners (map_of (eb_bindings bus) b)"

definition eb_set_listeners ::
  "addr \<Rightarrow> (addr \<times> ('l, 'u) event_listener_entry) list \<Rightarrow> ('l, 'u, 'p) event_bus \<Rightarrow> ('l, 'u, 'p) event_bus" where
  "eb_set_listeners b ls bus =
     bus\<lparr>eb_bindings := map (\<lambda>(a, bi). (a, if a = b then bi\<lparr>bi_listeners := ls\<rparr> else bi)) (eb_bindings bus)\<rparr>"

definition add_listener_internal ::
  "('l, 'u, 'p) event_bus \<Rightarrow> string option \<Rightarrow> 'l option \<Rightarrow> 'u \<Rightarrow> bool \<Rightarrow> (int \<times> ('l, 'u, 'p) event_bus) option" where
  "add_listener_internal bus event_name listener user_data once = (case (event_name, listener) of
     (Some name, Some l) \<Rightarrow>
       if name = [] then Some (-1, bus)
       else do {
         (binding, b1) \<leftarrow> ensure_binding bus name;
         (case binding of
            None \<Rightarrow> Some (-1, b1)
          | Some b \<Rightarrow>
              (let (entry, b2) = eb_malloc b1 in
               if entry = None then Some (-1, b2)
               else
                 let (node, b3) = eb_malloc b2 in
                 (case node of
                    None \<Rightarrow> Some (-1, b3)
                  | Some a \<Rightarrow> do {
                      ls \<leftarrow> eb_listeners b3 b;
                      Some (0, eb_set_listeners b (ls @ [(a, \<lparr>el_listener = l, el_user_data = user_data, el_once = once\<rparr>)]) b3)
                    })))
       }
   | _ \<Rightarrow> Some (-1, bus))"

definition event_bus_on ::
  "('l, 'u, 'p) event_bus \<Rightarrow> string option \<Rightarrow> 'l option \<Rightarrow> 'u \<Rightarrow> (int \<times> ('l, 'u, 'p) event_bus) option" where
  "event_bus_on bus name listener user_data = add_listener_internal bus name listener user_data False"

definition event_bus_once ::
  "('l, 'u, 'p) event_bus \<Rightarrow> string option \<Rightarrow> 'l option \<Rightarrow> 'u \<Rightarrow> (int \<times> ('l, 'u, 'p) event_bus) option" where
  "event_bus_once bus name listener user_data = add_listener_internal bus name listener user_data True"

text \<open>The node of the first entry for a listener and its user data.\<close>

fun off_loop :: "'l \<Rightarrow> 'u \<Rightarrow> (addr \<times> ('l, 'u) event_listener_entry) list \<Rightarrow> addr option" where
  "off_loop l u [] = None"
| "off_loop l u ((a, e) # xs) = (if el_listener e = l \<and> el_user_data e = u then Some a else off_loop l u xs)"

definition event_bus_off ::
  "('l, 'u, 'p) event_bus \<Rightarrow> string option \<Rightarrow> 'l option \<Rightarrow> 'u \<Rightarrow> (int \<times> ('l, 'u, 'p) event_bus) option" where
  "event_bus_off bus event_name listener user_data = (case (event_name, listener) of
     (Some name, Some l) \<Rightarrow> (case find_binding bus name of
         (None, b1) \<Rightarrow> Some (0, b1)
       | (Some b, b1) \<Rightarrow> do {
           ls \<leftarrow> eb_listeners b1 b;
           Some (0, case off_loop l user_data ls of None \<Rightarrow> b1 | Some a \<Rightarrow> eb_set_listeners b (node_remove a ls) b1)
         })
   | _ \<Rightarrow> Some (-1, bus))"

text \<open>\<^verbatim>\<open>list_remove\<close> of a binding frees it with its list of listeners.\<close>

definition event_bus_off_all :: "('l, 'u, 'p) event_bus \<Rightarrow> string option \<Rightarrow> (int \<times> ('l, 'u, 'p) event_bus) option" where
  "event_bus_off_all bus event_name = (case event_name of
     None \<Rightarrow> Some (-1, bus)
   | Some name \<Rightarrow> (case find_binding bus name of
         (None, b1) \<Rightarrow> Some (0, b1)
       | (Some b, b1) \<Rightarrow> do {
           b2 \<leftarrow> ee_remove_listener b1 name;
           Some (0, case find_binding_loop (eb_bindings b2) name of
               None \<Rightarrow> b2
             | Some a \<Rightarrow> b2\<lparr>eb_bindings := node_remove a (eb_bindings b2)\<rparr>)
         }))"

definition event_bus_listener_count :: "('l, 'u, 'p) event_bus \<Rightarrow> string option \<Rightarrow> (int \<times> ('l, 'u, 'p) event_bus) option" where
  "event_bus_listener_count bus event_name = (case event_name of
     None \<Rightarrow> Some (-1, bus)
   | Some name \<Rightarrow> (case find_binding bus name of
         (None, b1) \<Rightarrow> Some (0, b1)
       | (Some b, b1) \<Rightarrow> do {
           ls \<leftarrow> eb_listeners b1 b;
           Some (sint (word_of_nat (length ls) :: 32 word), b1)
         }))"

text \<open>\<^verbatim>\<open>event_bus_create\<close>; the emitter's allocations are not checked. What
  destruction frees is listed by the nodes: those of the bindings, each after its listeners, then the handlers.\<close>

definition event_bus_create :: "nat \<Rightarrow> (nat \<Rightarrow> bool) \<Rightarrow> ('l, 'u, 'p) event_bus option option" where
  "event_bus_create brk oom =
     (let bus0 = \<lparr>eb_events = [], eb_bindings = [], eb_brk = brk, eb_oom = oom, eb_calls = []\<rparr>;
          (bus, b1) = eb_malloc bus0 in
      if bus = None then Some None
      else
        let (events, b2) = eb_malloc b1; (self, b3) = eb_malloc b2; (bindings, b4) = eb_malloc b3 in do {
          _ \<leftarrow> events;
          _ \<leftarrow> self;
          Some (if bindings = None then None else Some b4)
        })"

definition free_binding :: "addr \<times> ('l, 'u) event_name_binding \<Rightarrow> addr list" where
  "free_binding b = (case b of (a, bi) \<Rightarrow> map fst (bi_listeners bi) @ [a])"

definition event_bus_destroy :: "('l, 'u, 'p) event_bus \<Rightarrow> addr list" where
  "event_bus_destroy bus = concat (map free_binding (eb_bindings bus)) @
     concat (map (\<lambda>e. map fst (ev_handlers e)) (eb_events bus))"

section \<open>Emission\<close>

text \<open>The calls a listener, or the application, can make on the bus.\<close>

datatype ('l, 'u, 'p) event_call =
    On string 'l 'u
  | Once string 'l 'u
  | Off string 'l 'u
  | OffAll string
  | Emit string 'p

type_synonym ('l, 'u, 'p) event_emit = "('l, 'u, 'p) event_bus \<Rightarrow> string \<Rightarrow> 'p \<Rightarrow> (bool \<times> ('l, 'u, 'p) event_bus) option"

fun run_call :: "('l, 'u, 'p) event_emit \<Rightarrow> ('l, 'u, 'p) event_call \<Rightarrow> ('l, 'u, 'p) event_bus \<Rightarrow> (bool \<times> ('l, 'u, 'p) event_bus) option" where
  "run_call emit (On name l u) bus = map_option (\<lambda>r. (True, snd r)) (event_bus_on bus (Some name) (Some l) u)"
| "run_call emit (Once name l u) bus = map_option (\<lambda>r. (True, snd r)) (event_bus_once bus (Some name) (Some l) u)"
| "run_call emit (Off name l u) bus = map_option (\<lambda>r. (True, snd r)) (event_bus_off bus (Some name) (Some l) u)"
| "run_call emit (OffAll name) bus = map_option (\<lambda>r. (True, snd r)) (event_bus_off_all bus (Some name))"
| "run_call emit (Emit name p) bus = emit bus name p"

primrec run_calls :: "('l, 'u, 'p) event_emit \<Rightarrow> ('l, 'u, 'p) event_call list \<Rightarrow> ('l, 'u, 'p) event_bus \<Rightarrow> (bool \<times> ('l, 'u, 'p) event_bus) option" where
  "run_calls emit [] bus = Some (True, bus)"
| "run_calls emit (c # cs) bus = do {
     (ok, b1) \<leftarrow> run_call emit c bus;
     (if ok then run_calls emit cs b1 else Some (False, b1))
   }"

type_synonym ('l, 'u, 'p) listeners = "('l \<times> 'p \<times> 'u) list \<Rightarrow> 'l \<Rightarrow> 'p \<Rightarrow> 'u \<Rightarrow> ('l, 'u, 'p) event_call list"

text \<open>
  The loop over the listeners: the next node is read before the listener is called, the entry after
  it, and the list of the binding if the entry was for one call.
\<close>

primrec dispatch_loop ::
  "('l, 'u, 'p) event_emit \<Rightarrow> ('l, 'u, 'p) listeners \<Rightarrow> nat \<Rightarrow> addr \<Rightarrow> addr option \<Rightarrow> 'p \<Rightarrow> ('l, 'u, 'p) event_bus \<Rightarrow>
     (bool \<times> ('l, 'u, 'p) event_bus) option" where
  "dispatch_loop emit prog 0 b node payload bus = Some (node = None, bus)"
| "dispatch_loop emit prog (Suc k) b node payload bus = (case node of
     None \<Rightarrow> Some (True, bus)
   | Some a \<Rightarrow> do {
       ls \<leftarrow> eb_listeners bus b;
       (entry, nxt) \<leftarrow> node_at a ls;
       (ok, b1) \<leftarrow> run_calls emit (prog (eb_calls bus) (el_listener entry) payload (el_user_data entry))
          (bus\<lparr>eb_calls := eb_calls bus @ [(el_listener entry, payload, el_user_data entry)]\<rparr>);
       (if \<not> ok then Some (False, b1)
        else do {
          ls1 \<leftarrow> eb_listeners b1 b;
          (entry', _) \<leftarrow> node_at a ls1;
          dispatch_loop emit prog k b nxt payload (if el_once entry' then eb_set_listeners b (node_remove a ls1) b1 else b1)
        })
     })"

definition event_bridge_dispatch ::
  "('l, 'u, 'p) event_emit \<Rightarrow> ('l, 'u, 'p) listeners \<Rightarrow> nat \<Rightarrow> string \<Rightarrow> 'p \<Rightarrow> ('l, 'u, 'p) event_bus \<Rightarrow>
     (bool \<times> ('l, 'u, 'p) event_bus) option" where
  "event_bridge_dispatch emit prog k name payload bus = (case find_binding bus name of
     (None, b1) \<Rightarrow> Some (True, b1)
   | (Some b, b1) \<Rightarrow> do {
       ls \<leftarrow> eb_listeners b1 b;
       dispatch_loop emit prog k b (node_first ls) payload b1
     })"

primrec event_bus_emit :: "('l, 'u, 'p) listeners \<Rightarrow> nat \<Rightarrow> ('l, 'u, 'p) event_emit" where
  "event_bus_emit prog 0 = (\<lambda>bus name payload. Some (False, bus))"
| "event_bus_emit prog (Suc n) = (\<lambda>bus name payload.
     ee_emit (event_bridge_dispatch (event_bus_emit prog n) prog n name payload) n bus name)"

text \<open>The call as the application makes it, with its answer; calls by listeners have names.\<close>

definition event_bus_emit_call ::
  "('l, 'u, 'p) listeners \<Rightarrow> nat \<Rightarrow> ('l, 'u, 'p) event_bus \<Rightarrow> string option \<Rightarrow> 'p \<Rightarrow> (int \<times> bool \<times> ('l, 'u, 'p) event_bus) option" where
  "event_bus_emit_call prog fuel bus event_name payload = (case event_name of
     None \<Rightarrow> Some (-1, True, bus)
   | Some name \<Rightarrow> map_option (\<lambda>(ended, b1). (0, ended, b1)) (event_bus_emit prog fuel bus name payload))"

end
