(* ===== verification/EventSafety.thy ===== *)
theory EventSafety
  imports EventBus
begin

text \<open>
  What the event bus guarantees. Between emissions and as long as no listener removes a listener while
  an event is being emitted, the bus is a map from names to queues of listeners; a listener that
  removes one makes the emission read freed memory.
\<close>

section \<open>Well-formed buses\<close>

text \<open>
  The emitter has one event per name ever bound, with the bridge as its one handler exactly while the
  name is bound, and no event \<^verbatim>\<open>"new_listener"\<close>.
\<close>

definition events_ok :: "ee_event list \<Rightarrow> string set \<Rightarrow> bool" where
  "events_ok es names \<longleftrightarrow> distinct (map ev_name es) \<and> None \<notin> set (map ev_name es) \<and>
     Some EE_NEW_LISTENER \<notin> set (map ev_name es) \<and> (\<forall>n \<in> names. Some n \<in> set (map ev_name es)) \<and>
     (\<forall>e \<in> set es. if the (ev_name e) \<in> names then \<exists>a. ev_handlers e = [(a, \<lparr>eh_cb = event_bridge_dispatch_cb, eh_once = False\<rparr>)]
        else ev_handlers e = [])"

abbreviation eb_names :: "('l, 'u, 'p) event_bus \<Rightarrow> string list" where
  "eb_names bus \<equiv> map (bi_name \<circ> snd) (eb_bindings bus)"

definition bindings_ok :: "(addr \<times> ('l, 'u) event_name_binding) list \<Rightarrow> nat \<Rightarrow> bool" where
  "bindings_ok bs brk \<longleftrightarrow> distinct (map fst bs) \<and> distinct (map (bi_name \<circ> snd) bs) \<and>
     (\<forall>x \<in> set bs. fst x < brk \<and> distinct (map fst (bi_listeners (snd x))) \<and> (\<forall>y \<in> set (bi_listeners (snd x)). fst y < brk))"

definition eb_ok :: "('l, 'u, 'p) event_bus \<Rightarrow> bool" where
  "eb_ok bus \<longleftrightarrow> eb_oom bus = (\<lambda>_. False) \<and> bindings_ok (eb_bindings bus) (eb_brk bus) \<and>
     events_ok (eb_events bus) (set (eb_names bus))"

text \<open>The queue of listeners of each name.\<close>

fun bindings_view :: "(addr \<times> ('l, 'u) event_name_binding) list \<Rightarrow> string \<Rightarrow> ('l, 'u) event_listener_entry list" where
  "bindings_view [] name = []"
| "bindings_view ((a, bi) # bs) name = (if bi_name bi = name then map snd (bi_listeners bi) else bindings_view bs name)"

abbreviation eb_view :: "('l, 'u, 'p) event_bus \<Rightarrow> string \<Rightarrow> ('l, 'u) event_listener_entry list" where
  "eb_view bus \<equiv> bindings_view (eb_bindings bus)"

lemma eb_malloc_ok: "eb_ok bus \<Longrightarrow> eb_malloc bus = (Some (eb_brk bus), bus\<lparr>eb_brk := Suc (eb_brk bus)\<rparr>)"
  by (simp add: eb_malloc_def eb_ok_def)

lemma eb_malloc_mem: "eb_oom bus = (\<lambda>_. False) \<Longrightarrow> eb_malloc bus = (Some (eb_brk bus), bus\<lparr>eb_brk := Suc (eb_brk bus)\<rparr>)"
  by (simp add: eb_malloc_def)

lemma bindings_ok_mono: "bindings_ok bs brk \<Longrightarrow> brk \<le> brk' \<Longrightarrow> bindings_ok bs brk'"
  by (fastforce simp: bindings_ok_def)

lemma eb_ok_brk: "eb_ok bus \<Longrightarrow> eb_brk bus \<le> n \<Longrightarrow> eb_ok (bus\<lparr>eb_brk := n\<rparr>)"
  by (auto simp: eb_ok_def intro: bindings_ok_mono)

subsection \<open>Finding\<close>

lemma find_binding_None: "find_binding_loop bs name = None \<longleftrightarrow> name \<notin> set (map (bi_name \<circ> snd) bs)"
  by (induction bs name rule: find_binding_loop.induct) auto

lemma find_binding_Some:
  assumes "find_binding_loop bs name = Some b"
  obtains xs bi ys where "bs = xs @ (b, bi) # ys" "bi_name bi = name" "name \<notin> set (map (bi_name \<circ> snd) xs)"
  using assms
proof (induction bs name arbitrary: thesis rule: find_binding_loop.induct)
  case (2 a bi bs name)
  show ?case
  proof (cases "bi_name bi = name")
    case True
    then show ?thesis using 2(2) [of "[]" bi bs] 2(3) by simp
  next
    case False
    with 2(3) have f: "find_binding_loop bs name = Some b" by simp
    obtain xs bi' ys where "bs = xs @ (b, bi') # ys" "bi_name bi' = name" "name \<notin> set (map (bi_name \<circ> snd) xs)"
      by (rule 2(1) [OF False _ f])
    then show ?thesis using 2(2) [of "(a, bi) # xs" bi' ys] False by simp
  qed
qed simp

lemma bindings_view_append:
  "bindings_view (xs @ ys) name = (if name \<in> set (map (bi_name \<circ> snd) xs) then bindings_view xs name else bindings_view ys name)"
  by (induction xs name rule: bindings_view.induct) auto

lemma bindings_view_unbound: "name \<notin> set (map (bi_name \<circ> snd) bs) \<Longrightarrow> bindings_view bs name = []"
  by (induction bs name rule: bindings_view.induct) auto

text \<open>A bus with the binding of a name in sight.\<close>

lemma eb_at:
  assumes "eb_bindings bus = xs @ (b, bi) # ys" and "distinct (map fst (eb_bindings bus))"
  shows "eb_listeners bus b = Some (bi_listeners bi)"
    and "eb_bindings (eb_set_listeners b ls bus) = xs @ (b, bi\<lparr>bi_listeners := ls\<rparr>) # ys"
    and "node_remove b (eb_bindings bus) = xs @ ys"
proof -
  have n: "b \<notin> fst ` set xs" "b \<notin> fst ` set ys" using assms by auto
  then have "map_of xs b = None" by (simp add: map_of_eq_None_iff)
  then show "eb_listeners bus b = Some (bi_listeners bi)" by (simp add: eb_listeners_def assms(1) map_add_def)
  have same: "map (\<lambda>(a, x). (a, if a = b then x\<lparr>bi_listeners := ls\<rparr> else x)) zs = zs" if "b \<notin> fst ` set zs" for zs
    using that by (induction zs) auto
  show "eb_bindings (eb_set_listeners b ls bus) = xs @ (b, bi\<lparr>bi_listeners := ls\<rparr>) # ys"
    using n by (simp add: eb_set_listeners_def assms(1) same)
  have "filter (\<lambda>x. fst x \<noteq> b) zs = zs" if "b \<notin> fst ` set zs" for zs :: "(addr \<times> ('a, 'b) event_name_binding) list"
    using that by (induction zs) auto
  with n show "node_remove b (eb_bindings bus) = xs @ ys" by (simp add: node_remove_def assms(1))
qed

lemma bindings_ok_set:
  assumes "bindings_ok (xs @ (b, bi) # ys) brk" and "distinct (map fst ls)" and "\<forall>y \<in> set ls. fst y < brk"
  shows "bindings_ok (xs @ (b, bi\<lparr>bi_listeners := ls\<rparr>) # ys) brk"
  using assms by (auto simp: bindings_ok_def)

lemma bindings_ok_drop: "bindings_ok (xs @ (b, bi) # ys) brk \<Longrightarrow> bindings_ok (xs @ ys) brk"
  by (auto simp: bindings_ok_def)

lemma ee_find_loop_here:
  assumes "Some name \<in> set (map ev_name es)" and "None \<notin> set (map ev_name es)"
  obtains xs e ys where "es = xs @ e # ys" "ev_name e = Some name" "ee_find_loop es name i = Some (Some (i + length xs))"
  using assms
proof (induction es name i arbitrary: thesis rule: ee_find_loop.induct)
  case (2 e es name i)
  obtain n where n: "ev_name e = Some n" using 2(4) by (cases "ev_name e") auto
  show ?case
  proof (cases "n = name")
    case True
    then show ?thesis using 2(2) [of "[]" e es] n by simp
  next
    case False
    have p: "Some name \<in> set (map ev_name es)" "None \<notin> set (map ev_name es)" using 2(3,4) n False by auto
    obtain xs e' ys where "es = xs @ e' # ys" "ev_name e' = Some name" "ee_find_loop es name (Suc i) = Some (Some (Suc i + length xs))"
      by (rule 2(1) [OF n False _ p])
    then show ?thesis using 2(2) [of "e # xs" e' ys] n False by simp
  qed
qed simp

lemma ee_find_loop_none:
  "Some name \<notin> set (map ev_name es) \<Longrightarrow> None \<notin> set (map ev_name es) \<Longrightarrow> ee_find_loop es name i = Some None"
  by (induction es name i rule: ee_find_loop.induct) (auto split: option.split)

subsection \<open>The emitter\<close>

abbreviation bridge_handler :: ee_handler where
  "bridge_handler \<equiv> \<lparr>eh_cb = event_bridge_dispatch_cb, eh_once = False\<rparr>"

lemma events_ok_names: "events_ok es N \<Longrightarrow> None \<notin> set (map ev_name es) \<and> Some EE_NEW_LISTENER \<notin> set (map ev_name es)"
  by (simp add: events_ok_def)

lemma events_ok_handlers:
  assumes "events_ok (xs @ e # ys) N" and "ev_name e = Some name"
  shows "name \<in> N \<Longrightarrow> \<exists>a. ev_handlers e = [(a, bridge_handler)]" and "name \<notin> N \<Longrightarrow> ev_handlers e = []"
  using assms by (auto simp: events_ok_def)

lemma events_ok_bound: "events_ok es N \<Longrightarrow> name \<in> N \<Longrightarrow> Some name \<in> set (map ev_name es)"
  by (simp add: events_ok_def)

text \<open>Giving one event other handlers.\<close>

lemma events_ok_change:
  assumes "events_ok (xs @ e # ys) N" and "ev_name e = Some name" and "N' - {name} = N - {name}"
    and "if name \<in> N' then \<exists>a. hs = [(a, bridge_handler)] else hs = []"
  shows "events_ok (xs @ e\<lparr>ev_handlers := hs\<rparr> # ys) N'"
proof -
  have same: "n \<noteq> name \<Longrightarrow> n \<in> N' \<longleftrightarrow> n \<in> N" for n using assms(3) by auto
  have other: "the (ev_name d) \<noteq> name" if "d \<in> set xs \<union> set ys" for d
    using that assms(1,2) unfolding events_ok_def by (cases "ev_name d") (auto simp: image_iff)
  have "\<forall>d \<in> set xs \<union> set ys. if the (ev_name d) \<in> N' then \<exists>a. ev_handlers d = [(a, bridge_handler)] else ev_handlers d = []"
    using assms(1) other same unfolding events_ok_def by auto
  moreover have "\<forall>n \<in> N'. Some n \<in> set (map ev_name (xs @ e\<lparr>ev_handlers := hs\<rparr> # ys))"
  proof
    fix n assume "n \<in> N'"
    then show "Some n \<in> set (map ev_name (xs @ e\<lparr>ev_handlers := hs\<rparr> # ys))"
      using assms(1,2) same unfolding events_ok_def by (cases "n = name") auto
  qed
  ultimately show ?thesis using assms(1,2,4) unfolding events_ok_def by auto
qed

lemma events_ok_snoc:
  assumes "events_ok es N" and "Some name \<notin> set (map ev_name es)" and "name \<noteq> EE_NEW_LISTENER"
  shows "events_ok (es @ [\<lparr>ev_name = Some name, ev_handlers = [(a, bridge_handler)]\<rparr>]) (insert name N)"
proof -
  have "the (ev_name d) \<noteq> name" if "d \<in> set es" for d
    using that assms(1,2) unfolding events_ok_def by (cases "ev_name d") (auto simp: image_iff)
  then show ?thesis using assms unfolding events_ok_def by auto
qed

lemma ee_emit_new_ok:
  assumes "eb_oom bus = (\<lambda>_. False)" and "None \<notin> set (map ev_name (eb_events bus))"
    and "Some EE_NEW_LISTENER \<notin> set (map ev_name (eb_events bus))"
  shows "ee_emit_new_listener bus = Some (bus\<lparr>eb_brk := Suc (eb_brk bus)\<rparr>)"
  using assms by (simp add: ee_emit_new_listener_def ee_find_def eb_malloc_mem ee_find_loop_none Let_def)

text \<open>No event goes away or loses a handler.\<close>

definition events_ext :: "ee_event list \<Rightarrow> ee_event list \<Rightarrow> bool" where
  "events_ext es es' \<longleftrightarrow> (\<forall>i < length es. i < length es' \<and> (\<exists>hs. ev_handlers (es' ! i) = ev_handlers (es ! i) @ hs))"

lemma events_ext_refl [simp]: "events_ext es es"
  by (simp add: events_ext_def)

lemma events_ext_trans: "events_ext a b \<Longrightarrow> events_ext b d \<Longrightarrow> events_ext a d"
  unfolding events_ext_def by (metis append_assoc)

lemma events_ext_snoc: "events_ext es (es @ ds)"
  by (simp add: events_ext_def nth_append)

lemma events_ext_handlers:
  "ev_handlers e = [] \<Longrightarrow> events_ext (xs @ e # ys) (xs @ e\<lparr>ev_handlers := hs\<rparr> # ys)"
  by (auto simp: events_ext_def nth_append nth_Cons split: nat.split)

lemma ee_on_spec:
  assumes oom: "eb_oom bus = (\<lambda>_. False)" and ok: "events_ok (eb_events bus) N" and n: "name \<notin> N" "name \<noteq> EE_NEW_LISTENER"
  shows "\<exists>es brk. ee_on bus name = Some (bus\<lparr>eb_events := es, eb_brk := brk\<rparr>) \<and> events_ok es (insert name N) \<and> eb_brk bus \<le> brk \<and>
    events_ext (eb_events bus) es"
proof (cases "Some name \<in> set (map ev_name (eb_events bus))")
  case True
  obtain xs e ys where e: "eb_events bus = xs @ e # ys" "ev_name e = Some name"
    and f: "ee_find_loop (eb_events bus) name 0 = Some (Some (0 + length xs))"
    by (rule ee_find_loop_here [OF True]) (use ok in \<open>simp add: events_ok_def\<close>)
  have h: "ev_handlers e = []" using events_ok_handlers(2) [OF ok [unfolded e(1)] e(2) n(1)] .
  let ?es = "xs @ e\<lparr>ev_handlers := [(Suc (Suc (eb_brk bus)), bridge_handler)]\<rparr> # ys"
  have ok': "events_ok ?es (insert name N)" by (rule events_ok_change [OF ok [unfolded e(1)] e(2)]) (use n in auto)
  have "ee_on bus name = ee_emit_new_listener (bus\<lparr>eb_events := ?es, eb_brk := eb_brk bus + 3\<rparr>)"
    using f n(2) oom h e(1) by (cases bus) (simp add: ee_on_def ee_find_def eb_malloc_mem Let_def ee_add_handler_def numeral_3_eq_3)
  also have "\<dots> = Some (bus\<lparr>eb_events := ?es, eb_brk := Suc (eb_brk bus + 3)\<rparr>)"
    using ee_emit_new_ok [of "bus\<lparr>eb_events := ?es, eb_brk := eb_brk bus + 3\<rparr>"] oom events_ok_names [OF ok'] by simp
  finally show ?thesis using ok' events_ext_handlers [OF h, of xs ys] e(1)
    by (intro exI [of _ ?es] exI [of _ "Suc (eb_brk bus + 3)"]) simp
next
  case False
  have f: "ee_find_loop (eb_events bus) name 0 = Some None"
    by (rule ee_find_loop_none [OF False]) (use ok in \<open>simp add: events_ok_def\<close>)
  let ?es = "eb_events bus @ [\<lparr>ev_name = Some name, ev_handlers = [(eb_brk bus + 6, bridge_handler)]\<rparr>]"
  have ok': "events_ok ?es (insert name N)" by (rule events_ok_snoc [OF ok False n(2)])
  have "ee_on bus name = ee_emit_new_listener (bus\<lparr>eb_events := ?es, eb_brk := eb_brk bus + 7\<rparr>)"
    using f n(2) oom by (cases bus) (simp add: ee_on_def ee_find_def ee_event_new_def eb_malloc_mem Let_def ee_add_handler_def eval_nat_numeral)
  also have "\<dots> = Some (bus\<lparr>eb_events := ?es, eb_brk := Suc (eb_brk bus + 7)\<rparr>)"
    using ee_emit_new_ok [of "bus\<lparr>eb_events := ?es, eb_brk := eb_brk bus + 7\<rparr>"] oom events_ok_names [OF ok'] by simp
  finally show ?thesis using ok' by (intro exI [of _ ?es] exI [of _ "Suc (eb_brk bus + 7)"]) (simp add: events_ext_snoc)
qed

lemma ee_remove_listener_spec:
  assumes oom: "eb_oom bus = (\<lambda>_. False)" and ok: "events_ok (eb_events bus) N" and n: "name \<in> N"
  shows "\<exists>es. ee_remove_listener bus name = Some (bus\<lparr>eb_events := es, eb_brk := eb_brk bus + 2\<rparr>) \<and> events_ok es (N - {name})"
proof -
  obtain xs e ys where e: "eb_events bus = xs @ e # ys" "ev_name e = Some name"
    and f: "ee_find_loop (eb_events bus) name 0 = Some (Some (0 + length xs))"
    by (rule ee_find_loop_here [OF events_ok_bound [OF ok n]]) (use ok in \<open>simp add: events_ok_def\<close>)
  obtain a where h: "ev_handlers e = [(a, bridge_handler)]" using events_ok_handlers(1) [OF ok [unfolded e(1)] e(2) n] by blast
  let ?es = "xs @ e\<lparr>ev_handlers := []\<rparr> # ys"
  have "events_ok ?es (N - {name})" by (rule events_ok_change [OF ok [unfolded e(1)] e(2)]) auto
  moreover have "ee_remove_listener bus name = Some (bus\<lparr>eb_events := ?es, eb_brk := eb_brk bus + 2\<rparr>)"
    using f oom h by (simp add: ee_remove_listener_def ee_find_def eb_malloc_mem Let_def e(1) node_remove_def)
  ultimately show ?thesis by blast
qed

text \<open>One emission calls the bridge once, and then looks at the handler again.\<close>

lemma ee_emit_spec:
  assumes oom: "eb_oom bus = (\<lambda>_. False)" and ok: "events_ok (eb_events bus) N" and n: "name \<in> N" and k: "0 < k"
    and cb: "cb (bus\<lparr>eb_brk := eb_brk bus + 2\<rparr>) = Some (True, bus')" and ev: "eb_events bus' = eb_events bus"
  shows "ee_emit cb k bus name = Some (True, bus')"
proof -
  obtain xs e ys where e: "eb_events bus = xs @ e # ys" "ev_name e = Some name"
    and f: "ee_find_loop (eb_events bus) name 0 = Some (Some (0 + length xs))"
    by (rule ee_find_loop_here [OF events_ok_bound [OF ok n]]) (use ok in \<open>simp add: events_ok_def\<close>)
  obtain a where h: "ev_handlers e = [(a, bridge_handler)]" using events_ok_handlers(1) [OF ok [unfolded e(1)] e(2) n] by blast
  obtain j where j: "k = Suc j" using k by (cases k) auto
  have "ee_emit_loop cb j (length xs) None b = Some (True, b)" for b by (cases j) simp_all
  then show ?thesis using f oom h cb ev
    by (simp add: ee_emit_def ee_find_def eb_malloc_mem Let_def e(1) node_first_def j)
qed

lemma ee_emit_unbound:
  assumes oom: "eb_oom bus = (\<lambda>_. False)" and ok: "events_ok (eb_events bus) N" and n: "name \<notin> N"
  shows "\<exists>brk. ee_emit cb k bus name = Some (True, bus\<lparr>eb_brk := brk\<rparr>) \<and> eb_brk bus \<le> brk"
proof (cases "Some name \<in> set (map ev_name (eb_events bus))")
  case True
  obtain xs e ys where e: "eb_events bus = xs @ e # ys" "ev_name e = Some name"
    and f: "ee_find_loop (eb_events bus) name 0 = Some (Some (0 + length xs))"
    by (rule ee_find_loop_here [OF True]) (use ok in \<open>simp add: events_ok_def\<close>)
  have h: "ev_handlers e = []" using events_ok_handlers(2) [OF ok [unfolded e(1)] e(2) n] .
  have "ee_emit_loop cb k (length xs) None b = Some (True, b)" for b by (cases k) simp_all
  then have "ee_emit cb k bus name = Some (True, bus\<lparr>eb_brk := eb_brk bus + 2\<rparr>)"
    using f oom h by (simp add: ee_emit_def ee_find_def eb_malloc_mem Let_def e(1) node_first_def)
  then show ?thesis by (intro exI [of _ "eb_brk bus + 2"]) simp
next
  case False
  have f: "ee_find_loop (eb_events bus) name 0 = Some None"
    by (rule ee_find_loop_none [OF False]) (use ok in \<open>simp add: events_ok_def\<close>)
  then have "ee_emit cb k bus name = Some (True, bus\<lparr>eb_brk := Suc (eb_brk bus)\<rparr>)"
    using oom by (simp add: ee_emit_def ee_find_def eb_malloc_mem)
  then show ?thesis by (intro exI [of _ "Suc (eb_brk bus)"]) simp
qed

subsection \<open>Operations of the bus\<close>

lemma eb_okD:
  assumes "eb_ok bus"
  shows "eb_oom bus = (\<lambda>_. False)" "bindings_ok (eb_bindings bus) (eb_brk bus)" "events_ok (eb_events bus) (set (eb_names bus))"
    "distinct (map fst (eb_bindings bus))" "distinct (eb_names bus)"
  using assms by (simp_all add: eb_ok_def bindings_ok_def)

lemma find_binding_ok:
  "eb_ok bus \<Longrightarrow> find_binding bus name = (find_binding_loop (eb_bindings bus) name, bus\<lparr>eb_brk := Suc (eb_brk bus)\<rparr>)"
  by (simp add: find_binding_def eb_malloc_ok)

text \<open>What adding listeners keeps: every list of listeners only grows at its end.\<close>

definition extends :: "('l, 'u, 'p) event_bus \<Rightarrow> ('l, 'u, 'p) event_bus \<Rightarrow> bool" where
  "extends bus bus' \<longleftrightarrow> events_ext (eb_events bus) (eb_events bus') \<and>
     (\<forall>b ls. eb_listeners bus b = Some ls \<longrightarrow> (\<exists>ls'. eb_listeners bus' b = Some (ls @ ls')))"

lemma extends_refl: "eb_bindings bus' = eb_bindings bus \<Longrightarrow> eb_events bus' = eb_events bus \<Longrightarrow> extends bus bus'"
  unfolding extends_def eb_listeners_def by (metis append_Nil2 events_ext_refl)

lemma extends_listenersE:
  assumes "extends bus bus'" and "eb_listeners bus b = Some ls"
  obtains ls' where "eb_listeners bus' b = Some (ls @ ls')"
  using assms by (auto simp: extends_def)

lemma extends_trans:
  assumes "extends a b" and "extends b d" shows "extends a d"
  unfolding extends_def
proof (intro conjI allI impI)
  show "events_ext (eb_events a) (eb_events d)"
    by (rule events_ext_trans [of _ "eb_events b"]) (use assms in \<open>simp_all add: extends_def\<close>)
  fix c ls assume "eb_listeners a c = Some ls"
  then obtain l1 where "eb_listeners b c = Some (ls @ l1)" by (rule extends_listenersE [OF assms(1)])
  then obtain l2 where "eb_listeners d c = Some ((ls @ l1) @ l2)" by (rule extends_listenersE [OF assms(2)])
  then show "\<exists>ls'. eb_listeners d c = Some (ls @ ls')" by simp
qed

lemma extends_snoc: "eb_bindings bus' = eb_bindings bus @ bs \<Longrightarrow> events_ext (eb_events bus) (eb_events bus') \<Longrightarrow> extends bus bus'"
  by (auto simp: extends_def eb_listeners_def map_add_def)

lemma extends_listeners:
  assumes "distinct (map fst (eb_bindings bus))" and "eb_bindings bus = xs @ (b, bi) # ys"
    and "eb_bindings bus' = xs @ (b, bi\<lparr>bi_listeners := bi_listeners bi @ ls'\<rparr>) # ys"
    and "eb_events bus' = eb_events bus"
  shows "extends bus bus'"
  unfolding extends_def
proof (intro conjI allI impI)
  show "events_ext (eb_events bus) (eb_events bus')" by (simp add: assms(4))
next
  fix a ls assume ls: "eb_listeners bus a = Some ls"
  show "\<exists>ls'. eb_listeners bus' a = Some (ls @ ls')"
  proof (cases "a = b")
    case True
    have "distinct (map fst (eb_bindings bus'))" using assms by simp
    then show ?thesis using eb_at(1) [OF assms(2,1)] eb_at(1) [OF assms(3)] ls True by simp
  next
    case False
    then have "eb_listeners bus' a = eb_listeners bus a" using assms(2,3) by (simp add: eb_listeners_def map_add_def split: option.split)
    then show ?thesis using ls by simp
  qed
qed

lemma ensure_binding_spec:
  assumes ok: "eb_ok bus" and n: "name \<noteq> EE_NEW_LISTENER"
  shows "\<exists>b bus'. ensure_binding bus name = Some (Some b, bus') \<and> eb_ok bus' \<and> find_binding_loop (eb_bindings bus') name = Some b \<and>
    eb_view bus' = eb_view bus \<and> eb_calls bus' = eb_calls bus \<and> extends bus bus'"
proof (cases "find_binding_loop (eb_bindings bus) name")
  case (Some b)
  then have "ensure_binding bus name = Some (Some b, bus\<lparr>eb_brk := Suc (eb_brk bus)\<rparr>)"
    using ok by (simp add: ensure_binding_def find_binding_ok)
  then show ?thesis using Some eb_ok_brk [OF ok] by (simp add: extends_refl)
next
  case None
  let ?a = "eb_brk bus + 4"
  let ?bs = "eb_bindings bus @ [(?a, \<lparr>bi_name = name, bi_listeners = []\<rparr>)]"
  let ?b = "bus\<lparr>eb_brk := eb_brk bus + 5, eb_bindings := ?bs\<rparr>"
  have new: "name \<notin> set (eb_names bus)" using None by (simp add: find_binding_None)
  obtain es brk where on: "ee_on ?b name = Some (?b\<lparr>eb_events := es, eb_brk := brk\<rparr>)"
    "events_ok es (insert name (set (eb_names bus)))" "eb_brk ?b \<le> brk" "events_ext (eb_events ?b) es"
    using ee_on_spec [of ?b "set (eb_names bus)" name] eb_okD [OF ok] new n by auto
  let ?r = "?b\<lparr>eb_events := es, eb_brk := brk\<rparr>"
  have "ensure_binding bus name = map_option (Pair (Some ?a)) (ee_on ?b name)"
    using ok None eb_okD(1) [OF ok]
    by (simp add: ensure_binding_def find_binding_ok eb_malloc_mem Let_def eval_nat_numeral map_conv_bind_option comp_def)
  then have e: "ensure_binding bus name = Some (Some ?a, ?r)" by (simp add: on(1))
  have brk: "?a < brk" "eb_brk bus \<le> brk" using on(3) by simp_all
  have "bindings_ok ?bs brk" using eb_okD(2) [OF ok] new brk by (fastforce simp: bindings_ok_def)
  then have ok': "eb_ok ?r" using eb_okD [OF ok] on(2) by (simp add: eb_ok_def comp_def)
  have f: "find_binding_loop (eb_bindings ?r) name = Some ?a"
  proof -
    have "name \<notin> set (map (bi_name \<circ> snd) bs) \<Longrightarrow> find_binding_loop (bs @ [(?a, \<lparr>bi_name = name, bi_listeners = []\<rparr>)]) name = Some ?a"
      for bs :: "(addr \<times> ('a, 'b) event_name_binding) list"
      by (induction bs name rule: find_binding_loop.induct) auto
    then show ?thesis using new by simp
  qed
  have v: "eb_view ?r = eb_view bus"
  proof
    fix nm
    show "eb_view ?r nm = eb_view bus nm"
      using bindings_view_unbound [of nm "eb_bindings bus"] by (simp add: bindings_view_append)
  qed
  have "extends bus ?r" "eb_calls ?r = eb_calls bus" by (rule extends_snoc, use on(4) in simp_all)
  with e ok' f v show ?thesis by blast
qed

lemma add_listener_spec:
  assumes ok: "eb_ok bus" and n: "name \<noteq> EE_NEW_LISTENER" "name \<noteq> []"
  shows "\<exists>bus'. add_listener_internal bus (Some name) (Some l) u once = Some (0, bus') \<and> eb_ok bus' \<and>
    eb_view bus' = (eb_view bus)(name := eb_view bus name @ [\<lparr>el_listener = l, el_user_data = u, el_once = once\<rparr>]) \<and>
    eb_calls bus' = eb_calls bus \<and> extends bus bus'"
proof -
  obtain b b1 where en: "ensure_binding bus name = Some (Some b, b1)" and ok1: "eb_ok b1"
    and f: "find_binding_loop (eb_bindings b1) name = Some b" and v: "eb_view b1 = eb_view bus" "eb_calls b1 = eb_calls bus"
    and x: "extends bus b1"
    using ensure_binding_spec [OF ok n(1)] by (elim exE conjE)
  obtain xs bi ys where bs: "eb_bindings b1 = xs @ (b, bi) # ys" "bi_name bi = name" "name \<notin> set (map (bi_name \<circ> snd) xs)"
    by (rule find_binding_Some [OF f])
  let ?e = "\<lparr>el_listener = l, el_user_data = u, el_once = once\<rparr>"
  let ?ls = "bi_listeners bi @ [(Suc (eb_brk b1), ?e)]"
  let ?c = "b1\<lparr>eb_brk := Suc (Suc (eb_brk b1))\<rparr>"
  let ?r = "eb_set_listeners b ?ls ?c"
  have bsc: "eb_bindings ?c = xs @ (b, bi) # ys" and dc: "distinct (map fst (eb_bindings ?c))" using bs(1) eb_okD(4) [OF ok1] by simp_all
  note at = eb_at [OF bsc dc]
  have r: "add_listener_internal bus (Some name) (Some l) u once = Some (0, ?r)"
    using n(2) en eb_okD(1) [OF ok1] at(1) by (simp add: add_listener_internal_def eb_malloc_mem Let_def)
  have o: "eb_oom ?r = (\<lambda>_. False)" "eb_events ?r = eb_events b1" "eb_brk ?r = Suc (Suc (eb_brk b1))" "eb_calls ?r = eb_calls bus"
    using eb_okD(1) [OF ok1] v(2) by (simp_all add: eb_set_listeners_def)
  have bk: "bindings_ok (xs @ (b, bi) # ys) (Suc (Suc (eb_brk b1)))"
    using eb_okD(2) [OF ok1] bs(1) by (auto intro: bindings_ok_mono)
  have old: "bindings_ok (xs @ (b, bi) # ys) (eb_brk b1)" using eb_okD(2) [OF ok1] bs(1) by simp
  then have fresh: "\<forall>y \<in> set (bi_listeners bi). fst y < eb_brk b1" "distinct (map fst (bi_listeners bi))" by (simp_all add: bindings_ok_def)
  have "bindings_ok (eb_bindings ?r) (eb_brk ?r)" unfolding at(2) o(3)
    by (rule bindings_ok_set [OF bk]) (use fresh in \<open>fastforce+\<close>)
  moreover have nm: "eb_names ?r = eb_names b1" unfolding at(2) by (simp add: bs(1) comp_def)
  ultimately have ok': "eb_ok ?r" using o eb_okD(3) [OF ok1] unfolding eb_ok_def nm by simp
  have vw: "eb_view ?r = (eb_view bus)(name := eb_view bus name @ [?e])"
  proof
    fix nm
    show "eb_view ?r nm = ((eb_view bus)(name := eb_view bus name @ [?e])) nm"
      unfolding v(1) [symmetric] at(2) using bs(2,3) by (simp add: bs(1) bindings_view_append)
  qed
  have "extends b1 ?r" by (rule extends_listeners [OF eb_okD(4) [OF ok1] bs(1) at(2) o(2)])
  with x have "extends bus ?r" by (rule extends_trans)
  with r ok' vw o(4) show ?thesis by blast
qed

primrec remove_first :: "('a \<Rightarrow> bool) \<Rightarrow> 'a list \<Rightarrow> 'a list" where
  "remove_first P [] = []"
| "remove_first P (x # xs) = (if P x then xs else x # remove_first P xs)"

abbreviation is_entry :: "'l \<Rightarrow> 'u \<Rightarrow> ('l, 'u) event_listener_entry \<Rightarrow> bool" where
  "is_entry l u e \<equiv> el_listener e = l \<and> el_user_data e = u"

lemma node_remove_absent [simp]: "a \<notin> fst ` set xs \<Longrightarrow> node_remove a xs = xs"
  unfolding node_remove_def by (induction xs) auto

lemma node_remove_Cons [simp]: "node_remove a ((b, v) # xs) = (if a = b then node_remove a xs else (b, v) # node_remove a xs)"
  by (simp add: node_remove_def)

lemma off_loop_None: "off_loop l u ls = None \<Longrightarrow> remove_first (is_entry l u) (map snd ls) = map snd ls"
  by (induction l u ls rule: off_loop.induct) (auto split: if_splits)

lemma off_loop_Some:
  "off_loop l u ls = Some a \<Longrightarrow> distinct (map fst ls) \<Longrightarrow>
     map snd (node_remove a ls) = remove_first (is_entry l u) (map snd ls) \<and> a \<in> fst ` set ls"
  by (induction l u ls rule: off_loop.induct) (auto split: if_splits)

lemma set_listeners_spec:
  assumes ok: "eb_ok bus" and bs: "eb_bindings bus = xs @ (b, bi) # ys" "bi_name bi = name"
    and ls: "distinct (map fst ls)" "\<forall>y \<in> set ls. fst y < eb_brk bus"
  shows "eb_ok (eb_set_listeners b ls bus) \<and> eb_view (eb_set_listeners b ls bus) = (eb_view bus)(name := map snd ls)"
proof -
  note at = eb_at [OF bs(1) eb_okD(4) [OF ok]]
  let ?r = "eb_set_listeners b ls bus"
  have o: "eb_oom ?r = eb_oom bus" "eb_events ?r = eb_events bus" "eb_brk ?r = eb_brk bus" by (simp_all add: eb_set_listeners_def)
  have "bindings_ok (eb_bindings ?r) (eb_brk ?r)" unfolding at(2) o(3)
    by (rule bindings_ok_set) (use eb_okD(2) [OF ok] bs(1) ls in simp_all)
  moreover have nm: "eb_names ?r = eb_names bus" unfolding at(2) by (simp add: bs(1) comp_def)
  ultimately have ok': "eb_ok ?r" using o eb_okD [OF ok] unfolding eb_ok_def nm by simp
  have x: "name \<notin> set (map (bi_name \<circ> snd) xs)" using eb_okD(5) [OF ok] bs by (auto simp: comp_def)
  have "eb_view ?r nm = ((eb_view bus)(name := map snd ls)) nm" for nm
    unfolding at(2) using bs(2) x by (simp add: bs(1) bindings_view_append)
  with ok' show ?thesis by blast
qed

text \<open>The binding of a name, as the operations meet it.\<close>

lemma bound_at:
  assumes ok: "eb_ok bus" and f: "find_binding_loop (eb_bindings bus) name = Some b"
  obtains xs bi ys where "eb_bindings bus = xs @ (b, bi) # ys" "bi_name bi = name" "eb_listeners bus b = Some (bi_listeners bi)"
    "eb_view bus name = map snd (bi_listeners bi)" "distinct (map fst (bi_listeners bi))" "\<forall>y \<in> set (bi_listeners bi). fst y < eb_brk bus"
    "name \<in> set (eb_names bus)" "node_remove b (eb_bindings bus) = xs @ ys"
proof -
  obtain xs bi ys where bs: "eb_bindings bus = xs @ (b, bi) # ys" "bi_name bi = name" "name \<notin> set (map (bi_name \<circ> snd) xs)"
    by (rule find_binding_Some [OF f])
  note at = eb_at [OF bs(1) eb_okD(4) [OF ok]]
  have "bindings_ok (xs @ (b, bi) # ys) (eb_brk bus)" using eb_okD(2) [OF ok] bs(1) by simp
  then have "distinct (map fst (bi_listeners bi))" "\<forall>y \<in> set (bi_listeners bi). fst y < eb_brk bus" by (simp_all add: bindings_ok_def)
  moreover have "eb_view bus name = map snd (bi_listeners bi)" using bs by (simp add: bindings_view_append)
  moreover have "name \<in> set (eb_names bus)" using bs by simp
  ultimately show thesis using that bs(1,2) at(1,3) by blast
qed

lemma bound_listeners:
  assumes "eb_ok bus" and "find_binding_loop (eb_bindings bus) name = Some b"
  shows "\<exists>ls. eb_listeners bus b = Some ls \<and> eb_view bus name = map snd ls"
  by (rule bound_at [OF assms]) blast

lemma eb_brk_commute [simp]: "eb_bindings (bus\<lparr>eb_brk := n\<rparr>) = eb_bindings bus" "eb_listeners (bus\<lparr>eb_brk := n\<rparr>) b = eb_listeners bus b"
  by (simp_all add: eb_listeners_def)

lemma event_bus_off_spec:
  assumes ok: "eb_ok bus"
  shows "\<exists>bus'. event_bus_off bus (Some name) (Some l) u = Some (0, bus') \<and> eb_ok bus' \<and>
    eb_view bus' = (eb_view bus)(name := remove_first (is_entry l u) (eb_view bus name)) \<and> eb_calls bus' = eb_calls bus"
proof -
  let ?c = "bus\<lparr>eb_brk := Suc (eb_brk bus)\<rparr>"
  have okc: "eb_ok ?c" by (rule eb_ok_brk [OF ok]) simp
  show ?thesis
  proof (cases "find_binding_loop (eb_bindings bus) name")
    case None
    then have "event_bus_off bus (Some name) (Some l) u = Some (0, ?c)" using ok by (simp add: event_bus_off_def find_binding_ok)
    moreover have "eb_view bus name = []" using None by (simp add: find_binding_None bindings_view_unbound)
    ultimately show ?thesis using okc by (auto simp: fun_upd_idem)
  next
    case (Some b)
    then have f: "find_binding_loop (eb_bindings ?c) name = Some b" by simp
    obtain xs bi ys where bs: "eb_bindings ?c = xs @ (b, bi) # ys" "bi_name bi = name" and ls: "eb_listeners ?c b = Some (bi_listeners bi)"
      and v: "eb_view ?c name = map snd (bi_listeners bi)" and d: "distinct (map fst (bi_listeners bi))" "\<forall>y \<in> set (bi_listeners bi). fst y < eb_brk ?c"
      by (rule bound_at [OF okc f])
    have r: "event_bus_off bus (Some name) (Some l) u = Some (0, case off_loop l u (bi_listeners bi) of None \<Rightarrow> ?c
        | Some a \<Rightarrow> eb_set_listeners b (node_remove a (bi_listeners bi)) ?c)"
      using ok Some ls by (simp add: event_bus_off_def find_binding_ok)
    show ?thesis
    proof (cases "off_loop l u (bi_listeners bi)")
      case None
      then have "remove_first (is_entry l u) (eb_view bus name) = eb_view bus name" using v by (simp add: off_loop_None)
      then show ?thesis using r None okc by (intro exI [of _ ?c]) (simp add: fun_upd_idem)
    next
      case (Some a)
      let ?ls = "node_remove a (bi_listeners bi)"
      have e: "map snd ?ls = remove_first (is_entry l u) (eb_view bus name)" using off_loop_Some [OF Some d(1)] v by simp
      have "distinct (map fst ?ls)" "\<forall>y \<in> set ?ls. fst y < eb_brk ?c" using d by (auto simp: node_remove_def distinct_map_filter)
      from set_listeners_spec [OF okc bs this] r Some e show ?thesis
        by (intro exI [of _ "eb_set_listeners b ?ls ?c"]) (simp add: eb_set_listeners_def)
    qed
  qed
qed

lemma event_bus_off_all_spec:
  assumes ok: "eb_ok bus"
  shows "\<exists>bus'. event_bus_off_all bus (Some name) = Some (0, bus') \<and> eb_ok bus' \<and>
    eb_view bus' = (eb_view bus)(name := []) \<and> eb_calls bus' = eb_calls bus"
proof -
  let ?c = "bus\<lparr>eb_brk := Suc (eb_brk bus)\<rparr>"
  have okc: "eb_ok ?c" by (rule eb_ok_brk [OF ok]) simp
  show ?thesis
  proof (cases "find_binding_loop (eb_bindings bus) name")
    case None
    then have "event_bus_off_all bus (Some name) = Some (0, ?c)" using ok by (simp add: event_bus_off_all_def find_binding_ok)
    moreover have "eb_view bus name = []" using None by (simp add: find_binding_None bindings_view_unbound)
    ultimately show ?thesis using okc by (auto simp: fun_upd_idem)
  next
    case (Some b)
    then have f: "find_binding_loop (eb_bindings ?c) name = Some b" by simp
    obtain xs bi ys where bs: "eb_bindings ?c = xs @ (b, bi) # ys" "bi_name bi = name"
      and nm: "name \<in> set (eb_names ?c)" and rm: "node_remove b (eb_bindings ?c) = xs @ ys"
      by (rule bound_at [OF okc f])
    obtain es where e: "ee_remove_listener ?c name = Some (?c\<lparr>eb_events := es, eb_brk := eb_brk ?c + 2\<rparr>)"
      "events_ok es (set (eb_names ?c) - {name})"
      using ee_remove_listener_spec [OF eb_okD(1,3) [OF okc] nm] by (elim exE conjE)
    let ?r = "(?c\<lparr>eb_events := es, eb_brk := eb_brk ?c + 2\<rparr>)\<lparr>eb_bindings := xs @ ys\<rparr>"
    have r: "event_bus_off_all bus (Some name) = Some (0, ?r)"
      using ok Some e(1) rm by (simp add: event_bus_off_all_def find_binding_ok)
    have n: "set (map (bi_name \<circ> snd) (xs @ ys)) = set (eb_names ?c) - {name}"
      using eb_okD(5) [OF okc] bs by auto
    have "bindings_ok (xs @ ys) (eb_brk ?r)"
      using bindings_ok_mono [OF bindings_ok_drop [OF eb_okD(2) [OF okc, unfolded bs(1)]], of "eb_brk ?r"] by simp
    then have ok': "eb_ok ?r" using e(2) n eb_okD(1) [OF okc] by (simp add: eb_ok_def comp_def)
    have x: "name \<notin> set (map (bi_name \<circ> snd) (xs @ ys))" using n by simp
    have "eb_view ?r nm = ((eb_view bus)(name := [])) nm" for nm
      using bs x bindings_view_unbound [OF x] by (simp add: bindings_view_append)
    then have "eb_view ?r = (eb_view bus)(name := [])" by blast
    with r ok' show ?thesis by (intro exI [of _ ?r] conjI) simp_all
  qed
qed

section \<open>Emission with listeners that leave the bus alone\<close>

abbreviation idle :: "('l, 'u, 'p) listeners" where
  "idle \<equiv> \<lambda>_ _ _ _. []"

definition called :: "'p \<Rightarrow> ('l, 'u) event_listener_entry \<Rightarrow> 'l \<times> 'p \<times> 'u" where
  "called p e = (el_listener e, p, el_user_data e)"

lemma node_at_split:
  "a \<notin> fst ` set xs \<Longrightarrow> node_at a (xs @ (a, v) # ys) = Some (v, node_first ys)"
  by (induction xs) (auto simp: node_first_def split: list.split)

lemma node_remove_split:
  "a \<notin> fst ` set xs \<Longrightarrow> a \<notin> fst ` set ys \<Longrightarrow> node_remove a (xs @ (a, v) # ys) = xs @ ys"
  using node_remove_absent [of a xs] node_remove_absent [of a ys] by (simp add: node_remove_def)

lemma set_listeners_same:
  assumes "eb_listeners bus b = Some ls" and "distinct (map fst (eb_bindings bus))"
  shows "eb_set_listeners b ls bus = bus"
proof -
  obtain bi where bi: "map_of (eb_bindings bus) b = Some bi" "bi_listeners bi = ls" using assms(1) by (auto simp: eb_listeners_def)
  from map_of_SomeD [OF bi(1)] obtain xs ys where bs: "eb_bindings bus = xs @ (b, bi) # ys" by (metis split_list)
  have "eb_bindings (eb_set_listeners b ls bus) = eb_bindings bus" unfolding eb_at(2) [OF bs assms(2)] using bs bi(2) by simp
  then show ?thesis by (cases bus) (simp add: eb_set_listeners_def)
qed

lemma set_listeners_twice: "eb_set_listeners b ls' (eb_set_listeners b ls bus) = eb_set_listeners b ls' bus"
  by (cases bus) (auto simp: eb_set_listeners_def)

lemma listeners_set:
  assumes "eb_listeners bus b \<noteq> None" and "distinct (map fst (eb_bindings bus))"
  shows "eb_listeners (eb_set_listeners b ls bus) b = Some ls" and "distinct (map fst (eb_bindings (eb_set_listeners b ls bus)))"
proof -
  obtain bi where bi: "map_of (eb_bindings bus) b = Some bi" using assms(1) by (auto simp: eb_listeners_def)
  from map_of_SomeD [OF bi] obtain xs ys where bs: "eb_bindings bus = xs @ (b, bi) # ys" by (metis split_list)
  note n = eb_at(2) [OF bs assms(2), of ls]
  have d: "distinct (map fst (eb_bindings (eb_set_listeners b ls bus)))" unfolding n using assms(2) by (simp add: bs)
  then show "distinct (map fst (eb_bindings (eb_set_listeners b ls bus)))" .
  show "eb_listeners (eb_set_listeners b ls bus) b = Some ls" using eb_at(1) [OF n d] by simp
qed

lemma calls_commute [simp]:
  "eb_bindings (bus\<lparr>eb_calls := cs\<rparr>) = eb_bindings bus" "eb_listeners (bus\<lparr>eb_calls := cs\<rparr>) b = eb_listeners bus b"
  "eb_calls (eb_set_listeners b ls bus) = eb_calls bus"
  "(eb_set_listeners b ls bus)\<lparr>eb_calls := cs\<rparr> = eb_set_listeners b ls (bus\<lparr>eb_calls := cs\<rparr>)"
  by (simp_all add: eb_listeners_def eb_set_listeners_def)

lemma dispatch_idle:
  assumes "distinct (map fst (eb_bindings bus))" and "eb_listeners bus b = Some (kept @ rest)"
    and "distinct (map fst (kept @ rest))" and "length rest \<le> k"
  shows "dispatch_loop emit idle k b (node_first rest) p bus = Some (True,
     (eb_set_listeners b (kept @ filter (\<lambda>x. \<not> el_once (snd x)) rest) bus)\<lparr>eb_calls := eb_calls bus @ map (called p \<circ> snd) rest\<rparr>)"
  using assms
proof (induction rest arbitrary: kept bus k)
  case Nil
  have "dispatch_loop emit idle k b None p bus = Some (True, bus)" by (cases k) simp_all
  moreover have "eb_set_listeners b kept bus = bus" using Nil by (simp add: set_listeners_same)
  ultimately show ?case by (simp add: node_first_def del: calls_commute(4))
next
  case (Cons x rest)
  obtain a e where x: "x = (a, e)" by (cases x)
  obtain j where j: "k = Suc j" using Cons.prems(4) by (cases k) auto
  have a: "a \<notin> fst ` set kept" "a \<notin> fst ` set rest" using Cons.prems(3) by (auto simp: x)
  note at = node_at_split [OF a(1), of e rest] and rm = node_remove_split [OF a, of e]
  let ?b = "bus\<lparr>eb_calls := eb_calls bus @ [called p e]\<rparr>"
  have first: "node_first (x # rest) = Some a" by (simp add: node_first_def x)
  show ?case
  proof (cases "el_once e")
    case True
    let ?c = "eb_set_listeners b (kept @ rest) ?b"
    have ls: "eb_listeners ?b b \<noteq> None" "distinct (map fst (eb_bindings ?b))" using Cons.prems(1,2) by simp_all
    have "dispatch_loop emit idle k b (Some a) p bus = dispatch_loop emit idle j b (node_first rest) p ?c"
      using Cons.prems(2) at rm True by (simp add: j x called_def)
    also have "\<dots> = Some (True, (eb_set_listeners b (kept @ filter (\<lambda>x. \<not> el_once (snd x)) rest) ?c)\<lparr>eb_calls := eb_calls ?c @ map (called p \<circ> snd) rest\<rparr>)"
      by (rule Cons.IH) (use listeners_set [OF ls, of "kept @ rest"] Cons.prems(3,4) in \<open>simp_all add: x j\<close>)
    finally show ?thesis unfolding first using True by (simp add: x set_listeners_twice comp_def)
  next
    case False
    have "dispatch_loop emit idle k b (Some a) p bus = dispatch_loop emit idle j b (node_first rest) p ?b"
      using Cons.prems(2) at rm False by (simp add: j x called_def)
    also have "\<dots> = Some (True, (eb_set_listeners b ((kept @ [x]) @ filter (\<lambda>x. \<not> el_once (snd x)) rest) ?b)\<lparr>eb_calls := eb_calls ?b @ map (called p \<circ> snd) rest\<rparr>)"
      by (rule Cons.IH) (use Cons.prems in \<open>simp_all add: j\<close>)
    finally show ?thesis unfolding first using False by (simp add: x comp_def)
  qed
qed

lemma event_bus_emit_spec:
  assumes ok: "eb_ok bus" and n: "length (eb_view bus name) < n"
  shows "\<exists>bus'. event_bus_emit idle (Suc n) bus name p = Some (True, bus') \<and> eb_ok bus' \<and>
    eb_view bus' = (eb_view bus)(name := filter (\<lambda>e. \<not> el_once e) (eb_view bus name)) \<and>
    eb_calls bus' = eb_calls bus @ map (called p) (eb_view bus name)"
proof (cases "find_binding_loop (eb_bindings bus) name")
  case None
  then have u: "name \<notin> set (eb_names bus)" by (simp add: find_binding_None)
  obtain brk where e: "ee_emit (event_bridge_dispatch (event_bus_emit idle n) idle n name p) n bus name = Some (True, bus\<lparr>eb_brk := brk\<rparr>)"
    and brk: "eb_brk bus \<le> brk"
    using ee_emit_unbound [OF eb_okD(1,3) [OF ok] u] by blast
  have "eb_view bus name = []" using u by (simp add: bindings_view_unbound)
  then show ?thesis using e eb_ok_brk [OF ok brk] by (auto simp: fun_upd_idem)
next
  case (Some b)
  let ?c = "bus\<lparr>eb_brk := eb_brk bus + 2\<rparr>"
  let ?d = "bus\<lparr>eb_brk := eb_brk bus + 3\<rparr>"
  have okd: "eb_ok ?d" and okc: "eb_ok ?c" by (rule eb_ok_brk [OF ok], simp)+
  have f: "find_binding_loop (eb_bindings ?d) name = Some b" using Some by simp
  obtain xs bi ys where bs: "eb_bindings ?d = xs @ (b, bi) # ys" "bi_name bi = name" and ls: "eb_listeners ?d b = Some (bi_listeners bi)"
    and v: "eb_view ?d name = map snd (bi_listeners bi)" and d: "distinct (map fst (bi_listeners bi))" "\<forall>y \<in> set (bi_listeners bi). fst y < eb_brk ?d"
    and nm: "name \<in> set (eb_names ?d)"
    by (rule bound_at [OF okd f])
  let ?ls = "filter (\<lambda>x. \<not> el_once (snd x)) (bi_listeners bi)"
  let ?s = "eb_set_listeners b ?ls ?d"
  let ?r = "?s\<lparr>eb_calls := eb_calls bus @ map (called p \<circ> snd) (bi_listeners bi)\<rparr>"
  have len: "length (bi_listeners bi) \<le> n" using n v by simp
  have dl: "dispatch_loop (event_bus_emit idle n) idle n b (node_first (bi_listeners bi)) p ?d = Some (True, ?r)"
    using dispatch_idle [of ?d b "[]" "bi_listeners bi" n "event_bus_emit idle n" p] eb_okD(4) [OF okd] ls d(1) len by simp
  have fb: "find_binding ?c name = (Some b, ?d)"
    using Some find_binding_ok [OF okc, of name] by (simp add: eval_nat_numeral)
  have br: "event_bridge_dispatch (event_bus_emit idle n) idle n name p ?c = Some (True, ?r)"
    unfolding event_bridge_dispatch_def fb using ls dl by simp
  have ev: "eb_events ?r = eb_events bus" by (simp add: eb_set_listeners_def)
  have n0: "0 < n" using n by simp
  have nm': "name \<in> set (eb_names bus)" using nm by simp
  have e: "event_bus_emit idle (Suc n) bus name p = Some (True, ?r)"
    using ee_emit_spec [where cb = "event_bridge_dispatch (event_bus_emit idle n) idle n name p", OF eb_okD(1,3) [OF ok] nm' n0 br ev] by simp
  have lso: "distinct (map fst ?ls)" "\<forall>y \<in> set ?ls. fst y < eb_brk ?d" using d by (auto simp: distinct_map_filter)
  note sl = set_listeners_spec [OF okd bs lso]
  have "eb_ok ?r" using sl by (simp add: eb_ok_def del: calls_commute(4))
  moreover have "eb_view ?r = (eb_view bus)(name := filter (\<lambda>e. \<not> el_once e) (eb_view bus name))"
    using sl v by (simp add: filter_map comp_def del: calls_commute(4))
  moreover have "eb_calls ?r = eb_calls bus @ map (called p) (eb_view bus name)" using v by simp
  ultimately show ?thesis using e by blast
qed

section \<open>The bus as a map from names to queues\<close>

type_synonym ('l, 'u) registry = "string \<Rightarrow> ('l, 'u) event_listener_entry list"

fun registry_call :: "('l, 'u, 'p) event_call \<Rightarrow> ('l, 'u) registry \<Rightarrow> ('l, 'u) registry \<times> ('l \<times> 'p \<times> 'u) list" where
  "registry_call (On name l u) m = (m(name := m name @ [\<lparr>el_listener = l, el_user_data = u, el_once = False\<rparr>]), [])"
| "registry_call (Once name l u) m = (m(name := m name @ [\<lparr>el_listener = l, el_user_data = u, el_once = True\<rparr>]), [])"
| "registry_call (Off name l u) m = (m(name := remove_first (is_entry l u) (m name)), [])"
| "registry_call (OffAll name) m = (m(name := []), [])"
| "registry_call (Emit name p) m = (m(name := filter (\<lambda>e. \<not> el_once e) (m name)), map (called p) (m name))"

primrec registry_run :: "('l, 'u, 'p) event_call list \<Rightarrow> ('l, 'u) registry \<Rightarrow> ('l, 'u) registry \<times> ('l \<times> 'p \<times> 'u) list" where
  "registry_run [] m = (m, [])"
| "registry_run (c # cs) m =
     (let (m1, calls) = registry_call c m; (m2, calls') = registry_run cs m1 in (m2, calls @ calls'))"

text \<open>Names a listener can be added for.\<close>

fun call_ok :: "('l, 'u, 'p) event_call \<Rightarrow> bool" where
  "call_ok (On name l u) = (name \<noteq> [] \<and> name \<noteq> EE_NEW_LISTENER)"
| "call_ok (Once name l u) = (name \<noteq> [] \<and> name \<noteq> EE_NEW_LISTENER)"
| "call_ok _ = True"

lemma length_remove_first: "length (remove_first P xs) \<le> length xs"
  by (induction xs) auto

lemma run_call_spec:
  assumes ok: "eb_ok bus" and c: "call_ok c" and n: "\<forall>name. length (eb_view bus name) < n"
  shows "\<exists>bus'. run_call (event_bus_emit idle (Suc n)) c bus = Some (True, bus') \<and> eb_ok bus' \<and>
    eb_view bus' = fst (registry_call c (eb_view bus)) \<and> eb_calls bus' = eb_calls bus @ snd (registry_call c (eb_view bus))"
proof (cases c)
  case (On name l u)
  then show ?thesis using add_listener_spec [OF ok, of name l u False] c by (auto simp: event_bus_on_def)
next
  case (Once name l u)
  then show ?thesis using add_listener_spec [OF ok, of name l u True] c by (auto simp: event_bus_once_def)
next
  case (Off name l u)
  then show ?thesis using event_bus_off_spec [OF ok, of name l u] by auto
next
  case (OffAll name)
  then show ?thesis using event_bus_off_all_spec [OF ok, of name] by auto
next
  case (Emit name p)
  then show ?thesis using event_bus_emit_spec [OF ok, of name n p] n by auto
qed

lemma registry_grows: "length (fst (registry_call c m) name) \<le> Suc (length (m name))"
  using length_remove_first [of _ "m name"] by (cases c) (auto simp: le_Suc_eq le_imp_less_Suc less_imp_le intro: le_SucI)

lemma run_calls_spec:
  "eb_ok bus \<Longrightarrow> \<forall>c \<in> set cs. call_ok c \<Longrightarrow> \<forall>name. length (eb_view bus name) + length cs < n \<Longrightarrow>
     \<exists>bus'. run_calls (event_bus_emit idle (Suc n)) cs bus = Some (True, bus') \<and> eb_ok bus' \<and>
       eb_view bus' = fst (registry_run cs (eb_view bus)) \<and> eb_calls bus' = eb_calls bus @ snd (registry_run cs (eb_view bus))"
proof (induction cs arbitrary: bus)
  case (Cons c cs)
  have n: "\<forall>name. length (eb_view bus name) < n" using Cons.prems(3) by (metis add_lessD1)
  obtain b1 where b1: "run_call (event_bus_emit idle (Suc n)) c bus = Some (True, b1)" "eb_ok b1"
    "eb_view b1 = fst (registry_call c (eb_view bus))" "eb_calls b1 = eb_calls bus @ snd (registry_call c (eb_view bus))"
    using run_call_spec [OF Cons.prems(1) _ n, of c] Cons.prems(2) by auto
  have n1: "\<forall>name. length (eb_view b1 name) + length cs < n"
  proof
    fix name
    show "length (eb_view b1 name) + length cs < n"
      using registry_grows [of c "eb_view bus" name] Cons.prems(3) [rule_format, of name] unfolding b1(3) by simp
  qed
  have "\<forall>c \<in> set cs. call_ok c" using Cons.prems(2) by simp
  from Cons.IH [OF b1(2) this n1] obtain b2 where b2: "run_calls (event_bus_emit idle (Suc n)) cs b1 = Some (True, b2)" "eb_ok b2"
    "eb_view b2 = fst (registry_run cs (eb_view b1))" "eb_calls b2 = eb_calls b1 @ snd (registry_run cs (eb_view b1))"
    by (elim exE conjE)
  show ?case using b1 b2 by (intro exI [of _ b2]) (simp add: Let_def split: prod.splits)
qed simp

lemma eb_create_ok: "event_bus_create brk (\<lambda>_. False) = Some (Some bus) \<Longrightarrow> eb_ok bus \<and> eb_view bus = (\<lambda>_. []) \<and> eb_calls bus = []"
  by (auto simp: event_bus_create_def eb_malloc_def Let_def eb_ok_def bindings_ok_def events_ok_def)

text \<open>
  C7. Any sequence of registrations, removals and emissions on a new bus runs without a memory error and ends, where
  memory does not run out, listeners make no calls on the bus themselves, and none is registered under the empty name or
  \<^verbatim>\<open>"new_listener"\<close>; without them it can read freed memory or call a listener twice, as the last section shows. The listeners called, with their payloads and
  in their order, and the listeners that remain are those of a map from names to queues: an event
  calls the queue of its name in the order of registration and drops the listeners for one call,
  removing takes the first entry that matches, and nothing touches another name. Fuel one more than
  the number of calls is enough.
\<close>

theorem event_bus_is_registry:
  assumes "event_bus_create brk (\<lambda>_. False) = Some (Some bus)" and "\<forall>c \<in> set cs. call_ok c" and "length cs < n"
  shows "\<exists>bus'. run_calls (event_bus_emit idle (Suc n)) cs bus = Some (True, bus') \<and>
    eb_calls bus' = snd (registry_run cs (\<lambda>_. [])) \<and>
    (\<forall>name. length (fst (registry_run cs (\<lambda>_. [])) name) < 2 ^ 31 \<longrightarrow>
       map_option fst (event_bus_listener_count bus' (Some name)) = Some (int (length (fst (registry_run cs (\<lambda>_. [])) name))))"
proof -
  have ok: "eb_ok bus" "eb_view bus = (\<lambda>_. [])" "eb_calls bus = []" using eb_create_ok [OF assms(1)] by simp_all
  obtain bus' where b: "run_calls (event_bus_emit idle (Suc n)) cs bus = Some (True, bus')" "eb_ok bus'"
    "eb_view bus' = fst (registry_run cs (eb_view bus))" "eb_calls bus' = eb_calls bus @ snd (registry_run cs (eb_view bus))"
    using run_calls_spec [OF ok(1) assms(2), of n] assms(3) ok(2) by auto
  have "map_option fst (event_bus_listener_count bus' (Some name)) = Some (int (length (eb_view bus' name)))"
    if small: "length (eb_view bus' name) < 2 ^ 31" for name
  proof (cases "find_binding_loop (eb_bindings bus') name")
    case None
    then have "eb_view bus' name = []" by (simp add: find_binding_None bindings_view_unbound)
    then show ?thesis using None find_binding_ok [OF b(2), of name] by (simp add: event_bus_listener_count_def)
  next
    case (Some a)
    obtain ls where bi: "eb_listeners bus' a = Some ls" "eb_view bus' name = map snd ls"
      using bound_listeners [OF b(2) Some] by blast
    have "sint (word_of_nat (length ls) :: 32 word) = int (length ls)"
      using small bi(2) by (subst signed_of_nat) (simp add: signed_take_bit_eq_if_positive bit_iff_odd take_bit_int_eq_self)
    then show ?thesis using Some bi find_binding_ok [OF b(2), of name] by (simp add: event_bus_listener_count_def)
  qed
  then show ?thesis using b ok(2,3) by (intro exI [of _ bus']) simp
qed

theorem event_bus_is_registry_witness:
  "\<exists>bus :: (nat, nat, nat) event_bus. \<exists>bus'.
     run_calls (event_bus_emit idle 10) [On ''e'' 1 5, Once ''e'' 2 6, Emit ''e'' 7, Emit ''e'' 8, Off ''e'' 1 5] bus = Some (True, bus') \<and>
     eb_calls bus' = [(1, 7, 5), (2, 7, 6), (1, 8, 5)]"
proof -
  let ?cs = "[On ''e'' 1 5, Once ''e'' 2 6, Emit ''e'' 7, Emit ''e'' 8, Off ''e'' 1 5] :: (nat, nat, nat) event_call list"
  let ?b = "\<lparr>eb_events = [], eb_bindings = [], eb_brk = 4, eb_oom = (\<lambda>_. False), eb_calls = []\<rparr> :: (nat, nat, nat) event_bus"
  have c: "event_bus_create 0 (\<lambda>_. False) = Some (Some ?b)" by (simp add: event_bus_create_def eb_malloc_def Let_def)
  have ok: "\<forall>c \<in> set ?cs. call_ok c" by (simp add: EE_NEW_LISTENER_def)
  have "length ?cs < 9" by simp
  from event_bus_is_registry [OF c ok this] obtain bus' where
    "run_calls (event_bus_emit idle (Suc 9)) ?cs ?b = Some (True, bus')" "eb_calls bus' = snd (registry_run ?cs (\<lambda>_. []))"
    by (elim exE conjE)
  then show ?thesis by (intro exI [of _ ?b] exI [of _ bus']) (simp add: called_def)
qed

section \<open>Listeners that change the bus\<close>

text \<open>Whether some calls on a new bus make it read freed memory.\<close>

definition faults :: "(nat, nat, nat) listeners \<Rightarrow> (nat, nat, nat) event_call list \<Rightarrow> bool" where
  "faults prog cs = (case event_bus_create 0 (\<lambda>_. False) of
     Some (Some bus) \<Rightarrow> Option.is_none (run_calls (event_bus_emit prog 9) cs bus)
   | _ \<Rightarrow> False)"

text \<open>
  A listener must not remove a listener of the event that is being emitted. A listener that removes
  itself, one that removes the next one, one that removes all, and one that emits its event again
  while a listener for one call is next in the queue: each makes the emission read a freed
  entry, node or handler. So does adding any listener when there is one for \<^verbatim>\<open>"new_listener"\<close>.
\<close>

theorem event_bus_reentrant_removal_faults:
  "faults (\<lambda>_ l p u. [Off ''e'' l u]) [On ''e'' 1 0, Emit ''e'' 0] \<and>
   faults (\<lambda>_ l p u. if l = 1 then [Off ''e'' 2 u] else []) [On ''e'' 1 0, On ''e'' 2 0, Emit ''e'' 0] \<and>
   faults (\<lambda>_ l p u. [OffAll ''e'']) [On ''e'' 1 0, Emit ''e'' 0] \<and>
   faults (\<lambda>log l p u. if l = 1 \<and> log = [] then [Emit ''e'' p] else []) [On ''e'' 1 0, Once ''e'' 2 0, Emit ''e'' 0] \<and>
   faults idle [On ''new_listener'' 1 0, On ''e'' 1 0]"
  by code_simp

text \<open>
  Without memory: an iterator over the bindings that cannot be allocated is taken for a binding that is not there, and
  the event gets a second one, so that one emission calls its first listener twice; and other allocations that fail make
  the code follow a null pointer.
\<close>

theorem event_bus_no_memory_calls_twice:
  "(case event_bus_create 0 (\<lambda>n. n = 19) of
      Some (Some bus) \<Rightarrow> map_option (\<lambda>(ok, bus'). eb_calls bus')
        (run_calls (event_bus_emit idle 9) [On ''e'' 1 0, On ''e'' 2 0, Emit ''e'' 0] (bus :: (nat, nat, nat) event_bus))
    | _ \<Rightarrow> None) = Some [(1, 0, 0), (1, 0, 0)] \<and>
   (case event_bus_create 0 (\<lambda>n. n = 9) of
      Some (Some bus) \<Rightarrow> Option.is_none (run_calls (event_bus_emit idle 9) [On ''e'' 1 0] (bus :: (nat, nat, nat) event_bus))
    | _ \<Rightarrow> False)"
  by code_simp

text \<open>Calls that add a listener.\<close>

fun call_adds :: "('l, 'u, 'p) event_call \<Rightarrow> bool" where
  "call_adds (On name l u) = (name \<noteq> [] \<and> name \<noteq> EE_NEW_LISTENER)"
| "call_adds (Once name l u) = (name \<noteq> [] \<and> name \<noteq> EE_NEW_LISTENER)"
| "call_adds _ = False"

definition only_adds :: "('l, 'u, 'p) listeners \<Rightarrow> bool" where
  "only_adds prog \<longleftrightarrow> (\<forall>log l p u. \<forall>c \<in> set (prog log l p u). call_adds c)"

lemma adds_call:
  assumes "eb_ok bus" and "call_adds c"
  shows "\<exists>bus'. run_call emit c bus = Some (True, bus') \<and> eb_ok bus' \<and> extends bus bus'"
proof (cases c)
  case (On name l u)
  then show ?thesis using add_listener_spec [OF assms(1), of name l u False] assms(2) by (auto simp: event_bus_on_def)
next
  case (Once name l u)
  then show ?thesis using add_listener_spec [OF assms(1), of name l u True] assms(2) by (auto simp: event_bus_once_def)
qed (use assms(2) in simp_all)

lemma adds_calls:
  "eb_ok bus \<Longrightarrow> \<forall>c \<in> set cs. call_adds c \<Longrightarrow> \<exists>bus'. run_calls emit cs bus = Some (True, bus') \<and> eb_ok bus' \<and> extends bus bus'"
proof (induction cs arbitrary: bus)
  case Nil
  then show ?case by (simp add: extends_refl)
next
  case (Cons c cs)
  obtain b1 where b1: "run_call emit c bus = Some (True, b1)" "eb_ok b1" "extends bus b1"
    using adds_call [OF Cons.prems(1), of c emit] Cons.prems(2) by auto
  have "\<forall>c \<in> set cs. call_adds c" using Cons.prems(2) by simp
  from Cons.IH [OF b1(2) this] b1 show ?case by (auto intro: extends_trans)
qed

lemma eb_ok_calls: "eb_ok (bus\<lparr>eb_calls := cs\<rparr>) = eb_ok bus"
  by (simp add: eb_ok_def)

lemma listeners_at:
  assumes ok: "eb_ok bus" and ls: "eb_listeners bus b = Some ls"
  shows "distinct (map fst ls)" and "\<forall>y \<in> set ls. fst y < eb_brk bus"
    and "distinct (map fst ls') \<Longrightarrow> \<forall>y \<in> set ls'. fst y < eb_brk bus \<Longrightarrow> eb_ok (eb_set_listeners b ls' bus)"
proof -
  obtain bi where bi: "map_of (eb_bindings bus) b = Some bi" "bi_listeners bi = ls" using ls by (auto simp: eb_listeners_def)
  from map_of_SomeD [OF bi(1)] obtain xs ys where bs: "eb_bindings bus = xs @ (b, bi) # ys" by (metis split_list)
  have "bindings_ok (xs @ (b, bi) # ys) (eb_brk bus)" using eb_okD(2) [OF ok] bs by simp
  then show "distinct (map fst ls)" and "\<forall>y \<in> set ls. fst y < eb_brk bus" using bi(2) by (simp_all add: bindings_ok_def)
  show "distinct (map fst ls') \<Longrightarrow> \<forall>y \<in> set ls'. fst y < eb_brk bus \<Longrightarrow> eb_ok (eb_set_listeners b ls' bus)"
    using set_listeners_spec [OF ok bs refl] by simp
qed

lemma node_at_in:
  assumes "a \<in> fst ` set xs"
  obtains v nxt where "node_at a xs = Some (v, nxt)" "\<And>c. nxt = Some c \<Longrightarrow> distinct (map fst xs) \<Longrightarrow> c \<noteq> a \<and> c \<in> fst ` set xs"
proof -
  obtain ys v zs where xs: "xs = ys @ (a, v) # zs" "a \<notin> fst ` set ys"
  proof -
    have "a \<in> set (map fst xs)" using assms by simp
    from split_list_first [OF this] obtain us vs where m: "map fst xs = us @ a # vs" "a \<notin> set us" by blast
    then obtain ys r where "xs = ys @ r" "us = map fst ys" "a # vs = map fst r" by (auto simp: map_eq_append_conv)
    with m(2) that show thesis by (cases r) auto
  qed
  have "c \<noteq> a \<and> c \<in> fst ` set xs" if "node_first zs = Some c" "distinct (map fst xs)" for c
    using that by (cases zs) (auto simp: xs node_first_def)
  with node_at_split [OF xs(2), of v zs] that xs(1) show thesis by blast
qed

lemma dispatch_adds:
  assumes prog: "only_adds prog"
  shows "eb_ok bus \<Longrightarrow> eb_listeners bus b = Some ls \<Longrightarrow> \<forall>a. node = Some a \<longrightarrow> a \<in> fst ` set ls \<Longrightarrow>
     \<exists>ok bus'. dispatch_loop emit prog k b node p bus = Some (ok, bus') \<and> eb_ok bus' \<and> events_ext (eb_events bus) (eb_events bus')"
proof (induction k arbitrary: bus ls node)
  case 0
  then show ?case by simp
next
  case (Suc k)
  show ?case
  proof (cases node)
    case None
    then show ?thesis using Suc.prems by (intro exI [of _ True] exI [of _ bus]) simp
  next
    case (Some a)
    have a: "a \<in> fst ` set ls" using Suc.prems(3) Some by simp
    obtain e nxt where at: "node_at a ls = Some (e, nxt)"
      and nxt: "\<And>c. nxt = Some c \<Longrightarrow> distinct (map fst ls) \<Longrightarrow> c \<noteq> a \<and> c \<in> fst ` set ls" using node_at_in [OF a] by metis
    let ?b = "bus\<lparr>eb_calls := eb_calls bus @ [(el_listener e, p, el_user_data e)]\<rparr>"
    have adds: "\<forall>c \<in> set (prog (eb_calls bus) (el_listener e) p (el_user_data e)). call_adds c" using prog by (simp add: only_adds_def)
    have "eb_ok ?b" using Suc.prems(1) by (simp add: eb_ok_calls)
    from adds_calls [OF this adds, of emit] obtain b1 where
      b1: "run_calls emit (prog (eb_calls bus) (el_listener e) p (el_user_data e)) ?b = Some (True, b1)" "eb_ok b1" "extends ?b b1"
      by blast
    have "eb_listeners ?b b = Some ls" using Suc.prems(2) by simp
    then obtain ls' where l1: "eb_listeners b1 b = Some (ls @ ls')" by (rule extends_listenersE [OF b1(3)])
    have ev: "events_ext (eb_events bus) (eb_events b1)" using b1(3) by (simp add: extends_def)
    have "a \<in> fst ` set (ls @ ls')" using a by auto
    then obtain e' n' where at': "node_at a (ls @ ls') = Some (e', n')" by (rule node_at_in)
    note ok1 = listeners_at [OF b1(2) l1]
    have nx: "c \<noteq> a \<and> c \<in> fst ` set ls" if "nxt = Some c" for c using nxt [OF that] ok1(1) by simp
    have step: "dispatch_loop emit prog (Suc k) b node p bus =
        dispatch_loop emit prog k b nxt p (if el_once e' then eb_set_listeners b (node_remove a (ls @ ls')) b1 else b1)"
      using Some Suc.prems(2) at b1(1) l1 at' by simp
    show ?thesis
    proof (cases "el_once e'")
      case True
      let ?r = "node_remove a (ls @ ls')"
      have r: "distinct (map fst ?r)" "\<forall>y \<in> set ?r. fst y < eb_brk b1" using ok1(1,2) by (auto simp: node_remove_def distinct_map_filter)
      have okr: "eb_ok (eb_set_listeners b ?r b1)" by (rule ok1(3) [OF r])
      have lr: "eb_listeners (eb_set_listeners b ?r b1) b = Some ?r"
        using listeners_set(1) [of b1 b ?r] l1 eb_okD(4) [OF b1(2)] by simp
      have mem: "\<forall>c. nxt = Some c \<longrightarrow> c \<in> fst ` set ?r" using nx by (force simp: node_remove_def)
      have ev': "eb_events (eb_set_listeners b ?r b1) = eb_events b1" by (simp add: eb_set_listeners_def)
      from Suc.IH [OF okr lr mem] ev show ?thesis unfolding step ev' using True by (auto intro: events_ext_trans)
    next
      case False
      have mem: "\<forall>c. nxt = Some c \<longrightarrow> c \<in> fst ` set (ls @ ls')" using nx by auto
      from Suc.IH [OF b1(2) l1 mem] ev show ?thesis unfolding step using False by (auto intro: events_ext_trans)
    qed
  qed
qed

lemma bridge_adds:
  assumes prog: "only_adds prog" and ok: "eb_ok bus"
  shows "\<exists>ok bus'. event_bridge_dispatch emit prog k name p bus = Some (ok, bus') \<and> eb_ok bus' \<and> events_ext (eb_events bus) (eb_events bus')"
proof -
  let ?c = "bus\<lparr>eb_brk := Suc (eb_brk bus)\<rparr>"
  have okc: "eb_ok ?c" by (rule eb_ok_brk [OF ok]) simp
  show ?thesis
  proof (cases "find_binding_loop (eb_bindings bus) name")
    case None
    then show ?thesis using okc by (intro exI [of _ True] exI [of _ ?c]) (simp add: event_bridge_dispatch_def find_binding_ok [OF ok])
  next
    case (Some b)
    then have "find_binding_loop (eb_bindings ?c) name = Some b" by simp
    from bound_listeners [OF okc this] obtain ls where ls: "eb_listeners ?c b = Some ls" by blast
    have mem: "\<forall>a. node_first ls = Some a \<longrightarrow> a \<in> fst ` set ls" by (auto simp: node_first_def split: list.splits)
    show ?thesis using dispatch_adds [where emit = emit and k = k and p = p, OF prog okc ls mem] Some ls
      by (simp add: event_bridge_dispatch_def find_binding_ok [OF ok])
  qed
qed

lemma emit_loop_None [simp]: "ee_emit_loop cb k i None bus = Some (True, bus)"
  by (cases k) simp_all

lemma emit_loop_one:
  assumes "ev_handlers (eb_events bus ! i) = [(a, bridge_handler)]" and "cb bus = Some (r, b1)"
    and "ev_handlers (eb_events b1 ! i) = (a, bridge_handler) # hs"
  shows "ee_emit_loop cb (Suc j) i (Some a) bus = Some (r, b1)"
  using assms by (cases r) (simp_all add: node_first_def)

lemma emit_adds:
  assumes prog: "only_adds prog" and ok: "eb_ok bus"
  shows "\<exists>ok bus'. event_bus_emit prog n bus name p = Some (ok, bus') \<and> eb_ok bus'"
proof (cases n)
  case 0
  then show ?thesis using ok by (intro exI [of _ False] exI [of _ bus]) simp
next
  case (Suc m)
  let ?cb = "event_bridge_dispatch (event_bus_emit prog m) prog m name p"
  have start: "event_bus_emit prog n bus name p = ee_emit ?cb m bus name" by (simp add: Suc)
  show ?thesis
  proof (cases "name \<in> set (eb_names bus)")
    case False
    from ee_emit_unbound [OF eb_okD(1,3) [OF ok] this, of ?cb m] show ?thesis unfolding start using eb_ok_brk [OF ok] by blast
  next
    case True
    obtain xs e ys where e: "eb_events bus = xs @ e # ys" "ev_name e = Some name"
      and f: "ee_find_loop (eb_events bus) name 0 = Some (Some (0 + length xs))"
      by (rule ee_find_loop_here [OF events_ok_bound [OF eb_okD(3) [OF ok] True]]) (use eb_okD(3) [OF ok] in \<open>simp add: events_ok_def\<close>)
    obtain a where h: "ev_handlers e = [(a, bridge_handler)]"
      using events_ok_handlers(1) [OF eb_okD(3) [OF ok, unfolded e(1)] e(2) True] by blast
    let ?c = "bus\<lparr>eb_brk := eb_brk bus + 2\<rparr>"
    have okc: "eb_ok ?c" by (rule eb_ok_brk [OF ok]) simp
    have lp: "ee_emit ?cb m bus name = ee_emit_loop ?cb m (length xs) (Some a) ?c"
      using f eb_okD(1) [OF ok] h by (simp add: ee_emit_def ee_find_def eb_malloc_mem Let_def e(1) node_first_def)
    show ?thesis
    proof (cases m)
      case 0
      then show ?thesis unfolding start lp using okc by (intro exI [of _ False] exI [of _ ?c]) simp
    next
      case (Suc j)
      obtain r b1 where b1: "?cb ?c = Some (r, b1)" "eb_ok b1" "events_ext (eb_events ?c) (eb_events b1)"
        using bridge_adds [where emit = "event_bus_emit prog m" and k = m and name = name and p = p, OF prog okc] by blast
      obtain hs where hs: "ev_handlers (eb_events b1 ! length xs) = [(a, bridge_handler)] @ hs"
        using b1(3) h unfolding events_ext_def by (auto simp: e(1) dest: spec [of _ "length xs"])
      have hc: "ev_handlers (eb_events ?c ! length xs) = [(a, bridge_handler)]" using h by (simp add: e(1))
      have "ee_emit_loop ?cb m (length xs) (Some a) ?c = Some (r, b1)"
        using emit_loop_one [where cb = ?cb and j = j, OF hc b1(1), of hs] hs Suc by simp
      then show ?thesis unfolding start lp using b1(2) by blast
    qed
  qed
qed

text \<open>
  C36. Listeners that only add listeners are safe, where memory does not run out and no name is empty or \<^verbatim>\<open>"new_listener"\<close>: whatever they add, for whatever events and how
  often, no sequence of calls on the bus makes it read freed memory; the emission either ends or, when
  the queue grows faster than it is worked off, uses up its fuel.
\<close>

theorem event_bus_additions_safe:
  assumes "event_bus_create brk (\<lambda>_. False) = Some (Some bus)" and "\<forall>c \<in> set cs. call_ok c"
    and "only_adds prog"
  shows "run_calls (event_bus_emit prog n) cs bus \<noteq> None"
proof -
  have "\<exists>ok bus'. run_calls (event_bus_emit prog n) cs bus = Some (ok, bus')" if "eb_ok bus" "\<forall>c \<in> set cs. call_ok c" for cs bus
    using that
  proof (induction cs arbitrary: bus)
    case (Cons c cs)
    have "\<exists>ok b1. run_call (event_bus_emit prog n) c bus = Some (ok, b1) \<and> eb_ok b1"
    proof (cases c)
      case (On name l u)
      then show ?thesis using add_listener_spec [OF Cons.prems(1), of name l u False] Cons.prems(2) by (auto simp: event_bus_on_def)
    next
      case (Once name l u)
      then show ?thesis using add_listener_spec [OF Cons.prems(1), of name l u True] Cons.prems(2) by (auto simp: event_bus_once_def)
    next
      case (Off name l u)
      then show ?thesis using event_bus_off_spec [OF Cons.prems(1), of name l u] by auto
    next
      case (OffAll name)
      then show ?thesis using event_bus_off_all_spec [OF Cons.prems(1), of name] by auto
    next
      case (Emit name p)
      then show ?thesis using emit_adds [where n = n and name = name and p = p, OF assms(3) Cons.prems(1)] by simp
    qed
    then obtain r b1 where b1: "run_call (event_bus_emit prog n) c bus = Some (r, b1)" "eb_ok b1" by blast
    show ?case
    proof (cases r)
      case True
      then show ?thesis using Cons.IH [OF b1(2)] Cons.prems(2) b1(1) by simp
    qed (use b1(1) in \<open>intro exI [of _ False] exI [of _ b1], simp\<close>)
  qed auto
  then show ?thesis using eb_create_ok [OF assms(1)] assms(2) by fastforce
qed

theorem event_bus_additions_safe_witness:
  "\<exists>bus :: (nat, nat, nat) event_bus. run_calls (event_bus_emit (\<lambda>_ l p u. [Once ''e'' l u]) 9) [On ''e'' 1 0, On ''e'' 2 0, Emit ''e'' 0] bus \<noteq> None"
proof -
  let ?b = "\<lparr>eb_events = [], eb_bindings = [], eb_brk = 4, eb_oom = (\<lambda>_. False), eb_calls = []\<rparr> :: (nat, nat, nat) event_bus"
  have c: "event_bus_create 0 (\<lambda>_. False) = Some (Some ?b)" by (simp add: event_bus_create_def eb_malloc_def Let_def)
  have ok: "\<forall>c \<in> set [On ''e'' 1 0, On ''e'' 2 0, Emit ''e'' 0 :: (nat, nat, nat) event_call]. call_ok c" by (simp add: EE_NEW_LISTENER_def)
  have "only_adds (\<lambda>_ l p u. [Once ''e'' l u :: (nat, nat, nat) event_call])" by (simp add: only_adds_def EE_NEW_LISTENER_def)
  from event_bus_additions_safe [where n = 9, OF c ok this] show ?thesis by (intro exI [of _ ?b])
qed

end
