(* ===== verification/WgOp.thy ===== *)
theory WgOp
  imports Prelude
begin

text \<open>
  Asynchronous operations, \<^verbatim>\<open>src/async/wg_op.c\<close>. The implementation data of an operation is a pointer
  to something the operation may own: \<open>op_destroy\<close> says whether a destructor is set, and what it is
  called on is returned. A \<open>NULL\<close> operation is \<open>None\<close>.

  The locale is the contract the users of operations rely on, the life of one operation: begun, then
  completed at most once with a status, then its implementation taken.
\<close>

section \<open>Data\<close>

datatype wg_op_state = WG_OP_PENDING | WG_OP_DONE

datatype wg_op_kind = WG_OP_KIND_NONE | WG_OP_KIND_FETCH_URL | WG_OP_KIND_FILEIO_RESTORE | WG_OP_KIND_FILEIO_FLUSH

record 'i wg_op =
  op_kind :: wg_op_kind
  op_state :: wg_op_state
  op_status_code :: int
  op_impl :: "'i option"
  op_destroy :: bool

section \<open>Operations\<close>

definition wg_op_init :: "'i wg_op option \<Rightarrow> wg_op_kind \<Rightarrow> 'i option \<Rightarrow> bool \<Rightarrow> 'i wg_op option" where
  "wg_op_init op kind impl destroy = (case op of None \<Rightarrow> None
     | Some _ \<Rightarrow> Some \<lparr>op_kind = kind, op_state = WG_OP_PENDING, op_status_code = 0, op_impl = impl, op_destroy = destroy\<rparr>)"

definition wg_op_is_done :: "'i wg_op option \<Rightarrow> bool" where
  "wg_op_is_done op = (case op of None \<Rightarrow> False | Some r \<Rightarrow> op_state r = WG_OP_DONE)"

definition wg_op_status :: "'i wg_op option \<Rightarrow> int" where
  "wg_op_status op = (case op of None \<Rightarrow> -1 | Some r \<Rightarrow> op_status_code r)"

definition wg_op_complete :: "'i wg_op option \<Rightarrow> int \<Rightarrow> 'i wg_op option" where
  "wg_op_complete op status_code = (case op of None \<Rightarrow> None
     | Some r \<Rightarrow> Some (r\<lparr>op_state := WG_OP_DONE, op_status_code := status_code\<rparr>))"

definition wg_op_impl :: "'i wg_op option \<Rightarrow> 'i option" where
  "wg_op_impl op = (case op of None \<Rightarrow> None | Some r \<Rightarrow> op_impl r)"

definition wg_op_reset :: "'i wg_op option \<Rightarrow> 'i wg_op option" where
  "wg_op_reset op = (case op of None \<Rightarrow> None
     | Some r \<Rightarrow> Some (r\<lparr>op_state := WG_OP_PENDING, op_status_code := 0\<rparr>))"

text \<open>The second part of the result is what the destructor was called on.\<close>

definition wg_op_deinit :: "'i wg_op option \<Rightarrow> 'i wg_op option \<times> 'i list" where
  "wg_op_deinit op = (case op of None \<Rightarrow> (None, [])
     | Some r \<Rightarrow>
         (Some \<lparr>op_kind = WG_OP_KIND_NONE, op_state = WG_OP_DONE, op_status_code = 0, op_impl = None, op_destroy = False\<rparr>,
          if op_destroy r then (case op_impl r of None \<Rightarrow> [] | Some i \<Rightarrow> [i]) else []))"

section \<open>The contract\<close>

locale async_op =
  fixes begin_op :: "'op \<Rightarrow> 'i option \<Rightarrow> 'op"
    and complete :: "'op \<Rightarrow> int \<Rightarrow> 'op"
    and is_done :: "'op \<Rightarrow> bool"
    and status :: "'op \<Rightarrow> int"
    and impl :: "'op \<Rightarrow> 'i option"
    and deinit :: "'op \<Rightarrow> 'op \<times> 'i list"
  assumes begin_pending: "\<not> is_done (begin_op x i)"
    and begin_impl: "impl (begin_op x i) = i"
    and complete_done: "is_done (complete x c)"
    and complete_status: "status (complete x c) = c"
    and complete_impl: "impl (complete x c) = impl x"
    and begin_destroys: "snd (deinit (begin_op x i)) = (case i of None \<Rightarrow> [] | Some j \<Rightarrow> [j])"
    and complete_destroys: "snd (deinit (complete x c)) = snd (deinit x)"
    and deinit_twice: "snd (deinit (fst (deinit x))) = []"
begin

text \<open>What a finished operation answers, and that its implementation is released exactly once.\<close>

lemma finished:
  "is_done (complete (begin_op x i) c) \<and> status (complete (begin_op x i) c) = c \<and> impl (complete (begin_op x i) c) = i"
  by (simp add: complete_done complete_status complete_impl begin_impl)

lemma released_once:
  "snd (deinit (complete (begin_op x (Some j)) c)) = [j]"
  "snd (deinit (fst (deinit (complete (begin_op x (Some j)) c)))) = []"
  by (simp_all add: complete_destroys begin_destroys deinit_twice)

end

definition wg_op_begin :: "wg_op_kind \<Rightarrow> 'i wg_op \<Rightarrow> 'i option \<Rightarrow> 'i wg_op" where
  "wg_op_begin kind op impl = the (wg_op_init (Some op) kind impl True)"

interpretation wgop: async_op "wg_op_begin kind" "\<lambda>op c. the (wg_op_complete (Some op) c)" "\<lambda>op. wg_op_is_done (Some op)"
  "\<lambda>op. wg_op_status (Some op)" "\<lambda>op. wg_op_impl (Some op)" "\<lambda>op. (the (fst (wg_op_deinit (Some op))), snd (wg_op_deinit (Some op)))"
  for kind
  by unfold_locales
    (simp_all add: wg_op_begin_def wg_op_init_def wg_op_complete_def wg_op_is_done_def wg_op_status_def wg_op_impl_def
      wg_op_deinit_def split: option.split)

end
