(* ===== verification/FileIo.thy ===== *)
theory FileIo
  imports CString WgOp "HOL-Library.Monad_Syntax"
begin

text \<open>
  File access, \<^verbatim>\<open>src/fileio/fileio_common.c\<close> and its desktop front \<^verbatim>\<open>src/fileio/fileio.c\<close>. Strings are
  without their terminator; a \<open>NULL\<close> pointer is \<open>None\<close>. The file system belongs to the operating
  system: it is a state of some type, and the calls on it are the record \<open>fs_ops\<close>. The two static
  variables are the record \<open>fileio_state\<close>.
\<close>

section \<open>The file system\<close>

datatype fs_result = FsOk | FsExists | FsNoEntry | FsError

text \<open>
  A stream open for writing, a \<^verbatim>\<open>FILE *\<close>, is a number; \<open>fs_write\<close> is \<^verbatim>\<open>fwrite\<close>, which may keep what it takes in
  the buffer of the stream, and \<open>fs_close\<close> is \<^verbatim>\<open>fclose\<close>, which writes the rest and says whether that worked.
  \<open>fs_open_read p s\<close> is what reading the file at \<open>p\<close> meets: whether seeking to its end works, the
  position reported there, and the bytes the file then delivers.
\<close>

record 's fs_ops =
  fs_mkdir :: "string \<Rightarrow> 's \<Rightarrow> fs_result \<times> 's"
  fs_open_write :: "string \<Rightarrow> 's \<Rightarrow> nat option \<times> 's"
  fs_write :: "nat \<Rightarrow> byte list \<Rightarrow> 's \<Rightarrow> nat \<times> 's"
  fs_close :: "nat \<Rightarrow> 's \<Rightarrow> bool \<times> 's"
  fs_open_read :: "string \<Rightarrow> 's \<Rightarrow> (bool \<times> int \<times> byte list) option"
  fs_stat :: "string \<Rightarrow> 's \<Rightarrow> bool"
  fs_remove :: "string \<Rightarrow> 's \<Rightarrow> fs_result \<times> 's"
  fs_rmdir :: "string \<Rightarrow> 's \<Rightarrow> fs_result \<times> 's"

section \<open>Relative paths\<close>

definition FILEIO_MAX_PATH_LENGTH :: nat where
  "FILEIO_MAX_PATH_LENGTH = 256"

lemma rest_shorter: "dropWhile (\<lambda>c. c = CHR ''/'') p \<noteq> [] \<Longrightarrow>
    length (dropWhile (\<lambda>c. c \<noteq> CHR ''/'') (dropWhile (\<lambda>c. c = CHR ''/'') p)) < length p"
proof -
  assume a: "dropWhile (\<lambda>c. c = CHR ''/'') p \<noteq> []"
  then have "hd (dropWhile (\<lambda>c. c = CHR ''/'') p) \<noteq> CHR ''/''" using hd_dropWhile by blast
  with a obtain x xs where x: "dropWhile (\<lambda>c. c = CHR ''/'') p = x # xs" "x \<noteq> CHR ''/''" by (cases "dropWhile (\<lambda>c. c = CHR ''/'') p") auto
  have "length (dropWhile (\<lambda>c. c \<noteq> CHR ''/'') (x # xs)) \<le> length xs" using x(2) by (simp add: length_dropWhile_le)
  also have "\<dots> < length (x # xs)" by simp
  also have "\<dots> \<le> length p" using length_dropWhile_le [of "\<lambda>c. c = CHR ''/''" p] by (simp add: x(1))
  finally show ?thesis by (simp add: x(1))
qed

text \<open>The loop over the segments; \<open>marks\<close> are the lengths of the output before each segment in it.\<close>

function fileio_norm_loop :: "nat \<Rightarrow> string \<Rightarrow> nat list \<Rightarrow> string \<Rightarrow> string option" where
  "fileio_norm_loop output_size p marks output =
     (let p1 = dropWhile (\<lambda>c. c = CHR ''/'') p in
      if p1 = [] then Some output
      else
        let seg = takeWhile (\<lambda>c. c \<noteq> CHR ''/'') p1; rest = dropWhile (\<lambda>c. c \<noteq> CHR ''/'') p1 in
        if seg = [] \<or> seg = ''.'' then fileio_norm_loop output_size rest marks output
        else if seg = ''..'' then
          (case marks of
             [] \<Rightarrow> None
           | m # ms \<Rightarrow> fileio_norm_loop output_size rest ms (take m output))
        else if length marks \<ge> FILEIO_MAX_PATH_LENGTH then None
        else if output \<noteq> [] \<and> length output + 1 \<ge> output_size then None
        else
          let out1 = (if output \<noteq> [] then output @ ''/'' else output) in
          if length out1 + length seg \<ge> output_size then None
          else fileio_norm_loop output_size rest (length output # marks) (out1 @ seg))"
  by pat_completeness auto

termination by (relation "measure (\<lambda>(n, p, marks, output). length p)") (auto simp: rest_shorter)

declare fileio_norm_loop.simps [simp del]

text \<open>\<open>size\<close> is the length of the local buffer and of the output, both \<^verbatim>\<open>FILEIO_MAX_PATH_LENGTH * 2\<close>.\<close>

definition fileio_normalize_relpath :: "string option \<Rightarrow> nat \<Rightarrow> bool \<Rightarrow> string option" where
  "fileio_normalize_relpath input output_size allow_empty = (case input of
     None \<Rightarrow> None
   | Some s \<Rightarrow>
       if output_size = 0 then None
       else if length s \<ge> FILEIO_MAX_PATH_LENGTH * 2 then None
       else if c_at s 0 = CHR ''/'' \<or> c_at s 0 = CHR 0x5C then None
       else if (is_alpha (c_at s 0) \<and> c_at s 1 = CHR '':'') \<or> CHR '':'' \<in> set s then None
       else
         (case fileio_norm_loop output_size (map (\<lambda>c. if c = CHR 0x5C then CHR ''/'' else c) s) [] [] of
            None \<Rightarrow> None
          | Some out' \<Rightarrow> if \<not> allow_empty \<and> out' = [] then None else Some out'))"

section \<open>The mount point\<close>

record fileio_state =
  fileio_mount_point :: string
  fileio_mount_point_initialized :: bool

definition fileio_build_full_path :: "fileio_state \<Rightarrow> string option \<Rightarrow> bool \<Rightarrow> string option" where
  "fileio_build_full_path g path allow_empty =
     (case fileio_normalize_relpath path (FILEIO_MAX_PATH_LENGTH * 2) allow_empty of
        None \<Rightarrow> None
      | Some normalized \<Rightarrow>
          Some (take (FILEIO_MAX_PATH_LENGTH * 2 - 1)
            (if normalized = [] then fileio_mount_point g else fileio_mount_point g @ ''/'' @ normalized)))"

definition fileio_init_common :: "'s fs_ops \<Rightarrow> string option \<Rightarrow> fileio_state \<times> 's \<Rightarrow> int \<times> fileio_state \<times> 's" where
  "fileio_init_common fs mount_point gs = (case gs of (g, s) \<Rightarrow>
     if fileio_mount_point_initialized g then (-1, g, s)
     else (case mount_point of
        None \<Rightarrow> (-1, g, s)
      | Some m \<Rightarrow>
          if m = ''/'' then (-1, g, s)
          else if length m \<ge> FILEIO_MAX_PATH_LENGTH - 1 then (-1, g, s)
          else
            let g1 = \<lparr>fileio_mount_point = m, fileio_mount_point_initialized = True\<rparr>; (r, s1) = fs_mkdir fs m s in
            if r = FsOk \<or> r = FsExists then (0, g1, s1) else (-1, g1, s1)))"

definition fileio_deinit_common :: "fileio_state \<Rightarrow> fileio_state" where
  "fileio_deinit_common g = \<lparr>fileio_mount_point = [], fileio_mount_point_initialized = False\<rparr>"

section \<open>Directories\<close>

text \<open>\<open>pre\<close> is the part of the path up to the current position; a directory is made at each further slash.\<close>

function fileio_mkdir_loop :: "'s fs_ops \<Rightarrow> string \<Rightarrow> string \<Rightarrow> 's \<Rightarrow> int \<times> 's" where
  "fileio_mkdir_loop fs pre p s = (case dropWhile (\<lambda>c. c \<noteq> CHR ''/'') p of
     [] \<Rightarrow> (0, s)
   | c # rest \<Rightarrow>
       (let dir = pre @ takeWhile (\<lambda>c. c \<noteq> CHR ''/'') p; (r, s1) = fs_mkdir fs dir s in
        if r \<noteq> FsOk \<and> r \<noteq> FsExists then (-1, s1)
        else fileio_mkdir_loop fs (dir @ ''/'') rest s1))"
  by pat_completeness auto
termination
proof (relation "measure (\<lambda>(fs, pre, p, s). length p)", goal_cases)
  case (2 fs pre p s c rest)
  then show ?case using length_dropWhile_le [of "\<lambda>c. c \<noteq> CHR ''/''" p] by simp
qed simp

declare fileio_mkdir_loop.simps [simp del]

text \<open>\<open>None\<close>: the search starts at the second character, behind the end of an empty path.\<close>

definition fileio_mkdir_common :: "'s fs_ops \<Rightarrow> fileio_state \<Rightarrow> string option \<Rightarrow> 's \<Rightarrow> (int \<times> 's) option" where
  "fileio_mkdir_common fs g path s =
     (if \<not> fileio_mount_point_initialized g then Some (-1, s)
      else (case fileio_build_full_path g path True of
         None \<Rightarrow> Some (-1, s)
       | Some [] \<Rightarrow> None
       | Some (c # p) \<Rightarrow> Some (fileio_mkdir_loop fs [c] p s)))"

section \<open>Files\<close>

definition fileio_write_common :: "'s fs_ops \<Rightarrow> fileio_state \<Rightarrow> string option \<Rightarrow> byte list \<Rightarrow> 's \<Rightarrow> (int \<times> 's) option" where
  "fileio_write_common fs g filename data s =
     (if \<not> fileio_mount_point_initialized g then Some (-1, s)
      else (case fileio_build_full_path g filename False of
         None \<Rightarrow> Some (-1, s)
       | Some full_path \<Rightarrow> do {
           (r, s1) \<leftarrow> fileio_mkdir_common fs g filename s;
           (if r \<noteq> 0 then Some (-1, s1)
            else
              let (file, s2) = fs_open_write fs full_path s1 in
              (case file of
                 None \<Rightarrow> Some (-1, s2)
               | Some f \<Rightarrow>
                   let (written, s3) = fs_write fs f data s2 in
                   if written \<noteq> length data then
                     let (closed, s4) = fs_close fs f s3 in Some (-1, s4)
                   else
                     let (closed, s4) = fs_close fs f s3 in Some (0, s4)))
         }))"

text \<open>The error code, and the data when there is none; \<open>mem_ok\<close> says whether the buffer can be allocated.\<close>

datatype fileio_read_result = FileioError int | FileioData "byte list"

definition fileio_read_common :: "'s fs_ops \<Rightarrow> fileio_state \<Rightarrow> bool \<Rightarrow> string option \<Rightarrow> 's \<Rightarrow> fileio_read_result" where
  "fileio_read_common fs g mem_ok filename s =
     (if \<not> fileio_mount_point_initialized g then FileioError (-1)
      else (case fileio_build_full_path g filename False of
         None \<Rightarrow> FileioError (-1)
       | Some full_path \<Rightarrow> (case fs_open_read fs full_path s of
           None \<Rightarrow> FileioError (-1)
         | Some (seek_ok, file_size, content) \<Rightarrow>
             if \<not> seek_ok then FileioError (-1)
             else if file_size < 0 then FileioError (-1)
             else if nat file_size > 2 ^ 64 - 2 then FileioError (-1)
             else if \<not> mem_ok then FileioError (-1)
             else if length (take (nat file_size) content) \<noteq> nat file_size then FileioError (-2)
             else FileioData (take (nat file_size) content))))"

definition fileio_exists_common :: "'s fs_ops \<Rightarrow> fileio_state \<Rightarrow> string option \<Rightarrow> 's \<Rightarrow> bool" where
  "fileio_exists_common fs g filename s =
     (if \<not> fileio_mount_point_initialized g then False
      else (case fileio_build_full_path g filename False of
         None \<Rightarrow> False
       | Some full_path \<Rightarrow> fs_stat fs full_path s))"

definition fileio_rmfile_common :: "'s fs_ops \<Rightarrow> fileio_state \<Rightarrow> string option \<Rightarrow> 's \<Rightarrow> int \<times> 's" where
  "fileio_rmfile_common fs g filename s =
     (if \<not> fileio_mount_point_initialized g then (-1, s)
      else (case fileio_build_full_path g filename False of
         None \<Rightarrow> (-1, s)
       | Some full_path \<Rightarrow>
           (let (r, s1) = fs_remove fs full_path s in
            if r \<noteq> FsOk then (if r = FsNoEntry then 0 else -1, s1) else (0, s1))))"

definition fileio_rmdir_common :: "'s fs_ops \<Rightarrow> fileio_state \<Rightarrow> string option \<Rightarrow> 's \<Rightarrow> int \<times> 's" where
  "fileio_rmdir_common fs g path s =
     (if \<not> fileio_mount_point_initialized g then (-1, s)
      else (case fileio_build_full_path g path False of
         None \<Rightarrow> (-1, s)
       | Some full_path \<Rightarrow>
           (let (r, s1) = fs_rmdir fs full_path s in
            if r \<noteq> FsOk then (if r = FsNoEntry then 0 else -1, s1) else (0, s1))))"

section \<open>The desktop front\<close>

text \<open>A mount point of \<open>NULL\<close> is dereferenced.\<close>

definition fileio_init :: "'s fs_ops \<Rightarrow> string option \<Rightarrow> fileio_state \<times> 's \<Rightarrow> (int \<times> fileio_state \<times> 's) option" where
  "fileio_init fs mount_point gs = (case mount_point of
     None \<Rightarrow> None
   | Some m \<Rightarrow> Some (fileio_init_common fs (Some (if c_at m 0 = CHR ''/'' then tl m else m)) gs))"

definition fileio_deinit :: "fileio_state \<Rightarrow> fileio_state" where
  "fileio_deinit g = fileio_deinit_common g"

definition fileio_write :: "'s fs_ops \<Rightarrow> fileio_state \<Rightarrow> string option \<Rightarrow> byte list \<Rightarrow> 's \<Rightarrow> (int \<times> 's) option" where
  "fileio_write fs g filename data s = fileio_write_common fs g filename data s"

definition fileio_read :: "'s fs_ops \<Rightarrow> fileio_state \<Rightarrow> bool \<Rightarrow> string option \<Rightarrow> 's \<Rightarrow> fileio_read_result" where
  "fileio_read fs g mem_ok filename s = fileio_read_common fs g mem_ok filename s"

definition fileio_exists :: "'s fs_ops \<Rightarrow> fileio_state \<Rightarrow> string option \<Rightarrow> 's \<Rightarrow> bool" where
  "fileio_exists fs g filename s = fileio_exists_common fs g filename s"

definition fileio_rmfile :: "'s fs_ops \<Rightarrow> fileio_state \<Rightarrow> string option \<Rightarrow> 's \<Rightarrow> int \<times> 's" where
  "fileio_rmfile fs g filename s = fileio_rmfile_common fs g filename s"

definition fileio_rmdir :: "'s fs_ops \<Rightarrow> fileio_state \<Rightarrow> string option \<Rightarrow> 's \<Rightarrow> int \<times> 's" where
  "fileio_rmdir fs g path s = fileio_rmdir_common fs g path s"

definition fileio_mkdir :: "'s fs_ops \<Rightarrow> fileio_state \<Rightarrow> string option \<Rightarrow> 's \<Rightarrow> (int \<times> 's) option" where
  "fileio_mkdir fs g path s = fileio_mkdir_common fs g path s"

type_synonym fileio_sync_op = "unit wg_op"

definition fileio_sync_op_done :: "bool \<Rightarrow> wg_op_kind \<Rightarrow> int \<Rightarrow> fileio_sync_op option" where
  "fileio_sync_op_done mem_ok kind status_code =
     (if \<not> mem_ok then None
      else wg_op_complete (wg_op_init (Some \<lparr>op_kind = WG_OP_KIND_NONE, op_state = WG_OP_PENDING, op_status_code = 0,
        op_impl = None, op_destroy = False\<rparr>) kind None False) status_code)"

definition fileio_restore_async :: "bool \<Rightarrow> fileio_sync_op option" where
  "fileio_restore_async mem_ok = fileio_sync_op_done mem_ok WG_OP_KIND_FILEIO_RESTORE 0"

definition fileio_flush_async :: "bool \<Rightarrow> fileio_sync_op option" where
  "fileio_flush_async mem_ok = fileio_sync_op_done mem_ok WG_OP_KIND_FILEIO_FLUSH 0"

definition fileio_sync_poll :: "fileio_sync_op option \<Rightarrow> bool" where
  "fileio_sync_poll op = wg_op_is_done op"

definition fileio_sync_finish :: "fileio_sync_op option \<Rightarrow> int" where
  "fileio_sync_finish op = (case op of
     None \<Rightarrow> -1
   | Some r \<Rightarrow> if \<not> wg_op_is_done (Some r) then 1 else wg_op_status (Some r))"

text \<open>What the destructor is called on.\<close>

definition fileio_sync_op_free :: "fileio_sync_op option \<Rightarrow> unit list" where
  "fileio_sync_op_free op = (case op of None \<Rightarrow> [] | Some r \<Rightarrow> snd (wg_op_deinit (Some r)))"

end
