(* ===== verification/FileSafety.thy ===== *)
theory FileSafety
  imports FileIo CwalkNormalize
begin

text \<open>
  What file access guarantees: a relative path is resolved as a stack of names that never leaves the
  mount point, what is written is read back once the stream is closed without an error, and other files are left alone; and where it does
  not: an error on closing that is not reported, silent truncation, and a mount point of \<^verbatim>\<open>"/"\<close> that ends up as the root.
\<close>

section \<open>Relative paths\<close>

abbreviation is_slash :: "char \<Rightarrow> bool" where
  "is_slash c \<equiv> c = CHR ''/''"

text \<open>What the loop keeps besides the names on the stack: the text they make, and where each one starts.\<close>

fun stack_marks :: "string list \<Rightarrow> nat list" where
  "stack_marks [] = []"
| "stack_marks (w # st) = length (join_words CHR ''/'' (rev st)) # stack_marks st"

abbreviation stack_text :: "string list \<Rightarrow> string" where
  "stack_text st \<equiv> join_words CHR ''/'' (rev st)"

lemma stack_text_Cons: "stack_text (w # st) = (if st = [] then w else stack_text st @ CHR ''/'' # w)"
  by (simp add: join_words_snoc)

lemma stack_text_Nil: "[] \<notin> set st \<Longrightarrow> stack_text st = [] \<longleftrightarrow> st = []"
proof (cases st)
  case (Cons w rest)
  assume "[] \<notin> set st"
  then have "w \<noteq> []" using Cons by auto
  then show ?thesis unfolding Cons stack_text_Cons by simp
qed simp

lemma length_stack_marks [simp]: "length (stack_marks st) = length st"
  by (induction st) auto

lemma stack_text_long: "[] \<notin> set st \<Longrightarrow> 2 * length st \<le> Suc (length (stack_text st))"
proof (induction st)
  case (Cons w st)
  then have "w \<noteq> []" by auto
  moreover have "2 * length st \<le> Suc (length (stack_text st))" using Cons by simp
  ultimately show ?case unfolding stack_text_Cons by (cases w) auto
qed simp

lemma toks_step:
  assumes "dropWhile P p = x # xs"
  shows "toks P p = takeWhile (\<lambda>c. \<not> P c) (x # xs) # toks P (dropWhile (\<lambda>c. \<not> P c) (x # xs))"
proof -
  have "toks P p = toks P (dropWhile P p)"
    by (induction p) auto
  moreover have "\<not> P x" using assms by (metis hd_dropWhile list.distinct(1) list.sel(1))
  ultimately show ?thesis by (simp add: assms)
qed

lemma toks_none: "dropWhile P p = [] \<Longrightarrow> toks P p = []"
  by (rule toks_all_sep) (simp add: list_all_iff)

text \<open>A climb out of the top stays in the result.\<close>

lemma resolve_keeps_back: "''..'' \<in> set st \<Longrightarrow> ''..'' \<in> set (resolve False st ws)"
proof (induction False st ws rule: resolve.induct)
  case (2 stack w ws)
  show ?case
  proof (cases "word_type w")
    case CWK_BACK
    obtain x rest where st: "stack = x # rest" using 2 by (cases stack) auto
    show ?thesis
    proof (cases "word_type x = CWK_BACK")
      case True
      then show ?thesis using 2 CWK_BACK st by simp
    next
      case False
      then have "x \<noteq> ''..''" by (auto simp: word_type_def)
      then show ?thesis using 2 CWK_BACK st False by simp
    qed
  qed (use 2 in simp_all)
qed simp

lemma norm_loop_resolve:
  "(\<forall>w \<in> set st. word_type w = CWK_NORMAL \<and> w \<noteq> []) \<Longrightarrow> outp = stack_text st \<Longrightarrow> marks = stack_marks st \<Longrightarrow>
   length outp + length p \<le> 511 \<Longrightarrow> st = [] \<or> p = [] \<or> hd p = CHR ''/'' \<Longrightarrow>
   fileio_norm_loop 512 p marks outp =
     (let r = resolve False st (toks is_slash p) in if ''..'' \<in> set r then None else Some (join_words CHR ''/'' r))"
proof (induction "length p" arbitrary: p st marks outp rule: less_induct)
  case less
  have ne: "[] \<notin> set st" and nb: "''..'' \<notin> set st" using less.prems(1) by (auto simp: word_type_def)
  show ?case
  proof (cases "dropWhile is_slash p")
    case Nil
    then have "toks is_slash p = []" by (rule toks_none)
    then show ?thesis using nb less.prems(2) Nil by (subst fileio_norm_loop.simps) simp
  next
    case (Cons x xs)
    let ?seg = "takeWhile (\<lambda>c. c \<noteq> CHR ''/'') (x # xs)" and ?rest = "dropWhile (\<lambda>c. c \<noteq> CHR ''/'') (x # xs)"
    have x: "x \<noteq> CHR ''/''" using hd_dropWhile [of is_slash p] Cons by simp
    have seg: "?seg \<noteq> []" using x by simp
    have t: "toks is_slash p = ?seg # toks is_slash ?rest" using toks_step [OF Cons] .
    have restp: "?rest = [] \<or> hd ?rest = CHR ''/''" using hd_dropWhile [of "\<lambda>c. c \<noteq> CHR ''/''" "x # xs"] by auto
    have split: "?seg @ ?rest = x # xs" by (rule takeWhile_dropWhile_id)
    have lens: "length ?seg + length ?rest = length (x # xs)" using arg_cong [OF split, of length] by (simp only: length_append)
    have pre: "takeWhile is_slash p @ x # xs = p" using takeWhile_dropWhile_id [of is_slash p] Cons by simp
    have lenp: "length (x # xs) \<le> length p" using arg_cong [OF pre, of length] by simp
    have lenp2: "length (x # xs) < length p" if "st \<noteq> []"
    proof -
      have "hd p = CHR ''/''" "p \<noteq> []" using less.prems(5) that Cons by auto
      then have "takeWhile is_slash p \<noteq> []" by (cases p) auto
      then show ?thesis using arg_cong [OF pre, of length] by (cases "takeWhile is_slash p") auto
    qed
    have shorter: "length ?rest < length p" using lens lenp seg by (cases ?seg) auto
    have unf: "fileio_norm_loop 512 p marks outp =
        (if ?seg = ''.'' then fileio_norm_loop 512 ?rest marks outp
         else if ?seg = ''..'' then (case marks of [] \<Rightarrow> None | m # ms \<Rightarrow> fileio_norm_loop 512 ?rest ms (take m outp))
         else if length marks \<ge> 256 then None
         else if outp \<noteq> [] \<and> length outp + 1 \<ge> 512 then None
         else let out1 = (if outp \<noteq> [] then outp @ ''/'' else outp) in
           if length out1 + length ?seg \<ge> 512 then None
           else fileio_norm_loop 512 ?rest (length outp # marks) (out1 @ ?seg))"
      using seg by (subst fileio_norm_loop.simps) (simp only: Let_def Cons FILEIO_MAX_PATH_LENGTH_def list.distinct(2) simp_thms if_False)
    define w rest where "w = ?seg" and "rest = ?rest"
    note facts = t [folded w_def rest_def] unf [folded w_def rest_def] shorter [folded rest_def] restp [folded rest_def]
      lens [folded w_def rest_def] seg [folded w_def]
    have unf: "fileio_norm_loop 512 p marks outp =
        (if w = ''.'' then fileio_norm_loop 512 rest marks outp
         else if w = ''..'' then (case marks of [] \<Rightarrow> None | m # ms \<Rightarrow> fileio_norm_loop 512 rest ms (take m outp))
         else if length marks \<ge> 256 then None
         else if outp \<noteq> [] \<and> length outp + 1 \<ge> 512 then None
         else let out1 = (if outp \<noteq> [] then outp @ ''/'' else outp) in
           if length out1 + length w \<ge> 512 then None
           else fileio_norm_loop 512 rest (length outp # marks) (out1 @ w))" by (fact facts(2))
    have t: "toks is_slash p = w # toks is_slash rest" by (fact facts(1))
    note IH = less.hyps [OF facts(3)] and w = facts(6)
    have len: "length w + length rest \<le> length p" "st \<noteq> [] \<Longrightarrow> length w + length rest < length p"
      using facts(5) lenp lenp2 by simp_all
    consider "w = ''.''" | "w = ''..''" "st = []" | y st' where "w = ''..''" "st = y # st'"
      | "w \<noteq> ''.''" "w \<noteq> ''..''" by (cases st) auto
    then show ?thesis
    proof cases
      case 1
      have "fileio_norm_loop 512 p marks outp = fileio_norm_loop 512 rest marks outp" unfolding unf using 1 by simp
      also have "\<dots> = (let r = resolve False st (toks is_slash rest) in if ''..'' \<in> set r then None else Some (join_words CHR ''/'' r))"
        by (rule IH) (use less.prems len facts(4) in auto)
      finally show ?thesis unfolding t using 1 by (simp add: word_type_def)
    next
      case 2
      have "''..'' \<in> set (resolve False [''..''] (toks is_slash rest))" by (rule resolve_keeps_back) simp
      then show ?thesis unfolding unf t using 2 less.prems(3) by (simp add: word_type_def)
    next
      case 3
      have y: "word_type y = CWK_NORMAL" "y \<noteq> []" using less.prems(1) 3 by simp_all
      have tk: "take (length (stack_text st')) outp = stack_text st'" unfolding less.prems(2) 3(2) stack_text_Cons by simp
      have "fileio_norm_loop 512 p marks outp = fileio_norm_loop 512 rest (stack_marks st') (stack_text st')"
        unfolding unf using 3 less.prems(3) tk by simp
      also have "\<dots> = (let r = resolve False st' (toks is_slash rest) in if ''..'' \<in> set r then None else Some (join_words CHR ''/'' r))"
      proof (rule IH)
        have "length (stack_text st') \<le> length outp" unfolding less.prems(2) 3(2) stack_text_Cons by simp
        then show "length (stack_text st') + length rest \<le> 511" using len(1) less.prems(4) by simp
      qed (use less.prems(1) 3 facts(4) in auto)
      finally show ?thesis unfolding t using 3 y by (simp add: word_type_def)
    next
      case 4
      have n: "word_type w = CWK_NORMAL" using 4 by (simp add: word_type_def)
      have out_nil: "outp = [] \<longleftrightarrow> st = []" using stack_text_Nil [OF ne] less.prems(2) by simp
      have w1: "1 \<le> length w" using w by (cases w) auto
      have lo: "length (stack_text (w # st)) = (if st = [] then length w else length outp + 1 + length w)"
        unfolding stack_text_Cons less.prems(2) by simp
      have total: "length (stack_text (w # st)) + length rest \<le> 511" unfolding lo using len less.prems(4) by (cases "st = []") auto
      have d: "length marks < 256" using stack_text_long [OF ne] total w1 len(2) less.prems(2,3,4) by (cases "st = []") auto
      have s1: "\<not> (outp \<noteq> [] \<and> length outp + 1 \<ge> 512)" using out_nil total w1 unfolding lo by (cases "st = []") auto
      have s2: "\<not> length (if outp \<noteq> [] then outp @ ''/'' else outp) + length w \<ge> 512"
        using out_nil total unfolding lo by (cases "st = []") auto
      have tx: "(if outp \<noteq> [] then outp @ ''/'' else outp) @ w = stack_text (w # st)"
        unfolding stack_text_Cons using out_nil less.prems(2) by simp
      have "fileio_norm_loop 512 p marks outp = fileio_norm_loop 512 rest (length outp # marks) (stack_text (w # st))"
        unfolding unf Let_def using 4 d s1 s2 tx by auto
      also have "\<dots> = (let r = resolve False (w # st) (toks is_slash rest) in if ''..'' \<in> set r then None else Some (join_words CHR ''/'' r))"
        by (rule IH) (use less.prems n w total facts(4) in simp_all)
      finally show ?thesis unfolding t using n by simp
    qed
  qed
qed

text \<open>The names of a relative path, which may use both separators.\<close>

definition rel_names :: "string \<Rightarrow> string list" where
  "rel_names s = resolve False [] (toks (\<lambda>c. c = CHR ''/'' \<or> c = CHR 0x5C) s)"

lemma toks_both: "toks is_slash (map (\<lambda>c. if c = CHR 0x5C then CHR ''/'' else c) s) = toks (\<lambda>c. c = CHR ''/'' \<or> c = CHR 0x5C) s"
proof (induction "\<lambda>c. c = CHR ''/'' \<or> c = CHR 0x5C" s rule: toks.induct)
  case (2 c s)
  let ?f = "\<lambda>c. if c = CHR 0x5C then CHR ''/'' else c" and ?P = "\<lambda>c. c = CHR ''/'' \<or> c = CHR 0x5C"
  have t: "takeWhile (\<lambda>d. \<not> is_slash d) (map ?f s) = takeWhile (\<lambda>d. \<not> ?P d) s" by (induction s) auto
  have d: "dropWhile (\<lambda>d. \<not> is_slash d) (map ?f s) = map ?f (dropWhile (\<lambda>d. \<not> ?P d) s)" by (induction s) auto
  show ?case using 2 t d by simp
qed simp

lemma rel_names_ok: "w \<in> set (rel_names s) \<Longrightarrow> w \<noteq> [] \<and> CHR ''/'' \<notin> set w \<and> CHR 0x5C \<notin> set w \<and> set w \<subseteq> set s"
proof -
  assume "w \<in> set (rel_names s)"
  then have "w \<in> set (toks (\<lambda>c. c = CHR ''/'' \<or> c = CHR 0x5C) s)" using resolve_subset [of False "[]"] by (auto simp: rel_names_def)
  from toks_words [OF this] show ?thesis by (auto simp: list_all_iff)
qed

text \<open>When a path is refused before it is resolved: absolute, with a colon, or too long.\<close>

definition rel_refused :: "string \<Rightarrow> bool" where
  "rel_refused s \<longleftrightarrow> length s \<ge> 512 \<or> (s \<noteq> [] \<and> (hd s = CHR ''/'' \<or> hd s = CHR 0x5C)) \<or> CHR '':'' \<in> set s"

lemma normalize_relpath_names:
  "fileio_normalize_relpath (Some s) 512 allow_empty =
     (if rel_refused s \<or> ''..'' \<in> set (rel_names s) \<or> (rel_names s = [] \<and> \<not> allow_empty) then None
      else Some (join_words CHR ''/'' (rel_names s)))"
proof (cases "rel_refused s")
  case True
  then show ?thesis by (cases s) (auto simp: fileio_normalize_relpath_def rel_refused_def FILEIO_MAX_PATH_LENGTH_def c_at_def)
next
  case False
  let ?m = "map (\<lambda>c. if c = CHR 0x5C then CHR ''/'' else c) s"
  have len: "length s < 512" and col: "CHR '':'' \<notin> set s" and abs: "c_at s 0 \<noteq> CHR ''/''" "c_at s 0 \<noteq> CHR 0x5C"
    using False by (cases s; simp add: rel_refused_def c_at_def)+
  have "c_at s 1 \<in> insert NUL (set s)" by (simp add: c_at_def)
  then have c1: "c_at s 1 \<noteq> CHR '':''" using col by auto
  have l: "fileio_norm_loop 512 ?m [] [] =
      (if ''..'' \<in> set (rel_names s) then None else Some (join_words CHR ''/'' (rel_names s)))"
    using norm_loop_resolve [of "[]" "[]" "[]" ?m] len by (simp add: toks_both rel_names_def)
  have e: "join_words CHR ''/'' (rel_names s) = [] \<longleftrightarrow> rel_names s = []"
    using stack_text_Nil [of "rev (rel_names s)"] rel_names_ok by fastforce
  show ?thesis using False len col abs c1 l e
    by (simp add: fileio_normalize_relpath_def FILEIO_MAX_PATH_LENGTH_def)
qed

text \<open>
  C20. A relative path is resolved as a stack of names: the separators of both systems cut it into names,
  \<^verbatim>\<open>"."\<close> and empty names go, \<^verbatim>\<open>".."\<close> drops the name before it. It is refused exactly when it is absolute,
  contains a colon, has 512 characters or more, climbs above its start, or, where that is not
  allowed, names nothing. The fixed buffers of the routine never run out.
\<close>

theorem fileio_relpath_is_resolution:
  "fileio_normalize_relpath (Some s) (FILEIO_MAX_PATH_LENGTH * 2) allow_empty =
     (if length s \<ge> 512 \<or> (s \<noteq> [] \<and> (hd s = CHR ''/'' \<or> hd s = CHR 0x5C)) \<or> CHR '':'' \<in> set s \<or>
         ''..'' \<in> set (resolve False [] (toks (\<lambda>c. c = CHR ''/'' \<or> c = CHR 0x5C) s)) \<or>
         (resolve False [] (toks (\<lambda>c. c = CHR ''/'' \<or> c = CHR 0x5C) s) = [] \<and> \<not> allow_empty) then None
      else Some (join_words CHR ''/'' (resolve False [] (toks (\<lambda>c. c = CHR ''/'' \<or> c = CHR 0x5C) s))))"
  using normalize_relpath_names [of s allow_empty] unfolding rel_refused_def rel_names_def by (simp add: FILEIO_MAX_PATH_LENGTH_def)

lemma resolve_no_current: "''.'' \<notin> set st \<Longrightarrow> ''.'' \<notin> set (resolve absolute st ws)"
proof (induction absolute st ws rule: resolve.induct)
  case (2 absolute stack w ws)
  show ?case
  proof (cases "word_type w")
    case CWK_BACK
    then have "w \<noteq> ''.''" by (auto simp: word_type_def)
    then show ?thesis using 2 CWK_BACK by (cases stack) (auto split: if_splits)
  next
    case CWK_NORMAL
    then have "w \<noteq> ''.''" by (auto simp: word_type_def)
    then show ?thesis using 2 CWK_NORMAL by simp
  qed (use 2 in simp)
qed simp

text \<open>
  C19. No path leaves the mount point: every path the routines hand to the file system is the mount
  point followed by names, each after a slash, that are not empty, not \<^verbatim>\<open>"."\<close> and not \<^verbatim>\<open>".."\<close> and contain
  no separator and no colon, as far as the buffer goes.
\<close>

theorem fileio_paths_stay_inside:
  assumes "fileio_build_full_path g (Some s) allow_empty = Some full_path"
  shows "\<exists>names. full_path = take 511 (fileio_mount_point g @ concat (map (\<lambda>w. CHR ''/'' # w) names)) \<and>
    (\<forall>w \<in> set names. w \<noteq> [] \<and> w \<noteq> ''.'' \<and> w \<noteq> ''..'' \<and> CHR ''/'' \<notin> set w \<and> CHR 0x5C \<notin> set w \<and> CHR '':'' \<notin> set w)"
proof -
  let ?ns = "rel_names s"
  obtain n where n: "fileio_normalize_relpath (Some s) 512 allow_empty = Some n"
    and f: "full_path = take 511 (if n = [] then fileio_mount_point g else fileio_mount_point g @ ''/'' @ n)"
    using assms by (auto simp: fileio_build_full_path_def FILEIO_MAX_PATH_LENGTH_def split: option.splits)
  have ok: "\<not> rel_refused s" "''..'' \<notin> set ?ns" "n = join_words CHR ''/'' ?ns"
    using n unfolding normalize_relpath_names by (simp_all split: if_splits)
  have dot: "''.'' \<notin> set ?ns" unfolding rel_names_def by (rule resolve_no_current) simp
  have names: "\<forall>w \<in> set ?ns. w \<noteq> [] \<and> w \<noteq> ''.'' \<and> w \<noteq> ''..'' \<and> CHR ''/'' \<notin> set w \<and> CHR 0x5C \<notin> set w \<and> CHR '':'' \<notin> set w"
    using rel_names_ok [of _ s] ok(1,2) dot unfolding rel_refused_def by (metis subset_iff)
  have jw: "ws \<noteq> [] \<Longrightarrow> CHR ''/'' # join_words CHR ''/'' ws = concat (map (\<lambda>w. CHR ''/'' # w) ws)" for ws
    by (induction "CHR ''/''" ws rule: join_words.induct) simp_all
  have "n = [] \<longleftrightarrow> ?ns = []" using stack_text_Nil [of "rev ?ns"] names ok(3) by fastforce
  then have "full_path = take 511 (fileio_mount_point g @ concat (map (\<lambda>w. CHR ''/'' # w) ?ns))"
    using f jw [of ?ns] ok(3) by (cases "?ns = []") simp_all
  with names show ?thesis by blast
qed

theorem fileio_paths_stay_inside_witness:
  "\<exists>names. ''data/a/c'' = take 511 (''data'' @ concat (map (\<lambda>w. CHR ''/'' # w) names)) \<and>
    (\<forall>w \<in> set names. w \<noteq> [] \<and> w \<noteq> ''.'' \<and> w \<noteq> ''..'' \<and> CHR ''/'' \<notin> set w \<and> CHR 0x5C \<notin> set w \<and> CHR '':'' \<notin> set w)"
proof -
  have "fileio_build_full_path \<lparr>fileio_mount_point = ''data'', fileio_mount_point_initialized = True\<rparr> (Some ''a/./b/..//c'') False = Some ''data/a/c''"
    by code_simp
  from fileio_paths_stay_inside [OF this] show ?thesis by simp
qed

section \<open>A file system\<close>

text \<open>
  What the routines rely on: the files of a state and their contents, the streams open for writing, each
  with its file and what was written to it, and how the calls change them. Different paths are different files.
  Creating a directory changes no file; opening for writing makes the file empty; a write to a stream appends to
  what was written when it takes everything, and the file may be behind; a stream that is closed without an error has
  written all of it to the file; reading finds the content, and its length at the end of the file.
\<close>

locale file_store =
  fixes fs :: "'s fs_ops"
    and files :: "'s \<Rightarrow> string \<Rightarrow> byte list option"
    and stream :: "'s \<Rightarrow> nat \<Rightarrow> (string \<times> byte list) option"
  assumes mkdir_files: "files (snd (fs_mkdir fs p s)) = files s"
    and open_files: "fs_open_write fs p s = (h, s1) \<Longrightarrow> (\<forall>q. q \<noteq> p \<longrightarrow> files s1 q = files s q) \<and>
      (\<forall>k. h = Some k \<longrightarrow> files s1 p = Some [] \<and> stream s1 k = Some (p, []))"
    and write_files: "stream s k = Some (p, old) \<Longrightarrow> fs_write fs k d s = (n, s1) \<Longrightarrow>
      (\<forall>q. q \<noteq> p \<longrightarrow> files s1 q = files s q) \<and> (\<exists>cont. stream s1 k = Some (p, cont) \<and> (n = length d \<longrightarrow> cont = old @ d))"
    and close_files: "stream s k = Some (p, cont) \<Longrightarrow> fs_close fs k s = (ok, s1) \<Longrightarrow>
      (\<forall>q. q \<noteq> p \<longrightarrow> files s1 q = files s q) \<and> (ok \<longrightarrow> files s1 p = Some cont)"
    and read_files: "fs_open_read fs p s = map_option (\<lambda>d. (True, int (length d), d)) (files s p)"
    and remove_files: "fs_remove fs p s = (r, s1) \<Longrightarrow> files s1 = (if r = FsOk then (files s)(p := None) else files s)"
begin

lemma mkdir_loop_files: "files (snd (fileio_mkdir_loop fs pre p s)) = files s"
proof (induction "length p" arbitrary: pre p s rule: less_induct)
  case less
  show ?case
  proof (cases "dropWhile (\<lambda>c. c \<noteq> CHR ''/'') p")
    case Nil
    show ?thesis by (subst fileio_mkdir_loop.simps) (simp only: Nil list.case snd_conv)
  next
    case (Cons c rest)
    then have l: "length rest < length p" using length_dropWhile_le [of "\<lambda>c. c \<noteq> CHR ''/''" p] by simp
    let ?dir = "pre @ takeWhile (\<lambda>c. c \<noteq> CHR ''/'') p"
    obtain r s1 where m: "fs_mkdir fs ?dir s = (r, s1)" by (cases "fs_mkdir fs ?dir s")
    then have "files s1 = files s" using mkdir_files [of ?dir s] by simp
    then show ?thesis using less [OF l, of "?dir @ ''/''" s1] Cons m by (subst fileio_mkdir_loop.simps) (simp add: Let_def)
  qed
qed

lemma mkdir_common_files: "fileio_mkdir_common fs g path s = Some (r, s1) \<Longrightarrow> files s1 = files s"
  using mkdir_loop_files by (auto simp: fileio_mkdir_common_def split: if_splits option.splits list.splits) (metis snd_conv)

text \<open>
  A write changes one file only. One that reports success has put all data in the stream; the data are in the
  file if closing the stream worked.
\<close>

lemma write_at:
  assumes "fileio_write_common fs g (Some p) d s = Some (r, s')" and "fileio_mount_point_initialized g"
    and "fileio_build_full_path g (Some p) False = Some fp"
  shows "(\<forall>q. q \<noteq> fp \<longrightarrow> files s' q = files s q) \<and>
    (r = 0 \<longrightarrow> (\<exists>k s3 ok. stream s3 k = Some (fp, d) \<and> fs_close fs k s3 = (ok, s') \<and> (ok \<longrightarrow> files s' fp = Some d)))"
proof -
  obtain r1 s1 where m: "fileio_mkdir_common fs g (Some p) s = Some (r1, s1)"
    using assms by (auto simp: fileio_write_common_def split: Option.bind_splits)
  have f1: "files s1 = files s" by (rule mkdir_common_files [OF m])
  obtain h s2 where o: "fs_open_write fs fp s1 = (h, s2)" by (cases "fs_open_write fs fp s1")
  have f2: "\<forall>q. q \<noteq> fp \<longrightarrow> files s2 q = files s q" using open_files [OF o] f1 by simp
  show ?thesis
  proof (cases "r1 = 0 \<and> h \<noteq> None")
    case False
    then have "r \<noteq> 0 \<and> s' \<in> {s1, s2}" using assms m o by (auto simp: fileio_write_common_def split: if_splits)
    then show ?thesis using f1 f2 by auto
  next
    case True
    then obtain k where k: "r1 = 0" "h = Some k" by auto
    then have st: "stream s2 k = Some (fp, [])" using open_files [OF o] by simp
    obtain n s3 where w: "fs_write fs k d s2 = (n, s3)" by (cases "fs_write fs k d s2")
    obtain ok s4 where c: "fs_close fs k s3 = (ok, s4)" by (cases "fs_close fs k s3")
    have res: "r = (if n \<noteq> length d then -1 else 0)" "s' = s4"
      using assms m o w c k by (auto simp: fileio_write_common_def split: if_splits)
    obtain cont where cont: "stream s3 k = Some (fp, cont)" "n = length d \<longrightarrow> cont = d"
      and f3: "\<forall>q. q \<noteq> fp \<longrightarrow> files s3 q = files s q"
      using write_files [OF st w] f2 by auto
    show ?thesis using close_files [OF cont(1) c] cont f3 res c by (auto split: if_splits)
  qed
qed

lemma read_at:
  assumes "fileio_mount_point_initialized g" and "fileio_build_full_path g (Some p) False = Some fp"
  shows "fileio_read_common fs g mem_ok (Some p) s = (case files s fp of
      None \<Rightarrow> FileioError (-1)
    | Some d \<Rightarrow> if length d > 2 ^ 64 - 2 \<or> \<not> mem_ok then FileioError (-1) else FileioData d)"
  using assms by (simp add: fileio_read_common_def read_files split: option.split)

lemma read_same:
  assumes "fileio_mount_point_initialized g" and "\<forall>q. q \<noteq> fp \<longrightarrow> files s' q = files s q"
    and "fileio_build_full_path g (Some q) False \<noteq> Some fp"
  shows "fileio_read_common fs g mem_ok (Some q) s' = fileio_read_common fs g mem_ok (Some q) s"
proof (cases "fileio_build_full_path g (Some q) False")
  case None
  then show ?thesis by (simp add: fileio_read_common_def)
next
  case (Some fq)
  then have "files s' fq = files s fq" using assms(2,3) by auto
  then show ?thesis using read_at [OF assms(1) Some] by simp
qed

end

text \<open>
  A file system of the kind: a list of entries, files with their content and directories, and a list of the open
  streams. A file or directory is made only in a directory that exists, and a directory is removed only when it is
  empty. Written data stay in the stream until it is closed, which fails and loses them when the disk is full.
\<close>

record mem_store =
  mem_entries :: "(string \<times> byte list option) list"
  mem_streams :: "(nat \<times> string \<times> byte list) list"
  mem_full :: bool

definition mem_parent_ok :: "(string \<times> byte list option) list \<Rightarrow> string \<Rightarrow> bool" where
  "mem_parent_ok es p = (case c_strrchr p CHR ''/'' of
     None \<Rightarrow> True
   | Some i \<Rightarrow> i = 0 \<or> map_of es (take i p) = Some None)"

definition mem_drop :: "'a \<Rightarrow> ('a \<times> 'b) list \<Rightarrow> ('a \<times> 'b) list" where
  "mem_drop p s = filter (\<lambda>x. fst x \<noteq> p) s"

definition mem_close :: "nat \<Rightarrow> mem_store \<Rightarrow> bool \<times> mem_store" where
  "mem_close k s = (case map_of (mem_streams s) k of
     None \<Rightarrow> (False, s)
   | Some (p, d) \<Rightarrow>
       if mem_full s then (False, s\<lparr>mem_streams := mem_drop k (mem_streams s)\<rparr>)
       else (True, s\<lparr>mem_entries := (p, Some d) # mem_drop p (mem_entries s), mem_streams := mem_drop k (mem_streams s)\<rparr>))"

definition mem_fs :: "mem_store fs_ops" where
  "mem_fs = \<lparr>
     fs_mkdir = (\<lambda>p s. let es = mem_entries s in
       if p = [] then (FsNoEntry, s) else if map_of es p \<noteq> None then (FsExists, s)
       else if mem_parent_ok es p then (FsOk, s\<lparr>mem_entries := (p, None) # es\<rparr>) else (FsNoEntry, s)),
     fs_open_write = (\<lambda>p s. let es = mem_entries s; k = Suc (foldr max (map fst (mem_streams s)) 0) in
       if map_of es p = Some None \<or> \<not> mem_parent_ok es p then (None, s)
       else (Some k, s\<lparr>mem_entries := (p, Some []) # mem_drop p es, mem_streams := (k, p, []) # mem_streams s\<rparr>)),
     fs_write = (\<lambda>k d s. case map_of (mem_streams s) k of
         Some (p, old) \<Rightarrow> (length d, s\<lparr>mem_streams := (k, p, old @ d) # mem_drop k (mem_streams s)\<rparr>)
       | None \<Rightarrow> (0, s)),
     fs_close = mem_close,
     fs_open_read = (\<lambda>p s. case map_of (mem_entries s) p of Some (Some d) \<Rightarrow> Some (True, int (length d), d) | _ \<Rightarrow> None),
     fs_stat = (\<lambda>p s. map_of (mem_entries s) p \<noteq> None),
     fs_remove = (\<lambda>p s. case map_of (mem_entries s) p of
         Some (Some d) \<Rightarrow> (FsOk, s\<lparr>mem_entries := mem_drop p (mem_entries s)\<rparr>) | None \<Rightarrow> (FsNoEntry, s) | _ \<Rightarrow> (FsError, s)),
     fs_rmdir = (\<lambda>p s. case map_of (mem_entries s) p of
         Some None \<Rightarrow> if \<exists>x \<in> set (mem_entries s). take (Suc (length p)) (fst x) = p @ ''/'' then (FsError, s)
           else (FsOk, s\<lparr>mem_entries := mem_drop p (mem_entries s)\<rparr>)
       | None \<Rightarrow> (FsNoEntry, s) | _ \<Rightarrow> (FsError, s))\<rparr>"

definition mem_files :: "mem_store \<Rightarrow> string \<Rightarrow> byte list option" where
  "mem_files s p = (case map_of (mem_entries s) p of Some (Some d) \<Rightarrow> Some d | _ \<Rightarrow> None)"

definition mem_stream :: "mem_store \<Rightarrow> nat \<Rightarrow> (string \<times> byte list) option" where
  "mem_stream s = map_of (mem_streams s)"

abbreviation mem_disk :: "(string \<times> byte list option) list \<Rightarrow> mem_store" where
  "mem_disk es \<equiv> \<lparr>mem_entries = es, mem_streams = [], mem_full = False\<rparr>"

lemma map_of_mem_drop [simp]: "map_of (mem_drop p s) q = (if q = p then None else map_of s q)"
  by (induction s) (auto simp: mem_drop_def)

lemma mem_open_write_files:
  assumes "fs_open_write mem_fs p s = (h, s1)"
  shows "(\<forall>q. q \<noteq> p \<longrightarrow> mem_files s1 q = mem_files s q) \<and> (\<forall>k. h = Some k \<longrightarrow> mem_files s1 p = Some [] \<and> mem_stream s1 k = Some (p, []))"
  using assms by (auto simp: mem_fs_def mem_files_def mem_stream_def Let_def split: if_splits)

lemma mem_write_files:
  assumes "mem_stream s k = Some (p, old)" and "fs_write mem_fs k d s = (n, s1)"
  shows "(\<forall>q. q \<noteq> p \<longrightarrow> mem_files s1 q = mem_files s q) \<and> (\<exists>cont. mem_stream s1 k = Some (p, cont) \<and> (n = length d \<longrightarrow> cont = old @ d))"
  using assms by (auto simp: mem_fs_def mem_files_def mem_stream_def)

lemma mem_close_files:
  assumes "mem_stream s k = Some (p, cont)" and "fs_close mem_fs k s = (ok, s1)"
  shows "(\<forall>q. q \<noteq> p \<longrightarrow> mem_files s1 q = mem_files s q) \<and> (ok \<longrightarrow> mem_files s1 p = Some cont)"
  using assms by (auto simp: mem_fs_def mem_close_def mem_files_def mem_stream_def split: if_splits)

interpretation mem: file_store mem_fs mem_files mem_stream
proof
  show "mem_files (snd (fs_mkdir mem_fs p s)) = mem_files s" for p s
    by (auto simp: mem_fs_def mem_files_def fun_eq_iff Let_def)
  show "fs_open_read mem_fs p s = map_option (\<lambda>d. (True, int (length d), d)) (mem_files s p)" for p s
    by (auto simp: mem_fs_def mem_files_def split: option.split)
  show "mem_files s1 = (if r = FsOk then (mem_files s)(p := None) else mem_files s)" if "fs_remove mem_fs p s = (r, s1)" for p s r s1
    using that by (auto simp: mem_fs_def mem_files_def fun_eq_iff split: option.splits if_splits)
qed (fact mem_open_write_files mem_write_files mem_close_files)+

section \<open>Files\<close>

text \<open>
  C21. A write that reports success has put the data in a stream on the file of that name and closed the stream, by its
  last call on the system. If closing worked, reading the same name then gives the data. Reading any name with another
  full path gives what it gave before, whether closing worked or not. The system is one in which different paths are
  different files.
\<close>

theorem fileio_write_read:
  assumes "file_store fs files stream" and "fileio_write_common fs g (Some p) d s = Some (0, s')"
    and "fileio_mount_point_initialized g" and "length d < 2 ^ 63"
  shows "(\<exists>fp k s3 ok. fileio_build_full_path g (Some p) False = Some fp \<and> stream s3 k = Some (fp, d) \<and>
      fs_close fs k s3 = (ok, s') \<and> (ok \<longrightarrow> fileio_read_common fs g True (Some p) s' = FileioData d)) \<and>
    (\<forall>q mem_ok. fileio_build_full_path g (Some q) False \<noteq> fileio_build_full_path g (Some p) False \<longrightarrow>
       fileio_read_common fs g mem_ok (Some q) s' = fileio_read_common fs g mem_ok (Some q) s)"
proof -
  obtain fp where fp: "fileio_build_full_path g (Some p) False = Some fp"
    using assms(2,3) by (auto simp: fileio_write_common_def split: option.splits)
  from file_store.write_at [OF assms(1,2,3) fp]
  obtain k s3 ok where f: "\<forall>q. q \<noteq> fp \<longrightarrow> files s' q = files s q"
      and c: "stream s3 k = Some (fp, d)" "fs_close fs k s3 = (ok, s')" "ok \<longrightarrow> files s' fp = Some d" by auto
  have "ok \<longrightarrow> fileio_read_common fs g True (Some p) s' = FileioData d"
    using file_store.read_at [OF assms(1,3) fp, of True s'] assms(4) c(3) by auto
  with fp c show ?thesis using file_store.read_same [OF assms(1,3) f] by auto
qed

theorem fileio_write_read_witness:
  "fileio_read_common mem_fs \<lparr>fileio_mount_point = ''data'', fileio_mount_point_initialized = True\<rparr> True (Some ''a/b'')
     (mem_disk [(''data/a/b'', Some [7, 8]), (''data/a'', None), (''data'', None)]) = FileioData [7, 8]"
proof -
  let ?g = "\<lparr>fileio_mount_point = ''data'', fileio_mount_point_initialized = True\<rparr>"
  have full: "fileio_build_full_path ?g (Some ''a/b'') False = Some ''data/a/b''" by code_simp
  have "fileio_write_common mem_fs ?g (Some ''a/b'') [7, 8] (mem_disk [(''data'', None)]) =
      Some (0, mem_disk [(''data/a/b'', Some [7, 8]), (''data/a'', None), (''data'', None)])" by code_simp
  from fileio_write_read [OF mem.file_store_axioms this]
  obtain k s3 ok where s3: "mem_stream s3 k = Some (''data/a/b'', [7, 8])"
      "mem_close k s3 = (ok, mem_disk [(''data/a/b'', Some [7, 8]), (''data/a'', None), (''data'', None)])"
      "ok \<longrightarrow> ?thesis"
    using full by (auto simp: mem_fs_def)
  then have "ok" by (auto simp: mem_close_def mem_stream_def split: if_splits dest: arg_cong [where f = mem_full])
  with s3(3) show ?thesis by simp
qed

text \<open>
  The result of the last \<^verbatim>\<open>fclose\<close> is not looked at: on a disk that is full the write is reported as a success, and
  the file is empty.
\<close>

theorem fileio_write_ignores_close:
  "fileio_write_common mem_fs \<lparr>fileio_mount_point = ''data'', fileio_mount_point_initialized = True\<rparr> (Some ''a'') [7, 8]
       \<lparr>mem_entries = [(''data'', None)], mem_streams = [], mem_full = True\<rparr> =
     Some (0, \<lparr>mem_entries = [(''data/a'', Some []), (''data'', None)], mem_streams = [], mem_full = True\<rparr>) \<and>
   fileio_read_common mem_fs \<lparr>fileio_mount_point = ''data'', fileio_mount_point_initialized = True\<rparr> True (Some ''a'')
       \<lparr>mem_entries = [(''data/a'', Some []), (''data'', None)], mem_streams = [], mem_full = True\<rparr> = FileioData []"
proof (intro conjI)
  let ?g = "\<lparr>fileio_mount_point = ''data'', fileio_mount_point_initialized = True\<rparr>"
  show "fileio_write_common mem_fs ?g (Some ''a'') [7, 8] \<lparr>mem_entries = [(''data'', None)], mem_streams = [], mem_full = True\<rparr> =
      Some (0, \<lparr>mem_entries = [(''data/a'', Some []), (''data'', None)], mem_streams = [], mem_full = True\<rparr>)" by code_simp
  have "fileio_build_full_path ?g (Some ''a'') False = Some ''data/a''" by code_simp
  from mem.read_at [OF _ this]
  show "fileio_read_common mem_fs ?g True (Some ''a'') \<lparr>mem_entries = [(''data/a'', Some []), (''data'', None)], mem_streams = [], mem_full = True\<rparr> = FileioData []"
    by (simp add: mem_files_def)
qed

text \<open>A plain name is its own normal form.\<close>

lemma relpath_name:
  assumes "w \<noteq> []" "w \<noteq> ''.''" "w \<noteq> ''..''" "length w < 512" "CHR ''/'' \<notin> set w" "CHR 0x5C \<notin> set w" "CHR '':'' \<notin> set w"
  shows "fileio_normalize_relpath (Some w) (FILEIO_MAX_PATH_LENGTH * 2) allow_empty = Some w"
proof -
  have t: "toks (\<lambda>c. c = CHR ''/'' \<or> c = CHR 0x5C) w = [w]"
    using toks_word [of w "\<lambda>c. c = CHR ''/'' \<or> c = CHR 0x5C" "[]"] assms(1,5,6) by (auto simp: list_all_iff)
  have ty: "word_type w = CWK_NORMAL" using assms(2,3) by (simp add: word_type_def)
  have r: "rel_names w = [w]" unfolding rel_names_def t using ty by simp
  have h: "hd w \<in> set w" using assms(1) by simp
  have "hd w \<noteq> CHR ''/''" "hd w \<noteq> CHR 0x5C" using h assms(5,6) by metis+
  then have "\<not> rel_refused w" using assms(4,7) by (simp add: rel_refused_def)
  then show ?thesis using normalize_relpath_names [of w allow_empty] r assms(3)
    by (simp add: FILEIO_MAX_PATH_LENGTH_def)
qed

text \<open>
  A path that does not fit its buffer is cut without an error: with a mount point as long as is
  allowed, two different names of 257 characters have the same full path, so that writing one overwrites the other.
\<close>

theorem fileio_long_paths_collide:
  "fileio_normalize_relpath (Some (replicate 256 CHR ''a'' @ ''1'')) (FILEIO_MAX_PATH_LENGTH * 2) False \<noteq>
     fileio_normalize_relpath (Some (replicate 256 CHR ''a'' @ ''2'')) (FILEIO_MAX_PATH_LENGTH * 2) False \<and>
   fileio_build_full_path \<lparr>fileio_mount_point = replicate 254 CHR ''m'', fileio_mount_point_initialized = True\<rparr>
       (Some (replicate 256 CHR ''a'' @ ''1'')) False =
     fileio_build_full_path \<lparr>fileio_mount_point = replicate 254 CHR ''m'', fileio_mount_point_initialized = True\<rparr>
       (Some (replicate 256 CHR ''a'' @ ''2'')) False \<and>
   fst (fileio_init_common fs (Some (replicate 254 CHR ''m'')) (\<lparr>fileio_mount_point = [], fileio_mount_point_initialized = False\<rparr>, s)) =
     (if fst (fs_mkdir fs (replicate 254 CHR ''m'') s) \<in> {FsOk, FsExists} then 0 else -1)"
proof -
  have m: "replicate 254 CHR ''m'' \<noteq> ''/''" by (auto dest: arg_cong [where f = length])
  have n: "fileio_normalize_relpath (Some (replicate 256 CHR ''a'' @ [c])) (FILEIO_MAX_PATH_LENGTH * 2) False = Some (replicate 256 CHR ''a'' @ [c])"
    if "c = CHR ''1'' \<or> c = CHR ''2''" for c
  proof -
    let ?w = "replicate 256 CHR ''a'' @ [c]"
    have ne: "?w \<noteq> v" if "length v < 3" for v using that by (auto dest: arg_cong [where f = length])
    have "CHR ''/'' \<notin> set ?w" "CHR 0x5C \<notin> set ?w" "CHR '':'' \<notin> set ?w" using that by auto
    then show ?thesis by (rule relpath_name [OF ne ne ne, rotated 4]) simp_all
  qed
  have b: "fileio_build_full_path \<lparr>fileio_mount_point = replicate 254 CHR ''m'', fileio_mount_point_initialized = True\<rparr>
      (Some (replicate 256 CHR ''a'' @ [c])) False = Some (replicate 254 CHR ''m'' @ CHR ''/'' # replicate 256 CHR ''a'')"
    if c: "c = CHR ''1'' \<or> c = CHR ''2''" for c
    unfolding fileio_build_full_path_def n [OF c] by (simp add: FILEIO_MAX_PATH_LENGTH_def take_Cons')
  have i: "fst (fileio_init_common fs (Some (replicate 254 CHR ''m'')) (\<lparr>fileio_mount_point = [], fileio_mount_point_initialized = False\<rparr>, s)) =
      (if fst (fs_mkdir fs (replicate 254 CHR ''m'') s) \<in> {FsOk, FsExists} then 0 else -1)"
    using m by (simp add: FILEIO_MAX_PATH_LENGTH_def fileio_init_common_def Let_def split: prod.split)
  have "replicate 256 CHR ''a'' @ ''1'' \<noteq> replicate 256 CHR ''a'' @ ''2''" by simp
  with b [of "CHR ''1''"] b [of "CHR ''2''"] n [of "CHR ''1''"] n [of "CHR ''2''"] i show ?thesis by simp
qed

section \<open>Directories and the mount point\<close>

text \<open>Creating directories in turn, up to the first failure.\<close>

fun mkdir_all :: "'s fs_ops \<Rightarrow> string list \<Rightarrow> 's \<Rightarrow> int \<times> 's" where
  "mkdir_all fs [] s = (0, s)"
| "mkdir_all fs (d # ds) s = (let (r, s1) = fs_mkdir fs d s in if r \<noteq> FsOk \<and> r \<noteq> FsExists then (-1, s1) else mkdir_all fs ds s1)"

lemma slash_positions:
  assumes "CHR ''/'' \<notin> set t"
  shows "filter (\<lambda>i. (t @ CHR ''/'' # rest) ! i = CHR ''/'') [0..<length (t @ CHR ''/'' # rest)] =
    length t # map (\<lambda>i. i + (length t + 1)) (filter (\<lambda>i. rest ! i = CHR ''/'') [0..<length rest])"
proof -
  let ?p = "t @ CHR ''/'' # rest"
  have "[0..<length ?p] = [0..<length t] @ [length t] @ map (\<lambda>i. i + (length t + 1)) [0..<length rest]"
    unfolding map_add_upt using upt_add_eq_append [of 0 "length t" "length rest + 1"] by (simp add: upt_conv_Cons add.commute [of "length rest"] del: upt_Suc)
  moreover have "filter (\<lambda>i. ?p ! i = CHR ''/'') [0..<length t] = []"
    using assms by (auto simp: filter_empty_conv nth_append) (metis nth_mem)
  ultimately show ?thesis by (simp add: nth_append filter_map comp_def)
qed

lemma mkdir_loop_slashes:
  "fileio_mkdir_loop fs pre p s = mkdir_all fs (map (\<lambda>i. pre @ take i p) (filter (\<lambda>i. p ! i = CHR ''/'') [0..<length p])) s"
proof (induction fs pre p s rule: fileio_mkdir_loop.induct)
  case (1 fs pre p s)
  let ?t = "takeWhile (\<lambda>c. c \<noteq> CHR ''/'') p"
  show ?case
  proof (cases "dropWhile (\<lambda>c. c \<noteq> CHR ''/'') p")
    case Nil
    then have "\<forall>c \<in> set p. c \<noteq> CHR ''/''" by (simp add: dropWhile_eq_Nil_conv)
    then have "filter (\<lambda>i. p ! i = CHR ''/'') [0..<length p] = []" by (auto simp: filter_empty_conv)
    then show ?thesis by (subst fileio_mkdir_loop.simps) (simp add: Nil)
  next
    case (Cons c rest)
    then have c: "c = CHR ''/''" using hd_dropWhile [of "\<lambda>c. c \<noteq> CHR ''/''" p] by simp
    have p: "p = ?t @ CHR ''/'' # rest" using takeWhile_dropWhile_id [of "\<lambda>c. c \<noteq> CHR ''/''" p] Cons c by simp
    have t: "CHR ''/'' \<notin> set ?t" by (auto dest: set_takeWhileD)
    have fl: "filter (\<lambda>i. p ! i = CHR ''/'') [0..<length p] =
        length ?t # map (\<lambda>i. i + (length ?t + 1)) (filter (\<lambda>i. rest ! i = CHR ''/'') [0..<length rest])"
      using slash_positions [OF t, of rest] p by simp
    obtain r s1 where m: "fs_mkdir fs (pre @ ?t) s = (r, s1)" by (cases "fs_mkdir fs (pre @ ?t) s")
    have tk: "take (length ?t) p = ?t" "\<And>i. take (i + (length ?t + 1)) p = ?t @ CHR ''/'' # take i rest"
      by (subst p, simp)+
    show ?thesis
      using 1 [OF Cons refl m [symmetric]] Cons m unfolding fl
      by (subst fileio_mkdir_loop.simps) (simp add: Let_def tk comp_def del: One_nat_def)
  qed
qed

text \<open>
  C39. \<^verbatim>\<open>fileio_mkdir\<close> makes a directory of every part of the full path that ends before a slash (but not at the very start), from the
  outermost in, and stops at the first that cannot be made: the mount point and the directories that hold
  the last name, which is what \<^verbatim>\<open>fileio_write\<close> calls it for. The last name itself is not made, although the
  comment on the function says that it creates \<^verbatim>\<open>path\<close>. With an empty full path it reads behind the end of the string.
\<close>

theorem fileio_mkdir_makes_parents:
  assumes "fileio_mount_point_initialized g" and "fileio_build_full_path g (Some path) True = Some fp"
  shows "fileio_mkdir_common fs g (Some path) s =
    (if fp = [] then None
     else Some (mkdir_all fs (map (\<lambda>i. take i fp) (filter (\<lambda>i. fp ! i = CHR ''/'') [1..<length fp])) s))"
proof (cases fp)
  case Nil
  then show ?thesis using assms by (simp add: fileio_mkdir_common_def)
next
  case (Cons c p)
  have "[1..<length fp] = map Suc [0..<length p]" by (simp add: Cons map_Suc_upt)
  then show ?thesis using assms by (simp add: fileio_mkdir_common_def Cons mkdir_loop_slashes filter_map comp_def)
qed

theorem fileio_mkdir_makes_parents_witness:
  "fileio_mkdir_common mem_fs \<lparr>fileio_mount_point = ''data'', fileio_mount_point_initialized = True\<rparr> (Some ''a/b'') (mem_disk []) =
     Some (0, mem_disk [(''data/a'', None), (''data'', None)])"
proof -
  let ?g = "\<lparr>fileio_mount_point = ''data'', fileio_mount_point_initialized = True\<rparr>"
  have "fileio_build_full_path ?g (Some ''a/b'') True = Some ''data/a/b''" by code_simp
  from fileio_mkdir_makes_parents [OF _ this, of mem_fs "mem_disk []"]
  have "fileio_mkdir_common mem_fs ?g (Some ''a/b'') (mem_disk []) = Some (mkdir_all mem_fs [''data'', ''data/a''] (mem_disk []))"
    by (simp add: upt_rec)
  moreover have "mkdir_all mem_fs [''data'', ''data/a''] (mem_disk []) = (0, mem_disk [(''data/a'', None), (''data'', None)])" by code_simp
  ultimately show ?thesis by simp
qed

text \<open>
  C38. What an initialisation that fails leaves, in a program that is not initialised. The name is taken without a slash at its
  start. If it is too long, or still \<^verbatim>\<open>"/"\<close>, nothing changes. Otherwise the directory could not be made, and the
  mount point is set all the same, so that every further initialisation is refused until a
  deinitialisation. With \<^verbatim>\<open>"/"\<close>, which the check for the root was meant to refuse, or the empty
  name, every path the program then uses is resolved from the root of the system.
\<close>

theorem fileio_failed_init_sticks:
  assumes "fileio_init fs (Some m) (g0, s) = Some (-1, g1, s1)" and "\<not> fileio_mount_point_initialized g0"
    and "n = (if c_at m 0 = CHR ''/'' then tl m else m)"
  shows "(if n = ''/'' \<or> length n \<ge> 255 then g1 = g0 \<and> s1 = s
     else g1 = \<lparr>fileio_mount_point = n, fileio_mount_point_initialized = True\<rparr> \<and>
       (\<exists>r. fs_mkdir fs n s = (r, s1) \<and> r \<noteq> FsOk \<and> r \<noteq> FsExists) \<and>
       (\<forall>m' s'. fileio_init fs (Some m') (g1, s') = Some (-1, g1, s'))) \<and>
    (n = [] \<longrightarrow> (\<forall>path names. fileio_normalize_relpath (Some path) 512 False = Some names \<longrightarrow>
       fileio_build_full_path g1 (Some path) False = Some (take 511 (CHR ''/'' # names))))"
proof -
  obtain r s2 where m: "fs_mkdir fs n s = (r, s2)" by (cases "fs_mkdir fs n s")
  let ?g = "\<lparr>fileio_mount_point = n, fileio_mount_point_initialized = True\<rparr>"
  have res: "(g1, s1) = (if n = ''/'' \<or> length n \<ge> 255 then (g0, s) else (?g, s2)) \<and>
      (n = ''/'' \<or> length n \<ge> 255 \<or> (r \<noteq> FsOk \<and> r \<noteq> FsExists))"
    using assms(1,2) m unfolding fileio_init_def fileio_init_common_def
    by (simp add: assms(3) [symmetric] FILEIO_MAX_PATH_LENGTH_def Let_def split: if_split_asm)
  have "fileio_build_full_path ?g (Some path) False = Some (take 511 (CHR ''/'' # names))"
    if "n = []" "fileio_normalize_relpath (Some path) 512 False = Some names" for path names
  proof -
    have "names \<noteq> []" using that(2) by (auto simp: fileio_normalize_relpath_def split: option.splits if_split_asm)
    then show ?thesis using that by (simp add: fileio_build_full_path_def FILEIO_MAX_PATH_LENGTH_def)
  qed
  then show ?thesis using res m by (auto simp: fileio_init_def fileio_init_common_def split: if_splits)
qed

theorem fileio_failed_init_sticks_witness:
  "fileio_build_full_path \<lparr>fileio_mount_point = [], fileio_mount_point_initialized = True\<rparr> (Some ''etc/passwd'') False = Some ''/etc/passwd'' \<and>
   fileio_init mem_fs (Some ''data'') (\<lparr>fileio_mount_point = [], fileio_mount_point_initialized = True\<rparr>, mem_disk []) =
     Some (-1, \<lparr>fileio_mount_point = [], fileio_mount_point_initialized = True\<rparr>, mem_disk [])"
proof -
  have i: "fileio_init mem_fs (Some ''/'') (\<lparr>fileio_mount_point = [], fileio_mount_point_initialized = False\<rparr>, mem_disk []) =
      Some (-1, \<lparr>fileio_mount_point = [], fileio_mount_point_initialized = True\<rparr>, mem_disk [])" by code_simp
  have "fileio_normalize_relpath (Some ''etc/passwd'') 512 False = Some ''etc/passwd''" by code_simp
  with fileio_failed_init_sticks [OF i, of "[]"] show ?thesis by (simp add: c_at_def)
qed

end
