(* ===== verification/FileIoWasm.thy ===== *)
theory FileIoWasm
  imports FileIo
begin

text \<open>
  File access in the browser build, \<^verbatim>\<open>src/fileio/fileio.wasm.c\<close>, with the JavaScript in it. The fields
  it keeps on \<^verbatim>\<open>Module\<close> are the record \<open>idbfs\<close>, where a field that is not defined yet is \<open>False\<close>.
  \<^verbatim>\<open>FS\<close> belongs to Emscripten: what is asked of it is logged, and a call of \<^verbatim>\<open>FS.syncfs\<close> leaves a callback
  outstanding, which runs later, once, with an error or without.

  The application and the callbacks interleave: a run is a list of actions in any order.
\<close>

section \<open>The module\<close>

datatype idbfs_call = FsMount string | FsUnmount string | FsSync bool

record idbfs =
  idbfs_ready :: bool
  idbfs_syncing :: bool
  idbfs_last_sync_ok :: bool
  idbfs_pending :: "(bool \<times> bool) list"
  idbfs_calls :: "idbfs_call list"

definition idbfs_new :: idbfs where
  "idbfs_new = \<lparr>idbfs_ready = False, idbfs_syncing = False, idbfs_last_sync_ok = False, idbfs_pending = [], idbfs_calls = []\<rparr>"

section \<open>The mount point\<close>

definition fileio_init_wasm ::
  "'s fs_ops \<Rightarrow> string option \<Rightarrow> idbfs \<Rightarrow> fileio_state \<times> 's \<Rightarrow> (int \<times> idbfs \<times> fileio_state \<times> 's) option" where
  "fileio_init_wasm fs mount_point m gs = (case mount_point of
     None \<Rightarrow> None
   | Some p \<Rightarrow>
       (let local = take (FILEIO_MAX_PATH_LENGTH - 1) (if c_at p 0 \<noteq> CHR ''/'' then CHR ''/'' # p else p);
            (ok, g1, s1) = fileio_init_common fs (Some local) gs in
        if ok \<noteq> 0 then Some (ok, m, g1, s1)
        else Some (0, m\<lparr>idbfs_ready := False, idbfs_calls := idbfs_calls m @ [FsMount (fileio_mount_point g1)]\<rparr>, g1, s1)))"

definition fileio_deinit_wasm :: "idbfs \<Rightarrow> fileio_state \<Rightarrow> idbfs \<times> fileio_state" where
  "fileio_deinit_wasm m g =
     (let m1 = (if fileio_mount_point_initialized g
                then m\<lparr>idbfs_calls := idbfs_calls m @ [FsUnmount (fileio_mount_point g)], idbfs_syncing := False\<rparr> else m) in
      (m1\<lparr>idbfs_ready := False\<rparr>, fileio_deinit_common g))"

definition is_mount_point :: "fileio_state \<Rightarrow> string \<Rightarrow> bool" where
  "is_mount_point g path = (if \<not> fileio_mount_point_initialized g then False else path = fileio_mount_point g)"

section \<open>Synchronisation\<close>

definition sync_to_idbfs :: "bool \<Rightarrow> bool \<Rightarrow> idbfs \<Rightarrow> idbfs" where
  "sync_to_idbfs populate set_ready m =
     (if idbfs_syncing m then m
      else m\<lparr>idbfs_syncing := True, idbfs_pending := idbfs_pending m @ [(populate, set_ready)],
             idbfs_calls := idbfs_calls m @ [FsSync populate]\<rparr>)"

text \<open>The callback of \<^verbatim>\<open>FS.syncfs\<close>.\<close>

definition idbfs_callback :: "bool \<Rightarrow> bool \<Rightarrow> idbfs \<Rightarrow> idbfs" where
  "idbfs_callback err set_ready m =
     (let m1 = m\<lparr>idbfs_last_sync_ok := \<not> err\<rparr>;
          m2 = (if set_ready then m1\<lparr>idbfs_ready := \<not> err\<rparr> else m1) in
      m2\<lparr>idbfs_syncing := False\<rparr>)"

definition fileio_sync_begin_internal :: "bool \<Rightarrow> bool \<Rightarrow> idbfs \<Rightarrow> fileio_sync_op option \<times> idbfs" where
  "fileio_sync_begin_internal mem_ok populate m =
     (if \<not> mem_ok then (None, m)
      else
        (wg_op_init (Some \<lparr>op_kind = WG_OP_KIND_NONE, op_state = WG_OP_PENDING, op_status_code = 0, op_impl = None, op_destroy = False\<rparr>)
           (if populate then WG_OP_KIND_FILEIO_RESTORE else WG_OP_KIND_FILEIO_FLUSH) None False,
         sync_to_idbfs populate populate (m\<lparr>idbfs_last_sync_ok := True\<rparr>)))"

definition fileio_restore_async_wasm :: "bool \<Rightarrow> idbfs \<Rightarrow> fileio_sync_op option \<times> idbfs" where
  "fileio_restore_async_wasm mem_ok m = fileio_sync_begin_internal mem_ok True m"

definition fileio_flush_async_wasm :: "bool \<Rightarrow> idbfs \<Rightarrow> fileio_sync_op option \<times> idbfs" where
  "fileio_flush_async_wasm mem_ok m = fileio_sync_begin_internal mem_ok False m"

text \<open>The result of the poll, and the operation after it.\<close>

definition fileio_sync_poll_wasm :: "idbfs \<Rightarrow> fileio_sync_op option \<Rightarrow> bool \<times> fileio_sync_op option" where
  "fileio_sync_poll_wasm m op = (case op of
     None \<Rightarrow> (False, None)
   | Some _ \<Rightarrow>
       if wg_op_is_done op then (True, op)
       else
         let op1 = (if \<not> idbfs_syncing m then wg_op_complete op (if idbfs_last_sync_ok m then 0 else -1) else op) in
         (wg_op_is_done op1, op1))"

definition fileio_sync_finish_wasm :: "idbfs \<Rightarrow> fileio_sync_op option \<Rightarrow> int \<times> fileio_sync_op option" where
  "fileio_sync_finish_wasm m op = (case op of
     None \<Rightarrow> (-1, None)
   | Some _ \<Rightarrow>
       (let (finished, op1) = fileio_sync_poll_wasm m op in
        if \<not> finished then (1, op1) else (wg_op_status op1, op1)))"

definition fileio_sync_op_free_wasm :: "fileio_sync_op option \<Rightarrow> unit list" where
  "fileio_sync_op_free_wasm op = (case op of None \<Rightarrow> [] | Some r \<Rightarrow> snd (wg_op_deinit (Some r)))"

section \<open>Files\<close>

definition fileio_write_wasm :: "'s fs_ops \<Rightarrow> fileio_state \<Rightarrow> string option \<Rightarrow> byte list \<Rightarrow> 's \<Rightarrow> (int \<times> 's) option" where
  "fileio_write_wasm fs g filename data s = fileio_write_common fs g filename data s"

definition fileio_read_wasm :: "'s fs_ops \<Rightarrow> fileio_state \<Rightarrow> bool \<Rightarrow> string option \<Rightarrow> 's \<Rightarrow> fileio_read_result" where
  "fileio_read_wasm fs g mem_ok filename s = fileio_read_common fs g mem_ok filename s"

definition fileio_exists_wasm :: "'s fs_ops \<Rightarrow> fileio_state \<Rightarrow> string option \<Rightarrow> 's \<Rightarrow> bool" where
  "fileio_exists_wasm fs g filename s = fileio_exists_common fs g filename s"

definition fileio_rmfile_wasm :: "'s fs_ops \<Rightarrow> fileio_state \<Rightarrow> string option \<Rightarrow> 's \<Rightarrow> int \<times> 's" where
  "fileio_rmfile_wasm fs g filename s = fileio_rmfile_common fs g filename s"

definition fileio_rmdir_wasm :: "'s fs_ops \<Rightarrow> fileio_state \<Rightarrow> string option \<Rightarrow> 's \<Rightarrow> int \<times> 's" where
  "fileio_rmdir_wasm fs g path s = fileio_rmdir_common fs g path s"

definition fileio_mkdir_wasm :: "'s fs_ops \<Rightarrow> fileio_state \<Rightarrow> string option \<Rightarrow> 's \<Rightarrow> (int \<times> 's) option" where
  "fileio_mkdir_wasm fs g path s = fileio_mkdir_common fs g path s"

section \<open>Runs\<close>

text \<open>
  What can happen, one after the other: the application begins a restore (\<open>True\<close>) or a flush under a
  name, polls, finishes or frees an operation, initialises the module or takes that back, or the oldest outstanding callback runs.
\<close>

datatype sync_action = SyncBegin nat bool | SyncPoll nat | SyncFinish nat | SyncFree nat | SyncInit string | SyncDeinit | SyncCallback bool

record 's sync_sys =
  ss_module :: idbfs
  ss_ops :: "nat \<Rightarrow> fileio_sync_op option"
  ss_fileio :: fileio_state
  ss_files :: 's

fun sync_act :: "'s fs_ops \<Rightarrow> sync_action \<Rightarrow> 's sync_sys \<Rightarrow> 's sync_sys" where
  "sync_act fs (SyncBegin i populate) s =
     (let (op, m) = (if populate then fileio_restore_async_wasm else fileio_flush_async_wasm) True (ss_module s) in
      s\<lparr>ss_module := m, ss_ops := (ss_ops s)(i := op)\<rparr>)"
| "sync_act fs (SyncPoll i) s = s\<lparr>ss_ops := (ss_ops s)(i := snd (fileio_sync_poll_wasm (ss_module s) (ss_ops s i)))\<rparr>"
| "sync_act fs (SyncFinish i) s = s\<lparr>ss_ops := (ss_ops s)(i := snd (fileio_sync_finish_wasm (ss_module s) (ss_ops s i)))\<rparr>"
| "sync_act fs (SyncFree i) s = s\<lparr>ss_ops := (ss_ops s)(i := None)\<rparr>"
| "sync_act fs (SyncInit mount_point) s = (case fileio_init_wasm fs (Some mount_point) (ss_module s) (ss_fileio s, ss_files s) of
     None \<Rightarrow> s
   | Some (r, m, g, x) \<Rightarrow> s\<lparr>ss_module := m, ss_fileio := g, ss_files := x\<rparr>)"
| "sync_act fs SyncDeinit s =
     (let (m, g) = fileio_deinit_wasm (ss_module s) (ss_fileio s) in s\<lparr>ss_module := m, ss_fileio := g\<rparr>)"
| "sync_act fs (SyncCallback err) s = (case idbfs_pending (ss_module s) of
     [] \<Rightarrow> s
   | (populate, set_ready) # rest \<Rightarrow> s\<lparr>ss_module := idbfs_callback err set_ready ((ss_module s)\<lparr>idbfs_pending := rest\<rparr>)\<rparr>)"

definition sync_run :: "'s fs_ops \<Rightarrow> sync_action list \<Rightarrow> 's sync_sys \<Rightarrow> 's sync_sys" where
  "sync_run fs acts s = fold (sync_act fs) acts s"

definition sync_start :: "'s \<Rightarrow> 's sync_sys" where
  "sync_start x = \<lparr>ss_module = idbfs_new, ss_ops = (\<lambda>_. None),
     ss_fileio = \<lparr>fileio_mount_point = [], fileio_mount_point_initialized = False\<rparr>, ss_files = x\<rparr>"

text \<open>What finishing an operation answers.\<close>

definition sync_answer :: "'s sync_sys \<Rightarrow> nat \<Rightarrow> int" where
  "sync_answer s i = fst (fileio_sync_finish_wasm (ss_module s) (ss_ops s i))"

end
