(* ===== verification/FileSyncSafety.thy ===== *)
theory FileSyncSafety
  imports FileIoWasm FileSafety
begin

text \<open>
  What the browser build guarantees of its synchronisation: an operation waits for the callback that is outstanding and
  then has that callback's result, which is its own when it runs alone; and where it does not: two at a time share one
  result, and a deinitialisation ends all waiting.
\<close>

lemmas sync_simps = Let_def sync_to_idbfs_def idbfs_callback_def fileio_sync_begin_internal_def
  fileio_restore_async_wasm_def fileio_flush_async_wasm_def fileio_sync_poll_wasm_def fileio_sync_finish_wasm_def
  wg_op_init_def wg_op_is_done_def wg_op_complete_def wg_op_status_def

section \<open>The invariant\<close>

text \<open>The flag says whether a callback is outstanding, and there is at most one, as long as no deinitialisation resets the flag.\<close>

definition module_ok :: "idbfs \<Rightarrow> bool" where
  "module_ok m \<longleftrightarrow> (idbfs_syncing m \<longleftrightarrow> idbfs_pending m \<noteq> []) \<and> length (idbfs_pending m) \<le> 1"

lemma finish_op: "snd (fileio_sync_finish_wasm m op) = snd (fileio_sync_poll_wasm m op)"
  by (auto simp: fileio_sync_finish_wasm_def fileio_sync_poll_wasm_def Let_def split: option.split prod.split)

lemma init_module:
  "fileio_init_wasm fs p m gs = Some (r, m1, g1, x1) \<Longrightarrow>
   idbfs_syncing m1 = idbfs_syncing m \<and> idbfs_pending m1 = idbfs_pending m \<and> idbfs_last_sync_ok m1 = idbfs_last_sync_ok m"
  by (auto simp: fileio_init_wasm_def Let_def split: option.splits prod.splits if_splits)

lemma begin_module: "module_ok m \<Longrightarrow> module_ok (snd (fileio_sync_begin_internal mem_ok populate m))"
  by (auto simp: sync_simps module_ok_def)

lemma sync_act_ok: "a \<noteq> SyncDeinit \<Longrightarrow> module_ok (ss_module s) \<Longrightarrow> module_ok (ss_module (sync_act fs a s))"
proof (cases a)
  case (SyncBegin i populate)
  assume "module_ok (ss_module s)"
  then show ?thesis using begin_module [of "ss_module s" True populate] unfolding SyncBegin
    by (auto simp: Let_def fileio_restore_async_wasm_def fileio_flush_async_wasm_def split: prod.split)
next
  case (SyncCallback err)
  assume "module_ok (ss_module s)"
  then show ?thesis unfolding SyncCallback
    by (auto simp: module_ok_def idbfs_callback_def Let_def split: list.split prod.split)
next
  case (SyncInit p)
  assume "module_ok (ss_module s)"
  then show ?thesis unfolding SyncInit
    by (auto simp: module_ok_def dest: init_module split: option.split prod.split)
qed simp_all

lemma sync_run_ok: "SyncDeinit \<notin> set acts \<Longrightarrow> module_ok (ss_module s) \<Longrightarrow> module_ok (ss_module (sync_run fs acts s))"
  unfolding sync_run_def by (induction acts arbitrary: s) (auto simp: sync_act_ok)

lemma sync_start_ok: "module_ok (ss_module (sync_start x))"
  by (simp add: module_ok_def sync_start_def idbfs_new_def)

lemma sync_run_append: "sync_run fs (as @ bs) s = sync_run fs bs (sync_run fs as s)"
  by (simp add: sync_run_def)

lemma sync_run_Cons: "sync_run fs (a # as) s = sync_run fs as (sync_act fs a s)"
  by (simp add: sync_run_def)

section \<open>An operation and its callback\<close>

text \<open>Actions that leave operation \<open>i\<close> in place; that also keep what its answer depends on; that end no synchronisation.\<close>

fun keeps_op :: "nat \<Rightarrow> sync_action \<Rightarrow> bool" where
  "keeps_op i (SyncBegin j populate) = (j \<noteq> i)"
| "keeps_op i (SyncFree j) = (j \<noteq> i)"
| "keeps_op i _ = True"

fun begins_none :: "sync_action \<Rightarrow> bool" where
  "begins_none (SyncBegin j populate) = False"
| "begins_none SyncDeinit = False"
| "begins_none _ = True"

fun ends_none :: "sync_action \<Rightarrow> bool" where
  "ends_none (SyncCallback err) = False"
| "ends_none SyncDeinit = False"
| "ends_none _ = True"

definition op_in :: "wg_op_state \<Rightarrow> fileio_sync_op option \<Rightarrow> bool" where
  "op_in st op \<longleftrightarrow> (\<exists>r. op = Some r \<and> op_state r = st)"

text \<open>What an operation that is done answers stays.\<close>

lemma done_act:
  assumes "keeps_op i a" and "op_in WG_OP_DONE (ss_ops s i)"
  shows "ss_ops (sync_act fs a s) i = ss_ops s i"
  using assms by (cases a) (auto simp: op_in_def finish_op fileio_sync_poll_wasm_def wg_op_is_done_def Let_def split: option.split prod.split list.split)

lemma done_run:
  assumes "list_all (keeps_op i) acts" and "op_in WG_OP_DONE (ss_ops s i)"
  shows "ss_ops (sync_run fs acts s) i = ss_ops s i"
  using assms
proof (induction acts arbitrary: s)
  case (Cons a acts)
  then show ?case using done_act [of i a s fs] by (simp add: sync_run_Cons)
qed (simp add: sync_run_def)

lemma done_answer: "op_in WG_OP_DONE (ss_ops s i) \<Longrightarrow> sync_answer s i = op_status_code (the (ss_ops s i))"
  by (auto simp: op_in_def sync_answer_def sync_simps)

text \<open>While a callback is outstanding, an operation that is pending stays so.\<close>

lemma waiting_act:
  assumes "keeps_op i a" "ends_none a" and "op_in WG_OP_PENDING (ss_ops s i)" and "idbfs_syncing (ss_module s)"
  shows "op_in WG_OP_PENDING (ss_ops (sync_act fs a s) i) \<and> idbfs_syncing (ss_module (sync_act fs a s)) \<and>
    idbfs_pending (ss_module (sync_act fs a s)) = idbfs_pending (ss_module s)"
proof (cases a)
  case (SyncInit p)
  then show ?thesis using assms by (auto dest: init_module split: option.split prod.split)
qed (use assms in \<open>auto simp: op_in_def finish_op sync_simps\<close>)

lemma waiting_run:
  assumes "list_all (keeps_op i) acts" "list_all ends_none acts" and "op_in WG_OP_PENDING (ss_ops s i)" and "idbfs_syncing (ss_module s)"
  shows "op_in WG_OP_PENDING (ss_ops (sync_run fs acts s) i) \<and> idbfs_syncing (ss_module (sync_run fs acts s)) \<and>
    idbfs_pending (ss_module (sync_run fs acts s)) = idbfs_pending (ss_module s)"
  using assms
proof (induction acts arbitrary: s)
  case (Cons a acts)
  then show ?case using waiting_act [of i a s fs] by (simp add: sync_run_Cons)
qed (simp add: sync_run_def)

lemma waiting_answer: "op_in WG_OP_PENDING (ss_ops s i) \<Longrightarrow>
    sync_answer s i = (if idbfs_syncing (ss_module s) then 1 else if idbfs_last_sync_ok (ss_module s) then 0 else -1)"
  by (auto simp: op_in_def sync_answer_def sync_simps)

text \<open>With nothing outstanding and nothing begun, it has the result of the last callback.\<close>

definition settled :: "bool \<Rightarrow> nat \<Rightarrow> 's sync_sys \<Rightarrow> bool" where
  "settled err i s \<longleftrightarrow> \<not> idbfs_syncing (ss_module s) \<and> idbfs_pending (ss_module s) = [] \<and> idbfs_last_sync_ok (ss_module s) = (\<not> err) \<and>
     (op_in WG_OP_PENDING (ss_ops s i) \<or> (op_in WG_OP_DONE (ss_ops s i) \<and> op_status_code (the (ss_ops s i)) = (if err then -1 else 0)))"

lemma settled_poll:
  assumes "settled err i s"
  shows "op_in WG_OP_DONE (snd (fileio_sync_poll_wasm (ss_module s) (ss_ops s i))) \<and>
    op_status_code (the (snd (fileio_sync_poll_wasm (ss_module s) (ss_ops s i)))) = (if err then -1 else 0)"
  using assms by (auto simp: settled_def op_in_def sync_simps)

lemma settled_act:
  assumes "keeps_op i a" "begins_none a" and "settled err i s"
  shows "settled err i (sync_act fs a s)"
proof (cases a)
  case (SyncInit p)
  then show ?thesis using assms by (auto simp: settled_def dest: init_module split: option.split prod.split)
next
  case (SyncPoll j)
  then show ?thesis using assms settled_poll [OF assms(3)] by (cases "j = i") (auto simp: settled_def)
next
  case (SyncFinish j)
  then show ?thesis using assms settled_poll [OF assms(3)] by (cases "j = i") (auto simp: settled_def finish_op)
qed (use assms in \<open>auto simp: settled_def\<close>)

lemma settled_run:
  assumes "list_all (keeps_op i) acts" "list_all begins_none acts" and "settled err i s"
  shows "settled err i (sync_run fs acts s)"
  using assms
proof (induction acts arbitrary: s)
  case (Cons a acts)
  then show ?case using settled_act [of i a err s fs] by (simp add: sync_run_Cons)
qed (simp add: sync_run_def)

lemma settled_answer: "settled err i s \<Longrightarrow> sync_answer s i = (if err then -1 else 0)"
  using waiting_answer [of s i] done_answer [of s i] by (auto simp: settled_def)

text \<open>
  C24. No operation waits for ever, and its answer is fixed: in every interleaving of the application's calls and the
  callbacks, with no deinitialisation so far, an operation that is pending while a callback is outstanding answers 1 until that callback
  runs; from then on, until another is begun or the module deinitialised, it answers 0 or -1 as the
  callback was given no error or one. Once it has been asked, that answer stays, whatever else is
  begun, called back or deinitialised, until it is freed or its name is begun again. The callback need not be the
  operation's own: one that is begun while another runs has the result of that one, although it started nothing.
\<close>

theorem fileio_sync_completes:
  assumes "s = sync_run fs acts (sync_start x)" and "SyncDeinit \<notin> set acts"
    and "ss_ops s i = Some r" and "op_state r = WG_OP_PENDING" and "idbfs_syncing (ss_module s)"
    and "list_all (keeps_op i) (before @ after @ later)" and "list_all ends_none before" and "list_all begins_none after"
  shows "sync_answer (sync_run fs before s) i = 1 \<and>
    sync_answer (sync_run fs (before @ SyncCallback err # after) s) i = (if err then -1 else 0) \<and>
    sync_answer (sync_run fs (before @ SyncCallback err # after @ SyncPoll i # later) s) i = (if err then -1 else 0)"
proof -
  let ?s1 = "sync_run fs before s" and ?s3 = "sync_run fs (before @ SyncCallback err # after) s"
  have k: "list_all (keeps_op i) before" "list_all (keeps_op i) after" "list_all (keeps_op i) later" using assms(6) by simp_all
  have "op_in WG_OP_PENDING (ss_ops s i)" using assms(3,4) by (simp add: op_in_def)
  note w = waiting_run [OF k(1) assms(7) this assms(5), of fs]
  have "module_ok (ss_module s)" using sync_run_ok [OF assms(2) sync_start_ok] assms(1) by simp
  then have "length (idbfs_pending (ss_module s)) = 1" using assms(5) by (cases "idbfs_pending (ss_module s)") (auto simp: module_ok_def)
  then obtain c where "idbfs_pending (ss_module ?s1) = [c]" using w by (auto simp: length_Suc_conv)
  then have "settled err i (sync_act fs (SyncCallback err) ?s1)"
    using w by (cases c) (simp add: settled_def idbfs_callback_def Let_def)
  from settled_run [OF k(2) assms(8) this] have s3: "settled err i ?s3" unfolding sync_run_append sync_run_Cons .
  let ?s4 = "sync_act fs (SyncPoll i) ?s3"
  have d: "op_in WG_OP_DONE (ss_ops ?s4 i)" "op_status_code (the (ss_ops ?s4 i)) = (if err then -1 else 0)"
    using settled_poll [OF s3] by simp_all
  then have "op_in WG_OP_DONE (ss_ops (sync_run fs later ?s4) i)" using done_run [OF k(3) d(1), of fs] by simp
  then have "sync_answer (sync_run fs later ?s4) i = (if err then -1 else 0)"
    using done_answer done_run [OF k(3) d(1), of fs] d(2) by metis
  moreover have "sync_run fs (before @ SyncCallback err # after @ SyncPoll i # later) s = sync_run fs later ?s4"
    unfolding sync_run_append sync_run_Cons ..
  ultimately show ?thesis using waiting_answer [of ?s1 i] w settled_answer [OF s3] by simp
qed

theorem fileio_sync_completes_witness:
  "sync_answer (sync_run mem_fs ([SyncPoll 2, SyncInit ''data''] @ SyncCallback True # [SyncFree 1] @ SyncPoll 2 #
       [SyncBegin 1 False, SyncCallback False, SyncDeinit])
     (sync_run mem_fs [SyncBegin 1 True, SyncPoll 1, SyncBegin 2 False] (sync_start (mem_disk [])))) 2 = -1"
proof -
  let ?s = "sync_run mem_fs [SyncBegin 1 True, SyncPoll 1, SyncBegin 2 False] (sync_start (mem_disk []))"
  have op: "ss_ops ?s 2 = Some \<lparr>op_kind = WG_OP_KIND_FILEIO_FLUSH, op_state = WG_OP_PENDING, op_status_code = 0, op_impl = None, op_destroy = False\<rparr>"
    and sy: "idbfs_syncing (ss_module ?s)" by code_simp+
  from fileio_sync_completes [OF refl _ op _ sy, of "[SyncPoll 2, SyncInit ''data'']" "[SyncFree 1]"
      "[SyncBegin 1 False, SyncCallback False, SyncDeinit]" True]
  show ?thesis by simp
qed

section \<open>One at a time\<close>

text \<open>Asking about operations, which is all that happens besides.\<close>

fun asks :: "sync_action \<Rightarrow> bool" where
  "asks (SyncPoll j) = True"
| "asks (SyncFinish j) = True"
| "asks _ = False"

text \<open>An operation that is pending, or, when nothing is outstanding, has the module's last result.\<close>

definition awaits :: "idbfs \<Rightarrow> fileio_sync_op option \<Rightarrow> bool" where
  "awaits m op \<longleftrightarrow> (\<exists>r. op = Some r \<and> (op_state r = WG_OP_PENDING \<or>
     (\<not> idbfs_syncing m \<and> op_status_code r = (if idbfs_last_sync_ok m then 0 else -1))))"

lemma asks_act: "asks a \<Longrightarrow> awaits (ss_module s) (ss_ops s i) \<Longrightarrow>
    ss_module (sync_act fs a s) = ss_module s \<and> awaits (ss_module s) (ss_ops (sync_act fs a s) i)"
  by (cases a) (auto simp: finish_op awaits_def sync_simps)

lemma asks_run: "list_all asks acts \<Longrightarrow> awaits (ss_module s) (ss_ops s i) \<Longrightarrow>
    ss_module (sync_run fs acts s) = ss_module s \<and> awaits (ss_module s) (ss_ops (sync_run fs acts s) i)"
proof (induction acts arbitrary: s)
  case (Cons a acts)
  have "ss_module (sync_act fs a s) = ss_module s \<and> awaits (ss_module s) (ss_ops (sync_act fs a s) i)"
    using asks_act [of a s i fs] Cons.prems by simp
  then show ?case using Cons.IH [of "sync_act fs a s"] Cons.prems(1) by (simp add: sync_run_def)
qed (simp add: sync_run_def)

lemma awaits_answer: "awaits (ss_module s) (ss_ops s i) \<Longrightarrow>
    sync_answer s i = (if idbfs_syncing (ss_module s) then 1 else if idbfs_last_sync_ok (ss_module s) then 0 else -1)"
  by (cases "op_state (the (ss_ops s i))") (auto simp: sync_answer_def awaits_def sync_simps)

text \<open>
  An operation that runs alone reports what happened: begun when nothing is outstanding, it is pending
  until its callback runs, however often it is asked, and then answers 0 or -1 as the callback
  was given no error or one. It makes one \<^verbatim>\<open>FS.syncfs\<close>, in its own direction, and a restore sets the ready
  flag to whether it succeeded, which a flush leaves alone.
\<close>

theorem fileio_sync_alone:
  assumes "s = sync_run fs acts (sync_start x)" and "idbfs_pending (ss_module s) = []"
    and "list_all asks before" and "list_all asks after" and "SyncDeinit \<notin> set acts"
  shows "sync_answer (sync_run fs (SyncBegin i populate # before) s) i = 1 \<and>
    (let t = sync_run fs (SyncBegin i populate # before @ SyncCallback err # after) s in
     sync_answer t i = (if err then -1 else 0) \<and>
     idbfs_calls (ss_module t) = idbfs_calls (ss_module s) @ [FsSync populate] \<and>
     idbfs_ready (ss_module t) = (if populate then \<not> err else idbfs_ready (ss_module s)))"
proof -
  define s1 where "s1 = sync_act fs (SyncBegin i populate) s"
  define s2 where "s2 = sync_run fs before s1"
  define s3 where "s3 = sync_act fs (SyncCallback err) s2"
  have "module_ok (ss_module s)" using sync_run_ok [OF _ sync_start_ok] assms(1,5) by simp
  then have idle: "\<not> idbfs_syncing (ss_module s)" using assms(2) by (simp add: module_ok_def)
  have s1: "idbfs_syncing (ss_module s1)" "idbfs_pending (ss_module s1) = [(populate, populate)]"
      "idbfs_calls (ss_module s1) = idbfs_calls (ss_module s) @ [FsSync populate]"
      "idbfs_ready (ss_module s1) = idbfs_ready (ss_module s)" "awaits (ss_module s1) (ss_ops s1 i)"
    using idle assms(2) by (simp_all add: s1_def sync_simps awaits_def)
  have s2: "ss_module s2 = ss_module s1" "awaits (ss_module s1) (ss_ops s2 i)"
    using asks_run [OF assms(3) s1(5)] by (simp_all add: s2_def)
  then have pending: "op_state (the (ss_ops s2 i)) = WG_OP_PENDING" "ss_ops s2 i \<noteq> None"
    using s1(1) by (auto simp: awaits_def)
  have m3: "ss_module s3 = idbfs_callback err populate ((ss_module s1)\<lparr>idbfs_pending := []\<rparr>)" "ss_ops s3 = ss_ops s2"
    using s1(2) s2(1) by (simp_all add: s3_def)
  have s3: "awaits (ss_module s3) (ss_ops s3 i)"
    using pending by (auto simp: m3 awaits_def)
  have s4: "ss_module (sync_run fs after s3) = ss_module s3" "awaits (ss_module s3) (ss_ops (sync_run fs after s3) i)"
    using asks_run [OF assms(4) s3] by simp_all
  have t: "sync_run fs (SyncBegin i populate # before @ SyncCallback err # after) s = sync_run fs after s3"
    "sync_run fs (SyncBegin i populate # before) s = s2" by (simp_all add: sync_run_def s1_def s2_def s3_def)
  have "sync_answer s2 i = 1" using awaits_answer [of s2 i] s2 s1(1) by simp
  moreover have "sync_answer (sync_run fs after s3) i = (if err then -1 else 0)"
    using awaits_answer [of "sync_run fs after s3" i] s4 by (simp add: m3 idbfs_callback_def Let_def)
  ultimately show ?thesis unfolding t Let_def s4(1) m3(1) using s1(3,4) by (simp add: idbfs_callback_def Let_def)
qed

theorem fileio_sync_alone_witness:
  "sync_answer (sync_run mem_fs (SyncBegin 2 True # [SyncPoll 2, SyncFinish 1] @ SyncCallback True # [SyncPoll 2])
     (sync_run mem_fs [SyncBegin 1 False, SyncCallback False] (sync_start (mem_disk [])))) 2 = -1"
proof -
  have p: "idbfs_pending (ss_module (sync_run mem_fs [SyncBegin 1 False, SyncCallback False] (sync_start (mem_disk [])))) = []" by code_simp
  from fileio_sync_alone [OF refl p, of "[SyncPoll 2, SyncFinish 1]" "[SyncPoll 2]" 2 True True] show ?thesis by (simp add: Let_def)
qed

section \<open>Two at a time\<close>

text \<open>
  Operations that overlap share one result. A flush begun while a restore is running reports success
  when the restore succeeds, although nothing was flushed. A flush that failed reports success when
  another one was begun before it was asked about and succeeded; and one that succeeded reports a failure
  when the other one failed. After a deinitialisation a restore that is still running counts as done, with success.
\<close>

theorem fileio_sync_result_is_shared:
  "(let s = sync_run mem_fs [SyncBegin 1 True, SyncBegin 2 False, SyncCallback False] (sync_start (mem_disk [])) in
      sync_answer s 2 = 0 \<and> idbfs_calls (ss_module s) = [FsSync True] \<and> idbfs_pending (ss_module s) = []) \<and>
   sync_answer (sync_run mem_fs [SyncBegin 1 False, SyncCallback True] (sync_start (mem_disk []))) 1 = -1 \<and>
   sync_answer (sync_run mem_fs [SyncBegin 1 False, SyncCallback True, SyncBegin 2 False, SyncCallback False] (sync_start (mem_disk []))) 1 = 0 \<and>
   sync_answer (sync_run mem_fs [SyncBegin 1 False, SyncCallback False, SyncBegin 2 False, SyncCallback True] (sync_start (mem_disk []))) 1 = -1 \<and>
   sync_answer (sync_run mem_fs [SyncInit ''data'', SyncBegin 1 True] (sync_start (mem_disk []))) 1 = 1 \<and>
   (let s = sync_run mem_fs [SyncInit ''data'', SyncBegin 1 True, SyncDeinit] (sync_start (mem_disk [])) in
      sync_answer s 1 = 0 \<and> idbfs_pending (ss_module s) = [(True, True)])"
  by code_simp

end
