(* ===== verification/FetchUrl.thy ===== *)
theory FetchUrl
  imports CString WgOp "HOL-Library.Monad_Syntax"
begin

text \<open>
  Fetching URLs, \<^verbatim>\<open>src/fetch_url/fetch_url.c\<close> and \<^verbatim>\<open>src/fetch_url/fetch_url_common.c\<close>. Every block the code
  allocates is a cell of one heap: bodies, stored results, operations, the handles of libcurl and, in the browser build,
  contexts; a structure on the caller's stack is a value. \<open>None\<close> as the result of an operation is an
  access to a block that is not allocated, a double free, or a call the C standard leaves undefined.

  libcurl is an argument: for a URL and a timeout, whether a handle can be made, what the server
  delivers and in which pieces, whether the transfer succeeds, and the response code. A transfer hands
  the pieces to the callback in turn, as bytes, and fails at the first that is not taken whole. A piece may be
  empty: libcurl documents a call with no bytes for an empty file.
\<close>

section \<open>Data\<close>

definition FETCH_URL_MAX_PATH_LENGTH :: nat where
  "FETCH_URL_MAX_PATH_LENGTH = 256"

record fetch_url_result =
  fu_data :: ptr
  fu_size :: size_t
  fu_code :: c_int
  fu_url :: string

record fetch_url_op =
  fo_op :: "addr wg_op"
  fo_result :: fetch_url_result

datatype fetch_cell = FBytes "byte list" | FResult fetch_url_result | FOp fetch_url_op | FContext ptr | FCurl

type_synonym fetch_heap = "fetch_cell heap"

definition zero_result :: fetch_url_result where
  "zero_result = \<lparr>fu_data = None, fu_size = 0, fu_code = 0, fu_url = []\<rparr>"

definition zero_op :: fetch_url_op where
  "zero_op = \<lparr>fo_op = \<lparr>op_kind = WG_OP_KIND_NONE, op_state = WG_OP_PENDING, op_status_code = 0, op_impl = None, op_destroy = False\<rparr>,
     fo_result = zero_result\<rparr>"

section \<open>Memory\<close>

definition c_free :: "fetch_heap \<Rightarrow> ptr \<Rightarrow> fetch_heap option" where
  "c_free h p = (case p of None \<Rightarrow> Some h | Some a \<Rightarrow> h_free h a)"

text \<open>
  The bytes that \<open>realloc\<close> adds are indeterminate, zero here; the code writes all of them. Shrinking a
  block to nothing is undefined.
\<close>

definition c_realloc :: "fetch_heap \<Rightarrow> ptr \<Rightarrow> size_t \<Rightarrow> (ptr \<times> fetch_heap) option" where
  "c_realloc h p n = (case p of
     None \<Rightarrow> Some (h_alloc h (FBytes (replicate (unat n) 0)))
   | Some a \<Rightarrow> (case hp_mem h a of
       Some (FBytes old) \<Rightarrow>
         if n = 0 then None
         else (case h_alloc h (FBytes (take (unat n) (old @ replicate (unat n) 0))) of
             (None, h1) \<Rightarrow> Some (None, h1)
           | (Some b, h1) \<Rightarrow> do { h2 \<leftarrow> h_free h1 a; Some (Some b, h2) })
     | _ \<Rightarrow> None))"

definition buf_write :: "fetch_heap \<Rightarrow> addr \<Rightarrow> nat \<Rightarrow> byte list \<Rightarrow> fetch_heap option" where
  "buf_write h a i d = (case hp_mem h a of
     Some (FBytes bs) \<Rightarrow>
       if i + length d \<le> length bs then Some (h\<lparr>hp_mem := (hp_mem h)(a \<mapsto> FBytes (take i bs @ d @ drop (i + length d) bs))\<rparr>) else None
   | _ \<Rightarrow> None)"

section \<open>The common part\<close>

definition fetch_url_result_reset_common :: "fetch_url_result \<Rightarrow> fetch_heap \<Rightarrow> (fetch_url_result \<times> fetch_heap) option" where
  "fetch_url_result_reset_common result h = do {
     h1 \<leftarrow> c_free h (fu_data result);
     Some (\<lparr>fu_data = None, fu_size = 0, fu_code = 0, fu_url = []\<rparr>, h1)
   }"

text \<open>The slashes at the end of a host are left out.\<close>

fun host_len_loop :: "string \<Rightarrow> nat \<Rightarrow> nat" where
  "host_len_loop host_url 0 = 0"
| "host_len_loop host_url (Suc n) = (if c_at host_url n = CHR ''/'' then host_len_loop host_url n else Suc n)"

text \<open>The return code and what the buffer holds then.\<close>

definition fetch_url_join_path_common :: "nat \<Rightarrow> string option \<Rightarrow> string option \<Rightarrow> int \<times> string" where
  "fetch_url_join_path_common buffer_size host_url relative_path =
     (if buffer_size = 0 then (-1, [])
      else
        let host = (case host_url of None \<Rightarrow> [] | Some s \<Rightarrow> s);
            host_len = host_len_loop host (length host);
            written = c_precision host_len host @ ''/'' @ (case relative_path of None \<Rightarrow> [] | Some s \<Rightarrow> s) in
        (if length written \<ge> 2 ^ 31 \<or> length written \<ge> buffer_size then -1 else 0, take (buffer_size - 1) written))"

section \<open>One transfer\<close>

record fetch_context =
  fc_data :: ptr
  fc_size :: size_t

abbreviation SIZE_MAX :: size_t where "SIZE_MAX \<equiv> - 1"

definition write_callback ::
  "byte list \<Rightarrow> size_t \<Rightarrow> size_t \<Rightarrow> fetch_context \<Rightarrow> fetch_heap \<Rightarrow> (size_t \<times> fetch_context \<times> fetch_heap) option" where
  "write_callback contents item_size nmemb context h =
     (let total_size = item_size * nmemb in
      if item_size \<noteq> 0 \<and> nmemb > SIZE_MAX div item_size then Some (0, context, h)
      else if fc_size context > SIZE_MAX - total_size then Some (0, context, h)
      else do {
        (p, h1) \<leftarrow> c_realloc h (fc_data context) (fc_size context + total_size);
        (case p of
           None \<Rightarrow> Some (0, context, h1)
         | Some b \<Rightarrow> do {
             h2 \<leftarrow> buf_write h1 b (unat (fc_size context)) contents;
             Some (total_size, \<lparr>fc_data = Some b, fc_size = fc_size context + total_size\<rparr>, h2)
           })
      })"

record curl_transfer =
  ct_init :: bool
  ct_chunks :: "byte list list"
  ct_ok :: bool
  ct_http_code :: int

type_synonym curl_lib = "string option \<Rightarrow> int \<Rightarrow> curl_transfer"

primrec curl_deliver :: "byte list list \<Rightarrow> fetch_context \<Rightarrow> fetch_heap \<Rightarrow> (bool \<times> fetch_context \<times> fetch_heap) option" where
  "curl_deliver [] context h = Some (True, context, h)"
| "curl_deliver (c # cs) context h = do {
     (n, ctx1, h1) \<leftarrow> write_callback c 1 (word_of_nat (length c)) context h;
     (if n \<noteq> word_of_nat (length c) then Some (False, ctx1, h1) else curl_deliver cs ctx1 h1)
   }"

definition curl_easy_perform :: "curl_transfer \<Rightarrow> fetch_context \<Rightarrow> fetch_heap \<Rightarrow> (bool \<times> fetch_context \<times> fetch_heap) option" where
  "curl_easy_perform t context h = do {
     (taken, ctx1, h1) \<leftarrow> curl_deliver (ct_chunks t) context h;
     Some (taken \<and> ct_ok t, ctx1, h1)
   }"

text \<open>The handle is a block of the library.\<close>

definition curl_easy_init :: "curl_transfer \<Rightarrow> fetch_heap \<Rightarrow> ptr \<times> fetch_heap" where
  "curl_easy_init t h =
     (if ct_init t then (Some (hp_brk h), h\<lparr>hp_mem := (hp_mem h)(hp_brk h \<mapsto> FCurl), hp_brk := Suc (hp_brk h)\<rparr>) else (None, h))"

definition curl_easy_cleanup :: "fetch_heap \<Rightarrow> addr \<Rightarrow> fetch_heap option" where
  "curl_easy_cleanup h a = (case hp_mem h a of Some FCurl \<Rightarrow> h_free h a | _ \<Rightarrow> None)"

text \<open>What happens with the context when the transfer is over and the response was 200.\<close>

definition fetch_take_body :: "fetch_context \<Rightarrow> fetch_url_result \<Rightarrow> fetch_heap \<Rightarrow> (fetch_url_result \<times> fetch_heap) option" where
  "fetch_take_body context result h =
     (if fc_size context > SIZE_MAX - 1 then do {
        h1 \<leftarrow> c_free h (fc_data context);
        Some (result\<lparr>fu_size := 0, fu_code := -1\<rparr>, h1)
      }
      else do {
        (p, h1) \<leftarrow> c_realloc h (fc_data context) (fc_size context + 1);
        (case p of
           None \<Rightarrow> do {
             h2 \<leftarrow> c_free h1 (fc_data context);
             Some (result\<lparr>fu_size := 0, fu_code := -1\<rparr>, h2)
           }
         | Some b \<Rightarrow> do {
             h2 \<leftarrow> buf_write h1 b (unat (fc_size context)) [0];
             Some (result\<lparr>fu_data := Some b, fu_size := fc_size context\<rparr>, h2)
           })
      })"

text \<open>A transfer that fails is logged with the URL as a string, which \<open>NULL\<close> is not.\<close>

definition fetch_url_sync ::
  "curl_lib \<Rightarrow> string option \<Rightarrow> int \<Rightarrow> fetch_url_result option \<Rightarrow> fetch_heap \<Rightarrow>
     (c_int \<times> fetch_url_result option \<times> fetch_heap) option" where
  "fetch_url_sync curl url timeout_ms result h = (case result of
     None \<Rightarrow> Some (-1, None, h)
   | Some r \<Rightarrow> do {
       (r1, h1) \<leftarrow> fetch_url_result_reset_common r h;
       let r2 = r1\<lparr>fu_url := take (FETCH_URL_MAX_PATH_LENGTH - 1) (case url of None \<Rightarrow> [] | Some s \<Rightarrow> s)\<rparr>;
       let t = curl url timeout_ms;
       (case curl_easy_init t h1 of
          (None, h2) \<Rightarrow> Some (-1, Some (r2\<lparr>fu_code := -1\<rparr>), h2)
        | (Some handle, h2) \<Rightarrow> do {
            (ok, context, h3) \<leftarrow> curl_easy_perform t \<lparr>fc_data = None, fc_size = 0\<rparr> h2;
            (r4, h4) \<leftarrow>
              (if ok then
                 let r3 = r2\<lparr>fu_code := sint (word_of_int (ct_http_code t) :: 32 word)\<rparr> in
                 (if ct_http_code t = 200 then fetch_take_body context r3 h3
                  else do {
                    h4 \<leftarrow> c_free h3 (fc_data context);
                    Some (r3, h4)
                  })
               else do {
                 logged \<leftarrow> url;
                 h4 \<leftarrow> c_free h3 (fc_data context);
                 Some (r2\<lparr>fu_data := None, fu_size := 0, fu_code := 500\<rparr>, h4)
               });
            h5 \<leftarrow> curl_easy_cleanup h4 handle;
            Some (fu_code r4, Some r4, h5)
          })
     })"

definition fetch_url_with_path_sync_common ::
  "curl_lib \<Rightarrow> string option \<Rightarrow> string option \<Rightarrow> int \<Rightarrow> fetch_url_result option \<Rightarrow> fetch_heap \<Rightarrow>
     (c_int \<times> fetch_url_result option \<times> fetch_heap) option" where
  "fetch_url_with_path_sync_common curl host_url relative_path timeout_ms result h =
     (let (r, full_url) = fetch_url_join_path_common FETCH_URL_MAX_PATH_LENGTH host_url relative_path in
      if r \<noteq> 0 then
        (case result of
           None \<Rightarrow> Some (-1, None, h)
         | Some res \<Rightarrow> do {
             (res1, h1) \<leftarrow> fetch_url_result_reset_common res h;
             Some (-1, Some (res1\<lparr>fu_code := -1\<rparr>), h1)
           })
      else fetch_url_sync curl (Some full_url) timeout_ms result h)"

definition fetch_url_with_path_sync ::
  "curl_lib \<Rightarrow> string option \<Rightarrow> string option \<Rightarrow> int \<Rightarrow> fetch_url_result option \<Rightarrow> fetch_heap \<Rightarrow>
     (c_int \<times> fetch_url_result option \<times> fetch_heap) option" where
  "fetch_url_with_path_sync curl host_url relative_path timeout_ms result h =
     fetch_url_with_path_sync_common curl host_url relative_path timeout_ms result h"

text \<open>A request for the headers only: the response code of a transfer without a body.\<close>

definition fetch_url_head :: "curl_lib \<Rightarrow> string option \<Rightarrow> int \<Rightarrow> fetch_heap \<Rightarrow> (c_int \<times> fetch_heap) option" where
  "fetch_url_head curl url timeout_ms h =
     (if url = None \<or> url = Some [] then Some (-1, h)
      else
        let t = curl url timeout_ms in
        (case curl_easy_init t h of
           (None, h1) \<Rightarrow> Some (-1, h1)
         | (Some handle, h1) \<Rightarrow> do {
             let http_code = (if ct_ok t then ct_http_code t else 0);
             h2 \<leftarrow> curl_easy_cleanup h1 handle;
             Some (if ct_ok t \<and> http_code = 200 then 0 else -1, h2)
           }))"

text \<open>
  The time such a request takes, in milliseconds, \<open>-1\<close> when it fails. Floating-point arithmetic is an argument:
  conversions and operations of \<^verbatim>\<open>double\<close>, and \<^verbatim>\<open>float\<close> as its result. \<open>start\<close> and \<open>stop\<close> are the
  clock before and after, in seconds and nanoseconds.
\<close>

record ('d, 'f) float_ops =
  fl_of_int :: "int \<Rightarrow> 'd"
  fl_add :: "'d \<Rightarrow> 'd \<Rightarrow> 'd"
  fl_mul :: "'d \<Rightarrow> 'd \<Rightarrow> 'd"
  fl_div :: "'d \<Rightarrow> 'd \<Rightarrow> 'd"
  fl_ge :: "'d \<Rightarrow> 'd \<Rightarrow> bool"
  fl_float :: "'d \<Rightarrow> 'f"

definition fetch_url_ping ::
  "('d, 'f) float_ops \<Rightarrow> curl_lib \<Rightarrow> string option \<Rightarrow> int \<Rightarrow> int \<times> int \<Rightarrow> int \<times> int \<Rightarrow> fetch_heap \<Rightarrow>
     ('f \<times> fetch_heap) option" where
  "fetch_url_ping F curl url timeout_ms start stop h =
     (if url = None \<or> url = Some [] then Some (fl_float F (fl_of_int F (-1)), h)
      else
        let t = curl url timeout_ms in
        (case curl_easy_init t h of
           (None, h1) \<Rightarrow> Some (fl_float F (fl_of_int F (-1)), h1)
         | (Some handle, h1) \<Rightarrow> do {
             h2 \<leftarrow> curl_easy_cleanup h1 handle;
             (if \<not> ct_ok t then Some (fl_float F (fl_of_int F (-1)), h2)
              else
                let elapsed_ms = fl_add F (fl_mul F (fl_of_int F (fst stop - fst start)) (fl_of_int F 1000))
                      (fl_div F (fl_of_int F (snd stop - snd start)) (fl_of_int F 1000000)) in
                Some (fl_float F (if fl_ge F elapsed_ms (fl_of_int F 0) then elapsed_ms else fl_of_int F 0), h2))
           }))"

section \<open>Operations\<close>

definition op_at :: "fetch_heap \<Rightarrow> addr \<Rightarrow> fetch_url_op option" where
  "op_at h a = (case hp_mem h a of Some (FOp r) \<Rightarrow> Some r | _ \<Rightarrow> None)"

definition result_at :: "fetch_heap \<Rightarrow> addr \<Rightarrow> fetch_url_result option" where
  "result_at h a = (case hp_mem h a of Some (FResult r) \<Rightarrow> Some r | _ \<Rightarrow> None)"

definition fetch_url_op_destroy_impl :: "addr \<Rightarrow> fetch_heap \<Rightarrow> fetch_heap option" where
  "fetch_url_op_destroy_impl impl h = do {
     r \<leftarrow> result_at h impl;
     (_, h1) \<leftarrow> fetch_url_result_reset_common r h;
     h_free h1 impl
   }"

definition fetch_url_async :: "curl_lib \<Rightarrow> string option \<Rightarrow> int \<Rightarrow> fetch_heap \<Rightarrow> (ptr \<times> fetch_heap) option" where
  "fetch_url_async curl url timeout_ms h = (case h_alloc h (FOp zero_op) of
     (None, h1) \<Rightarrow> Some (None, h1)
   | (Some a, h1) \<Rightarrow> (case h_alloc h1 (FResult zero_result) of
       (None, h2) \<Rightarrow> do { h3 \<leftarrow> h_free h2 a; Some (None, h3) }
     | (Some s, h2) \<Rightarrow> do {
         op1 \<leftarrow> wg_op_init (Some (fo_op zero_op)) WG_OP_KIND_FETCH_URL (Some s) True;
         (_, stored, h3) \<leftarrow> fetch_url_sync curl url timeout_ms (Some zero_result) h2;
         st \<leftarrow> stored;
         op2 \<leftarrow> wg_op_complete (Some op1) (fu_code st);
         Some (Some a, h3\<lparr>hp_mem := (hp_mem h3)(s \<mapsto> FResult st, a \<mapsto> FOp \<lparr>fo_op = op2, fo_result = st\<rparr>)\<rparr>)
       }))"

definition fetch_url_with_path_async_common ::
  "curl_lib \<Rightarrow> string option \<Rightarrow> string option \<Rightarrow> int \<Rightarrow> fetch_heap \<Rightarrow> (ptr \<times> fetch_heap) option" where
  "fetch_url_with_path_async_common curl host_url relative_path timeout_ms h =
     (let (r, full_url) = fetch_url_join_path_common FETCH_URL_MAX_PATH_LENGTH host_url relative_path in
      if r \<noteq> 0 then Some (None, h) else fetch_url_async curl (Some full_url) timeout_ms h)"

definition fetch_url_with_path_async ::
  "curl_lib \<Rightarrow> string option \<Rightarrow> string option \<Rightarrow> int \<Rightarrow> fetch_heap \<Rightarrow> (ptr \<times> fetch_heap) option" where
  "fetch_url_with_path_async curl host_url relative_path timeout_ms h =
     fetch_url_with_path_async_common curl host_url relative_path timeout_ms h"

definition fetch_url_poll_common :: "ptr \<Rightarrow> fetch_heap \<Rightarrow> bool option" where
  "fetch_url_poll_common p h = (case p of
     None \<Rightarrow> Some (wg_op_is_done (None :: addr wg_op option))
   | Some a \<Rightarrow> do { r \<leftarrow> op_at h a; Some (wg_op_is_done (Some (fo_op r))) })"

definition fetch_url_poll :: "ptr \<Rightarrow> fetch_heap \<Rightarrow> bool option" where
  "fetch_url_poll op h = fetch_url_poll_common op h"

definition fetch_url_finish ::
  "ptr \<Rightarrow> fetch_url_result option \<Rightarrow> fetch_heap \<Rightarrow> (c_int \<times> fetch_url_result option \<times> fetch_heap) option" where
  "fetch_url_finish p result h = (case (p, result) of
     (Some a, Some res) \<Rightarrow> do {
       r \<leftarrow> op_at h a;
       (if \<not> wg_op_is_done (Some (fo_op r)) then Some (1, result, h)
        else (case wg_op_impl (Some (fo_op r)) of
           None \<Rightarrow> Some (-1, result, h)
         | Some s \<Rightarrow> do {
             st \<leftarrow> result_at h s;
             Some (0, Some st, h\<lparr>hp_mem := (hp_mem h)(a \<mapsto> FOp (r\<lparr>fo_result := st\<rparr>),
               s \<mapsto> FResult (st\<lparr>fu_data := None, fu_size := 0, fu_code := 0, fu_url := []\<rparr>))\<rparr>)
           }))
     }
   | _ \<Rightarrow> Some (-1, result, h))"

primrec destroy_all :: "addr list \<Rightarrow> fetch_heap \<Rightarrow> fetch_heap option" where
  "destroy_all [] h = Some h"
| "destroy_all (s # ss) h = do { h1 \<leftarrow> fetch_url_op_destroy_impl s h; destroy_all ss h1 }"

definition fetch_url_op_free :: "ptr \<Rightarrow> fetch_heap \<Rightarrow> fetch_heap option" where
  "fetch_url_op_free p h = (case p of
     None \<Rightarrow> Some h
   | Some a \<Rightarrow> do {
       r \<leftarrow> op_at h a;
       let (op1, destroyed) = wg_op_deinit (Some (fo_op r));
       h1 \<leftarrow> destroy_all destroyed (h\<lparr>hp_mem := (hp_mem h)(a \<mapsto> FOp (case op1 of None \<Rightarrow> r | Some op2 \<Rightarrow> r\<lparr>fo_op := op2\<rparr>))\<rparr>);
       h_free h1 a
     })"

end
