(* ===== verification/FetchSafety.thy ===== *)
theory FetchSafety
  imports FetchUrl
begin

text \<open>
  What fetching guarantees: the body is what the server sent, every block is freed in every branch, and
  an operation gives its result away once.
\<close>

section \<open>The context of a transfer\<close>

text \<open>
  Besides the blocks \<open>base\<close> there is at most one, the body so far; none as long as no callback has made it.
\<close>

definition ctx_at :: "(addr \<Rightarrow> fetch_cell option) \<Rightarrow> byte list \<Rightarrow> fetch_context \<Rightarrow> fetch_heap \<Rightarrow> bool" where
  "ctx_at base body ctx h \<longleftrightarrow> heap_ok h \<and> unat (fc_size ctx) = length body \<and>
     (case fc_data ctx of
        None \<Rightarrow> body = [] \<and> hp_mem h = base
      | Some a \<Rightarrow> base a = None \<and> hp_mem h = base(a \<mapsto> FBytes body))"

definition no_oom :: "'c heap \<Rightarrow> bool" where
  "no_oom h \<longleftrightarrow> (\<forall>n. \<not> hp_oom h n)"

lemma heap_ok_upd_brk: "heap_ok h \<Longrightarrow> heap_ok (h\<lparr>hp_mem := (hp_mem h)(hp_brk h \<mapsto> c), hp_brk := Suc (hp_brk h)\<rparr>)"
  by (auto simp: heap_ok_def)

lemma heap_ok_oom_brk: "heap_ok h \<Longrightarrow> heap_ok (h\<lparr>hp_brk := Suc (hp_brk h)\<rparr>)"
  by (auto simp: heap_ok_def)

text \<open>Growing the body by a block of bytes and writing them, as the callback and the terminator do.\<close>

lemma grow_spec:
  assumes c: "ctx_at base body ctx h" and d: "body @ d = [] \<longrightarrow> fc_data ctx = None" "length body + length d < 2 ^ 64"
    and n: "unat n = length body + length d"
  shows "(\<exists>h1. c_realloc h (fc_data ctx) n = Some (None, h1) \<and> ctx_at base body ctx h1 \<and> hp_oom h1 = hp_oom h \<and> \<not> no_oom h) \<or>
    (\<exists>b h1 h2. c_realloc h (fc_data ctx) n = Some (Some b, h1) \<and> buf_write h1 b (unat (fc_size ctx)) d = Some h2 \<and>
       ctx_at base (body @ d) \<lparr>fc_data = Some b, fc_size = n\<rparr> h2 \<and> hp_oom h2 = hp_oom h)"
proof (cases "hp_oom h (hp_brk h)")
  case True
  let ?h = "h\<lparr>hp_brk := Suc (hp_brk h)\<rparr>"
  have "n \<noteq> 0 \<or> fc_data ctx = None" using n d(1) by auto
  then have "c_realloc h (fc_data ctx) n = Some (None, ?h)"
    using c True by (auto simp: c_realloc_def ctx_at_def h_alloc_def split: option.splits)
  moreover have "ctx_at base body ctx ?h" using c by (auto simp: ctx_at_def heap_ok_oom_brk split: option.splits)
  moreover have "\<not> no_oom h" using True by (auto simp: no_oom_def)
  ultimately show ?thesis by (intro disjI1 exI [of _ ?h]) simp
next
  case False
  let ?b = "hp_brk h"
  have ok: "heap_ok h" and len: "unat (fc_size ctx) = length body" using c by (simp_all add: ctx_at_def)
  have n0: "n \<noteq> 0 \<or> fc_data ctx = None" using n d(1) by auto
  have fresh: "hp_mem h ?b = None" using ok by (rule heap_ok_brk)
  have fill: "take (unat n) (body @ replicate (unat n) 0) = body @ replicate (length d) 0" using n by simp
  define h2 where "h2 = h\<lparr>hp_mem := base(?b \<mapsto> FBytes (body @ d)), hp_brk := Suc ?b\<rparr>"
  have above: "base a = None" if "?b \<le> a" for a
    using ok [unfolded heap_ok_def, rule_format, OF that] c by (auto simp: ctx_at_def split: option.splits if_splits)
  then have base: "base ?b = None" by simp
  have wr: "take (length body) (body @ replicate (length d) 0) @ d @ drop (length body + length d) (body @ replicate (length d) 0) = body @ d"
    by simp
  have "\<exists>h1. c_realloc h (fc_data ctx) n = Some (Some ?b, h1) \<and> buf_write h1 ?b (unat (fc_size ctx)) d = Some h2"
  proof (cases "fc_data ctx")
    case None
    then have b: "body = []" "hp_mem h = base" using c by (simp_all add: ctx_at_def)
    then show ?thesis using None False n len by (simp add: c_realloc_def h_alloc_def buf_write_def h2_def)
  next
    case (Some a)
    then have m: "hp_mem h = base(a \<mapsto> FBytes body)" "base a = None" using c by (simp_all add: ctx_at_def)
    then have ab: "a \<noteq> ?b" using fresh by auto
    have clear: "(base(a \<mapsto> FBytes body, ?b \<mapsto> x))(a := None) = base(?b \<mapsto> x)" for x
      using m(2) ab by (auto simp: fun_eq_iff)
    show ?thesis using Some False n0 m ab fill wr len
      by (simp add: c_realloc_def h_alloc_def h_free_def buf_write_def h2_def clear)
  qed
  then obtain h1 where "c_realloc h (fc_data ctx) n = Some (Some ?b, h1)" "buf_write h1 ?b (unat (fc_size ctx)) d = Some h2" by blast
  moreover have "heap_ok h2" using above by (simp add: heap_ok_def h2_def)
  then have "ctx_at base (body @ d) \<lparr>fc_data = Some ?b, fc_size = n\<rparr> h2" using n base by (simp add: ctx_at_def h2_def)
  moreover have "hp_oom h2 = hp_oom h" by (simp add: h2_def)
  ultimately show ?thesis by (intro disjI2 exI [of _ ?b] exI [of _ h1] exI [of _ h2]) simp
qed

lemma unat_size_max: "unat SIZE_MAX = 2 ^ 64 - 1"
  by (simp add: unsigned_minus_1_eq_mask mask_eq_exp_minus_1)

lemma size_max_test:
  fixes a b :: size_t
  shows "a > SIZE_MAX - b \<longleftrightarrow> 2 ^ 64 \<le> unat a + unat b"
proof -
  have "unat (SIZE_MAX - b) = 2 ^ 64 - 1 - unat b"
    using unat_sub [of b SIZE_MAX] by (simp add: unat_size_max)
  moreover have "unat b < 2 ^ 64" using unsigned_less [of b] by simp
  ultimately show ?thesis by (auto simp: word_less_nat_alt)
qed

lemma size_no_wrap:
  fixes a b :: size_t
  assumes "unat a + unat b < 2 ^ 64"
  shows "unat (a + b) = unat a + unat b"
  using assms by (simp add: unat_word_ariths)

lemma unat_length: "length (c :: byte list) < 2 ^ 64 \<Longrightarrow> unat (word_of_nat (length c) :: size_t) = length c"
  by (simp add: unsigned_of_nat take_bit_nat_eq_self)

text \<open>The callback takes a piece whole, or, out of memory, nothing; which is the whole of an empty piece.\<close>

lemma write_callback_spec:
  assumes c: "ctx_at base body ctx h" and d: "body @ d = [] \<longrightarrow> fc_data ctx = None" "length body + length d < 2 ^ 64"
  obtains (taken) ctx1 h1 where "write_callback d 1 (word_of_nat (length d)) ctx h = Some (word_of_nat (length d), ctx1, h1)"
      "ctx_at base (body @ d) ctx1 h1" "hp_oom h1 = hp_oom h"
    | (refused) h1 where "write_callback d 1 (word_of_nat (length d)) ctx h = Some (0, ctx, h1)"
      "ctx_at base body ctx h1" "hp_oom h1 = hp_oom h" "\<not> no_oom h" "d \<noteq> []"
proof -
  let ?n = "word_of_nat (length d) :: size_t"
  have un: "unat ?n = length d" using d by (simp add: unat_length)
  have us: "unat (fc_size ctx) = length body" using c by (simp add: ctx_at_def)
  have s: "unat (fc_size ctx + ?n) = length body + length d" using size_no_wrap [of "fc_size ctx" ?n] d un us by simp
  have t1: "\<not> ?n > SIZE_MAX div 1" by (simp add: word_less_nat_alt unat_size_max un not_less) (use d in simp)
  have t2: "\<not> fc_size ctx > SIZE_MAX - ?n" unfolding size_max_test un us using d by simp
  have w: "write_callback d 1 ?n ctx h = (c_realloc h (fc_data ctx) (fc_size ctx + ?n) \<bind> (\<lambda>(p, h1).
      case p of None \<Rightarrow> Some (0, ctx, h1)
      | Some b \<Rightarrow> buf_write h1 b (unat (fc_size ctx)) d \<bind> (\<lambda>h2. Some (?n, \<lparr>fc_data = Some b, fc_size = fc_size ctx + ?n\<rparr>, h2))))"
    using t1 t2 by (simp add: write_callback_def Let_def)
  from grow_spec [OF c d s] show thesis
  proof (elim disjE exE conjE)
    fix h1 assume "c_realloc h (fc_data ctx) (fc_size ctx + ?n) = Some (None, h1)" "ctx_at base body ctx h1" "hp_oom h1 = hp_oom h" "\<not> no_oom h"
    then show thesis using refused taken [of ctx h1] w by (cases "d = []") simp_all
  next
    fix b h1 h2 assume "c_realloc h (fc_data ctx) (fc_size ctx + ?n) = Some (Some b, h1)" "buf_write h1 b (unat (fc_size ctx)) d = Some h2"
      "ctx_at base (body @ d) \<lparr>fc_data = Some b, fc_size = fc_size ctx + ?n\<rparr> h2" "hp_oom h2 = hp_oom h"
    then show thesis using taken w by simp
  qed
qed

text \<open>
  A second piece without a byte when there has been none so far would shrink the block, which is empty already, to
  nothing; that is excluded.
\<close>

definition pieces_ok :: "fetch_context \<Rightarrow> byte list \<Rightarrow> byte list list \<Rightarrow> bool" where
  "pieces_ok ctx body cs \<longleftrightarrow> body \<noteq> [] \<or> (\<forall>rest. cs \<noteq> [] # rest) \<or> (fc_data ctx = None \<and> (\<forall>rest. cs \<noteq> [] # [] # rest))"

lemma pieces_ok_head: "pieces_ok ctx body (d # cs) \<Longrightarrow> body @ d = [] \<longrightarrow> fc_data ctx = None"
  by (auto simp: pieces_ok_def)

lemma pieces_ok_tail: "pieces_ok ctx body (d # cs) \<Longrightarrow> pieces_ok ctx1 (body @ d) cs"
  by (auto simp: pieces_ok_def)

lemma deliver_spec:
  assumes "ctx_at base body ctx h" and "pieces_ok ctx body cs" and "length body + length (concat cs) < 2 ^ 64"
  shows "\<exists>ok body1 ctx1 h1. curl_deliver cs ctx h = Some (ok, ctx1, h1) \<and> ctx_at base body1 ctx1 h1 \<and> hp_oom h1 = hp_oom h \<and>
    length body1 \<le> length body + length (concat cs) \<and>
    (ok \<longrightarrow> body1 = body @ concat cs) \<and> (no_oom h \<longrightarrow> ok)"
  using assms
proof (induction cs arbitrary: body ctx h)
  case Nil
  then show ?case by (intro exI [of _ True] exI [of _ body] exI [of _ ctx] exI [of _ h]) simp
next
  case (Cons d cs)
  have d: "body @ d = [] \<longrightarrow> fc_data ctx = None" "length body + length d < 2 ^ 64"
    using pieces_ok_head [OF Cons.prems(2)] Cons.prems(3) by auto
  have nz: "word_of_nat (length d) \<noteq> (0 :: size_t)" if "d \<noteq> []" using unat_length [of d] d that by auto
  show ?case using Cons.prems(1) d
  proof (cases rule: write_callback_spec)
    case (taken ctx1 h1)
    have len: "length (body @ d) + length (concat cs) < 2 ^ 64" "pieces_ok ctx1 (body @ d) cs"
      using Cons.prems(3) pieces_ok_tail [OF Cons.prems(2)] by auto
    obtain ok body1 ctx2 h2 where r: "curl_deliver cs ctx1 h1 = Some (ok, ctx2, h2)" "ctx_at base body1 ctx2 h2" "hp_oom h2 = hp_oom h1"
      "length body1 \<le> length (body @ d) + length (concat cs)" "ok \<longrightarrow> body1 = (body @ d) @ concat cs" "no_oom h1 \<longrightarrow> ok"
      using Cons.IH [OF taken(2) len(2,1)] by blast
    have "no_oom h1 = no_oom h" using taken(3) by (simp add: no_oom_def)
    then show ?thesis using r taken by (intro exI [of _ ok] exI [of _ body1] exI [of _ ctx2] exI [of _ h2]) simp
  next
    case (refused h1)
    then show ?thesis using nz by (intro exI [of _ False] exI [of _ body] exI [of _ ctx] exI [of _ h1]) simp
  qed
qed

lemma free_ctx: "ctx_at base body ctx h \<Longrightarrow> \<exists>h1. c_free h (fc_data ctx) = Some h1 \<and> hp_mem h1 = base \<and> heap_ok h1 \<and> hp_oom h1 = hp_oom h"
  by (auto simp: ctx_at_def c_free_def h_free_def heap_ok_def fun_eq_iff split: option.splits if_splits)

section \<open>A transfer\<close>

text \<open>The blocks besides the body that a result holds.\<close>

abbreviation without :: "(addr \<Rightarrow> fetch_cell option) \<Rightarrow> ptr \<Rightarrow> addr \<Rightarrow> fetch_cell option" where
  "without m p \<equiv> (case p of None \<Rightarrow> m | Some a \<Rightarrow> m(a := None))"

lemma take_body_spec:
  assumes c: "ctx_at base body ctx h" and len: "length body < 2 ^ 64 - 1"
  obtains (body) b h1 where "fetch_take_body ctx r h = Some (r\<lparr>fu_data := Some b, fu_size := word_of_nat (length body)\<rparr>, h1)"
      "base b = None" "hp_mem h1 = base(b \<mapsto> FBytes (body @ [0]))" "heap_ok h1" "hp_oom h1 = hp_oom h"
    | (no_memory) h1 where "fetch_take_body ctx r h = Some (r\<lparr>fu_size := 0, fu_code := -1\<rparr>, h1)"
      "hp_mem h1 = base" "heap_ok h1" "hp_oom h1 = hp_oom h" "\<not> no_oom h"
proof -
  have us: "unat (fc_size ctx) = length body" using c by (simp add: ctx_at_def)
  have d: "body @ [0] = [] \<longrightarrow> fc_data ctx = None" "length body + length [0 :: byte] < 2 ^ 64" using len by simp_all
  have n: "unat (fc_size ctx + 1) = length body + length [0 :: byte]" using size_no_wrap [of "fc_size ctx" 1] us len by simp
  have t: "\<not> fc_size ctx > SIZE_MAX - 1" unfolding size_max_test using us len by simp
  have sz: "fc_size ctx = word_of_nat (length body)" by (simp flip: us)
  have w: "fetch_take_body ctx r h = (c_realloc h (fc_data ctx) (fc_size ctx + 1) \<bind> (\<lambda>(p, h1).
      case p of None \<Rightarrow> c_free h1 (fc_data ctx) \<bind> (\<lambda>h2. Some (r\<lparr>fu_size := 0, fu_code := -1\<rparr>, h2))
      | Some b \<Rightarrow> buf_write h1 b (unat (fc_size ctx)) [0] \<bind> (\<lambda>h2. Some (r\<lparr>fu_data := Some b, fu_size := fc_size ctx\<rparr>, h2))))"
    using t by (simp add: fetch_take_body_def)
  from grow_spec [OF c d n] show thesis
  proof (elim disjE exE conjE)
    fix h1 assume a: "c_realloc h (fc_data ctx) (fc_size ctx + 1) = Some (None, h1)" "ctx_at base body ctx h1" "hp_oom h1 = hp_oom h" "\<not> no_oom h"
    obtain h2 where "c_free h1 (fc_data ctx) = Some h2" "hp_mem h2 = base" "heap_ok h2" "hp_oom h2 = hp_oom h1" using free_ctx [OF a(2)] by blast
    then show thesis using no_memory a w by simp
  next
    fix b h1 h2 assume a: "c_realloc h (fc_data ctx) (fc_size ctx + 1) = Some (Some b, h1)" "buf_write h1 b (unat (fc_size ctx)) [0] = Some h2"
      "ctx_at base (body @ [0]) \<lparr>fc_data = Some b, fc_size = fc_size ctx + 1\<rparr> h2" "hp_oom h2 = hp_oom h"
    then have "base b = None" "hp_mem h2 = base(b \<mapsto> FBytes (body @ [0]))" "heap_ok h2" by (simp_all add: ctx_at_def)
    then show thesis using body a w sz by simp
  qed
qed

text \<open>What a request leaves: a result and, for a body, one block more; the block the result had before is freed.\<close>

definition fetch_outcome :: "curl_transfer \<Rightarrow> (addr \<Rightarrow> fetch_cell option) \<Rightarrow> bool \<Rightarrow> fetch_url_result \<Rightarrow> fetch_heap \<Rightarrow> bool" where
  "fetch_outcome t base lucky r h \<longleftrightarrow>
     (case fu_data r of
        None \<Rightarrow> fu_size r = 0 \<and> hp_mem h = base
      | Some a \<Rightarrow> fu_code r = 200 \<and> ct_init t \<and> ct_ok t \<and> ct_http_code t = 200 \<and> base a = None \<and>
          hp_mem h = base(a \<mapsto> FBytes (concat (ct_chunks t) @ [0])) \<and> fu_size r = word_of_nat (length (concat (ct_chunks t)))) \<and>
     (lucky \<longrightarrow> fu_code r = (if \<not> ct_init t then -1 else if \<not> ct_ok t then 500 else sint (word_of_int (ct_http_code t) :: 32 word)) \<and>
        (fu_data r \<noteq> None \<longleftrightarrow> ct_init t \<and> ct_ok t \<and> ct_http_code t = 200))"

lemma reset_spec:
  assumes "heap_ok h" and "\<forall>a. fu_data r = Some a \<longrightarrow> hp_mem h a \<noteq> None"
  shows "\<exists>h1. fetch_url_result_reset_common r h = Some (zero_result, h1) \<and> hp_mem h1 = without (hp_mem h) (fu_data r) \<and>
    heap_ok h1 \<and> hp_oom h1 = hp_oom h \<and> hp_brk h1 = hp_brk h"
  using assms by (cases "fu_data r") (auto simp: fetch_url_result_reset_common_def c_free_def h_free_def zero_result_def heap_ok_def)

text \<open>Giving back the handle takes one block away.\<close>

lemma cleanup_outcome:
  assumes "heap_ok h" and "fetch_outcome t (base(c \<mapsto> FCurl)) lucky r h" and "base c = None"
  shows "\<exists>h1. curl_easy_cleanup h c = Some h1 \<and> heap_ok h1 \<and> hp_oom h1 = hp_oom h \<and> fetch_outcome t base lucky r h1"
proof -
  have c: "hp_mem h c = Some FCurl" using assms(2) by (auto simp: fetch_outcome_def split: option.splits if_splits)
  let ?h = "h\<lparr>hp_mem := (hp_mem h)(c := None)\<rparr>"
  have "curl_easy_cleanup h c = Some ?h" using c by (simp add: curl_easy_cleanup_def h_free_def)
  moreover have "fetch_outcome t base lucky r ?h"
    using assms(2,3) by (auto simp: fetch_outcome_def fun_eq_iff split: option.splits if_splits)
  ultimately show ?thesis using assms(1) by (auto simp: heap_ok_def)
qed

lemma fetch_sync_spec:
  assumes ok: "heap_ok h" and r: "\<forall>a. fu_data r = Some a \<longrightarrow> hp_mem h a \<noteq> None"
    and cs: "\<forall>rest. ct_chunks (curl url timeout) \<noteq> [] # [] # rest" "length (concat (ct_chunks (curl url timeout))) < 2 ^ 64 - 1"
    and url: "url \<noteq> None"
  shows "\<exists>r1 h1. fetch_url_sync curl url timeout (Some r) h = Some (fu_code r1, Some r1, h1) \<and> heap_ok h1 \<and> hp_oom h1 = hp_oom h \<and>
    fu_url r1 = take 255 (case url of None \<Rightarrow> [] | Some s \<Rightarrow> s) \<and>
    fetch_outcome (curl url timeout) (without (hp_mem h) (fu_data r)) (no_oom h) r1 h1"
proof -
  define t where "t = curl url timeout"
  define u where "u = take 255 (case url of None \<Rightarrow> [] | Some s \<Rightarrow> s)"
  define r2 where "r2 = zero_result\<lparr>fu_url := u\<rparr>"
  define base where "base = without (hp_mem h) (fu_data r)"
  obtain h1 where h1: "fetch_url_result_reset_common r h = Some (zero_result, h1)" "hp_mem h1 = base" "heap_ok h1" "hp_oom h1 = hp_oom h"
    using reset_spec [OF ok r] unfolding base_def by blast
  have u2: "fu_url r2 = u" "fu_data r2 = None" "fu_size r2 = 0" by (simp_all add: r2_def zero_result_def)
  have main: "\<exists>r1 h1. fetch_url_sync curl url timeout (Some r) h = Some (fu_code r1, Some r1, h1) \<and> heap_ok h1 \<and> hp_oom h1 = hp_oom h \<and>
    fu_url r1 = u \<and> fetch_outcome t base (no_oom h) r1 h1"
  proof (cases "ct_init t")
    case False
    then show ?thesis using h1 u2
      by (intro exI [of _ "r2\<lparr>fu_code := -1\<rparr>"] exI [of _ h1])
        (simp add: fetch_outcome_def fetch_url_sync_def t_def [symmetric] r2_def u_def FETCH_URL_MAX_PATH_LENGTH_def curl_easy_init_def Let_def)
  next
    case True
    define c where "c = hp_brk h1"
    define hc where "hc = h1\<lparr>hp_mem := base(c \<mapsto> FCurl), hp_brk := Suc c\<rparr>"
    have init: "curl_easy_init t h1 = (Some c, hc)" using True h1(2) by (simp add: curl_easy_init_def c_def hc_def)
    have bc: "base c = None" using heap_ok_brk [OF h1(3)] h1(2) by (simp add: c_def)
    have "heap_ok hc" using h1(2,3) by (auto simp: heap_ok_def hc_def c_def)
    then have c0: "ctx_at (base(c \<mapsto> FCurl)) [] \<lparr>fc_data = None, fc_size = 0\<rparr> hc" by (simp add: ctx_at_def hc_def)
    have cst: "pieces_ok \<lparr>fc_data = None, fc_size = 0\<rparr> [] (ct_chunks t)" "length (concat (ct_chunks t)) < 2 ^ 64 - 1"
      using cs by (simp_all add: t_def pieces_ok_def)
    then have "length ([] :: byte list) + length (concat (ct_chunks t)) < 2 ^ 64" by simp
    from deliver_spec [OF c0 cst(1) this] obtain taken body ctx h2 where
      d: "curl_deliver (ct_chunks t) \<lparr>fc_data = None, fc_size = 0\<rparr> hc = Some (taken, ctx, h2)" "ctx_at (base(c \<mapsto> FCurl)) body ctx h2" "hp_oom h2 = hp_oom hc"
        "length body \<le> length (concat (ct_chunks t))" "taken \<longrightarrow> body = concat (ct_chunks t)" "no_oom hc \<longrightarrow> taken"
      by auto
    have lucky: "no_oom hc = no_oom h" "no_oom h2 = no_oom h" "hp_oom h2 = hp_oom h" using h1(4) d(3) by (simp_all add: no_oom_def hc_def)
    obtain h3 where h3: "c_free h2 (fc_data ctx) = Some h3" "hp_mem h3 = base(c \<mapsto> FCurl)" "heap_ok h3" "hp_oom h3 = hp_oom h2" using free_ctx [OF d(2)] by blast
    define fin where "fin = (\<lambda>(r4 :: fetch_url_result, h4). curl_easy_cleanup h4 c \<bind> (\<lambda>h5. Some (fu_code r4, Some r4, h5)))"
    define code where "code = sint (word_of_int (ct_http_code t) :: 32 word)"
    have eq: "fetch_url_sync curl url timeout (Some r) h =
       ((if taken \<and> ct_ok t then
           (if ct_http_code t = 200 then fetch_take_body ctx (r2\<lparr>fu_code := 200\<rparr>) h2 else Some (r2\<lparr>fu_code := code\<rparr>, h3))
         else Some (r2\<lparr>fu_data := None, fu_size := 0, fu_code := 500\<rparr>, h3)) \<bind>
        fin)"
      using h1(1) d(1) h3(1) url by (auto simp: fetch_url_sync_def t_def [symmetric] r2_def u_def FETCH_URL_MAX_PATH_LENGTH_def init curl_easy_perform_def code_def fin_def Let_def)
    text \<open>What is left after the cleanup of the handle.\<close>
    have ends: "\<exists>r1 h1. fin (r4, h4) = Some (fu_code r1, Some r1, h1) \<and> heap_ok h1 \<and> hp_oom h1 = hp_oom h \<and> fu_url r1 = u \<and>
        fetch_outcome t base (no_oom h) r1 h1"
      if "heap_ok h4" "hp_oom h4 = hp_oom h" "fu_url r4 = u" "fetch_outcome t (base(c \<mapsto> FCurl)) (no_oom h) r4 h4" for r4 h4
      using cleanup_outcome [OF that(1,4) bc] that(2,3) by (auto simp: fin_def intro!: exI [of _ r4])
    consider "\<not> (taken \<and> ct_ok t)" | "taken \<and> ct_ok t" "ct_http_code t \<noteq> 200" | "taken \<and> ct_ok t" "ct_http_code t = 200" by blast
    then show ?thesis
    proof cases
      case 1
      then show ?thesis using ends [of h3 "r2\<lparr>fu_data := None, fu_size := 0, fu_code := 500\<rparr>"] eq d(6) h3 u2 lucky True
        by (auto simp: fetch_outcome_def)
    next
      case 2
      then show ?thesis using ends [of h3 "r2\<lparr>fu_code := code\<rparr>"] eq d(3) h3 u2 lucky True
        by (auto simp: fetch_outcome_def code_def)
    next
      case 3
      then have b: "body = concat (ct_chunks t)" using d(5) by simp
      then have len: "length body < 2 ^ 64 - 1" using cst(2) by simp
      from d(2) len show ?thesis
      proof (cases rule: take_body_spec [where r = "r2\<lparr>fu_code := 200\<rparr>"])
        case (body a h4)
        then show ?thesis using ends [of h4 "r2\<lparr>fu_code := 200, fu_data := Some a, fu_size := word_of_nat (length body)\<rparr>"] eq 3 b u2 lucky True
          by (auto simp: fetch_outcome_def)
      next
        case (no_memory h4)
        then show ?thesis using ends [of h4 "r2\<lparr>fu_size := 0, fu_code := -1\<rparr>"] eq 3 lucky u2
          by (auto simp: fetch_outcome_def)
      qed
    qed
  qed
  then show ?thesis unfolding t_def u_def base_def .
qed

text \<open>
  C22. A request for a URL frees what it allocates, the handle of libcurl too, on every branch: besides the block the result held before, which
  is freed, nothing is left but the body, and that only after a transfer that succeeded with code 200; then
  it is the concatenation of everything the server sent, whatever the pieces, with a terminator, and
  its size without it. When memory does not run out the code is -1 without a handle, 500 when the
  transfer failed, and the response code otherwise. Pieces may be empty, as libcurl documents for an empty file, but not
  the first two of them.
\<close>

theorem fetch_url_sync_result:
  assumes "heap_ok h" and "\<forall>a. fu_data r = Some a \<longrightarrow> hp_mem h a \<noteq> None"
    and "\<forall>rest. ct_chunks (curl (Some url) timeout) \<noteq> [] # [] # rest" and "length (concat (ct_chunks (curl (Some url) timeout))) < 2 ^ 64 - 1"
  shows "\<exists>r1 h1. fetch_url_sync curl (Some url) timeout (Some r) h = Some (fu_code r1, Some r1, h1) \<and> heap_ok h1 \<and> fu_url r1 = take 255 url \<and>
    fetch_outcome (curl (Some url) timeout) (case fu_data r of None \<Rightarrow> hp_mem h | Some a \<Rightarrow> (hp_mem h)(a := None)) (\<forall>n. \<not> hp_oom h n) r1 h1"
  using fetch_sync_spec [where curl = curl and url = "Some url" and timeout = timeout, OF assms] unfolding no_oom_def by auto

definition demo_curl :: curl_lib where
  "demo_curl url timeout_ms = \<lparr>ct_init = True, ct_chunks = [[104, 105], [33]], ct_ok = url \<noteq> None, ct_http_code = 200\<rparr>"

theorem fetch_url_sync_result_witness:
  "\<exists>r1 h1. fetch_url_sync demo_curl (Some ''u'') 10 (Some zero_result) empty_heap = Some (fu_code r1, Some r1, h1) \<and>
     fu_code r1 = 200 \<and> (\<exists>a. fu_data r1 = Some a \<and> hp_mem h1 = [a \<mapsto> FBytes [104, 105, 33, 0]])"
proof -
  have "\<exists>r1 h1. fetch_url_sync demo_curl (Some ''u'') 10 (Some zero_result) empty_heap = Some (fu_code r1, Some r1, h1) \<and> heap_ok h1 \<and>
    fu_url r1 = take 255 ''u'' \<and>
    fetch_outcome (demo_curl (Some ''u'') 10) (case fu_data zero_result of None \<Rightarrow> hp_mem empty_heap | Some a \<Rightarrow> (hp_mem empty_heap)(a := None)) (\<forall>n. \<not> hp_oom (empty_heap :: fetch_heap) n) r1 h1"
    by (rule fetch_url_sync_result) (simp_all add: zero_result_def demo_curl_def)
  then obtain r1 h1 where r: "fetch_url_sync demo_curl (Some ''u'') 10 (Some zero_result) empty_heap = Some (fu_code r1, Some r1, h1)"
    "fetch_outcome (demo_curl (Some ''u'') 10) (\<lambda>_. None) True r1 h1" by (elim exE conjE) (simp add: zero_result_def)
  then show ?thesis by (intro exI [of _ r1] exI [of _ h1]) (auto simp: fetch_outcome_def demo_curl_def split: option.splits)
qed

text \<open>
  Where it goes wrong. The second of two pieces without a byte calls \<^verbatim>\<open>realloc\<close> with a block and no size, which is undefined: where it
  frees the block and returns \<open>NULL\<close>, the callback takes that for a failure, with a return value that is success, and keeps
  the freed pointer. And a transfer that fails for a URL of \<open>NULL\<close>, which libcurl refuses, is logged with that as a string.
\<close>

theorem fetch_url_undefined_calls:
  "fetch_url_sync (\<lambda>url timeout_ms. \<lparr>ct_init = True, ct_chunks = [[], []], ct_ok = True, ct_http_code = 200\<rparr>) (Some url) timeout (Some zero_result) empty_heap = None"
  "fetch_url_sync (\<lambda>url timeout_ms. \<lparr>ct_init = True, ct_chunks = [], ct_ok = url \<noteq> None, ct_http_code = 0\<rparr>) None timeout (Some zero_result) empty_heap = None"
  by (simp_all add: fetch_url_sync_def fetch_url_result_reset_common_def zero_result_def c_free_def curl_easy_init_def curl_easy_perform_def
      write_callback_def c_realloc_def h_alloc_def buf_write_def Let_def)

section \<open>Operations\<close>

text \<open>The blocks of an operation that has been made, and what they hold.\<close>

definition op_blocks :: "(addr \<Rightarrow> fetch_cell option) \<Rightarrow> addr \<Rightarrow> addr \<Rightarrow> fetch_url_result \<Rightarrow> byte list \<Rightarrow> int \<Rightarrow> fetch_url_result \<Rightarrow> fetch_heap \<Rightarrow> bool" where
  "op_blocks base a s st body code shown h \<longleftrightarrow> a \<noteq> s \<and> base a = None \<and> base s = None \<and>
     (\<forall>d. fu_data st = Some d \<longrightarrow> d \<noteq> a \<and> d \<noteq> s \<and> base d = None) \<and>
     hp_mem h = (case fu_data st of None \<Rightarrow> base | Some d \<Rightarrow> base(d \<mapsto> FBytes body))
       (s \<mapsto> FResult st, a \<mapsto> FOp \<lparr>fo_op = \<lparr>op_kind = WG_OP_KIND_FETCH_URL, op_state = WG_OP_DONE, op_status_code = code,
           op_impl = Some s, op_destroy = True\<rparr>, fo_result = shown\<rparr>)"

lemma op_free_blocks:
  assumes "op_blocks base a s st body code shown h"
  shows "\<exists>h1. fetch_url_op_free (Some a) h = Some h1 \<and> hp_mem h1 = base"
proof (cases "fu_data st")
  case None
  then show ?thesis using assms
    by (auto simp: fetch_url_op_free_def op_blocks_def op_at_def result_at_def wg_op_deinit_def fetch_url_op_destroy_impl_def
        fetch_url_result_reset_common_def c_free_def h_free_def fun_eq_iff)
next
  case (Some d)
  then show ?thesis using assms
    by (auto simp: fetch_url_op_free_def op_blocks_def op_at_def result_at_def wg_op_deinit_def fetch_url_op_destroy_impl_def
        fetch_url_result_reset_common_def c_free_def h_free_def fun_eq_iff)
qed

lemma op_finish_blocks:
  assumes "op_blocks base a s st body code shown h"
  shows "\<exists>h1. fetch_url_finish (Some a) (Some res) h = Some (0, Some st, h1) \<and>
    op_blocks (case fu_data st of None \<Rightarrow> base | Some d \<Rightarrow> base(d \<mapsto> FBytes body)) a s zero_result [] code st h1"
  using assms by (cases "fu_data st")
    (auto simp: fetch_url_finish_def op_blocks_def op_at_def result_at_def wg_op_is_done_def wg_op_impl_def zero_result_def fun_eq_iff)

lemma op_poll_blocks: "op_blocks base a s st body code shown h \<Longrightarrow> fetch_url_poll (Some a) h = Some True"
  by (simp add: op_blocks_def fetch_url_poll_def fetch_url_poll_common_def op_at_def wg_op_is_done_def)

lemma alloc_SomeE:
  assumes "h_alloc h c = (Some a, h1)"
  obtains "a = hp_brk h" "hp_mem h1 = (hp_mem h)(a \<mapsto> c)" "hp_brk h1 = Suc (hp_brk h)" "hp_oom h1 = hp_oom h" "heap_ok h \<Longrightarrow> heap_ok h1"
  using assms heap_ok_alloc [of h c "Some a" h1] by (auto simp: h_alloc_def split: if_splits)

text \<open>An operation that was made is done, and holds the outcome of its transfer.\<close>

lemma fetch_async_blocks:
  assumes ok: "heap_ok h" and cs: "\<forall>rest. ct_chunks (curl (Some url) timeout) \<noteq> [] # [] # rest" "length (concat (ct_chunks (curl (Some url) timeout))) < 2 ^ 64 - 1"
    and a: "fetch_url_async curl (Some url) timeout h = Some (Some a, h')"
  obtains s st hr where "op_blocks (hp_mem h) a s st (concat (ct_chunks (curl (Some url) timeout)) @ [0]) (fu_code st) st h'"
    "hp_mem hr = (case fu_data st of None \<Rightarrow> hp_mem h | Some d \<Rightarrow> (hp_mem h)(d \<mapsto> FBytes (concat (ct_chunks (curl (Some url) timeout)) @ [0])))"
    "fetch_outcome (curl (Some url) timeout) (hp_mem h) (no_oom h) st hr"
proof -
  obtain h1 where h1: "h_alloc h (FOp zero_op) = (Some a, h1)"
    using a by (auto simp: fetch_url_async_def split: prod.splits option.splits Option.bind_splits)
  obtain s h2 where h2: "h_alloc h1 (FResult zero_result) = (Some s, h2)"
    using a h1 by (auto simp: fetch_url_async_def split: prod.splits option.splits Option.bind_splits)
  from h1 have m1: "a = hp_brk h" "hp_mem h1 = (hp_mem h)(a \<mapsto> FOp zero_op)" "hp_brk h1 = Suc (hp_brk h)" "hp_oom h1 = hp_oom h" "heap_ok h1"
    by (rule alloc_SomeE; use ok in simp)+
  from h2 have m2: "s = hp_brk h1" "hp_mem h2 = (hp_mem h1)(s \<mapsto> FResult zero_result)" "hp_oom h2 = hp_oom h1" "heap_ok h2"
    by (rule alloc_SomeE; use m1(5) in simp)+
  have z: "\<forall>d. fu_data zero_result = Some d \<longrightarrow> hp_mem h2 d \<noteq> None" "fu_data zero_result = None" by (simp_all add: zero_result_def)
  obtain st h3 where st: "fetch_url_sync curl (Some url) timeout (Some zero_result) h2 = Some (fu_code st, Some st, h3)"
    "fetch_outcome (curl (Some url) timeout) (hp_mem h2) (no_oom h2) st h3"
    using fetch_sync_spec [where curl = curl and url = "Some url" and timeout = timeout, OF m2(4) z(1) cs option.distinct(2)] z(2) by auto
  have oom: "no_oom h2 = no_oom h" using m1(4) m2(3) by (simp add: no_oom_def)
  have fresh: "hp_mem h a = None" "hp_mem h s = None" "a \<noteq> s" using ok m1(1,3) m2(1) by (simp_all add: heap_ok_def)
  have mem2: "hp_mem h2 = (hp_mem h)(a \<mapsto> FOp zero_op, s \<mapsto> FResult zero_result)" using m1(2) m2(2) by simp
  define op2 where "op2 = \<lparr>op_kind = WG_OP_KIND_FETCH_URL, op_state = WG_OP_DONE, op_status_code = fu_code st, op_impl = Some s, op_destroy = True\<rparr>"
  have h': "h' = h3\<lparr>hp_mem := (hp_mem h3)(s \<mapsto> FResult st, a \<mapsto> FOp \<lparr>fo_op = op2, fo_result = st\<rparr>)\<rparr>"
    using a h1 h2 st(1) by (simp add: fetch_url_async_def wg_op_init_def wg_op_complete_def op2_def)
  define hr where "hr = h\<lparr>hp_mem := (case fu_data st of None \<Rightarrow> hp_mem h | Some d \<Rightarrow> (hp_mem h)(d \<mapsto> FBytes (concat (ct_chunks (curl (Some url) timeout)) @ [0])))\<rparr>"
  have blocks: "op_blocks (hp_mem h) a s st (concat (ct_chunks (curl (Some url) timeout)) @ [0]) (fu_code st) st h'"
    using st(2) fresh unfolding h' op_blocks_def fetch_outcome_def mem2 op2_def
    by (cases "fu_data st") (auto simp: fun_eq_iff split: if_splits)
  have result: "fetch_outcome (curl (Some url) timeout) (hp_mem h) (no_oom h) st hr"
    using st(2) unfolding fetch_outcome_def mem2 oom by (auto simp: hr_def split: option.splits if_splits)
  show thesis by (rule that [OF blocks _ result]) (simp add: hr_def)
qed

text \<open>
  C23. An operation owns its result until it is finished and frees it otherwise. A fetch that could be
  started is done at once. Freeing it restores the memory as it was, body included. Finishing it first
  hands out the outcome of the transfer, after which freeing leaves just the body, now the caller's; and
  finishing a second time answers success again, with an empty result. As for one transfer, the URL is not \<open>NULL\<close> and
  the first two pieces are not both empty.
\<close>

theorem fetch_url_op_ownership:
  assumes "heap_ok h" and "\<forall>rest. ct_chunks (curl (Some url) timeout) \<noteq> [] # [] # rest" and "length (concat (ct_chunks (curl (Some url) timeout))) < 2 ^ 64 - 1"
    and "fetch_url_async curl (Some url) timeout h = Some (Some op, h1)"
  shows "fetch_url_poll (Some op) h1 = Some True \<and>
    (\<exists>h2. fetch_url_op_free (Some op) h1 = Some h2 \<and> hp_mem h2 = hp_mem h) \<and>
    (\<exists>r h2 h3 h4. fetch_url_finish (Some op) (Some res) h1 = Some (0, Some r, h2) \<and>
       fetch_url_finish (Some op) (Some res') h2 = Some (0, Some \<lparr>fu_data = None, fu_size = 0, fu_code = 0, fu_url = []\<rparr>, h3) \<and>
       fetch_url_op_free (Some op) h2 = Some h4 \<and> fetch_outcome (curl (Some url) timeout) (hp_mem h) (\<forall>n. \<not> hp_oom h n) r h4)"
proof -
  obtain s st hr where b: "op_blocks (hp_mem h) op s st (concat (ct_chunks (curl (Some url) timeout)) @ [0]) (fu_code st) st h1"
    and m: "hp_mem hr = (case fu_data st of None \<Rightarrow> hp_mem h | Some d \<Rightarrow> (hp_mem h)(d \<mapsto> FBytes (concat (ct_chunks (curl (Some url) timeout)) @ [0])))"
    and oc: "fetch_outcome (curl (Some url) timeout) (hp_mem h) (no_oom h) st hr"
    by (rule fetch_async_blocks [OF assms])
  obtain h2 where h2: "fetch_url_finish (Some op) (Some res) h1 = Some (0, Some st, h2)"
    "op_blocks (hp_mem hr) op s zero_result [] (fu_code st) st h2" using op_finish_blocks [OF b] unfolding m by blast
  obtain h3 where h3: "fetch_url_finish (Some op) (Some res') h2 = Some (0, Some zero_result, h3)" using op_finish_blocks [OF h2(2)] by blast
  obtain h4 where h4: "fetch_url_op_free (Some op) h2 = Some h4" "hp_mem h4 = hp_mem hr" using op_free_blocks [OF h2(2)] by blast
  have "fetch_outcome (curl (Some url) timeout) (hp_mem h) (\<forall>n. \<not> hp_oom h n) st h4"
    using oc h4(2) by (simp add: fetch_outcome_def no_oom_def split: option.splits)
  then show ?thesis using op_poll_blocks [OF b] op_free_blocks [OF b] h2(1) h3 h4(1) unfolding zero_result_def by blast
qed

theorem fetch_url_op_ownership_witness:
  "\<exists>op h1 h2. fetch_url_async demo_curl (Some ''u'') 10 empty_heap = Some (Some op, h1) \<and>
     fetch_url_op_free (Some op) h1 = Some h2 \<and> hp_mem h2 = (\<lambda>_. None)"
proof -
  let ?h = "empty_heap :: fetch_heap"
  have "\<not> Option.is_none (fetch_url_async demo_curl (Some ''u'') 10 ?h) \<and>
    (case fetch_url_async demo_curl (Some ''u'') 10 ?h of Some (p, h1) \<Rightarrow> \<not> Option.is_none p | None \<Rightarrow> False)" by code_simp
  then obtain op h1 where a: "fetch_url_async demo_curl (Some ''u'') 10 ?h = Some (Some op, h1)"
    by (auto simp: Option.is_none_def split: option.splits)
  from fetch_url_op_ownership [OF _ _ _ a] obtain h2 where "fetch_url_op_free (Some op) h1 = Some h2" "hp_mem h2 = hp_mem ?h"
    by (simp add: demo_curl_def) blast
  then show ?thesis using a by (intro exI [of _ op] exI [of _ h1] exI [of _ h2]) simp
qed

end
