(* ===== verification/FetchWasm.thy ===== *)
theory FetchWasm
  imports FetchSafety
begin

text \<open>
  Fetching in the browser build: \<^verbatim>\<open>src/fetch_url/fetch_url.wasm.c\<close>, where a request runs in the
  background and ends in one of two callbacks, and \<^verbatim>\<open>src/fetch_url/fetch_url_sync.wasm.c\<close>, which waits for
  the browser. The blocks are those of theory \<open>FetchUrl\<close>; a context is the block that a request keeps
  as its user data, with a pointer to the operation. What is asked of Emscripten is the user data of the
  requests that are under way; of each, one callback runs later, with the response or without. A size is 64 bits wide here,
  as in the desktop build, and 32 in the browser, so that what is shown is for bodies that fit its memory with their terminator.
\<close>

section \<open>Requests in the background\<close>

definition context_at :: "fetch_heap \<Rightarrow> addr \<Rightarrow> ptr option" where
  "context_at h a = (case hp_mem h a of Some (FContext owner) \<Rightarrow> Some owner | _ \<Rightarrow> None)"

definition set_op :: "fetch_heap \<Rightarrow> addr \<Rightarrow> fetch_url_op \<Rightarrow> fetch_heap" where
  "set_op h a r = h\<lparr>hp_mem := (hp_mem h)(a \<mapsto> FOp r)\<rparr>"

definition fetch_url_context_destroy :: "addr \<Rightarrow> fetch_heap \<Rightarrow> fetch_heap option" where
  "fetch_url_context_destroy impl h = h_free h impl"

definition complete_with :: "fetch_url_op \<Rightarrow> fetch_url_result \<Rightarrow> fetch_url_op" where
  "complete_with r res = \<lparr>fo_op = (case wg_op_complete (Some (fo_op r)) (fu_code res) of None \<Rightarrow> fo_op r | Some op1 \<Rightarrow> op1), fo_result = res\<rparr>"

definition fetch_success :: "ptr \<Rightarrow> byte list \<Rightarrow> int \<Rightarrow> fetch_heap \<Rightarrow> fetch_heap option" where
  "fetch_success user_data body status h = (case user_data of
     None \<Rightarrow> Some h
   | Some c \<Rightarrow> do {
       owner \<leftarrow> context_at h c;
       (case owner of
          None \<Rightarrow> Some h
        | Some a \<Rightarrow> do {
            r \<leftarrow> op_at h a;
            (case h_alloc h (FBytes (body @ [0])) of
               (None, h1) \<Rightarrow> Some (set_op h1 a (complete_with r ((fo_result r)\<lparr>fu_data := None, fu_code := 500\<rparr>)))
             | (Some b, h1) \<Rightarrow> Some (set_op h1 a (complete_with r
                 ((fo_result r)\<lparr>fu_data := Some b, fu_size := word_of_nat (length body), fu_code := status\<rparr>))))
          })
     })"

definition fetch_error :: "ptr \<Rightarrow> int \<Rightarrow> fetch_heap \<Rightarrow> fetch_heap option" where
  "fetch_error user_data status h = (case user_data of
     None \<Rightarrow> Some h
   | Some c \<Rightarrow> do {
       owner \<leftarrow> context_at h c;
       (case owner of
          None \<Rightarrow> Some h
        | Some a \<Rightarrow> do {
            r \<leftarrow> op_at h a;
            Some (set_op h a (complete_with r
              ((fo_result r)\<lparr>fu_data := None, fu_size := 0, fu_code := (if status > 0 then status else 500)\<rparr>)))
          })
     })"

text \<open>The new operation, the heap, and the user data of the request that is now under way.\<close>

definition fetch_url_async_wasm :: "string option \<Rightarrow> fetch_heap \<Rightarrow> (ptr \<times> fetch_heap \<times> ptr) option" where
  "fetch_url_async_wasm url h = (case h_alloc h (FOp zero_op) of
     (None, h1) \<Rightarrow> Some (None, h1, None)
   | (Some a, h1) \<Rightarrow> (case h_alloc h1 (FContext None) of
       (None, h2) \<Rightarrow> do { h3 \<leftarrow> h_free h2 a; Some (None, h3, None) }
     | (Some c, h2) \<Rightarrow> do {
         op1 \<leftarrow> wg_op_init (Some (fo_op zero_op)) WG_OP_KIND_FETCH_URL (Some c) True;
         let url1 = take (FETCH_URL_MAX_PATH_LENGTH - 1) (case url of None \<Rightarrow> [] | Some s \<Rightarrow> s);
         Some (Some a, h2\<lparr>hp_mem := (hp_mem h2)(c \<mapsto> FContext (Some a), a \<mapsto> FOp \<lparr>fo_op = op1, fo_result = zero_result\<lparr>fu_url := url1\<rparr>\<rparr>)\<rparr>, Some c)
       }))"

definition fetch_url_poll_wasm :: "ptr \<Rightarrow> fetch_heap \<Rightarrow> bool option" where
  "fetch_url_poll_wasm op h = fetch_url_poll_common op h"

text \<open>There is no probe in the browser.\<close>

definition fetch_url_ping_wasm :: "('d, 'f) float_ops \<Rightarrow> string option \<Rightarrow> int \<Rightarrow> 'f" where
  "fetch_url_ping_wasm F url timeout_ms = fl_float F (fl_of_int F (-1))"

definition fetch_url_with_path_async_wasm :: "string option \<Rightarrow> string option \<Rightarrow> fetch_heap \<Rightarrow> (ptr \<times> fetch_heap \<times> ptr) option" where
  "fetch_url_with_path_async_wasm host_url relative_path h =
     (let (r, full_url) = fetch_url_join_path_common FETCH_URL_MAX_PATH_LENGTH host_url relative_path in
      if r \<noteq> 0 then Some (None, h, None) else fetch_url_async_wasm (Some full_url) h)"

definition fetch_url_finish_wasm ::
  "ptr \<Rightarrow> fetch_url_result option \<Rightarrow> fetch_heap \<Rightarrow> (c_int \<times> fetch_url_result option \<times> fetch_heap) option" where
  "fetch_url_finish_wasm p result h = (case (p, result) of
     (Some a, Some res) \<Rightarrow> do {
       r \<leftarrow> op_at h a;
       (if \<not> wg_op_is_done (Some (fo_op r)) then Some (1, result, h)
        else Some (0, Some (fo_result r),
          set_op h a (r\<lparr>fo_result := (fo_result r)\<lparr>fu_data := None, fu_size := 0, fu_code := 0, fu_url := []\<rparr>\<rparr>)))
     }
   | _ \<Rightarrow> Some (-1, result, h))"

primrec destroy_contexts :: "addr list \<Rightarrow> fetch_heap \<Rightarrow> fetch_heap option" where
  "destroy_contexts [] h = Some h"
| "destroy_contexts (c # cs) h = do { h1 \<leftarrow> fetch_url_context_destroy c h; destroy_contexts cs h1 }"

definition fetch_url_op_free_wasm :: "ptr \<Rightarrow> fetch_heap \<Rightarrow> fetch_heap option" where
  "fetch_url_op_free_wasm p h = (case p of
     None \<Rightarrow> Some h
   | Some a \<Rightarrow> do {
       r \<leftarrow> op_at h a;
       (res1, h1) \<leftarrow> fetch_url_result_reset_common (fo_result r) h;
       let (op1, destroyed) = wg_op_deinit (Some (fo_op r));
       h2 \<leftarrow> destroy_contexts destroyed (set_op h1 a \<lparr>fo_op = (case op1 of None \<Rightarrow> fo_op r | Some op2 \<Rightarrow> op2), fo_result = res1\<rparr>);
       h_free h2 a
     })"

text \<open>A request for the headers and a ping are not made in the browser.\<close>

definition fetch_url_head_wasm :: "string option \<Rightarrow> int \<Rightarrow> c_int" where
  "fetch_url_head_wasm url timeout_ms = 0"

section \<open>Requests that wait\<close>

text \<open>
  What the browser's \<^verbatim>\<open>fetch\<close> does: it fails, or there is a response with its bytes, its status and its
  \<^verbatim>\<open>ok\<close> flag.
\<close>

datatype js_response = FetchFails | FetchResponds "byte list" int bool

text \<open>The return code, the pointer and size written out, and the code written out.\<close>

definition fetch_url_jspi_download :: "js_response \<Rightarrow> fetch_heap \<Rightarrow> int \<times> ptr \<times> 32 word \<times> int \<times> fetch_heap" where
  "fetch_url_jspi_download response h = (case response of
     FetchFails \<Rightarrow> (-1, None, 0, 500, h)
   | FetchResponds body status ok \<Rightarrow>
       (case h_alloc h (FBytes (body @ [0])) of
          (None, h1) \<Rightarrow> (-2, None, 0, 500, h1)
        | (Some b, h1) \<Rightarrow> (0, Some b, word_of_nat (length body), if status \<noteq> 0 then status else if ok then 200 else 500, h1)))"

definition fetch_url_sync_wasm ::
  "(string \<Rightarrow> js_response) \<Rightarrow> string option \<Rightarrow> fetch_url_result option \<Rightarrow> fetch_heap \<Rightarrow>
     (c_int \<times> fetch_url_result option \<times> fetch_heap) option" where
  "fetch_url_sync_wasm browser url result h = (case result of
     None \<Rightarrow> Some (-1, None, h)
   | Some r \<Rightarrow> do {
       (r1, h1) \<leftarrow> fetch_url_result_reset_common r h;
       let target = (case url of None \<Rightarrow> [] | Some s \<Rightarrow> s);
       let r2 = r1\<lparr>fu_url := take (FETCH_URL_MAX_PATH_LENGTH - 1) target\<rparr>;
       let (rc, data_ptr, size1, status_code, h2) = fetch_url_jspi_download (browser target) h1;
       let r3 = (if rc = 0 then r2\<lparr>fu_data := data_ptr, fu_size := ucast size1, fu_code := status_code\<rparr>
                 else r2\<lparr>fu_data := None, fu_size := 0, fu_code := (if status_code > 0 then status_code else 500)\<rparr>);
       Some (fu_code r3, Some r3, h2)
     })"

definition fetch_url_with_path_sync_wasm ::
  "(string \<Rightarrow> js_response) \<Rightarrow> string option \<Rightarrow> string option \<Rightarrow> fetch_url_result option \<Rightarrow> fetch_heap \<Rightarrow>
     (c_int \<times> fetch_url_result option \<times> fetch_heap) option" where
  "fetch_url_with_path_sync_wasm browser host_url relative_path result h =
     (let (r, full_url) = fetch_url_join_path_common FETCH_URL_MAX_PATH_LENGTH host_url relative_path in
      if r \<noteq> 0 then
        (case result of
           None \<Rightarrow> Some (-1, None, h)
         | Some res \<Rightarrow> do {
             (res1, h1) \<leftarrow> fetch_url_result_reset_common res h;
             Some (-1, Some (res1\<lparr>fu_code := -1\<rparr>), h1)
           })
      else fetch_url_sync_wasm browser (Some full_url) result h)"

section \<open>The life of a request\<close>

text \<open>An operation, its context and nothing else besides \<open>base\<close>, and the body if there is one.\<close>

definition wasm_blocks :: "(addr \<Rightarrow> fetch_cell option) \<Rightarrow> addr \<Rightarrow> addr \<Rightarrow> wg_op_state \<Rightarrow> int \<Rightarrow> fetch_url_result \<Rightarrow> byte list \<Rightarrow> fetch_heap \<Rightarrow> bool" where
  "wasm_blocks base a c st code res body h \<longleftrightarrow> a \<noteq> c \<and> base a = None \<and> base c = None \<and>
     (\<forall>d. fu_data res = Some d \<longrightarrow> d \<noteq> a \<and> d \<noteq> c \<and> base d = None) \<and>
     hp_mem h = (case fu_data res of None \<Rightarrow> base | Some d \<Rightarrow> base(d \<mapsto> FBytes body))
       (c \<mapsto> FContext (Some a), a \<mapsto> FOp \<lparr>fo_op = \<lparr>op_kind = WG_OP_KIND_FETCH_URL, op_state = st, op_status_code = code,
           op_impl = Some c, op_destroy = True\<rparr>, fo_result = res\<rparr>)"

lemma wasm_async_blocks:
  assumes ok: "heap_ok h" and a: "fetch_url_async_wasm url h = Some (Some a, h1, user_data)"
  obtains c where "user_data = Some c" "heap_ok h1" "hp_oom h1 = hp_oom h"
    "wasm_blocks (hp_mem h) a c WG_OP_PENDING 0 (zero_result\<lparr>fu_url := take 255 (case url of None \<Rightarrow> [] | Some s \<Rightarrow> s)\<rparr>) [] h1"
proof -
  obtain h2 where h2: "h_alloc h (FOp zero_op) = (Some a, h2)"
    using a by (auto simp: fetch_url_async_wasm_def split: prod.splits option.splits Option.bind_splits)
  obtain c h3 where h3: "h_alloc h2 (FContext None) = (Some c, h3)"
    using a h2 by (auto simp: fetch_url_async_wasm_def split: prod.splits option.splits Option.bind_splits)
  from h2 have m2: "a = hp_brk h" "hp_mem h2 = (hp_mem h)(a \<mapsto> FOp zero_op)" "hp_brk h2 = Suc (hp_brk h)" "hp_oom h2 = hp_oom h" "heap_ok h2"
    by (rule alloc_SomeE; use ok in simp)+
  from h3 have m3: "c = hp_brk h2" "hp_mem h3 = (hp_mem h2)(c \<mapsto> FContext None)" "hp_brk h3 = Suc (hp_brk h2)" "hp_oom h3 = hp_oom h2" "heap_ok h3"
    by (rule alloc_SomeE; use m2(5) in simp)+
  have fresh: "hp_mem h a = None" "hp_mem h c = None" "a \<noteq> c" using ok m2(1,3) m3(1) by (simp_all add: heap_ok_def)
  have h1: "user_data = Some c" "h1 = h3\<lparr>hp_mem := (hp_mem h3)(c \<mapsto> FContext (Some a), a \<mapsto> FOp \<lparr>fo_op = \<lparr>op_kind = WG_OP_KIND_FETCH_URL,
      op_state = WG_OP_PENDING, op_status_code = 0, op_impl = Some c, op_destroy = True\<rparr>,
      fo_result = zero_result\<lparr>fu_url := take 255 (case url of None \<Rightarrow> [] | Some s \<Rightarrow> s)\<rparr>\<rparr>)\<rparr>"
    using a h2 h3 by (auto simp: fetch_url_async_wasm_def wg_op_init_def FETCH_URL_MAX_PATH_LENGTH_def Let_def)
  have "heap_ok h1" using m3(1,3,5) m2(1,3) unfolding h1(2) heap_ok_def by auto
  moreover have "hp_oom h1 = hp_oom h" using m2(4) m3(4) by (simp add: h1(2))
  moreover have "wasm_blocks (hp_mem h) a c WG_OP_PENDING 0 (zero_result\<lparr>fu_url := take 255 (case url of None \<Rightarrow> [] | Some s \<Rightarrow> s)\<rparr>) [] h1"
    using fresh m2(2) m3(2) by (auto simp: wasm_blocks_def h1(2) zero_result_def fun_eq_iff)
  ultimately show thesis using that h1(1) by simp
qed

lemma wasm_poll: "wasm_blocks base a c st code res body h \<Longrightarrow> fetch_url_poll_wasm (Some a) h = Some (st = WG_OP_DONE)"
  by (simp add: wasm_blocks_def fetch_url_poll_wasm_def fetch_url_poll_common_def op_at_def wg_op_is_done_def)

lemma wasm_free:
  assumes "wasm_blocks base a c st code res body h"
  shows "\<exists>h1. fetch_url_op_free_wasm (Some a) h = Some h1 \<and> hp_mem h1 = base"
  using assms by (cases "fu_data res")
    (auto simp: fetch_url_op_free_wasm_def wasm_blocks_def op_at_def wg_op_deinit_def fetch_url_context_destroy_def set_op_def
      fetch_url_result_reset_common_def c_free_def h_free_def fun_eq_iff)

lemma wasm_finish:
  assumes "wasm_blocks base a c WG_OP_DONE code res body h"
  shows "\<exists>h1. fetch_url_finish_wasm (Some a) (Some user) h = Some (0, Some res, h1) \<and>
    wasm_blocks (case fu_data res of None \<Rightarrow> base | Some d \<Rightarrow> base(d \<mapsto> FBytes body)) a c WG_OP_DONE code zero_result [] h1"
  using assms by (cases "fu_data res")
    (auto simp: fetch_url_finish_wasm_def wasm_blocks_def op_at_def wg_op_is_done_def set_op_def zero_result_def fun_eq_iff)

lemma wasm_finish_pending: "wasm_blocks base a c WG_OP_PENDING code res body h \<Longrightarrow>
    fetch_url_finish_wasm (Some a) (Some user) h = Some (1, Some user, h)"
  by (simp add: wasm_blocks_def fetch_url_finish_wasm_def op_at_def wg_op_is_done_def)

lemma wasm_success:
  assumes "wasm_blocks base a c WG_OP_PENDING code res old h" and "fu_data res = None" and "fu_size res = 0" and "heap_ok h"
  shows "\<exists>res1 h1. fetch_success (Some c) body status h = Some h1 \<and>
    wasm_blocks base a c WG_OP_DONE (fu_code res1) res1 (body @ [0]) h1 \<and> fu_url res1 = fu_url res \<and>
    (if hp_oom h (hp_brk h) then fu_data res1 = None \<and> fu_code res1 = 500 \<and> fu_size res1 = 0
     else fu_data res1 \<noteq> None \<and> fu_code res1 = status \<and> fu_size res1 = word_of_nat (length body))"
proof -
  have fresh: "hp_mem h (hp_brk h) = None" using assms(4) by (rule heap_ok_brk)
  let ?r1 = "res\<lparr>fu_data := None, fu_code := 500\<rparr>" and ?r2 = "res\<lparr>fu_data := Some (hp_brk h), fu_size := word_of_nat (length body), fu_code := status\<rparr>"
  show ?thesis
  proof (cases "hp_oom h (hp_brk h)")
    case True
    then show ?thesis using assms
      by (intro exI [of _ ?r1]) (auto simp: fetch_success_def context_at_def op_at_def h_alloc_def set_op_def complete_with_def wg_op_complete_def wasm_blocks_def)
  next
    case False
    then show ?thesis using assms fresh
      by (intro exI [of _ ?r2]) (auto simp: fetch_success_def context_at_def op_at_def h_alloc_def set_op_def complete_with_def wg_op_complete_def wasm_blocks_def fun_eq_iff split: if_splits)
  qed
qed

lemma wasm_error:
  assumes "wasm_blocks base a c WG_OP_PENDING code res old h" and "fu_data res = None"
  shows "\<exists>h1. fetch_error (Some c) status h = Some h1 \<and>
    wasm_blocks base a c WG_OP_DONE (if status > 0 then status else 500)
      (res\<lparr>fu_size := 0, fu_code := if status > 0 then status else 500\<rparr>) [] h1"
  using assms
  by (auto simp: fetch_error_def context_at_def op_at_def set_op_def complete_with_def wg_op_complete_def wasm_blocks_def)

text \<open>
  C40. A request in the background is pending until its callback runs, then done, whichever callback it is.
  With a response, finishing hands out the bytes of the body, their number and the status, or code 500
  where memory runs out; with an error, no data and the status, or 500 without one. Freeing the operation
  after it was finished leaves just the body; freeing it unfinished leaves the memory as it was.
\<close>

theorem fetch_wasm_request_life:
  assumes "heap_ok h" and "fetch_url_async_wasm url h = Some (Some op, h1, user_data)"
  shows "fetch_url_poll_wasm (Some op) h1 = Some False \<and> fetch_url_finish_wasm (Some op) (Some res) h1 = Some (1, Some res, h1) \<and>
    (\<exists>h2 r h3 h4 h5. fetch_success user_data body status h1 = Some h2 \<and> fetch_url_poll_wasm (Some op) h2 = Some True \<and>
       fetch_url_finish_wasm (Some op) (Some res) h2 = Some (0, Some r, h3) \<and> fetch_url_op_free_wasm (Some op) h3 = Some h4 \<and>
       fetch_url_op_free_wasm (Some op) h2 = Some h5 \<and> hp_mem h5 = hp_mem h \<and>
       (if hp_oom h1 (hp_brk h1) then fu_data r = None \<and> fu_code r = 500 \<and> hp_mem h4 = hp_mem h
        else fu_code r = status \<and> fu_size r = word_of_nat (length body) \<and>
          (\<exists>d. fu_data r = Some d \<and> hp_mem h d = None \<and> hp_mem h4 = (hp_mem h)(d \<mapsto> FBytes (body @ [0]))))) \<and>
    (\<exists>h2 r h3 h4. fetch_error user_data status h1 = Some h2 \<and> fetch_url_poll_wasm (Some op) h2 = Some True \<and>
       fetch_url_finish_wasm (Some op) (Some res) h2 = Some (0, Some r, h3) \<and> fetch_url_op_free_wasm (Some op) h3 = Some h4 \<and>
       fu_data r = None \<and> fu_code r = (if status > 0 then status else 500) \<and> hp_mem h4 = hp_mem h)"
proof -
  let ?r0 = "zero_result\<lparr>fu_url := take 255 (case url of None \<Rightarrow> [] | Some s \<Rightarrow> s)\<rparr>"
  have r0: "fu_data ?r0 = None" "fu_size ?r0 = 0" by (simp_all add: zero_result_def)
  obtain c where c: "user_data = Some c" "heap_ok h1" "wasm_blocks (hp_mem h) op c WG_OP_PENDING 0 ?r0 [] h1"
    by (rule wasm_async_blocks [OF assms])
  obtain r h2 where s: "fetch_success (Some c) body status h1 = Some h2" "wasm_blocks (hp_mem h) op c WG_OP_DONE (fu_code r) r (body @ [0]) h2"
    "if hp_oom h1 (hp_brk h1) then fu_data r = None \<and> fu_code r = 500 \<and> fu_size r = 0
     else fu_data r \<noteq> None \<and> fu_code r = status \<and> fu_size r = word_of_nat (length body)"
    using wasm_success [OF c(3) r0 c(2)] by blast
  obtain h3 where h3: "fetch_url_finish_wasm (Some op) (Some res) h2 = Some (0, Some r, h3)"
    "wasm_blocks (case fu_data r of None \<Rightarrow> hp_mem h | Some d \<Rightarrow> (hp_mem h)(d \<mapsto> FBytes (body @ [0]))) op c WG_OP_DONE (fu_code r) zero_result [] h3"
    using wasm_finish [OF s(2)] by blast
  obtain h4 where h4: "fetch_url_op_free_wasm (Some op) h3 = Some h4" "hp_mem h4 = (case fu_data r of None \<Rightarrow> hp_mem h | Some d \<Rightarrow> (hp_mem h)(d \<mapsto> FBytes (body @ [0])))"
    using wasm_free [OF h3(2)] by blast
  obtain h5 where h5: "fetch_url_op_free_wasm (Some op) h2 = Some h5" "hp_mem h5 = hp_mem h" using wasm_free [OF s(2)] by blast
  have free: "\<forall>d. fu_data r = Some d \<longrightarrow> hp_mem h d = None" using s(2) by (simp add: wasm_blocks_def)
  have result: "if hp_oom h1 (hp_brk h1) then fu_data r = None \<and> fu_code r = 500 \<and> hp_mem h4 = hp_mem h
      else fu_code r = status \<and> fu_size r = word_of_nat (length body) \<and>
        (\<exists>d. fu_data r = Some d \<and> hp_mem h d = None \<and> hp_mem h4 = (hp_mem h)(d \<mapsto> FBytes (body @ [0])))"
    using s(3) h4(2) free by (auto split: if_splits)
  let ?r = "?r0\<lparr>fu_size := 0, fu_code := if status > 0 then status else 500\<rparr>"
  obtain e2 where e2: "fetch_error (Some c) status h1 = Some e2"
    "wasm_blocks (hp_mem h) op c WG_OP_DONE (if status > 0 then status else 500) ?r [] e2" using wasm_error [OF c(3) r0(1)] by blast
  obtain e3 where e3: "fetch_url_finish_wasm (Some op) (Some res) e2 = Some (0, Some ?r, e3)"
    "wasm_blocks (hp_mem h) op c WG_OP_DONE (if status > 0 then status else 500) zero_result [] e3"
    using wasm_finish [OF e2(2), of res] r0(1) by auto
  obtain e4 where e4: "fetch_url_op_free_wasm (Some op) e3 = Some e4" "hp_mem e4 = hp_mem h" using wasm_free [OF e3(2)] by blast
  have "fetch_url_poll_wasm (Some op) h1 = Some False" "fetch_url_poll_wasm (Some op) h2 = Some True" "fetch_url_poll_wasm (Some op) e2 = Some True"
    using wasm_poll [OF c(3)] wasm_poll [OF s(2)] wasm_poll [OF e2(2)] by simp_all
  note polls = this
  have code: "fu_data ?r = None" "fu_code ?r = (if status > 0 then status else 500)" using r0(1) by simp_all
  show ?thesis unfolding c(1)
    apply (rule conjI, rule polls(1), rule conjI, rule wasm_finish_pending [OF c(3)], rule conjI)
     apply (rule exI [of _ h2], rule exI [of _ r], rule exI [of _ h3], rule exI [of _ h4], rule exI [of _ h5])
     apply (intro conjI s(1) polls(2) h3(1) h4(1) h5 result)
    apply (rule exI [of _ e2], rule exI [of _ ?r], rule exI [of _ e3], rule exI [of _ e4])
    apply (intro conjI e2(1) polls(3) e3(1) e4 code)
    done
qed

theorem fetch_wasm_request_life_witness:
  "\<exists>op h1 user_data h2. fetch_url_async_wasm (Some ''u'') empty_heap = Some (Some op, h1, user_data) \<and>
     fetch_success user_data [104, 105] 200 h1 = Some h2 \<and> fetch_url_poll_wasm (Some op) h2 = Some True"
proof -
  have "(case fetch_url_async_wasm (Some ''u'') empty_heap of Some (p, h1, u) \<Rightarrow> \<not> Option.is_none p | None \<Rightarrow> False)" by code_simp
  then obtain op h1 u where a: "fetch_url_async_wasm (Some ''u'') empty_heap = Some (Some op, h1, u)"
    by (auto simp: Option.is_none_def split: option.splits)
  have "heap_ok (empty_heap :: fetch_heap)" by simp
  from fetch_wasm_request_life [OF this a, where body = "[104, 105]" and status = 200 and res = zero_result]
  obtain h2 where "fetch_success u [104, 105] 200 h1 = Some h2" "fetch_url_poll_wasm (Some op) h2 = Some True" by (elim conjE exE) (rule that; assumption)
  then show ?thesis using a by (intro exI [of _ op] exI [of _ h1] exI [of _ u] exI [of _ h2] conjI)
qed

text \<open>
  Freeing an operation whose request is still under way is fatal: the free itself succeeds, and gives back
  all the memory, and then whichever callback comes reads the freed context.
\<close>

theorem fetch_wasm_free_while_pending_faults:
  assumes "heap_ok h" and "fetch_url_async_wasm url h = Some (Some op, h1, user_data)"
  shows "\<exists>h2. fetch_url_op_free_wasm (Some op) h1 = Some h2 \<and> hp_mem h2 = hp_mem h \<and>
    fetch_success user_data body status h2 = None \<and> fetch_error user_data status h2 = None"
proof -
  obtain c where c: "user_data = Some c" "wasm_blocks (hp_mem h) op c WG_OP_PENDING 0
      (zero_result\<lparr>fu_url := take 255 (case url of None \<Rightarrow> [] | Some s \<Rightarrow> s)\<rparr>) [] h1"
    by (rule wasm_async_blocks [OF assms])
  obtain h2 where h2: "fetch_url_op_free_wasm (Some op) h1 = Some h2" "hp_mem h2 = hp_mem h" using wasm_free [OF c(2)] by blast
  moreover have "hp_mem h2 c = None" using c(2) h2(2) by (simp add: wasm_blocks_def)
  ultimately show ?thesis using c(1) by (intro exI [of _ h2]) (simp add: fetch_success_def fetch_error_def context_at_def)
qed

theorem fetch_wasm_free_while_pending_faults_witness:
  "\<exists>op h1 user_data h2. fetch_url_async_wasm (Some ''u'') empty_heap = Some (Some op, h1, user_data) \<and>
     fetch_url_op_free_wasm (Some op) h1 = Some h2 \<and> fetch_success user_data [104] 200 h2 = None"
proof -
  have "(case fetch_url_async_wasm (Some ''u'') empty_heap of Some (p, h1, u) \<Rightarrow> \<not> Option.is_none p | None \<Rightarrow> False)" by code_simp
  then obtain op h1 u where a: "fetch_url_async_wasm (Some ''u'') empty_heap = Some (Some op, h1, u)"
    by (auto simp: Option.is_none_def split: option.splits)
  have "heap_ok (empty_heap :: fetch_heap)" by simp
  from fetch_wasm_free_while_pending_faults [OF this a, where body = "[104]" and status = 200]
  obtain h2 where "fetch_url_op_free_wasm (Some op) h1 = Some h2" "fetch_success u [104] 200 h2 = None" by (elim conjE exE) (rule that; assumption)
  then show ?thesis using a by (intro exI [of _ op] exI [of _ h1] exI [of _ u] exI [of _ h2] conjI)
qed

section \<open>Waiting for a response\<close>

text \<open>
  The waiting request hands out the body whatever the status, where the desktop build does for code 200
  only; it leaves no other block.
\<close>

lemma fetch_sync_wasm_spec:
  assumes ok: "heap_ok h" and r: "\<forall>a. fu_data r = Some a \<longrightarrow> hp_mem h a \<noteq> None"
  defines "base \<equiv> case fu_data r of None \<Rightarrow> hp_mem h | Some a \<Rightarrow> (hp_mem h)(a := None)"
  shows "\<exists>r1 h1. fetch_url_sync_wasm browser (Some url) (Some r) h = Some (fu_code r1, Some r1, h1) \<and> fu_url r1 = take 255 url \<and>
    (case browser url of
       FetchFails \<Rightarrow> fu_code r1 = 500 \<and> fu_data r1 = None \<and> hp_mem h1 = base
     | FetchResponds body status ok \<Rightarrow>
         (if hp_oom h (hp_brk h) then fu_code r1 = 500 \<and> fu_data r1 = None \<and> hp_mem h1 = base
          else fu_code r1 = (if status \<noteq> 0 then status else if ok then 200 else 500) \<and>
            (\<exists>d. fu_data r1 = Some d \<and> base d = None \<and> hp_mem h1 = base(d \<mapsto> FBytes (body @ [0])))))"
proof -
  obtain h1 where h1: "fetch_url_result_reset_common r h = Some (zero_result, h1)" "hp_mem h1 = base" "heap_ok h1" "hp_oom h1 = hp_oom h" "hp_brk h1 = hp_brk h"
    using reset_spec [OF ok r] unfolding base_def by blast
  have "base (hp_brk h) = None" using heap_ok_brk [OF h1(3)] h1(2,5) by simp
  then show ?thesis using h1
    by (cases "browser url") (auto simp: fetch_url_sync_wasm_def fetch_url_jspi_download_def h_alloc_def zero_result_def FETCH_URL_MAX_PATH_LENGTH_def Let_def)
qed

end
