(* ===== verification/CJson.thy ===== *)
theory CJson
  imports Prelude "HOL-Library.Monad_Syntax"
begin

text \<open>
  The part of the vendored \<^verbatim>\<open>src/vendor/cjson/cJSON.c\<close> that the wrapper of theory \<open>Json\<close> calls, but for
  the parser and the printer (theories \<open>CJsonParse\<close> and \<open>CJsonPrint\<close>): items, their tests, look-up, and building objects and arrays. An item is
  a cell of the heap with the links of the source; its strings, each a block of its own in the code, are kept in it as values,
  so that freeing an item is freeing them, and their own frees, under the flags of the item, are not part of the model. The same
  holds of the block that \<^verbatim>\<open>parse_string\<close> writes to before it belongs to an item.
  \<open>None\<close> is an access to an item that is not allocated, or a walk round a cycle of items.

  Floating-point numbers are a type of their own; what the code does with them is the record \<open>dbl_ops\<close>.
\<close>

section \<open>Data\<close>

definition cJSON_False :: "32 word" where "cJSON_False = push_bit 0 1"
definition cJSON_True :: "32 word" where "cJSON_True = push_bit 1 1"
definition cJSON_NULL :: "32 word" where "cJSON_NULL = push_bit 2 1"
definition cJSON_Number :: "32 word" where "cJSON_Number = push_bit 3 1"
definition cJSON_String :: "32 word" where "cJSON_String = push_bit 4 1"
definition cJSON_Array :: "32 word" where "cJSON_Array = push_bit 5 1"
definition cJSON_Object :: "32 word" where "cJSON_Object = push_bit 6 1"
definition cJSON_IsReference :: "32 word" where "cJSON_IsReference = 256"
definition cJSON_StringIsConst :: "32 word" where "cJSON_StringIsConst = 512"

record 'd cjson =
  cj_next :: ptr
  cj_prev :: ptr
  cj_child :: ptr
  cj_type :: "32 word"
  cj_valuestring :: "string option"
  cj_valueint :: c_int
  cj_valuedouble :: 'd
  cj_string :: "string option"

record 'd dbl_ops =
  dbl_zero :: 'd
  dbl_nan :: 'd
  dbl_ge :: "'d \<Rightarrow> int \<Rightarrow> bool"
  dbl_le :: "'d \<Rightarrow> int \<Rightarrow> bool"
  dbl_to_int :: "'d \<Rightarrow> int"

text \<open>The integer of a number, with saturation in case of overflow.\<close>

definition dbl_saturate :: "'d dbl_ops \<Rightarrow> 'd \<Rightarrow> c_int" where
  "dbl_saturate D num =
     (if dbl_ge D num (2 ^ 31 - 1) then 2 ^ 31 - 1 else if dbl_le D num (- (2 ^ 31)) then - (2 ^ 31) else dbl_to_int D num)"

definition zero_item :: "'d dbl_ops \<Rightarrow> 'd cjson" where
  "zero_item D = \<lparr>cj_next = None, cj_prev = None, cj_child = None, cj_type = 0, cj_valuestring = None, cj_valueint = 0,
     cj_valuedouble = dbl_zero D, cj_string = None\<rparr>"

definition h_set :: "'c heap \<Rightarrow> addr \<Rightarrow> 'c \<Rightarrow> 'c heap" where
  "h_set h a c = h\<lparr>hp_mem := (hp_mem h)(a \<mapsto> c)\<rparr>"

section \<open>Making and deleting items\<close>

definition cJSON_New_Item :: "'d dbl_ops \<Rightarrow> 'd cjson heap \<Rightarrow> ptr \<times> 'd cjson heap" where
  "cJSON_New_Item D h = h_alloc h (zero_item D)"

text \<open>The loop follows the \<open>next\<close> links, and calls itself for the children of each item.\<close>

partial_function (option) cJSON_Delete :: "ptr \<Rightarrow> 'd cjson heap \<Rightarrow> 'd cjson heap option" where
  "cJSON_Delete item h = (case item of
     None \<Rightarrow> Some h
   | Some a \<Rightarrow> do {
       c \<leftarrow> hp_mem h a;
       h1 \<leftarrow> (if and (cj_type c) cJSON_IsReference = 0 \<and> cj_child c \<noteq> None then cJSON_Delete (cj_child c) h else Some h);
       h2 \<leftarrow> h_free h1 a;
       cJSON_Delete (cj_next c) h2
     })"

definition cJSON_CreateNumber :: "'d dbl_ops \<Rightarrow> 'd \<Rightarrow> 'd cjson heap \<Rightarrow> ptr \<times> 'd cjson heap" where
  "cJSON_CreateNumber D num h = (case cJSON_New_Item D h of
     (None, h1) \<Rightarrow> (None, h1)
   | (Some a, h1) \<Rightarrow> (Some a, h_set h1 a ((zero_item D)\<lparr>cj_type := cJSON_Number, cj_valuedouble := num,
       cj_valueint := dbl_saturate D num\<rparr>)))"

text \<open>A boolean item; the value of \<^verbatim>\<open>cJSON_CreateBool\<close>.\<close>

definition cJSON_CreateBool :: "'d dbl_ops \<Rightarrow> bool \<Rightarrow> 'd cjson heap \<Rightarrow> ptr \<times> 'd cjson heap" where
  "cJSON_CreateBool D boolean h = (case cJSON_New_Item D h of
     (None, h1) \<Rightarrow> (None, h1)
   | (Some a, h1) \<Rightarrow> (Some a, h_set h1 a ((zero_item D)\<lparr>cj_type := (if boolean then cJSON_True else cJSON_False)\<rparr>)))"

definition cJSON_CreateString :: "'d dbl_ops \<Rightarrow> string option \<Rightarrow> 'd cjson heap \<Rightarrow> (ptr \<times> 'd cjson heap) option" where
  "cJSON_CreateString D s h = (case cJSON_New_Item D h of
     (None, h1) \<Rightarrow> Some (None, h1)
   | (Some a, h1) \<Rightarrow>
       (let (copied, h2) = (if s = None then (False, h1) else h_malloc h1);
            h3 = h_set h2 a ((zero_item D)\<lparr>cj_type := cJSON_String, cj_valuestring := (if copied then s else None)\<rparr>) in
        if \<not> copied then do { h4 \<leftarrow> cJSON_Delete (Some a) h3; Some (None, h4) } else Some (Some a, h3)))"

definition cJSON_CreateArray :: "'d dbl_ops \<Rightarrow> 'd cjson heap \<Rightarrow> ptr \<times> 'd cjson heap" where
  "cJSON_CreateArray D h = (case cJSON_New_Item D h of
     (None, h1) \<Rightarrow> (None, h1)
   | (Some a, h1) \<Rightarrow> (Some a, h_set h1 a ((zero_item D)\<lparr>cj_type := cJSON_Array\<rparr>)))"

definition cJSON_CreateObject :: "'d dbl_ops \<Rightarrow> 'd cjson heap \<Rightarrow> ptr \<times> 'd cjson heap" where
  "cJSON_CreateObject D h = (case cJSON_New_Item D h of
     (None, h1) \<Rightarrow> (None, h1)
   | (Some a, h1) \<Rightarrow> (Some a, h_set h1 a ((zero_item D)\<lparr>cj_type := cJSON_Object\<rparr>)))"

section \<open>Reading\<close>

definition type_test :: "('d cjson \<Rightarrow> bool) \<Rightarrow> ptr \<Rightarrow> 'd cjson heap \<Rightarrow> bool option" where
  "type_test P item h = (case item of None \<Rightarrow> Some False | Some a \<Rightarrow> do { c \<leftarrow> hp_mem h a; Some (P c) })"

definition cJSON_IsTrue :: "ptr \<Rightarrow> 'd cjson heap \<Rightarrow> bool option" where
  "cJSON_IsTrue = type_test (\<lambda>c. and (cj_type c) 0xFF = cJSON_True)"

definition cJSON_IsBool :: "ptr \<Rightarrow> 'd cjson heap \<Rightarrow> bool option" where
  "cJSON_IsBool = type_test (\<lambda>c. and (cj_type c) (or cJSON_True cJSON_False) \<noteq> 0)"

definition cJSON_IsNumber :: "ptr \<Rightarrow> 'd cjson heap \<Rightarrow> bool option" where
  "cJSON_IsNumber = type_test (\<lambda>c. and (cj_type c) 0xFF = cJSON_Number)"

definition cJSON_IsString :: "ptr \<Rightarrow> 'd cjson heap \<Rightarrow> bool option" where
  "cJSON_IsString = type_test (\<lambda>c. and (cj_type c) 0xFF = cJSON_String)"

definition cJSON_IsArray :: "ptr \<Rightarrow> 'd cjson heap \<Rightarrow> bool option" where
  "cJSON_IsArray = type_test (\<lambda>c. and (cj_type c) 0xFF = cJSON_Array)"

definition cJSON_IsObject :: "ptr \<Rightarrow> 'd cjson heap \<Rightarrow> bool option" where
  "cJSON_IsObject = type_test (\<lambda>c. and (cj_type c) 0xFF = cJSON_Object)"

definition cJSON_GetStringValue :: "ptr \<Rightarrow> 'd cjson heap \<Rightarrow> string option option" where
  "cJSON_GetStringValue item h = do {
     is_s \<leftarrow> cJSON_IsString item h;
     (if \<not> is_s then Some None
      else do { a \<leftarrow> item; c \<leftarrow> hp_mem h a; Some (cj_valuestring c) })
   }"

definition cJSON_GetNumberValue :: "'d dbl_ops \<Rightarrow> ptr \<Rightarrow> 'd cjson heap \<Rightarrow> 'd option" where
  "cJSON_GetNumberValue D item h = do {
     is_n \<leftarrow> cJSON_IsNumber item h;
     (if \<not> is_n then Some (dbl_nan D)
      else do { a \<leftarrow> item; c \<leftarrow> hp_mem h a; Some (cj_valuedouble c) })
   }"

partial_function (option) array_size_loop :: "'d cjson heap \<Rightarrow> ptr \<Rightarrow> nat \<Rightarrow> nat option" where
  "array_size_loop h child n = (case child of
     None \<Rightarrow> Some n
   | Some a \<Rightarrow> do { c \<leftarrow> hp_mem h a; array_size_loop h (cj_next c) (Suc n) })"

definition cJSON_GetArraySize :: "ptr \<Rightarrow> 'd cjson heap \<Rightarrow> c_int option" where
  "cJSON_GetArraySize array h = (case array of
     None \<Rightarrow> Some 0
   | Some a \<Rightarrow> do { c \<leftarrow> hp_mem h a; n \<leftarrow> array_size_loop h (cj_child c) 0; Some (sint (word_of_nat n :: 32 word)) })"

fun array_item_loop :: "'d cjson heap \<Rightarrow> ptr \<Rightarrow> nat \<Rightarrow> ptr option" where
  "array_item_loop h None index = Some None"
| "array_item_loop h (Some a) 0 = Some (Some a)"
| "array_item_loop h (Some a) (Suc index) = do { c \<leftarrow> hp_mem h a; array_item_loop h (cj_next c) index }"

definition cJSON_GetArrayItem :: "ptr \<Rightarrow> int \<Rightarrow> 'd cjson heap \<Rightarrow> ptr option" where
  "cJSON_GetArrayItem array index h =
     (if index < 0 then Some None
      else (case array of None \<Rightarrow> Some None | Some a \<Rightarrow> do { c \<leftarrow> hp_mem h a; array_item_loop h (cj_child c) (nat index) }))"

text \<open>The walk stops at the name, at the end, and at an item without a name; the last counts as not found.\<close>

partial_function (option) object_item_loop :: "'d cjson heap \<Rightarrow> string \<Rightarrow> ptr \<Rightarrow> ptr option" where
  "object_item_loop h name current = (case current of
     None \<Rightarrow> Some None
   | Some a \<Rightarrow> do {
       c \<leftarrow> hp_mem h a;
       (case cj_string c of
          None \<Rightarrow> Some None
        | Some s \<Rightarrow> if s = name then Some (Some a) else object_item_loop h name (cj_next c))
     })"

definition cJSON_GetObjectItemCaseSensitive :: "ptr \<Rightarrow> string option \<Rightarrow> 'd cjson heap \<Rightarrow> ptr option" where
  "cJSON_GetObjectItemCaseSensitive object name h = (case (object, name) of
     (Some a, Some n) \<Rightarrow> do { c \<leftarrow> hp_mem h a; object_item_loop h n (cj_child c) }
   | _ \<Rightarrow> Some None)"

section \<open>Building\<close>

definition add_item_to_array :: "ptr \<Rightarrow> ptr \<Rightarrow> 'd cjson heap \<Rightarrow> (bool \<times> 'd cjson heap) option" where
  "add_item_to_array array item h = (case (item, array) of
     (Some i, Some a) \<Rightarrow>
       if a = i then Some (False, h)
       else do {
         ca \<leftarrow> hp_mem h a;
         (case cj_child ca of
            None \<Rightarrow> do {
              h1 \<leftarrow> h_modify (h_set h a (ca\<lparr>cj_child := Some i\<rparr>)) i (\<lambda>c. c\<lparr>cj_prev := Some i, cj_next := None\<rparr>);
              Some (True, h1)
            }
          | Some f \<Rightarrow> do {
              cf \<leftarrow> hp_mem h f;
              (case cj_prev cf of
                 None \<Rightarrow> Some (True, h)
               | Some l \<Rightarrow> do {
                   h1 \<leftarrow> h_modify h l (\<lambda>c. c\<lparr>cj_next := Some i\<rparr>);
                   h2 \<leftarrow> h_modify h1 i (\<lambda>c. c\<lparr>cj_prev := Some l\<rparr>);
                   ca2 \<leftarrow> hp_mem h2 a;
                   f2 \<leftarrow> cj_child ca2;
                   h3 \<leftarrow> h_modify h2 f2 (\<lambda>c. c\<lparr>cj_prev := Some i\<rparr>);
                   Some (True, h3)
                 })
            })
       }
   | _ \<Rightarrow> Some (False, h))"

definition add_item_to_object :: "ptr \<Rightarrow> string option \<Rightarrow> ptr \<Rightarrow> 'd cjson heap \<Rightarrow> (bool \<times> 'd cjson heap) option" where
  "add_item_to_object object name item h = (case (object, name, item) of
     (Some a, Some n, Some i) \<Rightarrow>
       if a = i then Some (False, h)
       else
         (let (copied, h1) = h_malloc h in
          if \<not> copied then Some (False, h1)
          else do {
            h2 \<leftarrow> h_modify h1 i (\<lambda>c. c\<lparr>cj_string := Some n, cj_type := and (cj_type c) (not cJSON_StringIsConst)\<rparr>);
            add_item_to_array object item h2
          })
   | _ \<Rightarrow> Some (False, h))"

text \<open>The pattern of the three functions that make an item and add it, or delete it again.\<close>

definition add_new_item :: "ptr \<Rightarrow> string option \<Rightarrow> ptr \<times> 'd cjson heap \<Rightarrow> (ptr \<times> 'd cjson heap) option" where
  "add_new_item object name item_h = (case item_h of (item, h) \<Rightarrow> do {
     (added, h1) \<leftarrow> add_item_to_object object name item h;
     (if added then Some (item, h1) else do { h2 \<leftarrow> cJSON_Delete item h1; Some (None, h2) })
   })"

definition cJSON_AddBoolToObject :: "'d dbl_ops \<Rightarrow> ptr \<Rightarrow> string option \<Rightarrow> bool \<Rightarrow> 'd cjson heap \<Rightarrow> (ptr \<times> 'd cjson heap) option" where
  "cJSON_AddBoolToObject D object name boolean h = add_new_item object name (cJSON_CreateBool D boolean h)"

definition cJSON_AddNumberToObject :: "'d dbl_ops \<Rightarrow> ptr \<Rightarrow> string option \<Rightarrow> 'd \<Rightarrow> 'd cjson heap \<Rightarrow> (ptr \<times> 'd cjson heap) option" where
  "cJSON_AddNumberToObject D object name number h = add_new_item object name (cJSON_CreateNumber D number h)"

definition cJSON_AddStringToObject :: "'d dbl_ops \<Rightarrow> ptr \<Rightarrow> string option \<Rightarrow> string option \<Rightarrow> 'd cjson heap \<Rightarrow> (ptr \<times> 'd cjson heap) option" where
  "cJSON_AddStringToObject D object name s h = do { r \<leftarrow> cJSON_CreateString D s h; add_new_item object name r }"

end
