(* ===== verification/Json.thy ===== *)
theory Json
  imports CJson
begin

text \<open>
  The JSON wrapper, \<^verbatim>\<open>src/json/json.c\<close>: each function passes a value, which is an item, to the library of
  theory \<open>CJson\<close>; the functions that read a member of an object test its type first. An out parameter is
  \<open>None\<close> for \<open>NULL\<close>, otherwise what it holds. Parsing and
  printing are in theory \<open>JsonIo\<close>.

  Then what the wrapper guarantees: objects are lists of members in the order they were added, of which the
  first with a name counts, and a member is read only as what it is.
\<close>

section \<open>Reading\<close>

definition json_delete :: "ptr \<Rightarrow> 'd cjson heap \<Rightarrow> 'd cjson heap option" where
  "json_delete v h = cJSON_Delete v h"

definition json_object_get :: "'d cjson heap \<Rightarrow> ptr \<Rightarrow> string option \<Rightarrow> ptr option" where
  "json_object_get h object key = cJSON_GetObjectItemCaseSensitive object key h"

definition json_object_get_mut :: "'d cjson heap \<Rightarrow> ptr \<Rightarrow> string option \<Rightarrow> ptr option" where
  "json_object_get_mut h object key = cJSON_GetObjectItemCaseSensitive object key h"

definition json_is_array :: "'d cjson heap \<Rightarrow> ptr \<Rightarrow> bool option" where
  "json_is_array h v = cJSON_IsArray v h"

definition json_is_object :: "'d cjson heap \<Rightarrow> ptr \<Rightarrow> bool option" where
  "json_is_object h v = cJSON_IsObject v h"

definition json_is_string :: "'d cjson heap \<Rightarrow> ptr \<Rightarrow> bool option" where
  "json_is_string h v = cJSON_IsString v h"

definition json_is_number :: "'d cjson heap \<Rightarrow> ptr \<Rightarrow> bool option" where
  "json_is_number h v = cJSON_IsNumber v h"

definition json_is_bool :: "'d cjson heap \<Rightarrow> ptr \<Rightarrow> bool option" where
  "json_is_bool h v = cJSON_IsBool v h"

definition json_get_string :: "'d cjson heap \<Rightarrow> ptr \<Rightarrow> string option option" where
  "json_get_string h v = cJSON_GetStringValue v h"

definition json_get_number :: "'d dbl_ops \<Rightarrow> 'd cjson heap \<Rightarrow> ptr \<Rightarrow> 'd option" where
  "json_get_number D h v = cJSON_GetNumberValue D v h"

definition json_get_int :: "'d cjson heap \<Rightarrow> ptr \<Rightarrow> c_int option" where
  "json_get_int h v = (case v of None \<Rightarrow> Some 0 | Some a \<Rightarrow> do { c \<leftarrow> hp_mem h a; Some (cj_valueint c) })"

definition json_get_bool :: "'d cjson heap \<Rightarrow> ptr \<Rightarrow> bool option" where
  "json_get_bool h v = cJSON_IsTrue v h"

definition json_object_get_string_value :: "'d cjson heap \<Rightarrow> ptr \<Rightarrow> string option \<Rightarrow> string option \<Rightarrow> (bool \<times> string option) option" where
  "json_object_get_string_value h object key out_value = do {
     v \<leftarrow> json_object_get h object key;
     t \<leftarrow> json_is_string h v;
     (if \<not> t \<or> out_value = None then Some (False, out_value)
      else do {
        string_value \<leftarrow> json_get_string h v;
        (case string_value of None \<Rightarrow> Some (False, out_value) | Some s \<Rightarrow> Some (True, Some s))
      })
   }"

definition json_object_get_number_value :: "'d dbl_ops \<Rightarrow> 'd cjson heap \<Rightarrow> ptr \<Rightarrow> string option \<Rightarrow> 'd option \<Rightarrow> (bool \<times> 'd option) option" where
  "json_object_get_number_value D h object key out_value = do {
     v \<leftarrow> json_object_get h object key;
     t \<leftarrow> json_is_number h v;
     (if \<not> t \<or> Option.is_none out_value then Some (False, out_value)
      else do { x \<leftarrow> json_get_number D h v; Some (True, Some x) })
   }"

definition json_object_get_int_value :: "'d cjson heap \<Rightarrow> ptr \<Rightarrow> string option \<Rightarrow> c_int option \<Rightarrow> (bool \<times> c_int option) option" where
  "json_object_get_int_value h object key out_value = do {
     v \<leftarrow> json_object_get h object key;
     t \<leftarrow> json_is_number h v;
     (if \<not> t \<or> out_value = None then Some (False, out_value)
      else do { x \<leftarrow> json_get_int h v; Some (True, Some x) })
   }"

definition json_object_get_bool_value :: "'d cjson heap \<Rightarrow> ptr \<Rightarrow> string option \<Rightarrow> bool option \<Rightarrow> (bool \<times> bool option) option" where
  "json_object_get_bool_value h object key out_value = do {
     v \<leftarrow> json_object_get h object key;
     t \<leftarrow> json_is_bool h v;
     (if \<not> t \<or> out_value = None then Some (False, out_value)
      else do { x \<leftarrow> json_get_bool h v; Some (True, Some x) })
   }"

definition json_array_size :: "'d cjson heap \<Rightarrow> ptr \<Rightarrow> c_int option" where
  "json_array_size h array = cJSON_GetArraySize array h"

definition json_array_get :: "'d cjson heap \<Rightarrow> ptr \<Rightarrow> int \<Rightarrow> ptr option" where
  "json_array_get h array index = cJSON_GetArrayItem array index h"

section \<open>Building\<close>

definition json_create_object :: "'d dbl_ops \<Rightarrow> 'd cjson heap \<Rightarrow> ptr \<times> 'd cjson heap" where
  "json_create_object D h = cJSON_CreateObject D h"

definition json_create_array :: "'d dbl_ops \<Rightarrow> 'd cjson heap \<Rightarrow> ptr \<times> 'd cjson heap" where
  "json_create_array D h = cJSON_CreateArray D h"

definition json_create_number :: "'d dbl_ops \<Rightarrow> 'd \<Rightarrow> 'd cjson heap \<Rightarrow> ptr \<times> 'd cjson heap" where
  "json_create_number D number h = cJSON_CreateNumber D number h"

definition json_add_number_to_object :: "'d dbl_ops \<Rightarrow> ptr \<Rightarrow> string option \<Rightarrow> 'd \<Rightarrow> 'd cjson heap \<Rightarrow> (ptr \<times> 'd cjson heap) option" where
  "json_add_number_to_object D object name number h = cJSON_AddNumberToObject D object name number h"

definition json_add_bool_to_object :: "'d dbl_ops \<Rightarrow> ptr \<Rightarrow> string option \<Rightarrow> bool \<Rightarrow> 'd cjson heap \<Rightarrow> (ptr \<times> 'd cjson heap) option" where
  "json_add_bool_to_object D object name boolean h = cJSON_AddBoolToObject D object name boolean h"

definition json_add_string_to_object :: "'d dbl_ops \<Rightarrow> ptr \<Rightarrow> string option \<Rightarrow> string option \<Rightarrow> 'd cjson heap \<Rightarrow> (ptr \<times> 'd cjson heap) option" where
  "json_add_string_to_object D object name s h = cJSON_AddStringToObject D object name s h"

definition json_add_item_to_object :: "ptr \<Rightarrow> string option \<Rightarrow> ptr \<Rightarrow> 'd cjson heap \<Rightarrow> (c_int \<times> 'd cjson heap) option" where
  "json_add_item_to_object object name item h = do { (added, h1) \<leftarrow> add_item_to_object object name item h; Some (if added then 0 else -1, h1) }"

definition json_add_item_to_array :: "ptr \<Rightarrow> ptr \<Rightarrow> 'd cjson heap \<Rightarrow> (c_int \<times> 'd cjson heap) option" where
  "json_add_item_to_array array item h = do { (added, h1) \<leftarrow> add_item_to_array array item h; Some (if added then 0 else -1, h1) }"

section \<open>Members\<close>

text \<open>The items of an object: a chain that ends, with the first item pointing back to the last.\<close>

primrec kids :: "(addr \<Rightarrow> 'd cjson option) \<Rightarrow> ptr \<Rightarrow> (addr \<times> 'd cjson) list \<Rightarrow> bool" where
  "kids m p [] \<longleftrightarrow> p = None"
| "kids m p (x # xs) \<longleftrightarrow> p = Some (fst x) \<and> m (fst x) = Some (snd x) \<and> kids m (cj_next (snd x)) xs"

definition is_object_item :: "'d cjson \<Rightarrow> bool" where
  "is_object_item c \<longleftrightarrow> and (cj_type c) 0xFF = cJSON_Object \<and> and (cj_type c) cJSON_IsReference = 0"

lemma is_object_item_child [simp]: "is_object_item (c\<lparr>cj_child := p\<rparr>) = is_object_item c"
  by (simp add: is_object_item_def)

definition members :: "'d cjson heap \<Rightarrow> addr \<Rightarrow> (addr \<times> 'd cjson) list \<Rightarrow> bool" where
  "members h a xs \<longleftrightarrow> heap_ok h \<and> (\<exists>c. hp_mem h a = Some c \<and> kids (hp_mem h) (cj_child c) xs \<and> is_object_item c) \<and> distinct (a # map fst xs) \<and>
     (xs \<noteq> [] \<longrightarrow> cj_prev (snd (hd xs)) = Some (fst (last xs)))"

text \<open>What a member is, apart from its links.\<close>

datatype 'd member = Member "string option" "32 word" "string option" c_int 'd ptr

definition member_of :: "addr \<times> 'd cjson \<Rightarrow> addr \<times> 'd member" where
  "member_of x = (fst x, Member (cj_string (snd x)) (cj_type (snd x)) (cj_valuestring (snd x)) (cj_valueint (snd x)) (cj_valuedouble (snd x)) (cj_child (snd x)))"

fun member_name :: "addr \<times> 'd member \<Rightarrow> string option" where
  "member_name (a, Member k t s i d c) = k"

text \<open>An object with the members \<open>ms\<close>, all of which have names.\<close>

definition json_object_at :: "'d cjson heap \<Rightarrow> addr \<Rightarrow> (addr \<times> 'd member) list \<Rightarrow> bool" where
  "json_object_at h a ms \<longleftrightarrow> (\<exists>xs. members h a xs \<and> map member_of xs = ms) \<and> (\<forall>x \<in> set ms. member_name x \<noteq> None)"

lemma member_name_of [simp]: "member_name (member_of x) = cj_string (snd x)"
  by (simp add: member_of_def)

lemma kids_mapped: "kids m p xs \<Longrightarrow> x \<in> set xs \<Longrightarrow> m (fst x) = Some (snd x)"
  by (induction xs arbitrary: p) auto

lemma kids_cong: "kids m p xs \<Longrightarrow> (\<And>x. x \<in> set xs \<Longrightarrow> m' (fst x) = m (fst x)) \<Longrightarrow> kids m' p xs"
  by (induction xs arbitrary: p) auto

lemma object_item_found:
  assumes "kids (hp_mem h) p xs" and "\<forall>x \<in> set xs. cj_string (snd x) \<noteq> None"
  shows "object_item_loop h k p = Some (map_option fst (find (\<lambda>x. cj_string (snd x) = Some k) xs))"
  using assms
proof (induction xs arbitrary: p)
  case Nil
  then show ?case by (subst object_item_loop.simps) simp
next
  case (Cons x xs)
  obtain s where "cj_string (snd x) = Some s" using Cons.prems(2) by auto
  then show ?case using Cons by (subst object_item_loop.simps) simp
qed

lemma array_size_kids: "kids (hp_mem h) p xs \<Longrightarrow> array_size_loop h p n = Some (n + length xs)"
  by (induction xs arbitrary: p n; subst array_size_loop.simps) simp_all

lemma array_item_kids: "kids (hp_mem h) p xs \<Longrightarrow> array_item_loop h p n = Some (if n < length xs then Some (fst (xs ! n)) else None)"
proof (induction xs arbitrary: p n)
  case (Cons x xs)
  then show ?case by (cases n) simp_all
qed simp

lemma find_member: "map member_of xs = ms \<Longrightarrow>
    find (\<lambda>x. member_name x = Some k) ms = map_option member_of (find (\<lambda>x. cj_string (snd x) = Some k) xs)"
  by (induction xs arbitrary: ms) auto

lemma json_object_atE:
  assumes "json_object_at h a ms"
  obtains xs c where "map member_of xs = ms" "hp_mem h a = Some c" "kids (hp_mem h) (cj_child c) xs"
    "\<forall>x \<in> set xs. cj_string (snd x) \<noteq> None" "heap_ok h" "distinct (a # map fst xs)"
    "xs \<noteq> [] \<longrightarrow> cj_prev (snd (hd xs)) = Some (fst (last xs))" "is_object_item c"
proof -
  obtain xs where xs: "members h a xs" "map member_of xs = ms" "\<forall>x \<in> set ms. member_name x \<noteq> None"
    using assms unfolding json_object_at_def by blast
  have "\<forall>x \<in> set xs. cj_string (snd x) \<noteq> None" unfolding member_name_of [symmetric] using xs(2,3) by fastforce
  with xs show thesis using that unfolding members_def by blast
qed

lemma json_get_member:
  assumes "json_object_at h a ms"
  shows "json_object_get h (Some a) (Some k) = Some (map_option fst (find (\<lambda>x. member_name x = Some k) ms))"
proof -
  from assms obtain xs c where x: "map member_of xs = ms" "hp_mem h a = Some c" "kids (hp_mem h) (cj_child c) xs"
    and named: "\<forall>x \<in> set xs. cj_string (snd x) \<noteq> None" by (rule json_object_atE)
  show ?thesis using object_item_found [OF x(3) named, of k] x(2) unfolding find_member [OF x(1)]
    by (simp add: json_object_get_def cJSON_GetObjectItemCaseSensitive_def option.map_comp comp_def member_of_def)
qed

lemma json_member_cell:
  fixes h :: "'d cjson heap"
  assumes "json_object_at h a ms" and "(b, Member k t s i d c) \<in> set ms"
  shows "\<exists>x. hp_mem h b = Some x \<and> cj_string x = k \<and> cj_type x = t \<and> cj_valuestring x = s \<and> cj_valueint x = i \<and> cj_valuedouble x = d"
proof -
  from assms(1) obtain xs and ca :: "'d cjson" where x: "map member_of xs = ms" "kids (hp_mem h) (cj_child ca) xs" by (rule json_object_atE)
  obtain y where y: "y \<in> set xs" "member_of y = (b, Member k t s i d c)" using assms(2) x(1) by auto
  then show ?thesis using kids_mapped [OF x(2) y(1)] by (auto simp: member_of_def)
qed

lemma typed_access:
  assumes "json_object_at h a ms"
  shows "case find (\<lambda>x. member_name x = Some k) ms of
      None \<Rightarrow> json_object_get_string_value h (Some a) (Some k) (Some s0) = Some (False, Some s0) \<and>
        json_object_get_number_value D h (Some a) (Some k) (Some d0) = Some (False, Some d0) \<and>
        json_object_get_int_value h (Some a) (Some k) (Some i0) = Some (False, Some i0) \<and>
        json_object_get_bool_value h (Some a) (Some k) (Some b0) = Some (False, Some b0)
    | Some (b, Member _ t s i d _) \<Rightarrow>
        json_object_get_string_value h (Some a) (Some k) (Some s0) =
          Some (if and t 0xFF = cJSON_String \<and> s \<noteq> None then (True, s) else (False, Some s0)) \<and>
        json_object_get_number_value D h (Some a) (Some k) (Some d0) =
          Some (if and t 0xFF = cJSON_Number then (True, Some d) else (False, Some d0)) \<and>
        json_object_get_int_value h (Some a) (Some k) (Some i0) =
          Some (if and t 0xFF = cJSON_Number then (True, Some i) else (False, Some i0)) \<and>
        json_object_get_bool_value h (Some a) (Some k) (Some b0) =
          Some (if and t (or cJSON_True cJSON_False) \<noteq> 0 then (True, Some (and t 0xFF = cJSON_True)) else (False, Some b0))"
proof (cases "find (\<lambda>x. member_name x = Some k) ms")
  case None
  then show ?thesis using json_get_member [OF assms, of k]
    by (simp add: json_object_get_string_value_def json_object_get_number_value_def json_object_get_int_value_def json_object_get_bool_value_def
        json_is_string_def json_is_number_def json_is_bool_def cJSON_IsString_def cJSON_IsNumber_def cJSON_IsBool_def type_test_def)
next
  case (Some x)
  obtain b k' t s i d c where x: "x = (b, Member k' t s i d c)" by (metis member.exhaust prod.exhaust)
  have "x \<in> set ms" using Some by (metis find_Some_iff nth_mem)
  then obtain y where y: "hp_mem h b = Some y" "cj_type y = t" "cj_valuestring y = s" "cj_valueint y = i" "cj_valuedouble y = d"
    using json_member_cell [OF assms] x by blast
  have get: "json_object_get h (Some a) (Some k) = Some (Some b)" using json_get_member [OF assms, of k] Some x by simp
  show ?thesis unfolding Some option.case x prod.case member.case
    using get y
    by (simp add: json_object_get_string_value_def json_object_get_number_value_def json_object_get_int_value_def json_object_get_bool_value_def
        json_is_string_def json_is_number_def json_is_bool_def cJSON_IsString_def cJSON_IsNumber_def cJSON_IsBool_def type_test_def
        json_get_string_def json_get_number_def json_get_int_def json_get_bool_def cJSON_GetStringValue_def cJSON_GetNumberValue_def cJSON_IsTrue_def
        split: option.split)
qed

text \<open>
  C33. A member is read only as what it is. Of an object the first member with the name counts; reading it as a
  string, a number, an integer or a boolean succeeds exactly when it is a string with a text, a number, a number
  or a boolean, gives that value, and otherwise, or without a member of the name, reports failure and
  leaves the caller's variable alone.
\<close>

theorem json_typed_access:
  assumes "json_object_at h a ms"
  shows "case find (\<lambda>x. member_name x = Some k) ms of
      None \<Rightarrow> json_object_get_string_value h (Some a) (Some k) (Some s0) = Some (False, Some s0) \<and>
        json_object_get_number_value D h (Some a) (Some k) (Some d0) = Some (False, Some d0) \<and>
        json_object_get_int_value h (Some a) (Some k) (Some i0) = Some (False, Some i0) \<and>
        json_object_get_bool_value h (Some a) (Some k) (Some b0) = Some (False, Some b0)
    | Some (b, Member _ t s i d _) \<Rightarrow>
        json_object_get_string_value h (Some a) (Some k) (Some s0) =
          Some (if and t 0xFF = cJSON_String \<and> s \<noteq> None then (True, s) else (False, Some s0)) \<and>
        json_object_get_number_value D h (Some a) (Some k) (Some d0) =
          Some (if and t 0xFF = cJSON_Number then (True, Some d) else (False, Some d0)) \<and>
        json_object_get_int_value h (Some a) (Some k) (Some i0) =
          Some (if and t 0xFF = cJSON_Number then (True, Some i) else (False, Some i0)) \<and>
        json_object_get_bool_value h (Some a) (Some k) (Some b0) =
          Some (if and t (or cJSON_True cJSON_False) \<noteq> 0 then (True, Some (and t 0xFF = cJSON_True)) else (False, Some b0))"
  by (rule typed_access [OF assms])

section \<open>Adding members\<close>

lemma json_object_at_frame:
  assumes "json_object_at h a ms" and "heap_ok h'" and "\<forall>b. hp_mem h b \<noteq> None \<longrightarrow> hp_mem h' b = hp_mem h b"
  shows "json_object_at h' a ms"
proof -
  from assms(1) obtain xs c where x: "map member_of xs = ms" "hp_mem h a = Some c" "kids (hp_mem h) (cj_child c) xs"
    "\<forall>x \<in> set xs. cj_string (snd x) \<noteq> None" "distinct (a # map fst xs)" "xs \<noteq> [] \<longrightarrow> cj_prev (snd (hd xs)) = Some (fst (last xs))"
    "is_object_item c"
    by (rule json_object_atE)
  have "hp_mem h' (fst y) = hp_mem h (fst y)" if "y \<in> set xs" for y using kids_mapped [OF x(3) that] assms(3) by simp
  then have "kids (hp_mem h') (cj_child c) xs" by (rule kids_cong [OF x(3)])
  then have "members h' a xs" using x assms(2,3) by (simp add: members_def)
  moreover have "\<forall>y \<in> set ms. member_name y \<noteq> None" using x(4) unfolding x(1) [symmetric] by simp
  ultimately show ?thesis using x(1) unfolding json_object_at_def by blast
qed

text \<open>Putting one more item at the end of a chain.\<close>

lemma kids_relink:
  assumes "kids m p xs" and "xs \<noteq> []" and "distinct (map fst xs)"
    and "\<forall>x \<in> set xs. \<exists>c. m' (fst x) = Some c \<and> cj_next c = (if fst x = fst (last xs) then Some i else cj_next (snd x))"
    and "m' i = Some ci" and "cj_next ci = None"
  shows "kids m' p (map (\<lambda>x. (fst x, the (m' (fst x)))) xs @ [(i, ci)])"
  using assms
proof (induction xs arbitrary: p)
  case (Cons x xs)
  show ?case
  proof (cases "xs = []")
    case True
    then show ?thesis using Cons.prems by auto
  next
    case False
    then have "fst (last xs) \<in> fst ` set xs" by simp
    then have "fst x \<noteq> fst (last xs)" using Cons.prems(3) by (metis distinct.simps(2) list.map(2) list.set_map)
    then show ?thesis using Cons.IH [of "cj_next (snd x)"] Cons.prems False by auto
  qed
qed simp

lemma hd_last_in: "xs \<noteq> [] \<Longrightarrow> fst (hd xs) \<in> fst ` set xs \<and> fst (last xs) \<in> fst ` set xs"
  by simp

lemma add_item_spec:
  assumes ms: "members h a xs" and i: "hp_mem h i = Some ci" "cj_next ci = None" "i \<noteq> a" "i \<notin> fst ` set xs"
  shows "\<exists>h' xs'. add_item_to_array (Some a) (Some i) h = Some (True, h') \<and> members h' a xs' \<and> hp_oom h' = hp_oom h \<and>
    map member_of xs' = map member_of xs @ [member_of (i, ci)]"
proof -
  obtain c where c: "hp_mem h a = Some c" "kids (hp_mem h) (cj_child c) xs" "heap_ok h" "a \<notin> fst ` set xs" "distinct (map fst xs)"
    "xs \<noteq> [] \<longrightarrow> cj_prev (snd (hd xs)) = Some (fst (last xs))" "is_object_item c"
    using ms by (auto simp: members_def)
  show ?thesis
  proof (cases "xs = []")
    case True
    then have n: "cj_child c = None" using c(2) by simp
    let ?i = "ci\<lparr>cj_prev := Some i, cj_next := None\<rparr>"
    let ?h = "h\<lparr>hp_mem := (hp_mem h)(a \<mapsto> c\<lparr>cj_child := Some i\<rparr>, i \<mapsto> ?i)\<rparr>"
    have "add_item_to_array (Some a) (Some i) h = Some (True, ?h)"
      using c(1) n i(1,3) by (simp add: add_item_to_array_def h_modify_def h_set_def)
    moreover have "members ?h a [(i, ?i)]" using c(1,3,7) i by (auto simp: members_def heap_ok_def)
    ultimately show ?thesis using True by (intro exI [of _ ?h] exI [of _ "[(i, ?i)]"]) (simp add: member_of_def)
  next
    case False
    obtain f cf where f: "hd xs = (f, cf)" by (cases "hd xs")
    obtain l cl where l: "last xs = (l, cl)" by (cases "last xs")
    have in_xs: "(f, cf) \<in> set xs" "(l, cl) \<in> set xs" using False f l by (metis hd_in_set, metis last_in_set)
    have mf: "hp_mem h f = Some cf" "hp_mem h l = Some cl" using kids_mapped [OF c(2) in_xs(1)] kids_mapped [OF c(2) in_xs(2)] by simp_all
    have ch: "cj_child c = Some f" using c(2) False f by (cases xs) auto
    have pf: "cj_prev cf = Some l" using c(6) False f l by simp
    have ne: "f \<noteq> a" "l \<noteq> a" "f \<noteq> i" "l \<noteq> i" using in_xs c(4) i(4) by force+
    let ?ci = "ci\<lparr>cj_prev := Some l\<rparr>"
    let ?m2 = "(hp_mem h)(l \<mapsto> cl\<lparr>cj_next := Some i\<rparr>, i \<mapsto> ?ci)"
    define m3 where "m3 = ?m2(f \<mapsto> (the (?m2 f))\<lparr>cj_prev := Some i\<rparr>)"
    let ?h = "h\<lparr>hp_mem := m3\<rparr>"
    have run: "add_item_to_array (Some a) (Some i) h = Some (True, ?h)"
      using c(1) ch mf pf i(1,3) ne by (auto simp: add_item_to_array_def h_modify_def m3_def)
    have m3: "m3 i = Some ?ci" "m3 a = Some c" using ne i(3) c(1) by (simp_all add: m3_def)
    have cells: "\<exists>d. m3 (fst x) = Some d \<and> cj_next d = (if fst x = fst (last xs) then Some i else cj_next (snd x)) \<and>
        member_of (fst x, d) = member_of x \<and> (fst x = f \<longrightarrow> cj_prev d = Some i)" if x: "x \<in> set xs" for x
    proof -
      have mx: "hp_mem h (fst x) = Some (snd x)" by (rule kids_mapped [OF c(2) x])
      have xi: "fst x \<noteq> i" using i(4) x by auto
      show ?thesis using mx xi mf ne l by (auto simp: m3_def member_of_def)
    qed
    let ?xs = "map (\<lambda>x. (fst x, the (m3 (fst x)))) xs @ [(i, ?ci)]"
    have next_of: "\<forall>x \<in> set xs. \<exists>d. m3 (fst x) = Some d \<and> cj_next d = (if fst x = fst (last xs) then Some i else cj_next (snd x))"
      using cells by blast
    have "kids m3 (cj_child c) ?xs" using kids_relink [OF c(2) False c(5) next_of m3(1)] i(2) by simp
    moreover have "heap_ok ?h" using c(3) i(1) mf ne by (auto simp: heap_ok_def m3_def)
    moreover have "cj_prev (snd (hd ?xs)) = Some i" using cells [OF in_xs(1)] False f by (auto simp: hd_map hd_append)
    ultimately have "members ?h a ?xs" using m3(2) c(4,5,7) i(3,4) by (auto simp: members_def comp_def)
    moreover have "member_of (fst x, the (m3 (fst x))) = member_of x" if "x \<in> set xs" for x using cells [OF that] by auto
    then have "map member_of ?xs = map member_of xs @ [member_of (i, ci)]" by (simp add: comp_def) (simp add: member_of_def)
    moreover have "hp_oom ?h = hp_oom h" by simp
    ultimately show ?thesis using run by blast
  qed
qed

text \<open>Deleting an item that has no children and is in no chain.\<close>

lemma delete_single: "hp_mem h i = Some c \<Longrightarrow> cj_next c = None \<Longrightarrow> cj_child c = None \<Longrightarrow>
    cJSON_Delete (Some i) h = Some (h\<lparr>hp_mem := (hp_mem h)(i := None)\<rparr>)"
  by (subst cJSON_Delete.simps, simp add: h_free_def) (subst cJSON_Delete.simps, simp)

text \<open>An item made for the purpose is added, or, where its name cannot be copied, deleted again.\<close>

lemma add_new_item_spec:
  assumes ob: "json_object_at h a ms" and h1: "heap_ok h1" "hp_mem h1 = (hp_mem h)(i \<mapsto> c)" "hp_mem h i = None"
    and c: "cj_next c = None" "cj_child c = None" "and (cj_type c) cJSON_StringIsConst = 0"
  shows "(\<exists>h2. add_new_item (Some a) (Some k) (Some i, h1) = Some (None, h2) \<and> json_object_at h2 a ms \<and> hp_oom h2 = hp_oom h1 \<and> hp_oom h1 (hp_brk h1)) \<or>
    (\<exists>h2. add_new_item (Some a) (Some k) (Some i, h1) = Some (Some i, h2) \<and> hp_oom h2 = hp_oom h1 \<and>
       json_object_at h2 a (ms @ [(i, Member (Some k) (cj_type c) (cj_valuestring c) (cj_valueint c) (cj_valuedouble c) None)]))"
proof -
  from ob obtain xs ca where x: "map member_of xs = ms" "hp_mem h a = Some ca" "kids (hp_mem h) (cj_child ca) xs"
    "\<forall>x \<in> set xs. cj_string (snd x) \<noteq> None" "distinct (a # map fst xs)" "xs \<noteq> [] \<longrightarrow> cj_prev (snd (hd xs)) = Some (fst (last xs))" "is_object_item ca"
    by (rule json_object_atE)
  have ia: "i \<noteq> a" using x(2) h1(3) by auto
  have ix: "i \<notin> fst ` set xs" using kids_mapped [OF x(3)] h1(3) by force
  have above: "hp_mem h b = None \<and> b \<noteq> i" if "hp_brk h1 \<le> b" for b
    using h1(1) [unfolded heap_ok_def, rule_format, OF that] unfolding h1(2) by (simp split: if_splits)
  let ?h2 = "h1\<lparr>hp_brk := Suc (hp_brk h1)\<rparr>"
  show ?thesis
  proof (cases "hp_oom h1 (hp_brk h1)")
    case True
    let ?h3 = "?h2\<lparr>hp_mem := (hp_mem ?h2)(i := None)\<rparr>"
    have "add_item_to_object (Some a) (Some k) (Some i) h1 = Some (False, ?h2)"
      using ia True by (simp add: add_item_to_object_def h_malloc_def)
    moreover have "cJSON_Delete (Some i) ?h2 = Some ?h3" by (rule delete_single) (use h1(2) c in simp_all)
    moreover have "json_object_at ?h3 a ms"
      by (rule json_object_at_frame [OF ob]) (use above h1 in \<open>auto simp: heap_ok_def\<close>)
    ultimately show ?thesis using True by (simp add: add_new_item_def)
  next
    case False
    let ?c = "c\<lparr>cj_string := Some k, cj_type := and (cj_type c) (not cJSON_StringIsConst)\<rparr>"
    let ?h3 = "?h2\<lparr>hp_mem := (hp_mem h1)(i \<mapsto> ?c)\<rparr>"
    have keep: "and (cj_type c) (not cJSON_StringIsConst) = cj_type c"
      by (rule bit_word_eqI) (use c(3) in \<open>auto simp: bit_simps bit_eq_iff\<close>)
    have "hp_mem ?h3 (fst y) = hp_mem h (fst y)" if "y \<in> set xs" for y using ix that h1(2) by force
    then have "kids (hp_mem ?h3) (cj_child ca) xs" by (rule kids_cong [OF x(3)])
    then have "members ?h3 a xs" using x(2,5,6,7) ia h1(2) above by (auto simp: members_def heap_ok_def)
    from add_item_spec [OF this, of i ?c] obtain h4 xs' where h4: "add_item_to_array (Some a) (Some i) ?h3 = Some (True, h4)" "members h4 a xs'"
      "map member_of xs' = map member_of xs @ [member_of (i, ?c)]" "hp_oom h4 = hp_oom ?h3" using c(1) ia ix by auto
    have "add_item_to_object (Some a) (Some k) (Some i) h1 = Some (True, h4)"
      using ia False h1(2) h4(1) by (simp add: add_item_to_object_def h_malloc_def h_modify_def)
    moreover have "json_object_at h4 a (ms @ [(i, Member (Some k) (cj_type c) (cj_valuestring c) (cj_valueint c) (cj_valuedouble c) None)])"
    proof -
      have ms': "map member_of xs' = ms @ [(i, Member (Some k) (cj_type c) (cj_valuestring c) (cj_valueint c) (cj_valuedouble c) None)]"
        using h4(3) x(1) c(2) keep by (simp add: member_of_def)
      have "\<forall>y \<in> set ms. member_name y \<noteq> None" using x(4) unfolding x(1) [symmetric] by simp
      then show ?thesis using h4(2) ms' unfolding json_object_at_def by auto
    qed
    ultimately show ?thesis using h4(4) by (simp add: add_new_item_def)
  qed
qed

text \<open>The integer that goes with a number: the nearest one that an \<^verbatim>\<open>int\<close> holds.\<close>

lemma h_set_fresh:
  assumes "hp_mem h1 = (hp_mem h)(i \<mapsto> z)" and "heap_ok h1"
  shows "hp_mem (h_set h1 i c) = (hp_mem h)(i \<mapsto> c)" "heap_ok (h_set h1 i c)" "hp_oom (h_set h1 i c) = hp_oom h1" "hp_brk (h_set h1 i c) = hp_brk h1"
  using assms by (auto simp: h_set_def heap_ok_def fun_eq_iff split: if_splits)

text \<open>What adding a member may come to: nothing, with \<open>NULL\<close>, when memory runs out, or the member at the end.\<close>

definition member_added :: "'d cjson heap \<Rightarrow> addr \<Rightarrow> (addr \<times> 'd member) list \<Rightarrow> 'd member \<Rightarrow> (ptr \<times> 'd cjson heap) option \<Rightarrow> bool" where
  "member_added h a ms v r \<longleftrightarrow>
     (\<exists>h'. r = Some (None, h') \<and> json_object_at h' a ms \<and> hp_oom h' = hp_oom h \<and> (\<exists>n. hp_oom h n)) \<or>
     (\<exists>i h'. r = Some (Some i, h') \<and> hp_oom h' = hp_oom h \<and> json_object_at h' a (ms @ [(i, v)]))"

lemma member_added_new:
  assumes ob: "json_object_at h a ms" and h1: "heap_ok h1" "hp_mem h1 = (hp_mem h)(i \<mapsto> c)" "hp_mem h i = None" "hp_oom h1 = hp_oom h"
    and c: "cj_next c = None" "cj_child c = None" "and (cj_type c) cJSON_StringIsConst = 0"
  shows "member_added h a ms (Member (Some k) (cj_type c) (cj_valuestring c) (cj_valueint c) (cj_valuedouble c) None) (add_new_item (Some a) (Some k) (Some i, h1))"
  using add_new_item_spec [OF ob h1(1,2,3) c, of k] h1(4) unfolding member_added_def by metis

lemma member_not_made:
  assumes "json_object_at h a ms" and "hp_mem h1 = hp_mem h" and "heap_ok h1" and "hp_oom h1 = hp_oom h" and "hp_oom h n"
  shows "member_added h a ms v (add_new_item (Some a) k (None, h1))"
proof -
  have "add_new_item (Some a) k (None, h1) = Some (None, h1)"
    by (simp add: add_new_item_def add_item_to_object_def cJSON_Delete.simps split: option.split)
  moreover have "json_object_at h1 a ms" by (rule json_object_at_frame [OF assms(1,3)]) (simp add: assms(2))
  ultimately show ?thesis using assms(4,5) unfolding member_added_def by blast
qed

lemma json_object_heap_ok: "json_object_at h a ms \<Longrightarrow> heap_ok h"
  by (auto simp: json_object_at_def members_def)

lemma number_added:
  assumes "json_object_at h a ms"
  shows "member_added h a ms (Member (Some k) cJSON_Number None (dbl_saturate D d) d None) (json_add_number_to_object D (Some a) (Some k) d h)"
proof -
  have ok: "heap_ok h" using assms by (rule json_object_heap_ok)
  from ok show ?thesis
  proof (cases rule: alloc_cases [where c = "zero_item D"])
    case (no_memory h1)
    then have "cJSON_CreateNumber D d h = (None, h1)" by (simp add: cJSON_CreateNumber_def cJSON_New_Item_def)
    then show ?thesis using member_not_made [OF assms no_memory(2,3,4,5)]
      by (simp add: json_add_number_to_object_def cJSON_AddNumberToObject_def)
  next
    case (fresh i h1)
    let ?c = "(zero_item D)\<lparr>cj_type := cJSON_Number, cj_valuedouble := d, cj_valueint := dbl_saturate D d\<rparr>"
    have m: "cJSON_CreateNumber D d h = (Some i, h_set h1 i ?c)" using fresh(1) by (simp add: cJSON_CreateNumber_def cJSON_New_Item_def)
    note s = h_set_fresh [OF fresh(3,4), of ?c]
    show ?thesis using member_added_new [OF assms s(2,1) fresh(2), of k] s(3) fresh(5)
      by (simp add: m json_add_number_to_object_def cJSON_AddNumberToObject_def zero_item_def cJSON_Number_def cJSON_StringIsConst_def)
  qed
qed

lemma bool_added:
  assumes "json_object_at h a ms"
  shows "member_added h a ms (Member (Some k) (if b then cJSON_True else cJSON_False) None 0 (dbl_zero D) None) (json_add_bool_to_object D (Some a) (Some k) b h)"
proof -
  have ok: "heap_ok h" using assms by (rule json_object_heap_ok)
  from ok show ?thesis
  proof (cases rule: alloc_cases [where c = "zero_item D"])
    case (no_memory h1)
    then have "cJSON_CreateBool D b h = (None, h1)" by (simp add: cJSON_CreateBool_def cJSON_New_Item_def)
    then show ?thesis using member_not_made [OF assms no_memory(2,3,4,5)]
      by (simp add: json_add_bool_to_object_def cJSON_AddBoolToObject_def)
  next
    case (fresh i h1)
    let ?c = "(zero_item D)\<lparr>cj_type := (if b then cJSON_True else cJSON_False)\<rparr>"
    have m: "cJSON_CreateBool D b h = (Some i, h_set h1 i ?c)" using fresh(1) by (simp add: cJSON_CreateBool_def cJSON_New_Item_def)
    note s = h_set_fresh [OF fresh(3,4), of ?c]
    show ?thesis using member_added_new [OF assms s(2,1) fresh(2), of k] s(3) fresh(5)
      by (simp add: m json_add_bool_to_object_def cJSON_AddBoolToObject_def zero_item_def cJSON_True_def cJSON_False_def cJSON_StringIsConst_def)
  qed
qed

lemma string_added:
  assumes "json_object_at h a ms"
  shows "member_added h a ms (Member (Some k) cJSON_String (Some s) 0 (dbl_zero D) None) (json_add_string_to_object D (Some a) (Some k) (Some s) h)"
proof -
  have ok: "heap_ok h" using assms by (rule json_object_heap_ok)
  from ok show ?thesis
  proof (cases rule: alloc_cases [where c = "zero_item D"])
    case (no_memory h1)
    then have "cJSON_CreateString D (Some s) h = Some (None, h1)" by (simp add: cJSON_CreateString_def cJSON_New_Item_def)
    then show ?thesis using member_not_made [OF assms no_memory(2,3,4,5)]
      by (simp add: json_add_string_to_object_def cJSON_AddStringToObject_def)
  next
    case (fresh i h1)
    let ?h2 = "h1\<lparr>hp_brk := Suc (hp_brk h1)\<rparr>"
    have h2: "hp_mem ?h2 = (hp_mem h)(i \<mapsto> zero_item D)" "heap_ok ?h2" using fresh(3,4) by (auto simp: heap_ok_def)
    show ?thesis
    proof (cases "hp_oom h1 (hp_brk h1)")
      case True
      let ?c = "(zero_item D)\<lparr>cj_type := cJSON_String, cj_valuestring := None\<rparr>"
      let ?h4 = "(h_set ?h2 i ?c)\<lparr>hp_mem := (hp_mem (h_set ?h2 i ?c))(i := None)\<rparr>"
      note sc = h_set_fresh [OF h2, of ?c]
      have z: "cj_next ?c = None" "cj_child ?c = None" by (simp_all add: zero_item_def)
      have "hp_mem (h_set ?h2 i ?c) i = Some ?c" using sc(1) by simp
      then have "cJSON_Delete (Some i) (h_set ?h2 i ?c) = Some ?h4" by (rule delete_single [OF _ z])
      then have m: "cJSON_CreateString D (Some s) h = Some (None, ?h4)"
        using fresh(1) True by (simp add: cJSON_CreateString_def cJSON_New_Item_def h_malloc_def)
      have "hp_mem ?h4 = hp_mem h" using fresh(2) sc(1) by (simp add: fun_upd_idem)
      moreover have "heap_ok ?h4" using sc(2) by (auto simp: heap_ok_def)
      moreover have "hp_oom h (hp_brk h1)" using True fresh(5) by simp
      ultimately show ?thesis using member_not_made [OF assms, of ?h4] sc(3) fresh(5)
        by (simp add: m json_add_string_to_object_def cJSON_AddStringToObject_def)
    next
      case False
      let ?c = "(zero_item D)\<lparr>cj_type := cJSON_String, cj_valuestring := Some s\<rparr>"
      note sc = h_set_fresh [OF h2, of ?c]
      have m: "cJSON_CreateString D (Some s) h = Some (Some i, h_set ?h2 i ?c)"
        using fresh(1) False by (simp add: cJSON_CreateString_def cJSON_New_Item_def h_malloc_def)
      have "hp_oom (h_set ?h2 i ?c) = hp_oom h" using sc(3) fresh(5) by simp
      from member_added_new [OF assms sc(2,1) fresh(2) this, of k] show ?thesis
        by (simp add: m json_add_string_to_object_def cJSON_AddStringToObject_def zero_item_def cJSON_String_def cJSON_StringIsConst_def)
    qed
  qed
qed

section \<open>Objects built and read\<close>

datatype 'd json_input = JNumber 'd | JBool bool | JString string

fun json_add :: "'d dbl_ops \<Rightarrow> addr \<Rightarrow> string \<times> 'd json_input \<Rightarrow> 'd cjson heap \<Rightarrow> (ptr \<times> 'd cjson heap) option" where
  "json_add D a (k, JNumber d) h = json_add_number_to_object D (Some a) (Some k) d h"
| "json_add D a (k, JBool b) h = json_add_bool_to_object D (Some a) (Some k) b h"
| "json_add D a (k, JString s) h = json_add_string_to_object D (Some a) (Some k) (Some s) h"

text \<open>Adding members in turn; the list of the results.\<close>

fun json_add_all :: "'d dbl_ops \<Rightarrow> addr \<Rightarrow> (string \<times> 'd json_input) list \<Rightarrow> 'd cjson heap \<Rightarrow> (ptr list \<times> 'd cjson heap) option" where
  "json_add_all D a [] h = Some ([], h)"
| "json_add_all D a (kv # kvs) h = do {
     (p, h1) \<leftarrow> json_add D a kv h;
     (ps, h2) \<leftarrow> json_add_all D a kvs h1;
     Some (p # ps, h2)
   }"

fun input_member :: "'d dbl_ops \<Rightarrow> string \<times> 'd json_input \<Rightarrow> 'd member" where
  "input_member D (k, JNumber d) = Member (Some k) cJSON_Number None (dbl_saturate D d) d None"
| "input_member D (k, JBool b) = Member (Some k) (if b then cJSON_True else cJSON_False) None 0 (dbl_zero D) None"
| "input_member D (k, JString s) = Member (Some k) cJSON_String (Some s) 0 (dbl_zero D) None"

lemma json_add_spec: "json_object_at h a ms \<Longrightarrow> member_added h a ms (input_member D kv) (json_add D a kv h)"
  by (cases "(D, a, kv, h)" rule: json_add.cases) (auto simp: number_added bool_added string_added)

text \<open>The members that were added, where the answer was not \<open>NULL\<close>.\<close>

definition added :: "(string \<times> 'd json_input) list \<Rightarrow> ptr list \<Rightarrow> (string \<times> 'd json_input) list" where
  "added kvs ps = map fst (filter (\<lambda>x. snd x \<noteq> None) (zip kvs ps))"

lemma json_add_all_spec:
  "json_object_at h a ms \<Longrightarrow> \<exists>ps h' new. json_add_all D a kvs h = Some (ps, h') \<and> length ps = length kvs \<and>
     json_object_at h' a (ms @ new) \<and> map snd new = map (input_member D) (added kvs ps) \<and> ((\<forall>n. \<not> hp_oom h n) \<longrightarrow> None \<notin> set ps) \<and>
     hp_oom h' = hp_oom h"
proof (induction kvs arbitrary: h ms)
  case Nil
  then show ?case by (intro exI [of _ "[]"] exI [of _ h]) (simp add: added_def)
next
  case (Cons kv kvs)
  from json_add_spec [OF Cons.prems, of D kv] show ?case unfolding member_added_def
  proof (elim disjE exE conjE)
    fix h1 n assume a: "json_add D a kv h = Some (None, h1)" "json_object_at h1 a ms" "hp_oom h1 = hp_oom h" "hp_oom h n"
    obtain ps h' new where r: "json_add_all D a kvs h1 = Some (ps, h')" "length ps = length kvs" "json_object_at h' a (ms @ new)"
      "map snd new = map (input_member D) (added kvs ps)" "hp_oom h' = hp_oom h1" using Cons.IH [OF a(2)] by blast
    then show ?thesis using a(1,3,4) by (intro exI [of _ "None # ps"] exI [of _ h'] exI [of _ new]) (auto simp: added_def)
  next
    fix i h1 assume a: "json_add D a kv h = Some (Some i, h1)" "json_object_at h1 a (ms @ [(i, input_member D kv)])" "hp_oom h1 = hp_oom h"
    obtain ps h' new where r: "json_add_all D a kvs h1 = Some (ps, h')" "length ps = length kvs" "json_object_at h' a ((ms @ [(i, input_member D kv)]) @ new)"
      "map snd new = map (input_member D) (added kvs ps)" "(\<forall>n. \<not> hp_oom h1 n) \<longrightarrow> None \<notin> set ps" "hp_oom h' = hp_oom h1" using Cons.IH [OF a(2)] by blast
    then show ?thesis using a(1,3)
      by (intro exI [of _ "Some i # ps"] exI [of _ h'] exI [of _ "(i, input_member D kv) # new"]) (simp add: added_def)
  qed
qed

lemma member_name_input: "map snd ms = map (input_member D) kvs \<Longrightarrow>
    (case find (\<lambda>x. member_name x = Some k) ms of
       None \<Rightarrow> map_of kvs k = None
     | Some x \<Rightarrow> \<exists>v. map_of kvs k = Some v \<and> snd x = input_member D (k, v))"
proof (induction kvs arbitrary: ms)
  case (Cons kv kvs)
  obtain x ms' where ms: "ms = x # ms'" "snd x = input_member D kv" "map snd ms' = map (input_member D) kvs"
    using Cons.prems by (cases ms) auto
  have "member_name x = Some (fst kv)"
    using ms(2) by (cases "(D, kv)" rule: input_member.cases; cases x) auto
  then show ?case using Cons.IH [OF ms(3)] ms(1,2) by (cases kv) (auto split: option.splits)
qed simp

lemma json_create_spec:
  assumes "heap_ok h" and "json_create_object D h = (Some a, h0)"
  shows "json_object_at h0 a [] \<and> hp_oom h0 = hp_oom h"
  using assms(1)
proof (cases rule: alloc_cases [where c = "zero_item D"])
  case (no_memory h1)
  then show ?thesis using assms(2) by (simp add: json_create_object_def cJSON_CreateObject_def cJSON_New_Item_def)
next
  case (fresh i h1)
  let ?c = "(zero_item D)\<lparr>cj_type := cJSON_Object\<rparr>"
  note sc = h_set_fresh [OF fresh(3,4), of ?c]
  have "a = i" "h0 = h_set h1 i ?c" using assms(2) fresh(1) by (auto simp: json_create_object_def cJSON_CreateObject_def cJSON_New_Item_def)
  moreover have "members (h_set h1 i ?c) i []"
    using sc(1,2) by (simp add: members_def zero_item_def is_object_item_def cJSON_Object_def cJSON_IsReference_def)
  ultimately show ?thesis using sc(3) fresh(5) by (simp add: json_object_at_def)
qed

text \<open>
  C32. What was put into an object is read from it. Members are added to a new object one after the other,
  numbers, booleans and strings; each is added or, when memory runs out, answered with \<open>NULL\<close> and
  left out, and no call touches memory it should not. Then for every name the first member added under it is
  read back, with its own type and no other: a number also as the integer nearest to it, anything else
  not as a number; and a name that was not added is not found.
\<close>

theorem json_object_roundtrip:
  assumes "heap_ok h" and "json_create_object D h = (Some a, h0)"
  shows "\<exists>ps h1. json_add_all D a kvs h0 = Some (ps, h1) \<and> length ps = length kvs \<and> ((\<forall>n. \<not> hp_oom h n) \<longrightarrow> None \<notin> set ps) \<and>
    (\<forall>k s0 d0 i0 b0.
       json_object_get_string_value h1 (Some a) (Some k) (Some s0) =
         Some (case map_of (added kvs ps) k of Some (JString s) \<Rightarrow> (True, Some s) | _ \<Rightarrow> (False, Some s0)) \<and>
       json_object_get_number_value D h1 (Some a) (Some k) (Some d0) =
         Some (case map_of (added kvs ps) k of Some (JNumber d) \<Rightarrow> (True, Some d) | _ \<Rightarrow> (False, Some d0)) \<and>
       json_object_get_int_value h1 (Some a) (Some k) (Some i0) =
         Some (case map_of (added kvs ps) k of Some (JNumber d) \<Rightarrow> (True, Some (dbl_saturate D d)) | _ \<Rightarrow> (False, Some i0)) \<and>
       json_object_get_bool_value h1 (Some a) (Some k) (Some b0) =
         Some (case map_of (added kvs ps) k of Some (JBool b) \<Rightarrow> (True, Some b) | _ \<Rightarrow> (False, Some b0)))"
proof -
  have h0: "json_object_at h0 a []" "hp_oom h0 = hp_oom h" using json_create_spec [OF assms] by simp_all
  from json_add_all_spec [OF h0(1), of D kvs] obtain ps h1 new where r: "json_add_all D a kvs h0 = Some (ps, h1)" "length ps = length kvs"
    "json_object_at h1 a new" "map snd new = map (input_member D) (added kvs ps)" "(\<forall>n. \<not> hp_oom h0 n) \<longrightarrow> None \<notin> set ps"
    by auto
  have bits: "and cJSON_String 0xFF = cJSON_String" "and cJSON_Number 0xFF = cJSON_Number" "and cJSON_True 0xFF = cJSON_True"
    "and cJSON_False 0xFF = cJSON_False" "and cJSON_String (or cJSON_True cJSON_False) = 0" "and cJSON_Number (or cJSON_True cJSON_False) = 0"
    "and cJSON_True (or cJSON_True cJSON_False) \<noteq> 0" "and cJSON_False (or cJSON_True cJSON_False) \<noteq> 0"
    "cJSON_String \<noteq> cJSON_Number" "cJSON_True \<noteq> cJSON_Number" "cJSON_False \<noteq> cJSON_Number" "cJSON_True \<noteq> cJSON_String" "cJSON_False \<noteq> cJSON_String"
    "cJSON_True \<noteq> cJSON_False"
    by (simp_all add: cJSON_String_def cJSON_Number_def cJSON_True_def cJSON_False_def)
  have reads: "json_object_get_string_value h1 (Some a) (Some k) (Some s0) =
         Some (case map_of (added kvs ps) k of Some (JString s) \<Rightarrow> (True, Some s) | _ \<Rightarrow> (False, Some s0)) \<and>
       json_object_get_number_value D h1 (Some a) (Some k) (Some d0) =
         Some (case map_of (added kvs ps) k of Some (JNumber d) \<Rightarrow> (True, Some d) | _ \<Rightarrow> (False, Some d0)) \<and>
       json_object_get_int_value h1 (Some a) (Some k) (Some i0) =
         Some (case map_of (added kvs ps) k of Some (JNumber d) \<Rightarrow> (True, Some (dbl_saturate D d)) | _ \<Rightarrow> (False, Some i0)) \<and>
       json_object_get_bool_value h1 (Some a) (Some k) (Some b0) =
         Some (case map_of (added kvs ps) k of Some (JBool b) \<Rightarrow> (True, Some b) | _ \<Rightarrow> (False, Some b0))" for k s0 d0 i0 b0
  proof (cases "find (\<lambda>x. member_name x = Some k) new")
    case None
    then show ?thesis using member_name_input [OF r(4), of k] typed_access [OF r(3), of k s0 D d0 i0 b0] by simp
  next
    case (Some x)
    then obtain v where v: "map_of (added kvs ps) k = Some v" "snd x = input_member D (k, v)"
      using member_name_input [OF r(4), of k] by auto
    then have x: "x = (fst x, input_member D (k, v))" by (metis prod.collapse)
    show ?thesis using typed_access [OF r(3), of k s0 D d0 i0 b0] bits unfolding Some option.case v(1)
      by (subst (asm) x; cases v) (auto split: if_splits)
  qed
  then show ?thesis using r(1,2,5) h0(2) by (intro exI [of _ ps] exI [of _ h1]) simp
qed

text \<open>Integers in place of floating-point numbers, for the examples.\<close>

definition int_dbl :: "int dbl_ops" where
  "int_dbl = \<lparr>dbl_zero = 0, dbl_nan = 0, dbl_ge = (\<lambda>d i. d \<ge> i), dbl_le = (\<lambda>d i. d \<le> i), dbl_to_int = (\<lambda>d. d)\<rparr>"

lemma demo_object: "\<exists>h0. json_create_object int_dbl (empty_heap :: int cjson heap) = (Some 0, h0)"
  by (simp add: json_create_object_def cJSON_CreateObject_def cJSON_New_Item_def h_alloc_def)

theorem json_object_roundtrip_witness:
  "\<exists>h0 ps h1. json_add_all int_dbl 0 [(''a'', JNumber 7), (''b'', JString ''x''), (''a'', JBool True)] h0 = Some (ps, h1) \<and>
     json_object_get_int_value h1 (Some 0) (Some ''a'') (Some 1) = Some (True, Some 7) \<and>
     json_object_get_bool_value h1 (Some 0) (Some ''a'') (Some False) = Some (False, Some False)"
proof -
  let ?kvs = "[(''a'', JNumber 7), (''b'', JString ''x''), (''a'', JBool True)] :: (string \<times> int json_input) list"
  obtain h0 where h0: "json_create_object int_dbl (empty_heap :: int cjson heap) = (Some 0, h0)" using demo_object by blast
  from json_object_roundtrip [OF _ h0, of ?kvs] obtain ps h1 where r: "json_add_all int_dbl 0 ?kvs h0 = Some (ps, h1)" "length ps = 3" "None \<notin> set ps"
    "json_object_get_int_value h1 (Some 0) (Some ''a'') (Some 1) =
       Some (case map_of (added ?kvs ps) ''a'' of Some (JNumber d) \<Rightarrow> (True, Some (dbl_saturate int_dbl d)) | _ \<Rightarrow> (False, Some 1))"
    "json_object_get_bool_value h1 (Some 0) (Some ''a'') (Some False) =
       Some (case map_of (added ?kvs ps) ''a'' of Some (JBool b) \<Rightarrow> (True, Some b) | _ \<Rightarrow> (False, Some False))"
    by (simp add: numeral_3_eq_3) blast
  obtain p1 p2 p3 where p: "ps = [p1, p2, p3]" using r(2) by (auto simp: length_Suc_conv numeral_3_eq_3)
  then have "p1 \<noteq> None" using r(3) by (cases p1) auto
  then have "map_of (added ?kvs ps) ''a'' = Some (JNumber 7)" by (simp add: p added_def)
  then show ?thesis using r(1,4,5) by (intro exI [of _ h0] exI [of _ ps] exI [of _ h1]) (simp add: int_dbl_def dbl_saturate_def)
qed

theorem json_typed_access_witness:
  "\<exists>h :: int cjson heap. json_object_get_number_value int_dbl h (Some 0) (Some ''n'') (Some 0) = Some (True, Some 7) \<and>
     json_object_get_string_value h (Some 0) (Some ''n'') (Some ''s'') = Some (False, Some ''s'')"
proof -
  obtain h0 where h0: "json_create_object int_dbl (empty_heap :: int cjson heap) = (Some 0, h0)" using demo_object by blast
  have o: "json_object_at h0 0 []" "hp_oom h0 = (\<lambda>_. False)" using json_create_spec [OF _ h0] by simp_all
  obtain i and h :: "int cjson heap" where "json_object_at h 0 [(i, Member (Some ''n'') cJSON_Number None (dbl_saturate int_dbl 7) 7 None)]"
    using number_added [OF o(1), of "''n''" int_dbl 7] o(2) unfolding member_added_def by auto
  from json_typed_access [OF this, of "''n''" "''s''" int_dbl 0] show ?thesis
    by (intro exI [of _ h]) (simp add: cJSON_Number_def cJSON_String_def)
qed

end
