(* ===== verification/CJsonParse.thy ===== *)
theory CJsonParse
  imports CJson CNumber
begin

unbundle bit_operations_syntax

text \<open>
  The parser of the vendored \<^verbatim>\<open>src/vendor/cjson/cJSON.c\<close>. The input is the list of its characters, as many as
  the caller says there are; reading behind them, or writing behind the block allocated for a string, gives
  \<open>None\<close>. The functions return whether they succeed, the heap and the buffer. Those that call
  \<^verbatim>\<open>parse_value\<close> take it as an argument; \<open>parse_value\<close> itself has the depth of the recursion as its fuel.
\<close>

section \<open>Numbers as text\<close>

text \<open>
  What the parser and the printer ask of the C library about floating-point numbers: \<^verbatim>\<open>strtod\<close>, with the
  number of characters used; whether a number is not finite; whether it is equal to an integer;
  the conversions \<^verbatim>\<open>"%1.15g"\<close> and \<^verbatim>\<open>"%1.17g"\<close>; \<^verbatim>\<open>sscanf\<close> with \<^verbatim>\<open>"%lg"\<close>; and the arithmetic,
  comparisons and \<^verbatim>\<open>DBL_EPSILON\<close> that \<^verbatim>\<open>compare_double\<close> uses.
\<close>

record 'd num_io =
  ni_strtod :: "string \<Rightarrow> 'd \<times> nat"
  ni_special :: "'d \<Rightarrow> bool"
  ni_eq_int :: "'d \<Rightarrow> int \<Rightarrow> bool"
  ni_fmt15 :: "'d \<Rightarrow> string"
  ni_fmt17 :: "'d \<Rightarrow> string"
  ni_scan :: "string \<Rightarrow> 'd option"
  ni_fabs :: "'d \<Rightarrow> 'd"
  ni_sub :: "'d \<Rightarrow> 'd \<Rightarrow> 'd"
  ni_mul :: "'d \<Rightarrow> 'd \<Rightarrow> 'd"
  ni_gt :: "'d \<Rightarrow> 'd \<Rightarrow> bool"
  ni_le :: "'d \<Rightarrow> 'd \<Rightarrow> bool"
  ni_epsilon :: 'd

section \<open>The buffer\<close>

definition CJSON_NESTING_LIMIT :: nat where
  "CJSON_NESTING_LIMIT = 1000"

record parse_buffer =
  pb_content :: string
  pb_offset :: nat
  pb_depth :: nat

definition s_at :: "string \<Rightarrow> nat \<Rightarrow> char option" where
  "s_at s i = (if i < length s then Some (s ! i) else None)"

definition can_access_at_index :: "parse_buffer \<Rightarrow> nat \<Rightarrow> bool" where
  "can_access_at_index b i = (pb_offset b + i < length (pb_content b))"

definition buffer_at_offset :: "parse_buffer \<Rightarrow> nat \<Rightarrow> char option" where
  "buffer_at_offset b i = s_at (pb_content b) (pb_offset b + i)"

definition buffer_has :: "parse_buffer \<Rightarrow> string \<Rightarrow> bool" where
  "buffer_has b w = (pb_offset b + length w \<le> length (pb_content b) \<and> take (length w) (drop (pb_offset b) (pb_content b)) = w)"

text \<open>The test \<^verbatim>\<open>can_access_at_index (b, 0) && (buffer_at_offset (b)[0] == c)\<close>.\<close>

definition buffer_next_is :: "parse_buffer \<Rightarrow> char \<Rightarrow> bool" where
  "buffer_next_is b c = (can_access_at_index b 0 \<and> buffer_at_offset b 0 = Some c)"

definition advance :: "nat \<Rightarrow> parse_buffer \<Rightarrow> parse_buffer" where
  "advance n b = b\<lparr>pb_offset := pb_offset b + n\<rparr>"

definition step_back :: "parse_buffer \<Rightarrow> parse_buffer" where
  "step_back b = b\<lparr>pb_offset := pb_offset b - 1\<rparr>"

function ws_loop :: "string \<Rightarrow> nat \<Rightarrow> nat" where
  "ws_loop s i = (if i < length s \<and> (of_char (s ! i) :: nat) \<le> 32 then ws_loop s (Suc i) else i)"
  by pat_completeness auto
termination by (relation "measure (\<lambda>(s, i). length s - i)") auto

declare ws_loop.simps [simp del]

definition buffer_skip_whitespace :: "parse_buffer \<Rightarrow> parse_buffer" where
  "buffer_skip_whitespace b =
     (if \<not> can_access_at_index b 0 then b
      else
        let i = ws_loop (pb_content b) (pb_offset b) in
        b\<lparr>pb_offset := (if i = length (pb_content b) then i - 1 else i)\<rparr>)"

definition skip_utf8_bom :: "parse_buffer \<Rightarrow> parse_buffer" where
  "skip_utf8_bom b = (if can_access_at_index b 4 \<and> buffer_has b [CHR 0xEF, CHR 0xBB, CHR 0xBF] then advance 3 b else b)"

section \<open>Numbers\<close>

definition num_char :: "char \<Rightarrow> bool" where
  "num_char c = (is_digit c \<or> c \<in> {CHR ''+'', CHR ''-'', CHR ''e'', CHR ''E'', CHR ''.''})"

text \<open>The loop that copies at most \<open>n\<close> characters into the temporary buffer.\<close>

fun num_copy :: "nat \<Rightarrow> string \<Rightarrow> string" where
  "num_copy (Suc n) (c # cs) = (if num_char c then c # num_copy n cs else [])"
| "num_copy _ _ = []"

type_synonym 'd parse_result = "(bool \<times> 'd cjson heap \<times> parse_buffer) option"

definition parse_number :: "'d dbl_ops \<Rightarrow> 'd num_io \<Rightarrow> addr \<Rightarrow> 'd cjson heap \<Rightarrow> parse_buffer \<Rightarrow> 'd parse_result" where
  "parse_number D N item h b =
     (let (number, used) = ni_strtod N (num_copy 63 (drop (pb_offset b) (pb_content b))) in
      if used = 0 then Some (False, h, b)
      else do {
        h1 \<leftarrow> h_modify h item (\<lambda>c. c\<lparr>cj_valuedouble := number, cj_valueint := dbl_saturate D number, cj_type := cJSON_Number\<rparr>);
        Some (True, h1, advance used b)
      })"

section \<open>Strings\<close>

definition hex_digit :: "char \<Rightarrow> nat option" where
  "hex_digit c = (let n = of_char c :: nat in
     if 48 \<le> n \<and> n \<le> 57 then Some (n - 48)
     else if 65 \<le> n \<and> n \<le> 70 then Some (10 + n - 65)
     else if 97 \<le> n \<and> n \<le> 102 then Some (10 + n - 97)
     else None)"

text \<open>\<open>k\<close> digits are left. The code is at most \<open>0xFFFF\<close>.\<close>

fun parse_hex4_loop :: "string \<Rightarrow> nat \<Rightarrow> nat \<Rightarrow> nat \<Rightarrow> nat option" where
  "parse_hex4_loop s i 0 h = Some h"
| "parse_hex4_loop s i (Suc k) h = do {
     c \<leftarrow> s_at s i;
     (case hex_digit c of
        None \<Rightarrow> Some 0
      | Some d \<Rightarrow> parse_hex4_loop s (Suc i) k (if k > 0 then push_bit 4 (h + d) else h + d))
   }"

definition parse_hex4 :: "string \<Rightarrow> nat \<Rightarrow> nat option" where
  "parse_hex4 s i = parse_hex4_loop s i 4 0"

text \<open>The bytes at the positions after the first, from the last one down, and what is left of the code point.\<close>

primrec utf8_loop :: "nat \<Rightarrow> nat \<Rightarrow> string \<Rightarrow> nat \<times> string" where
  "utf8_loop 0 codepoint out = (codepoint, out)"
| "utf8_loop (Suc k) codepoint out = utf8_loop k (drop_bit 6 codepoint) (char_of ((codepoint OR 0x80) AND 0xBF) # out)"

definition utf8_bytes :: "nat \<Rightarrow> string option" where
  "utf8_bytes codepoint =
     (let (utf8_length, first_byte_mark) =
        (if codepoint < 0x80 then (1, 0)
         else if codepoint < 0x800 then (2, 0xC0)
         else if codepoint < 0x10000 then (3, 0xE0)
         else if codepoint \<le> 0x10FFFF then (4, 0xF0)
         else (0, 0)) in
      if utf8_length = 0 then None
      else
        let (rest, out) = utf8_loop (utf8_length - 1) codepoint [] in
        Some (char_of (if utf8_length > 1 then (rest OR first_byte_mark) AND 0xFF else rest AND 0x7F) # out))"

text \<open>
  The literal starts at \<open>p\<close>, the string ends at \<open>e\<close>. The result is the number of characters read, \<open>0\<close> on
  failure, and what is written.
\<close>

definition utf16_literal_to_utf8 :: "string \<Rightarrow> nat \<Rightarrow> nat \<Rightarrow> (nat \<times> string) option" where
  "utf16_literal_to_utf8 s p e =
     (if e - p < 6 then Some (0, [])
      else do {
        first_code \<leftarrow> parse_hex4 s (p + 2);
        (if 0xDC00 \<le> first_code \<and> first_code \<le> 0xDFFF then Some (0, [])
         else if 0xD800 \<le> first_code \<and> first_code \<le> 0xDBFF then
           (if e - (p + 6) < 6 then Some (0, [])
            else do {
              c \<leftarrow> s_at s (p + 6);
              d \<leftarrow> s_at s (p + 7);
              (if c \<noteq> CHR 0x5C \<or> d \<noteq> CHR ''u'' then Some (0, [])
               else do {
                 second_code \<leftarrow> parse_hex4 s (p + 8);
                 (if second_code < 0xDC00 \<or> second_code > 0xDFFF then Some (0, [])
                  else (case utf8_bytes (0x10000 + (push_bit 10 (first_code AND 0x3FF) OR (second_code AND 0x3FF))) of
                      None \<Rightarrow> Some (0, [])
                    | Some out \<Rightarrow> Some (12, out)))
               })
            })
         else (case utf8_bytes first_code of None \<Rightarrow> Some (0, []) | Some out \<Rightarrow> Some (6, out)))
      })"

text \<open>The end of the string and the number of backslashes passed over, or failure.\<close>

function string_scan :: "string \<Rightarrow> nat \<Rightarrow> nat \<Rightarrow> (nat \<times> nat) option" where
  "string_scan s input_end skipped =
     (if input_end < length s \<and> s ! input_end \<noteq> CHR 0x22 then
        if s ! input_end = CHR 0x5C then
          if input_end + 1 \<ge> length s then None else string_scan s (input_end + 2) (Suc skipped)
        else string_scan s (input_end + 1) skipped
      else Some (input_end, skipped))"
  by pat_completeness auto
termination by (relation "measure (\<lambda>(s, i, k). length s - i)") auto

declare string_scan.simps [simp del]

definition simple_escape :: "char \<Rightarrow> char option" where
  "simple_escape d =
     (if d = CHR ''b'' then Some (CHR 0x08)
      else if d = CHR ''f'' then Some (CHR 0x0C)
      else if d = CHR ''n'' then Some (CHR 0x0A)
      else if d = CHR ''r'' then Some (CHR 0x0D)
      else if d = CHR ''t'' then Some (CHR 0x09)
      else if d = CHR 0x22 \<or> d = CHR 0x5C \<or> d = CHR ''/'' then Some d
      else None)"

text \<open>Writing at the end of what has been written to a block of \<open>cap\<close> bytes.\<close>

definition put :: "nat \<Rightarrow> string \<Rightarrow> string \<Rightarrow> string option" where
  "put cap out cs = (if length out + length cs \<le> cap then Some (out @ cs) else None)"

text \<open>The loop through the string literal: the input pointer at the end, and the output unless it failed.\<close>

function unescape :: "string \<Rightarrow> nat \<Rightarrow> nat \<Rightarrow> nat \<Rightarrow> string \<Rightarrow> (nat \<times> string option) option" where
  "unescape s input_end cap p out =
     (if p < input_end then do {
        c \<leftarrow> s_at s p;
        (if c \<noteq> CHR 0x5C then do { out1 \<leftarrow> put cap out [c]; unescape s input_end cap (p + 1) out1 }
         else if input_end - p < 1 then Some (p, None)
         else do {
           d \<leftarrow> s_at s (p + 1);
           (case simple_escape d of
              Some x \<Rightarrow> do { out1 \<leftarrow> put cap out [x]; unescape s input_end cap (p + 2) out1 }
            | None \<Rightarrow>
                if d \<noteq> CHR ''u'' then Some (p, None)
                else do {
                  r \<leftarrow> utf16_literal_to_utf8 s p input_end;
                  (if fst r = 0 then Some (p, None)
                   else do { out1 \<leftarrow> put cap out (snd r); unescape s input_end cap (p + fst r) out1 })
                })
         })
      }
      else do { _ \<leftarrow> put cap out [NUL]; Some (p, Some out) })"
  by pat_completeness auto
termination by (relation "measure (\<lambda>(s, e, cap, p, out). e - p)") auto

declare unescape.simps [simp del]

definition parse_string :: "addr \<Rightarrow> 'd cjson heap \<Rightarrow> parse_buffer \<Rightarrow> 'd parse_result" where
  "parse_string item h b =
     (let s = pb_content b; start = pb_offset b + 1 in do {
        c \<leftarrow> buffer_at_offset b 0;
        (if c \<noteq> CHR 0x22 then Some (False, h, b\<lparr>pb_offset := start\<rparr>)
         else (case string_scan s start 0 of
             None \<Rightarrow> Some (False, h, b\<lparr>pb_offset := start\<rparr>)
           | Some (input_end, skipped_bytes) \<Rightarrow>
               if input_end \<ge> length s then Some (False, h, b\<lparr>pb_offset := start\<rparr>)
               else
                 let allocation_length = input_end - pb_offset b - skipped_bytes; (allocated, h1) = h_malloc h in
                 if \<not> allocated then Some (False, h1, b\<lparr>pb_offset := start\<rparr>)
                 else do {
                   (p, output) \<leftarrow> unescape s input_end (allocation_length + 1) start [];
                   (case output of
                      None \<Rightarrow> Some (False, h1, b\<lparr>pb_offset := p\<rparr>)
                    | Some out \<Rightarrow> do {
                        h2 \<leftarrow> h_modify h1 item (\<lambda>c. c\<lparr>cj_type := cJSON_String, cj_valuestring := Some (c_str out)\<rparr>);
                        Some (True, h2, b\<lparr>pb_offset := input_end + 1\<rparr>)
                      })
                 }))
      })"

section \<open>Arrays and objects\<close>

text \<open>A new item at the end of the list.\<close>

definition attach_item :: "ptr \<Rightarrow> ptr \<Rightarrow> addr \<Rightarrow> 'd cjson heap \<Rightarrow> (ptr \<times> 'd cjson heap) option" where
  "attach_item head current new_item h = (case head of
     None \<Rightarrow> Some (Some new_item, h)
   | Some _ \<Rightarrow> do {
       a \<leftarrow> current;
       h1 \<leftarrow> h_modify h a (\<lambda>c. c\<lparr>cj_next := Some new_item\<rparr>);
       h2 \<leftarrow> h_modify h1 new_item (\<lambda>c. c\<lparr>cj_prev := current\<rparr>);
       Some (head, h2)
     })"

definition parse_success :: "32 word \<Rightarrow> addr \<Rightarrow> ptr \<Rightarrow> ptr \<Rightarrow> 'd cjson heap \<Rightarrow> parse_buffer \<Rightarrow> 'd parse_result" where
  "parse_success t item head current h b = do {
     h1 \<leftarrow> (case head of None \<Rightarrow> Some h | Some a \<Rightarrow> h_modify h a (\<lambda>c. c\<lparr>cj_prev := current\<rparr>));
     h2 \<leftarrow> h_modify h1 item (\<lambda>c. c\<lparr>cj_type := t, cj_child := head\<rparr>);
     Some (True, h2, advance 1 (b\<lparr>pb_depth := pb_depth b - 1\<rparr>))
   }"

definition parse_fail :: "ptr \<Rightarrow> 'd cjson heap \<Rightarrow> parse_buffer \<Rightarrow> 'd parse_result" where
  "parse_fail head h b = do { h1 \<leftarrow> cJSON_Delete head h; Some (False, h1, b) }"

text \<open>One round of the loop over the elements of an array: whether the element was parsed, the list, heap and buffer.\<close>

type_synonym 'd parser = "addr \<Rightarrow> 'd cjson heap \<Rightarrow> parse_buffer \<Rightarrow> 'd parse_result"
type_synonym 'd round_result = "(bool \<times> ptr \<times> ptr \<times> 'd cjson heap \<times> parse_buffer) option"

definition parse_element :: "'d dbl_ops \<Rightarrow> 'd parser \<Rightarrow> ptr \<Rightarrow> ptr \<Rightarrow> 'd cjson heap \<Rightarrow> parse_buffer \<Rightarrow> 'd round_result" where
  "parse_element D pv head current h b = (case cJSON_New_Item D h of
     (None, h1) \<Rightarrow> Some (False, head, current, h1, b)
   | (Some new_item, h1) \<Rightarrow> do {
       (head1, h2) \<leftarrow> attach_item head current new_item h1;
       (parsed, h3, b1) \<leftarrow> pv new_item h2 (buffer_skip_whitespace (advance 1 b));
       Some (parsed, head1, Some new_item, h3, if parsed then buffer_skip_whitespace b1 else b1)
     })"

definition parse_member :: "'d dbl_ops \<Rightarrow> 'd parser \<Rightarrow> ptr \<Rightarrow> ptr \<Rightarrow> 'd cjson heap \<Rightarrow> parse_buffer \<Rightarrow> 'd round_result" where
  "parse_member D pv head current h b = (case cJSON_New_Item D h of
     (None, h1) \<Rightarrow> Some (False, head, current, h1, b)
   | (Some new_item, h1) \<Rightarrow> do {
       (head1, h2) \<leftarrow> attach_item head current new_item h1;
       (if \<not> can_access_at_index b 1 then Some (False, head1, Some new_item, h2, b)
        else do {
          (named, h3, b1) \<leftarrow> parse_string new_item h2 (buffer_skip_whitespace (advance 1 b));
          (if \<not> named then Some (False, head1, Some new_item, h3, b1)
           else do {
             h4 \<leftarrow> h_modify h3 new_item (\<lambda>c. c\<lparr>cj_string := cj_valuestring c, cj_valuestring := None\<rparr>);
             let b2 = buffer_skip_whitespace b1;
             (if \<not> buffer_next_is b2 (CHR '':'') then Some (False, head1, Some new_item, h4, b2)
              else do {
                (parsed, h5, b3) \<leftarrow> pv new_item h4 (buffer_skip_whitespace (advance 1 b2));
                Some (parsed, head1, Some new_item, h5, if parsed then buffer_skip_whitespace b3 else b3)
              })
           })
        })
     })"

text \<open>The loop of both, over rounds.\<close>

partial_function (option) parse_rounds ::
  "(ptr \<Rightarrow> ptr \<Rightarrow> 'd cjson heap \<Rightarrow> parse_buffer \<Rightarrow> 'd round_result) \<Rightarrow> ptr \<Rightarrow> ptr \<Rightarrow> 'd cjson heap \<Rightarrow> parse_buffer \<Rightarrow> 'd round_result" where
  "parse_rounds round head current h b = do {
     (parsed, head1, current1, h1, b1) \<leftarrow> round head current h b;
     (if parsed \<and> buffer_next_is b1 (CHR '','') then parse_rounds round head1 current1 h1 b1
      else Some (parsed, head1, current1, h1, b1))
   }"

definition parse_array :: "'d dbl_ops \<Rightarrow> 'd parser \<Rightarrow> 'd parser" where
  "parse_array D pv item h b0 =
     (if pb_depth b0 \<ge> CJSON_NESTING_LIMIT then Some (False, h, b0)
      else let b = b0\<lparr>pb_depth := pb_depth b0 + 1\<rparr> in do {
        c \<leftarrow> buffer_at_offset b 0;
        (if c \<noteq> CHR ''['' then Some (False, h, b)
         else
           let b1 = buffer_skip_whitespace (advance 1 b) in
           if buffer_next_is b1 (CHR '']'') then parse_success cJSON_Array item None None h b1
           else if \<not> can_access_at_index b1 0 then Some (False, h, step_back b1)
           else do {
             (parsed, head, current, h1, b2) \<leftarrow> parse_rounds (parse_element D pv) None None h (step_back b1);
             (if parsed \<and> buffer_next_is b2 (CHR '']'') then parse_success cJSON_Array item head current h1 b2
              else parse_fail head h1 b2)
           })
      })"

definition parse_object :: "'d dbl_ops \<Rightarrow> 'd parser \<Rightarrow> 'd parser" where
  "parse_object D pv item h b0 =
     (if pb_depth b0 \<ge> CJSON_NESTING_LIMIT then Some (False, h, b0)
      else
        let b = b0\<lparr>pb_depth := pb_depth b0 + 1\<rparr> in
        if \<not> buffer_next_is b (CHR ''{'') then Some (False, h, b)
        else
          let b1 = buffer_skip_whitespace (advance 1 b) in
          if buffer_next_is b1 (CHR ''}'') then parse_success cJSON_Object item None None h b1
          else if \<not> can_access_at_index b1 0 then Some (False, h, step_back b1)
          else do {
            (parsed, head, current, h1, b2) \<leftarrow> parse_rounds (parse_member D pv) None None h (step_back b1);
            (if parsed \<and> buffer_next_is b2 (CHR ''}'') then parse_success cJSON_Object item head current h1 b2
             else parse_fail head h1 b2)
          })"

section \<open>Values\<close>

text \<open>Is the next character the first of a number?\<close>

definition starts_number :: "parse_buffer \<Rightarrow> bool" where
  "starts_number b = (can_access_at_index b 0 \<and> (case buffer_at_offset b 0 of None \<Rightarrow> False | Some c \<Rightarrow> c = CHR ''-'' \<or> is_digit c))"

primrec parse_value :: "nat \<Rightarrow> 'd dbl_ops \<Rightarrow> 'd num_io \<Rightarrow> 'd parser" where
  "parse_value 0 D N item h b = None"
| "parse_value (Suc fuel) D N item h b =
     (if buffer_has b ''null'' then do {
        h1 \<leftarrow> h_modify h item (\<lambda>c. c\<lparr>cj_type := cJSON_NULL\<rparr>);
        Some (True, h1, advance 4 b)
      }
      else if buffer_has b ''false'' then do {
        h1 \<leftarrow> h_modify h item (\<lambda>c. c\<lparr>cj_type := cJSON_False\<rparr>);
        Some (True, h1, advance 5 b)
      }
      else if buffer_has b ''true'' then do {
        h1 \<leftarrow> h_modify h item (\<lambda>c. c\<lparr>cj_type := cJSON_True, cj_valueint := 1\<rparr>);
        Some (True, h1, advance 4 b)
      }
      else if buffer_next_is b (CHR 0x22) then parse_string item h b
      else if starts_number b then parse_number D N item h b
      else if buffer_next_is b (CHR ''['') then parse_array D (parse_value fuel D N) item h b
      else if buffer_next_is b (CHR ''{'') then parse_object D (parse_value fuel D N) item h b
      else Some (False, h, b))"

text \<open>
  The item, the position stored through \<^verbatim>\<open>return_parse_end\<close> (and, on failure, in the global error), and
  the heap. There is no position when the input is \<open>NULL\<close>.
\<close>

definition cJSON_ParseWithLengthOpts ::
  "'d dbl_ops \<Rightarrow> 'd num_io \<Rightarrow> string option \<Rightarrow> bool \<Rightarrow> 'd cjson heap \<Rightarrow> (ptr \<times> nat option \<times> 'd cjson heap) option" where
  "cJSON_ParseWithLengthOpts D N value require_null_terminated h = (case value of
     None \<Rightarrow> Some (None, None, h)
   | Some s \<Rightarrow>
       let failed = (\<lambda>b. if pb_offset b < length s then pb_offset b else if length s > 0 then length s - 1 else 0);
           buffer = \<lparr>pb_content = s, pb_offset = 0, pb_depth = 0\<rparr> in
       if length s = 0 then Some (None, Some 0, h)
       else (case cJSON_New_Item D h of
           (None, h1) \<Rightarrow> Some (None, Some (failed buffer), h1)
         | (Some item, h1) \<Rightarrow> do {
             (parsed, h2, b) \<leftarrow> parse_value (CJSON_NESTING_LIMIT + 1) D N item h1 (buffer_skip_whitespace (skip_utf8_bom buffer));
             let b1 = (if require_null_terminated then buffer_skip_whitespace b else b);
             (if \<not> parsed then do { h3 \<leftarrow> cJSON_Delete (Some item) h2; Some (None, Some (failed b), h3) }
              else if require_null_terminated \<and> \<not> buffer_next_is b1 NUL then
                do { h3 \<leftarrow> cJSON_Delete (Some item) h2; Some (None, Some (failed b1), h3) }
              else Some (Some item, Some (pb_offset b1), h2))
           }))"

definition cJSON_ParseWithLength :: "'d dbl_ops \<Rightarrow> 'd num_io \<Rightarrow> string option \<Rightarrow> 'd cjson heap \<Rightarrow> (ptr \<times> 'd cjson heap) option" where
  "cJSON_ParseWithLength D N value h =
     map_option (\<lambda>(item, _, h1). (item, h1)) (cJSON_ParseWithLengthOpts D N value False h)"

end
