(* ===== verification/CJsonTree.thy ===== *)
theory CJsonTree
  imports CJsonParse
begin

unbundle bit_operations_syntax

text \<open>
  What the items of a JSON value look like on the heap: trees of cells, with the links among siblings, the
  values they stand for, what deleting them frees, and how lists of them are built.
\<close>

section \<open>Trees\<close>

datatype 'd jnode = JNode addr "'d cjson" "'d jnode list"

primrec node_addr :: "'d jnode \<Rightarrow> addr" where
  "node_addr (JNode a c ks) = a"

primrec node_cell :: "'d jnode \<Rightarrow> 'd cjson" where
  "node_cell (JNode a c ks) = c"

fun flat :: "'d jnode list \<Rightarrow> (addr \<times> 'd cjson) list" where
  "flat [] = []"
| "flat (JNode a c ks # ts) = (a, c) # flat ks @ flat ts"

text \<open>The first of a finished list points back to the last.\<close>

definition ring :: "'d jnode list \<Rightarrow> bool" where
  "ring ts \<longleftrightarrow> ts = [] \<or> cj_prev (node_cell (hd ts)) = Some (node_addr (last ts))"

text \<open>The links: siblings from \<open>p\<close> on, and below each of them its children. Nothing is a reference.\<close>

fun linked :: "ptr \<Rightarrow> 'd jnode list \<Rightarrow> bool" where
  "linked p [] \<longleftrightarrow> p = None"
| "linked p (JNode a c ks # ts) \<longleftrightarrow> p = Some a \<and> cj_type c AND cJSON_IsReference = 0 \<and> linked (cj_child c) ks \<and> ring ks \<and> linked (cj_next c) ts"

definition cells_at :: "(addr \<Rightarrow> 'd cjson option) \<Rightarrow> (addr \<times> 'd cjson) list \<Rightarrow> bool" where
  "cells_at m xs \<longleftrightarrow> (\<forall>(a, c) \<in> set xs. m a = Some c)"

section \<open>Values\<close>

datatype 'd json =
    JsNull
  | JsBool bool
  | JsNumber 'd
  | JsString string
  | JsArray "'d json list"
  | JsObject "(string \<times> 'd json) list"

text \<open>A node, or a list of them, stands for a value; names count for the members of objects only.\<close>

fun node_is :: "'d dbl_ops \<Rightarrow> 'd json \<Rightarrow> 'd jnode \<Rightarrow> bool"
  and nodes_are :: "'d dbl_ops \<Rightarrow> 'd json list \<Rightarrow> 'd jnode list \<Rightarrow> bool"
  and members_are :: "'d dbl_ops \<Rightarrow> (string \<times> 'd json) list \<Rightarrow> 'd jnode list \<Rightarrow> bool" where
  "node_is D JsNull (JNode a c ks) \<longleftrightarrow> cj_type c AND 0xFF = cJSON_NULL \<and> ks = []"
| "node_is D (JsBool b) (JNode a c ks) \<longleftrightarrow> cj_type c AND 0xFF = (if b then cJSON_True else cJSON_False) \<and> ks = []"
| "node_is D (JsNumber d) (JNode a c ks) \<longleftrightarrow> cj_type c AND 0xFF = cJSON_Number \<and> cj_valuedouble c = d \<and> cj_valueint c = dbl_saturate D d \<and> ks = []"
| "node_is D (JsString s) (JNode a c ks) \<longleftrightarrow> cj_type c AND 0xFF = cJSON_String \<and> cj_valuestring c = Some s \<and> ks = []"
| "node_is D (JsArray vs) (JNode a c ks) \<longleftrightarrow> cj_type c AND 0xFF = cJSON_Array \<and> nodes_are D vs ks"
| "node_is D (JsObject kvs) (JNode a c ks) \<longleftrightarrow> cj_type c AND 0xFF = cJSON_Object \<and> members_are D kvs ks"
| "nodes_are D [] ts \<longleftrightarrow> ts = []"
| "nodes_are D (v # vs) ts \<longleftrightarrow> (case ts of [] \<Rightarrow> False | t # ts' \<Rightarrow> node_is D v t \<and> nodes_are D vs ts')"
| "members_are D [] ts \<longleftrightarrow> ts = []"
| "members_are D ((k, v) # kvs) ts \<longleftrightarrow>
     (case ts of [] \<Rightarrow> False | t # ts' \<Rightarrow> cj_string (node_cell t) = Some k \<and> node_is D v t \<and> members_are D kvs ts')"

text \<open>A value on the heap, at \<open>a\<close>.\<close>

definition json_at :: "'d dbl_ops \<Rightarrow> 'd cjson heap \<Rightarrow> addr \<Rightarrow> 'd json \<Rightarrow> bool" where
  "json_at D h a v \<longleftrightarrow> heap_ok h \<and> (\<exists>c ks. cells_at (hp_mem h) (flat [JNode a c ks]) \<and> distinct (map fst (flat [JNode a c ks])) \<and>
     linked (Some a) [JNode a (c\<lparr>cj_next := None\<rparr>) ks] \<and> node_is D v (JNode a c ks))"

section \<open>Lists of nodes\<close>

lemma flat_append [simp]: "flat (xs @ ys) = flat xs @ flat ys"
  by (induction xs rule: flat.induct) simp_all

lemma cells_at_simps [simp]:
  "cells_at m []" "cells_at m ((a, c) # xs) \<longleftrightarrow> m a = Some c \<and> cells_at m xs"
  "cells_at m (xs @ ys) \<longleftrightarrow> cells_at m xs \<and> cells_at m ys"
  by (auto simp: cells_at_def)

lemma cells_at_cong: "cells_at m xs \<Longrightarrow> \<forall>a \<in> fst ` set xs. m' a = m a \<Longrightarrow> cells_at m' xs"
  by (fastforce simp: cells_at_def)

lemma map_of_cells: "distinct (map fst xs) \<Longrightarrow> cells_at (m ++ map_of xs) xs"
  by (auto simp: cells_at_def map_add_Some_iff)

lemma nodes_are_iff: "nodes_are D vs ts \<longleftrightarrow> list_all2 (node_is D) vs ts"
  by (induction vs arbitrary: ts) (auto split: list.split)

lemma members_are_iff: "members_are D kvs ts \<longleftrightarrow> list_all2 (\<lambda>(k, v) t. cj_string (node_cell t) = Some k \<and> node_is D v t) kvs ts"
proof (induction kvs arbitrary: ts)
  case (Cons kv kvs)
  then show ?case by (cases kv) (auto split: list.split)
qed simp

lemma node_is_links:
  "cj_type c' = cj_type c \<Longrightarrow> cj_valuestring c' = cj_valuestring c \<Longrightarrow> cj_valueint c' = cj_valueint c \<Longrightarrow>
   cj_valuedouble c' = cj_valuedouble c \<Longrightarrow> node_is D v (JNode a c' ks) = node_is D v (JNode a c ks)"
  by (cases v) simp_all

section \<open>Deleting\<close>

lemma delete_nodes:
  assumes "linked p ts" and "cells_at (hp_mem h) (flat ts)" and "distinct (map fst (flat ts))"
  shows "\<exists>h'. cJSON_Delete p h = Some h' \<and> hp_mem h' = hp_mem h |` (- fst ` set (flat ts)) \<and> hp_brk h' = hp_brk h \<and> hp_oom h' = hp_oom h"
  using assms
proof (induction ts arbitrary: p h rule: flat.induct)
  case 1
  then show ?case by (simp add: cJSON_Delete.simps)
next
  case (2 a c ks ts)
  have c: "p = Some a" "cj_type c AND cJSON_IsReference = 0" "linked (cj_child c) ks" "linked (cj_next c) ts" "hp_mem h a = Some c"
    and ks: "cells_at (hp_mem h) (flat ks)" "distinct (map fst (flat ks))"
    and ts: "cells_at (hp_mem h) (flat ts)" "distinct (map fst (flat ts))"
    and d: "a \<notin> fst ` set (flat ks)" "a \<notin> fst ` set (flat ts)" "fst ` set (flat ks) \<inter> fst ` set (flat ts) = {}"
    using "2.prems" by auto
  obtain h1 where h1: "cJSON_Delete (cj_child c) h = Some h1" "hp_mem h1 = hp_mem h |` (- fst ` set (flat ks))" "hp_brk h1 = hp_brk h" "hp_oom h1 = hp_oom h"
    using "2.IH"(1) [OF c(3) ks] by blast
  have step1: "(if cj_type c AND cJSON_IsReference = 0 \<and> cj_child c \<noteq> None then cJSON_Delete (cj_child c) h else Some h) = Some h1"
  proof (cases "cj_child c")
    case None
    then show ?thesis using h1(1) by (simp add: cJSON_Delete.simps)
  qed (use c(2) h1(1) in simp)
  let ?h2 = "h1\<lparr>hp_mem := (hp_mem h1)(a := None)\<rparr>"
  have free: "h_free h1 a = Some ?h2" using c(5) d(1) h1(2) by (simp add: h_free_def)
  have "cells_at (hp_mem ?h2) (flat ts)" by (rule cells_at_cong [OF ts(1)]) (use d h1(2) in \<open>auto simp: restrict_map_def\<close>)
  from "2.IH"(2) [OF c(4) this ts(2)] obtain h3 where h3: "cJSON_Delete (cj_next c) ?h2 = Some h3"
    "hp_mem h3 = hp_mem ?h2 |` (- fst ` set (flat ts))" "hp_brk h3 = hp_brk ?h2" "hp_oom h3 = hp_oom ?h2" by blast
  have "cJSON_Delete p h = Some h3" using c(1,5) step1 free h3(1) by (subst cJSON_Delete.simps) simp
  moreover have "hp_mem h3 = hp_mem h |` (- fst ` set (flat (JNode a c ks # ts)))"
    using h3(2) h1(2) by (auto simp: restrict_map_def fun_eq_iff)
  ultimately show ?case using h3(3,4) h1(3,4) by (intro exI [of _ h3]) simp
qed

section \<open>Heaps that have grown\<close>

text \<open>From \<open>h0\<close> to \<open>h\<close> the cells \<open>xs\<close> are new, and nothing else has changed.\<close>

definition grows :: "'c heap \<Rightarrow> 'c heap \<Rightarrow> (addr \<times> 'c) list \<Rightarrow> bool" where
  "grows h0 h xs \<longleftrightarrow> heap_ok h \<and> hp_oom h = hp_oom h0 \<and> hp_brk h0 \<le> hp_brk h \<and> (\<forall>(a, c) \<in> set xs. hp_mem h a = Some c) \<and>
     (\<forall>a. a \<notin> fst ` set xs \<longrightarrow> hp_mem h a = hp_mem h0 a) \<and> distinct (map fst xs) \<and> (\<forall>a \<in> fst ` set xs. hp_brk h0 \<le> a)"

lemma growsD:
  assumes "grows h0 h xs"
  shows "heap_ok h" "hp_oom h = hp_oom h0" "hp_brk h0 \<le> hp_brk h" "(a, c) \<in> set xs \<Longrightarrow> hp_mem h a = Some c"
    "a \<notin> fst ` set xs \<Longrightarrow> hp_mem h a = hp_mem h0 a" "distinct (map fst xs)" "a \<in> fst ` set xs \<Longrightarrow> hp_brk h0 \<le> a"
    "a \<in> fst ` set xs \<Longrightarrow> a < hp_brk h" "hp_mem h0 a = Some c' \<Longrightarrow> heap_ok h0 \<Longrightarrow> a \<notin> fst ` set xs"
proof -
  show ok: "heap_ok h" and "hp_oom h = hp_oom h0" and "hp_brk h0 \<le> hp_brk h" and "distinct (map fst xs)"
    using assms by (simp_all add: grows_def)
  show "hp_mem h a = Some c" if "(a, c) \<in> set xs" for a c using assms that by (auto simp: grows_def)
  then have at: "hp_mem h a \<noteq> None" if "a \<in> fst ` set xs" for a using that by fastforce
  show "hp_mem h a = hp_mem h0 a" if "a \<notin> fst ` set xs" for a using assms that by (simp add: grows_def)
  show ge: "hp_brk h0 \<le> a" if "a \<in> fst ` set xs" for a using assms that unfolding grows_def by blast
  show "a < hp_brk h" if "a \<in> fst ` set xs" for a using at [OF that] ok by (meson heap_ok_def not_le)
  show "a \<notin> fst ` set xs" if "hp_mem h0 a = Some c'" "heap_ok h0" for a c'
    using ge [of a] that unfolding heap_ok_def by (metis option.distinct(1))
qed

lemma grows_cells: "grows h0 h xs \<Longrightarrow> cells_at (hp_mem h) xs"
  unfolding cells_at_def using growsD(4) by fast

lemma grows_nothing: "grows h0 h [] \<longleftrightarrow> heap_ok h \<and> hp_oom h = hp_oom h0 \<and> hp_brk h0 \<le> hp_brk h \<and> hp_mem h = hp_mem h0"
  by (auto simp: grows_def)

lemma grows_refl: "heap_ok h \<Longrightarrow> grows h h []"
  by (simp add: grows_nothing)

lemma grows_trans_nothing: "grows h0 h1 [] \<Longrightarrow> grows h1 h2 xs \<Longrightarrow> grows h0 h2 xs"
  unfolding grows_def by fastforce

lemma grows_then_nothing: "grows h0 h1 xs \<Longrightarrow> grows h1 h2 [] \<Longrightarrow> grows h0 h2 xs"
  unfolding grows_def by auto

lemma grows_update:
  assumes g: "grows h0 h xs" and a: "hp_mem h0 a = Some c" "heap_ok h0"
  shows "grows (h0\<lparr>hp_mem := (hp_mem h0)(a \<mapsto> c')\<rparr>) (h\<lparr>hp_mem := (hp_mem h)(a \<mapsto> c')\<rparr>) xs"
proof -
  have n: "a \<notin> fst ` set xs" using growsD(9) [OF g a] .
  then have at: "\<forall>(x, d) \<in> set xs. ((hp_mem h)(a \<mapsto> c')) x = Some d" using growsD(4) [OF g] by force
  have "a < hp_brk h" using a growsD(3) [OF g] unfolding heap_ok_def by (metis leI option.distinct(1) order_trans)
  then have "heap_ok (h\<lparr>hp_mem := (hp_mem h)(a \<mapsto> c')\<rparr>)" using growsD(1) [OF g] by (simp add: heap_ok_def)
  then show ?thesis using at growsD(2,3,5,6,7) [OF g] n unfolding grows_def by simp
qed

text \<open>Deleting what is new gives the heap back.\<close>

lemma delete_new:
  assumes "grows h0 h (flat ts)" and "linked p ts" and "heap_ok h0"
  shows "\<exists>h'. cJSON_Delete p h = Some h' \<and> grows h0 h' []"
proof -
  obtain h' where h': "cJSON_Delete p h = Some h'" "hp_mem h' = hp_mem h |` (- fst ` set (flat ts))" "hp_brk h' = hp_brk h" "hp_oom h' = hp_oom h"
    using delete_nodes [OF assms(2) grows_cells [OF assms(1)] growsD(6) [OF assms(1)]] by blast
  have "hp_mem h' a = hp_mem h0 a" for a
    using h'(2) growsD(5) [OF assms(1), of a] growsD(7) [OF assms(1), of a] assms(3) by (cases "a \<in> fst ` set (flat ts)") (auto simp: heap_ok_def)
  moreover have "heap_ok h'" using growsD(1) [OF assms(1)] h'(2,3) by (auto simp: heap_ok_def restrict_map_def)
  ultimately show ?thesis using h'(1,3,4) growsD(2,3) [OF assms(1)] by (intro exI [of _ h']) (simp add: grows_nothing fun_eq_iff)
qed

section \<open>Lists under construction\<close>

text \<open>The list \<open>ts\<close> has been built since \<open>h0\<close>.\<close>

definition chain_at :: "'d cjson heap \<Rightarrow> 'd cjson heap \<Rightarrow> ptr \<Rightarrow> ptr \<Rightarrow> 'd jnode list \<Rightarrow> bool" where
  "chain_at h0 h head current ts \<longleftrightarrow> grows h0 h (flat ts) \<and> linked head ts \<and> current = (if ts = [] then None else Some (node_addr (last ts)))"

lemma linked_last:
  "linked p (us @ [JNode a c ks]) \<Longrightarrow> cj_next c' = cj_next c \<Longrightarrow> cj_type c' AND cJSON_IsReference = 0 \<Longrightarrow> linked (cj_child c') ks' \<Longrightarrow> ring ks' \<Longrightarrow>
   linked p (us @ [JNode a c' ks'])"
proof (induction us arbitrary: p)
  case (Cons u us)
  then show ?case by (cases u) simp
qed simp

lemma linked_extend:
  "linked p (us @ [JNode l c ks]) \<Longrightarrow> cj_next n = None \<Longrightarrow> cj_child n = None \<Longrightarrow> cj_type n AND cJSON_IsReference = 0 \<Longrightarrow>
   linked p (us @ [JNode l (c\<lparr>cj_next := Some a\<rparr>) ks, JNode a n []])"
proof (induction us arbitrary: p)
  case (Cons u us)
  then show ?case by (cases u) simp
qed (simp add: ring_def)

lemma linked_first: "linked p ts \<Longrightarrow> ts \<noteq> [] \<Longrightarrow> p = Some (node_addr (hd ts))"
  by (cases ts rule: flat.cases) simp_all

lemma linked_first_prev:
  "linked p (JNode a c ks # ts) \<Longrightarrow> linked p (JNode a (c\<lparr>cj_prev := q\<rparr>) ks # ts)"
  by simp

text \<open>The last node is filled in.\<close>

lemma chain_fill:
  assumes ch: "chain_at h0 h head current (us @ [JNode a c []])" and h0: "heap_ok h0"
    and g: "grows (h\<lparr>hp_mem := (hp_mem h)(a \<mapsto> c')\<rparr>) h' (flat ks)"
    and c': "cj_next c' = cj_next c" "cj_type c' AND cJSON_IsReference = 0" "linked (cj_child c') ks" "ring ks"
  shows "chain_at h0 h' head current (us @ [JNode a c' ks])"
proof -
  have gh: "grows h0 h (flat us @ [(a, c)])" "linked head (us @ [JNode a c []])" "current = Some a" using ch by (simp_all add: chain_at_def)
  have lt: "x \<in> fst ` set (flat us) \<Longrightarrow> x < hp_brk h \<and> x \<noteq> a" "a < hp_brk h" for x
    using growsD(8) [OF gh(1)] growsD(6) [OF gh(1)] by auto
  have new: "x \<in> fst ` set (flat ks) \<Longrightarrow> hp_brk h \<le> x" for x using growsD(7) [OF g] by simp
  have a: "a \<notin> fst ` set (flat ks)" using new lt(2) by force
  have old: "hp_mem h' x = (if x = a then Some c' else hp_mem h x)" if "x \<notin> fst ` set (flat ks)" for x using growsD(5) [OF g that] by simp
  have "grows h0 h' (flat us @ (a, c') # flat ks)"
    unfolding grows_def
  proof (intro conjI ballI allI impI)
    show "heap_ok h'" using growsD(1) [OF g] .
    show "hp_oom h' = hp_oom h0" using growsD(2) [OF g] growsD(2) [OF gh(1)] by simp
    show "hp_brk h0 \<le> hp_brk h'" using growsD(3) [OF g] growsD(3) [OF gh(1)] by simp
    fix x assume "x \<in> set (flat us @ (a, c') # flat ks)"
    then consider "x \<in> set (flat us)" | "x = (a, c')" | "x \<in> set (flat ks)" by auto
    then have "hp_mem h' (fst x) = Some (snd x)"
    proof cases
      case 1
      then have "fst x < hp_brk h" "fst x \<noteq> a" using lt(1) by blast+
      moreover have "fst x \<notin> fst ` set (flat ks)" using calculation(1) new by force
      ultimately show ?thesis using 1 old growsD(4) [OF gh(1), of "fst x" "snd x"] by simp
    next
      case 2
      then show ?thesis using old a by simp
    next
      case 3
      then show ?thesis using growsD(4) [OF g, of "fst x" "snd x"] by simp
    qed
    then show "case x of (a, c) \<Rightarrow> hp_mem h' a = Some c" by (cases x) simp
  next
    fix x assume "x \<notin> fst ` set (flat us @ (a, c') # flat ks)"
    then have "x \<notin> fst ` set (flat ks)" "x \<noteq> a" "x \<notin> fst ` set (flat us @ [(a, c)])" by auto
    then show "hp_mem h' x = hp_mem h0 x" using old growsD(5) [OF gh(1)] by simp
  next
    show "distinct (map fst (flat us @ (a, c') # flat ks))"
      using growsD(6) [OF gh(1)] growsD(6) [OF g] a lt(1) new by (fastforce simp: disjoint_iff)
  next
    fix x assume "x \<in> fst ` set (flat us @ (a, c') # flat ks)"
    then have "x \<in> fst ` set (flat us @ [(a, c)]) \<or> x \<in> fst ` set (flat ks)" by auto
    then show "hp_brk h0 \<le> x" using growsD(7) [OF gh(1)] new growsD(3) [OF gh(1)] le_trans by blast
  qed
  then show ?thesis using linked_last [OF gh(2) c'] gh(3) by (simp add: chain_at_def)
qed

text \<open>A new item is attached; \<open>relink\<close> is what becomes of the list before it.\<close>

fun relink :: "'d jnode list \<Rightarrow> addr \<Rightarrow> 'd jnode list" where
  "relink [] a = []"
| "relink [JNode l c ks] a = [JNode l (c\<lparr>cj_next := Some a\<rparr>) ks]"
| "relink (t # ts) a = t # relink ts a"

lemma relink_snoc [simp]: "relink (us @ [JNode l c ks]) a = us @ [JNode l (c\<lparr>cj_next := Some a\<rparr>) ks]"
proof (induction us)
  case (Cons u us)
  then show ?case by (cases us; cases u) simp_all
qed simp

lemma chain_attach:
  assumes ch: "chain_at h0 h head current ts" and n: "h_alloc h n = (Some a, h1)" "cj_next n = None" "cj_child n = None" "cj_prev n = None" "cj_type n AND cJSON_IsReference = 0"
  shows "\<exists>head1 h2. attach_item head current a h1 = Some (head1, h2) \<and> hp_mem h2 a = Some (n\<lparr>cj_prev := current\<rparr>) \<and>
    chain_at h0 h2 head1 (Some a) (relink ts a @ [JNode a (n\<lparr>cj_prev := current\<rparr>) []])"
proof -
  have g: "grows h0 h (flat ts)" "linked head ts" using ch by (simp_all add: chain_at_def)
  have h1: "a = hp_brk h" "h1 = h\<lparr>hp_mem := (hp_mem h)(a \<mapsto> n), hp_brk := Suc (hp_brk h)\<rparr>" using n(1) by (auto simp: h_alloc_def split: if_splits)
  have ok: "heap_ok h" using growsD(1) [OF g(1)] .
  show ?thesis
  proof (cases ts rule: rev_cases)
    case Nil
    then have hd: "head = None" "current = None" using ch by (simp_all add: chain_at_def)
    have mem: "hp_mem h = hp_mem h0" using g(1) Nil by (simp add: grows_nothing)
    have "grows h0 h1 [(a, n)]" using g(1) Nil h1 ok mem by (auto simp: grows_def heap_ok_def)
    moreover have "n\<lparr>cj_prev := None\<rparr> = n" using n(4) by (cases n) simp
    ultimately have "grows h0 h1 [(a, n\<lparr>cj_prev := None\<rparr>)]" by simp
    then show ?thesis using Nil hd h1(2) n by (simp add: attach_item_def chain_at_def ring_def \<open>n\<lparr>cj_prev := None\<rparr> = n\<close>)
  next
    case (snoc us t)
    obtain l c ks where t: "t = JNode l c ks" by (cases t)
    have cur: "current = Some l" using ch snoc t by (simp add: chain_at_def)
    obtain f where f: "head = Some f" using g(2) snoc linked_first by blast
    have gf: "grows h0 h (flat us @ (l, c) # flat ks)" using g(1) snoc t by simp
    have l: "hp_mem h l = Some c" "l \<noteq> a" using growsD(4) [OF gf, of l c] growsD(8) [OF gf, of l] h1(1) by auto
    let ?h2 = "h1\<lparr>hp_mem := (hp_mem h)(a \<mapsto> n\<lparr>cj_prev := current\<rparr>, l \<mapsto> c\<lparr>cj_next := Some a\<rparr>)\<rparr>"
    have at: "attach_item head current a h1 = Some (head, ?h2)"
      using f cur h1(2) l by (simp add: attach_item_def h_modify_def fun_upd_twist)
    have lu: "l \<notin> fst ` set (flat us)" "l \<notin> fst ` set (flat ks)" using growsD(6) [OF gf] by auto
    have na: "x \<noteq> a" if "x \<in> fst ` set (flat us @ (l, c) # flat ks)" for x using growsD(8) [OF gf that] h1(1) by simp
    have "grows h0 ?h2 (flat us @ (l, c\<lparr>cj_next := Some a\<rparr>) # flat ks @ [(a, n\<lparr>cj_prev := current\<rparr>)])"
      unfolding grows_def
    proof (intro conjI ballI allI impI)
      show "heap_ok ?h2" using ok h1 l by (auto simp: heap_ok_def)
      show "hp_oom ?h2 = hp_oom h0" using growsD(2) [OF gf] h1(2) by simp
      show "hp_brk h0 \<le> hp_brk ?h2" using growsD(3) [OF gf] h1(2) by simp
      fix x assume "x \<in> set (flat us @ (l, c\<lparr>cj_next := Some a\<rparr>) # flat ks @ [(a, n\<lparr>cj_prev := current\<rparr>)])"
      then consider "x \<in> set (flat us) \<union> set (flat ks)" | "x = (l, c\<lparr>cj_next := Some a\<rparr>)" | "x = (a, n\<lparr>cj_prev := current\<rparr>)" by auto
      then have "hp_mem ?h2 (fst x) = Some (snd x)"
      proof cases
        case 1
        then have "fst x \<noteq> l" "fst x \<noteq> a" "hp_mem h (fst x) = Some (snd x)"
          using lu na [of "fst x"] growsD(4) [OF gf, of "fst x" "snd x"] by auto
        then show ?thesis by simp
      qed (use l in auto)
      then show "case x of (a, c) \<Rightarrow> hp_mem ?h2 a = Some c" by (cases x) simp
    next
      fix x assume "x \<notin> fst ` set (flat us @ (l, c\<lparr>cj_next := Some a\<rparr>) # flat ks @ [(a, n\<lparr>cj_prev := current\<rparr>)])"
      then show "hp_mem ?h2 x = hp_mem h0 x" using growsD(5) [OF gf, of x] by auto
    next
      show "distinct (map fst (flat us @ (l, c\<lparr>cj_next := Some a\<rparr>) # flat ks @ [(a, n\<lparr>cj_prev := current\<rparr>)]))"
        using growsD(6) [OF gf] na l(2) by auto
    next
      fix x assume "x \<in> fst ` set (flat us @ (l, c\<lparr>cj_next := Some a\<rparr>) # flat ks @ [(a, n\<lparr>cj_prev := current\<rparr>)])"
      then show "hp_brk h0 \<le> x" using growsD(3,7) [OF gf] h1(1) by auto
    qed
    moreover have "linked head (us @ [JNode l (c\<lparr>cj_next := Some a\<rparr>) ks, JNode a (n\<lparr>cj_prev := current\<rparr>) []])"
      using g(2) snoc t n by (intro linked_extend) simp_all
    ultimately show ?thesis using at l(2) snoc t by (simp add: chain_at_def)
  qed
qed

end
