(* ===== verification/CJsonString.thy ===== *)
theory CJsonString
  imports CJsonParse
begin

unbundle bit_operations_syntax

text \<open>
  Strings in the parser: the block for the output is large enough whatever the input is, although the
  two passes over a string may disagree about which characters a backslash belongs to; a literal is
  turned into the UTF-8 form of its code point.
\<close>

section \<open>Reading hexadecimal digits\<close>

lemma hex_digit_less: "hex_digit c = Some d \<Longrightarrow> d < 16"
  by (auto simp: hex_digit_def Let_def split: if_splits)

lemma parse_hex4_loop_defined:
  "i + k \<le> length s \<Longrightarrow> h mod 16 = 0 \<Longrightarrow> h < 16 ^ (5 - k) \<Longrightarrow> k \<le> 4 \<Longrightarrow> k > 0 \<Longrightarrow>
   \<exists>v. parse_hex4_loop s i k h = Some v \<and> v < 65536"
proof (induction k arbitrary: i h)
  case (Suc k)
  have at: "s_at s i = Some (s ! i)" using Suc.prems(1) by (simp add: s_at_def)
  show ?case
  proof (cases "hex_digit (s ! i)")
    case (Some d)
    have d: "d < 16" using Some by (rule hex_digit_less)
    obtain q where q: "h = 16 * q" using Suc.prems(2) by (auto elim: dvdE simp: mod_0_imp_dvd dest: mod_0_imp_dvd)
    show ?thesis
    proof (cases "k = 0")
      case True
      then have "h + d < 65536" using q d Suc.prems(3) by simp
      then show ?thesis using True at Some by simp
    next
      case False
      have "(h + d) * 16 < 16 ^ (5 - k)"
      proof -
        have "5 - k = Suc (5 - Suc k)" "5 - Suc k = Suc (4 - Suc k)" using Suc.prems(4) by simp_all
        moreover have "q < 16 ^ (4 - Suc k)" using Suc.prems(3) q calculation(2) by simp
        ultimately show ?thesis using q d by simp
      qed
      then have "\<exists>v. parse_hex4_loop s (Suc i) k (push_bit 4 (h + d)) = Some v \<and> v < 65536"
        using Suc.prems False by (intro Suc.IH) (simp_all add: push_bit_nat_def)
      then show ?thesis using False at Some by simp
    qed
  qed (use at in simp)
qed simp

lemma parse_hex4_defined: "i + 4 \<le> length s \<Longrightarrow> \<exists>v. parse_hex4 s i = Some v \<and> v < 65536"
  unfolding parse_hex4_def by (rule parse_hex4_loop_defined) simp_all

section \<open>Room for the output\<close>

lemma utf8_loop_length: "length (snd (utf8_loop k n out)) = k + length out"
  by (induction k arbitrary: n out) simp_all

lemma utf8_bytes_length: "utf8_bytes n = Some out \<Longrightarrow> length out \<le> 4 \<and> (n < 0x10000 \<longrightarrow> length out \<le> 3)"
proof -
  have l: "length t = k" if "utf8_loop k n [] = (r, t)" for k r t using utf8_loop_length [of k n "[]"] that by simp
  show "utf8_bytes n = Some out \<Longrightarrow> ?thesis"
    by (auto simp: utf8_bytes_def Let_def dest!: l split: if_splits prod.splits)
qed

lemma utf16_literal_defined:
  assumes "e < length s"
  shows "\<exists>n out. utf16_literal_to_utf8 s p e = Some (n, out) \<and>
    (n = 0 \<or> n = 6 \<and> p + 6 \<le> e \<and> length out \<le> 3 \<or> n = 12 \<and> p + 12 \<le> e \<and> length out \<le> 4)"
proof (cases "e - p < 6")
  case False
  have "p + 2 + 4 \<le> length s" using False assms by linarith
  then obtain first_code where first: "parse_hex4 s (p + 2) = Some first_code" "first_code < 65536"
    using parse_hex4_defined by blast
  show ?thesis
  proof (cases "0xD800 \<le> first_code \<and> first_code \<le> 0xDBFF \<and> \<not> e - (p + 6) < 6")
    case True
    have "p + 8 + 4 \<le> length s" using True assms by linarith
    then obtain second_code where second: "parse_hex4 s (p + 8) = Some second_code"
      using parse_hex4_defined by blast
    have "p + 6 < length s" "p + 7 < length s" using \<open>p + 8 + 4 \<le> length s\<close> by simp_all
    then have "s_at s (p + 6) = Some (s ! (p + 6))" "s_at s (p + 7) = Some (s ! (p + 7))" by (simp_all add: s_at_def)
    then show ?thesis using True False first second
      by (auto simp: utf16_literal_to_utf8_def dest: utf8_bytes_length split: option.split)
  next
    case outer: False
    then show ?thesis using False first
      by (auto simp: utf16_literal_to_utf8_def dest: utf8_bytes_length split: option.split)
  qed
qed (simp add: utf16_literal_to_utf8_def)

text \<open>
  The first pass cuts the string into units, a character or a backslash with the next one. \<open>E\<close> are the
  positions where a unit ends: one of any two neighbours, and every character but a backslash.
\<close>

definition unit_ends :: "string \<Rightarrow> nat \<Rightarrow> nat \<Rightarrow> nat set \<Rightarrow> bool" where
  "unit_ends s i e E \<longleftrightarrow> E \<subseteq> {i..<e} \<and> (\<forall>p \<in> {i..<e}. (s ! p \<noteq> CHR 0x5C \<longrightarrow> p \<in> E) \<and> (p \<in> E \<or> Suc p \<in> E))"

lemma string_scan_units:
  assumes "string_scan s i k = Some (e, k')" and "i \<le> length s"
  shows "i \<le> e \<and> e \<le> length s \<and> (\<exists>E. unit_ends s i e E \<and> card E + k' = e - i + k)"
  using assms
proof (induction s i k arbitrary: e k' rule: string_scan.induct)
  case (1 s i k)
  show ?case
  proof (cases "i < length s \<and> s ! i \<noteq> CHR 0x22")
    case False
    then have "e = i" "k' = k" using "1.prems" by (simp_all add: string_scan.simps [of s i k] split: if_splits)
    then show ?thesis using "1.prems"(2) by (auto simp: unit_ends_def intro: exI [of _ "{}"])
  next
    case True
    have step: "i + n \<le> e \<and> e \<le> length s \<and> (\<exists>E. unit_ends s i e E \<and> card E + k' = e - i + k)"
      if nx: "i + n \<le> e" "e \<le> length s" "unit_ends s (i + n) e E" "card E + k' = e - (i + n) + (if n = 2 then Suc k else k)"
        and n: "n = 1 \<and> s ! i \<noteq> CHR 0x5C \<or> n = 2 \<and> s ! i = CHR 0x5C" for n E
    proof -
      let ?E = "insert (i + n - 1) E"
      have fin: "finite E" "i + n - 1 \<notin> E" using nx(3) n by (auto simp: unit_ends_def dest: finite_subset)
      have "unit_ends s i e ?E"
      proof -
        have "p \<in> ?E \<or> Suc p \<in> ?E" "s ! p \<noteq> CHR 0x5C \<longrightarrow> p \<in> ?E" if "p \<in> {i..<e}" for p
          using that n nx(3) by (cases "p < i + n"; auto simp: unit_ends_def less_Suc_eq)+
        moreover have "?E \<subseteq> {i..<e}" using nx(1,3) n by (auto simp: unit_ends_def)
        ultimately show ?thesis by (simp add: unit_ends_def)
      qed
      moreover have "card ?E + k' = e - i + k" using fin nx(1,4) n by auto
      ultimately show ?thesis using nx(1,2) by blast
    qed
    show ?thesis
    proof (cases "s ! i = CHR 0x5C")
      case esc: True
      have l: "i + 1 < length s" and r: "string_scan s (i + 2) (Suc k) = Some (e, k')"
        using "1.prems"(1) True esc by (simp_all add: string_scan.simps [of s i k] split: if_splits)
      from "1.IH"(1) [OF True esc _ r] l obtain E where "i + 2 \<le> e" "e \<le> length s" "unit_ends s (i + 2) e E" "card E + k' = e - (i + 2) + Suc k" by auto
      from step [of 2, OF this(1-3)] this(4) esc show ?thesis by auto
    next
      case plain: False
      have r: "string_scan s (i + 1) k = Some (e, k')"
        using "1.prems"(1) True plain by (simp add: string_scan.simps [of s i k] split: if_splits)
      from "1.IH"(2) [OF True plain r] True obtain E where "i + 1 \<le> e" "e \<le> length s" "unit_ends s (i + 1) e E" "card E + k' = e - (i + 1) + k" by auto
      from step [of 1, OF this(1-3)] this(4) plain show ?thesis by auto
    qed
  qed
qed

text \<open>The units that end from \<open>p\<close> on are the room that is left.\<close>

definition room :: "nat set \<Rightarrow> nat \<Rightarrow> nat" where
  "room E p = card (E \<inter> {p..})"

lemma room_less:
  assumes "finite E" and "q \<in> E" and "p \<le> q" and "q < p'"
  shows "room E p' < room E p"
proof -
  have "E \<inter> {p'..} \<subseteq> E \<inter> {p..}" using assms(3,4) by auto
  moreover have "q \<in> E \<inter> {p..}" "q \<notin> E \<inter> {p'..}" using assms by simp_all
  ultimately have "E \<inter> {p'..} \<subset> E \<inter> {p..}" by blast
  then show ?thesis unfolding room_def using assms(1) by (intro psubset_card_mono) simp_all
qed

lemma room_step:
  assumes "unit_ends s i e E" and "i \<le> p" and "p < e"
  shows "room E (p + 2) < room E p" and "s ! p \<noteq> CHR 0x5C \<Longrightarrow> room E (p + 1) < room E p"
proof -
  have fin: "finite E" using assms(1) unfolding unit_ends_def by (meson finite_atLeastLessThan finite_subset)
  have "p \<in> E \<or> Suc p \<in> E" using assms unfolding unit_ends_def by simp
  then show "room E (p + 2) < room E p" by (auto intro: room_less [OF fin])
  assume "s ! p \<noteq> CHR 0x5C"
  then have "p \<in> E" using assms unfolding unit_ends_def by simp
  then show "room E (p + 1) < room E p" by (rule room_less [OF fin]) simp_all
qed

lemma room_steps:
  assumes "unit_ends s i e E" and "i \<le> p"
  shows "p + 2 * n \<le> e \<Longrightarrow> room E (p + 2 * n) + n \<le> room E p"
proof (induction n)
  case (Suc n)
  then have "room E (p + 2 * n + 2) < room E (p + 2 * n)" using assms by (intro room_step(1) [OF assms(1)]) simp_all
  then show ?case using Suc by (simp add: algebra_simps)
qed simp

lemma unescape_defined:
  assumes "unit_ends s i e E" and "e < length s" and "i \<le> p" and "length out + room E p + 2 \<le> cap"
  shows "\<exists>p' r. unescape s e cap p out = Some (p', r)"
  using assms
proof (induction s e cap p out rule: unescape.induct)
  case (1 s e cap p out)
  note units = "1.prems"(1) and el = "1.prems"(2) and ip = "1.prems"(3) and fits = "1.prems"(4)
  show ?case
  proof (cases "p < e")
    case False
    then show ?thesis using fits by (simp add: unescape.simps [of s e cap p out] put_def)
  next
    case True
    have at: "s_at s p = Some (s ! p)" "s_at s (p + 1) = Some (s ! (p + 1))" using True el by (simp_all add: s_at_def)
    have pair: "room E (p + 2) < room E p" by (rule room_step(1) [OF units ip True])
    show ?thesis
    proof (cases "s ! p = CHR 0x5C")
      case plain: False
      have r: "room E (p + 1) < room E p" by (rule room_step(2) [OF units ip True plain])
      then have pt: "put cap out [s ! p] = Some (out @ [s ! p])" using fits by (simp add: put_def)
      have "\<exists>p' r. unescape s e cap (p + 1) (out @ [s ! p]) = Some (p', r)"
        by (rule "1.IH"(1) [OF True at(1) _ pt units el]) (use plain ip r fits in auto)
      then show ?thesis using True plain at pt by (subst unescape.simps) simp
    next
      case esc: True
      show ?thesis
      proof (cases "simple_escape (s ! (p + 1))")
        case (Some x)
        have pt: "put cap out [x] = Some (out @ [x])" using fits pair by (simp add: put_def)
        have "\<exists>p' r. unescape s e cap (p + 2) (out @ [x]) = Some (p', r)"
          by (rule "1.IH"(3) [OF True at(1) _ _ at(2) Some pt units el]) (use True esc ip pair fits in auto)
        then show ?thesis using True esc at Some pt by (subst unescape.simps) simp
      next
        case None
        obtain n bs where u: "utf16_literal_to_utf8 s p e = Some (n, bs)"
          "n = 0 \<or> n = 6 \<and> p + 6 \<le> e \<and> length bs \<le> 3 \<or> n = 12 \<and> p + 12 \<le> e \<and> length bs \<le> 4"
          using utf16_literal_defined [OF el] by blast
        show ?thesis
        proof (cases "s ! (p + 1) = CHR ''u'' \<and> n \<noteq> 0")
          case lit: True
          have r: "room E (p + n) + length bs \<le> room E p"
            using u(2) lit room_steps [OF units ip, of 3] room_steps [OF units ip, of 6] by auto
          have pt: "put cap out bs = Some (out @ bs)" using fits r by (simp add: put_def)
          have "\<exists>p' r. unescape s e cap (p + n) (out @ bs) = Some (p', r)"
            using "1.IH"(2) [OF True at(1) _ _ at(2) None _ u(1), of "out @ bs"] pt units el lit True esc ip r fits by auto
          then show ?thesis using True esc at None u(1) pt lit by (subst unescape.simps) simp
        next
          case False
          then show ?thesis using True esc at None u(1) by (subst unescape.simps) auto
        qed
      qed
    qed
  qed
qed

text \<open>Parsing a string, from any position where there is a character.\<close>

lemma parse_string_safe:
  assumes "heap_ok h" and "hp_mem h item = Some c" and "can_access_at_index b 0"
  shows "\<exists>r h' b'. parse_string item h b = Some (r, h', b') \<and> heap_ok h' \<and> hp_oom h' = hp_oom h \<and> hp_brk h \<le> hp_brk h' \<and>
    pb_content b' = pb_content b \<and>
    (if r then pb_offset b < pb_offset b' \<and> pb_offset b' \<le> length (pb_content b) \<and> pb_depth b' = pb_depth b \<and>
       (\<exists>s. hp_mem h' = (hp_mem h)(item \<mapsto> c\<lparr>cj_type := cJSON_String, cj_valuestring := Some s\<rparr>))
     else hp_mem h' = hp_mem h)"
proof -
  let ?s = "pb_content b" and ?i = "pb_offset b + 1"
  have at: "buffer_at_offset b 0 = Some (?s ! pb_offset b)" "?i \<le> length ?s"
    using assms(3) by (simp_all add: can_access_at_index_def buffer_at_offset_def s_at_def)
  obtain ok h1 where m: "h_malloc h = (ok, h1)" "hp_mem h1 = hp_mem h" "heap_ok h1" "hp_oom h1 = hp_oom h" "hp_brk h1 = Suc (hp_brk h)"
    using assms(1) that [of "\<not> hp_oom h (hp_brk h)" "h\<lparr>hp_brk := Suc (hp_brk h)\<rparr>"] by (auto simp: h_malloc_def heap_ok_def)
  show ?thesis
  proof (cases "string_scan ?s ?i 0")
    case None
    then show ?thesis using at assms(1) by (auto simp: parse_string_def Let_def intro: exI [of _ False])
  next
    case (Some ek)
    obtain e k where ek: "ek = (e, k)" by (cases ek)
    obtain E where E: "?i \<le> e" "unit_ends ?s ?i e E" "card E + k = e - ?i" using string_scan_units [of ?s ?i 0 e k] Some ek at(2) by auto
    show ?thesis
    proof (cases "?s ! pb_offset b = CHR 0x22 \<and> e < length ?s \<and> ok")
      case False
      then show ?thesis using Some ek at(1) m assms(1) by (auto simp: parse_string_def Let_def)
    next
      case True
      have "room E ?i = card E" unfolding room_def using E(2) by (auto simp: unit_ends_def intro!: arg_cong [where f = card])
      then have "length ([] :: string) + room E ?i + 2 \<le> e - pb_offset b - k + 1" using E(1,3) by simp
      then obtain p r where u: "unescape ?s e (e - pb_offset b - k + 1) ?i [] = Some (p, r)"
        using unescape_defined [OF E(2)] True by blast
      have mod: "h_modify h1 item f = Some (h1\<lparr>hp_mem := (hp_mem h)(item \<mapsto> f c)\<rparr>)" for f
        using assms(2) m(2) by (simp add: h_modify_def)
      have ok: "heap_ok (h1\<lparr>hp_mem := (hp_mem h)(item \<mapsto> c')\<rparr>)" for c'
        using heap_ok_modify [OF m(3) mod, of "\<lambda>_. c'"] .
      show ?thesis using True Some ek at(1) m u mod ok E(1)
        by (cases r) (auto simp: parse_string_def Let_def)
    qed
  qed
qed

section \<open>Escaped code points\<close>

text \<open>The UTF-8 form of a code point, and its literals in UTF-16, with digits of either case.\<close>

definition utf8 :: "nat \<Rightarrow> nat list" where
  "utf8 c =
     (if c < 0x80 then [c]
      else if c < 0x800 then [0xC0 + c div 64, 0x80 + c mod 64]
      else if c < 0x10000 then [0xE0 + c div 4096, 0x80 + c div 64 mod 64, 0x80 + c mod 64]
      else [0xF0 + c div 262144, 0x80 + c div 4096 mod 64, 0x80 + c div 64 mod 64, 0x80 + c mod 64])"

lemma or_push_bit: "x < 2 ^ n \<Longrightarrow> x OR push_bit n y = x + push_bit n (y :: nat)"
proof -
  assume "x < 2 ^ n"
  then have "take_bit n x = x" by (simp add: take_bit_nat_eq_self)
  moreover have "take_bit n x OR push_bit n y = take_bit n x + push_bit n y"
    by (rule disjunctive_add [symmetric]) (auto simp: bit_push_bit_iff bit_take_bit_iff)
  ultimately show ?thesis by simp
qed

lemma tail_byte: "(x OR 128) AND 191 = 128 + x mod (64 :: nat)"
proof -
  have "(x OR c) AND (b OR c) = (x AND b) OR c" for b c :: nat
    by (rule bit_eqI) (auto simp: bit_and_iff bit_or_iff)
  from this [of 128 63] have "(x OR 128) AND 191 = (x AND 63) OR 128" by simp
  also have "x AND 63 = x mod 64" using take_bit_eq_mask [of 6 x] by (simp add: mask_eq_exp_minus_1 take_bit_eq_mod)
  also have "(x mod 64) OR 128 = x mod 64 + 128" using or_push_bit [of "x mod 64" 7 1] by (simp add: push_bit_eq_mult)
  finally show ?thesis by simp
qed

lemma and_255: "x < 256 \<Longrightarrow> x AND 255 = (x :: nat)"
  using take_bit_eq_mask [of 8 x] by (simp add: mask_eq_exp_minus_1 take_bit_nat_eq_self)

lemma first_byte:
  "x < 32 \<Longrightarrow> (x OR 192) AND 255 = 192 + (x :: nat)"
  "x < 16 \<Longrightarrow> (x OR 224) AND 255 = 224 + (x :: nat)"
  "x < 8 \<Longrightarrow> (x OR 240) AND 255 = 240 + (x :: nat)"
  using or_push_bit [of x 6 3] or_push_bit [of x 5 7] or_push_bit [of x 4 15] by (simp_all add: push_bit_eq_mult and_255)

lemma utf8_loop_numeral:
  "utf8_loop 2 c out = utf8_loop (Suc (Suc 0)) c out" "utf8_loop 3 c out = utf8_loop (Suc (Suc (Suc 0))) c out"
  by (simp_all only: numeral_2_eq_2 numeral_3_eq_3)

lemma utf8_bytes_spec:
  assumes "c \<le> 0x10FFFF"
  shows "utf8_bytes c = Some (map char_of (utf8 c))"
proof -
  have m: "c AND 127 = c" if "c < 128"
    using that take_bit_eq_mask [of 7 c] by (simp add: take_bit_nat_eq_self mask_eq_exp_minus_1)
  consider "c < 0x80" | "0x80 \<le> c" "c < 0x800" | "0x800 \<le> c" "c < 0x10000" | "0x10000 \<le> c" by linarith
  then show ?thesis
  proof cases
    case 1
    then show ?thesis using m by (simp add: utf8_bytes_def utf8_def)
  next
    case 2
    then show ?thesis by (simp add: utf8_bytes_def utf8_def drop_bit_eq_div tail_byte first_byte)
  next
    case 3
    have "c div 64 div 64 = c div 4096" by (simp add: div_mult2_eq [symmetric])
    then show ?thesis using 3 by (simp add: utf8_bytes_def utf8_def drop_bit_eq_div utf8_loop_numeral tail_byte first_byte)
  next
    case 4
    have "c div 64 div 64 = c div 4096" "c div 4096 div 64 = c div 262144" by (simp_all add: div_mult2_eq [symmetric])
    then show ?thesis using 4 assms by (simp add: utf8_bytes_def utf8_def drop_bit_eq_div utf8_loop_numeral tail_byte first_byte)
  qed
qed

lemma surrogate_code: "0x10000 + (push_bit 10 (h AND 0x3FF) OR (l AND 0x3FF)) = 0x10000 + (h mod 1024 * 1024 + l mod (1024 :: nat))"
proof -
  have "h AND 1023 = take_bit 10 h" "l AND 1023 = take_bit 10 l" by (simp_all add: take_bit_eq_mask mask_eq_exp_minus_1)
  moreover have "push_bit 10 x OR take_bit 10 y = push_bit 10 x + take_bit 10 y" for x y :: nat
    by (rule disjunctive_add [symmetric]) (auto simp: bit_push_bit_iff bit_take_bit_iff)
  ultimately show ?thesis by (simp add: push_bit_eq_mult take_bit_eq_mod)
qed


definition hex_char :: "bool \<Rightarrow> nat \<Rightarrow> char" where
  "hex_char upper d = (if upper then ''0123456789ABCDEF'' else ''0123456789abcdef'') ! d"

definition hex4 :: "(nat \<Rightarrow> bool) \<Rightarrow> nat \<Rightarrow> string" where
  "hex4 u c = [hex_char (u 0) (c div 4096), hex_char (u 1) (c div 256 mod 16), hex_char (u 2) (c div 16 mod 16), hex_char (u 3) (c mod 16)]"

definition utf16_literal :: "(nat \<Rightarrow> bool) \<Rightarrow> nat \<Rightarrow> string" where
  "utf16_literal u c =
     (if c < 0x10000 then [CHR 0x5C, CHR ''u''] @ hex4 u c
      else [CHR 0x5C, CHR ''u''] @ hex4 u (0xD800 + (c - 0x10000) div 1024) @
        [CHR 0x5C, CHR ''u''] @ hex4 (\<lambda>i. u (i + 4)) (0xDC00 + (c - 0x10000) mod 1024))"

lemma hex_digit_char: "d < 16 \<Longrightarrow> hex_digit (hex_char u d) = Some d"
proof -
  have "list_all (\<lambda>d. hex_digit (hex_char True d) = Some d \<and> hex_digit (hex_char False d) = Some d) [0..<16]" by code_simp
  then show "d < 16 \<Longrightarrow> hex_digit (hex_char u d) = Some d" by (cases u) (simp_all add: list_all_iff)
qed

lemma s_at_inner: "k < length t \<Longrightarrow> i = length pre + k \<Longrightarrow> s_at (pre @ t @ post) i = Some (t ! k)"
  by (simp add: s_at_def nth_append)

lemma parse_hex4_text:
  assumes "c < 65536"
  shows "parse_hex4 (pre @ hex4 u c @ post) (length pre) = Some c"
proof -
  let ?s = "pre @ hex4 u c @ post" and ?i = "length pre"
  have at: "s_at ?s ?i = Some (hex_char (u 0) (c div 4096))" "s_at ?s (Suc ?i) = Some (hex_char (u 1) (c div 256 mod 16))"
    "s_at ?s (Suc (Suc ?i)) = Some (hex_char (u 2) (c div 16 mod 16))" "s_at ?s (Suc (Suc (Suc ?i))) = Some (hex_char (u 3) (c mod 16))"
    using s_at_inner [of 0 "hex4 u c" ?i pre post] s_at_inner [of 1 "hex4 u c" "Suc ?i" pre post]
      s_at_inner [of 2 "hex4 u c" "Suc (Suc ?i)" pre post] s_at_inner [of 3 "hex4 u c" "Suc (Suc (Suc ?i))" pre post]
    by (simp_all add: hex4_def)
  have d: "hex_digit (hex_char (u 0) (c div 4096)) = Some (c div 4096)" "hex_digit (hex_char (u 1) (c div 256 mod 16)) = Some (c div 256 mod 16)"
    "hex_digit (hex_char (u 2) (c div 16 mod 16)) = Some (c div 16 mod 16)" "hex_digit (hex_char (u 3) (c mod 16)) = Some (c mod 16)"
    using assms by (simp_all add: hex_digit_char)
  have "c div 4096 * 4096 + c div 256 mod 16 * 256 + c div 16 mod 16 * 16 + c mod 16 = c"
  proof -
    have "c div 256 div 16 = c div 4096" "c div 16 div 16 = c div 256" by (simp_all add: div_mult2_eq [symmetric])
    then show ?thesis
      using div_mult_mod_eq [of c 16] div_mult_mod_eq [of "c div 16" 16] div_mult_mod_eq [of "c div 256" 16] by linarith
  qed
  then have v: "push_bit 4 (push_bit 4 (push_bit 4 (0 + c div 4096) + c div 256 mod 16) + c div 16 mod 16) + c mod 16 = c"
    by (simp add: push_bit_eq_mult algebra_simps)
  have four: "parse_hex4 ?s ?i = parse_hex4_loop ?s ?i (Suc (Suc (Suc (Suc 0)))) 0"
    by (simp add: parse_hex4_def eval_nat_numeral)
  show ?thesis unfolding four using v at d by (simp del: push_bit_add)
qed

lemma utf16_literal_spec:
  assumes c: "c \<le> 0x10FFFF" "\<not> (0xD800 \<le> c \<and> c \<le> 0xDFFF)" and e: "length pre + length (utf16_literal u c) \<le> e"
  shows "utf16_literal_to_utf8 (pre @ utf16_literal u c @ post) (length pre) e = Some (length (utf16_literal u c), map char_of (utf8 c))"
proof (cases "c < 0x10000")
  case True
  let ?s = "pre @ utf16_literal u c @ post"
  have s: "?s = (pre @ [CHR 0x5C, CHR ''u'']) @ hex4 u c @ post" using True by (simp add: utf16_literal_def)
  have "parse_hex4 ?s (length pre + 2) = Some c" using True parse_hex4_text [of c "pre @ [CHR 0x5C, CHR ''u'']" u post] unfolding s by simp
  moreover have "\<not> e - length pre < 6" "length (utf16_literal u c) = 6" using True e by (simp_all add: utf16_literal_def hex4_def)
  ultimately show ?thesis using c utf8_bytes_spec [OF c(1)] by (auto simp: utf16_literal_to_utf8_def)
next
  case False
  let ?s = "pre @ utf16_literal u c @ post"
  let ?h = "0xD800 + (c - 0x10000) div 1024" and ?l = "0xDC00 + (c - 0x10000) mod 1024"
  let ?lt = "hex4 (\<lambda>i. u (i + 4)) ?l"
  have range: "?h < 65536" "?l < 65536" "?h \<le> 0xDBFF" "?l \<le> 0xDFFF" using c(1) by simp_all
  have s1: "?s = (pre @ [CHR 0x5C, CHR ''u'']) @ hex4 u ?h @ ([CHR 0x5C, CHR ''u''] @ ?lt @ post)" using False by (simp add: utf16_literal_def)
  have s2: "?s = (pre @ [CHR 0x5C, CHR ''u''] @ hex4 u ?h @ [CHR 0x5C, CHR ''u'']) @ ?lt @ post" using False by (simp add: utf16_literal_def)
  have s3: "?s = (pre @ [CHR 0x5C, CHR ''u''] @ hex4 u ?h) @ [CHR 0x5C, CHR ''u''] @ (?lt @ post)" using False by (simp add: utf16_literal_def)
  have l4: "length (hex4 v x) = 4" for v x by (simp add: hex4_def)
  have "parse_hex4 ?s (length pre + 2) = Some ?h"
    using parse_hex4_text [OF range(1), of "pre @ [CHR 0x5C, CHR ''u'']" u] unfolding s1 by simp
  moreover have "parse_hex4 ?s (length pre + 8) = Some ?l"
    using parse_hex4_text [OF range(2), of "pre @ [CHR 0x5C, CHR ''u''] @ hex4 u ?h @ [CHR 0x5C, CHR ''u'']"] unfolding s2 by (simp add: l4)
  moreover have "s_at ?s (length pre + 6) = Some (CHR 0x5C)" "s_at ?s (length pre + 7) = Some (CHR ''u'')"
    unfolding s3 using s_at_inner [of 0 "[CHR 0x5C, CHR ''u'']" "length pre + 6" "pre @ [CHR 0x5C, CHR ''u''] @ hex4 u ?h"]
      s_at_inner [of 1 "[CHR 0x5C, CHR ''u'']" "length pre + 7" "pre @ [CHR 0x5C, CHR ''u''] @ hex4 u ?h"]
    by (simp_all add: l4)
  moreover have "length (utf16_literal u c) = 12" using False by (simp add: utf16_literal_def l4)
  moreover have "\<not> e - length pre < 6" "\<not> e - (length pre + 6) < 6" using e calculation(5) by simp_all
  moreover have "0x10000 + (push_bit 10 (?h AND 0x3FF) OR (?l AND 0x3FF)) = c"
  proof -
    have m: "(k * 1024 + x) mod 1024 = x" if "x < 1024" for k x :: nat using that by simp
    have "(c - 0x10000) div 1024 < 1024" using c(1) by simp
    from m [OF this, of 54] have "?h mod 1024 = (c - 0x10000) div 1024" by simp
    moreover have "?l mod 1024 = (c - 0x10000) mod 1024" using m [of "(c - 0x10000) mod 1024" 55] by simp
    ultimately show ?thesis unfolding surrogate_code using False by simp
  qed
  ultimately show ?thesis using range utf8_bytes_spec [OF c(1)] by (simp add: utf16_literal_to_utf8_def)
qed

text \<open>A literal whose first digit is none is taken for the code point 0, which ends a C string.\<close>

lemma bad_escape_is_nul:
  assumes "p + 6 \<le> e" and "e \<le> length s" and "hex_digit (s ! (p + 2)) = None"
  shows "utf16_literal_to_utf8 s p e = Some (6, [NUL])"
proof -
  have "s_at s (p + 2) = Some (s ! (p + 2))" using assms(1,2) by (simp add: s_at_def)
  moreover have "parse_hex4 s (p + 2) = parse_hex4_loop s (p + 2) (Suc 3) 0" by (simp add: parse_hex4_def)
  ultimately have "parse_hex4 s (p + 2) = Some 0" using assms(3) by (simp only: parse_hex4_loop.simps bind.bind_lunit option.case)
  moreover have "utf8_bytes 0 = Some [NUL]" by (simp add: utf8_bytes_def char_of_def)
  ultimately show ?thesis using assms(1) by (simp add: utf16_literal_to_utf8_def)
qed

text \<open>
  C34. An escaped code point becomes its UTF-8 form: \<^verbatim>\<open>\uXXXX\<close> for the code points of the basic plane, a
  pair of surrogates for the others, with digits of either case, wherever the literal stands in the string;
  and the second half of a pair alone is rejected.
\<close>

theorem json_escape_is_utf8:
  assumes "c \<le> 0x10FFFF" and "\<not> (0xD800 \<le> c \<and> c \<le> 0xDBFF)" and "length pre + length (utf16_literal u c) \<le> e"
  shows "utf16_literal_to_utf8 (pre @ utf16_literal u c @ post) (length pre) e =
    Some (if 0xDC00 \<le> c \<and> c \<le> 0xDFFF then (0, []) else (length (utf16_literal u c), map char_of (utf8 c)))"
proof (cases "0xDC00 \<le> c \<and> c \<le> 0xDFFF")
  case True
  have "pre @ utf16_literal u c @ post = (pre @ [CHR 0x5C, CHR ''u'']) @ hex4 u c @ post" using True by (simp add: utf16_literal_def)
  then have "parse_hex4 (pre @ utf16_literal u c @ post) (length pre + 2) = Some c"
    using True parse_hex4_text [of c "pre @ [CHR 0x5C, CHR ''u'']" u post] by simp
  then show ?thesis using True by (simp add: utf16_literal_to_utf8_def)
next
  case False
  then have "\<not> (0xD800 \<le> c \<and> c \<le> 0xDFFF)" using assms(2) by linarith
  from utf16_literal_spec [OF assms(1) this assms(3)] show ?thesis unfolding if_not_P [OF False] .
qed

theorem json_escape_is_utf8_witness:
  "utf16_literal_to_utf8 ([CHR 0x5C, CHR ''u''] @ ''d83d'' @ [CHR 0x5C, CHR ''u''] @ ''de00'' @ ''!'') 0 13 =
     Some (12, map char_of [240 :: nat, 159, 152, 128])"
proof -
  have t: "utf16_literal (\<lambda>_. False) 0x1F600 = [CHR 0x5C, CHR ''u''] @ ''d83d'' @ [CHR 0x5C, CHR ''u''] @ ''de00''"
    by (simp add: utf16_literal_def hex4_def hex_char_def)
  have u: "utf8 0x1F600 = [240, 159, 152, 128]" by (simp add: utf8_def)
  show ?thesis using json_escape_is_utf8 [of "0x1F600" "[]" "\<lambda>_. False" 13 "''!''"] unfolding t u by simp
qed

end
