(* ===== verification/CJsonSafety.thy ===== *)
theory CJsonSafety
  imports CJsonTree CJsonString
begin

unbundle bit_operations_syntax

text \<open>
  What the parser guarantees: for any input and any allocator it ends, reads inside the input, writes inside
  its blocks, and leaves either the tree of a value or the heap as it was.
\<close>

section \<open>The buffer\<close>

lemma ws_loop_range: "i \<le> length s \<Longrightarrow> i \<le> ws_loop s i \<and> ws_loop s i \<le> length s"
proof (induction s i rule: ws_loop.induct)
  case (1 s i)
  then show ?case by (subst (1 2) ws_loop.simps) auto
qed

lemma skip_whitespace_range:
  assumes "pb_offset b \<le> length (pb_content b)"
  shows "pb_content (buffer_skip_whitespace b) = pb_content b" "pb_depth (buffer_skip_whitespace b) = pb_depth b"
    "pb_offset b \<le> pb_offset (buffer_skip_whitespace b)" "pb_offset (buffer_skip_whitespace b) \<le> length (pb_content b)"
    "can_access_at_index b 0 \<Longrightarrow> can_access_at_index (buffer_skip_whitespace b) 0"
  using assms ws_loop_range [OF assms] by (auto simp: buffer_skip_whitespace_def can_access_at_index_def Let_def)

lemma advance_simps [simp]:
  "pb_content (advance n b) = pb_content b" "pb_depth (advance n b) = pb_depth b" "pb_offset (advance n b) = pb_offset b + n"
  "pb_content (step_back b) = pb_content b" "pb_depth (step_back b) = pb_depth b" "pb_offset (step_back b) = pb_offset b - 1"
  by (simp_all add: advance_def step_back_def)

lemma next_is_bound: "buffer_next_is b c \<Longrightarrow> pb_offset b < length (pb_content b)"
  by (simp add: buffer_next_is_def can_access_at_index_def)

section \<open>What a parser does\<close>

text \<open>
  The outcome of parsing a value into the cell \<open>c\<close> at \<open>item\<close>: the input has been read a bit further, and the
  item is the root of a new tree that stands for some value; or nothing is left of the attempt.
\<close>

definition parsed_value :: "'d dbl_ops \<Rightarrow> addr \<Rightarrow> 'd cjson heap \<Rightarrow> parse_buffer \<Rightarrow> 'd cjson \<Rightarrow> bool \<Rightarrow> 'd cjson heap \<Rightarrow> parse_buffer \<Rightarrow> bool" where
  "parsed_value D item h b c r h' b' \<longleftrightarrow> pb_content b' = pb_content b \<and>
     (if r then
        pb_offset b < pb_offset b' \<and> pb_offset b' \<le> length (pb_content b) \<and> pb_depth b' = pb_depth b \<and>
        (\<exists>c' ks v. grows (h\<lparr>hp_mem := (hp_mem h)(item \<mapsto> c')\<rparr>) h' (flat ks) \<and> linked (cj_child c') ks \<and> ring ks \<and>
           cj_type c' AND cJSON_IsReference = 0 \<and> node_is D v (JNode item c' ks) \<and>
           cj_next c' = cj_next c \<and> cj_prev c' = cj_prev c \<and> cj_string c' = cj_string c)
      else grows h h' [])"

text \<open>A parser that does so from any depth above \<open>d\<close>.\<close>

definition parser_safe :: "'d dbl_ops \<Rightarrow> (nat \<Rightarrow> bool) \<Rightarrow> 'd parser \<Rightarrow> bool" where
  "parser_safe D depth_ok pv \<longleftrightarrow> (\<forall>item h b c. heap_ok h \<and> hp_mem h item = Some c \<and> cj_child c = None \<and> cj_type c AND cJSON_IsReference = 0 \<and>
     pb_offset b \<le> length (pb_content b) \<and> depth_ok (pb_depth b) \<longrightarrow>
     (\<exists>r h' b'. pv item h b = Some (r, h', b') \<and> parsed_value D item h b c r h' b'))"

lemma parser_safeD:
  assumes "parser_safe D depth_ok pv" and "heap_ok h" "hp_mem h item = Some c" "cj_child c = None" "cj_type c AND cJSON_IsReference = 0"
    and "pb_offset b \<le> length (pb_content b)" and "depth_ok (pb_depth b)"
  obtains r h' b' where "pv item h b = Some (r, h', b')" "parsed_value D item h b c r h' b'"
  using assms unfolding parser_safe_def by blast

text \<open>Filling an item in without children, as the parsers of the simple values do.\<close>

lemma parsed_simple:
  assumes "heap_ok h" and "hp_mem h item = Some c" and "cj_child c = None"
    and "heap_ok h'" "hp_oom h' = hp_oom h" "hp_brk h \<le> hp_brk h'" "hp_mem h' = (hp_mem h)(item \<mapsto> f c)"
    and "pb_content b' = pb_content b" "pb_depth b' = pb_depth b" "pb_offset b < pb_offset b'" "pb_offset b' \<le> length (pb_content b)"
    and "cj_child (f c) = cj_child c" "cj_next (f c) = cj_next c" "cj_prev (f c) = cj_prev c" "cj_string (f c) = cj_string c"
    and "cj_type (f c) AND cJSON_IsReference = 0" "node_is D v (JNode item (f c) [])"
  shows "parsed_value D item h b c True h' b'"
proof -
  have "grows (h\<lparr>hp_mem := (hp_mem h)(item \<mapsto> f c)\<rparr>) h' (flat [])" using assms by (simp add: grows_nothing)
  moreover have "linked (cj_child (f c)) []" "ring []" using assms by (simp_all add: ring_def)
  ultimately show ?thesis using assms unfolding parsed_value_def if_True by blast
qed

section \<open>The loops\<close>

text \<open>
  The outcome of one round, or several, from the position \<open>off\<close>: success with a list of nodes that have
  the property \<open>P\<close>, further on in the input, or failure with a list that can be deleted.
\<close>

definition round_ok :: "'d cjson heap \<Rightarrow> ('d jnode \<Rightarrow> bool) \<Rightarrow> string \<Rightarrow> nat \<Rightarrow> nat \<Rightarrow> 'd round_result \<Rightarrow> bool" where
  "round_ok h0 P s d off r \<longleftrightarrow> (case r of
     None \<Rightarrow> False
   | Some (ok, head, current, h, b) \<Rightarrow> \<exists>ts. chain_at h0 h head current ts \<and> pb_content b = s \<and>
       (ok \<longrightarrow> list_all P ts \<and> ts \<noteq> [] \<and> off < pb_offset b \<and> pb_offset b \<le> length s \<and> pb_depth b = d))"

definition round_safe ::
  "'d cjson heap \<Rightarrow> ('d jnode \<Rightarrow> bool) \<Rightarrow> string \<Rightarrow> nat \<Rightarrow> (ptr \<Rightarrow> ptr \<Rightarrow> 'd cjson heap \<Rightarrow> parse_buffer \<Rightarrow> 'd round_result) \<Rightarrow> bool" where
  "round_safe h0 P s d round \<longleftrightarrow> (\<forall>head current h b ts. chain_at h0 h head current ts \<longrightarrow> list_all P ts \<longrightarrow> pb_content b = s \<longrightarrow>
     pb_offset b < length s \<longrightarrow> pb_depth b = d \<longrightarrow> round_ok h0 P s d (pb_offset b) (round head current h b))"

lemma round_ok_earlier: "round_ok h0 P s d off r \<Longrightarrow> off' \<le> off \<Longrightarrow> round_ok h0 P s d off' r"
  unfolding round_ok_def by (fastforce split: option.splits)

lemma parse_rounds_safe:
  assumes "round_safe h0 P s d round" and "chain_at h0 h head current ts" and "list_all P ts" and "pb_content b = s"
    and "pb_offset b < length s" and "pb_depth b = d"
  shows "round_ok h0 P s d (pb_offset b) (parse_rounds round head current h b)"
  using assms(2-6)
proof (induction "length s - pb_offset b" arbitrary: head current h b ts rule: less_induct)
  case less
  have one: "round_ok h0 P s d (pb_offset b) (round head current h b)"
    using assms(1) less.prems unfolding round_safe_def by blast
  then obtain ok head' current' h' b' ts' where r: "round head current h b = Some (ok, head', current', h', b')" "chain_at h0 h' head' current' ts'"
    "pb_content b' = s" "ok \<longrightarrow> list_all P ts' \<and> ts' \<noteq> [] \<and> pb_offset b < pb_offset b' \<and> pb_offset b' \<le> length s \<and> pb_depth b' = d"
    unfolding round_ok_def by (auto split: option.splits)
  show ?case
  proof (cases "ok \<and> buffer_next_is b' (CHR '','')")
    case True
    then have n: "pb_offset b' < length s" "list_all P ts'" "pb_depth b' = d" "pb_offset b < pb_offset b'" using r(3,4) next_is_bound by auto
    have eq: "parse_rounds round head current h b = parse_rounds round head' current' h' b'"
      using True r(1) by (subst parse_rounds.simps) simp
    have "length s - pb_offset b' < length s - pb_offset b" using n by simp
    from less.hyps [OF this r(2) n(2) r(3) n(1,3)] show ?thesis unfolding eq by (rule round_ok_earlier) (use n(4) in simp)
  next
    case False
    then have "parse_rounds round head current h b = round head current h b" using r(1) by (subst parse_rounds.simps) auto
    then show ?thesis using one by simp
  qed
qed

text \<open>A property of nodes that does not look at the links to the siblings.\<close>

definition ignores_links :: "('d jnode \<Rightarrow> bool) \<Rightarrow> bool" where
  "ignores_links P \<longleftrightarrow> (\<forall>a c ks q. P (JNode a (c\<lparr>cj_next := q\<rparr>) ks) = P (JNode a c ks) \<and> P (JNode a (c\<lparr>cj_prev := q\<rparr>) ks) = P (JNode a c ks))"

lemma list_all_relink: "ignores_links P \<Longrightarrow> list_all P (relink ts a) = list_all P ts"
  by (induction ts a rule: relink.induct) (simp_all add: ignores_links_def)

definition is_value :: "'d dbl_ops \<Rightarrow> 'd jnode \<Rightarrow> bool" where
  "is_value D t \<longleftrightarrow> (\<exists>v. node_is D v t)"

definition is_member :: "'d dbl_ops \<Rightarrow> 'd jnode \<Rightarrow> bool" where
  "is_member D t \<longleftrightarrow> is_value D t \<and> cj_string (node_cell t) \<noteq> None"

lemma value_ignores_links: "ignores_links (is_value D)" "ignores_links (is_member D)"
proof -
  have "node_is D v (JNode a (c\<lparr>cj_next := q\<rparr>) ks) = node_is D v (JNode a c ks)" "node_is D v (JNode a (c\<lparr>cj_prev := q\<rparr>) ks) = node_is D v (JNode a c ks)" for v a c q ks
    by (rule node_is_links; simp)+
  then show "ignores_links (is_value D)" "ignores_links (is_member D)" by (simp_all add: ignores_links_def is_value_def is_member_def)
qed

lemma new_item_zero: "cj_next (zero_item D) = None" "cj_child (zero_item D) = None" "cj_prev (zero_item D) = None"
  "cj_type (zero_item D) AND cJSON_IsReference = 0" "cj_string (zero_item D) = None"
  by (simp_all add: zero_item_def)

lemma chain_parse:
  assumes pv: "parser_safe D depth_ok pv" and h0: "heap_ok h0"
    and ch: "chain_at h0 h head current (us @ [JNode a c []])" and c: "cj_child c = None" "cj_type c AND cJSON_IsReference = 0"
    and b: "pb_offset b \<le> length (pb_content b)" "depth_ok (pb_depth b)"
  shows "\<exists>r h' b' c' ks. pv a h b = Some (r, h', b') \<and> pb_content b' = pb_content b \<and> chain_at h0 h' head current (us @ [JNode a c' ks]) \<and>
    (r \<longrightarrow> pb_offset b < pb_offset b' \<and> pb_offset b' \<le> length (pb_content b) \<and> pb_depth b' = pb_depth b \<and>
       is_value D (JNode a c' ks) \<and> cj_string c' = cj_string c)"
proof -
  have g: "grows h0 h (flat (us @ [JNode a c []]))" using ch by (simp add: chain_at_def)
  have h: "heap_ok h" "hp_mem h a = Some c" using growsD(1,4) [OF g] by simp_all
  obtain r h' b' where r: "pv a h b = Some (r, h', b')" "parsed_value D a h b c r h' b'"
    using parser_safeD [OF pv h c b] by blast
  show ?thesis
  proof (cases r)
    case True
    then obtain c' ks v where k: "grows (h\<lparr>hp_mem := (hp_mem h)(a \<mapsto> c')\<rparr>) h' (flat ks)" "linked (cj_child c') ks" "ring ks"
      "cj_type c' AND cJSON_IsReference = 0" "node_is D v (JNode a c' ks)" "cj_next c' = cj_next c" "cj_string c' = cj_string c"
      using r(2) unfolding parsed_value_def by auto
    have "chain_at h0 h' head current (us @ [JNode a c' ks])" by (rule chain_fill [OF ch h0 k(1) k(6,4,2,3)])
    then show ?thesis using r True k(5,7) unfolding parsed_value_def is_value_def by auto
  next
    case False
    then have "grows h h' []" "pb_content b' = pb_content b" using r(2) by (simp_all add: parsed_value_def)
    then have "chain_at h0 h' head current (us @ [JNode a c []])" using ch grows_then_nothing unfolding chain_at_def by blast
    then show ?thesis using r(1) False \<open>pb_content b' = pb_content b\<close> by blast
  qed
qed

lemma chain_no_memory: "chain_at h0 h head current ts \<Longrightarrow> h_alloc h n = (None, h1) \<Longrightarrow> chain_at h0 h1 head current ts"
  by (auto simp: chain_at_def grows_def h_alloc_def heap_ok_def split: if_splits)

lemma parse_element_safe:
  assumes pv: "parser_safe D depth_ok pv" and d: "depth_ok d" and h0: "heap_ok h0"
  shows "round_safe h0 (is_value D) s d (parse_element D pv)"
  unfolding round_safe_def
proof (intro allI impI)
  fix head current h and b :: parse_buffer and ts
  assume ch: "chain_at h0 h head current ts" "list_all (is_value D) ts" and b: "pb_content b = s" "pb_offset b < length s" "pb_depth b = d"
  have ok: "heap_ok h" using ch(1) growsD(1) unfolding chain_at_def by blast
  show "round_ok h0 (is_value D) s d (pb_offset b) (parse_element D pv head current h b)"
    using ok
  proof (cases rule: alloc_cases [where c = "zero_item D"])
    case (no_memory h1)
    then show ?thesis using chain_no_memory [OF ch(1)] b by (auto simp: parse_element_def cJSON_New_Item_def round_ok_def)
  next
    case (fresh a h1)
    let ?n = "(zero_item D)\<lparr>cj_prev := current\<rparr>" and ?b = "buffer_skip_whitespace (advance 1 b)"
    obtain head1 h2 where at: "attach_item head current a h1 = Some (head1, h2)" "chain_at h0 h2 head1 (Some a) (relink ts a @ [JNode a ?n []])"
      using chain_attach [OF ch(1) fresh(1) new_item_zero(1-4)] by blast
    have adv: "pb_offset (advance 1 b) \<le> length (pb_content (advance 1 b))" using b by simp
    note sk = skip_whitespace_range [OF adv]
    have n: "cj_child ?n = None" "cj_type ?n AND cJSON_IsReference = 0" by (simp_all add: new_item_zero)
    have ib: "pb_offset ?b \<le> length (pb_content ?b)" "depth_ok (pb_depth ?b)" using sk b d by simp_all
    obtain r h3 b1 c' ks where r: "pv a h2 ?b = Some (r, h3, b1)" "pb_content b1 = s" "chain_at h0 h3 head1 (Some a) (relink ts a @ [JNode a c' ks])"
      "r \<longrightarrow> pb_offset ?b < pb_offset b1 \<and> pb_offset b1 \<le> length s \<and> pb_depth b1 = d \<and> is_value D (JNode a c' ks)"
      using chain_parse [OF pv h0 at(2) n ib] sk(1,2) b by auto
    have eq: "parse_element D pv head current h b = Some (r, head1, Some a, h3, if r then buffer_skip_whitespace b1 else b1)"
      using fresh(1) at(1) r(1) by (simp add: parse_element_def cJSON_New_Item_def)
    show ?thesis
    proof (cases r)
      case True
      then have "pb_offset b1 \<le> length (pb_content b1)" using r(2,4) by simp
      moreover have "list_all (is_value D) (relink ts a)" using ch(2) by (simp add: list_all_relink [OF value_ignores_links(1)])
      ultimately show ?thesis using True r sk(3) skip_whitespace_range [of b1] unfolding eq
        by (auto simp: round_ok_def intro!: exI [of _ "relink ts a @ [JNode a c' ks]"])
    next
      case False
      then show ?thesis using r(2,3) unfolding eq by (auto simp: round_ok_def)
    qed
  qed
qed

lemma chain_set:
  assumes ch: "chain_at h0 h head current (us @ [JNode a c []])" and h0: "heap_ok h0"
    and h': "heap_ok h'" "hp_oom h' = hp_oom h" "hp_brk h \<le> hp_brk h'" "hp_mem h' = (hp_mem h)(a \<mapsto> c')"
    and c': "cj_next c' = cj_next c" "cj_type c' AND cJSON_IsReference = 0" "cj_child c' = None"
  shows "chain_at h0 h' head current (us @ [JNode a c' []])"
  by (rule chain_fill [OF ch h0 _ c'(1,2)]) (use h' c'(3) in \<open>simp_all add: grows_nothing ring_def\<close>)

lemma chain_cell:
  assumes "chain_at h0 h head current (us @ [JNode a c ks])"
  shows "heap_ok h" "hp_mem h a = Some c"
  using assms growsD(1,4) [of h0 h "flat (us @ [JNode a c ks])"] unfolding chain_at_def by auto

lemma parse_member_safe:
  assumes pv: "parser_safe D depth_ok pv" and d: "depth_ok d" and h0: "heap_ok h0"
  shows "round_safe h0 (is_member D) s d (parse_member D pv)"
  unfolding round_safe_def
proof (intro allI impI)
  fix head current h and b :: parse_buffer and ts
  assume ch: "chain_at h0 h head current ts" "list_all (is_member D) ts" and b: "pb_content b = s" "pb_offset b < length s" "pb_depth b = d"
  have ok: "heap_ok h" using ch(1) growsD(1) unfolding chain_at_def by blast
  show "round_ok h0 (is_member D) s d (pb_offset b) (parse_member D pv head current h b)"
    using ok
  proof (cases rule: alloc_cases [where c = "zero_item D"])
    case (no_memory h1)
    then show ?thesis using chain_no_memory [OF ch(1)] b by (auto simp: parse_member_def cJSON_New_Item_def round_ok_def)
  next
    case (fresh a h1)
    let ?n = "(zero_item D)\<lparr>cj_prev := current\<rparr>" and ?b = "buffer_skip_whitespace (advance 1 b)" and ?us = "relink ts a"
    obtain head1 h2 where at: "attach_item head current a h1 = Some (head1, h2)" "chain_at h0 h2 head1 (Some a) (?us @ [JNode a ?n []])"
      using chain_attach [OF ch(1) fresh(1) new_item_zero(1-4)] by blast
    note c2 = chain_cell [OF at(2)]
    have us: "list_all (is_member D) ?us" using ch(2) by (simp add: list_all_relink [OF value_ignores_links(2)])
    note simps = parse_member_def cJSON_New_Item_def round_ok_def
    show ?thesis
    proof (cases "can_access_at_index b 1")
      case False
      then show ?thesis using fresh(1) at b(1) by (auto simp: simps)
    next
      case acc: True
      have adv: "pb_offset (advance 1 b) \<le> length (pb_content (advance 1 b))" "can_access_at_index (advance 1 b) 0"
        using b acc by (simp_all add: can_access_at_index_def)
      note sk = skip_whitespace_range [OF adv(1)]
      have bc: "pb_content ?b = s" "pb_depth ?b = d" using sk(1,2) b by simp_all
      obtain r h3 b1 where r: "parse_string a h2 ?b = Some (r, h3, b1)" "heap_ok h3" "hp_oom h3 = hp_oom h2" "hp_brk h2 \<le> hp_brk h3" "pb_content b1 = s"
        "if r then pb_offset ?b < pb_offset b1 \<and> pb_offset b1 \<le> length s \<and> pb_depth b1 = d \<and>
           (\<exists>k. hp_mem h3 = (hp_mem h2)(a \<mapsto> ?n\<lparr>cj_type := cJSON_String, cj_valuestring := Some k\<rparr>))
         else hp_mem h3 = hp_mem h2"
        using parse_string_safe [OF c2 sk(5) [OF adv(2)]] unfolding bc by blast
      show ?thesis
      proof (cases r)
        case False
        then have "chain_at h0 h3 head1 (Some a) (?us @ [JNode a ?n []])"
          using at(2) r(2,3,4,6) grows_then_nothing [of h0 h2 _ h3] by (auto simp: chain_at_def grows_nothing)
        then show ?thesis using False fresh(1) at(1) acc r(1,5) by (auto simp: simps)
      next
        case True
        then obtain k where k: "hp_mem h3 = (hp_mem h2)(a \<mapsto> ?n\<lparr>cj_type := cJSON_String, cj_valuestring := Some k\<rparr>)"
          and o1: "pb_offset ?b < pb_offset b1" "pb_offset b1 \<le> length (pb_content b1)" "pb_depth b1 = d"
          using r(5,6) by auto
        let ?c = "?n\<lparr>cj_type := cJSON_String, cj_string := Some k, cj_valuestring := None\<rparr>"
        let ?h4 = "h3\<lparr>hp_mem := (hp_mem h3)(a \<mapsto> ?c)\<rparr>" and ?b2 = "buffer_skip_whitespace b1"
        have mod: "h_modify h3 a (\<lambda>c. c\<lparr>cj_string := cj_valuestring c, cj_valuestring := None\<rparr>) = Some ?h4"
          using k by (simp add: h_modify_def)
        have ok4: "heap_ok ?h4" using heap_ok_modify [OF r(2) mod] .
        have ch4: "chain_at h0 ?h4 head1 (Some a) (?us @ [JNode a ?c []])"
          by (rule chain_set [OF at(2) h0 ok4]) (use r(3,4) k new_item_zero in \<open>simp_all add: cJSON_String_def cJSON_IsReference_def\<close>)
        note sk2 = skip_whitespace_range [OF o1(2)]
        show ?thesis
        proof (cases "buffer_next_is ?b2 (CHR '':'')")
          case False
          then show ?thesis using fresh(1) at(1) acc r(1,5) True mod ch4 sk2(1) by (auto simp: simps Let_def)
        next
          case colon: True
          have adv3: "pb_offset (advance 1 ?b2) \<le> length (pb_content (advance 1 ?b2))" using next_is_bound [OF colon] by simp
          note sk3 = skip_whitespace_range [OF adv3]
          let ?b3 = "buffer_skip_whitespace (advance 1 ?b2)"
          have n: "cj_child ?c = None" "cj_type ?c AND cJSON_IsReference = 0" by (simp_all add: new_item_zero cJSON_String_def cJSON_IsReference_def)
          have ib: "pb_offset ?b3 \<le> length (pb_content ?b3)" "depth_ok (pb_depth ?b3)" using sk3 sk2 o1 d by simp_all
          obtain r5 h5 b5 c' ks where r5: "pv a ?h4 ?b3 = Some (r5, h5, b5)" "pb_content b5 = s" "chain_at h0 h5 head1 (Some a) (?us @ [JNode a c' ks])"
            "r5 \<longrightarrow> pb_offset ?b3 < pb_offset b5 \<and> pb_offset b5 \<le> length s \<and> pb_depth b5 = d \<and> is_value D (JNode a c' ks) \<and> cj_string c' = Some k"
            using chain_parse [OF pv h0 ch4 n ib] sk3(1,2) sk2(1,2) r(5) o1(3) by auto
          have eq: "parse_member D pv head current h b = Some (r5, head1, Some a, h5, if r5 then buffer_skip_whitespace b5 else b5)"
            using fresh(1) at(1) acc r(1) True mod colon r5(1) by (simp add: parse_member_def cJSON_New_Item_def Let_def)
          show ?thesis
          proof (cases r5)
            case True
            then have "pb_offset b5 \<le> length (pb_content b5)" using r5(2,4) by simp
            then show ?thesis using True r5 sk(3) sk2(3) sk3(3) o1(1) us skip_whitespace_range [of b5] unfolding eq
              by (auto simp: round_ok_def is_member_def intro!: exI [of _ "?us @ [JNode a c' ks]"])
          next
            case False
            then show ?thesis using r5(2,3) unfolding eq by (auto simp: round_ok_def)
          qed
        qed
      qed
    qed
  qed
qed

section \<open>Arrays, objects, values\<close>

lemma nodes_are_exist: "list_all (is_value D) ts \<Longrightarrow> \<exists>vs. nodes_are D vs ts"
proof (induction ts)
  case (Cons t ts)
  then obtain v vs where "node_is D v t" "nodes_are D vs ts" unfolding is_value_def by auto
  then show ?case by (intro exI [of _ "v # vs"]) simp
qed (simp add: exI [of _ "[]"])

lemma members_are_exist: "list_all (is_member D) ts \<Longrightarrow> \<exists>kvs. members_are D kvs ts"
proof (induction ts)
  case (Cons t ts)
  then obtain k v kvs where "cj_string (node_cell t) = Some k" "node_is D v t" "members_are D kvs ts" unfolding is_member_def is_value_def by auto
  then show ?case by (intro exI [of _ "(k, v) # kvs"]) simp
qed (simp add: exI [of _ "[]"])

text \<open>The list is finished and becomes the children of the item.\<close>

lemma parse_success_tree:
  assumes ch: "chain_at h h1 head current ts" and h: "heap_ok h" "hp_mem h item = Some c"
    and Q: "\<forall>a d ks us q. Q (JNode a d ks # us) \<longrightarrow> Q (JNode a (d\<lparr>cj_prev := q\<rparr>) ks # us)" "Q ts"
  shows "\<exists>h' ts'. parse_success t item head current h1 b1 = Some (True, h', advance 1 (b1\<lparr>pb_depth := pb_depth b1 - 1\<rparr>)) \<and>
    grows (h\<lparr>hp_mem := (hp_mem h)(item \<mapsto> c\<lparr>cj_type := t, cj_child := head\<rparr>)\<rparr>) h' (flat ts') \<and> linked head ts' \<and> ring ts' \<and> Q ts'"
proof -
  have g: "grows h h1 (flat ts)" "linked head ts" "current = (if ts = [] then None else Some (node_addr (last ts)))"
    using ch by (simp_all add: chain_at_def)
  have item: "item \<notin> fst ` set (flat ts)" "hp_mem h1 item = Some c" using growsD(9) [OF g(1) h(2,1)] growsD(5) [OF g(1)] h(2) by simp_all
  define ts' where "ts' = (case ts of [] \<Rightarrow> [] | JNode a d ks # us \<Rightarrow> JNode a (d\<lparr>cj_prev := current\<rparr>) ks # us)"
  let ?c = "c\<lparr>cj_type := t, cj_child := head\<rparr>"
  have "\<exists>h2. (case head of None \<Rightarrow> Some h1 | Some a \<Rightarrow> h_modify h1 a (\<lambda>c. c\<lparr>cj_prev := current\<rparr>)) = Some h2 \<and> grows h h2 (flat ts') \<and>
      linked head ts' \<and> ring ts' \<and> Q ts'"
  proof (cases ts)
    case Nil
    then have "head = None" using g(2) by simp
    then show ?thesis using Nil g(1) Q(2) by (simp add: ts'_def ring_def)
  next
    case (Cons x us)
    obtain a d ks where x: "x = JNode a d ks" by (cases x)
    let ?h2 = "h1\<lparr>hp_mem := (hp_mem h1)(a \<mapsto> d\<lparr>cj_prev := current\<rparr>)\<rparr>"
    have a: "hp_mem h1 a = Some d" "a \<notin> fst ` set (flat ks @ flat us)" "head = Some a"
      using growsD(4,6) [OF g(1)] g(2) Cons x by auto
    have "grows h ?h2 (flat ts')"
      unfolding grows_def
    proof (intro conjI ballI allI impI)
      show "heap_ok ?h2" using growsD(1) [OF g(1)] a(1) by (auto simp: heap_ok_def)
      show "hp_oom ?h2 = hp_oom h" "hp_brk h \<le> hp_brk ?h2" using growsD(2,3) [OF g(1)] by simp_all
      show "distinct (map fst (flat ts'))" using growsD(6) [OF g(1)] Cons x by (simp add: ts'_def)
      fix y
      show "hp_mem ?h2 y = hp_mem h y" if "y \<notin> fst ` set (flat ts')" using that growsD(5) [OF g(1), of y] Cons x by (auto simp: ts'_def)
      show "hp_brk h \<le> y" if "y \<in> fst ` set (flat ts')" using that growsD(7) [OF g(1), of y] Cons x by (auto simp: ts'_def)
    next
      fix y assume "y \<in> set (flat ts')"
      then consider "y = (a, d\<lparr>cj_prev := current\<rparr>)" | "y \<in> set (flat ks @ flat us)" using Cons x by (auto simp: ts'_def)
      then have "hp_mem ?h2 (fst y) = Some (snd y)"
      proof cases
        case 2
        then have "fst y \<noteq> a" "(fst y, snd y) \<in> set (flat ts)" using a(2) Cons x by auto
        then show ?thesis using growsD(4) [OF g(1)] by simp
      qed simp
      then show "case y of (a, c) \<Rightarrow> hp_mem ?h2 a = Some c" by (cases y) simp
    qed
    moreover have "linked head ts'" "ring ts'" using g(2,3) Cons x by (auto simp: ts'_def ring_def)
    moreover have "Q ts'" using Q Cons x by (simp add: ts'_def)
    ultimately show ?thesis using a(1,3) by (simp add: h_modify_def)
  qed
  then obtain h2 where h2: "(case head of None \<Rightarrow> Some h1 | Some a \<Rightarrow> h_modify h1 a (\<lambda>c. c\<lparr>cj_prev := current\<rparr>)) = Some h2"
    "grows h h2 (flat ts')" "linked head ts'" "ring ts'" "Q ts'" by blast
  have item2: "hp_mem h2 item = Some c" "item \<notin> fst ` set (flat ts')" using growsD(9) [OF h2(2) h(2,1)] growsD(5) [OF h2(2)] h(2) by simp_all
  let ?h3 = "h2\<lparr>hp_mem := (hp_mem h2)(item \<mapsto> ?c)\<rparr>"
  have "grows (h\<lparr>hp_mem := (hp_mem h)(item \<mapsto> ?c)\<rparr>) ?h3 (flat ts')"
    by (rule grows_update [OF h2(2) h(2,1)])
  moreover have "parse_success t item head current h1 b1 = Some (True, ?h3, advance 1 (b1\<lparr>pb_depth := pb_depth b1 - 1\<rparr>))"
    using h2(1) item2(1) by (simp add: parse_success_def h_modify_def)
  ultimately show ?thesis using h2(3,4,5) by blast
qed

lemma parse_success_parsed:
  assumes ch: "chain_at h h1 head current ts" and h: "heap_ok h" "hp_mem h item = Some c" "cj_child c = None"
    and t: "t AND cJSON_IsReference = 0"
    and P: "ignores_links P" "list_all P ts"
    and v: "\<forall>ts' c'. list_all P ts' \<and> cj_type c' = t \<longrightarrow> (\<exists>v. node_is D v (JNode item c' ts'))"
    and b: "pb_content b1 = pb_content b" "pb_offset b \<le> pb_offset b1" "pb_offset b1 < length (pb_content b)" "pb_depth b1 = Suc (pb_depth b)"
  shows "\<exists>r h' b'. parse_success t item head current h1 b1 = Some (r, h', b') \<and> parsed_value D item h b c r h' b'"
proof -
  have "\<forall>a d ks us q. list_all P (JNode a d ks # us) \<longrightarrow> list_all P (JNode a (d\<lparr>cj_prev := q\<rparr>) ks # us)"
    using P(1) by (simp add: ignores_links_def)
  from parse_success_tree [where Q = "list_all P", OF ch h(1,2) this P(2)]
  obtain h' ts' where r: "parse_success t item head current h1 b1 = Some (True, h', advance 1 (b1\<lparr>pb_depth := pb_depth b1 - 1\<rparr>))"
    "grows (h\<lparr>hp_mem := (hp_mem h)(item \<mapsto> c\<lparr>cj_type := t, cj_child := head\<rparr>)\<rparr>) h' (flat ts')" "linked head ts'" "ring ts'" "list_all P ts'" by blast
  obtain v where "node_is D v (JNode item (c\<lparr>cj_type := t, cj_child := head\<rparr>) ts')" using v r(5) by fastforce
  then have "parsed_value D item h b c True h' (advance 1 (b1\<lparr>pb_depth := pb_depth b1 - 1\<rparr>))"
    using r(2-4) t b unfolding parsed_value_def by (auto intro!: exI [of _ "c\<lparr>cj_type := t, cj_child := head\<rparr>"] exI [of _ ts'])
  then show ?thesis using r(1) by blast
qed

lemma parsed_failure: "heap_ok h \<Longrightarrow> pb_content b' = pb_content b \<Longrightarrow> parsed_value D item h b c False h b'"
  by (simp add: parsed_value_def grows_refl)

lemma parse_fail_parsed:
  assumes "chain_at h h1 head current ts" and "heap_ok h" and "pb_content b1 = pb_content b"
  shows "\<exists>r h' b'. parse_fail head h1 b1 = Some (r, h', b') \<and> parsed_value D item h b c r h' b'"
  using delete_new [of h h1 ts head] assms by (auto simp: chain_at_def parse_fail_def parsed_value_def)

lemma chain_start: "heap_ok h \<Longrightarrow> chain_at h h None None []"
  by (simp add: chain_at_def grows_refl)

text \<open>What comes after the opening bracket, for arrays and objects.\<close>

lemma parse_body_parsed:
  assumes h: "heap_ok h" "hp_mem h item = Some c" "cj_child c = None" and t: "t AND cJSON_IsReference = 0"
    and P: "ignores_links P" and v: "\<forall>ts' c'. list_all P ts' \<and> cj_type c' = t \<longrightarrow> (\<exists>v. node_is D v (JNode item c' ts'))"
    and b: "pb_content b1 = pb_content b" "pb_offset b < pb_offset b1" "pb_offset b1 \<le> length (pb_content b)" "pb_depth b1 = Suc (pb_depth b)"
    and round: "round_safe h P (pb_content b) (Suc (pb_depth b)) round"
  shows "\<exists>r h' b'. (if buffer_next_is b1 close then parse_success t item None None h b1
       else if \<not> can_access_at_index b1 0 then Some (False, h, step_back b1)
       else do {
         (parsed, head, current, h1, b2) \<leftarrow> parse_rounds round None None h (step_back b1);
         (if parsed \<and> buffer_next_is b2 close then parse_success t item head current h1 b2 else parse_fail head h1 b2)
       }) = Some (r, h', b') \<and> parsed_value D item h b c r h' b'"
proof -
  have nil: "list_all P []" by simp
  consider (empty) "buffer_next_is b1 close" | (ended) "\<not> buffer_next_is b1 close" "\<not> can_access_at_index b1 0"
    | (items) "\<not> buffer_next_is b1 close" "can_access_at_index b1 0" by blast
  then show ?thesis
  proof cases
    case empty
    then have "pb_offset b1 < length (pb_content b)" using next_is_bound b(1) by fastforce
    from parse_success_parsed [OF chain_start [OF h(1)] h t P nil v b(1) _ this b(4)] b(2) empty show ?thesis by simp
  next
    case ended
    then show ?thesis using parsed_failure [OF h(1), of "step_back b1" b D item c] b(1) by auto
  next
    case items
    have sb: "pb_content (step_back b1) = pb_content b" "pb_offset (step_back b1) < length (pb_content b)" "pb_depth (step_back b1) = Suc (pb_depth b)"
      "pb_offset b \<le> pb_offset (step_back b1)"
      using b by simp_all
    have "round_ok h P (pb_content b) (Suc (pb_depth b)) (pb_offset (step_back b1)) (parse_rounds round None None h (step_back b1))"
      by (rule parse_rounds_safe [OF round chain_start [OF h(1)] nil sb(1-3)])
    then obtain ok head current h1 b2 ts where r: "parse_rounds round None None h (step_back b1) = Some (ok, head, current, h1, b2)"
      "chain_at h h1 head current ts" "pb_content b2 = pb_content b"
      "ok \<longrightarrow> list_all P ts \<and> pb_offset (step_back b1) < pb_offset b2 \<and> pb_depth b2 = Suc (pb_depth b)"
      unfolding round_ok_def by (auto split: option.splits)
    show ?thesis
    proof (cases "ok \<and> buffer_next_is b2 close")
      case True
      then have "pb_offset b2 < length (pb_content b)" "pb_offset b \<le> pb_offset b2" "list_all P ts" "pb_depth b2 = Suc (pb_depth b)"
        using next_is_bound [of b2 close] r(3,4) sb(4) by auto
      from parse_success_parsed [OF r(2) h t P this(3) v r(3) this(2,1,4)] show ?thesis using items r(1) True by simp
    next
      case False
      from parse_fail_parsed [OF r(2) h(1) r(3)] show ?thesis using items r(1) False by auto
    qed
  qed
qed

lemma parse_array_parsed:
  assumes h: "heap_ok h" "hp_mem h item = Some c" "cj_child c = None" and b: "buffer_next_is b (CHR ''['')"
    and pv: "parser_safe D depth_ok pv" "pb_depth b < CJSON_NESTING_LIMIT \<longrightarrow> depth_ok (Suc (pb_depth b))"
  shows "\<exists>r h' b'. parse_array D pv item h b = Some (r, h', b') \<and> parsed_value D item h b c r h' b'"
proof (cases "pb_depth b < CJSON_NESTING_LIMIT")
  case True
  let ?b = "b\<lparr>pb_depth := pb_depth b + 1\<rparr>"
  let ?b1 = "buffer_skip_whitespace (advance 1 ?b)"
  have o: "pb_offset (advance 1 ?b) \<le> length (pb_content (advance 1 ?b))" using next_is_bound [OF b] by simp
  note sk = skip_whitespace_range [OF o]
  have v: "\<forall>ts' c'. list_all (is_value D) ts' \<and> cj_type c' = cJSON_Array \<longrightarrow> (\<exists>v. node_is D v (JNode item c' ts'))"
  proof (intro allI impI)
    fix ts' :: "'a jnode list" and c' :: "'a cjson" assume a: "list_all (is_value D) ts' \<and> cj_type c' = cJSON_Array"
    then obtain vs where "nodes_are D vs ts'" using nodes_are_exist by blast
    then show "\<exists>v. node_is D v (JNode item c' ts')" using a by (intro exI [of _ "JsArray vs"]) (simp add: cJSON_Array_def)
  qed
  have t: "cJSON_Array AND cJSON_IsReference = 0" by (simp add: cJSON_Array_def cJSON_IsReference_def)
  have at: "buffer_at_offset ?b 0 = Some (CHR ''['')" using b by (simp add: buffer_next_is_def buffer_at_offset_def)
  have "round_safe h (is_value D) (pb_content b) (Suc (pb_depth b)) (parse_element D pv)"
    using parse_element_safe [OF pv(1) _ h(1)] pv(2) True by blast
  note body = parse_body_parsed [OF h t value_ignores_links(1) v _ _ _ _ this]
  have "\<exists>r h' b'. (if buffer_next_is ?b1 (CHR '']'') then parse_success cJSON_Array item None None h ?b1
       else if \<not> can_access_at_index ?b1 0 then Some (False, h, step_back ?b1)
       else do {
         (parsed, head, current, h1, b2) \<leftarrow> parse_rounds (parse_element D pv) None None h (step_back ?b1);
         (if parsed \<and> buffer_next_is b2 (CHR '']'') then parse_success cJSON_Array item head current h1 b2 else parse_fail head h1 b2)
       }) = Some (r, h', b') \<and> parsed_value D item h b c r h' b'"
    by (rule body) (use sk in simp_all)
  then show ?thesis unfolding parse_array_def using True at by (simp only: Let_def not_le if_False if_not_P bind.bind_lunit simp_thms)
next
  case False
  then show ?thesis using parsed_failure [OF h(1), of b b D item c] by (auto simp: parse_array_def)
qed

lemma parse_object_parsed:
  assumes h: "heap_ok h" "hp_mem h item = Some c" "cj_child c = None" and b: "buffer_next_is b (CHR ''{'')"
    and pv: "parser_safe D depth_ok pv" "pb_depth b < CJSON_NESTING_LIMIT \<longrightarrow> depth_ok (Suc (pb_depth b))"
  shows "\<exists>r h' b'. parse_object D pv item h b = Some (r, h', b') \<and> parsed_value D item h b c r h' b'"
proof (cases "pb_depth b < CJSON_NESTING_LIMIT")
  case True
  let ?b = "b\<lparr>pb_depth := pb_depth b + 1\<rparr>"
  let ?b1 = "buffer_skip_whitespace (advance 1 ?b)"
  have o: "pb_offset (advance 1 ?b) \<le> length (pb_content (advance 1 ?b))" using next_is_bound [OF b] by simp
  note sk = skip_whitespace_range [OF o]
  have v: "\<forall>ts' c'. list_all (is_member D) ts' \<and> cj_type c' = cJSON_Object \<longrightarrow> (\<exists>v. node_is D v (JNode item c' ts'))"
  proof (intro allI impI)
    fix ts' :: "'a jnode list" and c' :: "'a cjson" assume a: "list_all (is_member D) ts' \<and> cj_type c' = cJSON_Object"
    then obtain kvs where "members_are D kvs ts'" using members_are_exist by blast
    then show "\<exists>v. node_is D v (JNode item c' ts')" using a by (intro exI [of _ "JsObject kvs"]) (simp add: cJSON_Object_def)
  qed
  have t: "cJSON_Object AND cJSON_IsReference = 0" by (simp add: cJSON_Object_def cJSON_IsReference_def)
  have at: "buffer_next_is ?b (CHR ''{'')" using b by (simp add: buffer_next_is_def buffer_at_offset_def can_access_at_index_def)
  have "round_safe h (is_member D) (pb_content b) (Suc (pb_depth b)) (parse_member D pv)"
    using parse_member_safe [OF pv(1) _ h(1)] pv(2) True by blast
  note body = parse_body_parsed [OF h t value_ignores_links(2) v _ _ _ _ this]
  have "\<exists>r h' b'. (if buffer_next_is ?b1 (CHR ''}'') then parse_success cJSON_Object item None None h ?b1
       else if \<not> can_access_at_index ?b1 0 then Some (False, h, step_back ?b1)
       else do {
         (parsed, head, current, h1, b2) \<leftarrow> parse_rounds (parse_member D pv) None None h (step_back ?b1);
         (if parsed \<and> buffer_next_is b2 (CHR ''}'') then parse_success cJSON_Object item head current h1 b2 else parse_fail head h1 b2)
       }) = Some (r, h', b') \<and> parsed_value D item h b c r h' b'"
    by (rule body) (use sk in simp_all)
  then show ?thesis unfolding parse_object_def using True at by (simp only: Let_def not_le if_False if_not_P bind.bind_lunit simp_thms)
next
  case False
  then show ?thesis using parsed_failure [OF h(1), of b b D item c] by (auto simp: parse_object_def)
qed

text \<open>The one thing relied on of \<^verbatim>\<open>strtod\<close>: it does not use more characters than the string has.\<close>

definition strtod_ok :: "'d num_io \<Rightarrow> bool" where
  "strtod_ok N \<longleftrightarrow> (\<forall>s. snd (ni_strtod N s) \<le> length s)"

lemma length_num_copy: "length (num_copy n s) \<le> length s"
  by (induction n s rule: num_copy.induct) auto

lemma modify_parsed:
  assumes h: "heap_ok h" "hp_mem h item = Some c" "cj_child c = None"
    and f: "cj_child (f c) = cj_child c" "cj_next (f c) = cj_next c" "cj_prev (f c) = cj_prev c" "cj_string (f c) = cj_string c"
      "cj_type (f c) AND cJSON_IsReference = 0" "node_is D v (JNode item (f c) [])"
    and n: "0 < n" "pb_offset b + n \<le> length (pb_content b)"
  shows "\<exists>r h' b'. do { h1 \<leftarrow> h_modify h item f; Some (True, h1, advance n b) } = Some (r, h', b') \<and> parsed_value D item h b c r h' b'"
proof -
  let ?h = "h\<lparr>hp_mem := (hp_mem h)(item \<mapsto> f c)\<rparr>"
  have m: "h_modify h item f = Some ?h" using h(2) by (simp add: h_modify_def)
  have "parsed_value D item h b c True ?h (advance n b)"
    using heap_ok_modify [OF h(1) m] n f by (intro parsed_simple [where f = f, OF h]) simp_all
  then show ?thesis using m by (intro exI [of _ True] exI [of _ ?h] exI [of _ "advance n b"]) simp
qed

lemma parse_value_safe:
  assumes "strtod_ok N"
  shows "parser_safe D (\<lambda>d. CJSON_NESTING_LIMIT < d + fuel \<and> d \<le> CJSON_NESTING_LIMIT) (parse_value fuel D N)"
proof (induction fuel)
  case 0
  then show ?case by (simp add: parser_safe_def)
next
  case (Suc fuel)
  show ?case
    unfolding parser_safe_def
  proof (intro allI impI, elim conjE)
    fix item h and c :: "'a cjson" and b :: parse_buffer
    assume h: "heap_ok h" "hp_mem h item = Some c" "cj_child c = None" and t: "cj_type c AND cJSON_IsReference = 0"
      and o: "pb_offset b \<le> length (pb_content b)" and d: "CJSON_NESTING_LIMIT < pb_depth b + Suc fuel" "pb_depth b \<le> CJSON_NESTING_LIMIT"
    let ?ok = "\<lambda>x. \<exists>r h' b'. x = Some (r, h', b') \<and> parsed_value D item h b c r h' b'"
    have lit: "0 < length w \<and> pb_offset b + length w \<le> length (pb_content b)" if "buffer_has b w" "w \<noteq> []" for w using that by (simp add: buffer_has_def)
    have deeper: "pb_depth b < CJSON_NESTING_LIMIT \<longrightarrow> CJSON_NESTING_LIMIT < Suc (pb_depth b) + fuel \<and> Suc (pb_depth b) \<le> CJSON_NESTING_LIMIT"
      using d by simp
    have "?ok (parse_value (Suc fuel) D N item h b)"
    proof -
      consider (null) "buffer_has b ''null''" | (false) "\<not> buffer_has b ''null''" "buffer_has b ''false''"
        | (true) "\<not> buffer_has b ''null''" "\<not> buffer_has b ''false''" "buffer_has b ''true''"
        | (other) "\<not> buffer_has b ''null''" "\<not> buffer_has b ''false''" "\<not> buffer_has b ''true''" by blast
      then show ?thesis
      proof cases
        case null
        have "?ok (do { h1 \<leftarrow> h_modify h item (\<lambda>c. c\<lparr>cj_type := cJSON_NULL\<rparr>); Some (True, h1, advance 4 b) })"
          by (rule modify_parsed [OF h, where v = JsNull]) (use lit [OF null] in \<open>simp_all add: cJSON_NULL_def cJSON_IsReference_def\<close>)
        then show ?thesis using null by simp
      next
        case false
        have "?ok (do { h1 \<leftarrow> h_modify h item (\<lambda>c. c\<lparr>cj_type := cJSON_False\<rparr>); Some (True, h1, advance 5 b) })"
          by (rule modify_parsed [OF h, where v = "JsBool False"]) (use lit [OF false(2)] in \<open>simp_all add: cJSON_False_def cJSON_IsReference_def\<close>)
        then show ?thesis using false by simp
      next
        case true
        have "?ok (do { h1 \<leftarrow> h_modify h item (\<lambda>c. c\<lparr>cj_type := cJSON_True, cj_valueint := 1\<rparr>); Some (True, h1, advance 4 b) })"
          by (rule modify_parsed [OF h, where v = "JsBool True"]) (use lit [OF true(3)] in \<open>simp_all add: cJSON_True_def cJSON_IsReference_def\<close>)
        then show ?thesis using true by simp
      next
        case other
        have str: "?ok (parse_string item h b)" if "buffer_next_is b (CHR 0x22)"
        proof -
          have "can_access_at_index b 0" using that by (simp add: buffer_next_is_def)
          from parse_string_safe [OF h(1,2) this] obtain r h' b' where r: "parse_string item h b = Some (r, h', b')" "heap_ok h'"
            "hp_oom h' = hp_oom h" "hp_brk h \<le> hp_brk h'" "pb_content b' = pb_content b"
            "if r then pb_offset b < pb_offset b' \<and> pb_offset b' \<le> length (pb_content b) \<and> pb_depth b' = pb_depth b \<and>
               (\<exists>s. hp_mem h' = (hp_mem h)(item \<mapsto> c\<lparr>cj_type := cJSON_String, cj_valuestring := Some s\<rparr>))
             else hp_mem h' = hp_mem h" by blast
          show ?thesis
          proof (cases r)
            case True
            then obtain s where s: "hp_mem h' = (hp_mem h)(item \<mapsto> c\<lparr>cj_type := cJSON_String, cj_valuestring := Some s\<rparr>)" using r(6) by auto
            have "parsed_value D item h b c True h' b'"
              using r True s by (intro parsed_simple [where f = "\<lambda>c. c\<lparr>cj_type := cJSON_String, cj_valuestring := Some s\<rparr>" and v = "JsString s", OF h])
                (simp_all add: cJSON_String_def cJSON_IsReference_def)
            then show ?thesis using r(1) True by auto
          next
            case False
            then have "parsed_value D item h b c False h' b'" using r by (simp add: parsed_value_def grows_nothing)
            then show ?thesis using r(1) False by auto
          qed
        qed
        have num: "?ok (parse_number D N item h b)"
        proof -
          obtain x n where x: "ni_strtod N (num_copy 63 (drop (pb_offset b) (pb_content b))) = (x, n)" by fastforce
          have "n \<le> length (num_copy 63 (drop (pb_offset b) (pb_content b)))" using assms x unfolding strtod_ok_def by (metis snd_conv)
          then have n: "pb_offset b + n \<le> length (pb_content b)" using length_num_copy [of 63 "drop (pb_offset b) (pb_content b)"] o by simp
          show ?thesis
          proof (cases "n = 0")
            case True
            then show ?thesis using x parsed_failure [OF h(1), of b b D item c] by (auto simp: parse_number_def)
          next
            case False
            have "?ok (do {
                h1 \<leftarrow> h_modify h item (\<lambda>c. c\<lparr>cj_valuedouble := x, cj_valueint := dbl_saturate D x, cj_type := cJSON_Number\<rparr>);
                Some (True, h1, advance n b) })"
              by (rule modify_parsed [OF h, where v = "JsNumber x"]) (use n False in \<open>simp_all add: cJSON_Number_def cJSON_IsReference_def\<close>)
            then show ?thesis using x False by (simp add: parse_number_def)
          qed
        qed
        have arr: "?ok (parse_array D (parse_value fuel D N) item h b)" if "buffer_next_is b (CHR ''['')"
          by (rule parse_array_parsed [OF h that Suc.IH deeper])
        have obj: "?ok (parse_object D (parse_value fuel D N) item h b)" if "buffer_next_is b (CHR ''{'')"
          by (rule parse_object_parsed [OF h that Suc.IH deeper])
        show ?thesis using other str num arr obj parsed_failure [OF h(1), of b b D item c] by auto
      qed
    qed
    then show "\<exists>r h' b'. parse_value (Suc fuel) D N item h b = Some (r, h', b') \<and> parsed_value D item h b c r h' b'" .
  qed
qed

section \<open>Whole inputs\<close>

lemma chain_json_at:
  assumes "chain_at h0 h (Some a) cur [JNode a c ks]" and "node_is D v (JNode a c ks)"
  shows "json_at D h a v"
  using assms growsD(1,6) [of h0 h "flat [JNode a c ks]"] grows_cells [of h0 h "flat [JNode a c ks]"]
  unfolding json_at_def chain_at_def by (intro conjI exI [of _ c] exI [of _ ks]) simp_all

lemma skip_bom_range:
  assumes "s \<noteq> []"
  shows "pb_content (skip_utf8_bom \<lparr>pb_content = s, pb_offset = 0, pb_depth = 0\<rparr>) = s" "pb_depth (skip_utf8_bom \<lparr>pb_content = s, pb_offset = 0, pb_depth = 0\<rparr>) = 0"
    "pb_offset (skip_utf8_bom \<lparr>pb_content = s, pb_offset = 0, pb_depth = 0\<rparr>) \<le> length s"
  by (simp_all add: skip_utf8_bom_def can_access_at_index_def)

lemma parse_opts_safe:
  assumes N: "strtod_ok N" and h: "heap_ok h"
  shows "\<exists>p e h'. cJSON_ParseWithLengthOpts D N value require h = Some (p, e, h') \<and>
    (case p of None \<Rightarrow> grows h h' [] | Some a \<Rightarrow> hp_mem h a = None \<and> (\<exists>c ks. grows h h' (flat [JNode a c ks]) \<and> linked (Some a) [JNode a c ks]) \<and> (\<exists>v. json_at D h' a v)) \<and>
    (\<forall>s n. value = Some s \<longrightarrow> e = Some n \<longrightarrow> n \<le> length s)"
proof (cases "value")
  case None
  then show ?thesis using grows_refl [OF h] by (simp add: cJSON_ParseWithLengthOpts_def)
next
  case (Some s)
  note def = cJSON_ParseWithLengthOpts_def cJSON_New_Item_def Let_def
  show ?thesis
  proof (cases "s = []")
    case True
    then show ?thesis using Some grows_refl [OF h] by (simp add: def)
  next
    case ne: False
    show ?thesis
      using h
    proof (cases rule: alloc_cases [where c = "zero_item D"])
      case (no_memory h1)
      then have "grows h h1 []" by (auto simp: grows_nothing h_alloc_def)
      then show ?thesis using Some ne no_memory(1) by (simp add: def)
    next
      case (fresh a h1)
      have z: "zero_item D\<lparr>cj_prev := None\<rparr> = zero_item D" by (simp add: zero_item_def)
      have ch: "chain_at h h1 (Some a) (Some a) ([] @ [JNode a (zero_item D) []])"
        using chain_attach [OF chain_start [OF h] fresh(1) new_item_zero(1-4)] by (simp add: attach_item_def z)
      let ?b = "skip_utf8_bom \<lparr>pb_content = s, pb_offset = 0, pb_depth = 0\<rparr>"
      note bom = skip_bom_range [OF ne]
      have o: "pb_offset ?b \<le> length (pb_content ?b)" using bom by simp
      note sk = skip_whitespace_range [OF o]
      have ib: "pb_offset (buffer_skip_whitespace ?b) \<le> length (pb_content (buffer_skip_whitespace ?b))"
        "CJSON_NESTING_LIMIT < pb_depth (buffer_skip_whitespace ?b) + (CJSON_NESTING_LIMIT + 1) \<and> pb_depth (buffer_skip_whitespace ?b) \<le> CJSON_NESTING_LIMIT"
        using sk bom by simp_all
      obtain r h2 b2 c ks where r: "parse_value (CJSON_NESTING_LIMIT + 1) D N a h1 (buffer_skip_whitespace ?b) = Some (r, h2, b2)"
        "pb_content b2 = s" "chain_at h h2 (Some a) (Some a) ([] @ [JNode a c ks])" "r \<longrightarrow> pb_offset b2 \<le> length s \<and> is_value D (JNode a c ks)"
        using chain_parse [OF parse_value_safe [OF N] h ch new_item_zero(2,4) ib] unfolding sk(1) bom(1) by blast
      obtain h3 where d: "cJSON_Delete (Some a) h2 = Some h3" "grows h h3 []"
        using delete_new [of h h2 "[JNode a c ks]" "Some a"] r(3) h by (auto simp: chain_at_def)
      let ?b3 = "if require then buffer_skip_whitespace b2 else b2"
      have good: "hp_mem h a = None \<and> (\<exists>c ks. grows h h2 (flat [JNode a c ks]) \<and> linked (Some a) [JNode a c ks]) \<and> (\<exists>v. json_at D h2 a v)" if r
        using that r(3,4) fresh(2) chain_json_at unfolding is_value_def chain_at_def append_Nil by blast
      have o3: "pb_offset ?b3 \<le> length s" if r
        using that r(2,4) skip_whitespace_range(4) [of b2] by auto
      show ?thesis
      proof (cases "r \<and> (require \<longrightarrow> buffer_next_is ?b3 NUL)")
        case True
        then have "cJSON_ParseWithLengthOpts D N value require h = Some (Some a, Some (pb_offset ?b3), h2)"
          using Some ne fresh(1) r(1) by (auto simp: def simp del: parse_value.simps)
        then show ?thesis using good o3 True Some by (auto split: if_splits)
      next
        case False
        then have "\<exists>e. cJSON_ParseWithLengthOpts D N value require h = Some (None, Some e, h3) \<and> e \<le> length s"
          using Some ne fresh(1) r(1) d(1) by (auto simp: def simp del: parse_value.simps)
        then show ?thesis using d(2) Some by auto
      qed
    qed
  qed
qed

end
