(* ===== verification/CJsonPrint.thy ===== *)
theory CJsonPrint
  imports CJsonString
begin

unbundle bit_operations_syntax

text \<open>
  The printer of the vendored \<^verbatim>\<open>src/vendor/cjson/cJSON.c\<close>. The output is a block of memory that grows; fresh
  memory has the content \<open>junk\<close>. Writing outside the block, or looking for a terminator that is not there,
  gives \<open>None\<close>. The functions return whether they succeed, the output and the heap. Those that
  call \<^verbatim>\<open>print_value\<close> take it as an argument; \<open>print_value\<close> itself has the depth of the recursion as its fuel, since
  nothing bounds the depth of the items it is given.
\<close>

section \<open>The output\<close>

record printbuffer =
  pr_buffer :: "string option"
  pr_length :: nat
  pr_offset :: nat
  pr_depth :: nat
  pr_noalloc :: bool
  pr_format :: bool

definition INT_MAX :: nat where
  "INT_MAX = 2 ^ 31 - 1"

text \<open>\<open>realloc\<close> keeps what there is, as far as it fits.\<close>

definition resized :: "(nat \<Rightarrow> char) \<Rightarrow> nat \<Rightarrow> string \<Rightarrow> string" where
  "resized junk n b = take n b @ map junk [length b..<n]"

definition ensure :: "(nat \<Rightarrow> char) \<Rightarrow> nat \<Rightarrow> printbuffer \<Rightarrow> 'c heap \<Rightarrow> bool \<times> printbuffer \<times> 'c heap" where
  "ensure junk needed p h = (case pr_buffer p of
     None \<Rightarrow> (False, p, h)
   | Some b \<Rightarrow>
       if pr_length p > 0 \<and> pr_offset p \<ge> pr_length p then (False, p, h)
       else if needed > INT_MAX then (False, p, h)
       else
         let needed1 = needed + (pr_offset p + 1) in
         if needed1 \<le> pr_length p then (True, p, h)
         else if pr_noalloc p then (False, p, h)
         else if needed1 > INT_MAX div 2 \<and> needed1 > INT_MAX then (False, p, h)
         else
           let newsize = (if needed1 > INT_MAX div 2 then INT_MAX else needed1 * 2); (allocated, h1) = h_malloc h in
           if \<not> allocated then (False, p\<lparr>pr_length := 0, pr_buffer := None\<rparr>, h1)
           else (True, p\<lparr>pr_length := newsize, pr_buffer := Some (resized junk newsize b)\<rparr>, h1))"

definition pr_put :: "nat \<Rightarrow> string \<Rightarrow> printbuffer \<Rightarrow> printbuffer option" where
  "pr_put i cs p = (case pr_buffer p of
     None \<Rightarrow> None
   | Some b \<Rightarrow> if i + length cs \<le> length b then Some (p\<lparr>pr_buffer := Some (take i b @ cs @ drop (i + length cs) b)\<rparr>) else None)"

definition pr_move :: "nat \<Rightarrow> printbuffer \<Rightarrow> printbuffer" where
  "pr_move n p = p\<lparr>pr_offset := pr_offset p + n\<rparr>"

definition update_offset :: "printbuffer \<Rightarrow> printbuffer option" where
  "update_offset p = (case pr_buffer p of
     None \<Rightarrow> Some p
   | Some b \<Rightarrow> if NUL \<in> set (drop (pr_offset p) b) then Some (pr_move (length (c_str (drop (pr_offset p) b))) p) else None)"

type_synonym 'd print_result = "(bool \<times> printbuffer \<times> 'd cjson heap) option"

text \<open>Room is made for some characters, which are written at the offset; the offset moves on by \<open>n\<close>.\<close>

definition print_chars :: "(nat \<Rightarrow> char) \<Rightarrow> nat \<Rightarrow> string \<Rightarrow> nat \<Rightarrow> printbuffer \<Rightarrow> 'd cjson heap \<Rightarrow> 'd print_result" where
  "print_chars junk needed cs n p h =
     (let (ok, p1, h1) = ensure junk needed p h in
      if \<not> ok then Some (False, p1, h1)
      else do { p2 \<leftarrow> pr_put (pr_offset p1) cs p1; Some (True, pr_move n p2, h1) })"

text \<open>\<open>if (!first) return false;\<close> and what follows.\<close>

definition and_then :: "'d print_result \<Rightarrow> (printbuffer \<Rightarrow> 'd cjson heap \<Rightarrow> 'd print_result) \<Rightarrow> 'd print_result" where
  "and_then r f = do { (ok, p, h) \<leftarrow> r; (if \<not> ok then Some (False, p, h) else f p h) }"

definition and_update_offset :: "'d print_result \<Rightarrow> 'd print_result" where
  "and_update_offset r = and_then r (\<lambda>p h. do { p1 \<leftarrow> update_offset p; Some (True, p1, h) })"

section \<open>Numbers and strings\<close>

text \<open>Equality up to a relative error.\<close>

definition compare_double :: "'d num_io \<Rightarrow> 'd \<Rightarrow> 'd \<Rightarrow> bool" where
  "compare_double N a b =
     (let maxVal = (if ni_gt N (ni_fabs N a) (ni_fabs N b) then ni_fabs N a else ni_fabs N b)
      in ni_le N (ni_fabs N (ni_sub N a b)) (ni_mul N maxVal (ni_epsilon N)))"

text \<open>The text of a number; \<^verbatim>\<open>sprintf\<close> writes it into a buffer of 26 characters.\<close>

definition number_text :: "'d num_io \<Rightarrow> 'd \<Rightarrow> int \<Rightarrow> string" where
  "number_text N d valueint =
     (if ni_special N d then ''null''
      else if ni_eq_int N d valueint then c_dec valueint
      else
        let t = ni_fmt15 N d in
        (case ni_scan N t of None \<Rightarrow> ni_fmt17 N d | Some test \<Rightarrow> if \<not> compare_double N test d then ni_fmt17 N d else t))"

definition print_number :: "(nat \<Rightarrow> char) \<Rightarrow> 'd num_io \<Rightarrow> 'd cjson \<Rightarrow> printbuffer \<Rightarrow> 'd cjson heap \<Rightarrow> 'd print_result" where
  "print_number junk N item p h =
     (let t = number_text N (cj_valuedouble item) (cj_valueint item) in
      if length t > 25 then None else print_chars junk (length t + 1) (t @ [NUL]) (length t) p h)"

definition short_escape :: "char \<Rightarrow> char option" where
  "short_escape c =
     (if c = CHR 0x5C then Some (CHR 0x5C)
      else if c = CHR 0x22 then Some (CHR 0x22)
      else if c = CHR 0x08 then Some (CHR ''b'')
      else if c = CHR 0x0C then Some (CHR ''f'')
      else if c = CHR 0x0A then Some (CHR ''n'')
      else if c = CHR 0x0D then Some (CHR ''r'')
      else if c = CHR 0x09 then Some (CHR ''t'')
      else None)"

text \<open>The additional characters that a character needs.\<close>

definition escape_characters :: "char \<Rightarrow> nat" where
  "escape_characters c = (if short_escape c \<noteq> None then 1 else if (of_char c :: nat) < 32 then 5 else 0)"

text \<open>What is written for a character, and how far the pointer moves; \<^verbatim>\<open>"u%04x"\<close> is written with its terminator.\<close>

definition escape_write :: "char \<Rightarrow> string \<times> nat" where
  "escape_write c =
     (if (of_char c :: nat) > 31 \<and> c \<noteq> CHR 0x22 \<and> c \<noteq> CHR 0x5C then ([c], 1)
      else (case short_escape c of
         Some d \<Rightarrow> ([CHR 0x5C, d], 2)
       | None \<Rightarrow> ([CHR 0x5C, CHR ''u''] @ hex4 (\<lambda>_. False) (of_char c) @ [NUL], 6)))"

primrec escape_loop :: "string \<Rightarrow> nat \<Rightarrow> printbuffer \<Rightarrow> printbuffer option" where
  "escape_loop [] i p = Some p"
| "escape_loop (c # cs) i p = do { p1 \<leftarrow> pr_put i (fst (escape_write c)) p; escape_loop cs (i + snd (escape_write c)) p1 }"

definition print_string_ptr :: "(nat \<Rightarrow> char) \<Rightarrow> string option \<Rightarrow> printbuffer \<Rightarrow> 'd cjson heap \<Rightarrow> 'd print_result" where
  "print_string_ptr junk input p h = (case input of
     None \<Rightarrow> print_chars junk 3 [CHR 0x22, CHR 0x22, NUL] 0 p h
   | Some s \<Rightarrow>
       let escapes = sum_list (map escape_characters s);
           output_length = length s + escapes;
           (ok, p1, h1) = ensure junk (output_length + 3) p h in
       if \<not> ok then Some (False, p1, h1)
       else if escapes = 0 then do {
         p2 \<leftarrow> pr_put (pr_offset p1) ([CHR 0x22] @ s @ [CHR 0x22, NUL]) p1;
         Some (True, p2, h1)
       }
       else do {
         p2 \<leftarrow> pr_put (pr_offset p1) [CHR 0x22] p1;
         p3 \<leftarrow> escape_loop s (pr_offset p1 + 1) p2;
         p4 \<leftarrow> pr_put (pr_offset p1 + output_length + 1) [CHR 0x22, NUL] p3;
         Some (True, p4, h1)
       })"

section \<open>Arrays and objects\<close>

type_synonym 'd printer = "addr \<Rightarrow> printbuffer \<Rightarrow> 'd cjson heap \<Rightarrow> 'd print_result"

text \<open>The loop over the items of a list, with one round as an argument.\<close>

partial_function (option) print_rounds :: "'d printer \<Rightarrow> ptr \<Rightarrow> printbuffer \<Rightarrow> 'd cjson heap \<Rightarrow> 'd print_result" where
  "print_rounds round current p h = (case current of
     None \<Rightarrow> Some (True, p, h)
   | Some a \<Rightarrow> do {
       (ok, p1, h1) \<leftarrow> round a p h;
       (if \<not> ok then Some (False, p1, h1)
        else do { c \<leftarrow> hp_mem h1 a; print_rounds round (cj_next c) p1 h1 })
     })"

definition print_element :: "(nat \<Rightarrow> char) \<Rightarrow> 'd printer \<Rightarrow> 'd printer" where
  "print_element junk pv a p h =
     and_then (and_update_offset (pv a p h)) (\<lambda>p1 h1. do {
       c \<leftarrow> hp_mem h1 a;
       (if cj_next c = None then Some (True, p1, h1)
        else
          let n = (if pr_format p1 then 2 else 1) in
          print_chars junk (n + 1) (CHR '','' # (if pr_format p1 then '' '' else []) @ [NUL]) n p1 h1)
     })"

definition print_array :: "(nat \<Rightarrow> char) \<Rightarrow> 'd printer \<Rightarrow> 'd cjson \<Rightarrow> printbuffer \<Rightarrow> 'd cjson heap \<Rightarrow> 'd print_result" where
  "print_array junk pv item p h =
     and_then (print_chars junk 1 ''['' 1 p h) (\<lambda>p1 h1.
       and_then (print_rounds (print_element junk pv) (cj_child item) (p1\<lparr>pr_depth := pr_depth p1 + 1\<rparr>) h1) (\<lambda>p2 h2.
         and_then (print_chars junk 2 [CHR '']'', NUL] 0 p2 h2) (\<lambda>p3 h3.
           Some (True, p3\<lparr>pr_depth := pr_depth p3 - 1\<rparr>, h3))))"

definition tabs :: "nat \<Rightarrow> string" where
  "tabs n = replicate n (CHR 0x09)"

definition print_member :: "(nat \<Rightarrow> char) \<Rightarrow> 'd printer \<Rightarrow> 'd printer" where
  "print_member junk pv a p h =
     and_then (if pr_format p then print_chars junk (pr_depth p) (tabs (pr_depth p)) (pr_depth p) p h else Some (True, p, h)) (\<lambda>p1 h1. do {
       c \<leftarrow> hp_mem h1 a;
       and_then (and_update_offset (print_string_ptr junk (cj_string c) p1 h1)) (\<lambda>p2 h2.
         let n = (if pr_format p2 then 2 else 1) in
         and_then (print_chars junk n (CHR '':'' # (if pr_format p2 then tabs 1 else [])) n p2 h2) (\<lambda>p3 h3.
           and_then (and_update_offset (pv a p3 h3)) (\<lambda>p4 h4. do {
             c4 \<leftarrow> hp_mem h4 a;
             let n4 = (if pr_format p4 then 1 else 0) + (if cj_next c4 \<noteq> None then 1 else 0);
             print_chars junk (n4 + 1)
               ((if cj_next c4 \<noteq> None then '','' else []) @ (if pr_format p4 then [CHR 0x0A] else []) @ [NUL]) n4 p4 h4
           })))
     })"

definition print_object :: "(nat \<Rightarrow> char) \<Rightarrow> 'd printer \<Rightarrow> 'd cjson \<Rightarrow> printbuffer \<Rightarrow> 'd cjson heap \<Rightarrow> 'd print_result" where
  "print_object junk pv item p h =
     (let n = (if pr_format p then 2 else 1) in
      and_then (print_chars junk (n + 1) (CHR ''{'' # (if pr_format p then [CHR 0x0A] else [])) n p h) (\<lambda>p1 h1.
        and_then (print_rounds (print_member junk pv) (cj_child item) (p1\<lparr>pr_depth := pr_depth p1 + 1\<rparr>) h1) (\<lambda>p2 h2.
          and_then (print_chars junk (if pr_format p2 then pr_depth p2 + 1 else 2)
              ((if pr_format p2 then tabs (pr_depth p2 - 1) else []) @ [CHR ''}'', NUL]) 0 p2 h2) (\<lambda>p3 h3.
            Some (True, p3\<lparr>pr_depth := pr_depth p3 - 1\<rparr>, h3)))))"

section \<open>Values\<close>

definition cJSON_Raw :: "32 word" where "cJSON_Raw = push_bit 7 1"

primrec print_value :: "nat \<Rightarrow> (nat \<Rightarrow> char) \<Rightarrow> 'd num_io \<Rightarrow> 'd printer" where
  "print_value 0 junk N a p h = None"
| "print_value (Suc fuel) junk N a p h = do {
     c \<leftarrow> hp_mem h a;
     let t = cj_type c AND 0xFF;
     (if t = cJSON_NULL then print_chars junk 5 (''null'' @ [NUL]) 0 p h
      else if t = cJSON_False then print_chars junk 6 (''false'' @ [NUL]) 0 p h
      else if t = cJSON_True then print_chars junk 5 (''true'' @ [NUL]) 0 p h
      else if t = cJSON_Number then print_number junk N c p h
      else if t = cJSON_Raw then
        (case cj_valuestring c of None \<Rightarrow> Some (False, p, h) | Some s \<Rightarrow> print_chars junk (length s + 1) (s @ [NUL]) 0 p h)
      else if t = cJSON_String then print_string_ptr junk (cj_valuestring c) p h
      else if t = cJSON_Array then print_array junk (print_value fuel junk N) c p h
      else if t = cJSON_Object then print_object junk (print_value fuel junk N) c p h
      else Some (False, p, h))
   }"

text \<open>The text, unless printing failed, in which case the buffer has been freed.\<close>

definition cJSON_print ::
  "nat \<Rightarrow> (nat \<Rightarrow> char) \<Rightarrow> 'd num_io \<Rightarrow> ptr \<Rightarrow> bool \<Rightarrow> 'd cjson heap \<Rightarrow> (string option \<times> 'd cjson heap) option" where
  "cJSON_print fuel junk N item format h =
     (let (allocated, h1) = h_malloc h in
      if \<not> allocated then Some (None, h1)
      else (case item of
          None \<Rightarrow> Some (None, h1)
        | Some a \<Rightarrow> do {
            (ok, p, h2) \<leftarrow> and_update_offset (print_value fuel junk N a
              \<lparr>pr_buffer = Some (map junk [0..<256]), pr_length = 256, pr_offset = 0, pr_depth = 0, pr_noalloc = False, pr_format = format\<rparr> h1);
            (if \<not> ok then Some (None, h2)
             else
               let (shrunk, h3) = h_malloc h2 in
               if \<not> shrunk then Some (None, h3)
               else do { b \<leftarrow> pr_buffer p; Some (Some (c_str (resized junk (pr_offset p + 1) b)), h3) })
          }))"

definition cJSON_PrintUnformatted ::
  "nat \<Rightarrow> (nat \<Rightarrow> char) \<Rightarrow> 'd num_io \<Rightarrow> ptr \<Rightarrow> 'd cjson heap \<Rightarrow> (string option \<times> 'd cjson heap) option" where
  "cJSON_PrintUnformatted fuel junk N item h = cJSON_print fuel junk N item False h"

end
