(* ===== verification/CJsonText.thy ===== *)
theory CJsonText
  imports CJsonPrint CJsonTree
begin

unbundle bit_operations_syntax

text \<open>
  The text of a JSON value, and the printer: it writes that text, inside its buffer, for any tree of a value and
  any allocator, or reports failure.
\<close>

section \<open>The text of a value\<close>

definition escaped :: "char \<Rightarrow> string" where
  "escaped c = take (snd (escape_write c)) (fst (escape_write c))"

definition string_text :: "string \<Rightarrow> string" where
  "string_text s = CHR 0x22 # concat (map escaped s) @ [CHR 0x22]"

fun commas :: "string list \<Rightarrow> string" where
  "commas [] = []"
| "commas [t] = t"
| "commas (t # ts) = t @ '','' @ commas ts"

fun json_text :: "'d dbl_ops \<Rightarrow> 'd num_io \<Rightarrow> 'd json \<Rightarrow> string" where
  "json_text D N JsNull = ''null''"
| "json_text D N (JsBool b) = (if b then ''true'' else ''false'')"
| "json_text D N (JsNumber d) = number_text N d (dbl_saturate D d)"
| "json_text D N (JsString s) = string_text s"
| "json_text D N (JsArray vs) = ''['' @ commas (map (json_text D N) vs) @ '']''"
| "json_text D N (JsObject kvs) = ''{'' @ commas (map (\<lambda>(k, v). string_text k @ '':'' @ json_text D N v) kvs) @ ''}''"

fun nesting :: "'d json \<Rightarrow> nat" where
  "nesting (JsArray vs) = Suc (Max (insert 0 (set (map nesting vs))))"
| "nesting (JsObject kvs) = Suc (Max (insert 0 (set (map (\<lambda>(k, v). nesting v) kvs))))"
| "nesting v = 0"

text \<open>C strings, and numbers whose text is one and fits the buffer of the printer.\<close>

fun printable :: "'d dbl_ops \<Rightarrow> 'd num_io \<Rightarrow> 'd json \<Rightarrow> bool" where
  "printable D N (JsNumber d) \<longleftrightarrow> length (number_text N d (dbl_saturate D d)) \<le> 25 \<and> nonul (number_text N d (dbl_saturate D d))"
| "printable D N (JsString s) \<longleftrightarrow> nonul s"
| "printable D N (JsArray vs) \<longleftrightarrow> (\<forall>v \<in> set vs. printable D N v)"
| "printable D N (JsObject kvs) \<longleftrightarrow> (\<forall>(k, v) \<in> set kvs. nonul k \<and> printable D N v)"
| "printable D N v \<longleftrightarrow> True"

section \<open>The buffer\<close>

text \<open>The output is \<open>s\<close> so far; or \<open>s\<close> and then \<open>t\<close> with a terminator, where the offset may not have moved to the end of \<open>t\<close> yet.\<close>

definition pr_ok :: "printbuffer \<Rightarrow> bool" where
  "pr_ok p \<longleftrightarrow> \<not> pr_noalloc p \<and> \<not> pr_format p \<and> (\<exists>b. pr_buffer p = Some b \<and> length b = pr_length p)"

definition pr_holds :: "printbuffer \<Rightarrow> string \<Rightarrow> bool" where
  "pr_holds p s \<longleftrightarrow> pr_ok p \<and> pr_offset p = length s \<and> length s < pr_length p \<and> take (length s) (the (pr_buffer p)) = s"

definition pr_shows :: "printbuffer \<Rightarrow> string \<Rightarrow> string \<Rightarrow> bool" where
  "pr_shows p s t \<longleftrightarrow> pr_ok p \<and> length s \<le> pr_offset p \<and> pr_offset p \<le> length (s @ t) \<and> length (s @ t) < pr_length p \<and>
     take (length (s @ t) + 1) (the (pr_buffer p)) = s @ t @ [NUL]"

text \<open>
  The outcome of printing from the heap \<open>h\<close>: the items are as before, and if it succeeds, which it does when
  memory lasts and the text of \<open>n\<close> characters fits, the output satisfies \<open>Q\<close>.
\<close>

definition printed :: "'d cjson heap \<Rightarrow> nat \<Rightarrow> (printbuffer \<Rightarrow> bool) \<Rightarrow> 'd print_result \<Rightarrow> bool" where
  "printed h n Q r \<longleftrightarrow> (case r of
     None \<Rightarrow> False
   | Some (ok, p', h') \<Rightarrow> hp_mem h' = hp_mem h \<and> hp_oom h' = hp_oom h \<and> hp_brk h \<le> hp_brk h' \<and>
       (ok \<longrightarrow> Q p') \<and> (hp_oom h = (\<lambda>_. False) \<and> n + 2 \<le> INT_MAX \<longrightarrow> ok))"

lemma printed_and_then:
  assumes "printed h n Q r" and "\<And>p1 h1. Q p1 \<Longrightarrow> hp_mem h1 = hp_mem h \<Longrightarrow> hp_oom h1 = hp_oom h \<Longrightarrow> hp_brk h \<le> hp_brk h1 \<Longrightarrow> printed h1 m R (f p1 h1)" and "n \<le> m"
  shows "printed h m R (and_then r f)"
proof -
  obtain ok p1 h1 where r: "r = Some (ok, p1, h1)" "hp_mem h1 = hp_mem h" "hp_oom h1 = hp_oom h" "hp_brk h \<le> hp_brk h1" "ok \<longrightarrow> Q p1"
    "hp_oom h = (\<lambda>_. False) \<and> n + 2 \<le> INT_MAX \<longrightarrow> ok" using assms(1) unfolding printed_def by (auto split: option.splits)
  show ?thesis
  proof (cases ok)
    case True
    then have "printed h1 m R (f p1 h1)" using assms(2) r by simp
    then show ?thesis using r True unfolding printed_def and_then_def by (auto split: option.splits)
  next
    case False
    then show ?thesis using r assms(3) unfolding printed_def and_then_def by auto
  qed
qed

lemma printed_return: "Q p \<Longrightarrow> printed h n Q (Some (True, p, h))"
  by (simp add: printed_def)

lemma printed_weaken: "printed h n Q r \<Longrightarrow> (\<And>p. Q p \<Longrightarrow> R p) \<Longrightarrow> n \<le> m \<Longrightarrow> printed h m R r"
  unfolding printed_def by (auto split: option.splits)

lemma printed_heap: "printed h1 n Q r \<Longrightarrow> hp_mem h1 = hp_mem h \<Longrightarrow> hp_oom h1 = hp_oom h \<Longrightarrow> hp_brk h \<le> hp_brk h1 \<Longrightarrow> printed h n Q r"
  unfolding printed_def by (auto split: option.splits)

lemma INT_MAX_less: "INT_MAX div 2 < INT_MAX" "256 < INT_MAX"
  by (simp_all add: INT_MAX_def)

text \<open>Room for \<open>n\<close> characters and one more.\<close>

lemma ensure_room:
  assumes p: "pr_holds p s"
  obtains ok p1 h1 where "ensure junk n p h = (ok, p1, h1)" "hp_mem h1 = hp_mem h" "hp_oom h1 = hp_oom h" "hp_brk h \<le> hp_brk h1"
    "ok \<longrightarrow> pr_holds p1 s \<and> length s + n < pr_length p1" "hp_oom h = (\<lambda>_. False) \<and> length s + n + 1 \<le> INT_MAX \<longrightarrow> ok"
proof -
  obtain b where b: "pr_buffer p = Some b" "length b = pr_length p" "\<not> pr_noalloc p" "\<not> pr_format p" "pr_offset p = length s"
    "length s < pr_length p" "take (length s) b = s" using p by (auto simp: pr_holds_def pr_ok_def)
  let ?big = "n > INT_MAX \<or> (\<not> n + (length s + 1) \<le> pr_length p \<and> n + (length s + 1) > INT_MAX)"
  consider (big) "?big" | (fits) "\<not> ?big" "n + (length s + 1) \<le> pr_length p"
    | (oom) "\<not> ?big" "\<not> n + (length s + 1) \<le> pr_length p" "hp_oom h (hp_brk h)"
    | (grow) "\<not> ?big" "\<not> n + (length s + 1) \<le> pr_length p" "\<not> hp_oom h (hp_brk h)" by blast
  then show thesis
  proof cases
    case big
    then have "ensure junk n p h = (False, p, h)" using b INT_MAX_less by (auto simp: ensure_def Let_def)
    then show thesis by (rule that) (use big in auto)
  next
    case fits
    then have "ensure junk n p h = (True, p, h)" using b by (auto simp: ensure_def Let_def)
    then show thesis by (rule that) (use p fits in auto)
  next
    case oom
    then have "ensure junk n p h = (False, p\<lparr>pr_length := 0, pr_buffer := None\<rparr>, h\<lparr>hp_brk := Suc (hp_brk h)\<rparr>)"
      using b by (auto simp: ensure_def h_malloc_def Let_def)
    then show thesis by (rule that) (use oom in auto)
  next
    case grow
    define newsize where "newsize = (if n + (length s + 1) > INT_MAX div 2 then INT_MAX else (n + (length s + 1)) * 2)"
    have e: "ensure junk n p h = (True, p\<lparr>pr_length := newsize, pr_buffer := Some (resized junk newsize b)\<rparr>, h\<lparr>hp_brk := Suc (hp_brk h)\<rparr>)"
      using grow b by (auto simp: ensure_def h_malloc_def Let_def newsize_def)
    have ns: "n + (length s + 1) \<le> newsize" using grow(1,2) by (auto simp: newsize_def)
    moreover have "length b \<le> newsize" using grow(1,2) b(2) by (auto simp: newsize_def)
    then have "length (resized junk newsize b) = newsize" "take (length s) (resized junk newsize b) = s"
      using b(2,6,7) by (simp_all add: resized_def)
    ultimately have "pr_holds (p\<lparr>pr_length := newsize, pr_buffer := Some (resized junk newsize b)\<rparr>) s"
      using b by (simp add: pr_holds_def pr_ok_def)
    then show thesis by (intro that [OF e]) (use ns in auto)
  qed
qed

lemma put_at:
  assumes "pr_holds p s" and "length s + length (t @ cs) \<le> pr_length p" and "take (length (s @ t)) (the (pr_buffer p)) = s @ t"
  shows "\<exists>p'. pr_put (length (s @ t)) cs p = Some p' \<and> pr_holds p' s \<and> pr_length p' = pr_length p \<and> take (length (s @ t @ cs)) (the (pr_buffer p')) = s @ t @ cs"
proof -
  obtain b where b: "pr_buffer p = Some b" "length b = pr_length p" using assms(1) by (auto simp: pr_holds_def pr_ok_def)
  let ?b = "take (length (s @ t)) b @ cs @ drop (length (s @ t) + length cs) b"
  have t: "take (length (s @ t)) b = s @ t" using assms(3) b(1) by simp
  have "pr_put (length (s @ t)) cs p = Some (p\<lparr>pr_buffer := Some ?b\<rparr>)" using assms(2) b by (simp add: pr_put_def)
  moreover have "length ?b = pr_length p" using assms(2) b(2) by simp
  moreover have "take (length (s @ t @ cs)) ?b = s @ t @ cs" unfolding t by simp
  moreover have "take (length s) ?b = s" unfolding t by simp
  ultimately show ?thesis using assms(1) b unfolding pr_holds_def pr_ok_def by auto
qed

lemma holds_take: "pr_holds p s \<Longrightarrow> take (length (s @ [])) (the (pr_buffer p)) = s @ []"
  by (simp add: pr_holds_def)

text \<open>Characters that stay, and a text with its terminator.\<close>

lemma print_chars_moves:
  assumes "pr_holds p s" and "length (t @ x) \<le> n" and "m = length t" and "0 < n"
  shows "printed h (length s + n - 1) (\<lambda>p'. pr_holds p' (s @ t)) (print_chars junk n (t @ x) m p h)"
proof -
  obtain ok p1 h1 where e: "ensure junk n p h = (ok, p1, h1)" "hp_mem h1 = hp_mem h" "hp_oom h1 = hp_oom h" "hp_brk h \<le> hp_brk h1"
    "ok \<longrightarrow> pr_holds p1 s \<and> length s + n < pr_length p1" "hp_oom h = (\<lambda>_. False) \<and> length s + n + 1 \<le> INT_MAX \<longrightarrow> ok"
    by (rule ensure_room [OF assms(1), where junk = junk and n = n and h = h])
  show ?thesis
  proof (cases ok)
    case True
    then have p1: "pr_holds p1 s" "length s + n < pr_length p1" using e(5) by simp_all
    obtain p2 where p2: "pr_put (length (s @ [])) (t @ x) p1 = Some p2" "pr_holds p2 s" "pr_length p2 = pr_length p1" "take (length (s @ [] @ t @ x)) (the (pr_buffer p2)) = s @ [] @ t @ x"
      using put_at [OF p1(1) _ holds_take [OF p1(1)], of "t @ x"] p1(2) assms(2) by auto
    have "take (length (s @ t)) (take (length (s @ [] @ t @ x)) (the (pr_buffer p2))) = s @ t" unfolding p2(4) by simp
    then have "take (length (s @ t)) (the (pr_buffer p2)) = s @ t" by (simp add: take_take min_def split: if_splits)
    then have "pr_holds (pr_move m p2) (s @ t)" using p2 p1(2) assms(2,3) by (auto simp: pr_holds_def pr_ok_def pr_move_def)
    moreover have "pr_offset p1 = length s" using p1(1) by (simp add: pr_holds_def)
    ultimately show ?thesis using e True p2(1) unfolding printed_def print_chars_def by auto
  next
    case False
    then show ?thesis using e assms(4) unfolding printed_def print_chars_def by auto
  qed
qed

lemma print_chars_shows:
  assumes "pr_holds p s" and "n = length t + 1" and "m = 0 \<or> m = length t"
  shows "printed h (length s + length t) (\<lambda>p'. pr_shows p' s t) (print_chars junk n (t @ [NUL]) m p h)"
proof -
  obtain ok p1 h1 where e: "ensure junk n p h = (ok, p1, h1)" "hp_mem h1 = hp_mem h" "hp_oom h1 = hp_oom h" "hp_brk h \<le> hp_brk h1"
    "ok \<longrightarrow> pr_holds p1 s \<and> length s + n < pr_length p1" "hp_oom h = (\<lambda>_. False) \<and> length s + n + 1 \<le> INT_MAX \<longrightarrow> ok"
    by (rule ensure_room [OF assms(1), where junk = junk and n = n and h = h])
  show ?thesis
  proof (cases ok)
    case True
    then have p1: "pr_holds p1 s" "length s + n < pr_length p1" using e(5) by simp_all
    obtain p2 where p2: "pr_put (length (s @ [])) (t @ [NUL]) p1 = Some p2" "pr_holds p2 s" "pr_length p2 = pr_length p1"
      "take (length (s @ [] @ t @ [NUL])) (the (pr_buffer p2)) = s @ [] @ t @ [NUL]"
      using put_at [OF p1(1) _ holds_take [OF p1(1)], of "t @ [NUL]"] p1(2) assms(2) by auto
    have "pr_shows (pr_move m p2) s t" using p2 p1(2) assms(2,3) by (auto simp: pr_holds_def pr_shows_def pr_ok_def pr_move_def)
    moreover have "pr_offset p1 = length s" using p1(1) by (simp add: pr_holds_def)
    ultimately show ?thesis using e True p2(1) unfolding printed_def print_chars_def by auto
  next
    case False
    then show ?thesis using e assms(2) unfolding printed_def print_chars_def by auto
  qed
qed

lemma update_offset_shows:
  assumes "pr_shows p s t" and "nonul t"
  shows "\<exists>p'. update_offset p = Some p' \<and> pr_holds p' (s @ t) \<and> take (length (s @ t) + 1) (the (pr_buffer p')) = s @ t @ [NUL]"
proof -
  obtain b where b: "pr_buffer p = Some b" "length b = pr_length p" using assms(1) by (auto simp: pr_shows_def pr_ok_def)
  define rest where "rest = drop (length (s @ t) + 1) b"
  have bs: "b = s @ t @ NUL # rest"
    using assms(1) b append_take_drop_id [of "length (s @ t) + 1" b] by (simp add: pr_shows_def rest_def)
  have o: "length s \<le> pr_offset p" "pr_offset p \<le> length (s @ t)" "length (s @ t) < pr_length p" using assms(1) by (simp_all add: pr_shows_def)
  define u where "u = drop (pr_offset p - length s) t"
  have d: "drop (pr_offset p) b = u @ NUL # rest" using o unfolding bs u_def by simp
  have "NUL \<notin> set u" using assms(2) unfolding u_def nonul_def by (auto dest: in_set_dropD)
  then have c: "c_str (u @ NUL # rest) = u" unfolding c_str_def by (subst takeWhile_append2) auto
  have up: "update_offset p = Some (pr_move (length u) p)" unfolding update_offset_def b(1) option.case d by (simp add: c)
  have lu: "pr_offset p + length u = length (s @ t)" using o by (simp add: u_def)
  have "pr_holds (pr_move (length u) p) (s @ t)"
    using assms(1) b lu o(3) bs by (auto simp: pr_holds_def pr_shows_def pr_ok_def pr_move_def)
  moreover have "take (length (s @ t) + 1) (the (pr_buffer (pr_move (length u) p))) = s @ t @ [NUL]"
    using assms(1) by (simp add: pr_shows_def pr_move_def)
  ultimately show ?thesis using up by blast
qed

lemma printed_update:
  assumes "printed h n (\<lambda>p. pr_shows p s t) r" and "nonul t"
  shows "printed h n (\<lambda>p. pr_holds p (s @ t)) (and_update_offset r)"
  unfolding and_update_offset_def
proof (rule printed_and_then [OF assms(1) _ le_refl])
  fix p1 and h1 :: "'a cjson heap" assume "pr_shows p1 s t"
  from update_offset_shows [OF this assms(2)] obtain p2 where "update_offset p1 = Some p2" "pr_holds p2 (s @ t)" by blast
  then show "printed h1 n (\<lambda>p. pr_holds p (s @ t)) (do { p1 \<leftarrow> update_offset p1; Some (True, p1, h1) })" by (simp add: printed_return)
qed

section \<open>Strings\<close>

lemma short_escape_control: "(of_char c :: nat) > 31 \<Longrightarrow> c \<noteq> CHR 0x22 \<Longrightarrow> c \<noteq> CHR 0x5C \<Longrightarrow> short_escape c = None"
  by (auto simp: short_escape_def)

lemma escape_write_escaped:
  "\<exists>x. fst (escape_write c) = escaped c @ x \<and> length x \<le> 1" "snd (escape_write c) = length (escaped c)"
  "length (escaped c) = 1 + escape_characters c" "escape_characters c = 0 \<Longrightarrow> escaped c = [c]"
proof -
  consider (plain) "(of_char c :: nat) > 31" "c \<noteq> CHR 0x22" "c \<noteq> CHR 0x5C"
    | (short) d where "\<not> ((of_char c :: nat) > 31 \<and> c \<noteq> CHR 0x22 \<and> c \<noteq> CHR 0x5C)" "short_escape c = Some d"
    | (long) "\<not> ((of_char c :: nat) > 31 \<and> c \<noteq> CHR 0x22 \<and> c \<noteq> CHR 0x5C)" "short_escape c = None" by fastforce
  then have "(\<exists>x. fst (escape_write c) = escaped c @ x \<and> length x \<le> 1) \<and> snd (escape_write c) = length (escaped c) \<and>
    length (escaped c) = 1 + escape_characters c \<and> (escape_characters c = 0 \<longrightarrow> escaped c = [c])"
  proof cases
    case plain
    then show ?thesis using short_escape_control [OF plain] by (simp add: escape_write_def escaped_def escape_characters_def)
  next
    case short
    then show ?thesis by (simp add: escape_write_def escaped_def escape_characters_def)
  next
    case long
    then have "(of_char c :: nat) < 32" by (auto simp: short_escape_def)
    then show ?thesis using long by (simp add: escape_write_def escaped_def escape_characters_def hex4_def)
  qed
  then show "\<exists>x. fst (escape_write c) = escaped c @ x \<and> length x \<le> 1" "snd (escape_write c) = length (escaped c)"
    "length (escaped c) = 1 + escape_characters c" "escape_characters c = 0 \<Longrightarrow> escaped c = [c]" by simp_all
qed

lemma length_escaped: "length (concat (map escaped t)) = length t + sum_list (map escape_characters t)"
  by (induction t) (simp_all add: escape_write_escaped(3))

lemma escaped_plain: "sum_list (map escape_characters t) = 0 \<Longrightarrow> concat (map escaped t) = t"
  by (induction t) (simp_all add: escape_write_escaped(4))

lemma escape_loop_writes:
  assumes "pr_holds p s" and "take (length (s @ u)) (the (pr_buffer p)) = s @ u" and "length s + length (u @ concat (map escaped cs)) + 1 \<le> pr_length p"
  shows "\<exists>p'. escape_loop cs (length (s @ u)) p = Some p' \<and> pr_holds p' s \<and> pr_length p' = pr_length p \<and>
    take (length (s @ u @ concat (map escaped cs))) (the (pr_buffer p')) = s @ u @ concat (map escaped cs)"
  using assms
proof (induction cs arbitrary: u p)
  case (Cons c cs)
  obtain x where x: "fst (escape_write c) = escaped c @ x" "length x \<le> 1" using escape_write_escaped(1) by blast
  obtain p1 where p1: "pr_put (length (s @ u)) (escaped c @ x) p = Some p1" "pr_holds p1 s" "pr_length p1 = pr_length p"
    "take (length (s @ u @ escaped c @ x)) (the (pr_buffer p1)) = s @ u @ escaped c @ x"
    using put_at [OF Cons.prems(1) _ Cons.prems(2), of "escaped c @ x"] Cons.prems(3) x(2) by auto
  have "take (length (s @ u @ escaped c)) (take (length (s @ u @ escaped c @ x)) (the (pr_buffer p1))) = s @ u @ escaped c"
    unfolding p1(4) by simp
  then have t: "take (length (s @ (u @ escaped c))) (the (pr_buffer p1)) = s @ (u @ escaped c)" by (simp add: take_take min_def split: if_splits)
  have "length s + length ((u @ escaped c) @ concat (map escaped cs)) + 1 \<le> pr_length p1" using Cons.prems(3) p1(3) by simp
  from Cons.IH [OF p1(2) t this] show ?case using x(1) p1(1,3) escape_write_escaped(2) by (auto simp: add.assoc)
qed simp

lemma print_string_shows:
  assumes "pr_holds p s"
  shows "printed h (length s + length (string_text t)) (\<lambda>p'. pr_shows p' s (string_text t)) (print_string_ptr junk (Some t) p h)"
proof -
  define out where "out = length t + sum_list (map escape_characters t)"
  have lt: "length (string_text t) = out + 2" by (simp add: string_text_def length_escaped out_def)
  obtain ok p1 h1 where e: "ensure junk (out + 3) p h = (ok, p1, h1)" "hp_mem h1 = hp_mem h" "hp_oom h1 = hp_oom h" "hp_brk h \<le> hp_brk h1"
    "ok \<longrightarrow> pr_holds p1 s \<and> length s + (out + 3) < pr_length p1" "hp_oom h = (\<lambda>_. False) \<and> length s + (out + 3) + 1 \<le> INT_MAX \<longrightarrow> ok"
    by (rule ensure_room [OF assms, where junk = junk and n = "out + 3" and h = h])
  note def = print_string_ptr_def Let_def out_def [symmetric]
  show ?thesis
  proof (cases ok)
    case False
    then show ?thesis using e lt by (auto simp: def printed_def)
  next
    case True
    then have p1: "pr_holds p1 s" "length s + (out + 3) < pr_length p1" "pr_offset p1 = length s" using e(5) by (simp_all add: pr_holds_def)
    have "\<exists>p'. (if sum_list (map escape_characters t) = 0 then pr_put (pr_offset p1) ([CHR 0x22] @ t @ [CHR 0x22, NUL]) p1
        else do { p2 \<leftarrow> pr_put (pr_offset p1) [CHR 0x22] p1; p3 \<leftarrow> escape_loop t (pr_offset p1 + 1) p2; pr_put (pr_offset p1 + out + 1) [CHR 0x22, NUL] p3 }) = Some p' \<and>
      pr_holds p' s \<and> pr_length p' = pr_length p1 \<and> take (length (s @ string_text t @ [NUL])) (the (pr_buffer p')) = s @ string_text t @ [NUL]"
    proof (cases "sum_list (map escape_characters t) = 0")
      case True
      then have st: "string_text t @ [NUL] = [CHR 0x22] @ t @ [CHR 0x22, NUL]" by (simp add: string_text_def escaped_plain del: sum_list_eq_0_iff)
      have "length s + length ([] @ ([CHR 0x22] @ t @ [CHR 0x22, NUL])) \<le> pr_length p1" using p1(2) True by (simp add: out_def del: sum_list_eq_0_iff)
      from put_at [OF p1(1) this holds_take [OF p1(1)]] show ?thesis using True p1(3) unfolding st by (simp del: sum_list_eq_0_iff)
    next
      case False
      obtain p2 where p2: "pr_put (length (s @ [])) [CHR 0x22] p1 = Some p2" "pr_holds p2 s" "pr_length p2 = pr_length p1"
        "take (length (s @ [] @ [CHR 0x22])) (the (pr_buffer p2)) = s @ [] @ [CHR 0x22]"
        using put_at [OF p1(1) _ holds_take [OF p1(1)], of "[CHR 0x22]"] p1(2) by auto
      have l: "length s + length ([CHR 0x22] @ concat (map escaped t)) + 1 \<le> pr_length p2" using p1(2) p2(3) by (simp add: length_escaped out_def)
      obtain p3 where p3: "escape_loop t (length (s @ [CHR 0x22])) p2 = Some p3" "pr_holds p3 s" "pr_length p3 = pr_length p2"
        "take (length (s @ [CHR 0x22] @ concat (map escaped t))) (the (pr_buffer p3)) = s @ [CHR 0x22] @ concat (map escaped t)"
        using escape_loop_writes [OF p2(2) _ l] p2(4) by auto
      obtain p4 where p4: "pr_put (length (s @ [CHR 0x22] @ concat (map escaped t))) [CHR 0x22, NUL] p3 = Some p4" "pr_holds p4 s" "pr_length p4 = pr_length p3"
        "take (length (s @ ([CHR 0x22] @ concat (map escaped t)) @ [CHR 0x22, NUL])) (the (pr_buffer p4)) = s @ ([CHR 0x22] @ concat (map escaped t)) @ [CHR 0x22, NUL]"
        using put_at [OF p3(2) _ p3(4), of "[CHR 0x22, NUL]"] p1(2) p2(3) p3(3) by (auto simp: length_escaped out_def)
      show ?thesis using False p1(3) p2(1,3) p3(1,3) p4 by (simp add: length_escaped out_def string_text_def del: sum_list_eq_0_iff)
    qed
    then obtain p' where p': "(if sum_list (map escape_characters t) = 0 then pr_put (pr_offset p1) ([CHR 0x22] @ t @ [CHR 0x22, NUL]) p1
        else do { p2 \<leftarrow> pr_put (pr_offset p1) [CHR 0x22] p1; p3 \<leftarrow> escape_loop t (pr_offset p1 + 1) p2; pr_put (pr_offset p1 + out + 1) [CHR 0x22, NUL] p3 }) = Some p'"
      "pr_holds p' s" "pr_length p' = pr_length p1" "take (length (s @ string_text t @ [NUL])) (the (pr_buffer p')) = s @ string_text t @ [NUL]" by blast
    have "print_string_ptr junk (Some t) p h = Some (True, p', h1)"
      using e(1) True p'(1) by (auto simp: def simp del: sum_list_eq_0_iff split: if_splits option.splits bind_splits)
    moreover have "pr_shows p' s (string_text t)" using p'(2-4) p1(2) lt by (auto simp: pr_shows_def pr_holds_def)
    ultimately show ?thesis using e(2,3,4) by (simp add: printed_def)
  qed
qed

section \<open>Arrays, objects, values\<close>

text \<open>The loop: each round prints the text of its item, and a comma unless it is the last.\<close>

lemma print_rounds_prints:
  assumes "linked cur ts" and "cells_at m (flat ts)"
    and "list_all2 (\<lambda>t x. \<forall>h p s. hp_mem h = m \<longrightarrow> pr_holds p s \<longrightarrow>
        printed h (length s + length (x @ (if cj_next (node_cell t) = None then [] else '',''))) (\<lambda>p'. pr_holds p' (s @ x @ (if cj_next (node_cell t) = None then [] else '','')))
          (round (node_addr t) p h)) ts xs"
    and "hp_mem h = m" and "pr_holds p s"
  shows "printed h (length s + length (commas xs)) (\<lambda>p'. pr_holds p' (s @ commas xs)) (print_rounds round cur p h)"
  using assms
proof (induction ts arbitrary: cur xs h p s)
  case Nil
  then show ?case by (subst print_rounds.simps) (simp add: printed_return)
next
  case (Cons t ts)
  obtain a c ks where t: "t = JNode a c ks" by (cases t)
  obtain x ys where xs: "xs = x # ys" using Cons.prems(3) by (auto simp: list_all2_Cons1)
  let ?comma = "if cj_next c = None then [] else '',''"
  have l: "cur = Some a" "linked (cj_next c) ts" "m a = Some c" "cells_at m (flat ts)" using Cons.prems(1,2) t by simp_all
  have one: "printed h (length s + length (x @ ?comma)) (\<lambda>p'. pr_holds p' (s @ x @ ?comma)) (round a p h)"
    using Cons.prems(3,4,5) t xs by simp
  have cm: "commas xs = x @ ?comma @ commas ys"
  proof (cases ts)
    case Nil
    then show ?thesis using l(2) Cons.prems(3) xs by simp
  next
    case (Cons t' ts')
    then obtain z zs where "ys = z # zs" using Cons.prems(3) xs by (auto simp: list_all2_Cons1)
    moreover have "cj_next c \<noteq> None" using l(2) Cons by (cases t') simp
    ultimately show ?thesis using xs by simp
  qed
  have eq: "print_rounds round cur p h = and_then (round a p h) (\<lambda>p1 h1. do { c \<leftarrow> hp_mem h1 a; print_rounds round (cj_next c) p1 h1 })"
    using l(1) by (subst print_rounds.simps) (simp add: and_then_def)
  show ?case
    unfolding eq
  proof (rule printed_and_then [OF one])
    fix p1 and h1 :: "'a cjson heap" assume p1: "pr_holds p1 (s @ x @ ?comma)" and h1: "hp_mem h1 = hp_mem h"
    have "printed h1 (length (s @ x @ ?comma) + length (commas ys)) (\<lambda>p'. pr_holds p' ((s @ x @ ?comma) @ commas ys)) (print_rounds round (cj_next c) p1 h1)"
      by (rule Cons.IH [OF l(2,4) _ _ p1]) (use Cons.prems(3,4) xs h1 in simp_all)
    then show "printed h1 (length s + length (commas xs)) (\<lambda>p'. pr_holds p' (s @ commas xs)) (do { c \<leftarrow> hp_mem h1 a; print_rounds round (cj_next c) p1 h1 })"
      using h1 Cons.prems(4) l(3) cm by (cases "cj_next c") (simp_all add: add.assoc)
  qed (simp add: cm)
qed

text \<open>A printer that prints values nested less than \<open>n\<close> deep.\<close>

definition prints :: "'d dbl_ops \<Rightarrow> 'd num_io \<Rightarrow> nat \<Rightarrow> 'd printer \<Rightarrow> bool" where
  "prints D N n pv \<longleftrightarrow> (\<forall>v a c ks h p s. cells_at (hp_mem h) (flat [JNode a c ks]) \<longrightarrow> linked (cj_child c) ks \<longrightarrow> node_is D v (JNode a c ks) \<longrightarrow>
     printable D N v \<longrightarrow> nesting v < n \<longrightarrow> pr_holds p s \<longrightarrow>
     printed h (length s + length (json_text D N v)) (\<lambda>p'. pr_shows p' s (json_text D N v)) (pv a p h))"

lemma not_format: "pr_holds p s \<Longrightarrow> \<not> pr_format p"
  by (simp add: pr_holds_def pr_ok_def)

lemma print_element_prints:
  assumes pv: "prints D N n pv" and t: "linked (cj_child c) ks" "cells_at (hp_mem h) (flat [JNode a c ks])" "node_is D v (JNode a c ks)"
    and v: "printable D N v" "nesting v < n" "nonul (json_text D N v)" and p: "pr_holds p s"
  shows "printed h (length s + length (json_text D N v @ (if cj_next c = None then [] else '','')))
    (\<lambda>p'. pr_holds p' (s @ json_text D N v @ (if cj_next c = None then [] else '',''))) (print_element junk pv a p h)"
proof -
  have "printed h (length s + length (json_text D N v)) (\<lambda>p'. pr_shows p' s (json_text D N v)) (pv a p h)"
    using pv t v p unfolding prints_def by blast
  from printed_update [OF this v(3)] show ?thesis
    unfolding print_element_def
  proof (rule printed_and_then)
    fix p1 and h1 :: "'a cjson heap" assume p1: "pr_holds p1 (s @ json_text D N v)" and h1: "hp_mem h1 = hp_mem h"
    have c: "hp_mem h1 a = Some c" using h1 t(2) by simp
    show "printed h1 (length s + length (json_text D N v @ (if cj_next c = None then [] else '','')))
        (\<lambda>p'. pr_holds p' (s @ json_text D N v @ (if cj_next c = None then [] else '',''))) (do {
       c \<leftarrow> hp_mem h1 a;
       (if cj_next c = None then Some (True, p1, h1)
        else
          let n = (if pr_format p1 then 2 else 1) in
          print_chars junk (n + 1) (CHR '','' # (if pr_format p1 then '' '' else []) @ [NUL]) n p1 h1) })"
    proof (cases "cj_next c")
      case None
      then show ?thesis using c p1 by (simp add: printed_return)
    next
      case (Some b)
      from print_chars_moves [OF p1, of "'',''" "[NUL]" 2 1 h1 junk] show ?thesis using Some c not_format [OF p1] by (simp add: Let_def numeral_2_eq_2)
    qed
  qed simp
qed

lemma print_member_prints:
  assumes pv: "prints D N n pv" and t: "linked (cj_child c) ks" "cells_at (hp_mem h) (flat [JNode a c ks])" "node_is D v (JNode a c ks)"
    and v: "printable D N v" "nesting v < n" "nonul (json_text D N v)" and k: "cj_string c = Some k" "nonul (string_text k)" and p: "pr_holds p s"
  shows "printed h (length s + length ((string_text k @ '':'' @ json_text D N v) @ (if cj_next c = None then [] else '','')))
    (\<lambda>p'. pr_holds p' (s @ (string_text k @ '':'' @ json_text D N v) @ (if cj_next c = None then [] else '',''))) (print_member junk pv a p h)"
    (is "printed h ?m (\<lambda>p'. pr_holds p' ?out) _")
proof -
  have c: "hp_mem h a = Some c" using t(2) by simp
  have "printed h ?m (\<lambda>p'. pr_holds p' ?out)
    (and_then (and_update_offset (print_string_ptr junk (Some k) p h)) (\<lambda>p2 h2.
       let n = (if pr_format p2 then 2 else 1) in
       and_then (print_chars junk n (CHR '':'' # (if pr_format p2 then tabs 1 else [])) n p2 h2) (\<lambda>p3 h3.
         and_then (and_update_offset (pv a p3 h3)) (\<lambda>p4 h4. do {
           c4 \<leftarrow> hp_mem h4 a;
           let n4 = (if pr_format p4 then 1 else 0) + (if cj_next c4 \<noteq> None then 1 else 0);
           print_chars junk (n4 + 1) ((if cj_next c4 \<noteq> None then '','' else []) @ (if pr_format p4 then [CHR 0x0A] else []) @ [NUL]) n4 p4 h4 }))))"
  proof (rule printed_and_then [OF printed_update [OF print_string_shows [OF p] k(2)]])
    fix p2 and h2 :: "'a cjson heap" assume p2: "pr_holds p2 (s @ string_text k)" and h2: "hp_mem h2 = hp_mem h"
    have "printed h2 (length (s @ string_text k)) (\<lambda>p'. pr_holds p' ((s @ string_text k) @ '':'')) (print_chars junk 1 '':'' 1 p2 h2)"
      using print_chars_moves [OF p2, of "'':''" "[]" 1 1 h2 junk] by simp
    then have "printed h2 ?m (\<lambda>p'. pr_holds p' ?out) (and_then (print_chars junk 1 '':'' 1 p2 h2) (\<lambda>p3 h3.
         and_then (and_update_offset (pv a p3 h3)) (\<lambda>p4 h4. do {
           c4 \<leftarrow> hp_mem h4 a;
           let n4 = (if pr_format p4 then 1 else 0) + (if cj_next c4 \<noteq> None then 1 else 0);
           print_chars junk (n4 + 1) ((if cj_next c4 \<noteq> None then '','' else []) @ (if pr_format p4 then [CHR 0x0A] else []) @ [NUL]) n4 p4 h4 })))"
    proof (rule printed_and_then)
      fix p3 and h3 :: "'a cjson heap" assume p3: "pr_holds p3 ((s @ string_text k) @ '':'')" and h3: "hp_mem h3 = hp_mem h2"
      have "cells_at (hp_mem h3) (flat [JNode a c ks])" using t(2) h2 h3 by simp
      then have "printed h3 (length ((s @ string_text k) @ '':'') + length (json_text D N v)) (\<lambda>p'. pr_shows p' ((s @ string_text k) @ '':'') (json_text D N v)) (pv a p3 h3)"
        using pv t v p3 unfolding prints_def by blast
      from printed_update [OF this v(3)] show "printed h3 ?m (\<lambda>p'. pr_holds p' ?out) (and_then (and_update_offset (pv a p3 h3)) (\<lambda>p4 h4. do {
           c4 \<leftarrow> hp_mem h4 a;
           let n4 = (if pr_format p4 then 1 else 0) + (if cj_next c4 \<noteq> None then 1 else 0);
           print_chars junk (n4 + 1) ((if cj_next c4 \<noteq> None then '','' else []) @ (if pr_format p4 then [CHR 0x0A] else []) @ [NUL]) n4 p4 h4 }))"
      proof (rule printed_and_then)
        fix p4 and h4 :: "'a cjson heap" assume p4: "pr_holds p4 (((s @ string_text k) @ '':'') @ json_text D N v)" and h4: "hp_mem h4 = hp_mem h3"
        have c4: "hp_mem h4 a = Some c" using c h2 h3 h4 by simp
        show "printed h4 ?m (\<lambda>p'. pr_holds p' ?out) (do {
           c4 \<leftarrow> hp_mem h4 a;
           let n4 = (if pr_format p4 then 1 else 0) + (if cj_next c4 \<noteq> None then 1 else 0);
           print_chars junk (n4 + 1) ((if cj_next c4 \<noteq> None then '','' else []) @ (if pr_format p4 then [CHR 0x0A] else []) @ [NUL]) n4 p4 h4 })"
        proof (cases "cj_next c")
          case None
          from print_chars_moves [OF p4, of "[]" "[NUL]" 1 0 h4 junk] show ?thesis using None c4 not_format [OF p4] by (simp add: Let_def)
        next
          case (Some b)
          from print_chars_moves [OF p4, of "'',''" "[NUL]" 2 1 h4 junk] show ?thesis using Some c4 not_format [OF p4] by (simp add: Let_def numeral_2_eq_2)
        qed
      qed simp
    qed simp
    then show "printed h2 ?m (\<lambda>p'. pr_holds p' ?out) (let n = (if pr_format p2 then 2 else 1) in
       and_then (print_chars junk n (CHR '':'' # (if pr_format p2 then tabs 1 else [])) n p2 h2) (\<lambda>p3 h3.
         and_then (and_update_offset (pv a p3 h3)) (\<lambda>p4 h4. do {
           c4 \<leftarrow> hp_mem h4 a;
           let n4 = (if pr_format p4 then 1 else 0) + (if cj_next c4 \<noteq> None then 1 else 0);
           print_chars junk (n4 + 1) ((if cj_next c4 \<noteq> None then '','' else []) @ (if pr_format p4 then [CHR 0x0A] else []) @ [NUL]) n4 p4 h4 })))"
      using not_format [OF p2] by (simp add: Let_def)
  qed simp
  then show ?thesis using c k(1) not_format [OF p] by (simp add: print_member_def and_then_def [of "Some (True, p, h)"])
qed

lemma linked_inner: "linked p ts \<Longrightarrow> JNode a c ks \<in> set ts \<Longrightarrow> linked (cj_child c) ks"
  by (induction p ts rule: linked.induct) auto

lemma cells_inner: "cells_at m (flat ts) \<Longrightarrow> t \<in> set ts \<Longrightarrow> cells_at m (flat [t])"
proof (induction ts rule: flat.induct)
  case (2 a c ks ts)
  then show ?case by (cases "t = JNode a c ks") auto
qed simp

lemma nonul_concat: "(\<And>x. x \<in> set xs \<Longrightarrow> nonul x) \<Longrightarrow> nonul (concat xs)"
  by (induction xs) auto

lemma nonul_escaped: "c \<noteq> NUL \<Longrightarrow> nonul (escaped c)"
proof -
  have hex: "nonul (hex4 (\<lambda>_. False) n)" if "n < 32" for n
  proof -
    have "list_all (\<lambda>n. nonul (hex4 (\<lambda>_. False) n)) [0..<32]" by (simp add: upt_rec hex4_def hex_char_def nonul_def)
    then show ?thesis using that by (simp add: list_all_iff)
  qed
  assume c: "c \<noteq> NUL"
  show ?thesis
  proof (cases "(of_char c :: nat) > 31 \<and> c \<noteq> CHR 0x22 \<and> c \<noteq> CHR 0x5C")
    case True
    then show ?thesis using c by (simp add: escaped_def escape_write_def)
  next
    case control: False
    show ?thesis
    proof (cases "short_escape c")
      case None
      then have "(of_char c :: nat) < 32" using control by (auto simp: short_escape_def)
      moreover have "escaped c = [CHR 0x5C, CHR ''u''] @ hex4 (\<lambda>_. False) (of_char c)"
        using control None unfolding escaped_def escape_write_def if_not_P [OF control] by (simp add: hex4_def)
      ultimately show ?thesis using hex by simp
    next
      case (Some d)
      then have "d \<noteq> NUL" by (auto simp: short_escape_def split: if_splits)
      moreover have "escaped c = [CHR 0x5C, d]" using Some unfolding escaped_def escape_write_def if_not_P [OF control] by simp
      ultimately show ?thesis by simp
    qed
  qed
qed

lemma nonul_string_text: "nonul s \<Longrightarrow> nonul (string_text s)"
proof -
  assume "nonul s"
  have "nonul (concat (map escaped s))"
  proof (rule nonul_concat)
    fix x assume "x \<in> set (map escaped s)"
    then obtain c where c: "c \<in> set s" "x = escaped c" by auto
    then have "c \<noteq> NUL" using \<open>nonul s\<close> by (auto simp: nonul_def)
    then show "nonul x" using c(2) nonul_escaped by simp
  qed
  then show ?thesis by (simp add: string_text_def)
qed

lemma nonul_commas: "(\<And>x. x \<in> set xs \<Longrightarrow> nonul x) \<Longrightarrow> nonul (commas xs)"
  by (induction xs rule: commas.induct) auto

lemma nonul_json_text: "printable D N v \<Longrightarrow> nonul (json_text D N v)"
proof (induction v)
  case (JsArray vs)
  then have "nonul (commas (map (json_text D N) vs))" by (intro nonul_commas) auto
  then show ?case by simp
next
  case (JsObject kvs)
  have "nonul (commas (map (\<lambda>(k, v). string_text k @ '':'' @ json_text D N v) kvs))"
    by (rule nonul_commas) (use JsObject in \<open>fastforce simp: nonul_string_text snds.simps\<close>)
  then show ?case by simp
qed (auto simp: nonul_string_text)

lemma nesting_inner:
  "v \<in> set vs \<Longrightarrow> nesting v < nesting (JsArray vs)" "(k, v) \<in> set kvs \<Longrightarrow> nesting v < nesting (JsObject kvs)"
proof -
  assume "v \<in> set vs"
  then have "nesting v \<le> Max (insert 0 (set (map nesting vs)))" by (intro Max_ge) auto
  then show "nesting v < nesting (JsArray vs)" by simp
next
  assume "(k, v) \<in> set kvs"
  then have "nesting v \<in> set (map (\<lambda>(k, v). nesting v) kvs)" by force
  then have "nesting v \<le> Max (insert 0 (set (map (\<lambda>(k, v). nesting v) kvs)))" by (intro Max_ge) auto
  then show "nesting v < nesting (JsObject kvs)" by simp
qed

text \<open>The brackets around the items.\<close>

lemma print_brackets:
  fixes h :: "'d cjson heap"
  assumes p: "pr_holds p s"
    and op: "printed h (length (s @ [bo])) (\<lambda>p'. pr_holds p' (s @ [bo])) (print_chars junk no cs 1 p h)"
    and items: "\<And>p1 h1. pr_holds p1 (s @ [bo]) \<Longrightarrow> hp_mem h1 = hp_mem h \<Longrightarrow>
      printed h1 (length (s @ [bo]) + length t) (\<lambda>p'. pr_holds p' ((s @ [bo]) @ t)) (items (p1\<lparr>pr_depth := pr_depth p1 + 1\<rparr>) h1)"
    and cl: "\<And>p2 (h2 :: 'd cjson heap). pr_holds p2 ((s @ [bo]) @ t) \<Longrightarrow> print_chars junk (nc p2) (ds p2) 0 p2 h2 = print_chars junk 2 ([bc] @ [NUL]) 0 p2 h2"
  shows "printed h (length s + length ([bo] @ t @ [bc])) (\<lambda>p'. pr_shows p' s ([bo] @ t @ [bc]))
    (and_then (print_chars junk no cs 1 p h) (\<lambda>p1 h1.
       and_then (items (p1\<lparr>pr_depth := pr_depth p1 + 1\<rparr>) h1) (\<lambda>p2 h2.
         and_then (print_chars junk (nc p2) (ds p2) 0 p2 h2) (\<lambda>p3 h3. Some (True, p3\<lparr>pr_depth := pr_depth p3 - 1\<rparr>, h3)))))"
proof (rule printed_and_then [OF op])
  fix p1 and h1 :: "'d cjson heap" assume p1: "pr_holds p1 (s @ [bo])" and h1: "hp_mem h1 = hp_mem h"
  show "printed h1 (length s + length ([bo] @ t @ [bc])) (\<lambda>p'. pr_shows p' s ([bo] @ t @ [bc]))
    (and_then (items (p1\<lparr>pr_depth := pr_depth p1 + 1\<rparr>) h1) (\<lambda>p2 h2.
       and_then (print_chars junk (nc p2) (ds p2) 0 p2 h2) (\<lambda>p3 h3. Some (True, p3\<lparr>pr_depth := pr_depth p3 - 1\<rparr>, h3))))"
  proof (rule printed_and_then [OF items [OF p1 h1]])
    fix p2 and h2 :: "'d cjson heap" assume p2: "pr_holds p2 ((s @ [bo]) @ t)"
    have "printed h2 (length ((s @ [bo]) @ t) + length [bc]) (\<lambda>p'. pr_shows p' ((s @ [bo]) @ t) [bc]) (print_chars junk (nc p2) (ds p2) 0 p2 h2)"
      unfolding cl [OF p2] by (rule print_chars_shows [OF p2]) simp_all
    then show "printed h2 (length s + length ([bo] @ t @ [bc])) (\<lambda>p'. pr_shows p' s ([bo] @ t @ [bc]))
      (and_then (print_chars junk (nc p2) (ds p2) 0 p2 h2) (\<lambda>p3 h3. Some (True, p3\<lparr>pr_depth := pr_depth p3 - 1\<rparr>, h3)))"
    proof (rule printed_and_then)
      fix p3 and h3 :: "'d cjson heap" assume "pr_shows p3 ((s @ [bo]) @ t) [bc]"
      then have "pr_shows (p3\<lparr>pr_depth := pr_depth p3 - 1\<rparr>) s ([bo] @ t @ [bc])" by (auto simp: pr_shows_def pr_ok_def)
      then show "printed h3 (length s + length ([bo] @ t @ [bc])) (\<lambda>p'. pr_shows p' s ([bo] @ t @ [bc])) (Some (True, p3\<lparr>pr_depth := pr_depth p3 - 1\<rparr>, h3))"
        by (rule printed_return)
    qed simp
  qed simp
qed simp

lemma holds_depth: "pr_holds (p\<lparr>pr_depth := n\<rparr>) s = pr_holds p s"
  by (simp add: pr_holds_def pr_ok_def)

lemma print_array_prints:
  assumes pv: "prints D N n pv" and ks: "linked (cj_child c) ks" "cells_at (hp_mem h) (flat ks)" "nodes_are D vs ks"
    and v: "printable D N (JsArray vs)" "nesting (JsArray vs) \<le> n" and p: "pr_holds p s"
  shows "printed h (length s + length (json_text D N (JsArray vs))) (\<lambda>p'. pr_shows p' s (json_text D N (JsArray vs))) (print_array junk pv c p h)"
proof -
  let ?xs = "map (json_text D N) vs"
  have items: "printed h1 (length (s @ ''['') + length (commas ?xs)) (\<lambda>p'. pr_holds p' ((s @ ''['') @ commas ?xs))
      (print_rounds (print_element junk pv) (cj_child c) (p1\<lparr>pr_depth := pr_depth p1 + 1\<rparr>) h1)"
    if "pr_holds p1 (s @ ''['')" "hp_mem h1 = hp_mem h" for p1 and h1 :: "'a cjson heap"
  proof (rule print_rounds_prints [OF ks(1,2)])
    have nth: "length ks = length vs" "\<forall>i < length vs. node_is D (vs ! i) (ks ! i)"
      using ks(3) by (simp_all add: nodes_are_iff list_all2_conv_all_nth)
    show "list_all2 (\<lambda>t x. \<forall>h' p s. hp_mem h' = hp_mem h \<longrightarrow> pr_holds p s \<longrightarrow>
        printed h' (length s + length (x @ (if cj_next (node_cell t) = None then [] else '',''))) (\<lambda>p'. pr_holds p' (s @ x @ (if cj_next (node_cell t) = None then [] else '','')))
          (print_element junk pv (node_addr t) p h')) ks ?xs"
      unfolding list_all2_conv_all_nth
    proof (intro conjI allI impI)
      fix i and h' :: "'a cjson heap" and p s assume i: "i < length ks" and h': "hp_mem h' = hp_mem h" and p: "pr_holds p s"
      obtain a d js where t: "ks ! i = JNode a d js" by (cases "ks ! i")
      have iv: "i < length vs" "vs ! i \<in> set vs" using i nth(1) by simp_all
      have in_ks: "JNode a d js \<in> set ks" using i t by (metis nth_mem)
      have l: "linked (cj_child d) js" "cells_at (hp_mem h') (flat [JNode a d js])"
        using linked_inner [OF ks(1) in_ks] cells_inner [OF ks(2) in_ks] h' by simp_all
      have v': "node_is D (vs ! i) (JNode a d js)" "printable D N (vs ! i)" "nesting (vs ! i) < n"
        using nth(2) iv t v nesting_inner(1) [OF iv(2)] by auto
      from print_element_prints [OF pv l v' nonul_json_text [OF v'(2)] p]
      show "printed h' (length s + length (?xs ! i @ (if cj_next (node_cell (ks ! i)) = None then [] else '','')))
          (\<lambda>p'. pr_holds p' (s @ ?xs ! i @ (if cj_next (node_cell (ks ! i)) = None then [] else '','')))
          (print_element junk pv (node_addr (ks ! i)) p h')"
        using iv t by simp
    qed (use nth in simp)
  qed (use that in \<open>simp_all add: holds_depth\<close>)
  have op: "printed h (length (s @ ''['')) (\<lambda>p'. pr_holds p' (s @ ''['')) (print_chars junk 1 ''['' 1 p h)"
    using print_chars_moves [OF p, of "''[''" "[]" 1 1 h junk] by (auto elim: printed_weaken)
  have cl: "print_chars junk 2 [CHR '']'', NUL] 0 p2 h2 = print_chars junk 2 ([CHR '']''] @ [NUL]) 0 p2 h2" for p2 and h2 :: "'a cjson heap" by simp
  from print_brackets [OF p op, where t = "commas ?xs" and items = "print_rounds (print_element junk pv) (cj_child c)" and
      nc = "\<lambda>_. 2" and ds = "\<lambda>_. [CHR '']'', NUL]" and bc = "CHR '']''", OF items cl]
  show ?thesis by (simp add: print_array_def)
qed

lemma print_object_prints:
  assumes pv: "prints D N n pv" and ks: "linked (cj_child c) ks" "cells_at (hp_mem h) (flat ks)" "members_are D kvs ks"
    and v: "printable D N (JsObject kvs)" "nesting (JsObject kvs) \<le> n" and p: "pr_holds p s"
  shows "printed h (length s + length (json_text D N (JsObject kvs))) (\<lambda>p'. pr_shows p' s (json_text D N (JsObject kvs))) (print_object junk pv c p h)"
proof -
  let ?xs = "map (\<lambda>(k, v). string_text k @ '':'' @ json_text D N v) kvs"
  have items: "printed h1 (length (s @ ''{'') + length (commas ?xs)) (\<lambda>p'. pr_holds p' ((s @ ''{'') @ commas ?xs))
      (print_rounds (print_member junk pv) (cj_child c) (p1\<lparr>pr_depth := pr_depth p1 + 1\<rparr>) h1)"
    if "pr_holds p1 (s @ ''{'')" "hp_mem h1 = hp_mem h" for p1 and h1 :: "'a cjson heap"
  proof (rule print_rounds_prints [OF ks(1,2)])
    have nth: "length ks = length kvs" "\<forall>i < length kvs. cj_string (node_cell (ks ! i)) = Some (fst (kvs ! i)) \<and> node_is D (snd (kvs ! i)) (ks ! i)"
      using ks(3) by (simp_all add: members_are_iff list_all2_conv_all_nth case_prod_beta)
    show "list_all2 (\<lambda>t x. \<forall>h' p s. hp_mem h' = hp_mem h \<longrightarrow> pr_holds p s \<longrightarrow>
        printed h' (length s + length (x @ (if cj_next (node_cell t) = None then [] else '',''))) (\<lambda>p'. pr_holds p' (s @ x @ (if cj_next (node_cell t) = None then [] else '','')))
          (print_member junk pv (node_addr t) p h')) ks ?xs"
      unfolding list_all2_conv_all_nth
    proof (intro conjI allI impI)
      fix i and h' :: "'a cjson heap" and p s assume i: "i < length ks" and h': "hp_mem h' = hp_mem h" and p: "pr_holds p s"
      obtain a d js where t: "ks ! i = JNode a d js" by (cases "ks ! i")
      obtain k w where kw: "kvs ! i = (k, w)" by fastforce
      have iv: "i < length kvs" "(k, w) \<in> set kvs" using i nth(1) kw by (simp, metis nth_mem)
      have in_ks: "JNode a d js \<in> set ks" using i t by (metis nth_mem)
      have l: "linked (cj_child d) js" "cells_at (hp_mem h') (flat [JNode a d js])"
        using linked_inner [OF ks(1) in_ks] cells_inner [OF ks(2) in_ks] h' by simp_all
      have v': "node_is D w (JNode a d js)" "printable D N w" "nesting w < n" "cj_string d = Some k" "nonul (string_text k)"
        using nth(2) iv t kw v nesting_inner(2) [OF iv(2)] nonul_string_text by fastforce+
      from print_member_prints [OF pv l v'(1-3) nonul_json_text [OF v'(2)] v'(4,5) p]
      show "printed h' (length s + length (?xs ! i @ (if cj_next (node_cell (ks ! i)) = None then [] else '','')))
          (\<lambda>p'. pr_holds p' (s @ ?xs ! i @ (if cj_next (node_cell (ks ! i)) = None then [] else '','')))
          (print_member junk pv (node_addr (ks ! i)) p h')"
        using iv t kw by simp
    qed (use nth in simp)
  qed (use that in \<open>simp_all add: holds_depth\<close>)
  have op: "printed h (length (s @ ''{'')) (\<lambda>p'. pr_holds p' (s @ ''{'')) (print_chars junk 2 ''{'' 1 p h)"
    using print_chars_moves [OF p, of "''{''" "[]" 2 1 h junk] by simp
  have cl: "print_chars junk (if pr_format p2 then pr_depth p2 + 1 else 2) ((if pr_format p2 then tabs (pr_depth p2 - 1) else []) @ [CHR ''}'', NUL]) 0 p2 h2 =
      print_chars junk 2 ([CHR ''}''] @ [NUL]) 0 p2 h2" if "pr_holds p2 ((s @ ''{'') @ commas ?xs)" for p2 and h2 :: "'a cjson heap"
    using not_format [OF that] by simp
  from print_brackets [OF p op, where t = "commas ?xs" and items = "print_rounds (print_member junk pv) (cj_child c)" and
      nc = "\<lambda>p2. if pr_format p2 then pr_depth p2 + 1 else 2" and ds = "\<lambda>p2. (if pr_format p2 then tabs (pr_depth p2 - 1) else []) @ [CHR ''}'', NUL]" and bc = "CHR ''}''", OF items cl]
  show ?thesis using not_format [OF p] by (simp add: print_object_def Let_def numeral_2_eq_2)
qed

lemma print_value_prints: "prints D N fuel (print_value fuel junk N)"
proof (induction fuel)
  case 0
  then show ?case by (simp add: prints_def)
next
  case (Suc fuel)
  have types: "cJSON_NULL = 4" "cJSON_False = 1" "cJSON_True = 2" "cJSON_Number = 8" "cJSON_Raw = 128" "cJSON_String = 16" "cJSON_Array = 32" "cJSON_Object = 64"
    by (simp_all add: cJSON_NULL_def cJSON_False_def cJSON_True_def cJSON_Number_def cJSON_Raw_def cJSON_String_def cJSON_Array_def cJSON_Object_def)
  show ?case
    unfolding prints_def
  proof (intro allI impI)
    fix v a c ks and h :: "'a cjson heap" and p s
    assume cells: "cells_at (hp_mem h) (flat [JNode a c ks])" and l: "linked (cj_child c) ks" and is_v: "node_is D v (JNode a c ks)"
      and pr: "printable D N v" and d: "nesting v < Suc fuel" and p: "pr_holds p s"
    have c: "hp_mem h a = Some c" "cells_at (hp_mem h) (flat ks)" using cells by simp_all
    note lit = print_chars_shows [OF p, of _ _ 0 h junk]
    show "printed h (length s + length (json_text D N v)) (\<lambda>p'. pr_shows p' s (json_text D N v)) (print_value (Suc fuel) junk N a p h)"
    proof (cases v)
      case JsNull
      then show ?thesis using lit [of 5 "''null''"] c is_v by (simp add: types Let_def)
    next
      case (JsBool b)
      then show ?thesis using lit [of 6 "''false''"] lit [of 5 "''true''"] c is_v by (cases b) (simp_all add: types Let_def)
    next
      case (JsNumber x)
      let ?t = "number_text N x (dbl_saturate D x)"
      have "\<not> length ?t > 25" using pr JsNumber by simp
      then show ?thesis using print_chars_shows [OF p, of "length ?t + 1" ?t "length ?t" h junk] JsNumber c is_v
        by (simp add: types Let_def print_number_def)
    next
      case (JsString t)
      then show ?thesis using print_string_shows [OF p, of h t junk] c is_v by (simp add: types Let_def)
    next
      case (JsArray vs)
      have "printed h (length s + length (json_text D N (JsArray vs))) (\<lambda>p'. pr_shows p' s (json_text D N (JsArray vs))) (print_array junk (print_value fuel junk N) c p h)"
        using is_v pr d JsArray by (intro print_array_prints [OF Suc.IH l c(2) _ _ _ p]) (simp_all only: node_is.simps less_Suc_eq_le)
      then show ?thesis using JsArray c is_v by (simp add: types Let_def)
    next
      case (JsObject kvs)
      have "printed h (length s + length (json_text D N (JsObject kvs))) (\<lambda>p'. pr_shows p' s (json_text D N (JsObject kvs))) (print_object junk (print_value fuel junk N) c p h)"
        using is_v pr d JsObject by (intro print_object_prints [OF Suc.IH l c(2) _ _ _ p]) (simp_all only: node_is.simps less_Suc_eq_le)
      then show ?thesis using JsObject c is_v by (simp add: types Let_def)
    qed
  qed
qed

section \<open>Printing\<close>

lemma print_unformatted_text:
  assumes v: "json_at D h a v" "printable D N v" "nesting v < fuel"
  shows "\<exists>r h'. cJSON_PrintUnformatted fuel junk N (Some a) h = Some (r, h') \<and> hp_mem h' = hp_mem h \<and> hp_oom h' = hp_oom h \<and> hp_brk h \<le> hp_brk h' \<and>
    (r = None \<or> r = Some (json_text D N v)) \<and> (hp_oom h = (\<lambda>_. False) \<and> length (json_text D N v) + 2 \<le> INT_MAX \<longrightarrow> r \<noteq> None)"
proof (cases "hp_oom h (hp_brk h)")
  case True
  then show ?thesis by (auto simp: cJSON_PrintUnformatted_def cJSON_print_def h_malloc_def)
next
  case False
  let ?h1 = "h\<lparr>hp_brk := Suc (hp_brk h)\<rparr>"
  let ?p = "\<lparr>pr_buffer = Some (map junk [0..<256]), pr_length = 256, pr_offset = 0, pr_depth = 0, pr_noalloc = False, pr_format = False\<rparr>"
  let ?t = "json_text D N v"
  have m: "h_malloc h = (True, ?h1)" using False by (simp add: h_malloc_def)
  obtain c ks where n: "cells_at (hp_mem ?h1) (flat [JNode a c ks])" "linked (cj_child c) ks" "node_is D v (JNode a c ks)"
    using v(1) by (auto simp: json_at_def)
  have p0: "pr_holds ?p []" by (simp add: pr_holds_def pr_ok_def)
  have "printed ?h1 (length ([] :: string) + length ?t) (\<lambda>p'. pr_shows p' [] ?t) (print_value fuel junk N a ?p ?h1)"
    using print_value_prints [of D N fuel junk] n v(2,3) p0 unfolding prints_def by blast
  then have "printed ?h1 (length ?t) (\<lambda>p'. pr_holds p' ?t \<and> take (length ?t + 1) (the (pr_buffer p')) = ?t @ [NUL])
      (and_update_offset (print_value fuel junk N a ?p ?h1))"
    unfolding and_update_offset_def
  proof (rule printed_and_then)
    fix p1 and h2 :: "'a cjson heap" assume "pr_shows p1 [] ?t"
    from update_offset_shows [OF this nonul_json_text [OF v(2)]]
    obtain p2 where "update_offset p1 = Some p2" "pr_holds p2 ?t" "take (length ?t + 1) (the (pr_buffer p2)) = ?t @ [NUL]" by auto
    then show "printed h2 (length ?t) (\<lambda>p'. pr_holds p' ?t \<and> take (length ?t + 1) (the (pr_buffer p')) = ?t @ [NUL]) (do { p1 \<leftarrow> update_offset p1; Some (True, p1, h2) })"
      by (simp add: printed_return)
  qed simp
  then obtain ok p2 h2 where r: "and_update_offset (print_value fuel junk N a ?p ?h1) = Some (ok, p2, h2)" "hp_mem h2 = hp_mem h" "hp_oom h2 = hp_oom h"
    "Suc (hp_brk h) \<le> hp_brk h2" "ok \<longrightarrow> pr_holds p2 ?t \<and> take (length ?t + 1) (the (pr_buffer p2)) = ?t @ [NUL]"
    "hp_oom h = (\<lambda>_. False) \<and> length ?t + 2 \<le> INT_MAX \<longrightarrow> ok"
    unfolding printed_def by (auto split: option.splits)
  show ?thesis
  proof (cases "ok \<and> \<not> hp_oom h2 (hp_brk h2)")
    case True
    then obtain b where b: "pr_buffer p2 = Some b" "pr_offset p2 = length ?t" "length ?t < length b" "take (length ?t + 1) b = ?t @ [NUL]"
      using r(5) by (auto simp: pr_holds_def pr_ok_def)
    have "c_str (resized junk (length ?t + 1) b) = ?t"
      using b(3,4) nonul_json_text [OF v(2)] by (simp add: resized_def c_str_nul)
    then have "cJSON_PrintUnformatted fuel junk N (Some a) h = Some (Some ?t, h2\<lparr>hp_brk := Suc (hp_brk h2)\<rparr>)"
      using m r(1) True b(1,2) by (simp add: cJSON_PrintUnformatted_def cJSON_print_def h_malloc_def)
    then show ?thesis using r(2,3,4) by simp
  next
    case fail: False
    then have "\<exists>h'. cJSON_PrintUnformatted fuel junk N (Some a) h = Some (None, h') \<and> hp_mem h' = hp_mem h \<and> hp_oom h' = hp_oom h \<and> hp_brk h \<le> hp_brk h'"
      using m r(1-4) by (auto simp: cJSON_PrintUnformatted_def cJSON_print_def h_malloc_def)
    moreover have "\<not> (hp_oom h = (\<lambda>_. False) \<and> length ?t + 2 \<le> INT_MAX)" using fail r(3,6) by auto
    ultimately show ?thesis by auto
  qed
qed

end
