(* ===== verification/CJsonRoundtrip.thy ===== *)
theory CJsonRoundtrip
  imports CJsonSafety CJsonText
begin

unbundle bit_operations_syntax

text \<open>
  The parser on the text of a value: it reads the whole text, whatever follows it, and builds a tree of that value.
\<close>

section \<open>What is left of the input\<close>

definition remaining :: "parse_buffer \<Rightarrow> string" where
  "remaining b = drop (pb_offset b) (pb_content b)"

lemma remaining_simps [simp]:
  "remaining (advance n b) = drop n (remaining b)" "remaining (b\<lparr>pb_depth := d\<rparr>) = remaining b"
  by (simp_all add: remaining_def advance_def add.commute)

lemma remaining_split:
  assumes "remaining b = t @ u" and "t \<noteq> []"
  shows "\<exists>pre. pb_content b = pre @ t @ u \<and> length pre = pb_offset b"
proof -
  have "pb_offset b < length (pb_content b)" using assms unfolding remaining_def by (metis append_is_Nil_conv drop_all not_le)
  moreover have "take (pb_offset b) (pb_content b) @ t @ u = pb_content b"
    using append_take_drop_id [of "pb_offset b" "pb_content b"] assms(1) unfolding remaining_def by simp
  ultimately show ?thesis by (intro exI [of _ "take (pb_offset b) (pb_content b)"]) simp
qed

lemma next_is_remaining:
  assumes "remaining b = c # u"
  shows "buffer_next_is b d \<longleftrightarrow> d = c" "can_access_at_index b 0" "buffer_at_offset b 0 = Some c"
proof -
  obtain pre where "pb_content b = pre @ [c] @ u" "length pre = pb_offset b" using remaining_split [of b "[c]" u] assms by auto
  then have "pb_offset b < length (pb_content b) \<and> pb_content b ! pb_offset b = c" by (metis append_Cons length_append less_add_same_cancel1 list.size(4) nth_append_length zero_less_Suc add_Suc_right)
  then show "buffer_next_is b d \<longleftrightarrow> d = c" "can_access_at_index b 0" "buffer_at_offset b 0 = Some c"
    by (auto simp: buffer_next_is_def can_access_at_index_def buffer_at_offset_def s_at_def)
qed

lemma has_remaining:
  assumes "w \<noteq> []" shows "buffer_has b w \<longleftrightarrow> take (length w) (remaining b) = w"
proof
  assume "take (length w) (remaining b) = w"
  then have "length w \<le> length (remaining b)" by (metis length_take min.absorb_iff1 min.commute)
  then have "pb_offset b + length w \<le> length (pb_content b)" using assms by (simp add: remaining_def) (metis Nat.le_diff_conv2 add.commute diff_is_0_eq le_zero_eq length_0_conv nat_le_linear)
  then show "buffer_has b w" using \<open>take (length w) (remaining b) = w\<close> by (simp add: buffer_has_def remaining_def)
qed (simp add: buffer_has_def remaining_def)

lemma has_other: "remaining b = c # u \<Longrightarrow> c \<noteq> x \<Longrightarrow> \<not> buffer_has b (x # w)"
  by (simp add: has_remaining)

lemma skip_nothing:
  assumes "remaining b = c # u" and "(of_char c :: nat) > 32"
  shows "buffer_skip_whitespace b = b"
proof -
  obtain pre where p: "pb_content b = pre @ [c] @ u" "length pre = pb_offset b" using remaining_split [of b "[c]" u] assms(1) by auto
  then have "pb_content b ! pb_offset b = c" "pb_offset b < length (pb_content b)" by (simp_all add: nth_append)
  then have "ws_loop (pb_content b) (pb_offset b) = pb_offset b" using assms(2) by (subst ws_loop.simps) simp
  then show ?thesis using \<open>pb_offset b < length (pb_content b)\<close> by (simp add: buffer_skip_whitespace_def Let_def)
qed

section \<open>Strings\<close>

lemma escaped_cases:
  obtains (plain) "escaped c = [c]" "c \<noteq> CHR 0x22" "c \<noteq> CHR 0x5C"
  | (short) d where "escaped c = [CHR 0x5C, d]" "simple_escape d = Some c"
  | (long) "escaped c = utf16_literal (\<lambda>_. False) (of_char c)" "(of_char c :: nat) < 32"
proof (cases "(of_char c :: nat) > 31 \<and> c \<noteq> CHR 0x22 \<and> c \<noteq> CHR 0x5C")
  case True
  then show thesis by (intro plain) (simp_all add: escaped_def escape_write_def)
next
  case control: False
  show thesis
  proof (cases "short_escape c")
    case None
    then have "(of_char c :: nat) < 32" using control by (auto simp: short_escape_def)
    moreover have "escaped c = [CHR 0x5C, CHR ''u''] @ hex4 (\<lambda>_. False) (of_char c)"
      using None unfolding escaped_def escape_write_def if_not_P [OF control] by (simp add: hex4_def)
    ultimately show thesis by (intro long) (simp_all add: utf16_literal_def)
  next
    case (Some d)
    then have "simple_escape d = Some c" by (auto simp: short_escape_def simple_escape_def split: if_splits)
    moreover have "escaped c = [CHR 0x5C, d]" using Some unfolding escaped_def escape_write_def if_not_P [OF control] by simp
    ultimately show thesis by (rule short [rotated])
  qed
qed

lemma hex_char_plain: "d < 16 \<Longrightarrow> hex_char u d \<noteq> CHR 0x22 \<and> hex_char u d \<noteq> CHR 0x5C"
proof -
  have "list_all (\<lambda>d. hex_char u d \<noteq> CHR 0x22 \<and> hex_char u d \<noteq> CHR 0x5C) [0..<16]" by (cases u) (simp_all add: upt_rec hex_char_def)
  then show "d < 16 \<Longrightarrow> ?thesis" by (simp add: list_all_iff)
qed

lemma scan_plain:
  "c \<noteq> CHR 0x22 \<Longrightarrow> c \<noteq> CHR 0x5C \<Longrightarrow> string_scan (pre @ c # u) (length pre) k = string_scan ((pre @ [c]) @ u) (length (pre @ [c])) k"
  by (subst string_scan.simps) simp

lemma scan_pair: "string_scan (pre @ CHR 0x5C # d # u) (length pre) k = string_scan ((pre @ [CHR 0x5C, d]) @ u) (length (pre @ [CHR 0x5C, d])) (Suc k)"
  by (subst string_scan.simps) simp

lemma scan_plains:
  "\<forall>c \<in> set t. c \<noteq> CHR 0x22 \<and> c \<noteq> CHR 0x5C \<Longrightarrow> string_scan (pre @ t @ u) (length pre) k = string_scan ((pre @ t) @ u) (length (pre @ t)) k"
proof (induction t arbitrary: pre)
  case (Cons c t)
  then show ?case using scan_plain [of c pre "t @ u" k] Cons.IH [of "pre @ [c]"] by simp
qed simp

lemma scan_escaped: "\<exists>k'. string_scan (pre @ escaped c @ u) (length pre) k = string_scan ((pre @ escaped c) @ u) (length (pre @ escaped c)) k'"
proof (cases c rule: escaped_cases)
  case plain
  then show ?thesis using scan_plain [of c pre u k] by auto
next
  case (short d)
  then show ?thesis using scan_pair [of pre d u k] by auto
next
  case long
  let ?x = "hex4 (\<lambda>_. False) (of_char c)"
  have e: "escaped c = [CHR 0x5C, CHR ''u''] @ ?x" using long by (simp add: utf16_literal_def)
  have "\<forall>d \<in> set ?x. d \<noteq> CHR 0x22 \<and> d \<noteq> CHR 0x5C" using long(2) by (simp add: hex4_def hex_char_plain)
  from scan_plains [OF this, of "pre @ [CHR 0x5C, CHR ''u'']" u "Suc k"] scan_pair [of pre "CHR ''u''" "?x @ u" k]
  show ?thesis unfolding e by auto
qed

lemma scan_text: "\<exists>k'. string_scan (pre @ concat (map escaped t) @ CHR 0x22 # u) (length pre) k = Some (length pre + length (concat (map escaped t)), k')"
proof (induction t arbitrary: pre k)
  case Nil
  show ?case by (subst string_scan.simps) simp
next
  case (Cons c t)
  obtain k' where k': "string_scan (pre @ escaped c @ (concat (map escaped t) @ CHR 0x22 # u)) (length pre) k =
    string_scan ((pre @ escaped c) @ (concat (map escaped t) @ CHR 0x22 # u)) (length (pre @ escaped c)) k'" using scan_escaped by blast
  from Cons.IH [of "pre @ escaped c" k'] k' show ?case by (simp add: add.assoc)
qed

text \<open>If the output fits, it is the string that was printed.\<close>

lemma unescape_escaped:
  assumes "unescape (pre @ escaped c @ u) e cap (length pre) out = Some (p, r)" and "length (pre @ escaped c) \<le> e"
  shows "unescape ((pre @ escaped c) @ u) e cap (length (pre @ escaped c)) (out @ [c]) = Some (p, r)"
proof -
  have len: "length (escaped c) > 0" by (simp add: escape_write_escaped(3))
  then have lt: "length pre < e" using assms(2) unfolding length_append by linarith
  show ?thesis
  proof (cases c rule: escaped_cases)
    case plain
    then show ?thesis using assms lt by (subst (asm) unescape.simps) (auto simp: s_at_def put_def split: if_splits)
  next
    case (short d)
    have "s_at (pre @ escaped c @ u) (length pre) = Some (CHR 0x5C)" "s_at (pre @ escaped c @ u) (Suc (length pre)) = Some d"
      using short(1) s_at_inner [of 0 "escaped c" "length pre" pre u] s_at_inner [of 1 "escaped c" "Suc (length pre)" pre u] by simp_all
    then show ?thesis using assms lt short by (subst (asm) unescape.simps) (auto simp: put_def split: if_splits)
  next
    case long
    have e: "escaped c = [CHR 0x5C, CHR ''u''] @ hex4 (\<lambda>_. False) (of_char c)" using long by (simp add: utf16_literal_def)
    have at: "s_at (pre @ escaped c @ u) (length pre) = Some (CHR 0x5C)" "s_at (pre @ escaped c @ u) (Suc (length pre)) = Some (CHR ''u'')"
      using e s_at_inner [of 0 "escaped c" "length pre" pre u] s_at_inner [of 1 "escaped c" "Suc (length pre)" pre u] by simp_all
    have l: "length (escaped c) = 6" by (simp add: e hex4_def)
    have "utf16_literal_to_utf8 (pre @ escaped c @ u) (length pre) e = Some (6, [c])"
      using utf16_literal_spec [of "of_char c" pre "\<lambda>_. False" e u] long assms(2) l by (simp add: utf8_def)
    then show ?thesis using assms lt at l by (subst (asm) unescape.simps) (auto simp: put_def simple_escape_def add.commute split: if_splits)
  qed
qed

lemma unescape_text:
  assumes "unescape (pre @ concat (map escaped t) @ u) e cap (length pre) out = Some (p, r)" and "e = length pre + length (concat (map escaped t))"
  shows "r = Some (out @ t)"
  using assms
proof (induction t arbitrary: pre out)
  case Nil
  then show ?case by (auto simp: unescape.simps [of _ "length pre" cap "length pre" out] put_def split: if_splits)
next
  case (Cons c t)
  have "unescape ((pre @ escaped c) @ (concat (map escaped t) @ u)) e cap (length (pre @ escaped c)) (out @ [c]) = Some (p, r)"
    by (rule unescape_escaped) (use Cons.prems in simp_all)
  then show ?case using Cons.IH [of "pre @ escaped c" "out @ [c]"] Cons.prems(2) by simp
qed

lemma parse_string_text:
  assumes h: "heap_ok h" "hp_mem h item = Some c" "hp_oom h = (\<lambda>_. False)" and b: "remaining b = string_text t @ u" and t: "nonul t"
  shows "\<exists>h'. parse_string item h b = Some (True, h', advance (length (string_text t)) b) \<and> heap_ok h' \<and> hp_oom h' = hp_oom h \<and> hp_brk h \<le> hp_brk h' \<and>
    hp_mem h' = (hp_mem h)(item \<mapsto> c\<lparr>cj_type := cJSON_String, cj_valuestring := Some t\<rparr>)"
proof -
  let ?x = "concat (map escaped t)"
  have b': "remaining b = CHR 0x22 # ?x @ CHR 0x22 # u" using b by (simp add: string_text_def)
  obtain pre where "pb_content b = pre @ string_text t @ u" "length pre = pb_offset b"
    using remaining_split [OF b] by (auto simp: string_text_def)
  then have s: "pb_content b = (pre @ [CHR 0x22]) @ ?x @ CHR 0x22 # u" "length (pre @ [CHR 0x22]) = pb_offset b + 1"
    by (simp_all add: string_text_def)
  let ?e = "pb_offset b + 1 + length ?x"
  obtain k where k: "string_scan (pb_content b) (pb_offset b + 1) 0 = Some (?e, k)"
    using scan_text [of "pre @ [CHR 0x22]" t u 0] unfolding s(2) s(1) [symmetric] by blast
  have e: "?e < length (pb_content b)" unfolding s(1) using s(2) by simp
  let ?h1 = "h\<lparr>hp_brk := Suc (hp_brk h)\<rparr>" and ?cap = "?e - pb_offset b - k + 1"
  have m: "h_malloc h = (True, ?h1)" using h(3) by (simp add: h_malloc_def)
  have un: "unescape (pb_content b) ?e ?cap (pb_offset b + 1) [] = Some (p, r) \<Longrightarrow> r = Some t" for p r
    using unescape_text [of "pre @ [CHR 0x22]" t "CHR 0x22 # u" ?e ?cap "[]" p r] unfolding s(2) s(1) [symmetric] by simp
  obtain E where E: "pb_offset b + 1 \<le> ?e" "unit_ends (pb_content b) (pb_offset b + 1) ?e E" "card E + k = ?e - (pb_offset b + 1)"
    using string_scan_units [OF k] e by auto
  have "room E (pb_offset b + 1) = card E" unfolding room_def using E(2) by (auto simp: unit_ends_def intro!: arg_cong [where f = card])
  then have "length ([] :: string) + room E (pb_offset b + 1) + 2 \<le> ?cap" using E(1,3) by simp
  then obtain p r where u: "unescape (pb_content b) ?e ?cap (pb_offset b + 1) [] = Some (p, r)" using unescape_defined [OF E(2) e] by blast
  let ?h2 = "?h1\<lparr>hp_mem := (hp_mem h)(item \<mapsto> c\<lparr>cj_type := cJSON_String, cj_valuestring := Some t\<rparr>)\<rparr>"
  have "c_str t = t" using t c_str_nul [of t "[]"] by (auto simp: c_str_def nonul_def takeWhile_eq_all_conv)
  then have "h_modify ?h1 item (\<lambda>c. c\<lparr>cj_type := cJSON_String, cj_valuestring := Some (c_str t)\<rparr>) = Some ?h2"
    using h(2) by (simp add: h_modify_def)
  moreover have "advance (length (string_text t)) b = b\<lparr>pb_offset := ?e + 1\<rparr>" by (simp add: advance_def string_text_def)
  ultimately have "parse_string item h b = Some (True, ?h2, advance (length (string_text t)) b)"
    using next_is_remaining(3) [OF b'] k e m u un [OF u] unfolding parse_string_def Let_def by simp
  moreover have "heap_ok ?h2" using h(1,2) by (auto simp: heap_ok_def)
  ultimately show ?thesis by (intro exI [of _ ?h2]) simp
qed

section \<open>Numbers\<close>

text \<open>What stands after a value: nothing that could belong to a number.\<close>

definition follows :: "string \<Rightarrow> bool" where
  "follows u \<longleftrightarrow> u = [] \<or> \<not> num_char (hd u)"

definition number_form :: "string \<Rightarrow> bool" where
  "number_form t \<longleftrightarrow> t \<noteq> [] \<and> length t \<le> 25 \<and> list_all num_char t \<and> (hd t = CHR ''-'' \<or> is_digit (hd t))"

text \<open>
  What the C standard says of the conversions of a \<^verbatim>\<open>double\<close>, for the formats in use: \<^verbatim>\<open>strtod\<close> reads the whole of
  an integer that was written with \<^verbatim>\<open>"%d"\<close> and gives a number equal to it; \<^verbatim>\<open>"%1.15g"\<close> and \<^verbatim>\<open>"%1.17g"\<close> write a finite
  number as a decimal of at most 24 characters, which \<^verbatim>\<open>strtod\<close> reads as a whole, and \<^verbatim>\<open>sscanf\<close> as \<^verbatim>\<open>strtod\<close> does; 17 digits identify
  the number (15 need not); and a finite number within the range of \<^verbatim>\<open>int\<close> is converted to an integer
  in that range, exactly if it is equal to one.
\<close>

definition c_numbers :: "'d dbl_ops \<Rightarrow> 'd num_io \<Rightarrow> bool" where
  "c_numbers D N \<longleftrightarrow>
     (\<forall>i. c_int_range i \<longrightarrow> snd (ni_strtod N (c_dec i)) = length (c_dec i) \<and> ni_eq_int N (fst (ni_strtod N (c_dec i))) i) \<and>
     (\<forall>d. \<not> ni_special N d \<longrightarrow> number_form (ni_fmt15 N d) \<and> number_form (ni_fmt17 N d) \<and>
        snd (ni_strtod N (ni_fmt15 N d)) = length (ni_fmt15 N d) \<and> ni_scan N (ni_fmt15 N d) = Some (fst (ni_strtod N (ni_fmt15 N d))) \<and>
        ni_strtod N (ni_fmt17 N d) = (d, length (ni_fmt17 N d)) \<and>
        (\<not> dbl_ge D d (2 ^ 31 - 1) \<and> \<not> dbl_le D d (- (2 ^ 31)) \<longrightarrow> c_int_range (dbl_to_int D d))) \<and>
     (\<forall>d i k. c_int_range i \<and> ni_eq_int N d i \<longrightarrow> (dbl_ge D d k \<longleftrightarrow> k \<le> i) \<and> (dbl_le D d k \<longleftrightarrow> i \<le> k) \<and> dbl_to_int D d = i)"

text \<open>The number that is read from the text of a finite number, and how close it is: an integer is the same integer, others are equal up to the error of \<^verbatim>\<open>compare_double\<close>.\<close>

definition number_read :: "'d dbl_ops \<Rightarrow> 'd num_io \<Rightarrow> 'd \<Rightarrow> 'd" where
  "number_read D N d = fst (ni_strtod N (number_text N d (dbl_saturate D d)))"

definition number_kept :: "'d dbl_ops \<Rightarrow> 'd num_io \<Rightarrow> 'd \<Rightarrow> bool" where
  "number_kept D N d \<longleftrightarrow> (let r = number_read D N d; i = dbl_saturate D d in
     if ni_eq_int N d i then ni_eq_int N r i \<and> dbl_saturate D r = i else r = d \<or> compare_double N r d)"

lemma c_numbersD:
  assumes "c_numbers D N"
  shows "c_int_range i \<Longrightarrow> snd (ni_strtod N (c_dec i)) = length (c_dec i)" "c_int_range i \<Longrightarrow> ni_eq_int N (fst (ni_strtod N (c_dec i))) i"
    "\<not> ni_special N d \<Longrightarrow> number_form (ni_fmt15 N d)" "\<not> ni_special N d \<Longrightarrow> number_form (ni_fmt17 N d)"
    "\<not> ni_special N d \<Longrightarrow> snd (ni_strtod N (ni_fmt15 N d)) = length (ni_fmt15 N d)"
    "\<not> ni_special N d \<Longrightarrow> ni_scan N (ni_fmt15 N d) = Some (fst (ni_strtod N (ni_fmt15 N d)))"
    "\<not> ni_special N d \<Longrightarrow> ni_strtod N (ni_fmt17 N d) = (d, length (ni_fmt17 N d))"
  using assms unfolding c_numbers_def by blast+

lemma saturate_range:
  assumes "c_numbers D N" and "\<not> ni_special N d"
  shows "c_int_range (dbl_saturate D d)"
  using assms by (auto simp: c_numbers_def dbl_saturate_def c_int_range_def)

lemma saturate_int:
  assumes "c_numbers D N" and "ni_eq_int N d i" and "c_int_range i"
  shows "dbl_saturate D d = i"
  using assms by (auto simp: c_numbers_def dbl_saturate_def c_int_range_def)

lemma dec_form: "c_int_range i \<Longrightarrow> number_form (c_dec i)"
proof -
  assume i: "c_int_range i"
  have "list_all num_char (nat_dec n)" for n using nat_dec_digits [of n] by (auto simp: list_all_iff num_char_def)
  then show ?thesis using length_c_dec [OF i] hd_nat_dec by (auto simp: number_form_def c_dec_def num_char_def)
qed

lemma number_text_read:
  assumes "c_numbers D N" and "\<not> ni_special N d"
  shows "number_form (number_text N d (dbl_saturate D d))"
    "ni_strtod N (number_text N d (dbl_saturate D d)) = (number_read D N d, length (number_text N d (dbl_saturate D d)))"
proof -
  note r = saturate_range [OF assms]
  have n: "number_form (ni_fmt15 N d)" "number_form (ni_fmt17 N d)" "snd (ni_strtod N (ni_fmt15 N d)) = length (ni_fmt15 N d)"
    "ni_strtod N (ni_fmt17 N d) = (d, length (ni_fmt17 N d))"
    "snd (ni_strtod N (c_dec (dbl_saturate D d))) = length (c_dec (dbl_saturate D d))"
    using c_numbersD [OF assms(1)] assms(2) r by blast+
  show "number_form (number_text N d (dbl_saturate D d))" using assms(2) n(1,2) dec_form [OF r] by (simp add: number_text_def Let_def split: option.split)
  have "snd (ni_strtod N (number_text N d (dbl_saturate D d))) = length (number_text N d (dbl_saturate D d))"
    using assms(2) n(3-5) by (simp add: number_text_def Let_def split: option.split)
  then show "ni_strtod N (number_text N d (dbl_saturate D d)) = (number_read D N d, length (number_text N d (dbl_saturate D d)))"
    by (simp add: number_read_def prod_eq_iff)
qed

lemma numbers_kept:
  assumes "c_numbers D N" and "\<not> ni_special N d"
  shows "number_kept D N d"
proof (cases "ni_eq_int N d (dbl_saturate D d)")
  case True
  have "ni_eq_int N (number_read D N d) (dbl_saturate D d)"
    using assms(2) True c_numbersD(2) [OF assms(1) saturate_range [OF assms]] by (simp add: number_read_def number_text_def)
  then show ?thesis using True saturate_int [OF assms(1) _ saturate_range [OF assms], of "number_read D N d"] by (simp add: number_kept_def Let_def)
next
  case False
  note c_numbersD(6,7) [OF assms]
  then have "number_read D N d = d \<or> compare_double N (number_read D N d) d"
    unfolding number_read_def number_text_def Let_def by (simp add: assms(2) False)
  then show ?thesis using False by (simp add: number_kept_def Let_def)
qed

text \<open>The value that is read from the text of a value: numbers as above, and \<^verbatim>\<open>null\<close> for one that is not finite.\<close>

fun reread :: "'d dbl_ops \<Rightarrow> 'd num_io \<Rightarrow> 'd json \<Rightarrow> 'd json" where
  "reread D N (JsNumber d) = (if ni_special N d then JsNull else JsNumber (number_read D N d))"
| "reread D N (JsArray vs) = JsArray (map (reread D N) vs)"
| "reread D N (JsObject kvs) = JsObject (map (\<lambda>(k, v). (k, reread D N v)) kvs)"
| "reread D N v = v"

text \<open>Strings and names are C strings.\<close>

fun c_strings :: "'d json \<Rightarrow> bool" where
  "c_strings JsNull \<longleftrightarrow> True"
| "c_strings (JsBool b) \<longleftrightarrow> True"
| "c_strings (JsNumber d) \<longleftrightarrow> True"
| "c_strings (JsString s) \<longleftrightarrow> nonul s"
| "c_strings (JsArray vs) \<longleftrightarrow> (\<forall>v \<in> set vs. c_strings v)"
| "c_strings (JsObject kvs) \<longleftrightarrow> (\<forall>(k, v) \<in> set kvs. nonul k \<and> c_strings v)"

lemma printable_value: "c_numbers D N \<Longrightarrow> c_strings v \<Longrightarrow> printable D N v"
proof (induction v rule: c_strings.induct)
  case (3 d)
  have nn: "number_form t \<Longrightarrow> nonul t" for t
    by (auto simp: number_form_def nonul_def list_all_iff num_char_def is_digit_def Let_def)
  show ?case
  proof (cases "ni_special N d")
    case True
    then show ?thesis by (simp add: number_text_def nonul_def)
  next
    case False
    then show ?thesis using number_text_read(1) [OF 3(1) False] nn by (simp add: number_form_def)
  qed
qed auto

lemma num_copy_text: "list_all num_char t \<Longrightarrow> follows u \<Longrightarrow> length t \<le> n \<Longrightarrow> num_copy n (t @ u) = t"
proof (induction t arbitrary: n)
  case Nil
  then show ?case by (cases u; cases n) (auto simp: follows_def)
next
  case (Cons c t)
  then show ?case by (cases n) auto
qed

lemma parse_number_text:
  assumes "hp_mem h item = Some c" and t: "number_form t" "ni_strtod N t = (d, length t)" and u: "follows u" and b: "remaining b = t @ u"
  shows "parse_number D N item h b = Some (True,
    h\<lparr>hp_mem := (hp_mem h)(item \<mapsto> c\<lparr>cj_valuedouble := d, cj_valueint := dbl_saturate D d, cj_type := cJSON_Number\<rparr>)\<rparr>, advance (length t) b)"
proof -
  have "num_copy 63 (drop (pb_offset b) (pb_content b)) = t"
    using num_copy_text [of t u 63] t(1) u b unfolding number_form_def remaining_def by simp
  then show ?thesis using assms(1) t by (auto simp: parse_number_def number_form_def Let_def h_modify_def)
qed

section \<open>Parsers that read texts\<close>

text \<open>\<open>pv\<close> reads the text \<open>t\<close> as the value \<open>v\<close>, at the depth \<open>d\<close>.\<close>

definition reads :: "'d dbl_ops \<Rightarrow> nat \<Rightarrow> 'd parser \<Rightarrow> 'd json \<Rightarrow> string \<Rightarrow> bool" where
  "reads D d pv v t \<longleftrightarrow> (\<forall>item h b c u. heap_ok h \<and> hp_mem h item = Some c \<and> hp_oom h = (\<lambda>_. False) \<and> cj_child c = None \<and>
     cj_type c AND cJSON_IsReference = 0 \<and> pb_depth b = d \<and> remaining b = t @ u \<and> follows u \<longrightarrow>
     (\<exists>h' c' ks. pv item h b = Some (True, h', advance (length t) b) \<and> grows (h\<lparr>hp_mem := (hp_mem h)(item \<mapsto> c')\<rparr>) h' (flat ks) \<and>
        linked (cj_child c') ks \<and> ring ks \<and> cj_type c' AND cJSON_IsReference = 0 \<and> node_is D v (JNode item c' ks) \<and>
        cj_next c' = cj_next c \<and> cj_prev c' = cj_prev c \<and> cj_string c' = cj_string c))"

lemma readsD:
  assumes "reads D d pv v t" and "heap_ok h" "hp_mem h item = Some c" "hp_oom h = (\<lambda>_. False)" "cj_child c = None" "cj_type c AND cJSON_IsReference = 0"
    "pb_depth b = d" "remaining b = t @ u" "follows u"
  obtains h' c' ks where "pv item h b = Some (True, h', advance (length t) b)" "grows (h\<lparr>hp_mem := (hp_mem h)(item \<mapsto> c')\<rparr>) h' (flat ks)"
    "linked (cj_child c') ks" "ring ks" "cj_type c' AND cJSON_IsReference = 0" "node_is D v (JNode item c' ks)"
    "cj_next c' = cj_next c" "cj_prev c' = cj_prev c" "cj_string c' = cj_string c"
  using assms unfolding reads_def by blast

text \<open>A round reads one item, after a bracket or a comma and before one of them.\<close>

definition stops :: "string \<Rightarrow> bool" where
  "stops u \<longleftrightarrow> u \<noteq> [] \<and> hd u \<in> {CHR '','', CHR '']'', CHR ''}''}"

definition round_reads ::
  "'d cjson heap \<Rightarrow> nat \<Rightarrow> ('x \<Rightarrow> 'd jnode \<Rightarrow> bool) \<Rightarrow> (ptr \<Rightarrow> ptr \<Rightarrow> 'd cjson heap \<Rightarrow> parse_buffer \<Rightarrow> 'd round_result) \<Rightarrow> 'x \<Rightarrow> string \<Rightarrow> bool" where
  "round_reads h0 d R round x t \<longleftrightarrow> (\<forall>head current h b ts xs w u. chain_at h0 h head current ts \<and> list_all2 R xs ts \<and> pb_depth b = d \<and>
     remaining b = w # t @ u \<and> stops u \<longrightarrow>
     (\<exists>head' current' h' ts'. round head current h b = Some (True, head', current', h', advance (Suc (length t)) b) \<and>
        chain_at h0 h' head' current' ts' \<and> list_all2 R (xs @ [x]) ts'))"

lemma round_reads_map: "round_reads h0 d R round (g x) t \<Longrightarrow> round_reads h0 d (\<lambda>y. R (g y)) round x t"
  unfolding round_reads_def list_all2_map1 [of R g, symmetric] map_append list.map by blast

lemma stops_follows: "stops u \<Longrightarrow> follows u"
  by (auto simp: stops_def follows_def num_char_def is_digit_def)

lemma stops_visible: "stops u \<Longrightarrow> \<exists>c v. u = c # v \<and> (of_char c :: nat) > 32"
  by (cases u) (auto simp: stops_def)

lemma parse_rounds_reads:
  assumes "\<forall>y \<in> set ys. round_reads h0 d R round y (f y)" and "ys \<noteq> []" and "chain_at h0 h head current ts" and "list_all2 R xs ts" and "pb_depth b = d"
    and "remaining b = w # commas (map f ys) @ z # u" and "z \<in> {CHR '']'', CHR ''}''}"
  shows "\<exists>head' current' h' ts'. parse_rounds round head current h b = Some (True, head', current', h', advance (Suc (length (commas (map f ys)))) b) \<and>
    chain_at h0 h' head' current' ts' \<and> list_all2 R (xs @ ys) ts'"
  using assms
proof (induction ys arbitrary: head current h b ts xs w)
  case (Cons y ys)
  show ?case
  proof (cases ys)
    case Nil
    have rem: "remaining b = w # f y @ z # u" using Cons.prems(6) Nil by simp
    have "stops (z # u)" using Cons.prems(7) by (auto simp: stops_def)
    then obtain head' current' h' ts' where r: "round head current h b = Some (True, head', current', h', advance (Suc (length (f y))) b)"
      "chain_at h0 h' head' current' ts'" "list_all2 R (xs @ [y]) ts'"
      using Cons.prems(1,3,4,5) rem unfolding round_reads_def by (metis list.set_intros(1))
    have "remaining (advance (Suc (length (f y))) b) = z # u" using rem by simp
    then have "\<not> buffer_next_is (advance (Suc (length (f y))) b) (CHR '','')" using next_is_remaining(1) Cons.prems(7) by auto
    then have "parse_rounds round head current h b = Some (True, head', current', h', advance (Suc (length (f y))) b)"
      using r(1) by (subst parse_rounds.simps) simp
    then show ?thesis using r(2,3) Nil by auto
  next
    case (Cons y' ys')
    note ys = this
    let ?u = "CHR '','' # commas (map f ys) @ z # u"
    have rem: "remaining b = w # f y @ ?u" using Cons.prems(6) ys by simp
    have "stops ?u" by (simp add: stops_def)
    then obtain head' current' h' ts' where r: "round head current h b = Some (True, head', current', h', advance (Suc (length (f y))) b)"
      "chain_at h0 h' head' current' ts'" "list_all2 R (xs @ [y]) ts'"
      using Cons.prems(1,3,4,5) rem unfolding round_reads_def by (metis list.set_intros(1))
    let ?b = "advance (Suc (length (f y))) b"
    have rem': "remaining ?b = ?u" using rem by simp
    have "parse_rounds round head current h b = parse_rounds round head' current' h' ?b"
      using r(1) next_is_remaining(1) [OF rem'] by (subst parse_rounds.simps) simp
    moreover have "advance (Suc (length (commas (map f ys)))) ?b = advance (Suc (length (commas (map f (y # ys))))) b"
      using ys by (simp add: advance_def)
    moreover have "\<exists>head'' current'' h'' ts''. parse_rounds round head' current' h' ?b =
        Some (True, head'', current'', h'', advance (Suc (length (commas (map f ys)))) ?b) \<and>
        chain_at h0 h'' head'' current'' ts'' \<and> list_all2 R ((xs @ [y]) @ ys) ts''"
      by (rule Cons.IH [OF _ _ r(2,3) _ rem']) (use Cons.prems ys in simp_all)
    ultimately show ?thesis by simp
  qed
qed simp

lemma list_all2_relink: "(\<And>x. ignores_links (R x)) \<Longrightarrow> list_all2 R xs (relink ts a) = list_all2 R xs ts"
  by (induction ts a arbitrary: xs rule: relink.induct) (auto simp: ignores_links_def list_all2_Cons2)

lemma chain_reads:
  assumes pv: "reads D d pv v t" and h0: "heap_ok h0" "hp_oom h0 = (\<lambda>_. False)"
    and ch: "chain_at h0 h head current (us @ [JNode a c []])" and c: "cj_child c = None" "cj_type c AND cJSON_IsReference = 0"
    and b: "pb_depth b = d" "remaining b = t @ u" "follows u"
  shows "\<exists>h' c' ks. pv a h b = Some (True, h', advance (length t) b) \<and> chain_at h0 h' head current (us @ [JNode a c' ks]) \<and>
    node_is D v (JNode a c' ks) \<and> cj_string c' = cj_string c"
proof -
  have oom: "hp_oom h = (\<lambda>_. False)" using ch growsD(2) h0(2) unfolding chain_at_def by fastforce
  obtain h' c' ks where k: "pv a h b = Some (True, h', advance (length t) b)" "grows (h\<lparr>hp_mem := (hp_mem h)(a \<mapsto> c')\<rparr>) h' (flat ks)"
    "linked (cj_child c') ks" "ring ks" "cj_type c' AND cJSON_IsReference = 0" "node_is D v (JNode a c' ks)"
    "cj_next c' = cj_next c" "cj_prev c' = cj_prev c" "cj_string c' = cj_string c"
    by (rule readsD [OF pv chain_cell [OF ch] oom c b])
  show ?thesis using chain_fill [OF ch h0(1) k(2) k(7,5,3,4)] k(1,6,9) by blast
qed

lemma new_item:
  assumes "chain_at h0 h head current ts" and "hp_oom h0 = (\<lambda>_. False)"
  shows "\<exists>a h1 head1 h2. cJSON_New_Item D h = (Some a, h1) \<and> attach_item head current a h1 = Some (head1, h2) \<and>
    chain_at h0 h2 head1 (Some a) (relink ts a @ [JNode a ((zero_item D)\<lparr>cj_prev := current\<rparr>) []])"
proof -
  have "hp_oom h = (\<lambda>_. False)" using assms growsD(2) unfolding chain_at_def by fastforce
  then obtain a h1 where "h_alloc h (zero_item D) = (Some a, h1)" by (simp add: h_alloc_def)
  then show ?thesis using chain_attach [OF assms(1) _ new_item_zero(1-4)] unfolding cJSON_New_Item_def by blast
qed

lemma node_ignores_links: "ignores_links (node_is D v)"
proof -
  have "node_is D v (JNode a (c\<lparr>cj_next := q\<rparr>) ks) = node_is D v (JNode a c ks)" "node_is D v (JNode a (c\<lparr>cj_prev := q\<rparr>) ks) = node_is D v (JNode a c ks)" for a c ks q
    by (rule node_is_links; simp)+
  then show ?thesis by (simp add: ignores_links_def)
qed

lemma parse_element_reads:
  assumes pv: "reads D d pv v t" and t: "\<exists>c t'. t = c # t' \<and> (of_char c :: nat) > 32" and h0: "heap_ok h0" "hp_oom h0 = (\<lambda>_. False)"
  shows "round_reads h0 d (node_is D) (parse_element D pv) v t"
  unfolding round_reads_def
proof (intro allI impI, elim conjE)
  fix head current h ts vs w u and b :: parse_buffer
  assume ch: "chain_at h0 h head current ts" "list_all2 (node_is D) vs ts" and b: "pb_depth b = d" "remaining b = w # t @ u" "stops u"
  obtain a h1 head1 h2 where n: "cJSON_New_Item D h = (Some a, h1)" "attach_item head current a h1 = Some (head1, h2)"
    "chain_at h0 h2 head1 (Some a) (relink ts a @ [JNode a ((zero_item D)\<lparr>cj_prev := current\<rparr>) []])"
    using new_item [OF ch(1) h0(2)] by blast
  have rem: "remaining (advance 1 b) = t @ u" using b(2) by simp
  then have sk: "buffer_skip_whitespace (advance 1 b) = advance 1 b" using t skip_nothing by auto
  obtain h' c' ks where r: "pv a h2 (advance 1 b) = Some (True, h', advance (length t) (advance 1 b))"
    "chain_at h0 h' head1 (Some a) (relink ts a @ [JNode a c' ks])" "node_is D v (JNode a c' ks)"
    using chain_reads [OF pv h0 n(3) _ _ _ rem stops_follows [OF b(3)]] b(1) by (auto simp: new_item_zero)
  have adv: "advance (length t) (advance 1 b) = advance (Suc (length t)) b" by (simp add: advance_def)
  obtain x u' where "u = x # u'" "(of_char x :: nat) > 32" using stops_visible [OF b(3)] by blast
  then have "buffer_skip_whitespace (advance (Suc (length t)) b) = advance (Suc (length t)) b" using b(2) by (intro skip_nothing) simp_all
  then have "parse_element D pv head current h b = Some (True, head1, Some a, h', advance (Suc (length t)) b)"
    using n(1,2) r(1) sk unfolding adv by (simp add: parse_element_def)
  moreover have "list_all2 (node_is D) (vs @ [v]) (relink ts a @ [JNode a c' ks])"
    using ch(2) r(3) by (simp add: list_all2_appendI list_all2_relink [OF node_ignores_links])
  ultimately show "\<exists>head' current' h' ts'. parse_element D pv head current h b = Some (True, head', current', h', advance (Suc (length t)) b) \<and>
      chain_at h0 h' head' current' ts' \<and> list_all2 (node_is D) (vs @ [v]) ts'" using r(2) by blast
qed

text \<open>The text of a member of an object, and what a node must be for it.\<close>

definition member_text :: "('d json \<Rightarrow> string) \<Rightarrow> string \<times> 'd json \<Rightarrow> string" where
  "member_text f kv = string_text (fst kv) @ '':'' @ f (snd kv)"

definition member_is :: "'d dbl_ops \<Rightarrow> string \<times> 'd json \<Rightarrow> 'd jnode \<Rightarrow> bool" where
  "member_is D kv t \<longleftrightarrow> cj_string (node_cell t) = Some (fst kv) \<and> node_is D (snd kv) t"

lemma member_ignores_links: "ignores_links (member_is D kv)"
  using node_ignores_links [of D "snd kv"] unfolding ignores_links_def member_is_def by simp

lemma parse_member_reads:
  assumes pv: "reads D d pv v t" and t: "\<exists>c t'. t = c # t' \<and> (of_char c :: nat) > 32" and k: "nonul k" and h0: "heap_ok h0" "hp_oom h0 = (\<lambda>_. False)"
  shows "round_reads h0 d (member_is D) (parse_member D pv) (k, v) (string_text k @ '':'' @ t)"
  unfolding round_reads_def
proof (intro allI impI, elim conjE)
  fix head current h ts kvs w u and b :: parse_buffer
  assume ch: "chain_at h0 h head current ts" "list_all2 (member_is D) kvs ts" and b: "pb_depth b = d" "remaining b = w # (string_text k @ '':'' @ t) @ u" "stops u"
  let ?n = "(zero_item D)\<lparr>cj_prev := current\<rparr>" and ?us = "\<lambda>a. relink ts a" and ?b1 = "advance 1 b" and ?b2 = "advance (length (string_text k)) (advance 1 b)"
  obtain a h1 head1 h2 where n: "cJSON_New_Item D h = (Some a, h1)" "attach_item head current a h1 = Some (head1, h2)"
    "chain_at h0 h2 head1 (Some a) (relink ts a @ [JNode a ?n []])"
    using new_item [OF ch(1) h0(2)] by blast
  note c2 = chain_cell [OF n(3)]
  have oom: "hp_oom h2 = (\<lambda>_. False)" using n(3) growsD(2) h0(2) unfolding chain_at_def by fastforce
  have rem1: "remaining ?b1 = string_text k @ CHR '':'' # t @ u" using b(2) by simp
  then have q: "remaining ?b1 = CHR 0x22 # concat (map escaped k) @ [CHR 0x22] @ CHR '':'' # t @ u" by (simp add: string_text_def)
  have sk1: "buffer_skip_whitespace ?b1 = ?b1" by (rule skip_nothing [OF q]) simp
  have acc: "can_access_at_index b 1" using next_is_remaining(2) [OF q] by (simp add: can_access_at_index_def advance_def)
  obtain h3 where r: "parse_string a h2 ?b1 = Some (True, h3, ?b2)" "heap_ok h3" "hp_oom h3 = hp_oom h2" "hp_brk h2 \<le> hp_brk h3"
    "hp_mem h3 = (hp_mem h2)(a \<mapsto> ?n\<lparr>cj_type := cJSON_String, cj_valuestring := Some k\<rparr>)"
    using parse_string_text [OF c2 oom rem1 k] by blast
  let ?c = "?n\<lparr>cj_type := cJSON_String, cj_string := Some k, cj_valuestring := None\<rparr>"
  let ?h4 = "h3\<lparr>hp_mem := (hp_mem h3)(a \<mapsto> ?c)\<rparr>"
  have mod: "h_modify h3 a (\<lambda>c. c\<lparr>cj_string := cj_valuestring c, cj_valuestring := None\<rparr>) = Some ?h4"
    using r(5) by (simp add: h_modify_def)
  have ch4: "chain_at h0 ?h4 head1 (Some a) (relink ts a @ [JNode a ?c []])"
    by (rule chain_set [OF n(3) h0(1) heap_ok_modify [OF r(2) mod]]) (use r in \<open>simp_all add: new_item_zero cJSON_String_def cJSON_IsReference_def\<close>)
  have rem2: "remaining ?b2 = CHR '':'' # t @ u" using rem1 by simp
  have sk2: "buffer_skip_whitespace ?b2 = ?b2" by (rule skip_nothing [OF rem2]) simp
  have rem3: "remaining (advance 1 ?b2) = t @ u" using rem2 by simp
  then have sk3: "buffer_skip_whitespace (advance 1 ?b2) = advance 1 ?b2" using t skip_nothing by auto
  obtain h5 c' ks where r5: "pv a ?h4 (advance 1 ?b2) = Some (True, h5, advance (length t) (advance 1 ?b2))"
    "chain_at h0 h5 head1 (Some a) (relink ts a @ [JNode a c' ks])" "node_is D v (JNode a c' ks)" "cj_string c' = cj_string ?c"
    using chain_reads [OF pv h0 ch4 _ _ _ rem3 stops_follows [OF b(3)]] b(1)
    by (auto simp: new_item_zero cJSON_String_def cJSON_IsReference_def)
  let ?b5 = "advance (Suc (length (string_text k @ '':'' @ t))) b"
  have adv: "advance (length t) (advance 1 ?b2) = ?b5" by (simp add: advance_def)
  obtain x u' where "u = x # u'" "(of_char x :: nat) > 32" using stops_visible [OF b(3)] by blast
  then have "buffer_skip_whitespace ?b5 = ?b5" using b(2) by (intro skip_nothing) simp_all
  then have "parse_member D pv head current h b = Some (True, head1, Some a, h5, ?b5)"
    using n(1,2) acc r(1) mod next_is_remaining(1) [OF rem2] r5(1) sk1 sk2 sk3 unfolding adv parse_member_def by (simp only: prod.case option.case Let_def not_not bind.bind_lunit if_True if_False simp_thms)
  moreover have "list_all2 (member_is D) (kvs @ [(k, v)]) (relink ts a @ [JNode a c' ks])"
    using ch(2) r5(3,4) by (simp add: list_all2_appendI list_all2_relink [OF member_ignores_links] member_is_def)
  ultimately show "\<exists>head' current' h' ts'. parse_member D pv head current h b = Some (True, head', current', h', ?b5) \<and>
      chain_at h0 h' head' current' ts' \<and> list_all2 (member_is D) (kvs @ [(k, v)]) ts'" using r5(2) by blast
qed

section \<open>Arrays, objects, values\<close>

definition visible :: "char \<Rightarrow> string \<Rightarrow> bool" where
  "visible z t \<longleftrightarrow> (\<exists>c t'. t = c # t' \<and> (of_char c :: nat) > 32 \<and> c \<noteq> z)"

lemma visible_append: "visible z t \<Longrightarrow> visible z (t @ u)"
  by (auto simp: visible_def)

lemma parse_body_reads:
  assumes h: "heap_ok h" "hp_mem h item = Some c" "hp_oom h = (\<lambda>_. False)"
    and b: "remaining b = w # commas (map f ys) @ z # u" and z: "z \<in> {CHR '']'', CHR ''}''}"
    and ys: "\<forall>y \<in> set ys. round_reads h (pb_depth b) R round y (f y) \<and> visible z (f y)" and R: "\<And>y. ignores_links (R y)"
  shows "\<exists>h' head ts'. (if buffer_next_is (advance 1 b) z then parse_success t item None None h (advance 1 b)
       else if \<not> can_access_at_index (advance 1 b) 0 then Some (False, h, step_back (advance 1 b))
       else do {
         (parsed, head, current, h1, b2) \<leftarrow> parse_rounds round None None h (step_back (advance 1 b));
         (if parsed \<and> buffer_next_is b2 z then parse_success t item head current h1 b2 else parse_fail head h1 b2)
       }) = Some (True, h', advance (length (commas (map f ys)) + 2) (b\<lparr>pb_depth := pb_depth b - 1\<rparr>)) \<and>
     grows (h\<lparr>hp_mem := (hp_mem h)(item \<mapsto> c\<lparr>cj_type := t, cj_child := head\<rparr>)\<rparr>) h' (flat ts') \<and> linked head ts' \<and> ring ts' \<and> list_all2 R ys ts'"
proof -
  have Q: "\<forall>a e ks us q. list_all2 R ys (JNode a e ks # us) \<longrightarrow> list_all2 R ys (JNode a (e\<lparr>cj_prev := q\<rparr>) ks # us)"
    using R by (auto simp: ignores_links_def list_all2_Cons2)
  show ?thesis
  proof (cases "ys = []")
    case True
    then have "remaining (advance 1 b) = z # u" using b by simp
    then have "buffer_next_is (advance 1 b) z" using next_is_remaining(1) by simp
    moreover have "advance 1 ((advance 1 b)\<lparr>pb_depth := pb_depth (advance 1 b) - 1\<rparr>) = advance (length (commas (map f ys)) + 2) (b\<lparr>pb_depth := pb_depth b - 1\<rparr>)"
      using True by (simp add: advance_def)
    moreover have "list_all2 R ys []" using True by simp
    ultimately show ?thesis using parse_success_tree [OF chain_start [OF h(1)] h(1,2) Q, of t "advance 1 b"] by auto
  next
    case False
    have "visible z (commas (map f ys))" using ys False by (cases ys rule: remdups_adj.cases) (auto simp: visible_append)
    then obtain x t' where x: "commas (map f ys) = x # t'" "x \<noteq> z" by (auto simp: visible_def)
    have rem1: "remaining (advance 1 b) = x # t' @ z # u" using b x(1) by simp
    note next1 = next_is_remaining [OF rem1]
    have sb: "step_back (advance 1 b) = b" by (simp add: step_back_def advance_def)
    let ?b2 = "advance (Suc (length (commas (map f ys)))) b"
    obtain head current h1 ts where r: "parse_rounds round None None h b = Some (True, head, current, h1, ?b2)" "chain_at h h1 head current ts" "list_all2 R ys ts"
      using parse_rounds_reads [where ts = "[]" and xs = "[]", OF _ False chain_start [OF h(1)] _ refl b z, of R round] ys by auto
    have rem2: "remaining ?b2 = z # u" using b by simp
    obtain h' ts' where ok: "parse_success t item head current h1 ?b2 = Some (True, h', advance 1 (?b2\<lparr>pb_depth := pb_depth ?b2 - 1\<rparr>))"
      "grows (h\<lparr>hp_mem := (hp_mem h)(item \<mapsto> c\<lparr>cj_type := t, cj_child := head\<rparr>)\<rparr>) h' (flat ts')" "linked head ts'" "ring ts'" "list_all2 R ys ts'"
      using parse_success_tree [OF r(2) h(1,2) Q r(3)] by blast
    moreover have "advance 1 (?b2\<lparr>pb_depth := pb_depth ?b2 - 1\<rparr>) = advance (length (commas (map f ys)) + 2) (b\<lparr>pb_depth := pb_depth b - 1\<rparr>)"
      by (simp add: advance_def)
    ultimately show ?thesis using next1 x(2) r(1) next_is_remaining(1) [OF rem2] unfolding sb by auto
  qed
qed

lemma closing: "CHR '']'' \<in> {CHR '']'', CHR ''}''}" "CHR ''}'' \<in> {CHR '']'', CHR ''}''}"
  by simp_all

lemma parse_array_reads:
  fixes D :: "'d dbl_ops"
  assumes pv: "\<forall>v \<in> set vs. reads D (Suc d) pv (g v) (f v) \<and> visible (CHR '']'') (f v)" and d: "d < CJSON_NESTING_LIMIT"
  shows "reads D d (parse_array D pv) (JsArray (map g vs)) (''['' @ commas (map f vs) @ '']'')"
  unfolding reads_def
proof (intro allI impI, elim conjE)
  fix item h u and c :: "'d cjson" and b :: parse_buffer
  assume h: "heap_ok h" "hp_mem h item = Some c" "hp_oom h = (\<lambda>_. False)" and c: "cj_child c = None" "cj_type c AND cJSON_IsReference = 0"
    and b: "pb_depth b = d" "remaining b = (''['' @ commas (map f vs) @ '']'') @ u"
  let ?b = "b\<lparr>pb_depth := pb_depth b + 1\<rparr>"
  have rem: "remaining ?b = CHR ''['' # commas (map f vs) @ CHR '']'' # u" using b(2) by simp
  have ys: "\<forall>v \<in> set vs. round_reads h (pb_depth ?b) (\<lambda>v. node_is D (g v)) (parse_element D pv) v (f v) \<and> visible (CHR '']'') (f v)"
  proof
    fix v assume v: "v \<in> set vs"
    have "reads D (pb_depth ?b) pv (g v) (f v)" "\<exists>c t'. f v = c # t' \<and> (of_char c :: nat) > 32" "visible (CHR '']'') (f v)"
      using pv v b(1) by (auto simp: visible_def)
    with round_reads_map [of h _ "node_is D" _ g v] parse_element_reads [OF this(1,2) h(1,3)]
    show "round_reads h (pb_depth ?b) (\<lambda>v. node_is D (g v)) (parse_element D pv) v (f v) \<and> visible (CHR '']'') (f v)" by blast
  qed
  obtain y r where "commas (map f vs) @ CHR '']'' # u = y # r" "(of_char y :: nat) > 32"
  proof (cases vs rule: remdups_adj.cases)
    case 1
    then show thesis by (intro that [of "CHR '']''" u]) simp_all
  qed (use pv that in \<open>fastforce simp: visible_def\<close>)+
  then have sk: "buffer_skip_whitespace (advance 1 ?b) = advance 1 ?b" using rem by (intro skip_nothing) simp_all
  obtain h' head ts' where r: "(if buffer_next_is (advance 1 ?b) (CHR '']'') then parse_success cJSON_Array item None None h (advance 1 ?b)
       else if \<not> can_access_at_index (advance 1 ?b) 0 then Some (False, h, step_back (advance 1 ?b))
       else do {
         (parsed, head, current, h1, b2) \<leftarrow> parse_rounds (parse_element D pv) None None h (step_back (advance 1 ?b));
         (if parsed \<and> buffer_next_is b2 (CHR '']'') then parse_success cJSON_Array item head current h1 b2 else parse_fail head h1 b2)
       }) = Some (True, h', advance (length (commas (map f vs)) + 2) (?b\<lparr>pb_depth := pb_depth ?b - 1\<rparr>))"
    "grows (h\<lparr>hp_mem := (hp_mem h)(item \<mapsto> c\<lparr>cj_type := cJSON_Array, cj_child := head\<rparr>)\<rparr>) h' (flat ts')" "linked head ts'" "ring ts'" "list_all2 (node_is D) (map g vs) ts'"
    using parse_body_reads [OF h rem closing(1) ys node_ignores_links, of cJSON_Array] by (elim exE conjE) (rule that, assumption, assumption, assumption, assumption, simp only: list_all2_map1)
  have adv: "advance (length (commas (map f vs)) + 2) (?b\<lparr>pb_depth := pb_depth ?b - 1\<rparr>) = advance (length (''['' @ commas (map f vs) @ '']'')) b"
    by (simp add: advance_def)
  have shallow: "(pb_depth b \<ge> CJSON_NESTING_LIMIT) = False" using d b(1) by simp
  have "parse_array D pv item h b = Some (True, h', advance (length (''['' @ commas (map f vs) @ '']'')) b)"
    using r(1) by (simp only: parse_array_def shallow next_is_remaining(3) [OF rem] sk adv Let_def if_False bind.bind_lunit simp_thms)
  then show "\<exists>h' c' ks. parse_array D pv item h b = Some (True, h', advance (length (''['' @ commas (map f vs) @ '']'')) b) \<and>
      grows (h\<lparr>hp_mem := (hp_mem h)(item \<mapsto> c')\<rparr>) h' (flat ks) \<and> linked (cj_child c') ks \<and> ring ks \<and> cj_type c' AND cJSON_IsReference = 0 \<and>
      node_is D (JsArray (map g vs)) (JNode item c' ks) \<and> cj_next c' = cj_next c \<and> cj_prev c' = cj_prev c \<and> cj_string c' = cj_string c"
    using r(2-5) by (intro exI [of _ h'] exI [of _ "c\<lparr>cj_type := cJSON_Array, cj_child := head\<rparr>"] exI [of _ ts'])
      (simp add: nodes_are_iff cJSON_Array_def cJSON_IsReference_def)
qed

lemma parse_object_reads:
  fixes D :: "'d dbl_ops"
  assumes pv: "\<forall>(k, v) \<in> set kvs. nonul k \<and> reads D (Suc d) pv (g v) (f v) \<and> visible (CHR ''}'') (f v)" and d: "d < CJSON_NESTING_LIMIT"
  shows "reads D d (parse_object D pv) (JsObject (map (\<lambda>(k, v). (k, g v)) kvs)) (''{'' @ commas (map (member_text f) kvs) @ ''}'')"
  unfolding reads_def
proof (intro allI impI, elim conjE)
  fix item h u and c :: "'d cjson" and b :: parse_buffer
  assume h: "heap_ok h" "hp_mem h item = Some c" "hp_oom h = (\<lambda>_. False)" and c: "cj_child c = None" "cj_type c AND cJSON_IsReference = 0"
    and b: "pb_depth b = d" "remaining b = (''{'' @ commas (map (member_text f) kvs) @ ''}'') @ u"
  let ?b = "b\<lparr>pb_depth := pb_depth b + 1\<rparr>"
  have rem: "remaining ?b = CHR ''{'' # commas (map (member_text f) kvs) @ CHR ''}'' # u" using b(2) by simp
  have vis: "visible (CHR ''}'') (member_text f kv)" for kv by (simp add: visible_def member_text_def string_text_def)
  let ?g = "\<lambda>(k, v). (k, g v)"
  have ys: "\<forall>kv \<in> set kvs. round_reads h (pb_depth ?b) (\<lambda>kv. member_is D (?g kv)) (parse_member D pv) kv (member_text f kv) \<and> visible (CHR ''}'') (member_text f kv)"
  proof
    fix kv assume kv: "kv \<in> set kvs"
    obtain k v where k: "kv = (k, v)" by (cases kv)
    have "reads D (pb_depth ?b) pv (g v) (f v)" "\<exists>c t'. f v = c # t' \<and> (of_char c :: nat) > 32" "nonul k"
      using pv kv k b(1) by (auto simp: visible_def)
    from parse_member_reads [OF this h(1,3)]
    have "round_reads h (pb_depth ?b) (member_is D) (parse_member D pv) (?g kv) (member_text f kv)" by (simp add: k member_text_def)
    then show "round_reads h (pb_depth ?b) (\<lambda>kv. member_is D (?g kv)) (parse_member D pv) kv (member_text f kv) \<and> visible (CHR ''}'') (member_text f kv)"
      using vis [of kv] round_reads_map [of h _ "member_is D" _ ?g] by blast
  qed
  obtain y r where "commas (map (member_text f) kvs) @ CHR ''}'' # u = y # r" "(of_char y :: nat) > 32"
  proof (cases kvs rule: remdups_adj.cases)
    case 1
    then show thesis by (intro that [of "CHR ''}''" u]) simp_all
  qed (use vis that in \<open>fastforce simp: member_text_def string_text_def\<close>)+
  then have sk: "buffer_skip_whitespace (advance 1 ?b) = advance 1 ?b" using rem by (intro skip_nothing) simp_all
  obtain h' head ts' where r: "(if buffer_next_is (advance 1 ?b) (CHR ''}'') then parse_success cJSON_Object item None None h (advance 1 ?b)
       else if \<not> can_access_at_index (advance 1 ?b) 0 then Some (False, h, step_back (advance 1 ?b))
       else do {
         (parsed, head, current, h1, b2) \<leftarrow> parse_rounds (parse_member D pv) None None h (step_back (advance 1 ?b));
         (if parsed \<and> buffer_next_is b2 (CHR ''}'') then parse_success cJSON_Object item head current h1 b2 else parse_fail head h1 b2)
       }) = Some (True, h', advance (length (commas (map (member_text f) kvs)) + 2) (?b\<lparr>pb_depth := pb_depth ?b - 1\<rparr>))"
    "grows (h\<lparr>hp_mem := (hp_mem h)(item \<mapsto> c\<lparr>cj_type := cJSON_Object, cj_child := head\<rparr>)\<rparr>) h' (flat ts')" "linked head ts'" "ring ts'" "list_all2 (member_is D) (map ?g kvs) ts'"
    using parse_body_reads [OF h rem closing(2) ys member_ignores_links, of cJSON_Object] by (elim exE conjE) (rule that, assumption, assumption, assumption, assumption, simp only: list_all2_map1)
  have adv: "advance (length (commas (map (member_text f) kvs)) + 2) (?b\<lparr>pb_depth := pb_depth ?b - 1\<rparr>) = advance (length (''{'' @ commas (map (member_text f) kvs) @ ''}'')) b"
    by (simp add: advance_def)
  have shallow: "(pb_depth b \<ge> CJSON_NESTING_LIMIT) = False" "buffer_next_is ?b (CHR ''{'') = True" using d b(1) next_is_remaining(1) [OF rem] by simp_all
  have "parse_object D pv item h b = Some (True, h', advance (length (''{'' @ commas (map (member_text f) kvs) @ ''}'')) b)"
    using r(1) by (simp only: parse_object_def shallow sk adv Let_def if_False simp_thms)
  moreover have "member_is D = (\<lambda>(k, v) t. cj_string (node_cell t) = Some k \<and> node_is D v t)" by (auto simp: fun_eq_iff member_is_def)
  then have "members_are D (map ?g kvs) ts'" using r(5) by (simp add: members_are_iff)
  ultimately show "\<exists>h' c' ks. parse_object D pv item h b = Some (True, h', advance (length (''{'' @ commas (map (member_text f) kvs) @ ''}'')) b) \<and>
      grows (h\<lparr>hp_mem := (hp_mem h)(item \<mapsto> c')\<rparr>) h' (flat ks) \<and> linked (cj_child c') ks \<and> ring ks \<and> cj_type c' AND cJSON_IsReference = 0 \<and>
      node_is D (JsObject (map ?g kvs)) (JNode item c' ks) \<and> cj_next c' = cj_next c \<and> cj_prev c' = cj_prev c \<and> cj_string c' = cj_string c"
    using r(2-4) by (intro exI [of _ h'] exI [of _ "c\<lparr>cj_type := cJSON_Object, cj_child := head\<rparr>"] exI [of _ ts'])
      (simp add: cJSON_Object_def cJSON_IsReference_def)
qed

lemma json_text_visible:
  assumes "c_numbers D N" and "z \<in> {CHR '']'', CHR ''}'', CHR 0xEF}"
  shows "visible z (json_text D N v)"
proof (cases v)
  case (JsNumber d)
  show ?thesis
  proof (cases "ni_special N d")
    case True
    then show ?thesis using JsNumber assms(2) by (auto simp: number_text_def visible_def)
  next
    case False
    obtain c t where t: "number_text N d (dbl_saturate D d) = c # t" "c = CHR ''-'' \<or> is_digit c"
      using number_text_read(1) [OF assms(1) False] by (cases "number_text N d (dbl_saturate D d)") (auto simp: number_form_def)
    then have "(of_char c :: nat) > 32" "c \<noteq> z" using assms(2) by (auto simp: is_digit_def Let_def)
    then show ?thesis using JsNumber t(1) by (auto simp: visible_def)
  qed
qed (use assms(2) in \<open>auto simp: visible_def string_text_def\<close>)

lemma parse_literal_reads:
  assumes "\<And>c. f c = c\<lparr>cj_type := t\<rparr> \<or> f c = c\<lparr>cj_type := t, cj_valueint := 1\<rparr>" and "t AND cJSON_IsReference = 0"
    and "\<And>a c. cj_type c = t \<Longrightarrow> node_is D v (JNode a c [])"
  shows "heap_ok h \<Longrightarrow> hp_mem h item = Some c \<Longrightarrow> cj_child c = None \<Longrightarrow>
    \<exists>h' c' ks. do { h1 \<leftarrow> h_modify h item f; Some (True, h1, advance n b) } = Some (True, h', advance n b) \<and>
      grows (h\<lparr>hp_mem := (hp_mem h)(item \<mapsto> c')\<rparr>) h' (flat ks) \<and> linked (cj_child c') ks \<and> ring ks \<and> cj_type c' AND cJSON_IsReference = 0 \<and>
      node_is D v (JNode item c' ks) \<and> cj_next c' = cj_next c \<and> cj_prev c' = cj_prev c \<and> cj_string c' = cj_string c"
proof -
  assume h: "heap_ok h" "hp_mem h item = Some c" "cj_child c = None"
  have m: "h_modify h item f = Some (h\<lparr>hp_mem := (hp_mem h)(item \<mapsto> f c)\<rparr>)" using h(2) by (simp add: h_modify_def)
  have "cj_type (f c) = t" "cj_child (f c) = None" "cj_next (f c) = cj_next c" "cj_prev (f c) = cj_prev c" "cj_string (f c) = cj_string c"
    using assms(1) [of c] h(3) by auto
  then show ?thesis using m assms(2) assms(3) [of "f c" item] heap_ok_modify [OF h(1) m]
    by (intro exI [of _ "h\<lparr>hp_mem := (hp_mem h)(item \<mapsto> f c)\<rparr>"] exI [of _ "f c"] exI [of _ "[]"]) (simp add: grows_nothing ring_def)
qed

lemma parse_value_reads:
  assumes "c_strings v" and "c_numbers D N" and "nesting v < fuel" and "d + nesting v \<le> CJSON_NESTING_LIMIT"
  shows "reads D d (parse_value fuel D N) (reread D N v) (json_text D N v)"
  using assms
proof (induction fuel arbitrary: v d)
  case (Suc fuel)
  show ?case
    unfolding reads_def
  proof (intro allI impI, elim conjE)
    fix item h u and c :: "'a cjson" and b :: parse_buffer
    assume h: "heap_ok h" "hp_mem h item = Some c" "hp_oom h = (\<lambda>_. False)" and c: "cj_child c = None" "cj_type c AND cJSON_IsReference = 0"
      and b: "pb_depth b = d" "remaining b = json_text D N v @ u" "follows u"
    let ?ok = "\<lambda>x. \<exists>h' c' ks. x = Some (True, h', advance (length (json_text D N v)) b) \<and>
      grows (h\<lparr>hp_mem := (hp_mem h)(item \<mapsto> c')\<rparr>) h' (flat ks) \<and> linked (cj_child c') ks \<and> ring ks \<and> cj_type c' AND cJSON_IsReference = 0 \<and>
      node_is D (reread D N v) (JNode item c' ks) \<and> cj_next c' = cj_next c \<and> cj_prev c' = cj_prev c \<and> cj_string c' = cj_string c"
    have lit: "\<not> buffer_has b ''null'' \<and> \<not> buffer_has b ''false'' \<and> \<not> buffer_has b ''true''"
      if "remaining b = x # w" "x \<notin> {CHR ''n'', CHR ''f'', CHR ''t''}" for x w
      using that has_other [OF that(1)] by auto
    note first = next_is_remaining
    have null: "?ok (parse_value (Suc fuel) D N item h b)" if v: "json_text D N v = ''null''" "reread D N v = JsNull"
    proof -
      have "buffer_has b ''null''" using b(2) v(1) by (simp add: has_remaining)
      moreover have "?ok (do { h1 \<leftarrow> h_modify h item (\<lambda>c. c\<lparr>cj_type := cJSON_NULL\<rparr>); Some (True, h1, advance (length (json_text D N v)) b) })"
        by (rule parse_literal_reads [OF _ _ _ h(1,2) c(1), where t = cJSON_NULL]) (simp_all add: v cJSON_NULL_def cJSON_IsReference_def)
      ultimately show ?thesis by (simp add: v eval_nat_numeral)
    qed
    show "?ok (parse_value (Suc fuel) D N item h b)"
    proof (cases v)
      case JsNull
      then show ?thesis by (intro null) simp_all
    next
      case (JsBool x)
      show ?thesis
      proof (cases x)
        case True
        then have "buffer_has b ''true''" "\<not> buffer_has b ''null''" "\<not> buffer_has b ''false''" using b(2) JsBool by (simp_all add: has_remaining)
        moreover have "?ok (do { h1 \<leftarrow> h_modify h item (\<lambda>c. c\<lparr>cj_type := cJSON_True, cj_valueint := 1\<rparr>); Some (True, h1, advance (length (json_text D N v)) b) })"
          by (rule parse_literal_reads [OF _ _ _ h(1,2) c(1), where t = cJSON_True]) (simp_all add: JsBool True cJSON_True_def cJSON_IsReference_def)
        ultimately show ?thesis by (simp add: JsBool True eval_nat_numeral)
      next
        case False
        then have "buffer_has b ''false''" "\<not> buffer_has b ''null''" using b(2) JsBool by (simp_all add: has_remaining)
        moreover have "?ok (do { h1 \<leftarrow> h_modify h item (\<lambda>c. c\<lparr>cj_type := cJSON_False\<rparr>); Some (True, h1, advance (length (json_text D N v)) b) })"
          by (rule parse_literal_reads [OF _ _ _ h(1,2) c(1), where t = cJSON_False]) (simp_all add: JsBool False cJSON_False_def cJSON_IsReference_def)
        ultimately show ?thesis by (simp add: JsBool False eval_nat_numeral)
      qed
    next
      case (JsNumber x)
      show ?thesis
      proof (cases "ni_special N x")
      case True
      then show ?thesis using JsNumber by (intro null) (simp_all add: number_text_def)
      next
      case False
      let ?t = "number_text N x (dbl_saturate D x)" and ?x = "number_read D N x"
      note x = number_text_read [OF Suc.prems(2) False]
      then obtain y w where y: "?t = y # w" "y = CHR ''-'' \<or> is_digit y" by (cases ?t) (auto simp: number_form_def)
      have rem: "remaining b = y # w @ u" using b(2) JsNumber y(1) by simp
      have "y \<notin> {CHR ''n'', CHR ''f'', CHR ''t'', CHR 0x22}" using y(2) by (auto simp: is_digit_def Let_def)
      then have eq: "parse_value (Suc fuel) D N item h b = parse_number D N item h b"
        using lit [OF rem] first [OF rem] y(2) by (auto simp: starts_number_def)
      let ?c = "c\<lparr>cj_valuedouble := ?x, cj_valueint := dbl_saturate D ?x, cj_type := cJSON_Number\<rparr>"
      have "parse_number D N item h b = Some (True, h\<lparr>hp_mem := (hp_mem h)(item \<mapsto> ?c)\<rparr>, advance (length ?t) b)"
        using parse_number_text [OF h(2) x b(3)] b(2) JsNumber by simp
      moreover have "heap_ok (h\<lparr>hp_mem := (hp_mem h)(item \<mapsto> ?c)\<rparr>)" using h(1,2) by (auto simp: heap_ok_def)
      ultimately show ?thesis unfolding eq using JsNumber False c(1)
        by (intro exI [of _ "h\<lparr>hp_mem := (hp_mem h)(item \<mapsto> ?c)\<rparr>"] exI [of _ ?c] exI [of _ "[]"])
          (simp add: grows_nothing ring_def cJSON_Number_def cJSON_IsReference_def)
      qed
    next
      case (JsString t)
      have rem: "remaining b = CHR 0x22 # concat (map escaped t) @ [CHR 0x22] @ u" using b(2) JsString by (simp add: string_text_def)
      have eq: "parse_value (Suc fuel) D N item h b = parse_string item h b" using lit [OF rem] first [OF rem] by simp
      let ?c = "c\<lparr>cj_type := cJSON_String, cj_valuestring := Some t\<rparr>"
      obtain h' where r: "parse_string item h b = Some (True, h', advance (length (string_text t)) b)" "heap_ok h'" "hp_oom h' = hp_oom h" "hp_brk h \<le> hp_brk h'"
        "hp_mem h' = (hp_mem h)(item \<mapsto> ?c)"
        using parse_string_text [OF h, of b t u] b(2) JsString Suc.prems(1) by auto
      then show ?thesis unfolding eq using JsString c(1)
        by (intro exI [of _ h'] exI [of _ ?c] exI [of _ "[]"]) (simp add: grows_nothing ring_def cJSON_String_def cJSON_IsReference_def)
    next
      case (JsArray vs)
      have rem: "remaining b = CHR ''['' # commas (map (json_text D N) vs) @ '']'' @ u" using b(2) JsArray by simp
      have eq: "parse_value (Suc fuel) D N item h b = parse_array D (parse_value fuel D N) item h b"
        using lit [OF rem] first [OF rem] by (simp add: starts_number_def is_digit_def)
      have "reads D (Suc d) (parse_value fuel D N) (reread D N v') (json_text D N v') \<and> visible (CHR '']'') (json_text D N v')" if v': "v' \<in> set vs" for v'
      proof -
        have n: "nesting v' < nesting v" using v' nesting_inner(1) JsArray by blast
        have "c_strings v'" using Suc.prems(1) JsArray v' by auto
        then show ?thesis
          using Suc.IH [of v' "Suc d"] Suc.prems(2-4) n json_text_visible [OF Suc.prems(2), of "CHR '']''" v'] by simp
      qed
      moreover have "d < CJSON_NESTING_LIMIT" using Suc.prems(4) JsArray by simp
      ultimately have "reads D d (parse_array D (parse_value fuel D N)) (reread D N v) (json_text D N v)"
        using parse_array_reads [of vs D d "parse_value fuel D N" "reread D N" "json_text D N"] JsArray by simp
      then show ?thesis unfolding eq by (rule readsD [OF _ h c b]) blast
    next
      case (JsObject kvs)
      let ?f = "\<lambda>(k, v). string_text k @ '':'' @ json_text D N v"
      have rem: "remaining b = CHR ''{'' # commas (map ?f kvs) @ ''}'' @ u" using b(2) JsObject by simp
      have eq: "parse_value (Suc fuel) D N item h b = parse_object D (parse_value fuel D N) item h b"
        using lit [OF rem] first [OF rem] by (simp add: starts_number_def is_digit_def)
      have "nonul k \<and> reads D (Suc d) (parse_value fuel D N) (reread D N v') (json_text D N v') \<and> visible (CHR ''}'') (json_text D N v')"
        if v': "(k, v') \<in> set kvs" for k v'
      proof -
        have n: "nesting v' < nesting v" using nesting_inner(2) [OF v'] JsObject by blast
        have "c_strings v'" "nonul k" using Suc.prems(1) JsObject v' by auto
        then show ?thesis
          using Suc.IH [of v' "Suc d"] Suc.prems(2-4) n json_text_visible [OF Suc.prems(2), of "CHR ''}''" v'] by simp
      qed
      moreover have "d < CJSON_NESTING_LIMIT" using Suc.prems(4) JsObject by simp
      ultimately have "reads D d (parse_object D (parse_value fuel D N)) (reread D N (JsObject kvs)) (''{'' @ commas (map (member_text (json_text D N)) kvs) @ ''}'')"
        unfolding reread.simps by (intro parse_object_reads) auto
      moreover have "member_text (json_text D N) = ?f" by (auto simp: fun_eq_iff member_text_def)
      ultimately have "reads D d (parse_object D (parse_value fuel D N)) (reread D N v) (json_text D N v)" using JsObject by simp
      then show ?thesis unfolding eq by (rule readsD [OF _ h c b]) blast
    qed
  qed
qed simp

section \<open>Whole inputs\<close>

lemma parse_with_length_text:
  assumes v: "c_strings v" "c_numbers D N" "nesting v \<le> CJSON_NESTING_LIMIT" and h: "heap_ok h" "hp_oom h = (\<lambda>_. False)"
  shows "\<exists>a h' c ks. cJSON_ParseWithLength D N (Some (json_text D N v)) h = Some (Some a, h') \<and> json_at D h' a (reread D N v) \<and>
    hp_mem h a = None \<and> grows h h' (flat [JNode a c ks])"
proof -
  let ?s = "json_text D N v"
  let ?b = "\<lparr>pb_content = ?s, pb_offset = 0, pb_depth = 0\<rparr>"
  obtain x t where x: "?s = x # t" "(of_char x :: nat) > 32" "x \<noteq> CHR 0xEF"
    using json_text_visible [OF v(2), of "CHR 0xEF" v] by (auto simp: visible_def)
  have rem: "remaining ?b = x # t" using x(1) by (simp add: remaining_def)
  have bom: "skip_utf8_bom ?b = ?b" using has_other [OF rem x(3)] by (simp add: skip_utf8_bom_def)
  have sk: "buffer_skip_whitespace ?b = ?b" by (rule skip_nothing [OF rem x(2)])
  obtain a h1 where n: "h_alloc h (zero_item D) = (Some a, h1)" "hp_mem h a = None"
    using h by (auto simp: h_alloc_def heap_ok_def)
  have z: "zero_item D\<lparr>cj_prev := None\<rparr> = zero_item D" by (simp add: zero_item_def)
  have ch: "chain_at h h1 (Some a) (Some a) ([] @ [JNode a (zero_item D) []])"
    using chain_attach [OF chain_start [OF h(1)] n(1) new_item_zero(1-4)] by (simp add: attach_item_def z)
  have "reads D 0 (parse_value (CJSON_NESTING_LIMIT + 1) D N) (reread D N v) ?s" by (rule parse_value_reads) (use v in simp_all)
  from chain_reads [OF this h ch, of ?b "[]"]
  obtain h' c ks where r: "parse_value (CJSON_NESTING_LIMIT + 1) D N a h1 ?b = Some (True, h', advance (length ?s) ?b)"
    "chain_at h h' (Some a) (Some a) [JNode a c ks]" "node_is D (reread D N v) (JNode a c ks)"
    by (auto simp: new_item_zero remaining_def follows_def simp del: parse_value.simps)
  have "cJSON_ParseWithLength D N (Some ?s) h = Some (Some a, h')"
    using x(1) n(1) bom sk r(1)
    by (simp add: cJSON_ParseWithLength_def cJSON_ParseWithLengthOpts_def cJSON_New_Item_def Let_def del: parse_value.simps)
  then show ?thesis using n(2) r(2,3) chain_json_at [OF r(2,3)] unfolding chain_at_def by blast
qed

end
