(* ===== verification/JsonIo.thy ===== *)
theory JsonIo
  imports Json CJsonRoundtrip
begin

unbundle bit_operations_syntax

text \<open>
  The functions of \<^verbatim>\<open>src/json/json.c\<close> that go from text to values and back. The input is the list of its
  characters, as many as the \<^verbatim>\<open>length\<close> argument says; a printed text is a value, not a block of the heap. The
  printer takes the depth it may recurse to, and the content of fresh memory.

  Then what parsing and printing guarantee, and the way of a message: built by one program, printed,
  parsed by another, and read.
\<close>

definition json_parse_with_length :: "'d dbl_ops \<Rightarrow> 'd num_io \<Rightarrow> string option \<Rightarrow> 'd cjson heap \<Rightarrow> (ptr \<times> 'd cjson heap) option" where
  "json_parse_with_length D N s h = cJSON_ParseWithLength D N s h"

definition json_print_unformatted ::
  "nat \<Rightarrow> (nat \<Rightarrow> char) \<Rightarrow> 'd num_io \<Rightarrow> ptr \<Rightarrow> 'd cjson heap \<Rightarrow> (string option \<times> 'd cjson heap) option" where
  "json_print_unformatted fuel junk N v h = cJSON_PrintUnformatted fuel junk N v h"

section \<open>Parsing any input\<close>

text \<open>
  C9. Parsing is safe for every input. Whatever the characters are and whenever memory runs out, the parser
  ends, within its limit of nesting, and neither reads outside the input nor writes outside its blocks. It answers
  with \<open>NULL\<close>, and memory is as it was; or with a new item that is the root of a well-formed tree of some value, all
  items that were there before are untouched, and deleting the item frees the items of the tree and no other. The strings of an
  item are values in it, whose blocks are not counted.
\<close>

theorem json_parse_safe:
  assumes "strtod_ok N" and "heap_ok h"
  shows "\<exists>p h'. json_parse_with_length D N s h = Some (p, h') \<and>
    (case p of
       None \<Rightarrow> hp_mem h' = hp_mem h
     | Some a \<Rightarrow> hp_mem h a = None \<and> (\<forall>x c. hp_mem h x = Some c \<longrightarrow> hp_mem h' x = Some c) \<and> (\<exists>v. json_at D h' a v) \<and>
         (\<exists>h''. json_delete (Some a) h' = Some h'' \<and> hp_mem h'' = hp_mem h))"
proof -
  obtain p e h' where r: "cJSON_ParseWithLengthOpts D N s False h = Some (p, e, h')"
    "case p of None \<Rightarrow> grows h h' [] | Some a \<Rightarrow> hp_mem h a = None \<and>
       (\<exists>c ks. grows h h' (flat [JNode a c ks]) \<and> linked (Some a) [JNode a c ks]) \<and> (\<exists>v. json_at D h' a v)"
    using parse_opts_safe [OF assms, of D s False] by blast
  have eq: "json_parse_with_length D N s h = Some (p, h')" using r(1) by (simp add: json_parse_with_length_def cJSON_ParseWithLength_def)
  show ?thesis
  proof (cases p)
    case None
    then show ?thesis using eq r(2) by (auto simp: grows_nothing)
  next
    case (Some a)
    then obtain c ks where g: "grows h h' (flat [JNode a c ks])" "linked (Some a) [JNode a c ks]" "hp_mem h a = None" "\<exists>v. json_at D h' a v"
      using r(2) by auto
    have "hp_mem h' x = Some d" if "hp_mem h x = Some d" for x d using growsD(5,9) [OF g(1)] that assms(2) by metis
    moreover obtain h'' where "json_delete (Some a) h' = Some h''" "hp_mem h'' = hp_mem h"
      using delete_new [OF g(1,2) assms(2)] by (auto simp: json_delete_def grows_nothing)
    ultimately show ?thesis using eq Some g(3,4) by auto
  qed
qed

section \<open>Printing and parsing\<close>

lemma print_unformatted_succeeds:
  assumes "json_at D h a v" "printable D N v" "nesting v < fuel" "hp_oom h = (\<lambda>_. False)" "length (json_text D N v) + 2 \<le> INT_MAX"
  shows "\<exists>h'. json_print_unformatted fuel junk N (Some a) h = Some (Some (json_text D N v), h') \<and> hp_mem h' = hp_mem h \<and> hp_oom h' = hp_oom h \<and> heap_ok h'"
proof -
  obtain r h' where r: "cJSON_PrintUnformatted fuel junk N (Some a) h = Some (r, h')" "hp_mem h' = hp_mem h" "hp_oom h' = hp_oom h" "hp_brk h \<le> hp_brk h'"
    "r = None \<or> r = Some (json_text D N v)" "hp_oom h = (\<lambda>_. False) \<and> length (json_text D N v) + 2 \<le> INT_MAX \<longrightarrow> r \<noteq> None"
    using print_unformatted_text [OF assms(1-3), of junk] by blast
  have "heap_ok h" using assms(1) by (simp add: json_at_def)
  then have "heap_ok h'" using r(2,4) by (simp add: heap_ok_def)
  then show ?thesis using r assms(4,5) by (auto simp: json_print_unformatted_def)
qed

text \<open>
  C10. Parsing what was printed gives the value back, up to the precision of the printer. A value of C strings and any
  numbers that is nested at most 1000 deep, as deep as the parser goes, and whose text is shorter than an \<^verbatim>\<open>int\<close> can count, is
  printed, when memory lasts, as the text that the grammar says; and parsing this text gives a new tree of the value, next to the
  items that were there, which stay as they are. Every control character, quotation mark and backslash makes
  the way there and back. Of the numbers, those that are equal to their \<^verbatim>\<open>int\<close> come back as that integer. The other finite ones come back as
  themselves or, since the printer is content with 15 digits when \<^verbatim>\<open>compare_double\<close> cannot tell the difference,
  as a number that it takes for equal, as 0.3 does for the sum of 0.1 and 0.2; and infinities and NaN come back as \<^verbatim>\<open>null\<close>. Of the
  C library this relies on what its standard says of \<^verbatim>\<open>sprintf\<close>, \<^verbatim>\<open>sscanf\<close> and \<^verbatim>\<open>strtod\<close>, \<open>c_numbers\<close>.
\<close>

theorem json_print_parse_roundtrip:
  assumes "json_at D h a v" and "c_strings v" and "c_numbers D N"
    and "nesting v \<le> CJSON_NESTING_LIMIT" and "nesting v < fuel"
    and "hp_oom h = (\<lambda>_. False)" and "length (json_text D N v) + 2 \<le> INT_MAX"
  shows "\<exists>h1 b h2. json_print_unformatted fuel junk N (Some a) h = Some (Some (json_text D N v), h1) \<and> hp_mem h1 = hp_mem h \<and>
    json_parse_with_length D N (Some (json_text D N v)) h1 = Some (Some b, h2) \<and> json_at D h2 b (reread D N v) \<and> hp_mem h b = None \<and>
    (\<forall>x c. hp_mem h x = Some c \<longrightarrow> hp_mem h2 x = Some c) \<and>
    (\<forall>d \<in> set_json v. \<not> ni_special N d \<longrightarrow> number_kept D N d)"
proof -
  obtain h1 where h1: "json_print_unformatted fuel junk N (Some a) h = Some (Some (json_text D N v), h1)" "hp_mem h1 = hp_mem h" "hp_oom h1 = hp_oom h" "heap_ok h1"
    using print_unformatted_succeeds [OF assms(1) printable_value [OF assms(3,2)] assms(5,6,7)] by blast
  have oom: "hp_oom h1 = (\<lambda>_. False)" using h1(3) assms(6) by simp
  obtain b h2 c ks where r: "cJSON_ParseWithLength D N (Some (json_text D N v)) h1 = Some (Some b, h2)" "json_at D h2 b (reread D N v)" "hp_mem h1 b = None" "grows h1 h2 (flat [JNode b c ks])"
    using parse_with_length_text [OF assms(2-4) h1(4) oom] by blast
  have "hp_mem h2 x = Some d" if "hp_mem h x = Some d" for x d using growsD(5,9) [OF r(4)] h1(2,4) that by metis
  then show ?thesis using h1(1,2) r(1-3) numbers_kept [OF assms(3)] by (auto simp: json_parse_with_length_def)
qed

section \<open>Reading a tree\<close>

text \<open>An object on the heap answers for the members \<open>f\<close>.\<close>

definition object_reads :: "'d dbl_ops \<Rightarrow> 'd cjson heap \<Rightarrow> addr \<Rightarrow> (string \<Rightarrow> 'd json option) \<Rightarrow> bool" where
  "object_reads D h a f \<longleftrightarrow> (\<forall>k s0 d0 i0 b0.
     json_object_get_string_value h (Some a) (Some k) (Some s0) = Some (case f k of Some (JsString s) \<Rightarrow> (True, Some s) | _ \<Rightarrow> (False, Some s0)) \<and>
     json_object_get_number_value D h (Some a) (Some k) (Some d0) = Some (case f k of Some (JsNumber d) \<Rightarrow> (True, Some d) | _ \<Rightarrow> (False, Some d0)) \<and>
     json_object_get_int_value h (Some a) (Some k) (Some i0) =
       Some (case f k of Some (JsNumber d) \<Rightarrow> (True, Some (dbl_saturate D d)) | _ \<Rightarrow> (False, Some i0)) \<and>
     json_object_get_bool_value h (Some a) (Some k) (Some b0) = Some (case f k of Some (JsBool b) \<Rightarrow> (True, Some b) | _ \<Rightarrow> (False, Some b0)))"

definition tree_cell :: "'d jnode \<Rightarrow> addr \<times> 'd cjson" where
  "tree_cell t = (node_addr t, node_cell t)"

lemma tree_cell_simps [simp]: "fst (tree_cell t) = node_addr t" "snd (tree_cell t) = node_cell t" "fst \<circ> tree_cell = node_addr"
  by (simp_all add: tree_cell_def fun_eq_iff)

lemma kids_of_tree: "linked p ts \<Longrightarrow> cells_at m (flat ts) \<Longrightarrow> kids m p (map tree_cell ts)"
  by (induction p ts rule: linked.induct) (auto simp: tree_cell_def)

lemma tree_addresses: "node_addr ` set ts \<subseteq> fst ` set (flat ts)" "distinct (map fst (flat ts)) \<Longrightarrow> distinct (map node_addr ts)"
proof -
  show sub: "node_addr ` set ts \<subseteq> fst ` set (flat ts)" for ts :: "'a jnode list" by (induction ts rule: flat.induct) auto
  show "distinct (map fst (flat ts)) \<Longrightarrow> distinct (map node_addr ts)"
  proof (induction ts rule: flat.induct)
    case (2 a c ks ts)
    then show ?case using sub [of ts] by auto
  qed simp
qed

lemma json_at_members:
  assumes "json_at D h a (JsObject kvs)"
  shows "\<exists>ts. json_object_at h a (map (member_of o tree_cell) ts) \<and> members_are D kvs ts"
proof -
  obtain c ks where r: "heap_ok h" "cells_at (hp_mem h) (flat [JNode a c ks])" "distinct (map fst (flat [JNode a c ks]))"
    "linked (Some a) [JNode a (c\<lparr>cj_next := None\<rparr>) ks]" "node_is D (JsObject kvs) (JNode a c ks)"
    using assms unfolding json_at_def by blast
  have l: "linked (cj_child c) ks" "ring ks" "cj_type c AND cJSON_IsReference = 0" and ms: "members_are D kvs ks" "cj_type c AND 0xFF = cJSON_Object"
    using r(4,5) by simp_all
  have k: "kids (hp_mem h) (cj_child c) (map tree_cell ks)" using kids_of_tree [OF l(1)] r(2) by simp
  have "distinct (map node_addr ks)" "a \<notin> node_addr ` set ks" using tree_addresses [of ks] r(3) by auto
  moreover have "map tree_cell ks \<noteq> [] \<longrightarrow> cj_prev (snd (hd (map tree_cell ks))) = Some (fst (last (map tree_cell ks)))"
    using l(2) by (auto simp: ring_def tree_cell_def hd_map last_map)
  ultimately have "members h a (map tree_cell ks)" using r(1,2) k l(3) ms(2) by (simp add: members_def is_object_item_def)
  moreover have "cj_string (node_cell t) \<noteq> None" if "t \<in> set ks" for t
    using ms(1) that unfolding members_are_iff by (auto simp: list_all2_conv_all_nth in_set_conv_nth case_prod_unfold)
  ultimately have "json_object_at h a (map (member_of o tree_cell) ks)" unfolding json_object_at_def
    by (intro conjI exI [of _ "map tree_cell ks"]) (auto simp: tree_cell_def)
  then show ?thesis using ms(1) by blast
qed

lemma find_in_tree:
  "members_are D kvs ts \<Longrightarrow> (case find (\<lambda>x. member_name x = Some k) (map (member_of \<circ> tree_cell) ts) of
     None \<Rightarrow> map_of kvs k = None
   | Some x \<Rightarrow> \<exists>v t. map_of kvs k = Some v \<and> node_is D v t \<and> x = member_of (tree_cell t))"
proof (induction kvs arbitrary: ts)
  case (Cons kv kvs)
  obtain k' v where kv: "kv = (k', v)" by (cases kv)
  obtain t ts' where ts: "ts = t # ts'" "cj_string (node_cell t) = Some k'" "node_is D v t" "members_are D kvs ts'"
    using Cons.prems kv by (auto split: list.splits)
  have "member_name (member_of (tree_cell t)) = Some k'" using ts(2) by (simp add: tree_cell_def)
  then show ?case using Cons.IH [OF ts(4)] ts(1,3) kv by (auto split: option.splits)
qed simp

lemma type_bits:
  "t AND 0xFF = x \<Longrightarrow> t AND (cJSON_True OR cJSON_False) = x AND 3"
proof -
  have "(cJSON_True OR cJSON_False) = 0xFF AND (3 :: 32 word)" by (simp add: cJSON_True_def cJSON_False_def)
  then show "t AND 0xFF = x \<Longrightarrow> ?thesis" by (metis and.assoc)
qed

lemma json_at_reads:
  assumes "json_at D h a (JsObject kvs)"
  shows "object_reads D h a (map_of kvs)"
proof -
  obtain ts where ts: "json_object_at h a (map (member_of \<circ> tree_cell) ts)" "members_are D kvs ts" using json_at_members [OF assms] by blast
  have types: "cJSON_NULL = 4" "cJSON_False = 1" "cJSON_True = 2" "cJSON_Number = 8" "cJSON_String = 16" "cJSON_Array = 32" "cJSON_Object = 64"
    by (simp_all add: cJSON_NULL_def cJSON_False_def cJSON_True_def cJSON_Number_def cJSON_String_def cJSON_Array_def cJSON_Object_def)
  show ?thesis
    unfolding object_reads_def
  proof (intro allI)
    fix k s0 d0 i0 b0
    note access = typed_access [OF ts(1), of k s0 D d0 i0 b0]
    let ?goal = "\<lambda>w. json_object_get_string_value h (Some a) (Some k) (Some s0) = Some (case w of Some (JsString s) \<Rightarrow> (True, Some s) | _ \<Rightarrow> (False, Some s0)) \<and>
     json_object_get_number_value D h (Some a) (Some k) (Some d0) = Some (case w of Some (JsNumber d) \<Rightarrow> (True, Some d) | _ \<Rightarrow> (False, Some d0)) \<and>
     json_object_get_int_value h (Some a) (Some k) (Some i0) =
       Some (case w of Some (JsNumber d) \<Rightarrow> (True, Some (dbl_saturate D d)) | _ \<Rightarrow> (False, Some i0)) \<and>
     json_object_get_bool_value h (Some a) (Some k) (Some b0) = Some (case w of Some (JsBool b) \<Rightarrow> (True, Some b) | _ \<Rightarrow> (False, Some b0))"
    show "?goal (map_of kvs k)"
    proof (cases "find (\<lambda>x. member_name x = Some k) (map (member_of \<circ> tree_cell) ts)")
      case None
      then show ?thesis using find_in_tree [OF ts(2), of k] access by simp
    next
      case (Some x)
      then obtain v t where v: "map_of kvs k = Some v" "node_is D v t" "x = member_of (tree_cell t)" using find_in_tree [OF ts(2), of k] by auto
      obtain b c ks where t: "t = JNode b c ks" by (cases t)
      have x: "x = (b, Member (cj_string c) (cj_type c) (cj_valuestring c) (cj_valueint c) (cj_valuedouble c) (cj_child c))"
        using v(3) t by (simp add: tree_cell_def member_of_def)
      note acc = access [unfolded Some option.case x prod.case member.case]
      show ?thesis using acc v(1,2) t type_bits [of "cj_type c"] by (cases v) (auto simp: types split: if_splits)
    qed
  qed
qed

section \<open>Messages\<close>

text \<open>The value that an object built of members is.\<close>

fun input_value :: "'d json_input \<Rightarrow> 'd json" where
  "input_value (JNumber d) = JsNumber d"
| "input_value (JBool b) = JsBool b"
| "input_value (JString s) = JsString s"

definition message :: "(string \<times> 'd json_input) list \<Rightarrow> 'd json" where
  "message kvs = JsObject (map (\<lambda>(k, v). (k, input_value v)) kvs)"

definition leaf :: "addr \<times> 'd cjson \<Rightarrow> 'd jnode" where
  "leaf x = JNode (fst x) (snd x) []"

lemma flat_leaves [simp]: "flat (map leaf xs) = xs"
  by (induction xs) (simp_all add: leaf_def)

lemma linked_leaves:
  "kids m p xs \<Longrightarrow> \<forall>x \<in> set xs. cj_child (snd x) = None \<and> cj_type (snd x) AND cJSON_IsReference = 0 \<Longrightarrow> linked p (map leaf xs)"
  by (induction xs arbitrary: p) (auto simp: leaf_def ring_def)

lemma input_cell:
  assumes "snd (member_of x) = input_member D (k, v)"
  shows "cj_string (snd x) = Some k" "cj_child (snd x) = None" "cj_type (snd x) AND cJSON_IsReference = 0" "node_is D (input_value v) (leaf x)"
  using assms by (cases v; auto simp: member_of_def leaf_def cJSON_Number_def cJSON_True_def cJSON_False_def cJSON_String_def cJSON_IsReference_def)+

lemma built_message:
  assumes "json_object_at h a ms" and "map snd ms = map (input_member D) kvs"
  shows "json_at D h a (message kvs)"
proof -
  from assms(1) obtain xs c where x: "map member_of xs = ms" "hp_mem h a = Some c" "kids (hp_mem h) (cj_child c) xs"
    "\<forall>x \<in> set xs. cj_string (snd x) \<noteq> None" "heap_ok h" "distinct (a # map fst xs)"
    "xs \<noteq> [] \<longrightarrow> cj_prev (snd (hd xs)) = Some (fst (last xs))" "is_object_item c" by (rule json_object_atE)
  have all: "list_all2 (\<lambda>(k, v) x. snd (member_of x) = input_member D (k, v)) kvs xs"
    using assms(2) unfolding x(1) [symmetric] by (simp add: list_all2_conv_all_nth case_prod_unfold list_eq_iff_nth_eq)
  have "cj_child (snd x) = None \<and> cj_type (snd x) AND cJSON_IsReference = 0" if y: "x \<in> set xs" for x
  proof -
    obtain i where i: "i < length xs" "x = xs ! i" using y by (auto simp: in_set_conv_nth)
    then have "snd (member_of x) = input_member D (fst (kvs ! i), snd (kvs ! i))"
      using list_all2_nthD2 [OF all i(1)] by (simp add: case_prod_unfold)
    then show ?thesis using input_cell(2,3) by blast
  qed
  then have l: "linked (cj_child c) (map leaf xs)" using linked_leaves [OF x(3)] by blast
  have "cells_at (hp_mem h) xs" using kids_mapped [OF x(3)] by (force simp: cells_at_def)
  moreover have "ring (map leaf xs)" using x(7) by (cases "xs = []") (simp_all add: ring_def leaf_def hd_map last_map)
  moreover have "list_all2 (\<lambda>(k, v) t. cj_string (node_cell t) = Some k \<and> node_is D v t) (map (\<lambda>(k, v). (k, input_value v)) kvs) (map leaf xs)"
    unfolding list_all2_map1 list_all2_map2 using all
  proof (rule list_all2_mono)
    fix kv x assume kv: "(\<lambda>(k, v) x. snd (member_of x) = input_member D (k, v)) kv (x :: addr \<times> 'a cjson)"
    obtain k v where "kv = (k, v)" by (cases kv)
    then show "(\<lambda>(k, v) t. cj_string (node_cell t) = Some k \<and> node_is D v t) ((\<lambda>(k, v). (k, input_value v)) kv) (leaf x)"
      using kv input_cell [of x D k v] by (simp add: leaf_def)
  qed
  then have "members_are D (map (\<lambda>(k, v). (k, input_value v)) kvs) (map leaf xs)" unfolding members_are_iff .
  ultimately show ?thesis using x(2,5,6,8) l unfolding json_at_def message_def
    by (intro conjI exI [of _ c] exI [of _ "map leaf xs"]) (simp_all add: is_object_item_def)
qed

lemma added_all:
  assumes "length ps = length kvs" and "None \<notin> set ps"
  shows "added kvs ps = kvs"
  using assms
proof (induction kvs ps rule: list_induct2')
  case (4 kv kvs p ps)
  then show ?case by (cases p) (auto simp: added_def)
qed (simp_all add: added_def)

lemma nesting_message: "nesting (message kvs) = 1"
proof -
  have "nesting (input_value v) = 0" for v :: "'a json_input" by (cases v) simp_all
  then have "set (map (\<lambda>(k, v). nesting v) (map (\<lambda>(k, v). (k, input_value v)) kvs)) \<subseteq> {0}" by auto
  then have "Max (insert 0 (set (map (\<lambda>(k, v). nesting v) (map (\<lambda>(k, v). (k, input_value v)) kvs)))) = 0"
    by (metis insert_absorb2 insert_is_Un subset_singletonD sup_bot.right_neutral Max_singleton)
  then show ?thesis by (simp add: message_def)
qed

lemma reread_members:
  "map_of (map (\<lambda>(k, v). (k, reread D N v)) (map (\<lambda>(k, v). (k, input_value v)) kvs)) = map_option (reread D N \<circ> input_value) \<circ> map_of kvs"
  by (induction kvs) (auto simp: fun_eq_iff)

text \<open>
  C3. A message arrives. One program makes an object and adds numbers, booleans and strings to it, any
  number of them and in any order; prints it; and another program, with a heap of its own, parses the text. Reading a
  member of the parsed object by its name then gives what the first program added first under that name,
  with its type and no other; and no other name is found. Strings and booleans are the same. A number that is equal to its
  \<^verbatim>\<open>int\<close> is read as that number and that \<^verbatim>\<open>int\<close>; another finite number as itself or, since it may be printed with 15 digits,
  as one that \<^verbatim>\<open>compare_double\<close> takes for equal, and its \<^verbatim>\<open>int\<close> is that of the number read; an infinity or NaN has become \<^verbatim>\<open>null\<close> and
  is not read as a number. The texts are shorter than an \<^verbatim>\<open>int\<close> can count, and memory lasts.
\<close>

theorem json_message_roundtrip:
  assumes "heap_ok h" and "hp_oom h = (\<lambda>_. False)" and "heap_ok g" and "hp_oom g = (\<lambda>_. False)"
    and "json_create_object D h = (Some a, h0)" and "json_add_all D a kvs h0 = Some (ps, h1)"
    and "c_strings (message kvs)" and "c_numbers D N"
    and "1 < fuel" and "length (json_text D N (message kvs)) + 2 \<le> INT_MAX"
  shows "\<exists>s h2 b g1. json_print_unformatted fuel junk N (Some a) h1 = Some (Some s, h2) \<and> json_parse_with_length D N (Some s) g = Some (Some b, g1) \<and>
    object_reads D g1 b (map_option (reread D N \<circ> input_value) \<circ> map_of kvs) \<and>
    (\<forall>d \<in> set_json (message kvs). \<not> ni_special N d \<longrightarrow> number_kept D N d)"
proof -
  have h0: "json_object_at h0 a []" "hp_oom h0 = (\<lambda>_. False)" using json_create_spec [OF assms(1,5)] assms(2) by simp_all
  obtain new where n: "length ps = length kvs" "json_object_at h1 a new" "map snd new = map (input_member D) (added kvs ps)" "None \<notin> set ps" "hp_oom h1 = (\<lambda>_. False)"
    using json_add_all_spec [OF h0(1), of D kvs] h0(2) assms(6) by auto
  have at: "json_at D h1 a (message kvs)" using built_message [OF n(2)] n(3) added_all [OF n(1,4)] by simp
  obtain h2 where p: "json_print_unformatted fuel junk N (Some a) h1 = Some (Some (json_text D N (message kvs)), h2)"
    using print_unformatted_succeeds [OF at printable_value [OF assms(8,7)] _ n(5) assms(10), of fuel junk] assms(9) by (auto simp: nesting_message)
  have "nesting (message kvs) \<le> CJSON_NESTING_LIMIT" by (simp add: nesting_message CJSON_NESTING_LIMIT_def)
  then obtain b g1 where r: "cJSON_ParseWithLength D N (Some (json_text D N (message kvs))) g = Some (Some b, g1)" "json_at D g1 b (reread D N (message kvs))"
    using parse_with_length_text [OF assms(7,8) _ assms(3,4)] by blast
  have "object_reads D g1 b (map_option (reread D N \<circ> input_value) \<circ> map_of kvs)"
    using json_at_reads [OF r(2) [unfolded message_def reread.simps]] unfolding reread_members .
  then show ?thesis using p r(1) numbers_kept [OF assms(8)] by (auto simp: json_parse_with_length_def)
qed

section \<open>Examples\<close>

text \<open>A C library with integers in place of floating-point numbers; those outside the range of \<^verbatim>\<open>int\<close> are the infinities.\<close>

definition int_strtod :: "string \<Rightarrow> int \<times> nat" where
  "int_strtod s =
     (if s \<noteq> [] \<and> hd s = CHR ''-'' then (- int (c_digits (tl s)), if takeWhile is_digit (tl s) = [] then 0 else Suc (length (takeWhile is_digit (tl s))))
      else (int (c_digits s), length (takeWhile is_digit s)))"

definition int_num_io :: "int num_io" where
  "int_num_io = \<lparr>ni_strtod = int_strtod, ni_special = (\<lambda>d. \<not> c_int_range d), ni_eq_int = (\<lambda>d i. d = i),
     ni_fmt15 = c_dec, ni_fmt17 = c_dec, ni_scan = (\<lambda>s. Some (fst (int_strtod s))), ni_fabs = abs, ni_sub = (-), ni_mul = (*),
     ni_gt = (>), ni_le = (\<le>), ni_epsilon = 0\<rparr>"

lemma int_strtod_ok: "strtod_ok int_num_io"
proof -
  have "snd (int_strtod s) \<le> length s" for s
    using length_takeWhile_le [of is_digit s] length_takeWhile_le [of is_digit "tl s"] by (cases s) (auto simp: int_strtod_def)
  then show ?thesis by (simp add: strtod_ok_def int_num_io_def)
qed

lemma int_strtod_dec: "int_strtod (c_dec i) = (i, length (c_dec i))"
proof -
  have t: "takeWhile is_digit (nat_dec n) = nat_dec n" for n using nat_dec_digits [of n] by (simp add: takeWhile_eq_all_conv list_all_iff)
  have h: "hd (nat_dec n) \<noteq> CHR ''-''" for n using hd_nat_dec [of n] is_digit_facts by blast
  show ?thesis using c_digits_nat_dec [of "[]"] by (auto simp: int_strtod_def c_dec_def t h)
qed

lemma int_numbers: "c_numbers int_dbl int_num_io"
  by (auto simp: c_numbers_def int_num_io_def int_dbl_def int_strtod_dec dec_form c_int_range_def)

lemma seven_text: "number_text int_num_io 7 (dbl_saturate int_dbl 7) = ''7''"
  by (simp add: number_text_def int_num_io_def c_int_range_def dbl_saturate_def int_dbl_def c_dec_def nat_dec.simps char_of_def bit_0)

lemma seven_read: "reread int_dbl int_num_io (JsNumber 7) = JsNumber 7"
  using int_strtod_dec [of 7] by (simp add: number_read_def number_text_def int_num_io_def c_int_range_def dbl_saturate_def int_dbl_def)

lemma infinite_text: "number_text int_num_io (2 ^ 31) (dbl_saturate int_dbl (2 ^ 31)) = ''null''" "reread int_dbl int_num_io (JsNumber (2 ^ 31)) = JsNull"
  by (simp_all add: number_text_def int_num_io_def c_int_range_def)

theorem json_parse_safe_witness:
  "\<exists>p h'. json_parse_with_length int_dbl int_num_io (Some ''[7,'') empty_heap = Some (p, h')"
  using json_parse_safe [OF int_strtod_ok, of empty_heap int_dbl "Some ''[7,''"] by auto

text \<open>An array with a number and an infinite one.\<close>

definition demo_array :: "int cjson heap" where
  "demo_array = empty_heap\<lparr>hp_brk := 3, hp_mem := [0 \<mapsto> (zero_item int_dbl)\<lparr>cj_type := cJSON_Array, cj_child := Some 1\<rparr>,
     1 \<mapsto> (zero_item int_dbl)\<lparr>cj_type := cJSON_Number, cj_valuedouble := 7, cj_valueint := 7, cj_next := Some 2, cj_prev := Some 2\<rparr>,
     2 \<mapsto> (zero_item int_dbl)\<lparr>cj_type := cJSON_Number, cj_valuedouble := 2 ^ 31, cj_valueint := 2 ^ 31 - 1, cj_prev := Some 1\<rparr>]\<rparr>"

lemma demo_array_at: "json_at int_dbl demo_array 0 (JsArray [JsNumber 7, JsNumber (2 ^ 31)])"
proof -
  let ?c = "(zero_item int_dbl)\<lparr>cj_type := cJSON_Array, cj_child := Some 1\<rparr>"
  let ?n = "(zero_item int_dbl)\<lparr>cj_type := cJSON_Number, cj_valuedouble := 7, cj_valueint := 7, cj_next := Some 2, cj_prev := Some 2\<rparr>"
  let ?i = "(zero_item int_dbl)\<lparr>cj_type := cJSON_Number, cj_valuedouble := 2 ^ 31, cj_valueint := 2 ^ 31 - 1, cj_prev := Some 1\<rparr>"
  show ?thesis unfolding json_at_def
    by (intro conjI exI [of _ ?c] exI [of _ "[JNode 1 ?n [], JNode 2 ?i []]"])
      (simp_all add: demo_array_def heap_ok_def ring_def zero_item_def cJSON_Array_def cJSON_Number_def cJSON_IsReference_def dbl_saturate_def int_dbl_def)
qed

theorem json_print_parse_roundtrip_witness:
  "\<exists>h1 b h2. json_print_unformatted 2 (\<lambda>_. CHR ''?'') int_num_io (Some 0) demo_array = Some (Some ''[7,null]'', h1) \<and>
     json_parse_with_length int_dbl int_num_io (Some ''[7,null]'') h1 = Some (Some b, h2) \<and> json_at int_dbl h2 b (JsArray [JsNumber 7, JsNull])"
proof -
  let ?v = "JsArray [JsNumber 7, JsNumber (2 ^ 31)] :: int json"
  have t: "json_text int_dbl int_num_io ?v = ''[7,null]''" unfolding json_text.simps list.map seven_text infinite_text by simp
  have u: "reread int_dbl int_num_io ?v = JsArray [JsNumber 7, JsNull]" unfolding reread.simps(2) list.map seven_read infinite_text by simp
  have "\<exists>h1 b h2. json_print_unformatted 2 (\<lambda>_. CHR ''?'') int_num_io (Some 0) demo_array = Some (Some (json_text int_dbl int_num_io ?v), h1) \<and> hp_mem h1 = hp_mem demo_array \<and>
    json_parse_with_length int_dbl int_num_io (Some (json_text int_dbl int_num_io ?v)) h1 = Some (Some b, h2) \<and> json_at int_dbl h2 b (reread int_dbl int_num_io ?v) \<and>
    hp_mem demo_array b = None \<and> (\<forall>x c. hp_mem demo_array x = Some c \<longrightarrow> hp_mem h2 x = Some c) \<and>
    (\<forall>d \<in> set_json ?v. \<not> ni_special int_num_io d \<longrightarrow> number_kept int_dbl int_num_io d)"
    by (rule json_print_parse_roundtrip [OF demo_array_at _ int_numbers]; (subst t)?; simp add: CJSON_NESTING_LIMIT_def demo_array_def INT_MAX_def)
  then show ?thesis unfolding t u by blast
qed

theorem json_message_roundtrip_witness:
  "\<exists>h0 ps h1 s h2 b g1. json_add_all int_dbl 0 [(''a'', JNumber 7), (''b'', JString [CHR 0x22, CHR 0x0A])] h0 = Some (ps, h1) \<and>
     json_print_unformatted 2 (\<lambda>_. CHR ''?'') int_num_io (Some 0) h1 = Some (Some s, h2) \<and>
     json_parse_with_length int_dbl int_num_io (Some s) (empty_heap :: int cjson heap) = Some (Some b, g1) \<and>
     json_object_get_int_value g1 (Some b) (Some ''a'') (Some 1) = Some (True, Some 7) \<and>
     json_object_get_string_value g1 (Some b) (Some ''b'') (Some []) = Some (True, Some [CHR 0x22, CHR 0x0A])"
proof -
  let ?kvs = "[(''a'', JNumber 7), (''b'', JString [CHR 0x22, CHR 0x0A])] :: (string \<times> int json_input) list"
  obtain h0 where h0: "json_create_object int_dbl (empty_heap :: int cjson heap) = (Some 0, h0)" using demo_object by blast
  have "json_object_at h0 0 []" using json_create_spec [OF _ h0] by simp
  from json_add_all_spec [OF this, of int_dbl ?kvs] obtain ps h1 where h1: "json_add_all int_dbl 0 ?kvs h0 = Some (ps, h1)" by blast
  have m: "message ?kvs = JsObject [(''a'', JsNumber 7), (''b'', JsString [CHR 0x22, CHR 0x0A])]" by (simp add: message_def)
  have "\<exists>s h2 b g1. json_print_unformatted 2 (\<lambda>_. CHR ''?'') int_num_io (Some 0) h1 = Some (Some s, h2) \<and>
      json_parse_with_length int_dbl int_num_io (Some s) (empty_heap :: int cjson heap) = Some (Some b, g1) \<and>
      object_reads int_dbl g1 b (map_option (reread int_dbl int_num_io \<circ> input_value) \<circ> map_of ?kvs) \<and>
      (\<forall>d \<in> set_json (message ?kvs). \<not> ni_special int_num_io d \<longrightarrow> number_kept int_dbl int_num_io d)"
    by (rule json_message_roundtrip [OF _ _ _ _ h0 h1 _ int_numbers])
      (simp_all add: m seven_text nonul_def INT_MAX_def string_text_def escaped_def escape_write_def short_escape_def)
  then obtain s h2 b g1 where r: "json_print_unformatted 2 (\<lambda>_. CHR ''?'') int_num_io (Some 0) h1 = Some (Some s, h2)"
    "json_parse_with_length int_dbl int_num_io (Some s) (empty_heap :: int cjson heap) = Some (Some b, g1)"
    "object_reads int_dbl g1 b (map_option (reread int_dbl int_num_io \<circ> input_value) \<circ> map_of ?kvs)" by blast
  have "json_object_get_int_value g1 (Some b) (Some ''a'') (Some 1) = Some (True, Some 7)"
    using r(3) seven_read unfolding object_reads_def by (simp add: dbl_saturate_def int_dbl_def split: if_splits)
  moreover have "json_object_get_string_value g1 (Some b) (Some ''b'') (Some []) = Some (True, Some [CHR 0x22, CHR 0x0A])"
    using r(3) unfolding object_reads_def by simp
  ultimately show ?thesis using h1 r(1,2) by blast
qed

end
