(* ===== verification/Logger.thy ===== *)
theory Logger
  imports CNumber
begin

text \<open>
  The logger, \<^verbatim>\<open>src/logger/logger.c\<close>, with the part of the vendored \<^verbatim>\<open>src/vendor/logger-c/log.c\<close> it rests
  on: the root handler and the dump of one record. A message is the text its format and arguments
  make; the time of day, as text, is an argument; what is printed is the result. \<open>None\<close> is an access
  outside the tables of levels.
\<close>

section \<open>Source paths\<close>

definition wg_path_is_absolute_local :: "string option \<Rightarrow> bool" where
  "wg_path_is_absolute_local path = (case path of
     None \<Rightarrow> False
   | Some p \<Rightarrow>
       if c_at p 0 = NUL then False
       else if c_at p 0 = CHR ''/'' then True
       else if c_at p 0 = CHR 0x5C \<and> c_at p 1 = CHR 0x5C then True
       else if is_alpha (c_at p 0) \<and> c_at p 1 = CHR '':'' \<and> (c_at p 2 = CHR 0x5C \<or> c_at p 2 = CHR ''/'') then True
       else c_strstr p ''://'' \<noteq> None)"

definition wg_format_source_path :: "string option \<Rightarrow> nat \<Rightarrow> string" where
  "wg_format_source_path path buffer_size = (case path of
     None \<Rightarrow> []
   | Some p \<Rightarrow>
       if wg_path_is_absolute_local path then p
       else if buffer_size < 3 then p
       else take (buffer_size - 1) (''./'' @ p))"

section \<open>Records\<close>

definition level_strings :: "string list" where
  "level_strings = [''TRACE'', ''DEBUG'', ''INFO'', ''WARN'', ''ERROR'', ''FATAL'']"

definition esc :: "string \<Rightarrow> string" where
  "esc s = CHR 0x1B # CHR ''['' # s @ ''m''"

definition level_colors :: "string list" where
  "level_colors = map esc [''94'', ''36'', ''32'', ''33'', ''31'', ''35'']"

definition at_level :: "string list \<Rightarrow> int \<Rightarrow> string option" where
  "at_level table level = (if 0 \<le> level \<and> nat level < length table then Some (table ! nat level) else None)"

text \<open>\<^verbatim>\<open>"%-5s"\<close>\<close>

definition pad5 :: "string \<Rightarrow> string" where
  "pad5 s = s @ replicate (5 - length s) CHR '' ''"

record log_record =
  rec_level :: int
  rec_file :: "string option"
  rec_line :: int

definition wg_color_fmt1 :: "log_record \<Rightarrow> string \<Rightarrow> string option" where
  "wg_color_fmt1 r time_buf =
     (let has_file = (case rec_file r of None \<Rightarrow> False | Some f \<Rightarrow> f \<noteq> []);
          has_line = (has_file \<and> rec_line r > 0);
          source_path = (if \<not> has_file then [] else if has_line then wg_format_source_path (rec_file r) 1024
                         else (case rec_file r of None \<Rightarrow> [] | Some f \<Rightarrow> f)) in
      case (at_level level_colors (rec_level r), at_level level_strings (rec_level r)) of
        (Some color, Some name) \<Rightarrow>
          (let head = time_buf @ '' '' @ color @ pad5 name @ esc ''0'' @ '' '' in
           Some (if has_file \<and> has_line then head @ esc ''90'' @ ''['' @ source_path @ '':'' @ c_dec (rec_line r) @ '']:'' @ esc ''0'' @ '' ''
                 else if has_file then head @ esc ''90'' @ ''['' @ source_path @ '']:'' @ esc ''0'' @ '' ''
                 else head))
      | _ \<Rightarrow> None)"

definition color_fmt1 :: "log_record \<Rightarrow> string \<Rightarrow> string option" where
  "color_fmt1 r time_buf =
     (case (at_level level_colors (rec_level r), at_level level_strings (rec_level r), rec_file r) of
        (Some color, Some name, Some file) \<Rightarrow>
          Some (time_buf @ '' '' @ color @ pad5 name @ esc ''0'' @ '' '' @ esc ''90'' @ ''['' @ file @ '':'' @ c_dec (rec_line r) @ '']:'' @ esc ''0'' @ '' '')
      | _ \<Rightarrow> None)"

section \<open>The root handler\<close>

record log_handler =
  hd_level :: nat
  hd_quiet :: bool
  hd_fmt :: "log_record \<Rightarrow> string \<Rightarrow> string option"

definition init_logger :: log_handler where
  "init_logger = \<lparr>hd_level = 2, hd_quiet = False, hd_fmt = color_fmt1\<rparr>"

record wg_logger =
  lg_root :: log_handler
  lg_installed :: bool

definition log_install_formatter :: "wg_logger \<Rightarrow> wg_logger" where
  "log_install_formatter lg =
     (if lg_installed lg then lg
      else lg\<lparr>lg_root := (lg_root lg)\<lparr>hd_fmt := wg_color_fmt1\<rparr>, lg_installed := True\<rparr>)"

definition log_set_log_level :: "nat \<Rightarrow> wg_logger \<Rightarrow> wg_logger" where
  "log_set_log_level level lg = (let lg1 = log_install_formatter lg in lg1\<lparr>lg_root := (lg_root lg1)\<lparr>hd_level := level\<rparr>\<rparr>)"

definition log_set_quiet_mode :: "bool \<Rightarrow> wg_logger \<Rightarrow> wg_logger" where
  "log_set_quiet_mode quiet lg = (let lg1 = log_install_formatter lg in lg1\<lparr>lg_root := (lg_root lg1)\<lparr>hd_quiet := quiet\<rparr>\<rparr>)"

text \<open>\<^verbatim>\<open>_log_message\<close> with \<^verbatim>\<open>"%s"\<close>, and \<^verbatim>\<open>dump_log\<close>: the text printed, empty when the handler is quiet or set higher.\<close>

definition log_dump :: "log_handler \<Rightarrow> log_record \<Rightarrow> string \<Rightarrow> string \<Rightarrow> string option" where
  "log_dump rh r time_buf message =
     (let level_sz = (if rec_level r < 0 then 0 else nat (rec_level r)) in
      if \<not> hd_quiet rh \<and> level_sz \<ge> hd_level rh
      then map_option (\<lambda>head. head @ message @ [CHR 0x0A]) (hd_fmt rh r time_buf)
      else Some [])"

definition log_message :: "int \<Rightarrow> string option \<Rightarrow> int \<Rightarrow> string \<Rightarrow> string \<Rightarrow> wg_logger \<Rightarrow> (string \<times> wg_logger) option" where
  "log_message level file line formatted time_buf lg =
     (let lg1 = log_install_formatter lg;
          has_file = (case file of None \<Rightarrow> False | Some f \<Rightarrow> f \<noteq> []);
          source_file = (if has_file then file else None);
          source_line = (if has_file \<and> line > 0 then line else -1);
          message = take 2047 formatted in
      map_option (\<lambda>printed. (printed, lg1)) (log_dump (lg_root lg1) \<lparr>rec_level = level, rec_file = source_file, rec_line = source_line\<rparr> time_buf message))"

definition log_message_simple :: "int \<Rightarrow> string \<Rightarrow> string \<Rightarrow> wg_logger \<Rightarrow> (string \<times> wg_logger) option" where
  "log_message_simple level formatted time_buf lg =
     log_message level None (-1) (take 2047 formatted) time_buf (log_install_formatter lg)"

section \<open>What is printed\<close>

text \<open>A path shown with a line is one that a reader can follow: absolute, a URL, or from the current directory.\<close>

lemma shown_path:
  assumes "p \<noteq> []" and "NUL \<notin> set p" and "length p < 1022"
  shows "wg_format_source_path (Some p) 1024 = (if wg_path_is_absolute_local (Some p) then p else ''./'' @ p)"
  using assms by (simp add: wg_format_source_path_def)

text \<open>
  With the six levels nothing is read outside the tables; a level outside them is let through when the
  handler's level allows it, a negative one as if it were 0, and then reads outside.
\<close>

lemma log_message_levels:
  "0 \<le> level \<and> level < 6 \<Longrightarrow> lg_installed lg \<longrightarrow> hd_fmt (lg_root lg) = wg_color_fmt1 \<Longrightarrow>
     log_message level file line s t lg \<noteq> None"
  "level < 0 \<or> 6 \<le> level \<Longrightarrow> lg_installed lg \<longrightarrow> hd_fmt (lg_root lg) = wg_color_fmt1 \<Longrightarrow> \<not> hd_quiet (lg_root lg) \<Longrightarrow>
     hd_level (lg_root lg) = 0 \<Longrightarrow> log_message level file line s t lg = None"
  by (auto simp: log_message_def log_dump_def log_install_formatter_def wg_color_fmt1_def at_level_def level_colors_def level_strings_def Let_def)

end
