(* ===== verification/WebsocketWasm.thy ===== *)
theory WebsocketWasm
  imports CString "HOL-Library.Monad_Syntax"
begin

text \<open>
  Websockets in the browser build, \<^verbatim>\<open>src/websocket/websocket.wasm.c\<close>: the socket belongs to the browser,
  which calls back. What is asked of it is a log, and its answers are arguments; the application's callbacks
  that are set are flags, and the calls of them a log. A handle is \<open>None\<close> when it is \<open>NULL\<close>; the
  state of a live one is the record. The browser calls back on a socket until it has been deleted.
\<close>

section \<open>Data\<close>

datatype ws_js_call =
    JsClose int string
  | JsDelete
  | JsSendText string
  | JsSendBinary "byte list" "32 word"

datatype ws_app_call =
    OnOpen
  | OnError
  | OnClose int string
  | OnMessage "byte list" "32 word" bool

record websocket_callbacks =
  cb_on_open :: bool
  cb_on_close :: bool
  cb_on_error :: bool
  cb_on_message :: bool

record websocket_wasm =
  ww_socket :: int
  ww_url :: string
  ww_connected :: bool
  ww_callbacks :: websocket_callbacks
  ww_js :: "ws_js_call list"
  ww_app :: "ws_app_call list"

definition ww_call :: "bool \<Rightarrow> ws_app_call \<Rightarrow> websocket_wasm \<Rightarrow> websocket_wasm" where
  "ww_call is_set c ws = (if is_set then ws\<lparr>ww_app := ww_app ws @ [c]\<rparr> else ws)"

section \<open>Callbacks\<close>

definition ws_cb_on_open :: "websocket_wasm \<Rightarrow> websocket_wasm" where
  "ws_cb_on_open ws = ww_call (cb_on_open (ww_callbacks ws)) OnOpen (ws\<lparr>ww_connected := True\<rparr>)"

definition ws_cb_on_error :: "websocket_wasm \<Rightarrow> websocket_wasm" where
  "ws_cb_on_error ws = ww_call (cb_on_error (ww_callbacks ws)) OnError (ws\<lparr>ww_connected := False\<rparr>)"

definition ws_cb_on_close :: "int \<Rightarrow> string \<Rightarrow> websocket_wasm \<Rightarrow> websocket_wasm" where
  "ws_cb_on_close code reason ws = ww_call (cb_on_close (ww_callbacks ws)) (OnClose code reason) (ws\<lparr>ww_connected := False\<rparr>)"

definition ws_cb_on_message :: "byte list \<Rightarrow> 32 word \<Rightarrow> bool \<Rightarrow> websocket_wasm \<Rightarrow> websocket_wasm" where
  "ws_cb_on_message data num_bytes is_text ws = ww_call (cb_on_message (ww_callbacks ws)) (OnMessage data num_bytes is_text) ws"

section \<open>Calls\<close>

text \<open>\<open>socket\<close> is what \<^verbatim>\<open>emscripten_websocket_new\<close> answers.\<close>

definition websocket_create_wasm :: "bool \<Rightarrow> int \<Rightarrow> string option \<Rightarrow> websocket_callbacks option \<Rightarrow> websocket_wasm option" where
  "websocket_create_wasm mem_ok socket url callbacks = (case url of
     None \<Rightarrow> None
   | Some u \<Rightarrow>
       if \<not> mem_ok then None
       else if socket \<le> 0 then None
       else Some \<lparr>ww_socket = socket, ww_url = take 255 u, ww_connected = False,
         ww_callbacks = (case callbacks of None \<Rightarrow> \<lparr>cb_on_open = False, cb_on_close = False, cb_on_error = False, cb_on_message = False\<rparr> | Some c \<Rightarrow> c),
         ww_js = [], ww_app = []\<rparr>)"

text \<open>What is asked of the browser before the handle is freed.\<close>

definition websocket_destroy_wasm :: "websocket_wasm option \<Rightarrow> ws_js_call list" where
  "websocket_destroy_wasm w = (case w of None \<Rightarrow> []
     | Some ws \<Rightarrow> if ww_socket ws > 0 then [JsClose 1000 ''Client closing'', JsDelete] else [])"

definition websocket_send_text_wasm :: "int \<Rightarrow> websocket_wasm option \<Rightarrow> string option \<Rightarrow> int \<times> websocket_wasm option" where
  "websocket_send_text_wasm js_result w str = (case (w, str) of
     (Some ws, Some s) \<Rightarrow>
       if \<not> ww_connected ws then (-1, w)
       else (if js_result < 0 then -1 else 0, Some (ws\<lparr>ww_js := ww_js ws @ [JsSendText s]\<rparr>))
   | _ \<Rightarrow> (-1, w))"

definition websocket_send_binary_wasm :: "int \<Rightarrow> websocket_wasm option \<Rightarrow> byte list option \<Rightarrow> size_t \<Rightarrow> int \<times> websocket_wasm option" where
  "websocket_send_binary_wasm js_result w data len = (case (w, data) of
     (Some ws, Some d) \<Rightarrow>
       if len = 0 \<or> \<not> ww_connected ws then (-1, w)
       else (if js_result < 0 then -1 else 0, Some (ws\<lparr>ww_js := ww_js ws @ [JsSendBinary d (ucast len)]\<rparr>))
   | _ \<Rightarrow> (-1, w))"

definition websocket_close_wasm :: "websocket_wasm option \<Rightarrow> int \<Rightarrow> string option \<Rightarrow> websocket_wasm option" where
  "websocket_close_wasm w code reason = (case w of None \<Rightarrow> None
     | Some ws \<Rightarrow>
         if ww_socket ws \<le> 0 then w
         else Some (ws\<lparr>ww_js := ww_js ws @ [JsClose (uint (word_of_int code :: 16 word)) (case reason of None \<Rightarrow> [] | Some r \<Rightarrow> r)]\<rparr>))"

definition websocket_is_connected_wasm :: "websocket_wasm option \<Rightarrow> bool" where
  "websocket_is_connected_wasm w = (case w of None \<Rightarrow> False | Some ws \<Rightarrow> ww_connected ws)"

definition websocket_get_url_wasm :: "websocket_wasm option \<Rightarrow> string option" where
  "websocket_get_url_wasm w = map_option ww_url w"

section \<open>Runs\<close>

datatype ws_browser_event =
    BrOpen
  | BrError
  | BrClose int string
  | BrMessage "byte list" "32 word" bool

datatype ws_wasm_action = Browser ws_browser_event | SendText string int | SendBinary "byte list" size_t int | Close int string

fun ws_wasm_act :: "ws_wasm_action \<Rightarrow> websocket_wasm \<Rightarrow> websocket_wasm" where
  "ws_wasm_act (Browser BrOpen) ws = ws_cb_on_open ws"
| "ws_wasm_act (Browser BrError) ws = ws_cb_on_error ws"
| "ws_wasm_act (Browser (BrClose code reason)) ws = ws_cb_on_close code reason ws"
| "ws_wasm_act (Browser (BrMessage d n b)) ws = ws_cb_on_message d n b ws"
| "ws_wasm_act (SendText s r) ws = the (snd (websocket_send_text_wasm r (Some ws) (Some s)))"
| "ws_wasm_act (SendBinary d n r) ws = the (snd (websocket_send_binary_wasm r (Some ws) (Some d) n))"
| "ws_wasm_act (Close code reason) ws = the (websocket_close_wasm (Some ws) code (Some reason))"

text \<open>Whether the last of the events that say so is an opening.\<close>

fun open_after :: "bool \<Rightarrow> ws_wasm_action list \<Rightarrow> bool" where
  "open_after b [] = b"
| "open_after b (a # as) = open_after (case a of Browser BrOpen \<Rightarrow> True | Browser BrError \<Rightarrow> False | Browser (BrClose c r) \<Rightarrow> False | _ \<Rightarrow> b) as"

fun reported :: "ws_wasm_action list \<Rightarrow> ws_app_call list" where
  "reported [] = []"
| "reported (Browser BrOpen # as) = OnOpen # reported as"
| "reported (Browser BrError # as) = OnError # reported as"
| "reported (Browser (BrClose c r) # as) = OnClose c r # reported as"
| "reported (Browser (BrMessage d n b) # as) = OnMessage d n b # reported as"
| "reported (_ # as) = reported as"

fun sent :: "bool \<Rightarrow> ws_wasm_action list \<Rightarrow> ws_js_call list" where
  "sent b [] = []"
| "sent b (a # as) = (case a of
     SendText s r \<Rightarrow> (if b then [JsSendText s] else [])
   | SendBinary d n r \<Rightarrow> (if b \<and> n \<noteq> 0 then [JsSendBinary d (ucast n)] else [])
   | Close c r \<Rightarrow> [JsClose (uint (word_of_int c :: 16 word)) r]
   | _ \<Rightarrow> []) @ sent (open_after b [a]) as"

text \<open>
  With all callbacks set, the application hears of every event of the browser, in order; the socket counts as
  connected exactly while the last opening, error or closing was an opening; and exactly what is sent in such a
  time is handed to the browser.
\<close>

lemma ws_wasm_run:
  assumes "ww_callbacks ws = \<lparr>cb_on_open = True, cb_on_close = True, cb_on_error = True, cb_on_message = True\<rparr>" and "ww_socket ws > 0"
  shows "let ws' = fold ws_wasm_act as ws in
    ww_app ws' = ww_app ws @ reported as \<and> ww_js ws' = ww_js ws @ sent (ww_connected ws) as \<and>
    websocket_is_connected_wasm (Some ws') = open_after (ww_connected ws) as"
  using assms
proof (induction as arbitrary: ws)
  case Nil
  then show ?case by (simp add: websocket_is_connected_wasm_def)
next
  case (Cons a as)
  have keep: "ww_callbacks (ws_wasm_act a ws) = ww_callbacks ws" "ww_socket (ws_wasm_act a ws) = ww_socket ws"
    by (cases "(a, ws)" rule: ws_wasm_act.cases; simp add: ws_cb_on_open_def ws_cb_on_error_def ws_cb_on_close_def ws_cb_on_message_def ww_call_def
        websocket_send_text_wasm_def websocket_send_binary_wasm_def websocket_close_wasm_def)+
  have "ww_connected (ws_wasm_act a ws) = open_after (ww_connected ws) [a] \<and>
      ww_app (ws_wasm_act a ws) = ww_app ws @ reported [a] \<and>
      ww_js (ws_wasm_act a ws) = ww_js ws @ sent (ww_connected ws) [a]"
    using Cons.prems
    by (cases "(a, ws)" rule: ws_wasm_act.cases; simp add: ws_cb_on_open_def ws_cb_on_error_def ws_cb_on_close_def ws_cb_on_message_def ww_call_def
        websocket_send_text_wasm_def websocket_send_binary_wasm_def websocket_close_wasm_def)
  moreover have "reported (a # as) = reported [a] @ reported as" by (cases "(a # as)" rule: reported.cases) simp_all
  ultimately show ?case using Cons.IH [of "ws_wasm_act a ws"] Cons.prems keep by (simp add: Let_def)
qed

end
