(* ===== verification/Vec.thy ===== *)
theory Vec
  imports Prelude
begin

text \<open>
  Vectors changed in place, \<^verbatim>\<open>src/vec/vec3.h\<close>. A vector is a cell of the heap, so that both arguments of an
  operation may be the same one; every assignment of the source reads the heap the one before it left. The
  numbers are of any type with the operations of \<open>float\<close>, of which no law is assumed; \<open>sqrtf\<close>
  is an argument.

  The lemmas say that each operation computes from the vectors as they were, also when they are the same.
\<close>

record 'f Vector3 =
  v_x :: 'f
  v_y :: 'f
  v_z :: 'f

section \<open>Operations\<close>

text \<open>\<^verbatim>\<open>v->x = e\<close>, where \<open>e\<close> reads the heap.\<close>

definition assign_x :: "addr \<Rightarrow> ('f Vector3 heap \<Rightarrow> 'f option) \<Rightarrow> 'f Vector3 heap \<Rightarrow> 'f Vector3 heap option" where
  "assign_x v e h = do { r \<leftarrow> e h; h_modify h v (v_x_update (\<lambda>_. r)) }"

definition assign_y :: "addr \<Rightarrow> ('f Vector3 heap \<Rightarrow> 'f option) \<Rightarrow> 'f Vector3 heap \<Rightarrow> 'f Vector3 heap option" where
  "assign_y v e h = do { r \<leftarrow> e h; h_modify h v (v_y_update (\<lambda>_. r)) }"

definition assign_z :: "addr \<Rightarrow> ('f Vector3 heap \<Rightarrow> 'f option) \<Rightarrow> 'f Vector3 heap \<Rightarrow> 'f Vector3 heap option" where
  "assign_z v e h = do { r \<leftarrow> e h; h_modify h v (v_z_update (\<lambda>_. r)) }"

text \<open>A field of one cell and the same field of another, under an operation.\<close>

definition read2 :: "('f Vector3 \<Rightarrow> 'f) \<Rightarrow> ('f \<Rightarrow> 'f \<Rightarrow> 'f) \<Rightarrow> addr \<Rightarrow> addr \<Rightarrow> 'f Vector3 heap \<Rightarrow> 'f option" where
  "read2 field f v v2 h = do { c \<leftarrow> hp_mem h v; c2 \<leftarrow> hp_mem h v2; Some (f (field c) (field c2)) }"

definition read1 :: "('f Vector3 \<Rightarrow> 'f) \<Rightarrow> addr \<Rightarrow> 'f Vector3 heap \<Rightarrow> 'f option" where
  "read1 e v h = map_option e (hp_mem h v)"

definition vec3_set :: "addr \<Rightarrow> 'f \<Rightarrow> 'f \<Rightarrow> 'f \<Rightarrow> 'f Vector3 heap \<Rightarrow> 'f Vector3 heap option" where
  "vec3_set v x y z h = do { h1 \<leftarrow> assign_x v (\<lambda>_. Some x) h; h2 \<leftarrow> assign_y v (\<lambda>_. Some y) h1; assign_z v (\<lambda>_. Some z) h2 }"

definition vec3_add :: "addr \<Rightarrow> addr \<Rightarrow> ('f :: plus) Vector3 heap \<Rightarrow> 'f Vector3 heap option" where
  "vec3_add v v2 h = do {
     h1 \<leftarrow> assign_x v (read2 v_x (+) v v2) h;
     h2 \<leftarrow> assign_y v (read2 v_y (+) v v2) h1;
     assign_z v (read2 v_z (+) v v2) h2
   }"

definition vec3_sub :: "addr \<Rightarrow> addr \<Rightarrow> ('f :: minus) Vector3 heap \<Rightarrow> 'f Vector3 heap option" where
  "vec3_sub v v2 h = do {
     h1 \<leftarrow> assign_x v (read2 v_x (-) v v2) h;
     h2 \<leftarrow> assign_y v (read2 v_y (-) v v2) h1;
     assign_z v (read2 v_z (-) v v2) h2
   }"

definition vec3_mul :: "addr \<Rightarrow> addr \<Rightarrow> ('f :: times) Vector3 heap \<Rightarrow> 'f Vector3 heap option" where
  "vec3_mul v v2 h = do {
     h1 \<leftarrow> assign_x v (read2 v_x (*) v v2) h;
     h2 \<leftarrow> assign_y v (read2 v_y (*) v v2) h1;
     assign_z v (read2 v_z (*) v v2) h2
   }"

definition vec3_div :: "addr \<Rightarrow> addr \<Rightarrow> ('f :: divide) Vector3 heap \<Rightarrow> 'f Vector3 heap option" where
  "vec3_div v v2 h = do {
     h1 \<leftarrow> assign_x v (read2 v_x (div) v v2) h;
     h2 \<leftarrow> assign_y v (read2 v_y (div) v v2) h1;
     assign_z v (read2 v_z (div) v v2) h2
   }"

definition vec3_dot :: "addr \<Rightarrow> addr \<Rightarrow> ('f :: {plus, times}) Vector3 heap \<Rightarrow> 'f option" where
  "vec3_dot v v2 h = do {
     c \<leftarrow> hp_mem h v;
     c2 \<leftarrow> hp_mem h v2;
     Some (v_x c * v_x c2 + v_y c * v_y c2 + v_z c * v_z c2)
   }"

definition vec3_cross :: "addr \<Rightarrow> addr \<Rightarrow> ('f :: {minus, times}) Vector3 heap \<Rightarrow> 'f Vector3 heap option" where
  "vec3_cross v v2 h = do {
     c \<leftarrow> hp_mem h v;
     c2 \<leftarrow> hp_mem h v2;
     let temp = \<lparr>v_x = v_y c * v_z c2 - v_z c * v_y c2, v_y = v_z c * v_x c2 - v_x c * v_z c2, v_z = v_x c * v_y c2 - v_y c * v_x c2\<rparr>;
     h_modify h v (\<lambda>_. temp)
   }"

definition vec3_scale :: "addr \<Rightarrow> 'f \<Rightarrow> ('f :: times) Vector3 heap \<Rightarrow> 'f Vector3 heap option" where
  "vec3_scale v s h = do {
     h1 \<leftarrow> assign_x v (read1 (\<lambda>c. v_x c * s) v) h;
     h2 \<leftarrow> assign_y v (read1 (\<lambda>c. v_y c * s) v) h1;
     assign_z v (read1 (\<lambda>c. v_z c * s) v) h2
   }"

definition vec3_length_squared :: "addr \<Rightarrow> ('f :: {plus, times}) Vector3 heap \<Rightarrow> 'f option" where
  "vec3_length_squared v h = do { c \<leftarrow> hp_mem h v; Some (v_x c * v_x c + v_y c * v_y c + v_z c * v_z c) }"

definition vec3_length :: "('f \<Rightarrow> 'f) \<Rightarrow> addr \<Rightarrow> ('f :: {plus, times}) Vector3 heap \<Rightarrow> 'f option" where
  "vec3_length sqrtf v h = map_option sqrtf (vec3_length_squared v h)"

definition vec3_normalize :: "('f \<Rightarrow> 'f) \<Rightarrow> addr \<Rightarrow> ('f :: {plus, times, divide, zero, one, ord}) Vector3 heap \<Rightarrow> 'f Vector3 heap option" where
  "vec3_normalize sqrtf v h = do {
     len \<leftarrow> vec3_length sqrtf v h;
     (if len > 0 then vec3_scale v (1 div len) h else Some h)
   }"

section \<open>The operations on values\<close>

definition map2_vec :: "('f \<Rightarrow> 'f \<Rightarrow> 'f) \<Rightarrow> 'f Vector3 \<Rightarrow> 'f Vector3 \<Rightarrow> 'f Vector3" where
  "map2_vec f c c2 = \<lparr>v_x = f (v_x c) (v_x c2), v_y = f (v_y c) (v_y c2), v_z = f (v_z c) (v_z c2)\<rparr>"

lemmas assign_defs = assign_x_def assign_y_def assign_z_def read1_def read2_def h_modify_def

lemma assign_all_fields:
  fixes h :: "'f Vector3 heap"
  assumes "hp_mem h v = Some c" and "hp_mem h v2 = Some c2"
  shows "do {
     h1 \<leftarrow> assign_x v (read2 v_x f v v2) h;
     h2 \<leftarrow> assign_y v (read2 v_y f v v2) h1;
     assign_z v (read2 v_z f v v2) h2
   } = Some (h\<lparr>hp_mem := (hp_mem h)(v \<mapsto> map2_vec f c c2)\<rparr>)"
  using assms by (cases c; cases c2; cases "v = v2") (simp_all add: assign_defs map2_vec_def)

text \<open>Componentwise operations, on two vectors or twice the same one.\<close>

lemma vec3_componentwise:
  assumes "hp_mem h v = Some c" and "hp_mem h v2 = Some c2"
  shows "vec3_add v v2 h = Some (h\<lparr>hp_mem := (hp_mem h)(v \<mapsto> map2_vec (+) c c2)\<rparr>)"
    and "vec3_sub v v2 h = Some (h\<lparr>hp_mem := (hp_mem h)(v \<mapsto> map2_vec (-) c c2)\<rparr>)"
    and "vec3_mul v v2 h = Some (h\<lparr>hp_mem := (hp_mem h)(v \<mapsto> map2_vec (*) c c2)\<rparr>)"
    and "vec3_div v v2 h = Some (h\<lparr>hp_mem := (hp_mem h)(v \<mapsto> map2_vec (div) c c2)\<rparr>)"
  unfolding vec3_add_def vec3_sub_def vec3_mul_def vec3_div_def by (rule assign_all_fields [OF assms])+

lemma vec3_scale_value:
  fixes h :: "('f :: times) Vector3 heap"
  assumes "hp_mem h v = Some c"
  shows "vec3_scale v s h = Some (h\<lparr>hp_mem := (hp_mem h)(v \<mapsto> \<lparr>v_x = v_x c * s, v_y = v_y c * s, v_z = v_z c * s\<rparr>)\<rparr>)"
  using assms by (cases c) (simp add: vec3_scale_def assign_defs)

text \<open>The cross product of a vector with itself is zero, which it would not be without the copy.\<close>

lemma vec3_cross_itself:
  fixes h :: "int Vector3 heap"
  assumes "hp_mem h v = Some c"
  shows "vec3_cross v v h = Some (h\<lparr>hp_mem := (hp_mem h)(v \<mapsto> \<lparr>v_x = 0, v_y = 0, v_z = 0\<rparr>)\<rparr>)"
  using assms by (simp add: vec3_cross_def h_modify_def Let_def mult.commute)

lemma vec3_normalize_zero:
  fixes h :: "('f :: {plus, times, divide, zero, one, ord}) Vector3 heap"
  assumes "hp_mem h v = Some c" and "\<not> sqrtf (v_x c * v_x c + v_y c * v_y c + v_z c * v_z c) > 0"
  shows "vec3_normalize sqrtf v h = Some h"
  using assms by (simp add: vec3_normalize_def vec3_length_def vec3_length_squared_def)

end
