(* ===== verification/Spec2Isabelle.thy ===== *)
theory Spec2Isabelle
  imports DList LruCache Path WsDelivery EventSafety FileSafety FileSyncSafety FetchWasm JsonIo Logger WebsocketWasm Vec
begin

text \<open>
  A verification development for wgutils-c, a C library of utilities for programs that run on the desktop
  and, compiled with Emscripten, in the browser: an LRU cache, paths and URLs, an event bus, asynchronous
  operations, file access with a persistent mount in the browser, fetching of URLs, a websocket client, a
  JSON wrapper and a logger, on a few vendored libraries.

  \<^bold>\<open>Parts of the program and their theories.\<close> Each theory names the file it translates and keeps the names of the
  functions; a suffix \<open>_wasm\<close> tells the function of a browser build from the one of the same name for the desktop.

  \<^item> \<open>Prelude\<close>, \<open>CString\<close>, \<open>CNumber\<close>: the C the program uses: words and pointers, a heap with an allocator that
    may fail, doubly linked chains, strings and fixed buffers, \<^verbatim>\<open>atoi\<close> and \<^verbatim>\<open>%d\<close>.
  \<^item> \<open>DList\<close>: \<^verbatim>\<open>src/vendor/list\<close>, on the heap. Every operation refines the operation on sequences.
  \<^item> \<open>LruCache\<close>: \<^verbatim>\<open>src/lru_cache/lru_cache.c\<close>, entries on the heap, totals as 64-bit words. The abstract cache is
    a list of keys and payloads in the order of use. The locale \<open>coherent_cache\<close> says what a client may rely on
    (a hit gives what was put last) and is interpreted on the code.
  \<^item> \<open>Cwalk\<close>, \<open>CwalkSegments\<close>, \<open>CwalkNormalize\<close>, \<open>CwalkInPlace\<close>: \<^verbatim>\<open>src/vendor/cwalk/cwalk.c\<close>, every function. The
    cursors are shown to walk over the list of segments, normalization to resolve that list with a stack, and
    joining onto the output buffer to be sound for absolute paths.
  \<^item> \<open>Uri\<close>, \<open>Path\<close>: \<^verbatim>\<open>src/uri/uri.c\<close> and \<^verbatim>\<open>src/path/path.c\<close>, which call cwalk.
  \<^item> \<open>Sha1\<close>, \<open>Base64\<close>, \<open>WsUrl\<close>, \<open>Socket\<close>, \<open>WsFrame\<close>, \<open>WsHandshake\<close>, \<open>Websocket\<close>: \<^verbatim>\<open>src/websocket/websocket.c\<close>. The hash
    equals the standard's definition for any way of cutting the message; the stream loops rest on the locale
    \<open>stream_socket\<close>; the client and its worker thread are the relation of the steps between two visits to the
    mutex, with the calls of the application in any interleaving. \<open>WsSafety\<close> has the invariant and what follows
    from it for the order of events, destruction and the end of the worker; \<open>WsDelivery\<close> shows that each message
    of the server, in fragments with control frames between them, is one event with its bytes.
  \<^item> \<open>WebsocketWasm\<close>: \<^verbatim>\<open>src/websocket/websocket.wasm.c\<close>, over the sockets of the browser.
  \<^item> \<open>EventBus\<close>, \<open>EventSafety\<close>: \<^verbatim>\<open>src/event/event.c\<close> on \<^verbatim>\<open>src/vendor/ee/ee.c\<close>, over the sequences that \<open>DList\<close>
    shows lists to be, with the addresses of the nodes. Listeners are programs that call back into the bus.
    The bus refines a registry, a map from names to queues of listeners.
  \<^item> \<open>WgOp\<close>: \<^verbatim>\<open>src/async/wg_op.c\<close>. The locale \<open>async_op\<close> is the life of one operation; \<open>FileIo\<close>, \<open>FetchUrl\<close> and
    their browser builds keep their operations in it.
  \<^item> \<open>FileIo\<close>, \<open>FileSafety\<close>: \<^verbatim>\<open>src/fileio/fileio_common.c\<close> and \<^verbatim>\<open>src/fileio/fileio.c\<close>. Relative paths resolve as a stack that
    never leaves the mount point; the locale \<open>file_store\<close> is what is relied on of the file system and its streams, interpreted
    on one in memory. Written data are in the file once \<^verbatim>\<open>fclose\<close> has worked, which the code does not check. \<open>FileIoWasm\<close>, \<open>FileSyncSafety\<close>: \<^verbatim>\<open>src/fileio/fileio.wasm.c\<close> with its JavaScript, as actions
    of the application and callbacks of the browser in any order; an operation has the result of the callback it waited for.
  \<^item> \<open>FetchUrl\<close>, \<open>FetchSafety\<close>: \<^verbatim>\<open>src/fetch_url/fetch_url.c\<close> and \<^verbatim>\<open>src/fetch_url/fetch_url_common.c\<close>: result, ownership
    of the body, no block lost on any branch, the handles of libcurl included. \<open>FetchWasm\<close>: \<^verbatim>\<open>src/fetch_url/fetch_url.wasm.c\<close>,
    \<^verbatim>\<open>src/fetch_url/fetch_url_sync.wasm.c\<close>.
  \<^item> \<open>CJson\<close>, \<open>CJsonParse\<close>, \<open>CJsonPrint\<close>: the items, the parser and the printer of \<^verbatim>\<open>src/vendor/cjson/cJSON.c\<close>.
    \<open>CJsonTree\<close> says what a JSON value looks like on the heap; \<open>CJsonString\<close> that the block for a parsed string is
    large enough, although its two passes may disagree, and what escapes mean; \<open>CJsonSafety\<close> that the parser is
    safe on every input; \<open>CJsonText\<close> that the printer writes the text of the value inside its buffer;
    \<open>CJsonRoundtrip\<close> that the parser reads this text, where a number comes back up to the tolerance of \<^verbatim>\<open>compare_double\<close>; of
    the C library it assumes \<open>c_numbers\<close>, what the standard says of the conversions of \<^verbatim>\<open>double\<close>.
  \<^item> \<open>Json\<close>, \<open>JsonIo\<close>: the wrapper \<^verbatim>\<open>src/json/json.c\<close>. An object is the list of its members in the order they were
    added; a message that one program builds and prints is what another parses and reads. The
    last section below composes this with the websocket: printed values sent by a server arrive as these values.
  \<^item> \<open>Vec\<close>: \<^verbatim>\<open>src/vec/vec3.h\<close>, with arguments that may be the same vector.
  \<^item> \<open>Logger\<close>: \<^verbatim>\<open>src/logger/logger.c\<close> on \<^verbatim>\<open>src/vendor/logger-c/log.c\<close>.

  \<^bold>\<open>Reading the definitions.\<close> A \<open>NULL\<close> pointer is \<open>None\<close>. An operation whose result is an option is \<open>None\<close> where the
  C program has no defined behaviour (it reads \<open>NULL\<close>, freed memory or outside an array, or frees twice) or
  loops for ever, so that a theorem that gives \<open>Some\<close> also says that none of this happens. Out parameters are
  results. Machine integers are words; where a length is a natural number, theorems state the bound under which
  the code's casts keep it; an \<open>int\<close> that counts segments of a path is unbounded, and a size is 64 bits wide in the browser build too.
  A locale's client is given total functions, so \<open>LruCache\<close> wraps the calls of the cache for the client of \<open>coherent_cache\<close>, where an error would
  count as a rejected put or a miss; other theorems show that there is none. Strings that the items of cJSON own are values in the items.

  \<^bold>\<open>Parameters.\<close> What is not under \<^verbatim>\<open>src/\<close> is an argument of the definitions: which allocations fail, the content of
  fresh memory, the file system, sockets and name lookup, the clock, libcurl, the browser and Emscripten, the
  arithmetic of \<^verbatim>\<open>double\<close> and its conversion from and to text, the listeners of the bus. What is relied on of them is a hypothesis or a locale,
  instantiated by the witnesses.

  \<^bold>\<open>Bounds and fuel.\<close> Emission of an event takes fuel, because a listener may emit the event it listens to; the flag
  returned says that the emission came to its end, and \<open>EventSafety\<close> shows that, for listeners that do not call the bus, one
  more than the number of calls made on it is enough. The worker thread of the websocket is a relation and needs no fuel; after
  destruction it ends within five steps. Some of these steps wait: on an open connection the shutdown ends the waiting, while name
  lookup, \<^verbatim>\<open>connect\<close> and the handshake are waited for, as \<open>WsSafety\<close> shows. The parser of JSON recurses at most to its limit of 1000 levels, and with one
  more than that as fuel it never runs out, which is part of its safety; the printer, whose depth nothing in the code
  bounds, takes its depth as fuel, and more than the nesting of the value is enough. Loops over heap structures are partial functions, shown to be defined
  on well-formed structures.

  \<^bold>\<open>Not modelled.\<close> The functions of cJSON that the wrapper does not call, and \<^verbatim>\<open>json_free_string\<close>, since a printed text is a
  value here and not a block of the heap; the handlers of logger-c other than
  the root one, its locks and its dates, which are input and output; the operations of \<^verbatim>\<open>ee.c\<close> that the bus
  does not call; the thread primitives behind the websocket's mutex; examples, tests and build files.
\<close>

section \<open>JSON messages over a websocket\<close>

text \<open>The text and the length that \<^verbatim>\<open>on_message\<close> is called with.\<close>

definition event_text :: "websocket_event \<Rightarrow> string option" where
  "event_text ev = map_option (\<lambda>m. bytes_chars (take (nat (ev_len ev)) m)) (ev_message ev)"

text \<open>The event is a text message that is parsed as what is read from the text of the value, on any heap.\<close>

definition event_carries :: "'d dbl_ops \<Rightarrow> 'd num_io \<Rightarrow> 'd json \<Rightarrow> websocket_event \<Rightarrow> bool" where
  "event_carries D N v ev \<longleftrightarrow> ev_type ev = EVENT_MESSAGE \<and> ev_is_text ev \<and>
     (\<forall>g. heap_ok g \<and> hp_oom g = (\<lambda>_. False) \<longrightarrow>
        (\<exists>b g1. json_parse_with_length D N (event_text ev) g = Some (Some b, g1) \<and> json_at D g1 b (reread D N v)))"

lemma message_event_carries:
  assumes "c_strings v" and "c_numbers D N" and "nesting v \<le> CJSON_NESTING_LIMIT"
  shows "event_carries D N v (message_event (True, chars_bytes (json_text D N v)))"
proof -
  have "json_text D N v \<noteq> []" using json_text_visible [OF assms(2), of "CHR 0xEF" v] by (auto simp: visible_def)
  then have "event_text (message_event (True, chars_bytes (json_text D N v))) = Some (json_text D N v)"
    by (simp add: event_text_def message_event_def)
  then show ?thesis using parse_with_length_text [OF assms]
    unfolding event_carries_def by (fastforce simp: message_event_def json_parse_with_length_def)
qed

text \<open>
  C4. JSON values sent by a server arrive as values. The texts of any number of values, of C strings and any numbers, nested at
  most 1000 deep and each shorter than 2 GB, are sent as text messages, each
  in any number of frames of at most 16 MB, with pings and pongs anywhere between them and the bytes in segments of any size. While
  no destruction is requested and no allocation fails, the
  worker queues one event for each value, in order; and parsing what the event hands to the
  application, by its pointer and its length without a terminator, gives a tree of that value, in which numbers are what is
  read from their printed text: an integer of type \<^verbatim>\<open>int\<close> is the same, another finite number the same or one that \<^verbatim>\<open>compare_double\<close> takes
  for equal, and an infinity or NaN is \<^verbatim>\<open>null\<close>.
\<close>

theorem json_values_over_websocket:
  assumes "filter (\<lambda>f. \<not> is_control f) fs = concat (map (\<lambda>(v, parts). message_frames (True, parts)) vps)"
    and "\<forall>(v, parts) \<in> set vps. concat parts = chars_bytes (json_text D N v) \<and> length (json_text D N v) < 2 ^ 31 \<and>
      c_strings v \<and> nesting v \<le> CJSON_NESTING_LIMIT" and "c_numbers D N"
    and "\<forall>f \<in> set fs. length (snd (snd f)) \<le> ws_max_payload"
    and "\<not> ws_destroy_requested (sy_ws sys)" and "sy_oom sys = []"
    and "net_pending (sy_net sys) = concat (map frame_wire fs) @ rest"
  shows "\<exists>frag' sys' evs. ws_run (4 * length fs) (net_ready os) (WLoop frag) sys = (WLoop frag', sys') \<and>
    ws_events (sy_ws sys') = ws_events (sy_ws sys) @ evs \<and> list_all2 (\<lambda>(v, parts) ev. event_carries D N v ev) vps evs \<and>
    net_pending (sy_net sys') = rest \<and> (\<forall>(v, parts) \<in> set vps. \<forall>d \<in> set_json v. \<not> ni_special N d \<longrightarrow> number_kept D N d)"
proof -
  let ?ms = "map (\<lambda>(v, parts). (True, parts)) vps"
  have frames: "filter (\<lambda>f. \<not> is_control f) fs = concat (map message_frames ?ms)"
    using assms(1) by (simp add: comp_def case_prod_unfold)
  have sent: "event_carries D N (fst vp) (message_event (True, concat (snd vp)))" "snd vp \<noteq> []"
    "length (concat (snd vp)) < 2 ^ 31" if "vp \<in> set vps" for vp
  proof -
    have a: "concat (snd vp) = chars_bytes (json_text D N (fst vp))" "length (json_text D N (fst vp)) < 2 ^ 31" "c_strings (fst vp)" "nesting (fst vp) \<le> CJSON_NESTING_LIMIT" using assms(2) that by (auto simp: case_prod_unfold)
    then show "event_carries D N (fst vp) (message_event (True, concat (snd vp)))"
      "length (concat (snd vp)) < 2 ^ 31" using message_event_carries [OF _ assms(3)] by simp_all
    have "json_text D N (fst vp) \<noteq> []" using json_text_visible [OF assms(3), of "CHR 0xEF" "fst vp"] by (auto simp: visible_def)
    then show "snd vp \<noteq> []" using a(1) by (cases "snd vp") (metis chars_bytes_eq_Nil concat.simps(1), simp)
  qed
  have "\<forall>m \<in> set ?ms. snd m \<noteq> [] \<and> length (concat (snd m)) < 2 ^ 31" using sent by (auto simp: case_prod_unfold)
  from messages_delivered [OF frames assms(4) this assms(5-7), of os frag] obtain frag' sys' where r:
    "ws_run (4 * length fs) (net_ready os) (WLoop frag) sys = (WLoop frag', sys')"
    "ws_events (sy_ws sys') = ws_events (sy_ws sys) @ map (\<lambda>m. message_event (fst m, concat (snd m))) ?ms" "net_pending (sy_net sys') = rest" by blast
  have "list_all2 (\<lambda>(v, parts) ev. event_carries D N v ev) vps (map (\<lambda>m. message_event (fst m, concat (snd m))) ?ms)"
    using sent(1) by (auto simp: list_all2_conv_all_nth case_prod_unfold)
  moreover have "\<forall>(v, parts) \<in> set vps. \<forall>d \<in> set_json v. \<not> ni_special N d \<longrightarrow> number_kept D N d" using numbers_kept [OF assms(3)] by blast
  ultimately show ?thesis using r by blast
qed

theorem json_values_over_websocket_witness:
  "\<exists>frag' sys' ev b g1. ws_run 8 (net_ready (net_os True)) (WLoop ws_frag_empty)
      ((cf_sys lost_start)\<lparr>sy_net := \<lparr>ns_in = [[1, 2, 0x5B], [0x37, 0x80, 1, 0x5D]], ns_out = [], ns_room = []\<rparr>\<rparr>) = (WLoop frag', sys') \<and>
    ws_events (sy_ws sys') = [ev] \<and> json_parse_with_length int_dbl int_num_io (event_text ev) empty_heap = Some (Some b, g1) \<and>
    json_at int_dbl g1 b (JsArray [JsNumber 7])"
proof -
  let ?s = "(cf_sys lost_start)\<lparr>sy_net := \<lparr>ns_in = [[1, 2, 0x5B], [0x37, 0x80, 1, 0x5D]], ns_out = [], ns_room = []\<rparr>\<rparr>"
  have t: "json_text int_dbl int_num_io (JsArray [JsNumber 7]) = ''[7]''" by (simp add: seven_text)
  have "\<exists>frag' sys' evs. ws_run (4 * length [(False, 1, [0x5B, 0x37]), (True, 0, [0x5D]) :: ws_frame]) (net_ready (net_os True)) (WLoop ws_frag_empty) ?s =
      (WLoop frag', sys') \<and> ws_events (sy_ws sys') = ws_events (sy_ws ?s) @ evs \<and>
      list_all2 (\<lambda>(v, parts) ev. event_carries int_dbl int_num_io v ev) [(JsArray [JsNumber 7], [[0x5B, 0x37], [0x5D]] :: byte list list)] evs \<and> net_pending (sy_net sys') = [] \<and>
      (\<forall>(v, parts) \<in> set [(JsArray [JsNumber 7], [[0x5B, 0x37], [0x5D]] :: byte list list)]. \<forall>d \<in> set_json v. \<not> ni_special int_num_io d \<longrightarrow> number_kept int_dbl int_num_io d)"
    by (rule json_values_over_websocket [OF _ _ int_numbers])
      (simp_all add: t seven_text nonul_def CJSON_NESTING_LIMIT_def is_control_def message_frames_def ws_max_payload_def
        ws_start_def websocket_init_def net_pending_def frame_wire_def ws_wire_def wire_length_def chars_bytes_def)
  then obtain frag' sys' ev where r: "ws_run 8 (net_ready (net_os True)) (WLoop ws_frag_empty) ?s = (WLoop frag', sys')"
    "ws_events (sy_ws sys') = [ev]" "event_carries int_dbl int_num_io (JsArray [JsNumber 7]) ev"
    by (auto simp: list_all2_Cons1 ws_start_def websocket_init_def)
  have "heap_ok (empty_heap :: int cjson heap) \<and> hp_oom (empty_heap :: int cjson heap) = (\<lambda>_. False)" by simp
  then have "\<exists>b g1. json_parse_with_length int_dbl int_num_io (event_text ev) empty_heap = Some (Some b, g1) \<and> json_at int_dbl g1 b (JsArray [JsNumber 7])"
    using r(3) seven_read unfolding event_carries_def by (simp del: split_paired_Ex)
  then show ?thesis using r(1,2) by blast
qed

end
